(* ===== verification/Spill_Buffer.thy ===== *)
theory Spill_Buffer
  imports Prelude
begin

text \<open>
  The spillable byte buffer of \<^verbatim>\<open>crates/sys/oxdock-pipe/src/spill.rs\<close>: bytes
  accumulate in memory and move to a temporary file once the memory threshold is
  passed. The operating system is a parameter (\<open>os\<close>): which file calls fail, how
  much a failing \<open>write_all\<close> had already written, and how many bytes a \<open>read\<close>
  call delivers. The theory states the contract of a byte queue as a locale,
  interprets it on the buffer, and derives that no byte is lost, duplicated or
  reordered.
\<close>

section \<open>The operating system seen by the buffer\<close>

datatype io_op =
    CreateSpill | OpenReader | SeekWriter | WriteAll | SeekReader | ReadFile
  | SetLen | RewindWriter | RewindReader

datatype io_error =
    IoFail io_op
  | BacklogExceeded
  | SubtractOverflow \<comment> \<open>the overflow check of \<open>write_pos - read_pos\<close>\<close>

record os =
  os_fail :: "io_op \<Rightarrow> bool"   \<comment> \<open>the call of this kind fails\<close>
  os_partial :: nat            \<comment> \<open>bytes a failing \<open>write_all\<close> wrote before it failed\<close>
  os_read :: "nat \<Rightarrow> nat"      \<comment> \<open>bytes delivered when that many are asked for\<close>

text \<open>Documented behaviour of \<open>Read::read\<close> away from end of file: progress.\<close>

definition os_progress :: "os \<Rightarrow> bool" where
  "os_progress w \<longleftrightarrow> (\<forall>n > 0. os_read w n > 0)"

text \<open>A system in which nothing fails and reads are full.\<close>

definition os_std :: os where
  "os_std = \<lparr>os_fail = (\<lambda>_. False), os_partial = 0, os_read = (\<lambda>n. n)\<rparr>"

section \<open>State\<close>

record disk_spill =
  spill_file :: "byte list"
  write_pos :: nat
  read_pos :: nat
  disk_max_backlog :: nat

datatype spill_inner = Memory "byte list" | Disk disk_spill

record spill_buffer =
  spill_inner :: spill_inner
  spill_threshold :: nat
  max_backlog :: nat

definition DEFAULT_SPILL_THRESHOLD :: nat where
  "DEFAULT_SPILL_THRESHOLD = 8 * 1024 * 1024"

definition DEFAULT_MAX_BACKLOG :: nat where
  "DEFAULT_MAX_BACKLOG = 100 * 1024 * 1024"

definition with_thresholds :: "nat \<Rightarrow> nat \<Rightarrow> spill_buffer" where
  "with_thresholds t m = \<lparr>spill_inner = Memory [], spill_threshold = t, max_backlog = m\<rparr>"

definition spill_new :: spill_buffer where
  "spill_new = with_thresholds DEFAULT_SPILL_THRESHOLD DEFAULT_MAX_BACKLOG"

section \<open>Operations on the spill file\<close>

text \<open>Writing \<open>data\<close> into a file at offset \<open>pos\<close>.\<close>

definition write_at :: "byte list \<Rightarrow> nat \<Rightarrow> byte list \<Rightarrow> byte list" where
  "write_at f pos data = take pos f @ data @ drop (pos + length data) f"

definition create_from_vec :: "os \<Rightarrow> byte list \<Rightarrow> nat \<Rightarrow> io_error + disk_spill" where
  "create_from_vec w vec m =
     (if os_fail w CreateSpill then Err (IoFail CreateSpill)
      else if os_fail w WriteAll then Err (IoFail WriteAll)
      else if os_fail w RewindWriter then Err (IoFail RewindWriter)
      else if os_fail w OpenReader then Err (IoFail OpenReader)
      else Ok \<lparr>spill_file = vec, write_pos = length vec, read_pos = 0, disk_max_backlog = m\<rparr>)"

definition write_bytes :: "os \<Rightarrow> disk_spill \<Rightarrow> byte list \<Rightarrow> disk_spill \<times> (io_error + unit)" where
  "write_bytes w d data =
     (if os_fail w SeekWriter then (d, Err (IoFail SeekWriter))
      else if write_pos d < read_pos d then (d, Err SubtractOverflow)
      else if (write_pos d - read_pos d) + length data > disk_max_backlog d
        then (d, Err BacklogExceeded)
      else if os_fail w WriteAll
        then (d\<lparr>spill_file := write_at (spill_file d) (write_pos d) (take (os_partial w) data)\<rparr>,
              Err (IoFail WriteAll))
      else (d\<lparr>spill_file := write_at (spill_file d) (write_pos d) data,
              write_pos := write_pos d + length data\<rparr>, Ok ()))"

text \<open>The bytes one \<open>read\<close> call on the spill file delivers.\<close>

definition read_chunk :: "os \<Rightarrow> disk_spill \<Rightarrow> nat \<Rightarrow> byte list" where
  "read_chunk w d to_read =
     take (os_read w to_read) (take to_read (drop (read_pos d) (spill_file d)))"

text \<open>The tail of \<open>read_bytes\<close>: a fully drained spill file is truncated and rewound.\<close>

definition settle_drained :: "os \<Rightarrow> disk_spill \<Rightarrow> byte list \<Rightarrow> disk_spill \<times> (io_error + byte list)" where
  "settle_drained w d bs =
     (let d0 = d\<lparr>read_pos := 0, write_pos := 0\<rparr> in
      if os_fail w SetLen then (d0, Err (IoFail SetLen))
      else let d1 = d0\<lparr>spill_file := []\<rparr> in
      if os_fail w RewindWriter then (d1, Err (IoFail RewindWriter))
      else if os_fail w RewindReader then (d1, Err (IoFail RewindReader))
      else (d1, Ok bs))"

definition read_bytes :: "os \<Rightarrow> disk_spill \<Rightarrow> nat \<Rightarrow> disk_spill \<times> (io_error + byte list)" where
  "read_bytes w d buf_len =
     (if write_pos d < read_pos d then (d, Err SubtractOverflow)
      else let available = write_pos d - read_pos d in
      if available = 0 then (d, Ok [])
      else if os_fail w SeekReader then (d, Err (IoFail SeekReader))
      else let to_read = min buf_len available in
      if os_fail w ReadFile then (d, Err (IoFail ReadFile))
      else let bs = read_chunk w d to_read; d' = d\<lparr>read_pos := read_pos d + length bs\<rparr> in
      if read_pos d' = write_pos d' then settle_drained w d' bs else (d', Ok bs))"

definition disk_peek_bytes :: "os \<Rightarrow> disk_spill \<Rightarrow> io_error + byte list" where
  "disk_peek_bytes w d =
     (if os_fail w SeekReader then Err (IoFail SeekReader)
      else if os_fail w ReadFile then Err (IoFail ReadFile)
      else if os_fail w RewindReader then Err (IoFail RewindReader)
      else Ok (take (write_pos d) (spill_file d)))"

section \<open>Operations on the buffer\<close>

definition push_bytes :: "os \<Rightarrow> byte list \<Rightarrow> spill_buffer \<Rightarrow> spill_buffer \<times> (io_error + unit)" where
  "push_bytes w data b =
     (case spill_inner b of
        Memory vec \<Rightarrow>
          (let original_len = length vec; vec' = vec @ data in
           if length vec' > spill_threshold b
           then (case create_from_vec w vec' (max_backlog b) of
                   Ok disk \<Rightarrow> (b\<lparr>spill_inner := Disk disk\<rparr>, Ok ())
                 | Err e \<Rightarrow> (b\<lparr>spill_inner := Memory (take original_len vec')\<rparr>, Err e))
           else (b\<lparr>spill_inner := Memory vec'\<rparr>, Ok ()))
      | Disk disk \<Rightarrow>
          (case write_bytes w disk data of (disk', r) \<Rightarrow> (b\<lparr>spill_inner := Disk disk'\<rparr>, r)))"

definition peek_bytes :: "os \<Rightarrow> spill_buffer \<Rightarrow> io_error + byte list" where
  "peek_bytes w b =
     (case spill_inner b of Memory vec \<Rightarrow> Ok vec | Disk disk \<Rightarrow> disk_peek_bytes w disk)"

text \<open>The memory branch pops from the front until the caller's buffer is full.\<close>

fun pop_front_loop :: "nat \<Rightarrow> byte list \<Rightarrow> byte list \<times> byte list" where
  "pop_front_loop 0 vec = ([], vec)"
| "pop_front_loop (Suc room) [] = ([], [])"
| "pop_front_loop (Suc room) (x # vec) =
     (case pop_front_loop room vec of (out, rest) \<Rightarrow> (x # out, rest))"

definition read_into :: "os \<Rightarrow> nat \<Rightarrow> spill_buffer \<Rightarrow> spill_buffer \<times> (io_error + byte list)" where
  "read_into w buf_len b =
     (if buf_len = 0 then (b, Ok [])
      else case spill_inner b of
        Memory vec \<Rightarrow>
          (case pop_front_loop buf_len vec of
             (out, rest) \<Rightarrow> (b\<lparr>spill_inner := Memory rest\<rparr>, Ok out))
      | Disk disk \<Rightarrow>
          (case read_bytes w disk buf_len of (disk', r) \<Rightarrow> (b\<lparr>spill_inner := Disk disk'\<rparr>, r)))"

definition buffered_bytes :: "spill_buffer \<Rightarrow> nat" where
  "buffered_bytes b =
     (case spill_inner b of Memory vec \<Rightarrow> length vec | Disk disk \<Rightarrow> write_pos disk - read_pos disk)"

definition is_spilled :: "spill_buffer \<Rightarrow> bool" where
  "is_spilled b = (case spill_inner b of Memory _ \<Rightarrow> False | Disk _ \<Rightarrow> True)"

section \<open>Abstraction and invariant\<close>

text \<open>The bytes still owed to readers, oldest first.\<close>

definition disk_content :: "disk_spill \<Rightarrow> byte list" where
  "disk_content d = drop (read_pos d) (take (write_pos d) (spill_file d))"

definition content :: "spill_buffer \<Rightarrow> byte list" where
  "content b = (case spill_inner b of Memory vec \<Rightarrow> vec | Disk disk \<Rightarrow> disk_content disk)"

definition disk_inv :: "disk_spill \<Rightarrow> bool" where
  "disk_inv d \<longleftrightarrow> read_pos d \<le> write_pos d \<and> write_pos d \<le> length (spill_file d)"

definition spill_inv :: "spill_buffer \<Rightarrow> bool" where
  "spill_inv b = (case spill_inner b of Memory vec \<Rightarrow> True | Disk disk \<Rightarrow> disk_inv disk)"

named_theorems spill_defs \<open>definitions of the spill buffer\<close>

declare write_at_def [spill_defs] create_from_vec_def [spill_defs] write_bytes_def [spill_defs]
  read_bytes_def [spill_defs] disk_peek_bytes_def [spill_defs] push_bytes_def [spill_defs]
  peek_bytes_def [spill_defs] read_into_def [spill_defs] content_def [spill_defs]
  disk_content_def [spill_defs] disk_inv_def [spill_defs] spill_inv_def [spill_defs]

lemma pop_front_loop_eq: "pop_front_loop n vec = (take n vec, drop n vec)"
  by (induction n vec rule: pop_front_loop.induct) auto

lemma disk_content_length: "disk_inv d \<Longrightarrow> length (disk_content d) = write_pos d - read_pos d"
  by (simp add: disk_content_def disk_inv_def)

lemma buffered_bytes_content: "spill_inv b \<Longrightarrow> buffered_bytes b = length (content b)"
  by (auto simp: buffered_bytes_def content_def spill_inv_def disk_content_length
      split: spill_inner.splits)

lemma write_at_inside:
  "pos \<le> length f \<Longrightarrow> take (pos + length data) (write_at f pos data) = take pos f @ data"
  by (simp add: write_at_def)

lemma write_at_before: "pos \<le> length f \<Longrightarrow> take pos (write_at f pos data) = take pos f"
  by (simp add: write_at_def)

lemma length_write_at: "pos \<le> length f \<Longrightarrow> pos + length data \<le> length (write_at f pos data)"
  by (simp add: write_at_def)

lemma write_bytes_ok:
  assumes "disk_inv d" and "write_bytes w d data = (d', Ok u)"
  shows "disk_inv d' \<and> disk_content d' = disk_content d @ data"
proof -
  have d': "d' = d\<lparr>spill_file := write_at (spill_file d) (write_pos d) data,
                    write_pos := write_pos d + length data\<rparr>"
    using assms(2) by (auto simp: write_bytes_def split: if_splits)
  have pos: "write_pos d \<le> length (spill_file d)" "read_pos d \<le> write_pos d"
    using assms(1) by (auto simp: disk_inv_def)
  then show ?thesis
    using length_write_at [OF pos(1), of data]
    by (simp add: d' disk_inv_def disk_content_def write_at_inside)
qed

lemma write_bytes_err:
  assumes "disk_inv d" and "write_bytes w d data = (d', Err e)"
  shows "disk_inv d' \<and> disk_content d' = disk_content d"
proof -
  have pos: "write_pos d \<le> length (spill_file d)" "read_pos d \<le> write_pos d"
    using assms(1) by (auto simp: disk_inv_def)
  have "d' = d \<or> d' = d\<lparr>spill_file := write_at (spill_file d) (write_pos d) (take (os_partial w) data)\<rparr>"
    using assms(2) by (auto simp: write_bytes_def split: if_splits)
  then show ?thesis
    using assms(1) length_write_at [OF pos(1), of "take (os_partial w) data"] pos
    by (auto simp: disk_inv_def disk_content_def write_at_before)
qed

lemma read_chunk_split:
  assumes "disk_inv d" and "n \<le> write_pos d - read_pos d"
  shows "disk_content d =
           read_chunk w d n @ drop (read_pos d + length (read_chunk w d n)) (take (write_pos d) (spill_file d))"
    and "length (read_chunk w d n) \<le> n"
proof -
  show "length (read_chunk w d n) \<le> n" by (simp add: read_chunk_def)
  have "read_chunk w d n = take (min (os_read w n) n) (disk_content d)"
    using assms by (simp add: read_chunk_def disk_content_def drop_take min_def)
  then have "read_chunk w d n = take (length (read_chunk w d n)) (disk_content d)"
    by (simp add: min_def)
  then have "disk_content d = read_chunk w d n @ drop (length (read_chunk w d n)) (disk_content d)"
    by (metis append_take_drop_id)
  then show "disk_content d =
      read_chunk w d n @ drop (read_pos d + length (read_chunk w d n)) (take (write_pos d) (spill_file d))"
    by (simp add: disk_content_def add.commute)
qed

lemma settle_drained_state:
  "settle_drained w d bs = (d', r) \<Longrightarrow> disk_inv d' \<and> disk_content d' = []"
  by (auto simp: settle_drained_def disk_inv_def disk_content_def Let_def split: if_splits)

lemma settle_drained_ok: "settle_drained w d bs = (d', Ok cs) \<Longrightarrow> cs = bs"
  by (auto simp: settle_drained_def Let_def split: if_splits)

text \<open>The three ways a read of the spill file can go once it has bytes to deliver.\<close>

lemma read_bytes_cases:
  assumes "read_bytes w d n = (d', r)" and "read_pos d < write_pos d"
  obtains (failed) e where "r = Err e" "d' = d" "e \<in> {IoFail SeekReader, IoFail ReadFile}"
  | (partial_read) m where "m = min n (write_pos d - read_pos d)" "r = Ok (read_chunk w d m)"
      "d' = d\<lparr>read_pos := read_pos d + length (read_chunk w d m)\<rparr>"
  | (drained) m where "m = min n (write_pos d - read_pos d)"
      "read_pos d + length (read_chunk w d m) = write_pos d"
      "settle_drained w (d\<lparr>read_pos := write_pos d\<rparr>) (read_chunk w d m) = (d', r)"
proof -
  define m where "m = min n (write_pos d - read_pos d)"
  define bs where "bs = read_chunk w d m"
  define d1 where "d1 = d\<lparr>read_pos := read_pos d + length bs\<rparr>"
  have eq: "read_bytes w d n =
      (if os_fail w SeekReader then (d, Err (IoFail SeekReader))
       else if os_fail w ReadFile then (d, Err (IoFail ReadFile))
       else if read_pos d1 = write_pos d then settle_drained w d1 bs else (d1, Ok bs))"
    using assms(2) by (simp add: read_bytes_def Let_def m_def bs_def d1_def)
  consider "os_fail w SeekReader" | "\<not> os_fail w SeekReader" "os_fail w ReadFile"
    | "\<not> os_fail w SeekReader" "\<not> os_fail w ReadFile" "read_pos d1 = write_pos d"
    | "\<not> os_fail w SeekReader" "\<not> os_fail w ReadFile" "read_pos d1 \<noteq> write_pos d"
    by blast
  then show thesis
  proof cases
    case 1 with eq assms(1) show ?thesis by (intro failed) auto
  next
    case 2 with eq assms(1) show ?thesis by (intro failed) auto
  next
    case 3
    then have "d1 = d\<lparr>read_pos := write_pos d\<rparr>" by (simp add: d1_def)
    with 3 eq assms(1) show ?thesis
      by (intro drained [OF m_def]) (auto simp: bs_def d1_def)
  next
    case 4
    with eq assms(1) show ?thesis
      by (intro partial_read [OF m_def]) (auto simp: bs_def d1_def)
  qed
qed

lemma read_bytes_empty:
  "read_pos d = write_pos d \<Longrightarrow> read_bytes w d n = (d, Ok [])"
  by (simp add: read_bytes_def)

lemma read_bytes_ok:
  assumes inv: "disk_inv d" and rd: "read_bytes w d n = (d', Ok bs)"
  shows "disk_inv d' \<and> disk_content d = bs @ disk_content d' \<and> length bs \<le> n"
proof (cases "read_pos d < write_pos d")
  case False
  with inv have "read_pos d = write_pos d" by (simp add: disk_inv_def)
  with inv rd show ?thesis by (simp add: read_bytes_empty)
next
  case True
  note split = read_chunk_split [OF inv, of "min n (write_pos d - read_pos d)" w, simplified]
  from rd True show ?thesis
  proof (cases rule: read_bytes_cases)
    case (partial_read m)
    with split inv show ?thesis by (auto simp: disk_inv_def disk_content_def)
  next
    case (drained m)
    with split settle_drained_state settle_drained_ok show ?thesis by fastforce
  qed simp
qed

lemma read_bytes_err_inv:
  assumes "disk_inv d" and "read_bytes w d n = (d', Err e)"
  shows "disk_inv d'"
proof (cases "read_pos d < write_pos d")
  case True
  with assms(2) show ?thesis
    by (cases rule: read_bytes_cases) (use assms(1) settle_drained_state in auto)
next
  case False
  with assms show ?thesis by (simp add: read_bytes_empty disk_inv_def)
qed

text \<open>A read that fails before the file is cleared leaves every byte in place.\<close>

lemma read_bytes_err_content:
  assumes "disk_inv d" and "read_bytes w d n = (d', Err e)"
    and "e \<in> {IoFail SeekReader, IoFail ReadFile}"
  shows "d' = d"
proof (cases "read_pos d < write_pos d")
  case True
  with assms(2) show ?thesis
    by (cases rule: read_bytes_cases)
      (use assms(3) in \<open>auto simp: settle_drained_def Let_def split: if_splits\<close>)
next
  case False
  with assms show ?thesis by (simp add: read_bytes_empty disk_inv_def)
qed

section \<open>The contract of a byte queue\<close>

text \<open>
  A run of a channel: a list of pushes and reads, each under its own system. The
  run collects the bytes of the pushes that reported success and the bytes the
  reads delivered.
\<close>

datatype 'w chan_op = ChPush 'w "byte list" | ChRead 'w nat

fun chan_os :: "'w chan_op \<Rightarrow> 'w" where
  "chan_os (ChPush w d) = w"
| "chan_os (ChRead w n) = w"

fun chan_run ::
  "('w \<Rightarrow> byte list \<Rightarrow> 's \<Rightarrow> 's \<times> ('e + unit)) \<Rightarrow> ('w \<Rightarrow> nat \<Rightarrow> 's \<Rightarrow> 's \<times> ('e + byte list)) \<Rightarrow>
   'w chan_op list \<Rightarrow> 's \<Rightarrow> 's \<times> byte list \<times> byte list" where
  "chan_run push rd [] s = (s, [], [])"
| "chan_run push rd (ChPush w d # ops) s =
     (case push w d s of (s1, r) \<Rightarrow>
      case chan_run push rd ops s1 of (s2, accepted, delivered) \<Rightarrow>
        (s2, (if is_ok r then d else []) @ accepted, delivered))"
| "chan_run push rd (ChRead w n # ops) s =
     (case rd w n s of (s1, r) \<Rightarrow>
      case chan_run push rd ops s1 of (s2, accepted, delivered) \<Rightarrow>
        (s2, accepted, (case r of Err e \<Rightarrow> [] | Ok bs \<Rightarrow> bs) @ delivered))"

locale byte_queue =
  fixes inv :: "'s \<Rightarrow> bool"
    and cont :: "'s \<Rightarrow> byte list"
    and lossless :: "'w \<Rightarrow> bool"
    and push :: "'w \<Rightarrow> byte list \<Rightarrow> 's \<Rightarrow> 's \<times> ('e + unit)"
    and rd :: "'w \<Rightarrow> nat \<Rightarrow> 's \<Rightarrow> 's \<times> ('e + byte list)"
  assumes push_ok: "inv s \<Longrightarrow> push w d s = (s', Ok u) \<Longrightarrow> inv s' \<and> cont s' = cont s @ d"
    and push_err: "inv s \<Longrightarrow> push w d s = (s', Err e) \<Longrightarrow> inv s' \<and> cont s' = cont s"
    and rd_ok: "inv s \<Longrightarrow> rd w n s = (s', Ok bs) \<Longrightarrow>
                  inv s' \<and> cont s = bs @ cont s' \<and> length bs \<le> n"
    and rd_err: "inv s \<Longrightarrow> rd w n s = (s', Err e) \<Longrightarrow>
                  inv s' \<and> (lossless w \<longrightarrow> cont s' = cont s)"
begin

lemma push_step:
  assumes "inv s" and "push w d s = (s', r)"
  shows "inv s' \<and> cont s' = cont s @ (if is_ok r then d else [])"
proof (cases r)
  case (Inl e)
  with push_err [OF assms(1), of w d s' e] assms(2) show ?thesis by simp
next
  case (Inr u)
  with push_ok [OF assms(1), of w d s' u] assms(2) show ?thesis by simp
qed

lemma rd_step:
  assumes "inv s" and "rd w n s = (s', r)" and "lossless w"
  shows "inv s' \<and> cont s = (case r of Err e \<Rightarrow> [] | Ok bs \<Rightarrow> bs) @ cont s'"
proof (cases r)
  case (Inl e)
  with rd_err [OF assms(1), of w n s' e] assms(2,3) show ?thesis by simp
next
  case (Inr bs)
  with rd_ok [OF assms(1), of w n s' bs] assms(2) show ?thesis by simp
qed

lemma run_fifo:
  assumes "inv s" and "\<forall>op \<in> set ops. lossless (chan_os op)"
    and "chan_run push rd ops s = (s', accepted, delivered)"
  shows "inv s' \<and> cont s @ accepted = delivered @ cont s'"
  using assms
proof (induction ops arbitrary: s accepted delivered)
  case Nil
  then show ?case by simp
next
  case (Cons op ops)
  show ?case
  proof (cases op)
    case (ChPush w d)
    obtain s1 r where push: "push w d s = (s1, r)" by fastforce
    obtain acc del where run: "chan_run push rd ops s1 = (s', acc, del)"
      and eqs: "accepted = (if is_ok r then d else []) @ acc" "delivered = del"
      using Cons.prems(3) push ChPush by (auto split: prod.splits)
    with Cons.IH [OF _ _ run] Cons.prems push_step [OF Cons.prems(1) push] show ?thesis
      by (metis append.assoc list.set_intros(2))
  next
    case (ChRead w n)
    obtain s1 r where rd: "rd w n s = (s1, r)" by fastforce
    obtain acc del where run: "chan_run push rd ops s1 = (s', acc, del)"
      and eqs: "accepted = acc" "delivered = (case r of Err e \<Rightarrow> [] | Ok bs \<Rightarrow> bs) @ del"
      using Cons.prems(3) rd ChRead by (auto split: prod.splits)
    have "lossless w" using Cons.prems(2) ChRead by simp
    with rd_step [OF Cons.prems(1) rd] Cons.IH [OF _ _ run] Cons.prems(2) eqs show ?thesis
      by simp
  qed
qed

end

section \<open>The spill buffer is a byte queue\<close>

text \<open>Only the truncation of a drained spill file can lose bytes by failing.\<close>

definition spill_lossless :: "os \<Rightarrow> bool" where
  "spill_lossless w \<longleftrightarrow> \<not> os_fail w SetLen \<and> \<not> os_fail w RewindWriter \<and> \<not> os_fail w RewindReader"

lemma create_from_vec_ok:
  "create_from_vec w vec m = Ok d \<Longrightarrow>
     disk_inv d \<and> disk_content d = vec \<and> disk_max_backlog d = m"
  by (auto simp: create_from_vec_def disk_inv_def disk_content_def split: if_splits)

lemma push_bytes_ok:
  assumes "spill_inv b" and "push_bytes w d b = (b', Ok u)"
  shows "spill_inv b' \<and> content b' = content b @ d"
proof (cases "spill_inner b")
  case (Memory vec)
  with assms show ?thesis
    by (auto simp: push_bytes_def spill_inv_def content_def Let_def create_from_vec_ok
        split: if_splits sum.splits)
next
  case (Disk dk)
  obtain dk' r where "write_bytes w dk d = (dk', r)" by fastforce
  with Disk assms write_bytes_ok [of dk w d dk' u] show ?thesis
    by (auto simp: push_bytes_def spill_inv_def content_def)
qed

lemma push_bytes_err:
  assumes "spill_inv b" and "push_bytes w d b = (b', Err e)"
  shows "spill_inv b' \<and> content b' = content b"
proof (cases "spill_inner b")
  case (Memory vec)
  with assms show ?thesis
    by (auto simp: push_bytes_def spill_inv_def content_def Let_def split: if_splits sum.splits)
next
  case (Disk dk)
  obtain dk' r where "write_bytes w dk d = (dk', r)" by fastforce
  with Disk assms write_bytes_err [of dk w d dk' e] show ?thesis
    by (auto simp: push_bytes_def spill_inv_def content_def)
qed

lemma read_into_ok:
  assumes "spill_inv b" and "read_into w n b = (b', Ok bs)"
  shows "spill_inv b' \<and> content b = bs @ content b' \<and> length bs \<le> n"
proof (cases "spill_inner b")
  case (Memory vec)
  with assms show ?thesis
    by (auto simp: read_into_def spill_inv_def content_def pop_front_loop_eq split: if_splits)
next
  case (Disk dk)
  obtain dk' r where "read_bytes w dk n = (dk', r)" by fastforce
  with Disk assms read_bytes_ok [of dk w n dk' bs] show ?thesis
    by (auto simp: read_into_def spill_inv_def content_def split: if_splits)
qed

lemma read_bytes_err_lossless:
  assumes "disk_inv d" and "read_bytes w d n = (d', Err e)" and "spill_lossless w"
  shows "d' = d"
proof (cases "read_pos d < write_pos d")
  case True
  with assms(2) show ?thesis
    by (cases rule: read_bytes_cases)
      (use assms(3) in \<open>auto simp: settle_drained_def spill_lossless_def Let_def\<close>)
next
  case False
  with assms show ?thesis by (simp add: read_bytes_empty disk_inv_def)
qed

lemma read_into_err:
  assumes "spill_inv b" and "read_into w n b = (b', Err e)"
  shows "spill_inv b' \<and> (spill_lossless w \<longrightarrow> content b' = content b)"
proof (cases "spill_inner b")
  case (Memory vec)
  with assms show ?thesis
    by (auto simp: read_into_def pop_front_loop_eq split: if_splits)
next
  case (Disk dk)
  obtain dk' r where "read_bytes w dk n = (dk', r)" by fastforce
  with Disk assms read_bytes_err_inv [of dk w n dk' e] read_bytes_err_lossless [of dk w n dk' e]
  show ?thesis
    by (auto simp: read_into_def spill_inv_def content_def split: if_splits)
qed

interpretation spill: byte_queue spill_inv content spill_lossless push_bytes read_into
  by unfold_locales (use push_bytes_ok push_bytes_err read_into_ok read_into_err in blast)+

lemma spill_inv_new [simp]: "spill_inv (with_thresholds t m)" "content (with_thresholds t m) = []"
  by (simp_all add: spill_inv_def with_thresholds_def content_def)

section \<open>Draining\<close>

lemma read_into_decreases:
  assumes "read_into w n b = (b', Ok bs)" and "bs \<noteq> []"
  shows "buffered_bytes b' < buffered_bytes b"
proof (cases "spill_inner b")
  case (Memory vec)
  with assms show ?thesis
    by (auto simp: read_into_def buffered_bytes_def pop_front_loop_eq split: if_splits)
next
  case (Disk dk)
  obtain dk' r where rd: "read_bytes w dk n = (dk', r)" by fastforce
  have *: "r = Ok bs" "spill_inner b' = Disk dk'"
    using assms Disk rd by (auto simp: read_into_def split: if_splits)
  have lt: "read_pos dk < write_pos dk"
    using rd * assms(2) by (simp add: read_bytes_def Let_def split: if_splits)
  from rd lt have "write_pos dk' - read_pos dk' < write_pos dk - read_pos dk"
  proof (cases rule: read_bytes_cases)
    case (partial_read m)
    then show ?thesis using * lt assms(2) by (auto intro!: diff_less_mono2)
  next
    case (drained m)
    then show ?thesis using lt by (auto simp: settle_drained_def Let_def split: if_splits)
  qed (use * in auto)
  with * Disk show ?thesis by (simp add: buffered_bytes_def)
qed

text \<open>
  \<open>drain_bytes\<close>: read chunks of 8192 bytes until a read delivers nothing. The
  system may change between calls, so it is a sequence; \<open>k\<close> numbers the calls.
\<close>

function drain_loop ::
  "(nat \<Rightarrow> os) \<Rightarrow> nat \<Rightarrow> spill_buffer \<Rightarrow> byte list \<Rightarrow> spill_buffer \<times> (io_error + byte list)" where
  "drain_loop w k b out =
     (case read_into (w k) 8192 b of
        (b', Err e) \<Rightarrow> (b', Err e)
      | (b', Ok bs) \<Rightarrow> if bs = [] then (b', Ok out) else drain_loop w (Suc k) b' (out @ bs))"
  by pat_completeness auto
termination
  by (relation "measure (\<lambda>(w, k, b, out). buffered_bytes b)")
    (auto dest!: read_into_decreases [OF sym])

declare drain_loop.simps [simp del]

definition drain_bytes :: "(nat \<Rightarrow> os) \<Rightarrow> spill_buffer \<Rightarrow> spill_buffer \<times> (io_error + byte list)" where
  "drain_bytes w b = drain_loop w 0 b []"

definition os_healthy :: "os \<Rightarrow> bool" where
  "os_healthy w \<longleftrightarrow> (\<forall>op. \<not> os_fail w op) \<and> os_progress w"

lemma read_chunk_progress:
  assumes "disk_inv d" "os_progress w" "0 < n" "n \<le> write_pos d - read_pos d"
  shows "read_chunk w d n \<noteq> []"
proof -
  have "0 < os_read w n" using assms(2,3) by (simp add: os_progress_def)
  moreover have "read_pos d < length (spill_file d)"
    using assms by (auto simp: disk_inv_def)
  ultimately show ?thesis using assms(3) by (simp add: read_chunk_def)
qed

lemma read_into_healthy:
  assumes "spill_inv b" "os_healthy w" "0 < n"
  obtains b' bs where "read_into w n b = (b', Ok bs)" "bs = [] \<longrightarrow> content b = []"
proof (cases "spill_inner b")
  case (Memory vec)
  with assms(3) show ?thesis
    by (intro that) (auto simp: read_into_def pop_front_loop_eq content_def)
next
  case (Disk dk)
  have inv: "disk_inv dk" using assms(1) Disk by (simp add: spill_inv_def)
  have nf: "\<not> os_fail w op" for op using assms(2) by (simp add: os_healthy_def)
  show ?thesis
  proof (cases "read_pos dk < write_pos dk")
    case True
    have "read_chunk w dk (min n (write_pos dk - read_pos dk)) \<noteq> []"
      using read_chunk_progress [OF inv, of w] assms True by (simp add: os_healthy_def)
    moreover have "snd (read_bytes w dk n) = Ok (read_chunk w dk (min n (write_pos dk - read_pos dk)))"
      using True nf by (simp add: read_bytes_def settle_drained_def Let_def)
    then obtain dk' where
      "read_bytes w dk n = (dk', Ok (read_chunk w dk (min n (write_pos dk - read_pos dk))))"
      by (metis prod.collapse)
    ultimately show ?thesis
      using Disk assms(3) by (intro that) (auto simp: read_into_def)
  next
    case False
    with inv have "read_pos dk = write_pos dk" by (simp add: disk_inv_def)
    with Disk assms(3) show ?thesis
      by (intro that) (auto simp: read_into_def read_bytes_empty content_def disk_content_def)
  qed
qed

lemma drain_loop_healthy:
  assumes "spill_inv b" and "\<forall>k. os_healthy (w k)"
  shows "\<exists>b'. drain_loop w k b out = (b', Ok (out @ content b)) \<and> spill_inv b' \<and> content b' = []"
  using assms
proof (induction w k b out rule: drain_loop.induct)
  case (1 w k b out)
  obtain b1 bs where rd: "read_into (w k) 8192 b = (b1, Ok bs)"
    and emp: "bs = [] \<longrightarrow> content b = []"
    using read_into_healthy [of b "w k" 8192] "1.prems" by auto
  note ok = read_into_ok [OF "1.prems"(1) rd]
  show ?case
  proof (cases "bs = []")
    case True
    with emp ok rd show ?thesis by (subst drain_loop.simps) simp
  next
    case False
    obtain b' where "drain_loop w (Suc k) b1 (out @ bs) = (b', Ok ((out @ bs) @ content b1))"
        "spill_inv b'" "content b' = []"
      using "1.IH" [OF rd [symmetric] _ False] "1.prems"(2) ok by blast
    with False rd ok show ?thesis by (subst drain_loop.simps) simp
  qed
qed

section \<open>Properties\<close>

text \<open>C1. No byte is lost, duplicated or reordered: over any sequence of pushes and
  reads, from any state of the buffer, in memory, on disk or spilling in between, and
  with failing file calls, the bytes the reads delivered followed by what is still
  buffered are the bytes buffered at the start followed by the data of exactly the
  pushes that reported success. The one file call that must not fail is the truncation
  (with its rewinds) of a drained spill file.\<close>

theorem spill_buffer_fifo:
  assumes "spill_inv b" and "\<forall>op \<in> set ops. spill_lossless (chan_os op)"
    and "chan_run push_bytes read_into ops b = (b', accepted, delivered)"
  shows "spill_inv b' \<and> content b @ accepted = delivered @ content b'"
  using assms by (rule spill.run_fifo)

theorem spill_buffer_fifo_witness:
  "content (fst (chan_run push_bytes read_into
      [ChPush os_std [1, 2], ChPush os_std [3], ChRead os_std 2, ChPush os_std [4]]
      (with_thresholds 2 8))) = [3, 4]"
proof -
  let ?ops = "[ChPush os_std [1, 2], ChPush os_std [3], ChRead os_std 2, ChPush os_std [4]]"
  obtain b' where run: "chan_run push_bytes read_into ?ops (with_thresholds 2 8) =
      (b', [1, 2, 3, 4], [1, 2])"
    by (simp add: with_thresholds_def push_bytes_def read_into_def create_from_vec_def
        read_bytes_def read_chunk_def write_bytes_def os_std_def Let_def)
  have "\<forall>op \<in> set ?ops. spill_lossless (chan_os op)"
    by (simp add: spill_lossless_def os_std_def)
  from spill_buffer_fifo [OF spill_inv_new(1) this run] run show ?thesis
    by simp
qed

text \<open>The truncation is a real exception: the positions are reset before it is tried, so when it fails the last
  read reports an error and the bytes it took out of the file are neither delivered nor buffered.\<close>

theorem failed_truncation_loses_bytes:
  assumes "disk_inv d" and "read_pos d < write_pos d"
  shows "\<exists>d'. read_bytes (os_std\<lparr>os_fail := (\<lambda>op. op = SetLen)\<rparr>) d (write_pos d) = (d', Err (IoFail SetLen))
    \<and> disk_content d \<noteq> [] \<and> disk_content d' = []"
  using assms
  by (auto simp: read_bytes_def read_chunk_def settle_drained_def os_std_def disk_inv_def disk_content_def Let_def)

text \<open>A push that fails (the spill file cannot be created, the backlog cap is
  passed, a write stops half way) leaves the buffered bytes exactly as they were, so a
  caller that sees the error can retry without duplicating data.\<close>

theorem failed_push_keeps_content:
  assumes "spill_inv b" and "push_bytes w d b = (b', Err e)"
  shows "content b' = content b \<and> buffered_bytes b' = buffered_bytes b \<and> spill_inv b'"
  using push_bytes_err [OF assms] assms(1) by (simp add: buffered_bytes_content)

theorem failed_push_keeps_content_witness:
  "content (fst (push_bytes (os_std\<lparr>os_fail := (\<lambda>op. op = WriteAll)\<rparr>) [7, 8]
     \<lparr>spill_inner = Memory [5, 6], spill_threshold = 3, max_backlog = 9\<rparr>)) = [5, 6]"
proof -
  let ?b = "\<lparr>spill_inner = Memory [5, 6], spill_threshold = 3, max_backlog = 9\<rparr>"
  let ?w = "os_std\<lparr>os_fail := (\<lambda>op. op = WriteAll)\<rparr>"
  have inv: "spill_inv ?b" by (simp add: spill_inv_def)
  have "snd (push_bytes ?w [7, 8] ?b) = Err (IoFail WriteAll)"
    by (simp add: push_bytes_def create_from_vec_def os_std_def Let_def)
  then have "push_bytes ?w [7, 8] ?b = (fst (push_bytes ?w [7, 8] ?b), Err (IoFail WriteAll))"
    by (metis prod.collapse)
  from failed_push_keeps_content [OF inv this] show ?thesis by (simp add: content_def)
qed

text \<open>Draining terminates and hands out everything: on a system whose file calls
  succeed and whose reads make progress (however short they are), the 8192-byte loop
  returns exactly the buffered bytes and leaves the buffer empty.\<close>

theorem drain_bytes_complete:
  assumes "spill_inv b" and "\<forall>k. os_healthy (w k)"
  shows "\<exists>b'. drain_bytes w b = (b', Ok (content b)) \<and> spill_inv b' \<and> content b' = []"
  using drain_loop_healthy [OF assms, of 0 "[]"] by (simp add: drain_bytes_def)

theorem drain_bytes_complete_witness:
  "\<exists>b'. drain_bytes (\<lambda>_. os_std\<lparr>os_read := (\<lambda>n. min n 1)\<rparr>)
     \<lparr>spill_inner = Disk \<lparr>spill_file = [1, 2, 3], write_pos = 3, read_pos = 1, disk_max_backlog = 9\<rparr>,
       spill_threshold = 2, max_backlog = 9\<rparr> = (b', Ok [2, 3]) \<and> spill_inv b' \<and> content b' = []"
proof -
  let ?b = "\<lparr>spill_inner = Disk \<lparr>spill_file = [1, 2, 3], write_pos = 3, read_pos = 1,
    disk_max_backlog = 9\<rparr>, spill_threshold = 2, max_backlog = 9\<rparr>"
  have inv: "spill_inv ?b" by (simp add: spill_inv_def disk_inv_def)
  have os: "\<forall>k::nat. os_healthy ((\<lambda>_. os_std\<lparr>os_read := (\<lambda>n. min n 1)\<rparr>) k)"
    by (simp add: os_healthy_def os_progress_def os_std_def)
  have "content ?b = [2, 3]" by (simp add: content_def disk_content_def)
  with drain_bytes_complete [OF inv os] show ?thesis by simp
qed

text \<open>What \<open>peek_bytes\<close> returns. In memory it is the buffered bytes. On disk it
  is every byte of the spill file below the write position, which includes the bytes
  readers have already consumed: the snapshot equals the buffered bytes only while
  nothing has been read since the spill.\<close>

theorem peek_bytes_exact:
  assumes "spill_inv b" and "peek_bytes w b = Ok bs"
  shows "bs = (case spill_inner b of Memory _ \<Rightarrow> [] | Disk d \<Rightarrow> take (read_pos d) (spill_file d)) @ content b"
proof (cases "spill_inner b")
  case (Memory vec)
  with assms show ?thesis by (simp add: peek_bytes_def content_def)
next
  case (Disk d)
  then have "read_pos d \<le> write_pos d" using assms(1) by (simp add: spill_inv_def disk_inv_def)
  then have "take (write_pos d) (spill_file d) = take (read_pos d) (spill_file d) @ disk_content d"
    unfolding disk_content_def by (metis append_take_drop_id min.absorb1 take_take)
  with Disk assms(2) show ?thesis
    by (auto simp: peek_bytes_def disk_peek_bytes_def content_def split: if_splits)
qed

theorem peek_bytes_exact_witness:
  "peek_bytes os_std (fst (read_into os_std 1 (fst (push_bytes os_std [1, 2, 3] (with_thresholds 2 8)))))
     = Ok [1, 2, 3]
   \<and> content (fst (read_into os_std 1 (fst (push_bytes os_std [1, 2, 3] (with_thresholds 2 8))))) = [2, 3]"
proof -
  let ?d = "\<lparr>spill_file = [1, 2, 3], write_pos = 3, read_pos = 1, disk_max_backlog = 8\<rparr>"
  let ?b = "\<lparr>spill_inner = Disk ?d, spill_threshold = 2, max_backlog = 8\<rparr>"
  have b: "fst (read_into os_std 1 (fst (push_bytes os_std [1, 2, 3] (with_thresholds 2 8)))) = ?b"
    by (simp add: with_thresholds_def push_bytes_def read_into_def create_from_vec_def
        read_bytes_def read_chunk_def os_std_def Let_def)
  have inv: "spill_inv ?b" by (simp add: spill_inv_def disk_inv_def)
  obtain bs where pk: "peek_bytes os_std ?b = Ok bs"
    by (simp add: peek_bytes_def disk_peek_bytes_def os_std_def)
  have "content ?b = [2, 3]" by (simp add: content_def disk_content_def)
  with peek_bytes_exact [OF inv pk] pk b show ?thesis by simp
qed

text \<open>The backlog cap. A buffer on disk never grows past the cap it was created
  with: a push that would exceed it is refused. The push that moves the buffer from
  memory to disk is not checked against the cap, so right after it the backlog is the
  whole pushed length, whatever the cap is.\<close>

theorem backlog_cap:
  assumes "spill_inv b" and "push_bytes w d b = (b', Ok u)"
  shows "(\<exists>dk. spill_inner b = Disk dk \<and> buffered_bytes b' \<le> disk_max_backlog dk) \<or>
         (\<exists>vec. spill_inner b = Memory vec \<and> \<not> is_spilled b' \<and> buffered_bytes b' \<le> spill_threshold b) \<or>
         (\<exists>vec. spill_inner b = Memory vec \<and> is_spilled b' \<and> buffered_bytes b' = length vec + length d)"
proof (cases "spill_inner b")
  case (Memory vec)
  have len: "buffered_bytes b' = length vec + length d"
    using push_bytes_ok [OF assms] Memory by (simp add: buffered_bytes_content content_def)
  have "\<not> is_spilled b' \<Longrightarrow> length vec + length d \<le> spill_threshold b"
    using assms(2) Memory
    by (auto simp: push_bytes_def is_spilled_def Let_def split: if_splits sum.splits)
  with len Memory show ?thesis by auto
next
  case (Disk dk)
  then show ?thesis
    using assms(2)
    by (auto simp: push_bytes_def write_bytes_def buffered_bytes_def split: prod.splits if_splits)
qed

theorem backlog_cap_witness:
  "buffered_bytes (fst (push_bytes os_std [1, 2, 3] (with_thresholds 2 1))) = 3"
proof -
  obtain b' where p: "push_bytes os_std [1, 2, 3] (with_thresholds 2 1) = (b', Ok ())"
      and s: "is_spilled b'"
    by (simp add: with_thresholds_def push_bytes_def create_from_vec_def os_std_def is_spilled_def)
  from backlog_cap [OF spill_inv_new(1) p] s p show ?thesis
    by (auto simp: with_thresholds_def)
qed

end
