(* ===== verification/Pipe_Backend.thy ===== *)
theory Pipe_Backend
  imports Spill_Buffer
begin

text \<open>
  The script-pipe backend of \<^verbatim>\<open>crates/sys/oxdock-pipe/src/backend.rs\<close>: one
  spill buffer with writer and keeper counts, a closed and a cancelled latch, and
  readers that park on a condition variable. Every operation runs under the state
  mutex, so an execution is a sequence of operations; a parked reader is a member of
  \<open>waiting\<close> until an operation that calls \<open>notify_all\<close> empties the set.
\<close>

section \<open>State and operations\<close>

record pipe_state =
  buffer :: spill_buffer
  writers :: nat
  keepers :: nat
  closed :: bool
  cancelled :: bool

definition pipe_state_new :: "nat \<Rightarrow> nat \<Rightarrow> pipe_state" where
  "pipe_state_new t m =
     \<lparr>buffer = with_thresholds t m, writers = 0, keepers = 0, closed = False, cancelled = False\<rparr>"

definition attach_writer :: "pipe_state \<Rightarrow> pipe_state" where
  "attach_writer p = p\<lparr>writers := writers p + 1, closed := False, cancelled := False\<rparr>"

definition cancel :: "pipe_state \<Rightarrow> pipe_state" where
  "cancel p = p\<lparr>cancelled := True\<rparr>"

definition detach_writer :: "pipe_state \<Rightarrow> pipe_state" where
  "detach_writer p =
     (let p' = p\<lparr>writers := writers p - 1\<rparr> in
      if writers p' = 0 \<and> keepers p' = 0 then p'\<lparr>closed := True\<rparr> else p')"

definition force_close :: "pipe_state \<Rightarrow> pipe_state" where
  "force_close p = p\<lparr>closed := True\<rparr>"

definition pin_keeper :: "pipe_state \<Rightarrow> pipe_state" where
  "pin_keeper p = p\<lparr>keepers := keepers p + 1\<rparr>"

definition unpin_keeper :: "pipe_state \<Rightarrow> pipe_state" where
  "unpin_keeper p =
     (let p' = p\<lparr>keepers := keepers p - 1\<rparr> in
      if writers p' = 0 \<and> keepers p' = 0 then p'\<lparr>closed := True\<rparr> else p')"

definition pipe_push :: "os \<Rightarrow> byte list \<Rightarrow> pipe_state \<Rightarrow> pipe_state \<times> (io_error + unit)" where
  "pipe_push w data p =
     (case push_bytes w data (buffer p) of (b', r) \<Rightarrow> (p\<lparr>buffer := b'\<rparr>, r))"

text \<open>One pass of the \<open>read_into\<close> loop: it returns to the caller or waits.\<close>

datatype poll = Return "io_error + byte list" | Wait

definition pipe_read :: "os \<Rightarrow> nat \<Rightarrow> pipe_state \<Rightarrow> pipe_state \<times> poll" where
  "pipe_read w buf_len p =
     (if buf_len = 0 then (p, Return (Ok []))
      else case read_into w buf_len (buffer p) of
        (b', Err e) \<Rightarrow> (p\<lparr>buffer := b'\<rparr>, Return (Err e))
      | (b', Ok bs) \<Rightarrow>
          (let p' = p\<lparr>buffer := b'\<rparr> in
           if length bs > 0 then (p', Return (Ok bs))
           else if closed p' \<or> cancelled p' then (p', Return (Ok []))
           else (p', Wait)))"

text \<open>\<open>KeeperGuard::new\<close> and its \<open>Drop\<close>; \<open>PipeWriter::new\<close> and its \<open>Drop\<close>.\<close>

definition keeper_guard_new :: "pipe_state \<Rightarrow> pipe_state" where
  "keeper_guard_new p = pin_keeper p"

definition keeper_guard_drop :: "pipe_state \<Rightarrow> pipe_state" where
  "keeper_guard_drop p = unpin_keeper p"

lemmas pipe_defs = attach_writer_def cancel_def detach_writer_def force_close_def
  pin_keeper_def unpin_keeper_def keeper_guard_new_def keeper_guard_drop_def Let_def

section \<open>Readers and writers in parallel\<close>

datatype pipe_event =
    EAttach | EDetach | EPin | EUnpin | EForceClose | ECancel
  | EPush os "byte list"
  | ERead nat os nat  \<comment> \<open>reader, system, buffer length\<close>
  | ESpurious nat     \<comment> \<open>a spurious wake-up of a parked reader\<close>

record pipe_sys =
  pipe :: pipe_state
  waiting :: "nat set"
  accepted :: "byte list"   \<comment> \<open>data of the pushes that succeeded, in order\<close>
  delivered :: "byte list"  \<comment> \<open>bytes handed to readers, in order\<close>

definition pipe_sys_new :: "nat \<Rightarrow> nat \<Rightarrow> pipe_sys" where
  "pipe_sys_new t m =
     \<lparr>pipe = pipe_state_new t m, waiting = {}, accepted = [], delivered = []\<rparr>"

text \<open>\<open>ready.notify_all()\<close> after an operation on the state.\<close>

definition notify_all :: "pipe_state \<Rightarrow> pipe_sys \<Rightarrow> pipe_sys" where
  "notify_all p s = s\<lparr>pipe := p, waiting := {}\<rparr>"

fun pipe_do :: "pipe_event \<Rightarrow> pipe_sys \<Rightarrow> pipe_sys" where
  "pipe_do EAttach s = s\<lparr>pipe := attach_writer (pipe s)\<rparr>"
| "pipe_do EDetach s = notify_all (detach_writer (pipe s)) s"
| "pipe_do EPin s = s\<lparr>pipe := pin_keeper (pipe s)\<rparr>"
| "pipe_do EUnpin s = notify_all (unpin_keeper (pipe s)) s"
| "pipe_do EForceClose s = notify_all (force_close (pipe s)) s"
| "pipe_do ECancel s = notify_all (cancel (pipe s)) s"
| "pipe_do (EPush w d) s =
     (case pipe_push w d (pipe s) of
        (p', r) \<Rightarrow> (notify_all p' s)\<lparr>accepted := accepted s @ (if is_ok r then d else [])\<rparr>)"
| "pipe_do (ERead t w n) s =
     (case pipe_read w n (pipe s) of
        (p', Wait) \<Rightarrow> s\<lparr>pipe := p', waiting := insert t (waiting s)\<rparr>
      | (p', Return (Ok bs)) \<Rightarrow> s\<lparr>pipe := p', delivered := delivered s @ bs\<rparr>
      | (p', Return (Err e)) \<Rightarrow> s\<lparr>pipe := p'\<rparr>)"
| "pipe_do (ESpurious t) s = s\<lparr>waiting := waiting s - {t}\<rparr>"

text \<open>
  A parked reader runs again only after it was woken. The update of the state under the lock and the \<open>notify_all\<close> that
  follows its release are one step here: the states in which a notification is still pending are left out. In these a reader
  parked earlier may be asleep although there is something to read; one that comes later reads the new state. Reads are restricted to a system that reads at least a byte when there is one and whose truncation
  of a drained spill file does not fail.
\<close>

inductive pipe_step :: "pipe_sys \<Rightarrow> pipe_event \<Rightarrow> pipe_sys \<Rightarrow> bool" where
  step_read: "t \<notin> waiting s \<Longrightarrow> os_progress w \<Longrightarrow> spill_lossless w \<Longrightarrow>
     pipe_step s (ERead t w n) (pipe_do (ERead t w n) s)"
| step_other: "(\<nexists>t w n. e = ERead t w n) \<Longrightarrow> pipe_step s e (pipe_do e s)"

inductive pipe_reachable :: "nat \<Rightarrow> nat \<Rightarrow> pipe_sys \<Rightarrow> bool" for th :: nat and mb :: nat where
  start: "pipe_reachable th mb (pipe_sys_new th mb)"
| step: "pipe_reachable th mb s \<Longrightarrow> pipe_step s e s' \<Longrightarrow> pipe_reachable th mb s'"

inductive_cases pipe_stepE: "pipe_step s e s'"

definition blocked :: "pipe_state \<Rightarrow> bool" where
  "blocked p \<longleftrightarrow> content (buffer p) = [] \<and> \<not> closed p \<and> \<not> cancelled p"

definition pipe_inv :: "pipe_sys \<Rightarrow> bool" where
  "pipe_inv s \<longleftrightarrow> spill_inv (buffer (pipe s)) \<and> (waiting s \<noteq> {} \<longrightarrow> blocked (pipe s)) \<and>
     accepted s = delivered s @ content (buffer (pipe s))"

section \<open>The pipe as a byte queue\<close>

text \<open>The non-blocking view of a read: waiting delivers nothing yet.\<close>

definition pipe_try_read :: "os \<Rightarrow> nat \<Rightarrow> pipe_state \<Rightarrow> pipe_state \<times> (io_error + byte list)" where
  "pipe_try_read w n p =
     (case pipe_read w n p of (p', Return r) \<Rightarrow> (p', r) | (p', Wait) \<Rightarrow> (p', Ok []))"

lemma pipe_try_read_eq:
  "pipe_try_read w n p =
     (if n = 0 then (p, Ok []) else
      case read_into w n (buffer p) of (b', r) \<Rightarrow> (p\<lparr>buffer := b'\<rparr>, r))"
  by (auto simp: pipe_try_read_def pipe_read_def Let_def split: prod.splits sum.splits)

lemma pipe_pushD: "pipe_push w d s = (s', r) \<Longrightarrow> push_bytes w d (buffer s) = (buffer s', r)"
  by (auto simp: pipe_push_def split: prod.splits)

lemma pipe_try_readD:
  "pipe_try_read w n s = (s', r) \<Longrightarrow> read_into w n (buffer s) = (buffer s', r)"
  by (auto simp: pipe_try_read_eq read_into_def split: prod.splits if_splits)

interpretation pipeq: byte_queue "\<lambda>p. spill_inv (buffer p)" "\<lambda>p. content (buffer p)"
  spill_lossless pipe_push pipe_try_read
proof unfold_locales
  fix s s' :: pipe_state and w d u e n bs
  assume inv: "spill_inv (buffer s)"
  show "pipe_push w d s = (s', Ok u) \<Longrightarrow>
      spill_inv (buffer s') \<and> content (buffer s') = content (buffer s) @ d"
    by (rule push_bytes_ok [OF inv pipe_pushD])
  show "pipe_push w d s = (s', Err e) \<Longrightarrow>
      spill_inv (buffer s') \<and> content (buffer s') = content (buffer s)"
    by (rule push_bytes_err [OF inv pipe_pushD])
  show "pipe_try_read w n s = (s', Ok bs) \<Longrightarrow>
      spill_inv (buffer s') \<and> content (buffer s) = bs @ content (buffer s') \<and> length bs \<le> n"
    by (rule read_into_ok [OF inv pipe_try_readD])
  show "pipe_try_read w n s = (s', Err e) \<Longrightarrow>
      spill_inv (buffer s') \<and> (spill_lossless w \<longrightarrow> content (buffer s') = content (buffer s))"
    by (rule read_into_err [OF inv pipe_try_readD])
qed

lemma read_into_nothing:
  assumes "spill_inv b" "os_progress w" "0 < n" "read_into w n b = (b', Ok [])"
  shows "content b = []"
proof (cases "spill_inner b")
  case (Memory vec)
  with assms show ?thesis
    by (auto simp: read_into_def pop_front_loop_eq content_def)
next
  case (Disk dk)
  have inv: "disk_inv dk" using assms(1) Disk by (simp add: spill_inv_def)
  have rd: "read_bytes w dk n = (fst (read_bytes w dk n), Ok [])"
    using assms(3,4) Disk by (auto simp: read_into_def split: prod.splits)
  show ?thesis
  proof (cases "read_pos dk < write_pos dk")
    case True
    have "read_chunk w dk (min n (write_pos dk - read_pos dk)) \<noteq> []"
      using read_chunk_progress [OF inv assms(2)] True assms(3) by simp
    with rd True show ?thesis
      by (cases rule: read_bytes_cases) (auto dest: settle_drained_ok)
  next
    case False
    with inv Disk show ?thesis
      by (simp add: content_def disk_content_def disk_inv_def)
  qed
qed

section \<open>The invariant of the parallel system\<close>

lemma pipe_read_flags:
  "pipe_read w n p = (p', r) \<Longrightarrow>
     closed p' = closed p \<and> cancelled p' = cancelled p \<and> writers p' = writers p \<and> keepers p' = keepers p"
  by (auto simp: pipe_read_def Let_def split: if_splits prod.splits sum.splits)

lemma pipe_push_flags:
  "pipe_push w d p = (p', r) \<Longrightarrow>
     closed p' = closed p \<and> cancelled p' = cancelled p \<and> writers p' = writers p \<and> keepers p' = keepers p"
  by (auto simp: pipe_push_def split: prod.splits)

lemma pipe_read_Return:
  assumes "pipe_read w n p = (p', Return r)"
  shows "pipe_try_read w n p = (p', r)"
  using assms by (simp add: pipe_try_read_def)

lemma pipe_read_Wait:
  assumes "spill_inv (buffer p)" "os_progress w" "pipe_read w n p = (p', Wait)"
  shows "spill_inv (buffer p') \<and> blocked p \<and> blocked p'"
proof -
  have n: "0 < n" and rd: "read_into w n (buffer p) = (buffer p', Ok [])"
    and fl: "\<not> closed p" "\<not> cancelled p"
    using assms(3)
    by (auto simp: pipe_read_def Let_def split: if_splits prod.splits sum.splits)
  have "content (buffer p) = []" by (rule read_into_nothing [OF assms(1,2) n rd])
  with read_into_ok [OF assms(1) rd] fl pipe_read_flags [OF assms(3)] show ?thesis
    by (simp add: blocked_def)
qed

lemma pipe_inv_new: "pipe_inv (pipe_sys_new th mb)"
  by (simp add: pipe_inv_def pipe_sys_new_def pipe_state_new_def)

lemma pipe_inv_read:
  assumes "pipe_inv s" "os_progress w" "spill_lossless w"
  shows "pipe_inv (pipe_do (ERead t w n) s)"
proof -
  have inv: "spill_inv (buffer (pipe s))" using assms(1) by (simp add: pipe_inv_def)
  obtain p' r where rd: "pipe_read w n (pipe s) = (p', r)" by fastforce
  show ?thesis
  proof (cases r)
    case Wait
    with pipe_read_Wait [OF inv assms(2)] rd assms(1) show ?thesis
      by (simp add: pipe_inv_def blocked_def)
  next
    case (Return res)
    have tr: "pipe_try_read w n (pipe s) = (p', res)"
      using rd Return by (simp add: pipe_read_Return)
    from pipeq.rd_step [OF inv tr assms(3)] assms(1) pipe_read_flags [OF rd] rd Return
    show ?thesis
      by (cases res) (auto simp: pipe_inv_def blocked_def)
  qed
qed

lemma pipe_inv_push:
  assumes "pipe_inv s"
  shows "pipe_inv (pipe_do (EPush w d) s)"
proof -
  obtain p' r where push: "pipe_push w d (pipe s) = (p', r)" by fastforce
  with assms pipeq.push_step [OF _ push] show ?thesis
    by (auto simp: pipe_inv_def notify_all_def)
qed

lemma pipe_inv_step:
  assumes "pipe_step s e s'" and "pipe_inv s"
  shows "pipe_inv s'"
  using assms(1)
proof (cases rule: pipe_step.cases)
  case (step_read t w n)
  with assms(2) pipe_inv_read show ?thesis by simp
next
  case step_other
  with assms(2) pipe_inv_push show ?thesis
    by (cases e)
      (auto simp: pipe_inv_def notify_all_def pipe_defs blocked_def simp del: pipe_do.simps(7,8))
qed

lemma pipe_inv_reachable: "pipe_reachable th mb s \<Longrightarrow> pipe_inv s"
  by (induction rule: pipe_reachable.induct) (auto intro: pipe_inv_new pipe_inv_step)

section \<open>A consumer reading to the end\<close>

text \<open>
  A consumer loop over one pipe that no longer changes from outside: read with a
  buffer of \<open>n\<close> bytes until a read returns \<open>Ok(0)\<close>. \<open>None\<close> stands for a loop
  that parks or runs out of fuel.
\<close>

fun consume :: "nat \<Rightarrow> os \<Rightarrow> nat \<Rightarrow> pipe_state \<Rightarrow> (io_error + byte list) option" where
  "consume 0 w n p = None"
| "consume (Suc fuel) w n p =
     (case pipe_read w n p of
        (p', Wait) \<Rightarrow> None
      | (p', Return (Err e)) \<Rightarrow> Some (Err e)
      | (p', Return (Ok bs)) \<Rightarrow>
          (if bs = [] then Some (Ok [])
           else map_option (\<lambda>r. case r of Err e \<Rightarrow> Err e | Ok cs \<Rightarrow> Ok (bs @ cs)) (consume fuel w n p')))"

lemma consume_complete:
  assumes "spill_inv (buffer p)" "os_healthy w" "0 < n" "closed p \<or> cancelled p"
    and "length (content (buffer p)) < fuel"
  shows "consume fuel w n p = Some (Ok (content (buffer p)))"
  using assms
proof (induction fuel arbitrary: p)
  case 0
  then show ?case by simp
next
  case (Suc fuel)
  obtain b' bs where rd: "read_into w n (buffer p) = (b', Ok bs)"
      and emp: "bs = [] \<longrightarrow> content (buffer p) = []"
    using read_into_healthy [OF Suc.prems(1-3)] by metis
  note ok = read_into_ok [OF Suc.prems(1) rd]
  have pr: "pipe_read w n p = (p\<lparr>buffer := b'\<rparr>, Return (Ok bs))"
    using rd Suc.prems(3,4) by (auto simp: pipe_read_def Let_def)
  show ?case
  proof (cases "bs = []")
    case True
    with pr emp show ?thesis by simp
  next
    case False
    have "length (content b') < fuel" using ok Suc.prems(5) False by (cases bs) auto
    with Suc.IH [of "p\<lparr>buffer := b'\<rparr>"] Suc.prems ok
    have "consume fuel w n (p\<lparr>buffer := b'\<rparr>) = Some (Ok (content b'))" by simp
    with pr False ok show ?thesis by simp
  qed
qed

section \<open>Properties\<close>

text \<open>C23. No wake-up is lost: in every state reachable by interleaving writers, keepers,
  closers, cancellers and any number of readers, a reader is parked on the condition
  variable only while there is nothing to read and the pipe is neither closed nor
  cancelled. So every operation that makes a read able to return also wakes the
  parked readers.\<close>

theorem no_lost_wakeup:
  assumes "pipe_reachable th mb s" and "t \<in> waiting s"
  shows "content (buffer (pipe s)) = [] \<and> \<not> closed (pipe s) \<and> \<not> cancelled (pipe s)"
  using pipe_inv_reachable [OF assms(1)] assms(2) by (auto simp: pipe_inv_def blocked_def)

theorem no_lost_wakeup_witness:
  "content (buffer (pipe (pipe_do (ERead 0 os_std 4) (pipe_do EAttach (pipe_sys_new 2 8))))) = []"
proof -
  let ?s = "pipe_do (ERead 0 os_std 4) (pipe_do EAttach (pipe_sys_new 2 8))"
  have a: "pipe_reachable 2 8 (pipe_do EAttach (pipe_sys_new 2 8))"
    by (rule pipe_reachable.step [OF pipe_reachable.start step_other]) simp
  have "pipe_step (pipe_do EAttach (pipe_sys_new 2 8)) (ERead 0 os_std 4) ?s"
    by (rule step_read)
      (simp_all add: pipe_sys_new_def os_progress_def spill_lossless_def os_std_def)
  then have r: "pipe_reachable 2 8 ?s" by (rule pipe_reachable.step [OF a])
  have "0 \<in> waiting ?s"
    by (simp add: pipe_sys_new_def pipe_state_new_def pipe_read_def read_into_def
        with_thresholds_def attach_writer_def pop_front_loop_eq)
  from no_lost_wakeup [OF r this] show ?thesis by simp
qed

text \<open>C24. The pipe is first-in first-out under every interleaving: what the readers
  received, in the order they received it, followed by what is still buffered, is
  exactly the data of the successful writes in the order they happened, whatever
  attach, detach, pin, close or cancel operations came in between. Other file calls may fail, but truncating a
  drained spill file may not, and a read of a spill file that has bytes delivers at least one.\<close>

theorem pipe_interleaving_fifo:
  assumes "pipe_reachable th mb s"
  shows "accepted s = delivered s @ content (buffer (pipe s))"
  using pipe_inv_reachable [OF assms] by (simp add: pipe_inv_def)

theorem pipe_interleaving_fifo_witness:
  "accepted (pipe_do (ERead 0 os_std 1) (pipe_do (EPush os_std [1, 2]) (pipe_sys_new 2 8))) = [1, 2]"
proof -
  let ?s1 = "pipe_do (EPush os_std [1, 2]) (pipe_sys_new 2 8)"
  have a: "pipe_reachable 2 8 ?s1"
    by (rule pipe_reachable.step [OF pipe_reachable.start step_other]) simp
  have w: "waiting ?s1 = {}"
    by (simp add: pipe_push_def notify_all_def split: prod.splits)
  have "pipe_step ?s1 (ERead 0 os_std 1) (pipe_do (ERead 0 os_std 1) ?s1)"
    by (rule step_read) (simp_all only: w, simp_all add: os_progress_def spill_lossless_def os_std_def)
  then have r: "pipe_reachable 2 8 (pipe_do (ERead 0 os_std 1) ?s1)"
    by (rule pipe_reachable.step [OF a])
  show ?thesis
    unfolding pipe_interleaving_fifo [OF r]
    by (simp add: pipe_sys_new_def pipe_state_new_def pipe_read_def read_into_def pipe_push_def
        push_bytes_def with_thresholds_def pop_front_loop_eq notify_all_def content_def)
qed

text \<open>Closing and cancelling end the wait, not the data: once the pipe is closed or
  cancelled a consumer never parks, receives every buffered byte in order, and then
  sees end of file, in at most one read per byte plus one.\<close>

theorem closed_pipe_drains_then_eof:
  assumes "spill_inv (buffer p)" "os_healthy w" "0 < n" "closed p \<or> cancelled p"
  shows "consume (Suc (length (content (buffer p)))) w n p = Some (Ok (content (buffer p)))"
  by (rule consume_complete [OF assms]) simp

theorem closed_pipe_drains_then_eof_witness:
  "consume 4 os_std 2 (cancel \<lparr>buffer = \<lparr>spill_inner = Memory [7, 8, 9], spill_threshold = 5,
     max_backlog = 9\<rparr>, writers = 1, keepers = 0, closed = False, cancelled = False\<rparr>) = Some (Ok [7, 8, 9])"
proof -
  let ?p = "cancel \<lparr>buffer = \<lparr>spill_inner = Memory [7, 8, 9], spill_threshold = 5,
     max_backlog = 9\<rparr>, writers = 1, keepers = 0, closed = False, cancelled = False\<rparr>"
  have "spill_inv (buffer ?p)" "closed ?p \<or> cancelled ?p" "content (buffer ?p) = [7, 8, 9]"
    by (simp_all add: cancel_def spill_inv_def content_def)
  moreover have "os_healthy os_std" by (simp add: os_healthy_def os_progress_def os_std_def)
  ultimately show ?thesis
    using closed_pipe_drains_then_eof [of ?p os_std 2] by (simp add: eval_nat_numeral del: consume.simps)
qed

text \<open>The keeper count stays positive, and nobody closes by force, along a run.\<close>

fun stays_pinned :: "nat \<Rightarrow> pipe_event list \<Rightarrow> bool" where
  "stays_pinned k [] \<longleftrightarrow> 0 < k"
| "stays_pinned k (e # es) \<longleftrightarrow> 0 < k \<and> e \<noteq> EForceClose \<and>
     stays_pinned (case e of EPin \<Rightarrow> k + 1 | EUnpin \<Rightarrow> k - 1 | _ \<Rightarrow> k) es"

lemma pipe_do_keepers:
  "keepers (pipe (pipe_do e s)) =
     (case e of EPin \<Rightarrow> keepers (pipe s) + 1 | EUnpin \<Rightarrow> keepers (pipe s) - 1 | _ \<Rightarrow> keepers (pipe s))"
  by (cases e)
    (auto simp: notify_all_def pipe_defs pipe_push_flags pipe_read_flags
      split: prod.splits poll.splits sum.splits)

lemma pipe_do_open:
  assumes "\<not> closed (pipe s)" and "e \<noteq> EForceClose" and "0 < keepers (pipe (pipe_do e s))"
  shows "\<not> closed (pipe (pipe_do e s))"
  using assms
  by (cases e)
    (auto simp: notify_all_def pipe_defs pipe_push_flags pipe_read_flags
      split: prod.splits poll.splits sum.splits if_splits)

lemma stays_pinned_open:
  assumes "stays_pinned (keepers (pipe s)) es" and "\<not> closed (pipe s)"
  shows "\<not> closed (pipe (fold pipe_do es s)) \<and> 0 < keepers (pipe (fold pipe_do es s))"
  using assms
proof (induction es arbitrary: s)
  case Nil
  then show ?case by simp
next
  case (Cons e es)
  have pinned: "stays_pinned (keepers (pipe (pipe_do e s))) es"
    using Cons.prems(1) by (simp add: pipe_do_keepers)
  then have "0 < keepers (pipe (pipe_do e s))" by (cases es) simp_all
  with Cons.prems have "\<not> closed (pipe (pipe_do e s))"
    by (intro pipe_do_open) simp_all
  with Cons.IH [OF pinned] show ?case by simp
qed

lemma open_read_no_eof:
  "\<not> closed p \<Longrightarrow> \<not> cancelled p \<Longrightarrow> 0 < n \<Longrightarrow> snd (pipe_read w n p) \<noteq> Return (Ok [])"
  by (auto simp: pipe_read_def Let_def split: prod.splits sum.splits)

text \<open>C25. A keeper pin bridges every gap between writers: from an open pipe, while at least one keeper is
  pinned and nobody closes the pipe by force, no sequence of writers attaching and
  detaching, pins, unpins, pushes, reads and cancels closes the pipe, and as long as it is not
  cancelled a read with room for a byte does not report the end of the stream: it delivers bytes, fails or waits.
  Releasing the last keeper when no writer is attached closes the pipe at once.\<close>

theorem keeper_pin_prevents_eof:
  assumes "stays_pinned (keepers (pipe s)) es" and "\<not> closed (pipe s)"
  shows "\<not> closed (pipe (fold pipe_do es s)) \<and>
    (\<not> cancelled (pipe (fold pipe_do es s)) \<longrightarrow>
     (\<forall>w n. 0 < n \<longrightarrow> snd (pipe_read w n (pipe (fold pipe_do es s))) \<noteq> Return (Ok []))) \<and>
    (keepers (pipe (fold pipe_do es s)) = 1 \<and> writers (pipe (fold pipe_do es s)) = 0 \<longrightarrow>
     closed (pipe (pipe_do EUnpin (fold pipe_do es s))))"
proof -
  have open_pipe: "\<not> closed (pipe (fold pipe_do es s))"
    using stays_pinned_open [OF assms] by simp
  then show ?thesis
    by (auto simp: open_read_no_eof notify_all_def unpin_keeper_def Let_def)
qed

theorem keeper_pin_prevents_eof_witness:
  "\<not> closed (pipe (fold pipe_do [EAttach, EDetach, EAttach, EDetach] (pipe_do EPin (pipe_sys_new 2 8)))) \<and>
   snd (pipe_read os_std 4 (pipe (fold pipe_do [EAttach, EDetach, EAttach, EDetach] (pipe_do EPin (pipe_sys_new 2 8)))))
     \<noteq> Return (Ok []) \<and>
   closed (pipe (pipe_do EUnpin
     (fold pipe_do [EAttach, EDetach, EAttach, EDetach] (pipe_do EPin (pipe_sys_new 2 8)))))"
proof -
  let ?s = "pipe_do EPin (pipe_sys_new 2 8)"
  have "stays_pinned (keepers (pipe ?s)) [EAttach, EDetach, EAttach, EDetach]" "\<not> closed (pipe ?s)"
    by (simp_all add: pipe_sys_new_def pipe_state_new_def pin_keeper_def)
  from keeper_pin_prevents_eof [OF this] show ?thesis
    by (simp add: pipe_sys_new_def pipe_state_new_def pipe_defs notify_all_def)
qed

end
