(* ===== verification/Pipe_Handle.thy ===== *)
theory Pipe_Handle
  imports Pipe_Backend
begin

text \<open>
  Owned pipe handles (\<^verbatim>\<open>crates/sys/oxdock-pipe/src/slot.rs\<close> and the handle
  functions of \<^verbatim>\<open>backend.rs\<close>). A handle is a shared cell that materializes on
  first use, a declaring task and a shared escape flag; sharing through \<open>Arc\<close> is
  made explicit as a heap of cells, flags, script backends and kernel pairs.
\<close>

section \<open>The heap of shared objects\<close>

datatype slot = Unbound | Script nat | Os nat

text \<open>A kernel pair: each half is there until it is taken.\<close>

record os_pipe_entry =
  entry_writer :: bool
  entry_reader :: bool

record pipe_handle =
  cell :: nat
  declaring_task_id :: nat
  escaped_to_child :: nat

record pipe_heap =
  cells :: "nat \<Rightarrow> slot"
  flags :: "nat \<Rightarrow> bool"
  backends :: "nat \<Rightarrow> pipe_state"
  entries :: "nat \<Rightarrow> os_pipe_entry"
  next_cell :: nat
  next_backend :: nat
  next_entry :: nat

datatype handle_error =
    OsPipeFailed | AlreadyConsumed | PeekUnbound | PeekOs | PeekFailed io_error

datatype materialized = MScript nat | MOs nat

definition heap_empty :: pipe_heap where
  "heap_empty = \<lparr>cells = (\<lambda>_. Unbound), flags = (\<lambda>_. False),
     backends = (\<lambda>_. pipe_state_new DEFAULT_SPILL_THRESHOLD DEFAULT_MAX_BACKLOG),
     entries = (\<lambda>_. \<lparr>entry_writer = True, entry_reader = True\<rparr>),
     next_cell = 0, next_backend = 0, next_entry = 0\<rparr>"

section \<open>Operations\<close>

definition new_handle_in_task :: "nat \<Rightarrow> pipe_heap \<Rightarrow> pipe_heap \<times> pipe_handle" where
  "new_handle_in_task task_id h =
     (h\<lparr>cells := (cells h)(next_cell h := Unbound), flags := (flags h)(next_cell h := False),
        next_cell := next_cell h + 1\<rparr>,
      \<lparr>cell = next_cell h, declaring_task_id = task_id, escaped_to_child = next_cell h\<rparr>)"

definition has_escaped :: "pipe_heap \<Rightarrow> pipe_handle \<Rightarrow> bool" where
  "has_escaped h ph = flags h (escaped_to_child ph)"

definition mark_escaped :: "pipe_handle \<Rightarrow> pipe_heap \<Rightarrow> pipe_heap" where
  "mark_escaped ph h = h\<lparr>flags := (flags h)(escaped_to_child ph := True)\<rparr>"

definition ptr_eq :: "pipe_handle \<Rightarrow> pipe_handle \<Rightarrow> bool" where
  "ptr_eq a b \<longleftrightarrow> cell a = cell b"

text \<open>\<open>ScriptPipe::new\<close> and \<open>OsPipeEntry::new\<close>: fresh objects; the kernel may refuse a pair.\<close>

definition script_pipe_new :: "pipe_heap \<Rightarrow> pipe_heap \<times> nat" where
  "script_pipe_new h =
     (h\<lparr>backends := (backends h)(next_backend h :=
          pipe_state_new DEFAULT_SPILL_THRESHOLD DEFAULT_MAX_BACKLOG),
        next_backend := next_backend h + 1\<rparr>, next_backend h)"

definition os_pipe_entry_new :: "bool \<Rightarrow> pipe_heap \<Rightarrow> pipe_heap \<times> (handle_error + nat)" where
  "os_pipe_entry_new kernel_fails h =
     (if kernel_fails then (h, Err OsPipeFailed)
      else (h\<lparr>entries := (entries h)(next_entry h := \<lparr>entry_writer = True, entry_reader = True\<rparr>),
              next_entry := next_entry h + 1\<rparr>, Ok (next_entry h)))"

definition materialize ::
  "bool \<Rightarrow> pipe_handle \<Rightarrow> bool \<Rightarrow> pipe_heap \<Rightarrow> pipe_heap \<times> (handle_error + materialized)" where
  "materialize kernel_fails ph promote h =
     (case cells h (cell ph) of
        Script b \<Rightarrow> (h, Ok (MScript b))
      | Os e \<Rightarrow> (h, Ok (MOs e))
      | Unbound \<Rightarrow>
          if promote then
            (case os_pipe_entry_new kernel_fails h of
               (h', Err x) \<Rightarrow> (h', Err x)
             | (h', Ok e) \<Rightarrow> (h'\<lparr>cells := (cells h')(cell ph := Os e)\<rparr>, Ok (MOs e)))
          else
            (case script_pipe_new h of
               (h', b) \<Rightarrow> (h'\<lparr>cells := (cells h')(cell ph := Script b)\<rparr>, Ok (MScript b))))"

text \<open>\<open>OsPipeReader::take\<close>, \<open>OsPipeWriter::take\<close>, \<open>OsPipeEntry::is_spent\<close>.\<close>

definition take_reader :: "nat \<Rightarrow> pipe_heap \<Rightarrow> pipe_heap \<times> (handle_error + unit)" where
  "take_reader e h =
     (if entry_reader (entries h e)
      then (h\<lparr>entries := (entries h)(e := (entries h e)\<lparr>entry_reader := False\<rparr>)\<rparr>, Ok ())
      else (h, Err AlreadyConsumed))"

definition take_writer :: "nat \<Rightarrow> pipe_heap \<Rightarrow> pipe_heap \<times> (handle_error + unit)" where
  "take_writer e h =
     (if entry_writer (entries h e)
      then (h\<lparr>entries := (entries h)(e := (entries h e)\<lparr>entry_writer := False\<rparr>)\<rparr>, Ok ())
      else (h, Err AlreadyConsumed))"

definition is_spent :: "nat \<Rightarrow> pipe_heap \<Rightarrow> bool" where
  "is_spent e h \<longleftrightarrow> \<not> entry_reader (entries h e) \<and> \<not> entry_writer (entries h e)"

definition script_backend :: "pipe_heap \<Rightarrow> pipe_handle \<Rightarrow> nat option" where
  "script_backend h ph =
     (case cells h (cell ph) of Script b \<Rightarrow> Some b | Unbound \<Rightarrow> None | Os _ \<Rightarrow> None)"

definition handle_peek :: "os \<Rightarrow> pipe_heap \<Rightarrow> pipe_handle \<Rightarrow> handle_error + byte list" where
  "handle_peek w h ph =
     (case cells h (cell ph) of
        Script b \<Rightarrow> (case peek_bytes w (buffer (backends h b)) of
                       Err e \<Rightarrow> Err (PeekFailed e) | Ok bs \<Rightarrow> Ok bs)
      | Unbound \<Rightarrow> Err PeekUnbound
      | Os _ \<Rightarrow> Err PeekOs)"

datatype pipe_kind_desc = KUnbound | KScript | KOs

record pipe_info =
  kind :: pipe_kind_desc
  buffered :: nat
  readers_n :: nat
  writers_n :: nat
  closed_info :: bool

definition inspect :: "pipe_heap \<Rightarrow> pipe_handle \<Rightarrow> pipe_info" where
  "inspect h ph =
     (case cells h (cell ph) of
        Os _ \<Rightarrow> \<lparr>kind = KOs, buffered = 0, readers_n = 1, writers_n = 1, closed_info = False\<rparr>
      | Script b \<Rightarrow>
          (let p = backends h b in
           \<lparr>kind = KScript, buffered = buffered_bytes (buffer p), readers_n = 1,
            writers_n = writers p, closed_info = closed p\<rparr>)
      | Unbound \<Rightarrow> \<lparr>kind = KUnbound, buffered = 0, readers_n = 0, writers_n = 0, closed_info = False\<rparr>)"

text \<open>\<open>ExecState::can_promote_in_task\<close> (\<^verbatim>\<open>exec/state.rs\<close>).\<close>

definition can_promote_in_task :: "pipe_heap \<Rightarrow> pipe_handle \<Rightarrow> nat \<Rightarrow> bool" where
  "can_promote_in_task h ph task_id \<longleftrightarrow> declaring_task_id ph = task_id \<and> \<not> has_escaped h ph"

section \<open>Programs over handles\<close>

datatype handle_op =
    HNew nat
  | HMaterialize bool pipe_handle bool
  | HTakeReader nat
  | HTakeWriter nat
  | HMarkEscaped pipe_handle
  | HBackend nat "pipe_state \<Rightarrow> pipe_state" \<comment> \<open>any operation on one script backend\<close>

fun handle_do :: "handle_op \<Rightarrow> pipe_heap \<Rightarrow> pipe_heap" where
  "handle_do (HNew t) h = fst (new_handle_in_task t h)"
| "handle_do (HMaterialize k ph pr) h = fst (materialize k ph pr h)"
| "handle_do (HTakeReader e) h = fst (take_reader e h)"
| "handle_do (HTakeWriter e) h = fst (take_writer e h)"
| "handle_do (HMarkEscaped ph) h = mark_escaped ph h"
| "handle_do (HBackend b f) h = h\<lparr>backends := (backends h)(b := f (backends h b))\<rparr>"

lemmas handle_defs = new_handle_in_task_def mark_escaped_def script_pipe_new_def
  os_pipe_entry_new_def materialize_def take_reader_def take_writer_def

text \<open>Live cells only; distinct cells own distinct backends and pairs; ids are fresh.\<close>

definition heap_inv :: "pipe_heap \<Rightarrow> bool" where
  "heap_inv h \<longleftrightarrow>
     (\<forall>c. next_cell h \<le> c \<longrightarrow> cells h c = Unbound) \<and>
     (\<forall>c b. cells h c = Script b \<longrightarrow> b < next_backend h) \<and>
     (\<forall>c e. cells h c = Os e \<longrightarrow> e < next_entry h) \<and>
     (\<forall>c c'. cells h c = cells h c' \<and> cells h c \<noteq> Unbound \<longrightarrow> c = c')"

text \<open>An operation is well formed when the handles it names were minted by the heap.\<close>

fun op_wf :: "pipe_heap \<Rightarrow> handle_op \<Rightarrow> bool" where
  "op_wf h (HMaterialize k ph pr) \<longleftrightarrow> cell ph < next_cell h"
| "op_wf h (HTakeReader e) \<longleftrightarrow> e < next_entry h"
| "op_wf h (HTakeWriter e) \<longleftrightarrow> e < next_entry h"
| "op_wf h _ \<longleftrightarrow> True"

fun handle_run :: "handle_op list \<Rightarrow> pipe_heap \<Rightarrow> pipe_heap option" where
  "handle_run [] h = Some h"
| "handle_run (op # ops) h = (if op_wf h op then handle_run ops (handle_do op h) else None)"

lemma heap_inv_empty: "heap_inv heap_empty"
  by (simp add: heap_inv_def heap_empty_def)

lemma materialize_cases:
  obtains (same) "fst (materialize k ph pr h) = h"
  | (script) "cells h (cell ph) = Unbound"
      "cells (fst (materialize k ph pr h)) = (cells h)(cell ph := Script (next_backend h))"
      "next_backend (fst (materialize k ph pr h)) = next_backend h + 1"
      "next_entry (fst (materialize k ph pr h)) = next_entry h"
      "next_cell (fst (materialize k ph pr h)) = next_cell h"
      "entries (fst (materialize k ph pr h)) = entries h"
  | (pair) "cells h (cell ph) = Unbound"
      "cells (fst (materialize k ph pr h)) = (cells h)(cell ph := Os (next_entry h))"
      "next_backend (fst (materialize k ph pr h)) = next_backend h"
      "next_entry (fst (materialize k ph pr h)) = next_entry h + 1"
      "next_cell (fst (materialize k ph pr h)) = next_cell h"
      "entries (fst (materialize k ph pr h)) =
         (entries h)(next_entry h := \<lparr>entry_writer = True, entry_reader = True\<rparr>)"
  by (cases "cells h (cell ph)"; cases pr; cases k) (auto simp: handle_defs)

lemma heap_inv_materialize:
  assumes "heap_inv h" and "cell ph < next_cell h"
  shows "heap_inv (fst (materialize k ph pr h))"
proof (cases rule: materialize_cases [of k ph pr h])
  case same
  with assms show ?thesis by simp
next
  case script
  with assms show ?thesis
    by (auto simp: heap_inv_def) (metis less_SucI, metis less_irrefl)
next
  case pair
  with assms show ?thesis
    by (auto simp: heap_inv_def) (metis less_SucI, metis less_irrefl)
qed

lemma handle_do_counters:
  "next_cell h \<le> next_cell (handle_do op h) \<and> next_entry h \<le> next_entry (handle_do op h)"
  by (cases op) (auto simp: handle_defs split: slot.splits)

lemma heap_inv_do:
  assumes "heap_inv h" and "op_wf h op"
  shows "heap_inv (handle_do op h)"
proof (cases op)
  case (HMaterialize k ph pr)
  with assms show ?thesis by (simp add: heap_inv_materialize)
qed (use assms in \<open>auto simp: heap_inv_def handle_defs\<close>)

lemma decided_stable:
  assumes "heap_inv h" "op_wf h op" "cells h c \<noteq> Unbound"
  shows "cells (handle_do op h) c = cells h c"
proof (cases op)
  case (HNew t)
  have "c < next_cell h" using assms(1,3) by (metis heap_inv_def not_le)
  with HNew show ?thesis by (simp add: new_handle_in_task_def)
next
  case (HMaterialize k ph pr)
  then show ?thesis using assms(3) materialize_cases [of k ph pr h] by (metis fun_upd_apply handle_do.simps(2))
qed (auto simp: handle_defs)

lemma run_stable:
  assumes "heap_inv h" "handle_run ops h = Some h'"
  shows "heap_inv h' \<and> (\<forall>c. cells h c \<noteq> Unbound \<longrightarrow> cells h' c = cells h c)"
  using assms
proof (induction ops arbitrary: h)
  case Nil
  then show ?case by simp
next
  case (Cons op ops)
  then have wf: "op_wf h op" and run: "handle_run ops (handle_do op h) = Some h'"
    by (auto split: if_splits)
  from Cons.IH [OF heap_inv_do [OF Cons.prems(1) wf] run] decided_stable [OF Cons.prems(1) wf]
  show ?case by auto
qed

lemma take_reader_stays_taken:
  assumes "\<not> entry_reader (entries h e)" "e < next_entry h" "handle_run ops h = Some h'"
  shows "\<not> entry_reader (entries h' e)"
  using assms
proof (induction ops arbitrary: h)
  case (Cons op ops)
  have "\<not> entry_reader (entries (handle_do op h) e)"
    using Cons.prems(1,2) by (cases op) (auto simp: handle_defs split: slot.splits)
  moreover have "e < next_entry (handle_do op h)"
    using handle_do_counters [of h op] Cons.prems(2) by simp
  ultimately show ?case using Cons by (auto split: if_splits)
qed simp

lemma escaped_sticky:
  assumes "flags h f" "f < next_cell h" "handle_run ops h = Some h'"
  shows "flags h' f"
  using assms
proof (induction ops arbitrary: h)
  case (Cons op ops)
  have "flags (handle_do op h) f"
    using Cons.prems(1,2) by (cases op) (auto simp: handle_defs split: slot.splits)
  moreover have "f < next_cell (handle_do op h)"
    using handle_do_counters [of h op] Cons.prems(2) by simp
  ultimately show ?case using Cons by (auto split: if_splits)
qed simp

lemma materialize_decided:
  "materialize k ph pr h = (h', Ok m) \<Longrightarrow>
     cells h' (cell ph) = (case m of MScript b \<Rightarrow> Script b | MOs e \<Rightarrow> Os e)"
  by (auto simp: handle_defs split: slot.splits if_splits)

lemma materialize_again:
  "cells h (cell ph) = (case m of MScript b \<Rightarrow> Script b | MOs e \<Rightarrow> Os e) \<Longrightarrow>
     materialize k ph pr h = (h, Ok m)"
  by (cases m) (auto simp: materialize_def)

section \<open>Properties\<close>

text \<open>C26. First binding wins, for good and for every alias: once a handle has
  materialized, every later materialization of it or of a clone, with any promotion
  request and after any other operations on any handles, returns the same backend and
  changes nothing.\<close>

theorem first_binding_wins:
  assumes "heap_inv h" "cell ph < next_cell h" "materialize k ph pr h = (h1, Ok m)"
    and "handle_run ops h1 = Some h2" "ptr_eq ph ph'"
  shows "materialize k' ph' pr' h2 = (h2, Ok m)"
proof -
  have inv1: "heap_inv h1" using heap_inv_materialize [OF assms(1,2), of k pr] assms(3) by simp
  have c1: "cells h1 (cell ph) = (case m of MScript b \<Rightarrow> Script b | MOs e \<Rightarrow> Os e)"
    by (rule materialize_decided [OF assms(3)])
  then have "cells h1 (cell ph) \<noteq> Unbound" by (cases m) simp_all
  with run_stable [OF inv1 assms(4)] c1 assms(5) show ?thesis
    by (auto simp: ptr_eq_def intro: materialize_again)
qed

theorem first_binding_wins_witness:
  "\<exists>h2. materialize False (snd (new_handle_in_task 0 heap_empty)) True h2 = (h2, Ok (MScript 0))"
proof -
  let ?h = "fst (new_handle_in_task 0 heap_empty)"
  let ?ph = "snd (new_handle_in_task 0 heap_empty)"
  have inv: "heap_inv ?h" using heap_inv_do [OF heap_inv_empty, of "HNew 0"] by simp
  have lt: "cell ?ph < next_cell ?h" by (simp add: new_handle_in_task_def)
  obtain h1 where m: "materialize False ?ph False ?h = (h1, Ok (MScript 0))"
    by (simp add: handle_defs heap_empty_def)
  have "handle_run [HNew 3] h1 = Some (handle_do (HNew 3) h1)" by simp
  from first_binding_wins [OF inv lt m this] show ?thesis
    by (auto simp: ptr_eq_def)
qed

text \<open>Separate declarations stay separate: in every heap built by the operations,
  two handles that are not clones of one another never materialize to the same script
  backend or to the same kernel pair.\<close>

theorem distinct_handles_distinct_backends:
  assumes "handle_run ops heap_empty = Some h" "cell a < next_cell h" "cell b < next_cell h"
    and "materialize k a pa h = (h1, Ok ma)" "materialize k' b pb h1 = (h2, Ok mb)" "\<not> ptr_eq a b"
  shows "ma \<noteq> mb"
proof
  assume same: "ma = mb"
  have inv: "heap_inv h" using run_stable [OF heap_inv_empty assms(1)] by simp
  have inv1: "heap_inv h1" using heap_inv_materialize [OF inv assms(2), of k pa] assms(4) by simp
  have n1: "next_cell h \<le> next_cell h1"
    using handle_do_counters [of h "HMaterialize k a pa"] assms(4) by simp
  have inv2: "heap_inv h2"
    using heap_inv_materialize [OF inv1, of b k' pb] assms(3,5) n1 by simp
  have ca: "cells h1 (cell a) = (case ma of MScript b \<Rightarrow> Script b | MOs e \<Rightarrow> Os e)"
    by (rule materialize_decided [OF assms(4)])
  then have nu: "cells h1 (cell a) \<noteq> Unbound" by (cases ma) simp_all
  have "cells h2 (cell a) = cells h1 (cell a)"
    using decided_stable [OF inv1 _ nu, of "HMaterialize k' b pb"] assms(3,5) n1 by simp
  with ca materialize_decided [OF assms(5)] same nu inv2 have "cell a = cell b"
    unfolding heap_inv_def by metis
  with assms(6) show False by (simp add: ptr_eq_def)
qed

theorem distinct_handles_distinct_backends_witness:
  "\<exists>a b h1 h2 ma mb. materialize False a False (handle_do (HNew 0) (handle_do (HNew 0) heap_empty)) = (h1, Ok ma)
     \<and> materialize False b False h1 = (h2, Ok mb) \<and> ma \<noteq> mb"
proof -
  let ?h = "handle_do (HNew 0) (handle_do (HNew 0) heap_empty)"
  let ?a = "\<lparr>cell = 0, declaring_task_id = 0, escaped_to_child = 0\<rparr>"
  let ?b = "\<lparr>cell = 1, declaring_task_id = 0, escaped_to_child = 1\<rparr>"
  have run: "handle_run [HNew 0, HNew 0] heap_empty = Some ?h" by simp
  have lt: "cell ?a < next_cell ?h" "cell ?b < next_cell ?h"
    by (simp_all add: new_handle_in_task_def heap_empty_def)
  obtain h1 where m1: "materialize False ?a False ?h = (h1, Ok (MScript 0))" and
      c1: "cells h1 1 = Unbound" "next_backend h1 = 1"
    by (simp add: handle_defs heap_empty_def)
  obtain h2 where m2: "materialize False ?b False h1 = (h2, Ok (MScript 1))"
    using c1 by (simp add: handle_defs)
  have "\<not> ptr_eq ?a ?b" by (simp add: ptr_eq_def)
  from distinct_handles_distinct_backends [OF run lt m1 m2 this] m1 m2 show ?thesis by blast
qed

text \<open>Kernel halves are taken once: after one successful take of the reader half of
  a pair, every later take of it fails with the already-consumed error and changes
  nothing, whatever happened in between.\<close>

theorem kernel_half_taken_once:
  assumes "take_reader e h = (h1, Ok ())" "e < next_entry h" "handle_run ops h1 = Some h2"
  shows "take_reader e h2 = (h2, Err AlreadyConsumed)"
proof -
  have "\<not> entry_reader (entries h1 e)" "e < next_entry h1"
    using assms(1,2) by (auto simp: take_reader_def split: if_splits)
  from take_reader_stays_taken [OF this assms(3)] show ?thesis by (simp add: take_reader_def)
qed

theorem kernel_half_taken_once_witness:
  "\<exists>h2. take_reader 0 h2 = (h2, Err AlreadyConsumed)"
proof -
  let ?h = "snd (os_pipe_entry_new False heap_empty, fst (os_pipe_entry_new False heap_empty))"
  obtain h1 where "take_reader 0 ?h = (h1, Ok ())" and lt: "0 < next_entry ?h"
    by (simp add: take_reader_def os_pipe_entry_new_def heap_empty_def)
  moreover have "handle_run [HTakeWriter 0] h1 = Some (handle_do (HTakeWriter 0) h1)"
    using calculation by (auto simp: take_reader_def split: if_splits)
  ultimately show ?thesis using kernel_half_taken_once by blast
qed

text \<open>Promotion to a kernel pair is safe: once a pipe visible to a spawned child has
  been marked as escaped, no task can promote it any more, through any alias and after
  any further operations; and promotion is refused to every task but the declaring one.\<close>

theorem escaped_pipe_never_promotes:
  assumes "escaped_to_child ph < next_cell h" "handle_run ops (mark_escaped ph h) = Some h'"
    and "escaped_to_child ph' = escaped_to_child ph \<or> declaring_task_id ph' \<noteq> task"
  shows "\<not> can_promote_in_task h' ph' task"
proof -
  have "flags h' (escaped_to_child ph)"
    by (rule escaped_sticky [OF _ _ assms(2)]) (use assms(1) in \<open>simp_all add: mark_escaped_def\<close>)
  with assms(3) show ?thesis by (auto simp: can_promote_in_task_def has_escaped_def)
qed

theorem escaped_pipe_never_promotes_witness:
  "\<not> can_promote_in_task
     (handle_do (HNew 1) (mark_escaped (snd (new_handle_in_task 0 heap_empty)) (fst (new_handle_in_task 0 heap_empty))))
     (snd (new_handle_in_task 0 heap_empty)) 0"
proof -
  let ?ph = "snd (new_handle_in_task 0 heap_empty)"
  let ?h = "fst (new_handle_in_task 0 heap_empty)"
  have lt: "escaped_to_child ?ph < next_cell ?h" by (simp add: new_handle_in_task_def)
  have run: "handle_run [HNew 1] (mark_escaped ?ph ?h) = Some (handle_do (HNew 1) (mark_escaped ?ph ?h))"
    by simp
  show ?thesis by (rule escaped_pipe_never_promotes [OF lt run]) simp
qed

end
