(* ===== verification/Semaphore.thy ===== *)
theory Semaphore
  imports Prelude
begin

text \<open>The counting semaphore of \<open>oxdock-parser/src/value.rs\<close>: \<open>SemaphoreState\<close> (a cap and
  an atomic count of held permits), \<open>PermitInner\<close> (the releaser that runs when the last
  clone of a permit word drops) and the native functions \<open>SEMAPHORE_NEW\<close>,
  \<open>SEMAPHORE_TRY_ACQUIRE\<close> and \<open>SEMAPHORE_AVAILABLE\<close> over them. Threads interleave at the
  granularity of the atomic operations: the load, each compare-and-swap (which may fail
  spuriously), the minting of the permit and the drop of a clone.\<close>

section \<open>State and operations\<close>

record semaphore_state =
  sem_max :: nat
  held :: nat

definition semaphore_state_new :: "nat \<Rightarrow> semaphore_state" where
  "semaphore_state_new m = \<lparr>sem_max = m, held = 0\<rparr>"

text \<open>\<open>release\<close>: \<open>checked_sub\<close> gives \<open>None\<close> at zero and the update is then not applied.\<close>

definition release :: "semaphore_state \<Rightarrow> semaphore_state" where
  "release s = (if held s = 0 then s else s\<lparr>held := held s - 1\<rparr>)"

definition available :: "semaphore_state \<Rightarrow> nat" where
  "available s = sem_max s - held s"

text \<open>One turn of the loop of \<open>try_acquire\<close>, with the value last seen. \<open>weak_fail\<close> is the
  spurious failure \<open>compare_exchange_weak\<close> allows.\<close>

datatype acquire_turn = Full | Claimed_slot | Retry nat

definition try_acquire_turn :: "bool \<Rightarrow> nat \<Rightarrow> semaphore_state \<Rightarrow> semaphore_state \<times> acquire_turn" where
  "try_acquire_turn weak_fail current s =
     (if current \<ge> sem_max s then (s, Full)
      else if held s = current \<and> \<not> weak_fail then (s\<lparr>held := current + 1\<rparr>, Claimed_slot)
      else (s, Retry (held s)))"

text \<open>The loop run by one thread with no other thread in between: \<open>fails\<close> lists which
  exchanges fail spuriously, and running out of it is \<open>None\<close>.\<close>

fun try_acquire_loop :: "bool list \<Rightarrow> nat \<Rightarrow> semaphore_state \<Rightarrow> (semaphore_state \<times> bool) option" where
  "try_acquire_loop [] current s = None"
| "try_acquire_loop (f # fs) current s =
     (case try_acquire_turn f current s of
        (s', Full) \<Rightarrow> Some (s', False)
      | (s', Claimed_slot) \<Rightarrow> Some (s', True)
      | (s', Retry c) \<Rightarrow> try_acquire_loop fs c s')"

definition try_acquire :: "bool list \<Rightarrow> semaphore_state \<Rightarrow> (semaphore_state \<times> bool) option" where
  "try_acquire fails s = try_acquire_loop fails (held s) s"

datatype sem_error = NonPositiveMax int

definition semaphore_new :: "int \<Rightarrow> sem_error + semaphore_state" where
  "semaphore_new m = (if m \<le> 0 then Err (NonPositiveMax m) else Ok (semaphore_state_new (nat m)))"

section \<open>Threads and permits\<close>

text \<open>Where a thread is inside \<open>SEMAPHORE_TRY_ACQUIRE\<close>, and the strong count of every
  permit minted so far (0 once its last clone dropped).\<close>

datatype acq_pc = Idle | Trying nat | Winner

record sem_sys =
  sem :: semaphore_state
  pcs :: "acq_pc list"
  permits :: "nat list"

datatype sem_event =
    Load nat
  | Exchange bool nat
  | Mint nat
  | ClonePermit nat
  | DropPermit nat

definition sem_sys_new :: "nat \<Rightarrow> nat \<Rightarrow> sem_sys" where
  "sem_sys_new m threads =
     \<lparr>sem = semaphore_state_new m, pcs = replicate threads Idle, permits = []\<rparr>"

definition pc_after :: "acquire_turn \<Rightarrow> acq_pc" where
  "pc_after t = (case t of Full \<Rightarrow> Idle | Claimed_slot \<Rightarrow> Winner | Retry c \<Rightarrow> Trying c)"

text \<open>\<open>Drop\<close> of one permit clone: the last one drops \<open>PermitInner\<close>, which releases. The decrement of the count of
  clones and the release are one step here: in between, the slot is still counted as held, so no admission is missed.\<close>

definition drop_permit :: "nat \<Rightarrow> sem_sys \<Rightarrow> sem_sys" where
  "drop_permit p s =
     (let s' = s\<lparr>permits := (permits s)[p := permits s ! p - 1]\<rparr> in
      if permits s ! p = 1 then s'\<lparr>sem := release (sem s')\<rparr> else s')"

fun sem_step :: "sem_event \<Rightarrow> sem_sys \<Rightarrow> sem_sys option" where
  "sem_step (Load t) s =
     (if t < length (pcs s) \<and> pcs s ! t = Idle
      then Some (s\<lparr>pcs := (pcs s)[t := Trying (held (sem s))]\<rparr>) else None)"
| "sem_step (Exchange weak_fail t) s =
     (if t < length (pcs s) then
        (case pcs s ! t of
           Trying c \<Rightarrow>
             (case try_acquire_turn weak_fail c (sem s) of
                (m, r) \<Rightarrow> Some (s\<lparr>sem := m, pcs := (pcs s)[t := pc_after r]\<rparr>))
         | _ \<Rightarrow> None)
      else None)"
| "sem_step (Mint t) s =
     (if t < length (pcs s) \<and> pcs s ! t = Winner
      then Some (s\<lparr>pcs := (pcs s)[t := Idle], permits := permits s @ [1]\<rparr>) else None)"
| "sem_step (ClonePermit p) s =
     (if p < length (permits s) \<and> permits s ! p > 0
      then Some (s\<lparr>permits := (permits s)[p := permits s ! p + 1]\<rparr>) else None)"
| "sem_step (DropPermit p) s =
     (if p < length (permits s) \<and> permits s ! p > 0 then Some (drop_permit p s) else None)"

definition live_permits :: "sem_sys \<Rightarrow> nat" where
  "live_permits s = length (filter (\<lambda>n. n > 0) (permits s))"

definition winners :: "sem_sys \<Rightarrow> nat" where
  "winners s = length (filter (\<lambda>pc. pc = Winner) (pcs s))"

definition sem_inv :: "sem_sys \<Rightarrow> bool" where
  "sem_inv s \<longleftrightarrow> held (sem s) = live_permits s + winners s \<and> held (sem s) \<le> sem_max (sem s)"

section \<open>Counting\<close>

lemma length_filter_update:
  assumes "i < length xs"
  shows "length (filter P (xs[i := v])) + (if P (xs ! i) then 1 else 0) =
         length (filter P xs) + (if P v then 1 else 0)"
  using assms
proof (induction xs arbitrary: i)
  case (Cons x xs)
  then show ?case by (cases i) auto
qed simp

lemma live_update:
  assumes "p < length (permits s)"
  shows "length (filter (\<lambda>n. n > 0) ((permits s)[p := n])) + (if permits s ! p > 0 then 1 else 0)
    = live_permits s + (if n > 0 then 1 else 0)"
  using length_filter_update [OF assms, of "\<lambda>n. n > 0" n] by (simp add: live_permits_def)

lemma winners_update:
  assumes "t < length (pcs s)"
  shows "length (filter (\<lambda>pc. pc = Winner) ((pcs s)[t := pc])) + (if pcs s ! t = Winner then 1 else 0)
    = winners s + (if pc = Winner then 1 else 0)"
  using length_filter_update [OF assms, of "\<lambda>pc. pc = Winner" pc] by (simp add: winners_def)

lemma sem_step_inv:
  assumes "sem_inv s" "sem_step e s = Some s'"
  shows "sem_inv s'"
proof (cases e)
  case (Load t)
  with assms winners_update [of t s "Trying (held (sem s))"] show ?thesis
    by (auto simp: sem_inv_def winners_def live_permits_def split: if_splits)
next
  case (Exchange f t)
  with assms(2) obtain c where t: "t < length (pcs s)" "pcs s ! t = Trying c"
    and s': "s' = s\<lparr>sem := fst (try_acquire_turn f c (sem s)),
                     pcs := (pcs s)[t := pc_after (snd (try_acquire_turn f c (sem s)))]\<rparr>"
    by (auto split: if_splits acq_pc.splits prod.splits)
  with assms(1) winners_update [of t s] show ?thesis
    by (auto simp: sem_inv_def try_acquire_turn_def pc_after_def winners_def live_permits_def)
next
  case (Mint t)
  with assms winners_update [of t s Idle] show ?thesis
    by (auto simp: sem_inv_def winners_def live_permits_def split: if_splits)
next
  case (ClonePermit p)
  with assms live_update [of p s "permits s ! p + 1"] show ?thesis
    by (auto simp: sem_inv_def winners_def live_permits_def split: if_splits)
next
  case (DropPermit p)
  with assms live_update [of p s "permits s ! p - 1"] show ?thesis
    by (auto simp: sem_inv_def winners_def live_permits_def drop_permit_def Let_def release_def
        split: if_splits)
qed

interpretation semsys: event_invariant sem_step sem_inv
  by unfold_locales (rule sem_step_inv)

lemma sem_inv_init: "sem_inv (sem_sys_new m n)"
  by (simp add: sem_inv_def sem_sys_new_def semaphore_state_new_def live_permits_def winners_def)

lemma sem_max_step: "sem_step e s = Some s' \<Longrightarrow> sem_max (sem s') = sem_max (sem s)"
  by (cases e) (auto simp: try_acquire_turn_def drop_permit_def Let_def release_def
      split: if_splits acq_pc.splits)

lemma sem_max_run: "run_events sem_step es s = Some s' \<Longrightarrow> sem_max (sem s') = sem_max (sem s)"
  by (induction es arbitrary: s) (auto simp: sem_max_step split: option.splits)

section \<open>Properties\<close>

text \<open>C28. Admission is exact: whatever threads interleave inside \<open>try_acquire\<close> and however
  permit words are cloned and dropped, the number of live permits and of winners about
  to mint one is the held count and never exceeds the cap, so the reported availability
  is the number of permits still free.\<close>

theorem semaphore_never_overadmits:
  assumes "run_events sem_step es (sem_sys_new m threads) = Some s"
  shows "live_permits s + winners s \<le> m \<and> held (sem s) = live_permits s + winners s
    \<and> available (sem s) = m - (live_permits s + winners s)"
  using semsys.run_inv [OF sem_inv_init assms] sem_max_run [OF assms]
  by (simp_all add: sem_inv_def available_def sem_sys_new_def semaphore_state_new_def)

theorem semaphore_never_overadmits_witness:
  "live_permits (the (run_events sem_step
     [Load 0, Load 1, Exchange False 0, Exchange False 1, Exchange False 1, Mint 0, ClonePermit 0, DropPermit 0]
     (sem_sys_new 1 2))) \<le> 1"
proof -
  let ?es = "[Load 0, Load 1, Exchange False 0, Exchange False 1, Exchange False 1, Mint 0,
              ClonePermit 0, DropPermit 0]"
  have "run_events sem_step ?es (sem_sys_new 1 2) \<noteq> None" by code_simp
  then obtain s where s: "run_events sem_step ?es (sem_sys_new 1 2) = Some s" by blast
  with semaphore_never_overadmits [OF s] show ?thesis by simp
qed

lemma drops_before_last:
  assumes "p < length (permits s)" "permits s ! p = Suc (length es)"
    and "set es \<subseteq> {DropPermit p}"
  shows "run_events sem_step es s = Some (s\<lparr>permits := (permits s)[p := 1]\<rparr>)"
  using assms
proof (induction es arbitrary: s)
  case Nil
  then have "(permits s)[p := 1] = permits s" using list_update_id [of "permits s" p] by simp
  then show ?case by simp
next
  case (Cons e es)
  let ?s = "drop_permit p s"
  have e: "e = DropPermit p" using Cons.prems(3) by simp
  have s: "?s = s\<lparr>permits := (permits s)[p := Suc (length es)]\<rparr>"
    using Cons.prems(2) by (simp add: drop_permit_def Let_def)
  have "run_events sem_step es ?s = Some (?s\<lparr>permits := (permits ?s)[p := 1]\<rparr>)"
    using Cons.prems by (intro Cons.IH) (simp_all add: s)
  then show ?case using Cons.prems by (simp add: e s)
qed

lemma try_acquire_alone:
  assumes "False \<in> set fails"
  shows "try_acquire_loop fails (held s) s =
    Some (if held s < sem_max s then (s\<lparr>held := held s + 1\<rparr>, True) else (s, False))"
  using assms by (induction fails) (auto simp: try_acquire_turn_def)

text \<open>A permit with \<open>n + 1\<close> clones is returned exactly once: the first \<open>n\<close> drops leave the
  count alone, the last one gives the slot back, and the permit cannot be dropped or
  cloned again. In every reachable state the floor in \<open>release\<close> is never what stops it.\<close>

theorem permit_released_once:
  assumes "run_events sem_step es (sem_sys_new m threads) = Some s"
    and "p < length (permits s)" "permits s ! p = Suc n"
    and "run_events sem_step (replicate n (DropPermit p)) s = Some s1" "sem_step (DropPermit p) s1 = Some s2"
  shows "held (sem s1) = held (sem s) \<and> held (sem s2) + 1 = held (sem s) \<and>
    sem_step (DropPermit p) s2 = None \<and> sem_step (ClonePermit p) s2 = None"
proof -
  have inv: "sem_inv s" by (rule semsys.run_inv [OF sem_inv_init assms(1)])
  have "p < length (permits s) \<and> permits s ! p > 0" using assms by simp
  then have "live_permits s > 0"
    by (auto simp: live_permits_def filter_empty_conv intro: nth_mem)
  then have pos: "held (sem s) > 0" using inv by (simp add: sem_inv_def)
  have "set (replicate n (DropPermit p)) \<subseteq> {DropPermit p}" by (simp add: set_replicate_conv_if)
  then have s1: "s1 = s\<lparr>permits := (permits s)[p := 1]\<rparr>"
    using drops_before_last [of p s "replicate n (DropPermit p)"] assms(2-4) by simp
  then have "s2 = s1\<lparr>permits := (permits s1)[p := 0], sem := release (sem s1)\<rparr>"
    using assms(2,5) by (auto simp: drop_permit_def Let_def split: if_splits)
  with s1 pos assms(2) show ?thesis by (auto simp: release_def)
qed

theorem permit_released_once_witness:
  "\<exists>s1 s2. held (sem s1) = 1 \<and> held (sem s2) = 0 \<and>
     sem_step (DropPermit 0) s1 = Some s2 \<and> sem_step (DropPermit 0) s2 = None"
proof -
  let ?pre = "[Load 0, Exchange False 0, Mint 0, ClonePermit 0]"
  define s where "s = the (run_events sem_step ?pre (sem_sys_new 2 1))"
  have *: "run_events sem_step ?pre (sem_sys_new 2 1) = Some s" "0 < length (permits s)"
    "permits s ! 0 = Suc 1" "held (sem s) = 1"
    by (simp_all add: s_def sem_sys_new_def semaphore_state_new_def try_acquire_turn_def pc_after_def)
  define s1 where "s1 = drop_permit 0 s"
  have s1: "run_events sem_step (replicate 1 (DropPermit 0)) s = Some s1"
    using * by (simp add: s1_def)
  define s2 where "s2 = drop_permit 0 s1"
  have s2: "sem_step (DropPermit 0) s1 = Some s2"
    using * by (simp add: s2_def s1_def drop_permit_def Let_def)
  from permit_released_once [OF *(1-3) s1 s2] *(4)
  have "held (sem s1) = 1 \<and> held (sem s2) = 0 \<and> sem_step (DropPermit 0) s2 = None"
    by (simp del: sem_step.simps)
  with s2 show ?thesis by blast
qed

text \<open>\<open>try_acquire\<close> undisturbed by other threads answers at the first exchange that does
  not fail spuriously, and answers by the count: it takes a slot exactly when one is free.\<close>

theorem try_acquire_exact:
  assumes "False \<in> set fails"
  shows "try_acquire fails s =
    Some (if held s < sem_max s then (s\<lparr>held := held s + 1\<rparr>, True) else (s, False))"
  unfolding try_acquire_def by (rule try_acquire_alone [OF assms])

theorem try_acquire_exact_witness:
  "try_acquire [True, True, False] (semaphore_state_new 1) = Some (\<lparr>sem_max = 1, held = 1\<rparr>, True)"
  using try_acquire_exact [of "[True, True, False]" "semaphore_state_new 1"]
  by (simp add: semaphore_state_new_def)

end
