(* ===== verification/Cancel_Hub.thy ===== *)
theory Cancel_Hub
  imports Pipe_Backend
begin

text \<open>The cancellation hub of \<open>oxdock-process/src/pump.rs\<close>: \<open>CancelHub\<close> (a flag under a
  mutex, a condition variable and a 64-bit sequence that wraps), \<open>run_guarded\<close> (a worker
  sends its completion, then pokes), the supervisor loop its clients run over it
  (\<open>oxdock-net-plugin/src/bridge.rs\<close>), and \<open>CancelGuard\<close>, the waiter thread that turns a
  cancellation of the hub into a cancellation of pipes.\<close>

section \<open>The hub\<close>

record cancel_hub =
  hub_state :: bool
  hub_sequence :: "64 word"
  hub_active :: "64 word"

definition with_counter :: "64 word \<Rightarrow> cancel_hub" where
  "with_counter c = \<lparr>hub_state = False, hub_sequence = 0, hub_active = c\<rparr>"

definition hub_new :: cancel_hub where
  "hub_new = with_counter 0"

definition is_cancelled :: "cancel_hub \<Rightarrow> bool" where
  "is_cancelled h = hub_state h"

definition mark_cancelled :: "cancel_hub \<Rightarrow> cancel_hub" where
  "mark_cancelled h = h\<lparr>hub_state := True, hub_sequence := hub_sequence h + 1\<rparr>"

definition poke :: "cancel_hub \<Rightarrow> cancel_hub" where
  "poke h = h\<lparr>hub_sequence := hub_sequence h + 1\<rparr>"

text \<open>One turn of the loop of \<open>wait\<close> under the lock: \<open>None\<close> is going to sleep.\<close>

definition hub_wait :: "64 word \<Rightarrow> cancel_hub \<Rightarrow> (bool \<times> 64 word) option" where
  "hub_wait seen h =
     (if \<not> hub_state h \<and> hub_sequence h = seen then None
      else Some (hub_state h, hub_sequence h))"

section \<open>Guarded workers and their supervisor\<close>

text \<open>A worker inside \<open>run_guarded\<close>: before the entry count, in the body, about to send, about
  to poke, finished. The supervisor records the sequence, drains the completion queue
  one message at a time, checks for the end or cancellation, and waits.\<close>

datatype worker_pc = WStart | WBody | WSend | WPoke | WDone

datatype sup_pc = SInit | SDrain "64 word" | SCheck "64 word" | SWait "64 word"
  | SAsleep "64 word" | SExit

record session =
  hub :: cancel_hub
  workers :: "worker_pc list"
  queue :: "nat list"
  received :: "nat list"
  sup :: sup_pc
  cx_cancelled :: bool

definition session_new :: "nat \<Rightarrow> session" where
  "session_new n = \<lparr>hub = hub_new, workers = replicate n WStart, queue = [], received = [], sup = SInit, cx_cancelled = False\<rparr>"

text \<open>\<open>notify_all\<close>: a sleeping supervisor returns to the head of its wait loop.\<close>

definition wake_sup :: "sup_pc \<Rightarrow> sup_pc" where
  "wake_sup p = (case p of SAsleep seen \<Rightarrow> SWait seen | _ \<Rightarrow> p)"

datatype session_event = Worker nat | Supervisor | CancelTask | CancelContext | Spurious

text \<open>The statements of \<open>run_guarded\<close>, one per step.\<close>

definition run_guarded_step :: "nat \<Rightarrow> session \<Rightarrow> session option" where
  "run_guarded_step i s =
     (if i < length (workers s) then
        (case workers s ! i of
           WStart \<Rightarrow> Some (s\<lparr>hub := (hub s)\<lparr>hub_active := hub_active (hub s) + 1\<rparr>,
                            workers := (workers s)[i := WBody]\<rparr>)
         | WBody \<Rightarrow> Some (s\<lparr>hub := (hub s)\<lparr>hub_active := hub_active (hub s) - 1\<rparr>,
                           workers := (workers s)[i := WSend]\<rparr>)
         | WSend \<Rightarrow> Some (s\<lparr>queue := queue s @ [i], workers := (workers s)[i := WPoke]\<rparr>)
         | WPoke \<Rightarrow> Some (s\<lparr>hub := poke (hub s), workers := (workers s)[i := WDone],
                           sup := wake_sup (sup s)\<rparr>)
         | WDone \<Rightarrow> None)
      else None)"

text \<open>The statements of the supervisor loop.\<close>

definition supervisor_step :: "session \<Rightarrow> session option" where
  "supervisor_step s =
     (case sup s of
        SInit \<Rightarrow> Some (s\<lparr>sup := SDrain (hub_sequence (hub s))\<rparr>)
      | SDrain seen \<Rightarrow>
          (case queue s of
             [] \<Rightarrow> Some (s\<lparr>sup := SCheck seen\<rparr>)
           | m # ms \<Rightarrow> Some (s\<lparr>queue := ms, received := received s @ [m]\<rparr>))
      | SCheck seen \<Rightarrow>
          (if set (received s) = {..<length (workers s)} then Some (s\<lparr>sup := SExit\<rparr>)
           else if is_cancelled (hub s) \<or> cx_cancelled s then Some (s\<lparr>sup := SExit\<rparr>)
           else Some (s\<lparr>sup := SWait seen\<rparr>))
      | SWait seen \<Rightarrow>
          (case hub_wait seen (hub s) of
             None \<Rightarrow> Some (s\<lparr>sup := SAsleep seen\<rparr>)
           | Some (_, current) \<Rightarrow> Some (s\<lparr>sup := SDrain current\<rparr>))
      | SAsleep seen \<Rightarrow> None
      | SExit \<Rightarrow> None)"

fun session_step :: "session_event \<Rightarrow> session \<Rightarrow> session option" where
  "session_step (Worker i) s = run_guarded_step i s"
| "session_step Supervisor s = supervisor_step s"
| "session_step CancelTask s = Some (s\<lparr>hub := mark_cancelled (hub s), sup := wake_sup (sup s)\<rparr>)"
| "session_step CancelContext s = Some (s\<lparr>cx_cancelled := True\<rparr>)"
| "session_step Spurious s =
     (case sup s of SAsleep seen \<Rightarrow> Some (s\<lparr>sup := SWait seen\<rparr>) | _ \<Rightarrow> None)"

definition done_workers :: "session \<Rightarrow> nat set" where
  "done_workers s = {i. i < length (workers s) \<and> workers s ! i = WDone}"

definition sent_workers :: "session \<Rightarrow> nat set" where
  "sent_workers s = {i. i < length (workers s) \<and> workers s ! i \<in> {WPoke, WDone}}"

text \<open>The sequence the supervisor last recorded, and whether it has drained since.\<close>

fun recorded :: "sup_pc \<Rightarrow> 64 word option" where
  "recorded SInit = None"
| "recorded (SDrain seen) = Some seen"
| "recorded (SCheck seen) = Some seen"
| "recorded (SWait seen) = Some seen"
| "recorded (SAsleep seen) = Some seen"
| "recorded SExit = None"

fun drained :: "sup_pc \<Rightarrow> bool" where
  "drained (SCheck seen) = True"
| "drained (SWait seen) = True"
| "drained (SAsleep seen) = True"
| "drained _ = False"

fun waiting :: "sup_pc \<Rightarrow> bool" where
  "waiting (SWait seen) = True"
| "waiting (SAsleep seen) = True"
| "waiting _ = False"

definition recorded_ok :: "session \<Rightarrow> bool" where
  "recorded_ok s \<longleftrightarrow>
     (\<forall>seen. recorded (sup s) = Some seen \<longrightarrow>
        (\<exists>D \<subseteq> done_workers s. seen = of_nat (card D) \<and> (drained (sup s) \<longrightarrow> D \<subseteq> set (received s))))"

definition session_inv :: "session \<Rightarrow> bool" where
  "session_inv s \<longleftrightarrow>
     set (queue s) \<union> set (received s) = sent_workers s \<and>
     (\<not> hub_state (hub s) \<longrightarrow> hub_sequence (hub s) = of_nat (card (done_workers s)) \<and> recorded_ok s) \<and>
     (waiting (sup s) \<longrightarrow> set (received s) \<noteq> {..<length (workers s)}) \<and>
     (\<forall>seen. sup s = SAsleep seen \<longrightarrow> \<not> hub_state (hub s) \<and> hub_sequence (hub s) = seen)"

section \<open>The invariant\<close>

lemmas worker_set_defs = done_workers_def sent_workers_def

lemma done_workers_update:
  assumes "i < length (workers s)"
  shows "done_workers (s\<lparr>workers := (workers s)[i := pc]\<rparr>) =
    (if pc = WDone then insert i (done_workers s) else done_workers s - {i})"
  using assms by (auto simp: done_workers_def nth_list_update split: if_splits)

lemma sent_workers_update:
  assumes "i < length (workers s)"
  shows "sent_workers (s\<lparr>workers := (workers s)[i := pc]\<rparr>) =
    (if pc \<in> {WPoke, WDone} then insert i (sent_workers s) else sent_workers s - {i})"
  using assms by (auto simp: sent_workers_def nth_list_update split: if_splits)

lemma worker_sets_frame [simp]:
  "done_workers (s\<lparr>hub := h\<rparr>) = done_workers s" "sent_workers (s\<lparr>hub := h\<rparr>) = sent_workers s"
  "done_workers (s\<lparr>queue := q\<rparr>) = done_workers s" "sent_workers (s\<lparr>queue := q\<rparr>) = sent_workers s"
  "done_workers (s\<lparr>received := r\<rparr>) = done_workers s" "sent_workers (s\<lparr>received := r\<rparr>) = sent_workers s"
  "done_workers (s\<lparr>sup := p\<rparr>) = done_workers s" "sent_workers (s\<lparr>sup := p\<rparr>) = sent_workers s"
  by (simp_all add: worker_set_defs)

lemma finite_done [simp]: "finite (done_workers s)"
  by (simp add: done_workers_def)

lemma done_subset_sent: "done_workers s \<subseteq> sent_workers s"
  by (auto simp: worker_set_defs)

lemma wake_sup_simps [simp]:
  "recorded (wake_sup p) = recorded p" "drained (wake_sup p) = drained p"
  "waiting (wake_sup p) = waiting p" "wake_sup p \<noteq> SAsleep seen"
  by (cases p; simp add: wake_sup_def)+

lemma wake_sup_awake [simp]: "(\<forall>seen. p \<noteq> SAsleep seen) \<Longrightarrow> wake_sup p = p"
  by (cases p) (auto simp: wake_sup_def)

text \<open>The recorded count stays a count of finished workers when more of them finish.\<close>

lemma recorded_ok_mono:
  assumes "recorded_ok s" "done_workers s \<subseteq> done_workers s'" "recorded (sup s') = recorded (sup s)"
    "drained (sup s') = drained (sup s)" "received s' = received s"
  shows "recorded_ok s'"
  using assms unfolding recorded_ok_def by (metis subset_trans)

lemma recorded_ok_fresh:
  assumes "recorded (sup s) = Some (of_nat (card (done_workers s)))" "\<not> drained (sup s)"
  shows "recorded_ok s"
  using assms by (auto simp: recorded_ok_def)

lemma session_inv_init: "session_inv (session_new n)"
proof -
  have "done_workers (session_new n) = {}" "sent_workers (session_new n) = {}"
    by (auto simp: worker_set_defs session_new_def)
  then show ?thesis
    by (simp add: session_inv_def session_new_def hub_new_def with_counter_def recorded_ok_def)
qed

lemma session_invD:
  assumes "session_inv s"
  shows "set (queue s) \<union> set (received s) = sent_workers s"
    and "\<not> hub_state (hub s) \<Longrightarrow> hub_sequence (hub s) = of_nat (card (done_workers s))"
    and "\<not> hub_state (hub s) \<Longrightarrow> recorded_ok s"
    and "waiting (sup s) \<Longrightarrow> set (received s) \<noteq> {..<length (workers s)}"
    and "sup s = SAsleep seen \<Longrightarrow> \<not> hub_state (hub s) \<and> hub_sequence (hub s) = seen"
  using assms by (simp_all add: session_inv_def)

lemma worker_sets_advance:
  assumes "i < length (workers s)" "workers s ! i = pc"
  shows "pc \<in> {WStart, WBody} \<Longrightarrow> pc' \<in> {WBody, WSend} \<Longrightarrow>
      sent_workers (s\<lparr>workers := (workers s)[i := pc']\<rparr>) = sent_workers s"
    and "pc \<noteq> WDone \<Longrightarrow> pc' \<noteq> WDone \<Longrightarrow>
      done_workers (s\<lparr>workers := (workers s)[i := pc']\<rparr>) = done_workers s"
    and "pc = WPoke \<Longrightarrow> i \<in> sent_workers s \<and> i \<notin> done_workers s"
  using assms by (auto simp: nth_list_update worker_set_defs split: if_splits)

lemma run_guarded_inv:
  assumes inv: "session_inv s" and st: "run_guarded_step i s = Some s'"
  shows "session_inv s'"
proof -
  have i: "i < length (workers s)" using st by (simp add: run_guarded_step_def split: if_splits)
  have rec: "recorded_ok t" if "\<not> hub_state (hub s)" "done_workers s \<subseteq> done_workers t"
    "recorded (sup t) = recorded (sup s)" "drained (sup t) = drained (sup s)" "received t = received s"
    for t :: session
    using recorded_ok_mono [OF session_invD(3) [OF inv that(1)] that(2-5)] .
  note D = session_invD [OF inv] and A = worker_sets_advance [OF i refl]
  show ?thesis
  proof (cases "workers s ! i")
    case WStart
    define t where "t = s\<lparr>hub := (hub s)\<lparr>hub_active := hub_active (hub s) + 1\<rparr>, workers := (workers s)[i := WBody]\<rparr>"
    have eq: "done_workers t = done_workers s" "sent_workers t = sent_workers s"
      using A(1,2) [of WBody] WStart by (simp_all add: t_def worker_set_defs)
    have "s' = t" using st i WStart by (simp add: run_guarded_step_def t_def)
    then show ?thesis using D rec [of t] eq by (simp add: session_inv_def) (auto simp: t_def)
  next
    case WBody
    define t where "t = s\<lparr>hub := (hub s)\<lparr>hub_active := hub_active (hub s) - 1\<rparr>, workers := (workers s)[i := WSend]\<rparr>"
    have eq: "done_workers t = done_workers s" "sent_workers t = sent_workers s"
      using A(1,2) [of WSend] WBody by (simp_all add: t_def worker_set_defs)
    have "s' = t" using st i WBody by (simp add: run_guarded_step_def t_def)
    then show ?thesis using D rec [of t] eq by (simp add: session_inv_def) (auto simp: t_def)
  next
    case WSend
    define t where "t = s\<lparr>queue := queue s @ [i], workers := (workers s)[i := WPoke]\<rparr>"
    have eq: "done_workers t = done_workers s" "sent_workers t = insert i (sent_workers s)"
      using A(2) [of WPoke] WSend sent_workers_update [OF i, of WPoke]
      by (simp_all add: t_def worker_set_defs)
    have "s' = t" using st i WSend by (simp add: run_guarded_step_def t_def)
    then show ?thesis using D rec [of t] eq by (simp add: session_inv_def) (auto simp: t_def)
  next
    case WPoke
    define t where "t = s\<lparr>hub := poke (hub s), workers := (workers s)[i := WDone], sup := wake_sup (sup s)\<rparr>"
    have eq: "done_workers t = insert i (done_workers s)" "sent_workers t = sent_workers s"
      using A(3) [OF WPoke] sent_workers_update [OF i, of WDone] done_workers_update [OF i, of WDone]
      by (auto simp: t_def worker_set_defs)
    have "s' = t" using st i WPoke by (simp add: run_guarded_step_def t_def)
    moreover have "card (done_workers t) = Suc (card (done_workers s))"
      using A(3) [OF WPoke] by (simp add: eq)
    ultimately show ?thesis using D rec [of t] eq
      by (simp add: session_inv_def) (auto simp: t_def poke_def)
  next
    case WDone
    with st i show ?thesis by (simp add: run_guarded_step_def)
  qed
qed

lemma supervisor_inv:
  assumes inv: "session_inv s" and st: "supervisor_step s = Some s'"
  shows "session_inv s'"
proof (cases "sup s")
  case SInit
  then have s': "s' = s\<lparr>sup := SDrain (hub_sequence (hub s))\<rparr>"
    using st by (simp add: supervisor_step_def)
  have "recorded_ok s'" if "\<not> hub_state (hub s)"
    using session_invD(2) [OF inv that] by (intro recorded_ok_fresh) (simp_all add: s')
  with inv show ?thesis by (simp add: session_inv_def s')
next
  case (SDrain seen)
  show ?thesis
  proof (cases "queue s")
    case Nil
    then have s': "s' = s\<lparr>sup := SCheck seen\<rparr>" using st SDrain by (simp add: supervisor_step_def)
    have "done_workers s \<subseteq> set (received s)" using session_invD(1) [OF inv] done_subset_sent [of s] Nil by simp
    then have "recorded_ok s'" if "\<not> hub_state (hub s)"
      using session_invD(3) [OF inv that] SDrain by (auto simp: recorded_ok_def s')
    with inv show ?thesis by (simp add: session_inv_def s')
  next
    case (Cons m ms)
    then have s': "s' = s\<lparr>queue := ms, received := received s @ [m]\<rparr>"
      using st SDrain by (simp add: supervisor_step_def)
    have "recorded_ok s'" if "\<not> hub_state (hub s)"
      using session_invD(3) [OF inv that] SDrain by (simp add: recorded_ok_def s')
    moreover have "set (queue s') \<union> set (received s') = sent_workers s'"
      using session_invD(1) [OF inv] Cons by (auto simp: s')
    ultimately show ?thesis using inv SDrain by (simp add: session_inv_def s')
  qed
next
  case (SCheck seen)
  with st consider "s' = s\<lparr>sup := SExit\<rparr>"
    | "s' = s\<lparr>sup := SWait seen\<rparr>" "set (received s) \<noteq> {..<length (workers s)}"
    by (auto simp: supervisor_step_def split: if_splits)
  then show ?thesis using inv SCheck by cases (simp_all add: session_inv_def recorded_ok_def)
next
  case (SWait seen)
  with st consider "s' = s\<lparr>sup := SAsleep seen\<rparr>" "\<not> hub_state (hub s)" "hub_sequence (hub s) = seen"
    | "s' = s\<lparr>sup := SDrain (hub_sequence (hub s))\<rparr>"
    by (auto simp: supervisor_step_def hub_wait_def split: if_splits)
  then show ?thesis
  proof cases
    case 1
    then show ?thesis using inv SWait by (auto simp: session_inv_def recorded_ok_def)
  next
    case 2
    have "recorded_ok s'" if "\<not> hub_state (hub s)"
      using session_invD(2) [OF inv that] by (intro recorded_ok_fresh) (simp_all add: 2)
    then show ?thesis using inv by (simp add: session_inv_def 2)
  qed
qed (use st in \<open>simp_all add: supervisor_step_def\<close>)

lemma session_step_inv:
  assumes "session_inv s" "session_step e s = Some s'"
  shows "session_inv s'"
proof (cases e)
  case (Worker i)
  with assms run_guarded_inv show ?thesis by simp
next
  case Supervisor
  with assms supervisor_inv show ?thesis by simp
next
  case CancelTask
  with assms show ?thesis by (auto simp: session_inv_def mark_cancelled_def)
next
  case CancelContext
  with assms show ?thesis
    by (auto simp: session_inv_def recorded_ok_def done_workers_def sent_workers_def)
next
  case Spurious
  with assms(2) obtain seen where "sup s = SAsleep seen" "s' = s\<lparr>sup := SWait seen\<rparr>"
    by (cases "sup s") simp_all
  with assms(1) show ?thesis by (auto simp: session_inv_def recorded_ok_def)
qed

interpretation session: event_invariant session_step session_inv
  by unfold_locales (rule session_step_inv)

lemma workers_length_step:
  assumes "session_step e s = Some s'"
  shows "length (workers s') = length (workers s)"
proof (cases e)
  case (Worker i)
  with assms show ?thesis
    by (cases "workers s ! i") (auto simp: run_guarded_step_def split: if_splits)
next
  case Supervisor
  with assms show ?thesis
    by (cases "sup s"; cases "queue s"; cases "hub_state (hub s)")
      (fastforce simp: supervisor_step_def hub_wait_def is_cancelled_def split: if_splits)+
next
  case CancelTask
  with assms show ?thesis by auto
next
  case CancelContext
  with assms show ?thesis by auto
next
  case Spurious
  with assms show ?thesis by (cases "sup s") auto
qed

lemma workers_length_run:
  "run_events session_step es s = Some s' \<Longrightarrow> length (workers s') = length (workers s)"
  by (induction es arbitrary: s) (auto simp: workers_length_step split: option.splits)

text \<open>Below \<open>2 ^ 64\<close> finished workers the sequence determines which of them were seen.\<close>

lemma same_count_same_workers:
  assumes "D \<subseteq> E" "finite E" "card E < 2 ^ 64" "(of_nat (card D) :: 64 word) = of_nat (card E)"
  shows "D = E"
proof -
  have "card D < 2 ^ 64" using card_mono [OF assms(2,1)] assms(3) by simp
  then have "card D = card E"
    using assms(3) arg_cong [OF assms(4), of unat] by (simp add: unat_of_nat)
  with assms(1,2) show ?thesis by (simp add: card_subset_eq)
qed

section \<open>The bridge from the hub to pipes\<close>

text \<open>\<open>CancelGuard::arm\<close> spawns a waiter that records the sequence, signals that it started,
  waits once, and cancels its pipes when the wait reports a cancellation.\<close>

datatype guard_pc = GStart | GReady "64 word" | GAsleep "64 word" | GEnd

record guard_sys =
  guard_hub :: cancel_hub
  guard_started :: bool
  guard_pipes :: "pipe_state list"
  guard_pc :: guard_pc

definition arm :: "cancel_hub \<Rightarrow> pipe_state list \<Rightarrow> guard_sys" where
  "arm h ps = \<lparr>guard_hub = h, guard_started = False, guard_pipes = ps, guard_pc = GStart\<rparr>"

definition guard_notify :: "guard_pc \<Rightarrow> guard_pc" where
  "guard_notify pc = (case pc of GAsleep seen \<Rightarrow> GReady seen | _ \<Rightarrow> pc)"

datatype guard_event = GuardWaiter | HubPoke | HubCancel | GuardDrop

definition guard_waiter :: "guard_sys \<Rightarrow> guard_sys option" where
  "guard_waiter g =
     (case guard_pc g of
        GStart \<Rightarrow> Some (g\<lparr>guard_started := True, guard_pc := GReady (hub_sequence (guard_hub g))\<rparr>)
      | GReady seen \<Rightarrow>
          (case hub_wait seen (guard_hub g) of
             None \<Rightarrow> Some (g\<lparr>guard_pc := GAsleep seen\<rparr>)
           | Some (fired, _) \<Rightarrow>
               Some (g\<lparr>guard_pc := GEnd,
                       guard_pipes := (if fired then map cancel (guard_pipes g) else guard_pipes g)\<rparr>))
      | GAsleep seen \<Rightarrow> None
      | GEnd \<Rightarrow> None)"

text \<open>Dropping the guard waits for the start signal, then pokes (and joins the waiter).\<close>

fun guard_step :: "guard_event \<Rightarrow> guard_sys \<Rightarrow> guard_sys option" where
  "guard_step GuardWaiter g = guard_waiter g"
| "guard_step HubPoke g = Some (g\<lparr>guard_hub := poke (guard_hub g), guard_pc := guard_notify (guard_pc g)\<rparr>)"
| "guard_step HubCancel g =
     Some (g\<lparr>guard_hub := mark_cancelled (guard_hub g), guard_pc := guard_notify (guard_pc g)\<rparr>)"
| "guard_step GuardDrop g =
     (if guard_started g
      then Some (g\<lparr>guard_hub := poke (guard_hub g), guard_pc := guard_notify (guard_pc g)\<rparr>) else None)"

definition guard_live :: "guard_sys \<Rightarrow> bool" where
  "guard_live g \<longleftrightarrow>
     (case guard_pc g of
        GStart \<Rightarrow> True
      | GReady seen \<Rightarrow> hub_state (guard_hub g) \<or> hub_sequence (guard_hub g) = seen
      | GAsleep seen \<Rightarrow> \<not> hub_state (guard_hub g) \<and> hub_sequence (guard_hub g) = seen
      | GEnd \<Rightarrow> list_all cancelled (guard_pipes g))"

lemma guard_step_live:
  assumes "guard_live g" "guard_step e g = Some g'" "e = GuardWaiter \<or> e = HubCancel"
  shows "guard_live g'"
  using assms
  by (cases "guard_pc g")
     (auto simp: guard_live_def guard_waiter_def hub_wait_def mark_cancelled_def guard_notify_def
        list.pred_map cancel_def comp_def list_all_iff split: if_splits)

lemma guard_run_live:
  assumes "guard_live g" "run_events guard_step es g = Some g'" "set es \<subseteq> {GuardWaiter, HubCancel}"
  shows "guard_live g'"
  using assms
proof (induction es arbitrary: g)
  case (Cons e es)
  then obtain t where "guard_step e g = Some t" "run_events guard_step es t = Some g'"
    by (auto split: option.splits)
  with Cons guard_step_live [of g e t] show ?case by auto
qed simp

lemma hub_state_sticky: "guard_step e g = Some g' \<Longrightarrow> hub_state (guard_hub g) \<Longrightarrow> hub_state (guard_hub g')"
  by (cases e; cases "guard_pc g")
     (auto simp: guard_waiter_def poke_def mark_cancelled_def split: option.splits if_splits)

lemma guard_retired:
  assumes "guard_pc g = GEnd" "run_events guard_step es g = Some g'"
  shows "guard_pc g' = GEnd \<and> guard_pipes g' = guard_pipes g"
  using assms
proof (induction es arbitrary: g)
  case (Cons e es)
  then obtain t where t: "guard_step e g = Some t" "run_events guard_step es t = Some g'"
    by (auto split: option.splits)
  have "guard_pc t = GEnd \<and> guard_pipes t = guard_pipes g"
    using t(1) Cons.prems(1) by (cases e) (auto simp: guard_waiter_def guard_notify_def split: if_splits)
  with Cons.IH [of t] t(2) show ?case by simp
qed simp

section \<open>Properties\<close>

text \<open>C27. Send-then-poke never strands a completion: in every interleaving of fewer than
  \<open>2 ^ 64\<close> guarded workers, cancellation and spurious wake-ups, a supervisor that sleeps
  has received the completion of every worker that finished, the queue holds only
  completions whose poke is still to come, the task is not cancelled, and some worker
  has not finished yet, so the supervisor never sleeps for good.\<close>

theorem supervisor_never_stranded:
  assumes "n < 2 ^ 64" "run_events session_step es (session_new n) = Some s" "sup s = SAsleep seen"
  shows "done_workers s \<subseteq> set (received s) \<and> (\<forall>i \<in> set (queue s). i \<in> set (received s) \<or> workers s ! i = WPoke)
    \<and> \<not> is_cancelled (hub s) \<and> (\<exists>i < n. workers s ! i \<noteq> WDone)"
proof -
  have inv: "session_inv s" by (rule session.run_inv [OF session_inv_init assms(2)])
  have len: "length (workers s) = n" using workers_length_run [OF assms(2)] by (simp add: session_new_def)
  note D = session_invD [OF inv]
  have nc: "\<not> hub_state (hub s)" and seq: "hub_sequence (hub s) = seen" using D(5) [OF assms(3)] by simp_all
  obtain S where S: "S \<subseteq> done_workers s" "seen = of_nat (card S)" "S \<subseteq> set (received s)"
    using D(3) [OF nc] assms(3) by (auto simp: recorded_ok_def)
  have "done_workers s \<subseteq> {..<n}" using len by (auto simp: done_workers_def)
  then have "card (done_workers s) \<le> n" using card_mono [OF finite_lessThan, of _ n] by fastforce
  then have "card (done_workers s) < 2 ^ 64" using assms(1) by linarith
  then have eq: "S = done_workers s" using same_count_same_workers [OF S(1)] D(2) [OF nc] seq S(2) by simp
  have "set (received s) \<noteq> {..<n}" "set (received s) \<subseteq> {..<n}"
    using D(1,4) assms(3) len by (auto simp: sent_workers_def)
  then obtain i where "i < n" "i \<notin> set (received s)" by auto
  then have "\<exists>i < n. workers s ! i \<noteq> WDone" using S(3) eq len by (auto simp: done_workers_def)
  moreover have "\<forall>i \<in> set (queue s). i \<in> set (received s) \<or> workers s ! i = WPoke"
    using D(1) S(3) eq by (auto simp: worker_set_defs)
  ultimately show ?thesis using S(3) eq nc by (simp add: is_cancelled_def)
qed

theorem supervisor_never_stranded_witness:
  "\<exists>s. run_events session_step [Supervisor, Worker 0, Worker 0, Supervisor, Worker 0, Supervisor, Supervisor]
     (session_new 1) = Some s \<and> sup s = SAsleep 0 \<and> queue s = [0] \<and> workers s ! 0 = WPoke"
proof -
  let ?es = "[Supervisor, Worker 0, Worker 0, Supervisor, Worker 0, Supervisor, Supervisor]"
  define s where "s = the (run_events session_step ?es (session_new 1))"
  have s: "run_events session_step ?es (session_new 1) = Some s" "sup s = SAsleep 0"
    "queue s = [0]" "received s = []"
    by (simp_all add: s_def session_new_def run_guarded_step_def supervisor_step_def hub_new_def
        with_counter_def is_cancelled_def hub_wait_def lessThan_Suc)
  with supervisor_never_stranded [OF _ s(1,2)] show ?thesis by auto
qed

lemma poke_funpow: "(poke ^^ n) h = h\<lparr>hub_sequence := hub_sequence h + of_nat n\<rparr>"
  by (induction n) (simp_all add: poke_def algebra_simps)

text \<open>A poke that lands between recording the sequence and waiting is not lost: after
  any number of pokes that is not a multiple of \<open>2 ^ 64\<close> the wait returns at once, and the
  wrap-around of the sequence is the only way it can sleep.\<close>

theorem poke_before_wait_is_seen:
  "hub_wait (hub_sequence h) ((poke ^^ n) h) = None \<longleftrightarrow> \<not> is_cancelled h \<and> 2 ^ 64 dvd n"
proof -
  have "(of_nat n :: 64 word) = 0 \<longleftrightarrow> 2 ^ 64 dvd n"
    by (simp add: word_of_nat_eq_0_iff)
  then show ?thesis by (auto simp: hub_wait_def poke_funpow is_cancelled_def)
qed

text \<open>An armed guard forwards cancellation: when nothing but the waiter itself and
  cancellations touch the hub after arming, a cancellation at any point leaves the waiter
  awake, and within two of its steps it has cancelled every guarded pipe.\<close>

theorem guard_forwards_cancellation:
  assumes "run_events guard_step es (arm h ps) = Some g" "set es \<subseteq> {GuardWaiter, HubCancel}"
    and "hub_state (guard_hub g)"
  shows "\<exists>k \<le> 2. \<exists>g'. run_events guard_step (replicate k GuardWaiter) g = Some g' \<and>
    guard_pc g' = GEnd \<and> list_all cancelled (guard_pipes g')"
proof -
  have live: "guard_live g"
    by (rule guard_run_live [OF _ assms(1,2)]) (simp add: guard_live_def arm_def)
  show ?thesis
  proof (cases "guard_pc g")
    case GStart
    with assms(3) have "run_events guard_step (replicate 2 GuardWaiter) g \<noteq> None" "2 \<le> (2::nat)"
      by (simp_all add: numeral_2_eq_2 guard_waiter_def hub_wait_def)
    with GStart assms(3) show ?thesis
      by (intro exI [of _ 2]) (auto simp: numeral_2_eq_2 guard_waiter_def hub_wait_def list_all_iff cancel_def)
  next
    case (GReady seen)
    with assms(3) show ?thesis
      by (intro exI [of _ 1]) (auto simp: guard_waiter_def hub_wait_def list_all_iff cancel_def)
  next
    case (GAsleep seen)
    with assms(3) live show ?thesis by (simp add: guard_live_def)
  next
    case GEnd
    with live show ?thesis by (intro exI [of _ 0]) (auto simp: guard_live_def)
  qed
qed

theorem guard_forwards_cancellation_witness:
  "\<exists>k \<le> 2. \<exists>g'. run_events guard_step (replicate k GuardWaiter)
      (the (run_events guard_step [GuardWaiter, GuardWaiter, HubCancel] (arm hub_new [pipe_state_new 8 8]))) = Some g'
    \<and> guard_pc g' = GEnd \<and> list_all cancelled (guard_pipes g')"
  by (rule guard_forwards_cancellation [of "[GuardWaiter, GuardWaiter, HubCancel]" hub_new "[pipe_state_new 8 8]"])
     (simp_all add: arm_def hub_new_def with_counter_def guard_waiter_def hub_wait_def guard_notify_def
       mark_cancelled_def)

text \<open>The guard does not survive a poke: a poke of the hub that is not the guard's own
  release, landing after the waiter recorded the sequence, retires the waiter without
  cancelling anything, and no cancellation after that reaches the guarded pipes.\<close>

theorem stray_poke_disarms_guard:
  assumes "\<not> is_cancelled h"
    and "run_events guard_step ([GuardWaiter, HubPoke, GuardWaiter] @ es) (arm h ps) = Some g"
  shows "guard_pc g = GEnd \<and> guard_pipes g = ps"
proof -
  let ?g = "\<lparr>guard_hub = poke h, guard_started = True, guard_pipes = ps, guard_pc = GEnd\<rparr>"
  have "run_events guard_step [GuardWaiter, HubPoke, GuardWaiter] (arm h ps) = Some ?g"
    using assms(1) by (simp add: arm_def guard_waiter_def guard_notify_def hub_wait_def poke_def is_cancelled_def)
  then have "run_events guard_step es ?g = Some g"
    using assms(2) by (simp only: run_events_append bind.bind_lunit)
  from guard_retired [OF _ this] show ?thesis by simp
qed

theorem stray_poke_disarms_guard_witness:
  "\<exists>g. run_events guard_step [GuardWaiter, HubPoke, GuardWaiter, HubCancel] (arm hub_new [pipe_state_new 8 8]) = Some g
    \<and> hub_state (guard_hub g) \<and> guard_pipes g = [pipe_state_new 8 8]"
proof -
  define g where "g = the (run_events guard_step ([GuardWaiter, HubPoke, GuardWaiter] @ [HubCancel])
    (arm hub_new [pipe_state_new 8 8]))"
  have g: "run_events guard_step ([GuardWaiter, HubPoke, GuardWaiter] @ [HubCancel])
      (arm hub_new [pipe_state_new 8 8]) = Some g" "hub_state (guard_hub g)"
    by (simp_all add: g_def arm_def hub_new_def with_counter_def guard_waiter_def guard_notify_def
        hub_wait_def poke_def mark_cancelled_def)
  have "\<not> is_cancelled hub_new" by (simp add: is_cancelled_def hub_new_def with_counter_def)
  from stray_poke_disarms_guard [OF this g(1)] g show ?thesis by auto
qed

end
