(* ===== verification/Quantities.thy ===== *)
theory Quantities
  imports Prelude
begin

text \<open>Durations and byte counts (\<open>oxdock-parser/src/command.rs\<close>): the parsers
  \<open>parse_duration\<close> and \<open>parse_byte_count\<close>, their canonical printers, and the shared rules on
  digit separators and on the one space that may stand before a unit. A duration is a
  number of milliseconds: \<open>Duration::from_millis\<close> is the only constructor the parser uses.
  Numbers are printed and read the way \<open>u64\<close>'s \<open>Display\<close> and \<open>FromStr\<close> do.\<close>

section \<open>Decimal text\<close>

definition digit_char :: "nat \<Rightarrow> char" where
  "digit_char d = char_of (48 + d)"

definition digit_value :: "char \<Rightarrow> nat" where
  "digit_value c = of_char c - 48"

fun show_nat :: "nat \<Rightarrow> string" where
  "show_nat n = (if n < 10 then [digit_char n] else show_nat (n div 10) @ [digit_char (n mod 10)])"

declare show_nat.simps [simp del]

text \<open>\<open>u64::from_str\<close>: an optional \<open>+\<close>, at least one digit, no overflow at any digit.\<close>

fun parse_digits :: "nat \<Rightarrow> nat \<Rightarrow> string \<Rightarrow> nat option" where
  "parse_digits bound acc [] = Some acc"
| "parse_digits bound acc (c # cs) =
     (if is_ascii_digit c \<and> acc * 10 + digit_value c < bound
      then parse_digits bound (acc * 10 + digit_value c) cs else None)"

definition parse_u64 :: "string \<Rightarrow> nat option" where
  "parse_u64 s =
     (let body = (case strip_prefix ''+'' s of Some t \<Rightarrow> t | None \<Rightarrow> s) in
      if body = [] then None else parse_digits (2 ^ 64) 0 body)"

text \<open>\<open>str::split_whitespace\<close>: the non-empty runs between white space.\<close>

fun split_ws :: "string \<Rightarrow> string \<Rightarrow> string list" where
  "split_ws w [] = (if w = [] then [] else [w])"
| "split_ws w (c # cs) =
     (if is_whitespace c then (if w = [] then split_ws [] cs else w # split_ws [] cs)
      else split_ws (w @ [c]) cs)"

definition split_whitespace :: "string \<Rightarrow> string list" where
  "split_whitespace s = split_ws [] s"

section \<open>The operations\<close>

datatype quantity_error = InvalidToken string | Invalid string | OutOfRange string | NotPositive string

definition is_ascii_alphabetic :: "char \<Rightarrow> bool" where
  "is_ascii_alphabetic c \<longleftrightarrow> is_ascii_uppercase c \<or> is_ascii_lowercase c"

definition join_single_space :: "string \<Rightarrow> quantity_error + string" where
  "join_single_space s =
     (case split_whitespace s of
        [digits] \<Rightarrow> Ok digits
      | [digits, unit] \<Rightarrow>
          (let body = (case strip_prefix ''+'' digits of Some t \<Rightarrow> t | None \<Rightarrow> digits) in
           if list_all (\<lambda>b. is_ascii_digit b \<or> b = CHR ''_'') body \<and> list_all is_ascii_alphabetic unit
           then Ok (digits @ unit) else Err (InvalidToken s))
      | _ \<Rightarrow> Err (InvalidToken s))"

text \<open>The unit of a token: the first suffix of the table that matches, with its factor.\<close>

fun strip_unit :: "(string \<times> nat) list \<Rightarrow> string \<Rightarrow> nat \<Rightarrow> string \<times> nat" where
  "strip_unit [] s dflt = (s, dflt)"
| "strip_unit ((sfx, factor) # us) s dflt =
     (case strip_suffix sfx s of Some v \<Rightarrow> (v, factor) | None \<Rightarrow> strip_unit us s dflt)"

definition duration_units :: "(string \<times> nat) list" where
  "duration_units = [(''ms'', 1), (''s'', 1000), (''m'', 60000), (''h'', 3600000)]"

definition checked_scale :: "string \<Rightarrow> nat option \<Rightarrow> nat \<Rightarrow> quantity_error + nat" where
  "checked_scale s n factor =
     (case n of
        None \<Rightarrow> Err (Invalid s)
      | Some n \<Rightarrow>
          if n * factor \<ge> 2 ^ 64 then Err (OutOfRange s)
          else if n * factor = 0 then Err (NotPositive s)
          else Ok (n * factor))"

definition parse_duration :: "string \<Rightarrow> quantity_error + nat" where
  "parse_duration s0 =
     bind_result (join_single_space s0) (\<lambda>s.
       case strip_unit duration_units s 1000 of
         (digits, unit_ms) \<Rightarrow> checked_scale s (parse_u64 digits) unit_ms)"

definition format_duration :: "nat \<Rightarrow> string" where
  "format_duration millis =
     (if 3600000 dvd millis then show_nat (millis div 3600000) @ ''h''
      else if 60000 dvd millis then show_nat (millis div 60000) @ ''m''
      else if 1000 dvd millis then show_nat (millis div 1000) @ ''s''
      else show_nat millis @ ''ms'')"

definition well_formed_number :: "string \<Rightarrow> bool" where
  "well_formed_number body \<longleftrightarrow>
     body \<noteq> [] \<and> is_ascii_digit (hd body) \<and> is_ascii_digit (last body) \<and>
     list_all (\<lambda>b. is_ascii_digit b \<or> b = CHR ''_'' \<or> b = CHR ''.'') body \<and>
     \<not> sublist ''__'' body \<and> length (filter (\<lambda>b. b = CHR ''.'') body) \<le> 1"

definition strip_digit_separators :: "string \<Rightarrow> string" where
  "strip_digit_separators text =
     (let body = (case strip_prefix ''+'' text of Some t \<Rightarrow> t
                  | None \<Rightarrow> (case strip_prefix ''-'' text of Some t \<Rightarrow> t | None \<Rightarrow> text)) in
      if well_formed_number body then filter (\<lambda>c. c \<noteq> CHR ''_'') text else text)"

definition byte_units :: "(string \<times> nat) list" where
  "byte_units =
     [(''kib'', 2 ^ 10), (''mib'', 2 ^ 20), (''gib'', 2 ^ 30), (''tib'', 2 ^ 40),
      (''kb'', 1000), (''mb'', 1000000), (''gb'', 1000000000), (''tb'', 1000000000000), (''b'', 1)]"

definition parse_byte_count :: "string \<Rightarrow> quantity_error + nat" where
  "parse_byte_count s0 =
     bind_result (join_single_space s0) (\<lambda>s.
       case strip_unit byte_units (map to_ascii_lowercase s) 1 of
         (low, unit) \<Rightarrow>
           (let digits = strip_digit_separators (take (length low) s);
                digits = (case strip_prefix ''+'' digits of Some t \<Rightarrow> t | None \<Rightarrow> digits) in
            checked_scale s (parse_u64 digits) unit))"

definition format_byte_count :: "nat \<Rightarrow> string" where
  "format_byte_count n =
     (if n \<ge> 2 ^ 40 \<and> 2 ^ 40 dvd n then show_nat (n div 2 ^ 40) @ ''TiB''
      else if n \<ge> 1000000000000 \<and> 1000000000000 dvd n then show_nat (n div 1000000000000) @ ''TB''
      else if n \<ge> 2 ^ 30 \<and> 2 ^ 30 dvd n then show_nat (n div 2 ^ 30) @ ''GiB''
      else if n \<ge> 1000000000 \<and> 1000000000 dvd n then show_nat (n div 1000000000) @ ''GB''
      else if n \<ge> 2 ^ 20 \<and> 2 ^ 20 dvd n then show_nat (n div 2 ^ 20) @ ''MiB''
      else if n \<ge> 1000000 \<and> 1000000 dvd n then show_nat (n div 1000000) @ ''MB''
      else if n \<ge> 2 ^ 10 \<and> 2 ^ 10 dvd n then show_nat (n div 2 ^ 10) @ ''KiB''
      else if n \<ge> 1000 \<and> 1000 dvd n then show_nat (n div 1000) @ ''KB''
      else show_nat n @ ''B'')"

section \<open>Reading back what was printed\<close>

lemma digit_char_props:
  assumes "d < 10"
  shows "is_ascii_digit (digit_char d)" "digit_value (digit_char d) = d"
proof -
  have "of_char (digit_char d) = 48 + d" using assms by (simp add: digit_char_def)
  with assms show "is_ascii_digit (digit_char d)" "digit_value (digit_char d) = d"
    by (simp_all add: is_ascii_digit_def digit_value_def)
qed

lemma show_nat_digits: "list_all is_ascii_digit (show_nat n)"
proof (induction n rule: show_nat.induct)
  case (1 n)
  then show ?case by (subst show_nat.simps) (auto simp: digit_char_props)
qed

lemma show_nat_nonempty [simp]: "show_nat n \<noteq> []"
  by (subst show_nat.simps) simp

lemma parse_digits_append:
  "parse_digits b acc (xs @ ys) = Option.bind (parse_digits b acc xs) (\<lambda>a. parse_digits b a ys)"
  by (induction xs arbitrary: acc) auto

lemma parse_digits_show: "n < b \<Longrightarrow> parse_digits b 0 (show_nat n) = Some n"
proof (induction n rule: show_nat.induct)
  case (1 n)
  show ?case
  proof (cases "n < 10")
    case True
    with 1 show ?thesis by (subst show_nat.simps) (simp add: digit_char_props)
  next
    case False
    have "n div 10 < b" using 1(2) by (meson div_le_dividend le_less_trans)
    with 1 False have "parse_digits b 0 (show_nat (n div 10)) = Some (n div 10)" by simp
    moreover have "n div 10 * 10 + n mod 10 = n" by simp
    ultimately show ?thesis using False 1(2)
      by (subst show_nat.simps) (simp add: parse_digits_append digit_char_props)
  qed
qed

lemma digit_not_plus: "list_all is_ascii_digit s \<Longrightarrow> strip_prefix ''+'' s = None"
  by (cases s) (auto simp: is_ascii_digit_def)

lemma parse_u64_show: "n < 2 ^ 64 \<Longrightarrow> parse_u64 (show_nat n) = Some n"
  using digit_not_plus [OF show_nat_digits, of n] parse_digits_show [of n "2 ^ 64"]
  by (simp add: parse_u64_def)

lemma split_ws_solid: "list_all (\<lambda>c. \<not> is_whitespace c) s \<Longrightarrow> w @ s \<noteq> [] \<Longrightarrow> split_ws w s = [w @ s]"
  by (induction s arbitrary: w) auto

lemma join_single_space_solid:
  "list_all (\<lambda>c. \<not> is_whitespace c) s \<Longrightarrow> s \<noteq> [] \<Longrightarrow> join_single_space s = Ok s"
  by (simp add: join_single_space_def split_whitespace_def split_ws_solid)

lemma digit_solid: "is_ascii_digit c \<Longrightarrow> \<not> is_whitespace c"
  by (auto simp: char_class_defs)

lemma alpha_solid: "is_ascii_alphabetic c \<Longrightarrow> \<not> is_whitespace c"
  by (auto simp: char_class_defs is_ascii_alphabetic_def)

text \<open>A printed token: a number followed by the letters of its unit.\<close>

lemma join_token:
  assumes "list_all is_ascii_alphabetic u"
  shows "join_single_space (show_nat n @ u) = Ok (show_nat n @ u)"
proof -
  have "list_all (\<lambda>c. \<not> is_whitespace c) (show_nat n @ u)"
    using assms show_nat_digits [of n] by (auto simp: list_all_iff digit_solid alpha_solid)
  then show ?thesis by (rule join_single_space_solid) simp
qed

lemma rev_show_nat:
  obtains d r where "rev (show_nat n) = d # r" "is_ascii_digit d"
proof -
  have "rev (show_nat n) \<noteq> []" by simp
  then obtain d r where r: "rev (show_nat n) = d # r" by (cases "rev (show_nat n)") auto
  then have "d \<in> set (show_nat n)" by (metis list.set_intros(1) set_rev)
  with show_nat_digits [of n] r that show thesis by (auto simp: list_all_iff)
qed

lemma strip_unit_duration:
  "strip_unit duration_units (show_nat n @ ''ms'') f = (show_nat n, 1)"
  "strip_unit duration_units (show_nat n @ ''s'') f = (show_nat n, 1000)"
  "strip_unit duration_units (show_nat n @ ''m'') f = (show_nat n, 60000)"
  "strip_unit duration_units (show_nat n @ ''h'') f = (show_nat n, 3600000)"
  by (rule rev_show_nat [of n];
      auto simp: duration_units_def strip_suffix_def is_ascii_digit_def rev_swap split: if_splits)+

lemma checked_scale_exact:
  "\<lbrakk>n * f = m; 0 < m; m < 2 ^ 64\<rbrakk> \<Longrightarrow> checked_scale s (Some n) f = Ok m"
  by (simp add: checked_scale_def)

lemma checked_scale_range: "checked_scale s n f = Ok m \<Longrightarrow> 0 < m \<and> m < 2 ^ 64"
  by (auto simp: checked_scale_def split: option.splits if_splits)

lemma scale_bound: "\<lbrakk>n * f = m; 0 < m\<rbrakk> \<Longrightarrow> n \<le> (m :: nat)"
  by (cases f) auto

lemma parse_duration_token:
  assumes "list_all is_ascii_alphabetic u" "strip_unit duration_units (show_nat n @ u) 1000 = (show_nat n, f)"
    and "n * f = m" "0 < m" "m < 2 ^ 64"
  shows "parse_duration (show_nat n @ u) = Ok m"
proof -
  have "n < 2 ^ 64" using scale_bound [OF assms(3,4)] assms(5) by (rule le_less_trans)
  then show ?thesis
    using assms by (simp add: parse_duration_def join_token parse_u64_show checked_scale_exact)
qed

lemma lowercase_digit: "is_ascii_digit c \<Longrightarrow> to_ascii_lowercase c = c"
  by (auto simp: to_ascii_lowercase_def char_class_defs)

lemma lowercase_show [simp]: "map to_ascii_lowercase (show_nat n) = show_nat n"
  using show_nat_digits [of n] by (simp add: list_all_iff lowercase_digit map_idI)

lemma separators_show [simp]: "strip_digit_separators (show_nat n) = show_nat n"
proof -
  have "\<forall>c \<in> set (show_nat n). c \<noteq> CHR ''_''"
    using show_nat_digits [of n] by (auto simp: list_all_iff is_ascii_digit_def)
  then have "filter (\<lambda>c. c \<noteq> CHR ''_'') (show_nat n) = show_nat n" by (simp add: filter_id_conv)
  then show ?thesis by (simp add: strip_digit_separators_def Let_def)
qed

lemma strip_unit_bytes:
  "strip_unit byte_units (show_nat n @ ''tib'') f = (show_nat n, 2 ^ 40)"
  "strip_unit byte_units (show_nat n @ ''tb'') f = (show_nat n, 1000000000000)"
  "strip_unit byte_units (show_nat n @ ''gib'') f = (show_nat n, 2 ^ 30)"
  "strip_unit byte_units (show_nat n @ ''gb'') f = (show_nat n, 1000000000)"
  "strip_unit byte_units (show_nat n @ ''mib'') f = (show_nat n, 2 ^ 20)"
  "strip_unit byte_units (show_nat n @ ''mb'') f = (show_nat n, 1000000)"
  "strip_unit byte_units (show_nat n @ ''kib'') f = (show_nat n, 2 ^ 10)"
  "strip_unit byte_units (show_nat n @ ''kb'') f = (show_nat n, 1000)"
  "strip_unit byte_units (show_nat n @ ''b'') f = (show_nat n, 1)"
  by (rule rev_show_nat [of n];
      auto simp: byte_units_def strip_suffix_def is_ascii_digit_def rev_swap split: if_splits)+

lemma parse_byte_token:
  assumes "list_all is_ascii_alphabetic u"
    and "strip_unit byte_units (show_nat n @ map to_ascii_lowercase u) 1 = (show_nat n, f)"
    and "n * f = m" "0 < m" "m < 2 ^ 64"
  shows "parse_byte_count (show_nat n @ u) = Ok m"
proof -
  have "n < 2 ^ 64" using scale_bound [OF assms(3,4)] assms(5) by (rule le_less_trans)
  then show ?thesis
    using assms digit_not_plus [OF show_nat_digits, of n]
    by (simp add: parse_byte_count_def join_token parse_u64_show checked_scale_exact Let_def)
qed

lemma duration_printed:
  assumes "0 < ms" "ms < 2 ^ 64"
  shows "parse_duration (format_duration ms) = Ok ms"
proof -
  have alpha: "list_all is_ascii_alphabetic ''h''" "list_all is_ascii_alphabetic ''m''"
    "list_all is_ascii_alphabetic ''s''" "list_all is_ascii_alphabetic ''ms''"
    by (simp_all add: is_ascii_alphabetic_def char_class_defs)
  note token = parse_duration_token [OF _ _ _ assms]
  consider "3600000 dvd ms" | "\<not> 3600000 dvd ms" "60000 dvd ms"
    | "\<not> 3600000 dvd ms" "\<not> 60000 dvd ms" "1000 dvd ms"
    | "\<not> 3600000 dvd ms" "\<not> 60000 dvd ms" "\<not> 1000 dvd ms" by blast
  then show ?thesis
  proof cases
    case 1
    then show ?thesis using token [OF alpha(1) strip_unit_duration(4)] by (simp add: format_duration_def)
  next
    case 2
    then show ?thesis using token [OF alpha(2) strip_unit_duration(3)] by (simp add: format_duration_def)
  next
    case 3
    then show ?thesis using token [OF alpha(3) strip_unit_duration(2)] by (simp add: format_duration_def)
  next
    case 4
    then show ?thesis using token [OF alpha(4) strip_unit_duration(1)] by (simp add: format_duration_def)
  qed
qed

definition printed_units :: "(string \<times> nat) list" where
  "printed_units =
     [(''TiB'', 2 ^ 40), (''TB'', 1000000000000), (''GiB'', 2 ^ 30), (''GB'', 1000000000),
      (''MiB'', 2 ^ 20), (''MB'', 1000000), (''KiB'', 2 ^ 10), (''KB'', 1000), (''B'', 1)]"

lemma format_byte_count_cases:
  obtains u f where "(u, f) \<in> set printed_units" "f dvd n" "format_byte_count n = show_nat (n div f) @ u"
proof -
  have "\<exists>x \<in> set printed_units. snd x dvd n \<and> format_byte_count n = show_nat (n div snd x) @ fst x"
    unfolding format_byte_count_def printed_units_def by (simp split: if_split)
  with that show thesis by auto
qed

lemma lowercase_units:
  "map to_ascii_lowercase ''TiB'' = ''tib''" "map to_ascii_lowercase ''TB'' = ''tb''"
  "map to_ascii_lowercase ''GiB'' = ''gib''" "map to_ascii_lowercase ''GB'' = ''gb''"
  "map to_ascii_lowercase ''MiB'' = ''mib''" "map to_ascii_lowercase ''MB'' = ''mb''"
  "map to_ascii_lowercase ''KiB'' = ''kib''" "map to_ascii_lowercase ''KB'' = ''kb''"
  "map to_ascii_lowercase ''B'' = ''b''"
  by code_simp+

lemma printed_units_ok:
  assumes "(u, f) \<in> set printed_units"
  shows "list_all is_ascii_alphabetic u"
    and "strip_unit byte_units (show_nat n @ map to_ascii_lowercase u) 1 = (show_nat n, f)"
proof -
  have "list_all (\<lambda>(u, f). list_all is_ascii_alphabetic u) printed_units"
    by (simp add: printed_units_def is_ascii_alphabetic_def char_class_defs)
  then have "\<forall>x \<in> set printed_units. case x of (u, f) \<Rightarrow> list_all is_ascii_alphabetic u"
    by (simp only: list_all_iff)
  from bspec [OF this assms] show "list_all is_ascii_alphabetic u" by (simp only: prod.case)
  have "list_all (\<lambda>(u, f). strip_unit byte_units (show_nat n @ map to_ascii_lowercase u) 1 = (show_nat n, f))
    printed_units"
    by (simp only: printed_units_def list.pred_inject prod.case lowercase_units strip_unit_bytes simp_thms)
  then have "\<forall>x \<in> set printed_units. case x of (u, f) \<Rightarrow>
      strip_unit byte_units (show_nat n @ map to_ascii_lowercase u) 1 = (show_nat n, f)"
    by (simp only: list_all_iff)
  from bspec [OF this assms]
  show "strip_unit byte_units (show_nat n @ map to_ascii_lowercase u) 1 = (show_nat n, f)"
    by (simp only: prod.case)
qed

section \<open>Properties\<close>

text \<open>C29. Durations survive printing: every positive duration the DSL can hold prints to a
  token that parses back to the same number of milliseconds.\<close>

theorem duration_roundtrip:
  assumes "0 < ms" "ms < 2 ^ 64"
  shows "parse_duration (format_duration ms) = Ok ms"
  using assms by (rule duration_printed)

theorem duration_roundtrip_witness: "parse_duration (format_duration 90000) = Ok 90000"
  by (rule duration_roundtrip) simp_all

text \<open>Byte counts survive printing: every positive 64-bit count prints with its largest
  exact unit to a token that parses back to the same count.\<close>

theorem byte_count_roundtrip:
  assumes "0 < n" "n < 2 ^ 64"
  shows "parse_byte_count (format_byte_count n) = Ok n"
proof -
  obtain u f where u: "(u, f) \<in> set printed_units" "f dvd n" "format_byte_count n = show_nat (n div f) @ u"
    by (rule format_byte_count_cases)
  have "n div f * f = n" using u(2) by simp
  from parse_byte_token [OF printed_units_ok [OF u(1)] this assms] show ?thesis by (simp add: u(3))
qed

theorem byte_count_roundtrip_witness: "parse_byte_count (format_byte_count 3072) = Ok 3072"
  by (rule byte_count_roundtrip) simp_all

text \<open>What the two parsers accept is a positive number below \<open>2 ^ 64\<close>: overflow of the
  multiplication by the unit and a zero are errors, never a wrapped or an empty value.\<close>

theorem quantities_positive_and_bounded:
  "(parse_duration s = Ok m \<longrightarrow> 0 < m \<and> m < 2 ^ 64) \<and> (parse_byte_count s = Ok m \<longrightarrow> 0 < m \<and> m < 2 ^ 64)"
proof (intro conjI impI)
  assume "parse_duration s = Ok m"
  then obtain t n f where "checked_scale t n f = Ok m"
    by (auto simp: parse_duration_def bind_result_Inr split_beta)
  then show "0 < m" "m < 2 ^ 64" using checked_scale_range by blast+
next
  assume "parse_byte_count s = Ok m"
  then obtain t n f where "checked_scale t n f = Ok m"
    by (auto simp: parse_byte_count_def bind_result_Inr split_beta Let_def)
  then show "0 < m" "m < 2 ^ 64" using checked_scale_range by blast+
qed

theorem quantities_positive_and_bounded_witness: "parse_duration ''5s'' = Ok 5000 \<and> (0 :: nat) < 5000"
proof -
  have "parse_duration ''5s'' = Ok 5000"
    by (simp add: parse_duration_def join_single_space_def split_whitespace_def
        char_class_defs duration_units_def strip_suffix_def parse_u64_def digit_value_def checked_scale_def)
  then show ?thesis using quantities_positive_and_bounded [of "''5s''" 5000] by simp
qed

end
