(* ===== verification/Values.thy ===== *)
theory Values
  imports Quantities
begin

text \<open>Values and type tags of the DSL: the value words of \<open>oxdock-parser/src/value.rs\<close> with
  their readers, and \<open>oxdock-parser/src/tag.rs\<close>: \<open>TypeTag\<close> with its names, the structural
  renderer and the boundary check \<open>check_value_at\<close>. A declarative typing relation specifies
  what the check decides.\<close>

section \<open>Value words\<close>

text \<open>One constructor per startup type, and \<open>VHost\<close> for words of host types (the descriptor's
  name and an identity). Floats are their 64-bit patterns. A map is the list of its
  entries in key order, keys once (\<open>BTreeMap\<close>). Pipes, semaphores and permits are named by
  the identity of the shared cell they point to, which is what their equality compares.\<close>

datatype dvalue =
    VInt "64 word"
  | VFloat "64 word"
  | VStr string
  | VBool bool
  | VList "dvalue list"
  | VMap "(string \<times> dvalue) list"
  | VPath string
  | VDuration nat
  | VPipe nat
  | VHandle "64 word"
  | VSemaphore nat
  | VPermit nat
  | VHost string nat

text \<open>Every map inside a value has each key once.\<close>

fun wf_value :: "dvalue \<Rightarrow> bool" where
  "wf_value (VList xs) = list_all wf_value xs"
| "wf_value (VMap m) = (distinct (map fst m) \<and> list_all (\<lambda>p. wf_value (snd p)) m)"
| "wf_value _ = True"

fun type_name :: "dvalue \<Rightarrow> string" where
  "type_name (VInt n) = ''INT''"
| "type_name (VFloat f) = ''FLOAT''"
| "type_name (VStr s) = ''STRING''"
| "type_name (VBool b) = ''BOOL''"
| "type_name (VList xs) = ''LIST''"
| "type_name (VMap m) = ''MAP''"
| "type_name (VPath p) = ''PATH''"
| "type_name (VDuration d) = ''DURATION''"
| "type_name (VPipe p) = ''PIPE''"
| "type_name (VHandle h) = ''HANDLE''"
| "type_name (VSemaphore s) = ''SEMAPHORE''"
| "type_name (VPermit p) = ''PERMIT''"
| "type_name (VHost n i) = n"

definition as_i64 :: "dvalue \<Rightarrow> 64 word option" where
  "as_i64 v = (case v of VInt n \<Rightarrow> Some n | _ \<Rightarrow> None)"

definition as_f64 :: "dvalue \<Rightarrow> 64 word option" where
  "as_f64 v = (case v of VFloat f \<Rightarrow> Some f | _ \<Rightarrow> None)"

definition as_bool :: "dvalue \<Rightarrow> bool option" where
  "as_bool v = (case v of VBool b \<Rightarrow> Some b | _ \<Rightarrow> None)"

definition as_str :: "dvalue \<Rightarrow> string option" where
  "as_str v = (case v of VStr s \<Rightarrow> Some s | _ \<Rightarrow> None)"

definition as_list :: "dvalue \<Rightarrow> dvalue list option" where
  "as_list v = (case v of VList xs \<Rightarrow> Some xs | _ \<Rightarrow> None)"

definition as_map :: "dvalue \<Rightarrow> (string \<times> dvalue) list option" where
  "as_map v = (case v of VMap m \<Rightarrow> Some m | _ \<Rightarrow> None)"

definition as_path :: "dvalue \<Rightarrow> string option" where
  "as_path v = (case v of VPath p \<Rightarrow> Some p | _ \<Rightarrow> None)"

definition as_duration :: "dvalue \<Rightarrow> nat option" where
  "as_duration v = (case v of VDuration d \<Rightarrow> Some d | _ \<Rightarrow> None)"

definition as_pipe_handle :: "dvalue \<Rightarrow> nat option" where
  "as_pipe_handle v = (case v of VPipe p \<Rightarrow> Some p | _ \<Rightarrow> None)"

definition as_handle :: "dvalue \<Rightarrow> 64 word option" where
  "as_handle v = (case v of VHandle h \<Rightarrow> Some h | _ \<Rightarrow> None)"

definition as_semaphore :: "dvalue \<Rightarrow> nat option" where
  "as_semaphore v = (case v of VSemaphore s \<Rightarrow> Some s | _ \<Rightarrow> None)"

definition as_permit :: "dvalue \<Rightarrow> nat option" where
  "as_permit v = (case v of VPermit p \<Rightarrow> Some p | _ \<Rightarrow> None)"

lemmas reader_defs = as_i64_def as_f64_def as_bool_def as_str_def as_list_def as_map_def
  as_path_def as_duration_def as_pipe_handle_def as_handle_def as_semaphore_def as_permit_def

section \<open>Type tags\<close>

text \<open>Host descriptors are statics compared by address, so \<open>TCustom\<close> carries the address and
  the name; the field table of a record is shared and compared by address too. The docs
  text of a field is not part of the model.\<close>

datatype type_tag =
    TString | TInt | TFloat | TBool | TList | TMap | TPipe | THandle | TDuration | TPath
  | TSemaphore | TPermit | TAny
  | TCustom nat string
  | TListOf type_tag
  | TRecord nat "field list"
  | TMapOf type_tag
  | TUnion string "type_tag list"
and field = Field (field_name: string) (field_ty: type_tag) (field_optional: bool)

fun tag_name :: "type_tag \<Rightarrow> string" where
  "tag_name TString = ''STRING''"
| "tag_name TInt = ''INT''"
| "tag_name TFloat = ''FLOAT''"
| "tag_name TBool = ''BOOL''"
| "tag_name TList = ''LIST''"
| "tag_name TMap = ''MAP''"
| "tag_name TPipe = ''PIPE''"
| "tag_name THandle = ''HANDLE''"
| "tag_name TDuration = ''DURATION''"
| "tag_name TPath = ''PATH''"
| "tag_name TSemaphore = ''SEMAPHORE''"
| "tag_name TPermit = ''PERMIT''"
| "tag_name TAny = ''ANY''"
| "tag_name (TUnion spelling ms) = spelling"
| "tag_name (TCustom d n) = n"
| "tag_name (TListOf t) = ''LIST''"
| "tag_name (TMapOf t) = ''MAP''"
| "tag_name (TRecord r fs) = ''MAP''"

definition bare_tags :: "type_tag list" where
  "bare_tags = [TString, TInt, TFloat, TBool, TList, TMap, TPipe, THandle, TDuration, TPath,
     TSemaphore, TPermit, TAny]"

definition builtin :: "string \<Rightarrow> type_tag option" where
  "builtin n =
     (if n = ''STRING'' then Some TString
      else if n = ''INT'' then Some TInt
      else if n = ''FLOAT'' then Some TFloat
      else if n = ''BOOL'' then Some TBool
      else if n = ''LIST'' then Some TList
      else if n = ''MAP'' then Some TMap
      else if n = ''PIPE'' then Some TPipe
      else if n = ''HANDLE'' then Some THandle
      else if n = ''DURATION'' then Some TDuration
      else if n = ''PATH'' then Some TPath
      else if n = ''SEMAPHORE'' then Some TSemaphore
      else if n = ''PERMIT'' then Some TPermit
      else if n = ''ANY'' then Some TAny
      else None)"

fun tag_fields :: "type_tag \<Rightarrow> field list option" where
  "tag_fields (TRecord r fs) = Some fs"
| "tag_fields _ = None"

lemma field_ty_size [termination_simp]: "size (field_ty f) < size f"
  by (cases f) simp

lemma field_ty_size_list [termination_simp]:
  "f \<in> set fs \<Longrightarrow> size (field_ty f) < Suc (size_list size fs)"
  by (metis field_ty_size less_SucI less_trans size_list_estimation)

fun render_structural :: "type_tag \<Rightarrow> string" where
  "render_structural (TListOf t) = ''LIST<'' @ render_structural t @ ''>''"
| "render_structural (TMapOf t) = ''MAP<'' @ render_structural t @ ''>''"
| "render_structural (TRecord r fs) =
     ''MAP<'' @ join_with '', '' (map (\<lambda>f. field_name f @ (if field_optional f then ''?'' else []) @ '': '' @
        render_structural (field_ty f)) fs) @ ''>''"
| "render_structural t = tag_name t"

definition union_tag :: "type_tag list \<Rightarrow> type_tag" where
  "union_tag ms = TUnion (join_with ''|'' (map render_structural ms)) ms"

section \<open>The boundary check\<close>

datatype tag_error =
    Expected string string string
  | MissingField string string string
  | UnknownField string string string

definition field_list :: "field list \<Rightarrow> string" where
  "field_list fs = join_with '', '' (map field_name fs)"

text \<open>The shape a word carries for a scalar tag.\<close>

fun scalar_ok :: "type_tag \<Rightarrow> dvalue \<Rightarrow> bool" where
  "scalar_ok TString v = (as_str v \<noteq> None)"
| "scalar_ok TInt v = (as_i64 v \<noteq> None)"
| "scalar_ok TFloat v = (as_f64 v \<noteq> None)"
| "scalar_ok TBool v = (as_bool v \<noteq> None)"
| "scalar_ok TPipe v = (as_pipe_handle v \<noteq> None)"
| "scalar_ok THandle v = (as_handle v \<noteq> None)"
| "scalar_ok TDuration v = (as_duration v \<noteq> None)"
| "scalar_ok TPath v = (as_path v \<noteq> None)"
| "scalar_ok TSemaphore v = (as_semaphore v \<noteq> None)"
| "scalar_ok TPermit v = (as_permit v \<noteq> None)"
| "scalar_ok _ v = False"

fun check_value_at :: "type_tag \<Rightarrow> dvalue \<Rightarrow> string \<Rightarrow> tag_error + unit" where
  "check_value_at TAny v path = Ok ()"
| "check_value_at TList v path =
     (case as_list v of Some _ \<Rightarrow> Ok () | None \<Rightarrow> Err (Expected path ''LIST'' (type_name v)))"
| "check_value_at TMap v path =
     (case as_map v of Some _ \<Rightarrow> Ok () | None \<Rightarrow> Err (Expected path ''MAP'' (type_name v)))"
| "check_value_at (TListOf element) v path =
     (case as_list v of
        Some items \<Rightarrow>
          try_each (\<lambda>(idx, item). check_value_at element item (path @ ''['' @ show_nat idx @ '']''))
            (enumerate 0 items)
      | None \<Rightarrow> Err (Expected path ''LIST'' (type_name v)))"
| "check_value_at (TMapOf values) v path =
     (case as_map v of
        Some m \<Rightarrow> try_each (\<lambda>(key, item). check_value_at values item (path @ ''.'' @ key)) m
      | None \<Rightarrow> Err (Expected path (render_structural (TMapOf values)) (type_name v)))"
| "check_value_at (TRecord r fields) v path =
     (case as_map v of
        Some m \<Rightarrow>
          bind_result
            (try_each (\<lambda>f. case map_of m (field_name f) of
                 Some item \<Rightarrow> check_value_at (field_ty f) item (path @ ''.'' @ field_name f)
               | None \<Rightarrow> if field_optional f then Ok ()
                         else Err (MissingField path (field_name f) (field_list fields))) fields)
            (\<lambda>_. try_each (\<lambda>(key, item).
                 if list_ex (\<lambda>f. field_name f = key) fields then Ok ()
                 else Err (UnknownField path key (field_list fields))) m)
      | None \<Rightarrow> Err (Expected path ''MAP'' (type_name v)))"
| "check_value_at (TCustom d n) v path =
     (if type_name v = n then Ok () else Err (Expected path n (type_name v)))"
| "check_value_at (TUnion spelling members) v path =
     (if list_ex (\<lambda>member. is_ok (check_value_at member v ''$'')) members then Ok ()
      else Err (Expected path (render_structural (TUnion spelling members)) (type_name v)))"
| "check_value_at t v path =
     (if scalar_ok t v then Ok () else Err (Expected path (tag_name t) (type_name v)))"

definition check_value :: "type_tag \<Rightarrow> dvalue \<Rightarrow> tag_error + unit" where
  "check_value t v = check_value_at t v ''$''"

section \<open>What the check decides\<close>

text \<open>The typing relation the tags are documented to mean, constructor by constructor: a scalar
  tag admits the values of its own constructor, records are closed (no missing required key, no
  unknown key), unions admit what some member admits. A host type is known by its name: it admits
  the host values of this name, and the built-in values when the name is a built-in one.\<close>

inductive has_type :: "type_tag \<Rightarrow> dvalue \<Rightarrow> bool" where
  AnyI: "has_type TAny v"
| StringI: "has_type TString (VStr s)"
| IntI: "has_type TInt (VInt n)"
| FloatI: "has_type TFloat (VFloat f)"
| BoolI: "has_type TBool (VBool b)"
| PipeI: "has_type TPipe (VPipe p)"
| HandleI: "has_type THandle (VHandle h)"
| DurationI: "has_type TDuration (VDuration d)"
| PathI: "has_type TPath (VPath p)"
| SemaphoreI: "has_type TSemaphore (VSemaphore i)"
| PermitI: "has_type TPermit (VPermit i)"
| ListI: "has_type TList (VList xs)"
| MapI: "has_type TMap (VMap m)"
| ListOfI: "(\<And>x. x \<in> set xs \<Longrightarrow> has_type t x) \<Longrightarrow> has_type (TListOf t) (VList xs)"
| MapOfI: "(\<And>k x. (k, x) \<in> set m \<Longrightarrow> has_type t x) \<Longrightarrow> has_type (TMapOf t) (VMap m)"
| RecordI: "\<lbrakk>\<And>f x. \<lbrakk>f \<in> set fs; map_of m (field_name f) = Some x\<rbrakk> \<Longrightarrow> has_type (field_ty f) x;
     \<And>f. \<lbrakk>f \<in> set fs; map_of m (field_name f) = None\<rbrakk> \<Longrightarrow> field_optional f;
     fst ` set m \<subseteq> field_name ` set fs\<rbrakk> \<Longrightarrow> has_type (TRecord r fs) (VMap m)"
| HostI: "has_type (TCustom a n) (VHost n i)"
| CustomStringI: "has_type (TCustom a ''STRING'') (VStr s)"
| CustomIntI: "has_type (TCustom a ''INT'') (VInt n)"
| CustomFloatI: "has_type (TCustom a ''FLOAT'') (VFloat f)"
| CustomBoolI: "has_type (TCustom a ''BOOL'') (VBool b)"
| CustomPipeI: "has_type (TCustom a ''PIPE'') (VPipe p)"
| CustomHandleI: "has_type (TCustom a ''HANDLE'') (VHandle h)"
| CustomDurationI: "has_type (TCustom a ''DURATION'') (VDuration d)"
| CustomPathI: "has_type (TCustom a ''PATH'') (VPath p)"
| CustomSemaphoreI: "has_type (TCustom a ''SEMAPHORE'') (VSemaphore i)"
| CustomPermitI: "has_type (TCustom a ''PERMIT'') (VPermit i)"
| CustomListI: "has_type (TCustom a ''LIST'') (VList xs)"
| CustomMapI: "has_type (TCustom a ''MAP'') (VMap m)"
| UnionI: "\<lbrakk>t \<in> set ts; has_type t v\<rbrakk> \<Longrightarrow> has_type (TUnion sp ts) v"

inductive_cases has_type_ListOfE: "has_type (TListOf t) v"
inductive_cases has_type_MapOfE: "has_type (TMapOf t) v"
inductive_cases has_type_RecordE: "has_type (TRecord r fs) v"
inductive_cases has_type_CustomE: "has_type (TCustom d n) v"
inductive_cases has_type_UnionE: "has_type (TUnion sp ts) v"
inductive_cases has_type_ListE: "has_type TList v"
inductive_cases has_type_MapE: "has_type TMap v"

lemma is_ok_case_None:
  "is_ok (case x of None \<Rightarrow> Err e | Some y \<Rightarrow> g y) \<longleftrightarrow> (\<exists>y. x = Some y \<and> is_ok (g y))"
  by (cases x) auto

lemma is_ok_bind [simp]: "is_ok (bind_result r f) \<longleftrightarrow> (\<exists>a. r = Ok a \<and> is_ok (f a))"
  by (cases r) auto

lemma enumerate_snd_all: "(\<forall>p \<in> set (enumerate n xs). P (snd p)) \<longleftrightarrow> (\<forall>x \<in> set xs. P x)"
  by (induction xs arbitrary: n) auto

lemma has_type_ListOf_iff: "has_type (TListOf t) v \<longleftrightarrow> (\<exists>xs. v = VList xs \<and> (\<forall>x \<in> set xs. has_type t x))"
  by (auto intro: has_type.ListOfI elim: has_type_ListOfE)

lemma has_type_MapOf_iff: "has_type (TMapOf t) v \<longleftrightarrow> (\<exists>m. v = VMap m \<and> (\<forall>p \<in> set m. has_type t (snd p)))"
  by (fastforce intro: has_type.MapOfI elim: has_type_MapOfE)

definition field_ok :: "(type_tag \<Rightarrow> dvalue \<Rightarrow> bool) \<Rightarrow> (string \<times> dvalue) list \<Rightarrow> field \<Rightarrow> bool" where
  "field_ok P m f \<longleftrightarrow>
     (case map_of m (field_name f) of Some x \<Rightarrow> P (field_ty f) x | None \<Rightarrow> field_optional f)"

lemma has_type_Record_iff:
  "has_type (TRecord r fs) v \<longleftrightarrow>
     (\<exists>m. v = VMap m \<and> (\<forall>f \<in> set fs. field_ok has_type m f) \<and> fst ` set m \<subseteq> field_name ` set fs)"
proof
  assume "has_type (TRecord r fs) v"
  then show "\<exists>m. v = VMap m \<and> (\<forall>f \<in> set fs. field_ok has_type m f) \<and> fst ` set m \<subseteq> field_name ` set fs"
    by (rule has_type_RecordE) (auto simp: field_ok_def split: option.splits)
next
  assume "\<exists>m. v = VMap m \<and> (\<forall>f \<in> set fs. field_ok has_type m f) \<and> fst ` set m \<subseteq> field_name ` set fs"
  then show "has_type (TRecord r fs) v"
    by (auto simp: field_ok_def split: option.splits intro!: has_type.RecordI)
qed

lemma has_type_Union_iff: "has_type (TUnion sp ts) v \<longleftrightarrow> (\<exists>t \<in> set ts. has_type t v)"
  by (auto intro: has_type.UnionI elim: has_type_UnionE)

lemma has_type_Custom_iff: "has_type (TCustom d n) v \<longleftrightarrow> type_name v = n"
  by (cases v) (auto intro: has_type.intros elim!: has_type_CustomE)

lemma has_type_bare_iff:
  "has_type TList v \<longleftrightarrow> (\<exists>xs. v = VList xs)" "has_type TMap v \<longleftrightarrow> (\<exists>m. v = VMap m)" "has_type TAny v"
  by (auto intro: has_type.ListI has_type.MapI has_type.AnyI elim: has_type_ListE has_type_MapE)

inductive_simps has_type_scalar_iff:
  "has_type TString v" "has_type TInt v" "has_type TFloat v" "has_type TBool v" "has_type TPipe v"
  "has_type THandle v" "has_type TDuration v" "has_type TPath v" "has_type TSemaphore v" "has_type TPermit v"

lemmas has_type_iff = has_type_ListOf_iff has_type_MapOf_iff has_type_Record_iff has_type_Union_iff
  has_type_Custom_iff has_type_bare_iff has_type_scalar_iff

lemma is_ok_if: "is_ok (if b then Ok () else Err e) \<longleftrightarrow> b"
  by simp

lemma check_record_ok:
  assumes "\<And>f x. \<lbrakk>f \<in> set fs; map_of m (field_name f) = Some x\<rbrakk> \<Longrightarrow>
      is_ok (check_value_at (field_ty f) x (path @ ''.'' @ field_name f)) \<longleftrightarrow> has_type (field_ty f) x"
  shows "is_ok (check_value_at (TRecord r fs) (VMap m) path) \<longleftrightarrow> has_type (TRecord r fs) (VMap m)"
proof -
  have a: "(\<forall>f \<in> set fs. is_ok (case map_of m (field_name f) of
       Some item \<Rightarrow> check_value_at (field_ty f) item (path @ ''.'' @ field_name f)
     | None \<Rightarrow> if field_optional f then Ok () else Err (MissingField path (field_name f) (field_list fs))))
     \<longleftrightarrow> (\<forall>f \<in> set fs. field_ok has_type m f)"
    using assms by (auto simp: field_ok_def split: option.splits)
  have b: "(\<forall>p \<in> set m. is_ok (case p of (key, item) \<Rightarrow>
       if list_ex (\<lambda>f. field_name f = key) fs then Ok ()
       else Err (UnknownField path key (field_list fs)))) \<longleftrightarrow> fst ` set m \<subseteq> field_name ` set fs"
    by (simp add: split_beta is_ok_if list_ex_iff subset_iff image_iff) metis
  show ?thesis
    by (simp add: as_map_def try_each_Inr try_each_ok a b has_type_Record_iff)
qed

lemma check_value_at_ok: "is_ok (check_value_at t v path) \<longleftrightarrow> has_type t v"
proof (induction t v path rule: check_value_at.induct)
  case (4 element v path)
  then show ?case
    by (cases v) (auto simp: as_list_def has_type_iff try_each_ok split_beta enumerate_snd_all
        [of _ _ "\<lambda>x. has_type element x"])
next
  case (5 t v path)
  then show ?case
    by (cases v) (auto simp: as_map_def has_type_iff try_each_ok split_beta)
next
  case (6 r fs v path)
  show ?case
  proof (cases v)
    case (VMap m)
    show ?thesis unfolding VMap by (rule check_record_ok) (use 6 VMap in \<open>auto simp: as_map_def\<close>)
  qed (simp_all add: as_map_def has_type_iff)
next
  case (8 sp ts v path)
  then show ?case by (auto simp: has_type_iff list_ex_iff)
qed (auto simp: has_type_iff reader_defs split: dvalue.splits)

lemma check_value_ok: "is_ok (check_value t v) \<longleftrightarrow> has_type t v"
  by (simp add: check_value_def check_value_at_ok)

section \<open>Properties\<close>

text \<open>C30. The boundary check decides the typing relation: whatever path it reports under,
  \<open>check_value_at\<close> accepts a value exactly when the value has the shape the tag names,
  through nested lists, maps, closed records and unions; the relation is given by the constructors
  of values, not by the readers the check uses.\<close>

theorem check_value_decides_typing:
  "is_ok (check_value_at t v path) \<longleftrightarrow> has_type t v"
  by (rule check_value_at_ok)

text \<open>A rejected list names its first offender: the error is the one the element check
  reports at the path extended by the index of the first element that does not
  conform, and every element before it conforms.\<close>

theorem check_list_names_first_offender:
  assumes "check_value_at (TListOf t) (VList xs) path = Err e"
  shows "\<exists>i < length xs. check_value_at t (xs ! i) (path @ ''['' @ show_nat i @ '']'') = Err e \<and>
    \<not> has_type t (xs ! i) \<and> (\<forall>j < i. has_type t (xs ! j))"
proof -
  have "\<exists>i < length xs. check_value_at t (xs ! i) (path @ ''['' @ show_nat i @ '']'') = Err e \<and>
      (\<forall>j < i. is_ok (check_value_at t (xs ! j) (path @ ''['' @ show_nat j @ '']'')))"
  proof -
    from assms obtain i where i: "i < length xs"
      "(\<lambda>(idx, item). check_value_at t item (path @ ''['' @ show_nat idx @ '']'')) (enumerate 0 xs ! i) = Err e"
      "\<forall>j < i. is_ok ((\<lambda>(idx, item). check_value_at t item (path @ ''['' @ show_nat idx @ '']''))
        (enumerate 0 xs ! j))"
      by (auto simp: as_list_def try_each_Inl)
    then show ?thesis by (intro exI [of _ i]) (simp add: nth_enumerate_eq)
  qed
  then show ?thesis by (metis check_value_at_ok is_ok.simps(1))
qed

theorem check_list_names_first_offender_witness:
  "\<exists>i < length [VInt 1, VStr ''x'', VBool True]. \<not> has_type TInt ([VInt 1, VStr ''x'', VBool True] ! i) \<and>
     (\<forall>j < i. has_type TInt ([VInt 1, VStr ''x'', VBool True] ! j))"
proof -
  have one: "show_nat (Suc 0) = ''1''" by code_simp
  have "check_value_at (TListOf TInt) (VList [VInt 1, VStr ''x'', VBool True]) ''$''
      = Err (Expected ''$[1]'' ''INT'' ''STRING'')"
    by (simp add: reader_defs one)
  from check_list_names_first_offender [OF this] show ?thesis by blast
qed

text \<open>Labels and builtin tags name each other: \<open>builtin\<close> answers exactly for the names of
  the thirteen bare tags, and answers with the tag that has that name.\<close>

theorem builtin_names_roundtrip:
  "builtin n = Some t \<longleftrightarrow> t \<in> set bare_tags \<and> tag_name t = n"
proof -
  have "builtin n = map_of (map (\<lambda>t. (tag_name t, t)) bare_tags) n"
    by (simp add: builtin_def bare_tags_def)
  moreover have "distinct (map fst (map (\<lambda>t. (tag_name t, t)) bare_tags))"
    by (simp add: bare_tags_def)
  ultimately show ?thesis by (auto simp: map_of_eq_Some_iff)
qed

end
