(* ===== verification/Coercion.thy ===== *)
theory Coercion
  imports Values
begin

text \<open>Runtime coercion at declared positions (\<open>oxdock-core/src/exec/args.rs\<close>):
  \<open>parse_bool_str\<close>, \<open>coerce_value\<close>, \<open>coerce_scalar\<close> and \<open>check_host_return_value\<close>. Float
  operations are a parameter; the conversion of an integer and the decimal text of
  a float are the only two this part calls.\<close>

section \<open>Operations\<close>

text \<open>Arithmetic, conversion and decimal text of 64-bit floats, and the display of words of host
  types, belong to the Rust library and to the host: they are parameters.\<close>

record float_ops =
  f64_of_i64 :: "64 word \<Rightarrow> 64 word"
  f64_of_u64 :: "64 word \<Rightarrow> 64 word"
  f64_to_string :: "64 word \<Rightarrow> string"
  f64_of_str :: "string \<Rightarrow> 64 word option"
  f64_add :: "64 word \<Rightarrow> 64 word \<Rightarrow> 64 word"
  f64_sub :: "64 word \<Rightarrow> 64 word \<Rightarrow> 64 word"
  f64_mul :: "64 word \<Rightarrow> 64 word \<Rightarrow> 64 word"
  f64_div :: "64 word \<Rightarrow> 64 word \<Rightarrow> 64 word"
  host_display :: "string \<Rightarrow> nat \<Rightarrow> string"

text \<open>\<open>i64\<close>'s \<open>Display\<close>.\<close>

definition show_i64 :: "64 word \<Rightarrow> string" where
  "show_i64 n = (if sint n < 0 then ''-'' @ show_nat (nat (- sint n)) else show_nat (nat (sint n)))"

definition show_bool :: "bool \<Rightarrow> string" where
  "show_bool b = (if b then ''true'' else ''false'')"

definition parse_bool_str :: "string \<Rightarrow> bool option" where
  "parse_bool_str s =
     (let t = trim s in
      if t = [] then None
      else if eq_ignore_ascii_case t ''true'' \<or> eq_ignore_ascii_case t ''yes'' \<or>
        eq_ignore_ascii_case t ''on'' \<or> t = ''1'' then Some True
      else if eq_ignore_ascii_case t ''false'' \<or> eq_ignore_ascii_case t ''no'' \<or>
        eq_ignore_ascii_case t ''off'' \<or> t = ''0'' then Some False
      else None)"

datatype coerce_error =
    Shape tag_error
  | TypeMismatch string string
  | StringToPipe string
  | PipeToString

definition type_mismatch :: "type_tag \<Rightarrow> dvalue \<Rightarrow> coerce_error" where
  "type_mismatch expected v = TypeMismatch (render_structural expected) (type_name v)"

definition check_host_return_value :: "string \<Rightarrow> type_tag option \<Rightarrow> dvalue \<Rightarrow> tag_error + unit" where
  "check_host_return_value ctx returns v =
     (case returns of None \<Rightarrow> Ok () | Some slot \<Rightarrow> check_value_at slot v ctx)"

definition coerce_scalar :: "float_ops \<Rightarrow> dvalue \<Rightarrow> type_tag \<Rightarrow> coerce_error + dvalue" where
  "coerce_scalar F v expected =
     (case v of
        VInt n \<Rightarrow>
          if expected = TString then Ok (VStr (show_i64 n))
          else if expected = TFloat then Ok (VFloat (f64_of_i64 F n))
          else if expected = TBool then
            (if n = 1 then Ok (VBool True) else if n = 0 then Ok (VBool False)
             else Err (type_mismatch expected v))
          else Err (type_mismatch expected v)
      | VFloat f \<Rightarrow>
          if expected = TString then Ok (VStr (f64_to_string F f)) else Err (type_mismatch expected v)
      | VBool b \<Rightarrow>
          if expected = TString then Ok (VStr (show_bool b)) else Err (type_mismatch expected v)
      | VDuration d \<Rightarrow>
          if expected = TString then Ok (VStr (format_duration d)) else Err (type_mismatch expected v)
      | VPath p \<Rightarrow>
          if expected = TString then Ok (VStr p) else Err (type_mismatch expected v)
      | VPipe p \<Rightarrow>
          if expected = TString then Err PipeToString else Err (type_mismatch expected v)
      | _ \<Rightarrow> Err (type_mismatch expected v))"

definition coerce_string :: "string \<Rightarrow> type_tag \<Rightarrow> coerce_error + dvalue" where
  "coerce_string s expected =
     (case expected of
        TBool \<Rightarrow> (case parse_bool_str s of Some b \<Rightarrow> Ok (VBool b)
                   | None \<Rightarrow> Err (type_mismatch expected (VStr s)))
      | TPipe \<Rightarrow> Err (StringToPipe s)
      | TDuration \<Rightarrow> (case parse_duration (trim s) of Ok d \<Rightarrow> Ok (VDuration d)
                   | Err _ \<Rightarrow> Err (type_mismatch expected (VStr s)))
      | TPath \<Rightarrow> Ok (VPath (trim s))
      | _ \<Rightarrow> Err (type_mismatch expected (VStr s)))"

fun is_fixed_shape :: "type_tag \<Rightarrow> bool" where
  "is_fixed_shape (TListOf t) = True"
| "is_fixed_shape (TRecord r fs) = True"
| "is_fixed_shape _ = False"

text \<open>The last stage: strings by their own table, every other word through \<open>coerce_scalar\<close>.\<close>

definition coerce_rest :: "float_ops \<Rightarrow> dvalue \<Rightarrow> type_tag \<Rightarrow> coerce_error + dvalue" where
  "coerce_rest F v expected =
     (case as_str v of Some s \<Rightarrow> coerce_string s expected | None \<Rightarrow> coerce_scalar F v expected)"

fun coerce_value :: "float_ops \<Rightarrow> dvalue \<Rightarrow> type_tag \<Rightarrow> coerce_error + dvalue" where
  "coerce_value F v (TUnion sp members) =
     (case check_value (TUnion sp members) v of
        Ok _ \<Rightarrow> Ok v
      | Err _ \<Rightarrow>
          (case find_map (\<lambda>member. case coerce_value F v member of Ok c \<Rightarrow> Some c | Err _ \<Rightarrow> None) members of
             Some c \<Rightarrow> Ok c
           | None \<Rightarrow> coerce_rest F v (TUnion sp members)))"
| "coerce_value F v expected =
     (if expected = TAny then Ok v
      else case check_value expected v of
        Ok _ \<Rightarrow> Ok v
      | Err err \<Rightarrow> if is_fixed_shape expected then Err (Shape err) else coerce_rest F v expected)"

section \<open>Facts\<close>

lemma is_ok_cases: "is_ok r \<Longrightarrow> (\<And>a. r = Ok a \<Longrightarrow> P) \<Longrightarrow> P"
  by (cases r) auto

lemma coerce_conforming:
  assumes "has_type t v"
  shows "coerce_value F v t = Ok v"
proof -
  have "is_ok (check_value t v)" using assms by (simp add: check_value_ok)
  then obtain u where "check_value t v = Ok u" by (rule is_ok_cases)
  then show ?thesis by (cases t) simp_all
qed

lemma check_value_OkD: "check_value t v = Ok u \<Longrightarrow> has_type t v"
  by (metis check_value_ok is_ok.simps(2))

lemma coerce_scalar_typed:
  assumes "coerce_scalar F v t = Ok v'"
  shows "has_type t v'"
  using assms
  by (cases v) (auto simp: coerce_scalar_def has_type_iff reader_defs split: if_splits)

lemma coerce_string_typed:
  assumes "coerce_string s t = Ok v'"
  shows "has_type t v'"
  using assms
  by (cases t) (auto simp: coerce_string_def has_type_iff reader_defs split: option.splits sum.splits)

lemma coerce_rest_typed: "coerce_rest F v t = Ok v' \<Longrightarrow> has_type t v'"
  by (auto simp: coerce_rest_def coerce_scalar_typed coerce_string_typed split: option.splits)

lemma find_map_Some: "find_map f xs = Some y \<Longrightarrow> \<exists>x \<in> set xs. f x = Some y"
  by (induction xs) (auto split: option.splits)

lemma ok_option_Some: "(case r of Ok c \<Rightarrow> Some c | Err _ \<Rightarrow> None) = Some y \<longleftrightarrow> r = Ok y"
  by (cases r) auto

lemma coerce_typed: "coerce_value F v t = Ok v' \<Longrightarrow> has_type t v'"
proof (induction F v t rule: coerce_value.induct)
  case (1 F v sp ms)
  show ?case
  proof (cases "check_value (TUnion sp ms) v")
    case (Inr u)
    with 1 check_value_ok [of "TUnion sp ms" v] show ?thesis by simp
  next
    case (Inl e)
    show ?thesis
    proof (cases "find_map (\<lambda>member. case coerce_value F v member of Ok c \<Rightarrow> Some c | Err _ \<Rightarrow> None) ms")
      case None
      with 1 Inl show ?thesis by (simp add: coerce_rest_typed)
    next
      case (Some c)
      then obtain m where m: "m \<in> set ms" "coerce_value F v m = Ok c"
        using find_map_Some [OF Some] by (auto simp: ok_option_Some)
      with 1 Inl Some have "has_type m v'" by auto
      with m(1) show ?thesis by (auto intro: has_type.UnionI)
    qed
  qed
qed (auto simp: coerce_rest_typed has_type_bare_iff(3) dest: check_value_OkD
      split: sum.splits if_splits)

lemma dropWhile_none: "\<forall>x \<in> set xs. \<not> P x \<Longrightarrow> dropWhile P xs = xs"
  by (cases xs) auto

lemma trim_solid: "list_all (\<lambda>c. \<not> is_whitespace c) s \<Longrightarrow> trim s = s"
  by (simp add: trim_def trim_start_by_def trim_end_by_def dropWhile_none list_all_iff)

lemma format_duration_solid: "list_all (\<lambda>c. \<not> is_whitespace c) (format_duration d)"
  using show_nat_digits
  by (auto simp: format_duration_def list_all_iff digit_solid) (simp_all add: char_class_defs)

lemma parse_bool_show: "parse_bool_str (show_bool b) = Some b"
proof -
  have "parse_bool_str ''true'' = Some True" "parse_bool_str ''false'' = Some False" by code_simp+
  then show ?thesis by (simp add: show_bool_def)
qed

section \<open>Properties\<close>

text \<open>C31. Coercion is type safe: a value that comes out of \<open>coerce_value\<close> has the declared
  type, for every tag, union and shape, and coercing it again changes nothing. A value
  that already has the type passes through untouched.\<close>

theorem coercion_type_safe:
  "(coerce_value F v t = Ok v' \<longrightarrow> has_type t v' \<and> coerce_value F v' t = Ok v') \<and>
   (has_type t v \<longrightarrow> coerce_value F v t = Ok v)"
  using coerce_typed coerce_conforming by blast

theorem coercion_type_safe_witness:
  "\<forall>F. coerce_value F (VStr '' Yes'') (union_tag [TInt, TBool]) = Ok (VBool True) \<and>
     has_type (union_tag [TInt, TBool]) (VBool True)"
proof
  fix F
  have "parse_bool_str '' Yes'' = Some True" by code_simp
  then have *: "coerce_value F (VStr '' Yes'') (union_tag [TInt, TBool]) = Ok (VBool True)"
    by (simp add: union_tag_def check_value_def reader_defs coerce_rest_def coerce_string_def)
  with coercion_type_safe [of F "VStr '' Yes''" "union_tag [TInt, TBool]" "VBool True"]
  show "coerce_value F (VStr '' Yes'') (union_tag [TInt, TBool]) = Ok (VBool True) \<and>
     has_type (union_tag [TInt, TBool]) (VBool True)" by blast
qed

text \<open>Numbers are never guessed: no string coerces into an \<open>INT\<close> or \<open>FLOAT\<close> position and no
  float narrows into an \<open>INT\<close> position, whatever its text or value.\<close>

theorem no_implicit_number_parsing:
  "\<not> is_ok (coerce_value F (VStr s) TInt) \<and> \<not> is_ok (coerce_value F (VStr s) TFloat) \<and>
   \<not> is_ok (coerce_value F (VFloat f) TInt)"
  by (simp add: check_value_def reader_defs coerce_rest_def coerce_string_def coerce_scalar_def)

text \<open>Text survives: a boolean or a duration coerced into a \<open>STRING\<close> position coerces back
  to the same word at its own type.\<close>

theorem coercion_text_roundtrip:
  assumes "(\<exists>b. v = VBool b \<and> t = TBool) \<or> (\<exists>d. v = VDuration d \<and> t = TDuration \<and> 0 < d \<and> d < 2 ^ 64)"
  shows "\<exists>s. coerce_value F v TString = Ok (VStr s) \<and> coerce_value F (VStr s) t = Ok v"
  using assms
proof (elim disjE exE conjE)
  fix b assume "v = VBool b" "t = TBool"
  then show ?thesis
    by (simp add: check_value_def reader_defs coerce_rest_def coerce_scalar_def coerce_string_def parse_bool_show)
next
  fix d assume "v = VDuration d" "t = TDuration" "0 < d" "d < 2 ^ 64"
  then show ?thesis
    by (simp add: check_value_def reader_defs coerce_rest_def coerce_scalar_def coerce_string_def
        trim_solid [OF format_duration_solid] duration_printed)
qed

theorem coercion_text_roundtrip_witness:
  "\<forall>F. \<exists>s. coerce_value F (VDuration 1500) TString = Ok (VStr s) \<and>
     coerce_value F (VStr s) TDuration = Ok (VDuration 1500)"
  using coercion_text_roundtrip [of "VDuration 1500" TDuration] by simp

end
