(* ===== verification/Static_Tags.thy ===== *)
theory Static_Tags
  imports Coercion
begin

text \<open>The tag algebra of the static type pass (\<open>oxdock-core/src/exec/static_check.rs\<close>): tag
  equality, the table of coercible pairs, the argument check \<open>check_arg\<close>, exact shape
  compatibility \<open>check_exact\<close>, unification of branch results and the operator rules. They
  are related to the runtime: to the typing relation of values and to \<open>coerce_value\<close>.
  The context prefix of the error messages is not modelled.\<close>

section \<open>Operations\<close>

fun tags_equal :: "type_tag \<Rightarrow> type_tag \<Rightarrow> bool" where
  "tags_equal (TCustom a n) r = (case r of TCustom b m \<Rightarrow> a = b | _ \<Rightarrow> False)"
| "tags_equal (TListOf a) r = (case r of TListOf b \<Rightarrow> tags_equal a b | _ \<Rightarrow> False)"
| "tags_equal (TMapOf a) r = (case r of TMapOf b \<Rightarrow> tags_equal a b | _ \<Rightarrow> False)"
| "tags_equal (TRecord a fs) r = (case r of TRecord b gs \<Rightarrow> a = b | _ \<Rightarrow> False)"
| "tags_equal (TUnion sa a) r =
     (case r of
        TUnion sb b \<Rightarrow> length a = length b \<and> list_all (\<lambda>member. list_ex (\<lambda>other. tags_equal member other) b) a
      | _ \<Rightarrow> False)"
| "tags_equal t r = (t = r)"

definition coercible_pair :: "type_tag \<Rightarrow> type_tag \<Rightarrow> bool" where
  "coercible_pair actual expected =
     (case actual of
        TString \<Rightarrow> expected \<in> {TBool, TDuration, TPath}
      | TInt \<Rightarrow> expected \<in> {TString, TFloat}
      | TFloat \<Rightarrow> expected = TString
      | TBool \<Rightarrow> expected = TString
      | TDuration \<Rightarrow> expected = TString
      | TPath \<Rightarrow> expected = TString
      | TListOf _ \<Rightarrow> expected = TList
      | TList \<Rightarrow> (case expected of TListOf _ \<Rightarrow> True | _ \<Rightarrow> False)
      | TRecord _ _ \<Rightarrow> expected = TMap
      | TMapOf _ \<Rightarrow> expected = TMap
      | TMap \<Rightarrow> (case expected of TMapOf _ \<Rightarrow> True | _ \<Rightarrow> False)
      | _ \<Rightarrow> False)"

datatype static_error =
    Exact_mismatch string string
  | Missing_field string
  | Unknown_field string
  | Void_value
  | Untyped_any string
  | Cannot_unify string string
  | Operator_type

definition exact_mismatch :: "type_tag \<Rightarrow> type_tag \<Rightarrow> static_error" where
  "exact_mismatch expected actual =
     Exact_mismatch (render_structural expected) (render_structural actual)"

fun is_maplike :: "type_tag \<Rightarrow> bool" where
  "is_maplike TMap = True"
| "is_maplike (TRecord r fs) = True"
| "is_maplike (TMapOf t) = True"
| "is_maplike _ = False"

fun is_listlike :: "type_tag \<Rightarrow> bool" where
  "is_listlike TList = True"
| "is_listlike (TListOf t) = True"
| "is_listlike _ = False"

fun is_union :: "type_tag \<Rightarrow> bool" where
  "is_union (TUnion sp ms) = True"
| "is_union _ = False"

lemma find_field_size [termination_simp]:
  "find P fs = Some g \<Longrightarrow> size (field_ty g) < Suc (size_list size fs)"
  by (metis field_ty_size_list find_Some_iff nth_mem)

lemma field_ty_size_sum [termination_simp]:
  "\<lbrakk>f \<in> set fs; g \<in> set gs\<rbrakk> \<Longrightarrow>
     size (field_ty f) + size (field_ty g) < Suc (Suc (size_list size fs + size_list size gs))"
  using field_ty_size_list [of f fs] field_ty_size_list [of g gs] by linarith

function check_exact :: "type_tag \<Rightarrow> type_tag \<Rightarrow> static_error + unit" where
  "check_exact expected actual =
     (if tags_equal expected actual then Ok ()
      else if expected = TAny \<or> actual = TAny then Ok ()
      else case actual of
        TListOf a \<Rightarrow>
          (case expected of
             TListOf e \<Rightarrow> check_exact e a
           | TList \<Rightarrow> Ok ()
           | TUnion se e_members \<Rightarrow>
               if list_ex (\<lambda>member. is_ok (check_exact member actual)) e_members then Ok ()
               else Err (exact_mismatch expected actual)
           | _ \<Rightarrow> Err (exact_mismatch expected actual))
      | TMapOf a \<Rightarrow>
          (case expected of
             TMapOf e \<Rightarrow> check_exact e a
           | TMap \<Rightarrow> Ok ()
           | TUnion se e_members \<Rightarrow>
               if list_ex (\<lambda>member. is_ok (check_exact member actual)) e_members then Ok ()
               else Err (exact_mismatch expected actual)
           | _ \<Rightarrow> Err (exact_mismatch expected actual))
      | TRecord ra a_fields \<Rightarrow>
          (case expected of
             TRecord re e_fields \<Rightarrow>
               bind_result
                 (try_each (\<lambda>f. case find (\<lambda>found. field_name found = field_name f) a_fields of
                      Some found \<Rightarrow> check_exact (field_ty f) (field_ty found)
                    | None \<Rightarrow> if field_optional f then Ok () else Err (Missing_field (field_name f))) e_fields)
                 (\<lambda>_. try_each (\<lambda>f.
                      if list_ex (\<lambda>known. field_name known = field_name f) e_fields then Ok ()
                      else Err (Unknown_field (field_name f))) a_fields)
           | TMapOf inner \<Rightarrow> try_each (\<lambda>f. check_exact inner (field_ty f)) a_fields
           | TMap \<Rightarrow> Ok ()
           | TUnion se e_members \<Rightarrow>
               if list_ex (\<lambda>member. is_ok (check_exact member actual)) e_members then Ok ()
               else Err (exact_mismatch expected actual)
           | _ \<Rightarrow> Err (exact_mismatch expected actual))
      | TUnion sa a_members \<Rightarrow>
          (case expected of
             TUnion se e_members \<Rightarrow>
               if length a_members = length e_members \<and>
                 list_all (\<lambda>am. list_ex (\<lambda>member. is_ok (check_exact member am)) e_members) a_members
               then Ok () else Err (exact_mismatch expected actual)
           | _ \<Rightarrow> Err (exact_mismatch expected actual))
      | _ \<Rightarrow>
          (case expected of
             TUnion se e_members \<Rightarrow>
               if list_ex (\<lambda>member. is_ok (check_exact member actual)) e_members then Ok ()
               else Err (exact_mismatch expected actual)
           | _ \<Rightarrow> Err (exact_mismatch expected actual)))"
  by pat_completeness auto

lemma member_size: "x \<in> set xs \<Longrightarrow> size x < Suc (size_list size xs)"
  by (induction xs) auto

termination check_exact
  by (relation "measure (\<lambda>(e, a). size e + size a)")
     (auto simp: termination_simp dest!: member_size field_ty_size_list find_field_size)

declare check_exact.simps [simp del]

datatype static_ty = Void | Ty type_tag

text \<open>The shape pairs \<open>check_arg\<close> hands to \<open>check_exact\<close>.\<close>

definition exact_pair :: "type_tag \<Rightarrow> type_tag \<Rightarrow> bool" where
  "exact_pair actual expected =
     (case actual of
        TListOf _ \<Rightarrow> (case expected of TListOf _ \<Rightarrow> True | _ \<Rightarrow> False)
      | TMapOf _ \<Rightarrow> (case expected of TMapOf _ \<Rightarrow> True | _ \<Rightarrow> False)
      | TRecord _ _ \<Rightarrow> (case expected of TRecord _ _ \<Rightarrow> True | TMapOf _ \<Rightarrow> True | _ \<Rightarrow> False)
      | _ \<Rightarrow> False)"

text \<open>\<open>check_arg\<close> below its first test, which rejects \<open>VOID\<close>.\<close>

function check_arg_ty :: "type_tag \<Rightarrow> type_tag \<Rightarrow> static_error + unit" where
  "check_arg_ty expected actual =
     (if expected = TAny then Ok ()
      else if actual = TAny then Err (Untyped_any (render_structural expected))
      else if tags_equal expected actual then Ok ()
      else case actual of
        TUnion sa a_members \<Rightarrow> try_each (\<lambda>member. check_arg_ty expected member) a_members
      | _ \<Rightarrow>
          (case expected of
             TUnion se e_members \<Rightarrow>
               if list_ex (\<lambda>member. is_ok (check_arg_ty member actual)) e_members then Ok ()
               else Err (exact_mismatch expected actual)
           | _ \<Rightarrow>
               if coercible_pair actual expected then Ok ()
               else if exact_pair actual expected then check_exact expected actual
               else Err (exact_mismatch expected actual)))"
  by pat_completeness auto

termination check_arg_ty
  by (relation "measure (\<lambda>(e, a). size e + size a)") (auto dest!: member_size)

declare check_arg_ty.simps [simp del]

definition check_arg :: "type_tag \<Rightarrow> static_ty \<Rightarrow> static_error + unit" where
  "check_arg expected actual =
     (case actual of Void \<Rightarrow> Err Void_value | Ty a \<Rightarrow> check_arg_ty expected a)"

text \<open>The three map constructors; \<open>unify\<close> joins two different ones to the bare word.\<close>

fun map_kind :: "type_tag \<Rightarrow> nat" where
  "map_kind (TRecord r fs) = 1"
| "map_kind (TMapOf t) = 2"
| "map_kind _ = 0"

definition unify :: "type_tag \<Rightarrow> type_tag \<Rightarrow> static_error + type_tag" where
  "unify left right =
     (if tags_equal left right then Ok left
      else if left = TAny \<or> right = TAny then Ok TAny
      else if is_union left \<or> is_union right then Ok TAny
      else if is_listlike left \<and> is_listlike right \<and> (left = TList \<or> right = TList) then Ok TList
      else if is_maplike left \<and> is_maplike right \<and> map_kind left \<noteq> map_kind right then Ok TMap
      else Err (Cannot_unify (render_structural left) (render_structural right)))"

definition literal_tag :: "dvalue \<Rightarrow> type_tag" where
  "literal_tag v = (case builtin (type_name v) of Some t \<Rightarrow> t | None \<Rightarrow> TAny)"

definition numeric_pair :: "static_ty \<Rightarrow> static_ty \<Rightarrow> static_error + static_ty" where
  "numeric_pair l r =
     (case (l, r) of
        (Ty left, Ty right) \<Rightarrow>
          if left = TAny \<or> right = TAny then Ok (Ty TAny)
          else if left \<in> {TInt, TFloat} \<and> right \<in> {TInt, TFloat}
          then Ok (Ty (if left = TInt \<and> right = TInt then TInt else TFloat))
          else Err Operator_type
      | _ \<Rightarrow> Err Void_value)"

definition neg_rule :: "static_ty \<Rightarrow> static_error + static_ty" where
  "neg_rule operand =
     (case operand of
        Void \<Rightarrow> Err Void_value
      | Ty t \<Rightarrow> if t \<in> {TInt, TFloat, TAny} then Ok (Ty t) else Err Operator_type)"

definition ordering_pair :: "static_ty \<Rightarrow> static_ty \<Rightarrow> static_error + unit" where
  "ordering_pair l r =
     (case (l, r) of
        (Ty left, Ty right) \<Rightarrow>
          if left = TAny \<or> right = TAny then Ok ()
          else if left \<in> {TInt, TFloat} \<and> right \<in> {TInt, TFloat} then Ok ()
          else Err Operator_type
      | _ \<Rightarrow> Err Void_value)"

section \<open>Addresses\<close>

text \<open>Descriptors and field tables are shared behind addresses: one name per descriptor
  address, one table per table address.\<close>

fun wf_tag :: "(nat \<Rightarrow> string) \<Rightarrow> (nat \<Rightarrow> field list) \<Rightarrow> type_tag \<Rightarrow> bool" where
  "wf_tag D R (TCustom d n) = (n = D d)"
| "wf_tag D R (TListOf t) = wf_tag D R t"
| "wf_tag D R (TMapOf t) = wf_tag D R t"
| "wf_tag D R (TRecord r fs) = (fs = R r \<and> list_all (\<lambda>f. wf_tag D R (field_ty f)) fs)"
| "wf_tag D R (TUnion sp ts) = list_all (wf_tag D R) ts"
| "wf_tag D R _ = True"

fun any_free :: "type_tag \<Rightarrow> bool" where
  "any_free TAny = False"
| "any_free (TListOf t) = any_free t"
| "any_free (TMapOf t) = any_free t"
| "any_free (TRecord r fs) = list_all (\<lambda>f. any_free (field_ty f)) fs"
| "any_free (TUnion sp ts) = list_all any_free ts"
| "any_free _ = True"

fun all_required :: "type_tag \<Rightarrow> bool" where
  "all_required (TListOf t) = all_required t"
| "all_required (TMapOf t) = all_required t"
| "all_required (TRecord r fs) = list_all (\<lambda>f. \<not> field_optional f \<and> all_required (field_ty f)) fs"
| "all_required (TUnion sp ts) = list_all all_required ts"
| "all_required _ = True"

lemma tags_equal_typing:
  "\<lbrakk>tags_equal a b; wf_tag D R a; wf_tag D R b; has_type a v\<rbrakk> \<Longrightarrow> has_type b v"
proof (induction a b arbitrary: v rule: tags_equal.induct)
  case (2 a r)
  then obtain b where "r = TListOf b" "tags_equal a b" by (cases r rule: type_tag.exhaust) auto
  with 2 show ?case by (auto simp: has_type_ListOf_iff)
next
  case (3 a r)
  then obtain b where "r = TMapOf b" "tags_equal a b" by (cases r rule: type_tag.exhaust) auto
  with 3 show ?case by (auto simp: has_type_MapOf_iff)
next
  case (4 a fs r)
  then show ?case by (cases r rule: type_tag.exhaust) auto
next
  case (5 sa a r)
  then obtain sb b where r: "r = TUnion sb b" by (cases r rule: type_tag.exhaust) auto
  from 5(5) obtain m where m: "m \<in> set a" "has_type m v" by (auto simp: has_type_Union_iff)
  with 5(2) r obtain o' where o': "o' \<in> set b" "tags_equal m o'" by (auto simp: list_all_iff list_ex_iff)
  with 5 r m have "has_type o' v" by (auto simp: list_all_iff)
  with o' r show ?case by (auto simp: has_type_Union_iff)
qed (auto simp: has_type_Custom_iff split: type_tag.splits)

section \<open>Tag equality is symmetric on deduplicated tags\<close>

text \<open>Resolution deduplicates union members before it builds the tag.\<close>

fun dedup :: "type_tag \<Rightarrow> bool" where
  "dedup (TListOf t) = dedup t"
| "dedup (TMapOf t) = dedup t"
| "dedup (TRecord r fs) = list_all (\<lambda>f. dedup (field_ty f)) fs"
| "dedup (TUnion sp ts) =
     (list_all dedup ts \<and> sorted_wrt (\<lambda>x y. \<not> tags_equal x y \<and> \<not> tags_equal y x) ts)"
| "dedup _ = True"

lemma dedup_union_distinct:
  assumes "dedup (TUnion sp ts)" "i < length ts" "j < length ts" "tags_equal (ts ! i) (ts ! j)" "i \<noteq> j"
  shows False
  using assms by (cases "i < j") (auto simp: sorted_wrt_iff_nth_less)

lemma tags_equal_refl [simp]: "tags_equal t t"
proof (induction t rule: dedup.induct)
  case (4 sp ts)
  then show ?case by (auto simp: list_all_iff list_ex_iff)
qed auto

lemma tags_equal_trans: "tags_equal a b \<Longrightarrow> tags_equal b c \<Longrightarrow> tags_equal a c"
proof (induction a b arbitrary: c rule: tags_equal.induct)
  case (5 sa a r)
  from 5(2) obtain sb b where r1: "r = TUnion sb b" by (cases r rule: type_tag.exhaust) auto
  with 5(3) obtain sc cs where "c = TUnion sc cs" by (cases c rule: type_tag.exhaust) auto
  note r = r1 this
  have "\<exists>p \<in> set cs. tags_equal m p" if m: "m \<in> set a" for m
  proof -
    from m 5(2) r obtain n where n: "n \<in> set b" "tags_equal m n" by (auto simp: list_all_iff list_ex_iff)
    with 5(3) r obtain p where "p \<in> set cs" "tags_equal n p" by (auto simp: list_all_iff list_ex_iff)
    with 5(1) r m n show ?thesis by blast
  qed
  with 5 r show ?case by (auto simp: list_all_iff list_ex_iff)
qed (auto split: type_tag.splits)

text \<open>Two deduplicated unions of the same length, one contained in the other, cover each
  other: the containment picks different members for different members.\<close>

lemma union_containment_onto:
  assumes "dedup (TUnion sp a)" "length a = length b"
    and "\<forall>m \<in> set a. \<exists>n \<in> set b. tags_equal m n"
    and sym: "\<And>m n. \<lbrakk>m \<in> set a; n \<in> set b; tags_equal m n\<rbrakk> \<Longrightarrow> tags_equal n m"
  shows "\<forall>n \<in> set b. \<exists>m \<in> set a. tags_equal m n"
proof -
  have "\<forall>i \<in> {..<length a}. \<exists>j. j < length b \<and> tags_equal (a ! i) (b ! j)"
    using assms(3) by (metis in_set_conv_nth lessThan_iff)
  then obtain f where f: "\<forall>i \<in> {..<length a}. f i < length b \<and> tags_equal (a ! i) (b ! f i)"
    using bchoice [of "{..<length a}" "\<lambda>i j. j < length b \<and> tags_equal (a ! i) (b ! j)"] by blast
  have "inj_on f {..<length a}"
  proof (rule inj_onI, rule ccontr)
    fix i j assume ij: "i \<in> {..<length a}" "j \<in> {..<length a}" "f i = f j" "i \<noteq> j"
    have fi: "f i < length b" "tags_equal (a ! i) (b ! f i)" "tags_equal (a ! j) (b ! f i)"
      using f ij(1) f [rule_format, OF ij(2)] by (simp_all add: ij(3) [symmetric])
    then have "tags_equal (b ! f i) (a ! j)" using sym [of "a ! j" "b ! f i"] ij(2) by simp
    with fi(2) have "tags_equal (a ! i) (a ! j)" by (rule tags_equal_trans)
    with dedup_union_distinct [OF assms(1)] ij show False by simp
  qed
  moreover have "f ` {..<length a} \<subseteq> {..<length b}" using f by auto
  ultimately have "f ` {..<length a} = {..<length b}"
    using assms(2) by (simp add: card_image card_subset_eq)
  then have "\<forall>j < length b. \<exists>i < length a. f i = j" by (metis imageE lessThan_iff)
  then show ?thesis using f by (metis in_set_conv_nth lessThan_iff)
qed

lemma tags_equal_sym: "dedup a \<Longrightarrow> tags_equal a b \<Longrightarrow> tags_equal b a"
proof (induction a b rule: tags_equal.induct)
  case (5 sa a r)
  then obtain sb b where r: "r = TUnion sb b" by (cases r rule: type_tag.exhaust) auto
  have sub: "length a = length b" "\<forall>m \<in> set a. \<exists>n \<in> set b. tags_equal m n"
    using 5(3) r by (auto simp: list_all_iff list_ex_iff)
  have sym: "tags_equal n m" if "m \<in> set a" "n \<in> set b" "tags_equal m n" for m n
    using 5(1) [OF r that(1,2)] that 5(2) by (auto simp: list_all_iff)
  have "\<forall>n \<in> set b. \<exists>m \<in> set a. tags_equal n m"
    using union_containment_onto [OF 5(2) sub sym] sym by blast
  with sub(1) show ?case by (simp add: r list_all_iff list_ex_iff)
qed (auto split: type_tag.splits)

section \<open>Exact shapes\<close>

text \<open>What the static pass can rely on about an actual tag: consistent addresses,
  deduplicated unions, no \<open>ANY\<close> inside and no optional field.\<close>

definition exact_actual :: "(nat \<Rightarrow> string) \<Rightarrow> (nat \<Rightarrow> field list) \<Rightarrow> type_tag \<Rightarrow> bool" where
  "exact_actual D R t \<longleftrightarrow> wf_tag D R t \<and> any_free t \<and> all_required t"

definition exact_expected :: "(nat \<Rightarrow> string) \<Rightarrow> (nat \<Rightarrow> field list) \<Rightarrow> type_tag \<Rightarrow> bool" where
  "exact_expected D R t \<longleftrightarrow> wf_tag D R t \<and> dedup t"

lemma exact_parts:
  "exact_actual D R (TListOf t) \<longleftrightarrow> exact_actual D R t"
  "exact_actual D R (TMapOf t) \<longleftrightarrow> exact_actual D R t"
  "exact_actual D R (TUnion sp ts) \<longleftrightarrow> (\<forall>t \<in> set ts. exact_actual D R t)"
  "exact_actual D R (TRecord r fs) \<longleftrightarrow>
     fs = R r \<and> (\<forall>f \<in> set fs. \<not> field_optional f \<and> exact_actual D R (field_ty f))"
  "exact_expected D R (TListOf t) \<longleftrightarrow> exact_expected D R t"
  "exact_expected D R (TMapOf t) \<longleftrightarrow> exact_expected D R t"
  "exact_expected D R (TUnion sp ts) \<Longrightarrow> t \<in> set ts \<Longrightarrow> exact_expected D R t"
  "exact_expected D R (TRecord r fs) \<Longrightarrow> f \<in> set fs \<Longrightarrow> exact_expected D R (field_ty f)"
  by (auto simp: exact_actual_def exact_expected_def list_all_iff)

lemma exact_equal_typing:
  assumes "tags_equal e a" "exact_expected D R e" "exact_actual D R a" "has_type a v"
  shows "has_type e v"
  using tags_equal_typing [OF tags_equal_sym] assms by (auto simp: exact_actual_def exact_expected_def)

text \<open>One step of \<open>check_exact\<close> past its first two tests, by the shape of the two tags.\<close>

lemma is_ok_unit [simp]: "is_ok (r :: 'e + unit) \<longleftrightarrow> r = Ok ()"
  by (cases r) auto

definition must_compare :: "type_tag \<Rightarrow> type_tag \<Rightarrow> bool" where
  "must_compare e a \<longleftrightarrow> \<not> tags_equal e a \<and> e \<noteq> TAny \<and> a \<noteq> TAny"

lemma check_exact_union:
  assumes "must_compare (TUnion se me) a" "\<not> is_union a" "check_exact (TUnion se me) a = Ok ()"
  shows "\<exists>m \<in> set me. check_exact m a = Ok ()"
proof -
  note c = assms(3) [unfolded check_exact.simps [of "TUnion se me" a]]
  show ?thesis
    by (cases a rule: type_tag.exhaust)
       (use assms(1,2) c in \<open>simp_all add: must_compare_def list_ex_iff split: if_splits\<close>)
qed

lemma check_exact_from_union:
  assumes "must_compare e (TUnion sa ma)" "check_exact e (TUnion sa ma) = Ok ()"
  shows "\<exists>se me. e = TUnion se me \<and> (\<forall>x \<in> set ma. \<exists>m \<in> set me. check_exact m x = Ok ())"
proof -
  note c = assms(2) [unfolded check_exact.simps [of e "TUnion sa ma"]]
  show ?thesis
    by (cases e rule: type_tag.exhaust)
       (use assms(1) c in \<open>simp_all add: must_compare_def list_all_iff list_ex_iff
          del: tags_equal.simps split: if_splits\<close>)
qed

lemma check_exact_from_list:
  assumes "must_compare e (TListOf x)" "\<not> is_union e" "check_exact e (TListOf x) = Ok ()"
  shows "e = TList \<or> (\<exists>y. e = TListOf y \<and> check_exact y x = Ok ())"
proof -
  note c = assms(3) [unfolded check_exact.simps [of e "TListOf x"]]
  show ?thesis
    by (cases e rule: type_tag.exhaust) (use assms(1,2) c in \<open>simp_all add: must_compare_def\<close>)
qed

lemma check_exact_from_map:
  assumes "must_compare e (TMapOf x)" "\<not> is_union e" "check_exact e (TMapOf x) = Ok ()"
  shows "e = TMap \<or> (\<exists>y. e = TMapOf y \<and> check_exact y x = Ok ())"
proof -
  note c = assms(3) [unfolded check_exact.simps [of e "TMapOf x"]]
  show ?thesis
    by (cases e rule: type_tag.exhaust) (use assms(1,2) c in \<open>simp_all add: must_compare_def\<close>)
qed

definition field_compat :: "field list \<Rightarrow> field \<Rightarrow> bool" where
  "field_compat fa f \<longleftrightarrow>
     (case find (\<lambda>g. field_name g = field_name f) fa of
        Some g \<Rightarrow> check_exact (field_ty f) (field_ty g) = Ok () | None \<Rightarrow> field_optional f)"

lemma field_compat_ok:
  "(case find (\<lambda>g. field_name g = field_name f) fa of
      Some g \<Rightarrow> check_exact (field_ty f) (field_ty g)
    | None \<Rightarrow> if field_optional f then Ok () else Err (Missing_field (field_name f))) = Ok () \<longleftrightarrow>
   field_compat fa f"
  by (simp add: field_compat_def split: option.splits)

lemma known_fields_ok:
  "(\<forall>f \<in> set fa. (if list_ex (\<lambda>k. field_name k = field_name f) fe then Ok ()
      else Err (Unknown_field (field_name f))) = Ok ()) \<longleftrightarrow> field_name ` set fa \<subseteq> field_name ` set fe"
  by (simp add: list_ex_iff subset_iff image_iff) metis

lemma check_exact_from_record:
  assumes "must_compare e (TRecord ra fa)" "\<not> is_union e" "check_exact e (TRecord ra fa) = Ok ()"
  shows "e = TMap \<or> (\<exists>y. e = TMapOf y \<and> (\<forall>f \<in> set fa. check_exact y (field_ty f) = Ok ())) \<or>
    (\<exists>re fe. e = TRecord re fe \<and> (\<forall>f \<in> set fe. field_compat fa f) \<and>
       field_name ` set fa \<subseteq> field_name ` set fe)"
proof -
  note c = assms(3) [unfolded check_exact.simps [of e "TRecord ra fa"]]
  show ?thesis
    by (cases e rule: type_tag.exhaust)
       (use assms(1,2) c in \<open>simp_all add: must_compare_def try_each_Inr bind_result_Inr
          field_compat_ok known_fields_ok\<close>)
qed

lemma case_not_union:
  "\<not> is_union e \<Longrightarrow> (case e of TUnion se me \<Rightarrow> X se me | _ \<Rightarrow> Y) = Y"
  by (cases e rule: type_tag.exhaust) simp_all

lemma check_exact_from_word:
  assumes "must_compare e a" "\<not> is_union e" "\<not> is_union a" "\<not> is_fixed_shape a" "\<And>x. a \<noteq> TMapOf x"
  shows "check_exact e a \<noteq> Ok ()"
proof
  assume "check_exact e a = Ok ()"
  note c = this [unfolded check_exact.simps [of e a]]
  show False
    by (cases a rule: type_tag.exhaust)
       (use assms c in \<open>simp_all add: must_compare_def case_not_union del: tags_equal.simps\<close>)
qed

lemma wf_value_lookup: "wf_value (VMap m) \<Longrightarrow> map_of m k = Some x \<Longrightarrow> wf_value x"
  by (auto simp: list_all_iff dest!: map_of_SomeD)

lemma record_field_typing:
  assumes "has_type (TRecord ra fa) (VMap m)" "find (\<lambda>g. field_name g = n) fa = Some g" "map_of m n = Some x"
  shows "has_type (field_ty g) x"
proof -
  have "g \<in> set fa" "field_name g = n" using assms(2) by (auto simp: find_Some_iff)
  then show ?thesis using assms(1,3) by (auto simp: has_type_Record_iff field_ok_def)
qed

lemma record_field_present:
  assumes "has_type (TRecord ra fa) (VMap m)" "g \<in> set fa" "\<not> field_optional g"
  shows "\<exists>x. map_of m (field_name g) = Some x"
  using assms by (cases "map_of m (field_name g)") (auto simp: has_type_Record_iff field_ok_def)

lemma record_unknown_absent:
  assumes "has_type (TRecord ra fa) (VMap m)" "find (\<lambda>g. field_name g = n) fa = None"
  shows "map_of m n = None"
proof -
  have "n \<notin> field_name ` set fa" using assms(2) by (auto simp: find_None_iff)
  then have "n \<notin> fst ` set m" using assms(1) by (auto simp: has_type_Record_iff)
  then show ?thesis by (simp add: map_of_eq_None_iff)
qed

text \<open>Two records: every field the expected record asks for is supplied at its type.\<close>

lemma record_compat_typing:
  assumes compat: "\<forall>f \<in> set fe. field_compat fa f" and names: "field_name ` set fa \<subseteq> field_name ` set fe"
    and req: "\<forall>g \<in> set fa. \<not> field_optional g" and ty: "has_type (TRecord ra fa) v" and wf: "wf_value v"
    and sub: "\<And>f g x. \<lbrakk>f \<in> set fe; g \<in> set fa; check_exact (field_ty f) (field_ty g) = Ok ();
      has_type (field_ty g) x; wf_value x\<rbrakk> \<Longrightarrow> has_type (field_ty f) x"
  shows "has_type (TRecord re fe) v"
proof -
  obtain m where v: "v = VMap m" and keys: "fst ` set m \<subseteq> field_name ` set fa"
    using ty by (auto simp: has_type_Record_iff)
  have "field_ok has_type m f" if f: "f \<in> set fe" for f
  proof (cases "find (\<lambda>g. field_name g = field_name f) fa")
    case None
    then have "field_optional f" using compat f by (auto simp: field_compat_def)
    then show ?thesis using record_unknown_absent [OF ty [unfolded v] None] by (simp add: field_ok_def)
  next
    case (Some g)
    then have g: "g \<in> set fa" "field_name g = field_name f" by (auto simp: find_Some_iff)
    obtain x where x: "map_of m (field_name f) = Some x"
      using record_field_present [OF ty [unfolded v] g(1)] req g by auto
    have "check_exact (field_ty f) (field_ty g) = Ok ()"
      using compat f Some by (auto simp: field_compat_def)
    from sub [OF f g(1) this record_field_typing [OF ty [unfolded v] Some x]] x
      wf_value_lookup [OF wf [unfolded v] x]
    show ?thesis by (simp add: field_ok_def)
  qed
  with keys names show ?thesis by (auto simp: has_type_Record_iff v)
qed

lemma check_exact_typing:
  "\<lbrakk>check_exact e a = Ok (); exact_expected D R e; exact_actual D R a; has_type a v; wf_value v\<rbrakk> \<Longrightarrow> has_type e v"
proof (induction "size e + size a" arbitrary: e a v rule: less_induct)
  case less
  note IH = less.hyps and ok = less.prems(1) and ex = less.prems(2) and ac = less.prems(3) and ty = less.prems(4)
    and wf = less.prems(5)
  show ?case
  proof (cases "must_compare e a")
    case False
    then show ?thesis
      using exact_equal_typing [OF _ ex ac ty] ac
      by (auto simp: must_compare_def has_type_bare_iff exact_actual_def)
  next
    case mc: True
    consider (eu) se me where "e = TUnion se me" "\<not> is_union a" | (au) sa ma where "a = TUnion sa ma"
      | (list) x where "a = TListOf x" "\<not> is_union e" | (map) x where "a = TMapOf x" "\<not> is_union e"
      | (rec) ra fa where "a = TRecord ra fa" "\<not> is_union e"
      | (word) "\<not> is_union e" "\<not> is_union a" "\<not> is_fixed_shape a" "\<And>x. a \<noteq> TMapOf x"
      by (metis is_fixed_shape.elims(2) is_union.elims(2))
    then show ?thesis
    proof cases
      case eu
      then obtain m where m: "m \<in> set me" "check_exact m a = Ok ()"
        using check_exact_union mc ok by blast
      have "has_type m v"
        by (rule IH [OF _ m(2) _ ac ty wf]) (use eu m(1) ex member_size [OF m(1)] in \<open>auto simp: exact_parts\<close>)
      with m(1) eu show ?thesis by (auto simp: has_type_Union_iff)
    next
      case au
      from check_exact_from_union [OF mc [unfolded au] ok [unfolded au]] obtain se me where
        e: "e = TUnion se me" "\<forall>x \<in> set ma. \<exists>m \<in> set me. check_exact m x = Ok ()" by blast
      from ty au obtain x where x: "x \<in> set ma" "has_type x v" by (auto simp: has_type_Union_iff)
      with e obtain m where m: "m \<in> set me" "check_exact m x = Ok ()" by blast
      have "has_type m v"
        by (rule IH [OF _ m(2) _ _ x(2) wf])
           (use e au m(1) x(1) ex ac member_size [OF m(1)] member_size [OF x(1)] in \<open>auto simp: exact_parts\<close>)
      with m(1) e show ?thesis by (auto simp: has_type_Union_iff)
    next
      case list
      from check_exact_from_list [OF mc [unfolded list(1)] list(2) ok [unfolded list(1)]]
      consider "e = TList" | y where "e = TListOf y" "check_exact y x = Ok ()" by blast
      then show ?thesis
      proof cases
        case 1
        with ty list show ?thesis by (auto simp: has_type_ListOf_iff has_type_bare_iff)
      next
        case 2
        from ty list obtain xs where v: "v = VList xs" "\<forall>z \<in> set xs. has_type x z"
          by (auto simp: has_type_ListOf_iff)
        have "has_type y z" if "z \<in> set xs" for z
          by (rule IH [OF _ 2(2)]) (use 2 list v that ex ac wf in \<open>auto simp: exact_parts list_all_iff\<close>)
        with 2 v show ?thesis by (simp add: has_type_ListOf_iff)
      qed
    next
      case map
      from check_exact_from_map [OF mc [unfolded map(1)] map(2) ok [unfolded map(1)]]
      consider "e = TMap" | y where "e = TMapOf y" "check_exact y x = Ok ()" by blast
      then show ?thesis
      proof cases
        case 1
        with ty map show ?thesis by (auto simp: has_type_MapOf_iff has_type_bare_iff)
      next
        case 2
        from ty map obtain m where v: "v = VMap m" "\<forall>p \<in> set m. has_type x (snd p)"
          by (auto simp: has_type_MapOf_iff)
        have "has_type y (snd p)" if "p \<in> set m" for p
          by (rule IH [OF _ 2(2)]) (use 2 map v that ex ac wf in \<open>auto simp: exact_parts list_all_iff\<close>)
        with 2 v show ?thesis by (simp add: has_type_MapOf_iff)
      qed
    next
      case rec
      from check_exact_from_record [OF mc [unfolded rec(1)] rec(2) ok [unfolded rec(1)]]
      consider "e = TMap" | y where "e = TMapOf y" "\<forall>f \<in> set fa. check_exact y (field_ty f) = Ok ()"
        | re fe where "e = TRecord re fe" "\<forall>f \<in> set fe. field_compat fa f" "field_name ` set fa \<subseteq> field_name ` set fe"
        by blast
      then show ?thesis
      proof cases
        case 1
        with ty rec show ?thesis by (auto simp: has_type_Record_iff has_type_bare_iff)
      next
        case 2
        from ty rec obtain m where v: "v = VMap m" "fst ` set m \<subseteq> field_name ` set fa"
          by (auto simp: has_type_Record_iff)
        have "has_type y (snd p)" if p: "p \<in> set m" for p
        proof -
          have x: "map_of m (fst p) = Some (snd p)" using wf v(1) p by (simp add: map_of_eq_Some_iff)
          obtain f where f: "f \<in> set fa" "field_name f = fst p" using v(2) p by force
          have "has_type (field_ty f) (snd p)"
            using ty x f by (auto simp: rec v(1) has_type_Record_iff field_ok_def)
          then show ?thesis
            by (rule IH [OF _ bspec [OF 2(2) f(1)], rotated 3])
               (use 2 rec f v p ex ac wf field_ty_size_list [OF f(1)] in \<open>auto simp: exact_parts list_all_iff\<close>)
        qed
        with 2 v show ?thesis by (simp add: has_type_MapOf_iff)
      next
        case 3
        have "has_type (field_ty f) x"
          if "f \<in> set fe" "g \<in> set fa" "check_exact (field_ty f) (field_ty g) = Ok ()" "has_type (field_ty g) x"
            "wf_value x" for f g x
          by (rule IH [OF _ that(3) _ _ that(4,5)])
             (use 3 rec that ex ac field_ty_size_list [OF that(1)] field_ty_size_list [OF that(2)]
              in \<open>auto simp: exact_parts\<close>)
        with record_compat_typing [OF 3(2,3) _ ty [unfolded rec(1)] wf] ac rec 3(1)
        show ?thesis by (simp add: exact_parts)
      qed
    next
      case word
      with check_exact_from_word [OF mc] ok show ?thesis by blast
    qed
  qed
qed

section \<open>Arguments\<close>

text \<open>The pairs whose outcome depends on the value: text that may not parse, and untyped
  containers entering shaped positions.\<close>

definition decided_by_value :: "type_tag \<Rightarrow> type_tag \<Rightarrow> bool" where
  "decided_by_value actual expected =
     (case actual of
        TString \<Rightarrow> expected \<in> {TBool, TDuration}
      | TList \<Rightarrow> (case expected of TListOf _ \<Rightarrow> True | _ \<Rightarrow> False)
      | TMap \<Rightarrow> (case expected of TMapOf _ \<Rightarrow> True | _ \<Rightarrow> False)
      | _ \<Rightarrow> False)"

function by_value :: "type_tag \<Rightarrow> type_tag \<Rightarrow> bool" where
  "by_value expected actual =
     (case actual of
        TUnion sa ma \<Rightarrow> list_ex (\<lambda>a. by_value expected a) ma
      | _ \<Rightarrow> (case expected of
               TUnion se me \<Rightarrow> list_ex (\<lambda>e. by_value e actual) me
             | _ \<Rightarrow> decided_by_value actual expected))"
  by pat_completeness auto

termination by_value
  by (relation "measure (\<lambda>(e, a). size e + size a)") (auto dest!: member_size)

declare by_value.simps [simp del]

lemma by_value_union_actual: "by_value e (TUnion sa ma) \<longleftrightarrow> (\<exists>a \<in> set ma. by_value e a)"
  by (simp add: by_value.simps [of e "TUnion sa ma"] list_ex_iff)

lemma by_value_union_expected:
  "\<not> is_union a \<Longrightarrow> by_value (TUnion se me) a \<longleftrightarrow> (\<exists>e \<in> set me. by_value e a)"
  unfolding by_value.simps [of "TUnion se me" a]
  by (cases a rule: type_tag.exhaust) (simp_all add: list_ex_iff)

lemma by_value_words:
  assumes "\<not> is_union a" "\<not> is_union e"
  shows "by_value e a = decided_by_value a e"
  unfolding by_value.simps [of e a]
  by (cases a rule: type_tag.exhaust) (use assms in \<open>simp_all add: case_not_union\<close>)

lemma check_arg_union_actual:
  assumes "check_arg_ty e (TUnion sa ma) = Ok ()" "e \<noteq> TAny" "\<not> tags_equal e (TUnion sa ma)"
  shows "\<forall>a \<in> set ma. check_arg_ty e a = Ok ()"
  using assms(1) [unfolded check_arg_ty.simps [of e "TUnion sa ma"]] assms(2,3)
  by (simp add: try_each_Inr del: tags_equal.simps)

lemma check_arg_union_expected:
  assumes "check_arg_ty (TUnion se me) a = Ok ()" "a \<noteq> TAny" "\<not> tags_equal (TUnion se me) a" "\<not> is_union a"
  shows "\<exists>e \<in> set me. check_arg_ty e a = Ok ()"
  by (cases a rule: type_tag.exhaust)
     (use assms(1) [unfolded check_arg_ty.simps [of "TUnion se me" a]] assms(2-4) in
       \<open>simp_all add: list_ex_iff del: tags_equal.simps split: if_splits\<close>)

lemma check_arg_words:
  assumes "\<not> is_union a" "\<not> is_union e" "e \<noteq> TAny" "a \<noteq> TAny" "\<not> tags_equal e a"
  shows "check_arg_ty e a =
    (if coercible_pair a e then Ok () else if exact_pair a e then check_exact e a else Err (exact_mismatch e a))"
  unfolding check_arg_ty.simps [of e a]
  by (cases a rule: type_tag.exhaust) (use assms in \<open>simp_all add: case_not_union del: tags_equal.simps\<close>)

lemma coerce_union_member:
  assumes "m \<in> set ms" "coerce_value F v m = Ok c"
  shows "\<exists>c'. coerce_value F v (TUnion sp ms) = Ok c'"
proof (cases "check_value (TUnion sp ms) v")
  case (Inl e)
  have "find_map (\<lambda>m. case coerce_value F v m of Ok c \<Rightarrow> Some c | Err _ \<Rightarrow> None) ms \<noteq> None"
    unfolding find_map_None_iff
  proof
    assume "\<forall>x \<in> set ms. (case coerce_value F v x of Ok c \<Rightarrow> Some c | Err _ \<Rightarrow> None) = None"
    from bspec [OF this assms(1)] assms(2) show False by simp
  qed
  with Inl show ?thesis by auto
qed simp

lemma coercible_pair_coerces:
  assumes "coercible_pair a e" "\<not> decided_by_value a e" "has_type a v"
  shows "\<exists>c. coerce_value F v e = Ok c"
proof (cases "has_type e v")
  case True
  with coerce_conforming show ?thesis by blast
next
  case False
  then have "\<exists>err. check_value e v = Err err" using check_value_ok [of e v] by (cases "check_value e v") auto
  with assms False show ?thesis
    by (cases a rule: type_tag.exhaust; cases v rule: dvalue.exhaust)
       (auto simp: coercible_pair_def decided_by_value_def has_type_iff reader_defs coerce_rest_def
          coerce_scalar_def coerce_string_def split: type_tag.splits)
qed

lemma check_arg_coerces:
  "\<lbrakk>check_arg_ty e a = Ok (); exact_expected D R e; exact_actual D R a; \<not> by_value e a;
    has_type a v; wf_value v\<rbrakk> \<Longrightarrow> \<exists>c. coerce_value F v e = Ok c"
proof (induction "size e + size a" arbitrary: e a rule: less_induct)
  case less
  note ok = less.prems(1) and ex = less.prems(2) and ac = less.prems(3) and nv = less.prems(4) and ty = less.prems(5)
  have na: "a \<noteq> TAny" using ac by (auto simp: exact_actual_def)
  consider (any) "e = TAny" | (eq) "tags_equal e a"
    | (au) sa ma where "a = TUnion sa ma" "e \<noteq> TAny" "\<not> tags_equal e a"
    | (eu) se me where "e = TUnion se me" "\<not> is_union a" "\<not> tags_equal e a"
    | (words) "\<not> is_union a" "\<not> is_union e" "e \<noteq> TAny" "\<not> tags_equal e a"
    by (metis is_union.elims(2))
  then show ?case
  proof cases
    case any
    then show ?thesis by simp
  next
    case eq
    from coerce_conforming [OF exact_equal_typing [OF eq ex ac ty]] show ?thesis by blast
  next
    case au
    from ty obtain x where x: "x \<in> set ma" "has_type x v" by (auto simp: au(1) has_type_Union_iff)
    have "check_arg_ty e x = Ok ()" using check_arg_union_actual ok au x by blast
    from less.hyps [OF _ this ex _ _ x(2) less.prems(6)] show ?thesis
      using member_size [OF x(1)] ac nv x(1) by (auto simp: au(1) exact_parts by_value_union_actual)
  next
    case eu
    obtain m where m: "m \<in> set me" "check_arg_ty m a = Ok ()"
      using check_arg_union_expected ok eu na by blast
    from less.hyps [OF _ m(2) _ ac _ ty less.prems(6)] obtain c where "coerce_value F v m = Ok c"
      using member_size [OF m(1)] ex nv m(1) eu(2) by (auto simp: eu(1) exact_parts by_value_union_expected)
    from coerce_union_member [OF m(1) this] show ?thesis by (simp add: eu(1) del: coerce_value.simps)
  next
    case words
    from ok check_arg_words [OF words(1-3) na words(4)]
    consider "coercible_pair a e" | "check_exact e a = Ok ()" by (auto split: if_splits)
    then show ?thesis
    proof cases
      case 1
      with coercible_pair_coerces ty nv by_value_words words show ?thesis by blast
    next
      case 2
      from coerce_conforming [OF check_exact_typing [OF 2 ex ac ty less.prems(6)]] show ?thesis by blast
    qed
  qed
qed

section \<open>Scalars, and joins of branches\<close>

fun is_scalar :: "type_tag \<Rightarrow> bool" where
  "is_scalar t \<longleftrightarrow> t \<in> {TString, TInt, TFloat, TBool, TPipe, THandle, TDuration, TPath, TSemaphore, TPermit}"

fun scalar_word :: "dvalue \<Rightarrow> type_tag option" where
  "scalar_word (VStr s) = Some TString"
| "scalar_word (VInt n) = Some TInt"
| "scalar_word (VFloat f) = Some TFloat"
| "scalar_word (VBool b) = Some TBool"
| "scalar_word (VPipe p) = Some TPipe"
| "scalar_word (VHandle h) = Some THandle"
| "scalar_word (VDuration d) = Some TDuration"
| "scalar_word (VPath p) = Some TPath"
| "scalar_word (VSemaphore s) = Some TSemaphore"
| "scalar_word (VPermit p) = Some TPermit"
| "scalar_word _ = None"

lemma scalar_typing: "is_scalar t \<Longrightarrow> has_type t v \<longleftrightarrow> scalar_word v = Some t"
  by (cases t rule: type_tag.exhaust; cases v rule: dvalue.exhaust)
     (simp_all add: has_type_scalar_iff reader_defs)

declare is_scalar.simps [simp del]

fun coerces_to :: "dvalue \<Rightarrow> type_tag \<Rightarrow> bool" where
  "coerces_to (VStr s) e \<longleftrightarrow> (e = TBool \<and> parse_bool_str s \<noteq> None) \<or> (e = TDuration \<and> is_ok (parse_duration (trim s))) \<or> e = TPath"
| "coerces_to (VInt n) e \<longleftrightarrow> e = TString \<or> e = TFloat \<or> (e = TBool \<and> (n = 1 \<or> n = 0))"
| "coerces_to (VFloat f) e \<longleftrightarrow> e = TString"
| "coerces_to (VBool b) e \<longleftrightarrow> e = TString"
| "coerces_to (VDuration d) e \<longleftrightarrow> e = TString"
| "coerces_to (VPath p) e \<longleftrightarrow> e = TString"
| "coerces_to _ e \<longleftrightarrow> False"

lemma coerce_rest_ok: "is_ok (coerce_rest F v e) \<longleftrightarrow> coerces_to v e"
proof (cases v)
  case (VStr s)
  then show ?thesis
    by (cases e rule: type_tag.exhaust)
       (simp_all add: coerce_rest_def as_str_def coerce_string_def split: option.split sum.split)
qed (simp_all add: coerce_rest_def as_str_def coerce_scalar_def)

lemma scalar_rejection:
  assumes "is_scalar a" "is_scalar e" "check_arg_ty e a \<noteq> Ok ()" "has_type a v"
  shows "is_ok (coerce_value F v e) \<longleftrightarrow> a = TInt \<and> e = TBool \<and> (v = VInt 0 \<or> v = VInt 1)"
proof -
  have ne: "\<not> tags_equal e a" "e \<noteq> TAny" "a \<noteq> TAny" "\<not> is_union a" "\<not> is_union e"
  proof -
    show "e \<noteq> TAny" "a \<noteq> TAny" "\<not> is_union a" "\<not> is_union e" using assms(1,2) by (auto simp: is_scalar.simps)
    then show "\<not> tags_equal e a"
      using assms(3) [unfolded check_arg_ty.simps [of e a]] by (auto simp del: tags_equal.simps)
  qed
  have nc: "\<not> coercible_pair a e" using assms(3) check_arg_words [OF ne(4,5,2,3,1)] by auto
  have nt: "\<not> has_type e v" using assms(1,2,4) ne(1) by (auto simp: scalar_typing)
  have sc: "coerce_value F v e = coerce_rest F v e"
  proof -
    obtain err where "check_value e v = Err err" using nt check_value_ok [of e v] by (cases "check_value e v") auto
    then show ?thesis using assms(2) by (auto simp: is_scalar.simps)
  qed
  show ?thesis
    unfolding sc coerce_rest_ok using assms(4) [unfolded scalar_typing [OF assms(1)]] nc
    by (cases v rule: dvalue.exhaust) (auto simp: coercible_pair_def)
qed

lemma maplike_typing: "is_maplike t \<Longrightarrow> has_type t v \<Longrightarrow> \<exists>m. v = VMap m"
  by (cases t rule: type_tag.exhaust) (auto simp: has_type_iff)

lemma listlike_typing: "is_listlike t \<Longrightarrow> has_type t v \<Longrightarrow> \<exists>xs. v = VList xs"
  by (cases t rule: type_tag.exhaust) (auto simp: has_type_iff)

section \<open>Properties\<close>

text \<open>C32. Exact shape compatibility is sound: when \<open>check_exact\<close> lets an actual shape into an
  expected one, every value of the actual shape whose maps have distinct keys has the expected type, through nested
  lists, maps, records in any field order and unions in any member order. The actual
  shape has no \<open>ANY\<close> and no optional field inside, the unions of the expected one are deduplicated and equal
  addresses mean equal descriptors and field tables.\<close>

theorem check_exact_sound:
  assumes "check_exact e a = Ok ()" "exact_expected D R e" "exact_actual D R a" "has_type a v" "wf_value v"
  shows "has_type e v"
  using assms by (rule check_exact_typing)

theorem check_exact_sound_witness:
  "has_type (TMapOf (union_tag [TInt, TString])) (VMap [(''a'', VInt 1), (''b'', VStr ''x'')])"
proof -
  let ?fs = "[Field ''a'' TInt False, Field ''b'' TString False]"
  let ?e = "TMapOf (union_tag [TInt, TString])" and ?a = "TRecord 0 ?fs"
  let ?v = "VMap [(''a'', VInt 1), (''b'', VStr ''x'')]"
  have 1: "check_exact ?e ?a = Ok ()"
    by (simp add: check_exact.simps union_tag_def)
  have 2: "exact_expected (\<lambda>_. []) (\<lambda>_. ?fs) ?e" "exact_actual (\<lambda>_. []) (\<lambda>_. ?fs) ?a"
    by (simp_all add: exact_expected_def exact_actual_def union_tag_def)
  have 3: "has_type ?a ?v" "wf_value ?v"
    by (simp_all add: has_type_Record_iff field_ok_def has_type_scalar_iff reader_defs)
  show ?thesis by (rule check_exact_sound [OF 1 2 3])
qed

text \<open>What the static argument check admits the runtime accepts: for an argument whose
  static type is exact and whose admission does not go through one of the pairs decided
  by the value, \<open>check_arg\<close> saying yes means that \<open>coerce_value\<close> succeeds on every value of
  that type, and gives a value of the parameter's type.\<close>

theorem check_arg_sound:
  assumes "check_arg e (Ty a) = Ok ()" "exact_expected D R e" "exact_actual D R a" "\<not> by_value e a"
    and "has_type a v" "wf_value v"
  shows "\<exists>c. coerce_value F v e = Ok c \<and> has_type e c"
  using check_arg_coerces [OF assms(1) [unfolded check_arg_def static_ty.case] assms(2-6)] coerce_typed by blast

theorem check_arg_sound_witness:
  "\<forall>F. \<exists>c. coerce_value F (VInt 7) (union_tag [TPipe, TString]) = Ok c \<and> has_type (union_tag [TPipe, TString]) c"
proof
  fix F
  let ?e = "union_tag [TPipe, TString]"
  have 1: "check_arg ?e (Ty TInt) = Ok ()"
    by (simp add: check_arg_def check_arg_ty.simps union_tag_def coercible_pair_def)
  have 2: "exact_expected (\<lambda>_. []) (\<lambda>_. []) ?e" "exact_actual (\<lambda>_. []) (\<lambda>_. []) TInt" "\<not> by_value ?e TInt"
    by (simp_all add: exact_expected_def exact_actual_def union_tag_def by_value.simps decided_by_value_def)
  have 3: "has_type TInt (VInt 7)" "wf_value (VInt 7)" by (simp_all add: has_type_scalar_iff reader_defs)
  show "\<exists>c. coerce_value F (VInt 7) ?e = Ok c \<and> has_type ?e c" by (rule check_arg_sound [OF 1 2 3])
qed

text \<open>Where the two layers part: for scalar words, a rejection by the static argument check
  means the runtime would reject too, with one exception, the integers 0 and 1 at a \<open>BOOL\<close>
  position, which the runtime coerces and the table of coercible pairs leaves out.\<close>

theorem static_rejection_agrees:
  assumes "is_scalar a" "is_scalar e" "check_arg e (Ty a) \<noteq> Ok ()" "has_type a v"
  shows "is_ok (coerce_value F v e) \<longleftrightarrow> a = TInt \<and> e = TBool \<and> (v = VInt 0 \<or> v = VInt 1)"
  using assms by (simp add: check_arg_def scalar_rejection)

theorem static_rejection_agrees_witness:
  "\<forall>F. is_ok (coerce_value F (VInt 1) TBool) \<and> \<not> is_ok (coerce_value F (VInt 2) TBool)"
proof -
  have "check_arg TBool (Ty TInt) \<noteq> Ok ()"
    by (simp add: check_arg_def check_arg_ty.simps coercible_pair_def exact_pair_def)
  then show ?thesis
    using static_rejection_agrees [of TInt TBool "VInt 1"] static_rejection_agrees [of TInt TBool "VInt 2"]
    by (simp add: has_type_scalar_iff reader_defs is_scalar.simps del: coerce_value.simps)
qed

text \<open>Joining two branches only widens: a value of either branch's type has the type
  \<open>unify\<close> gives the join.\<close>

theorem unify_upper_bound:
  assumes "unify l r = Ok t" "wf_tag D R l" "wf_tag D R r" "dedup l" "has_type l v \<or> has_type r v"
  shows "has_type t v"
proof (cases "tags_equal l r")
  case True
  then have "t = l" using assms(1) by (simp add: unify_def)
  with tags_equal_typing [OF tags_equal_sym [OF assms(4) True]] assms(2,3,5) show ?thesis by blast
next
  case False
  with assms(1,5) show ?thesis
    by (auto simp: unify_def has_type_bare_iff dest: maplike_typing listlike_typing split: if_splits)
qed

theorem unify_upper_bound_witness:
  "has_type TMap (VMap [(''k'', VBool True)])"
proof -
  have "unify (TMapOf TBool) (TRecord 0 []) = Ok TMap" by (simp add: unify_def)
  moreover have "has_type (TMapOf TBool) (VMap [(''k'', VBool True)])"
    by (auto simp: has_type_MapOf_iff has_type_scalar_iff reader_defs)
  ultimately show ?thesis
    using unify_upper_bound [of "TMapOf TBool" "TRecord 0 []" TMap "\<lambda>_. []" "\<lambda>_. []"] by simp
qed

end
