(* ===== verification/Spelling.thy ===== *)
theory Spelling
  imports Values
begin

text \<open>Type spellings (\<open>oxdock-parser/src/tag.rs\<close>): the parsed form \<open>Spelled\<close>, its canonical
  renderer, the hand-rolled parser with its depth budget, and canonicalization. The
  parser's mutual recursion is one recursive function over the remaining text.\<close>

section \<open>Operations\<close>

datatype spelled =
    SNamed string
  | SGeneric string "spelled_field list"
  | SUnion "spelled list"
and spelled_field = SField (sf_name: "string option") (sf_optional: bool) (sf_ty: spelled)

definition MAX_GENERIC_DEPTH :: nat where
  "MAX_GENERIC_DEPTH = 8"

lemma sf_ty_size [termination_simp]: "size (sf_ty f) < size f"
  by (cases f) simp

lemma sf_ty_size_list [termination_simp]:
  "f \<in> set fs \<Longrightarrow> size (sf_ty f) < Suc (size_list size fs)"
  by (metis sf_ty_size less_SucI less_trans size_list_estimation)

fun render_spelled :: "spelled \<Rightarrow> string" where
  "render_spelled (SNamed n) = n"
| "render_spelled (SUnion ms) = join_with ''|'' (map render_spelled ms)"
| "render_spelled (SGeneric n args) =
     n @ ''<'' @ join_with '', '' (map (\<lambda>f. case sf_name f of
         Some fname \<Rightarrow> fname @ (if sf_optional f then ''?'' else []) @ '': '' @ render_spelled (sf_ty f)
       | None \<Rightarrow> render_spelled (sf_ty f)) args) @ ''>''"

definition strip_ws :: "string \<Rightarrow> string" where
  "strip_ws s = filter (\<lambda>c. \<not> is_whitespace c) s"

definition type_name_char :: "char \<Rightarrow> bool" where
  "type_name_char c \<longleftrightarrow> is_ascii_uppercase c \<or> is_ascii_digit c \<or> c = CHR ''_''"

definition field_name_char :: "char \<Rightarrow> bool" where
  "field_name_char c \<longleftrightarrow> is_ascii_lowercase c \<or> is_ascii_digit c \<or> c = CHR ''_''"

datatype spelling_error =
    TooDeep string
  | EndOfSpelling
  | NotUppercase char
  | ExpectedCommaOrClose string
  | Trailing string
  | OutOfFuel

text \<open>\<open>parse_spelled_field_name\<close>: the optional \<open>field:\<close> or \<open>field?:\<close> prefix of an argument.\<close>

definition parse_spelled_field_name :: "string \<Rightarrow> string option \<times> bool \<times> string" where
  "parse_spelled_field_name text =
     (case text of
        [] \<Rightarrow> (None, False, text)
      | first # more \<Rightarrow>
          if \<not> is_ascii_lowercase first then (None, False, text)
          else
            (let candidate = first # takeWhile field_name_char more;
                 rest = dropWhile field_name_char more;
                 (optional, rest') = (case strip_prefix ''?'' rest of Some after \<Rightarrow> (True, after) | None \<Rightarrow> (False, rest))
             in case strip_prefix '':'' rest' of
                  Some after \<Rightarrow> (Some candidate, optional, after)
                | None \<Rightarrow> (None, False, text)))"

text \<open>The name at the head of a shape.\<close>

definition parse_shape_name :: "string \<Rightarrow> spelling_error + (string \<times> string)" where
  "parse_shape_name text =
     (case text of
        [] \<Rightarrow> Err EndOfSpelling
      | first # more \<Rightarrow>
          if \<not> is_ascii_uppercase first then Err (NotUppercase first)
          else Ok (first # takeWhile type_name_char more, dropWhile type_name_char more))"

text \<open>The two loops of the parser, over the parser of the items. Each turn consumes input,
  so the length of the text is enough fuel; running out of it would be \<open>OutOfFuel\<close>.\<close>

fun union_tail :: "nat \<Rightarrow> (string \<Rightarrow> spelling_error + spelled \<times> string) \<Rightarrow> string \<Rightarrow>
    spelling_error + spelled list \<times> string" where
  "union_tail 0 p rest = Err OutOfFuel"
| "union_tail (Suc k) p rest =
     (case strip_prefix ''|'' rest of
        None \<Rightarrow> Ok ([], rest)
      | Some tail \<Rightarrow>
          bind_result (p tail) (\<lambda>(next, after).
            bind_result (union_tail k p after) (\<lambda>(ms, r). Ok (next # ms, r))))"

definition one_with :: "(string \<Rightarrow> spelling_error + spelled \<times> string) \<Rightarrow> string \<Rightarrow> spelling_error + spelled \<times> string" where
  "one_with p text =
     bind_result (p text) (\<lambda>(first, rest).
       if \<not> prefix ''|'' rest then Ok (first, rest)
       else bind_result (union_tail (Suc (length rest)) p rest) (\<lambda>(ms, r). Ok (SUnion (first # ms), r)))"

fun args_loop :: "nat \<Rightarrow> (string \<Rightarrow> spelling_error + spelled \<times> string) \<Rightarrow> string \<Rightarrow>
    spelling_error + spelled_field list \<times> string" where
  "args_loop 0 q rest = Err OutOfFuel"
| "args_loop (Suc k) q rest =
     (case parse_spelled_field_name rest of
        (fname, optional, after_name) \<Rightarrow>
          bind_result (q after_name) (\<lambda>(arg, after_arg).
            case strip_prefix '','' after_arg of
              Some tail \<Rightarrow>
                bind_result (args_loop k q tail) (\<lambda>(more, r). Ok (SField fname optional arg # more, r))
            | None \<Rightarrow>
                (case strip_prefix ''>'' after_arg of
                   Some tail \<Rightarrow> Ok ([SField fname optional arg], tail)
                 | None \<Rightarrow> Err (ExpectedCommaOrClose after_arg))))"

text \<open>The first argument is the depth budget left: \<open>MAX_GENERIC_DEPTH + 1 - depth\<close>, which is
  zero exactly when \<open>depth > MAX_GENERIC_DEPTH\<close>.\<close>

fun parse_spelled_shape :: "nat \<Rightarrow> string \<Rightarrow> spelling_error + spelled \<times> string" where
  "parse_spelled_shape 0 text = Err (TooDeep text)"
| "parse_spelled_shape (Suc b) text =
     bind_result (parse_shape_name text) (\<lambda>(name, rest).
       case strip_prefix ''<'' rest of
         None \<Rightarrow> Ok (SNamed name, rest)
       | Some r \<Rightarrow>
           bind_result (args_loop (Suc (length r)) (one_with (parse_spelled_shape b)) r) (\<lambda>(args, r').
             Ok (SGeneric name args, r')))"

definition parse_spelled_one :: "nat \<Rightarrow> string \<Rightarrow> spelling_error + spelled \<times> string" where
  "parse_spelled_one b = one_with (parse_spelled_shape b)"

definition parse_spelling :: "string \<Rightarrow> spelling_error + spelled" where
  "parse_spelling s =
     bind_result (parse_spelled_one (Suc MAX_GENERIC_DEPTH) (strip_ws s)) (\<lambda>(sp, rest).
       if rest \<noteq> [] then Err (Trailing rest) else Ok sp)"

definition canonicalize_spelling :: "string \<Rightarrow> string" where
  "canonicalize_spelling s =
     (case parse_spelling (strip_ws s) of Ok sp \<Rightarrow> render_spelled sp | Err _ \<Rightarrow> trim s)"

section \<open>Canonical forms\<close>

definition type_word :: "string \<Rightarrow> bool" where
  "type_word n \<longleftrightarrow> n \<noteq> [] \<and> is_ascii_uppercase (hd n) \<and> list_all type_name_char n"

definition field_word :: "string \<Rightarrow> bool" where
  "field_word n \<longleftrightarrow> n \<noteq> [] \<and> is_ascii_lowercase (hd n) \<and> list_all field_name_char n"

fun is_sunion :: "spelled \<Rightarrow> bool" where
  "is_sunion (SUnion ms) = True"
| "is_sunion _ = False"

fun wf_spelled :: "spelled \<Rightarrow> bool" where
  "wf_spelled (SNamed n) = type_word n"
| "wf_spelled (SGeneric n args) =
     (type_word n \<and> args \<noteq> [] \<and>
      list_all (\<lambda>f. (case sf_name f of None \<Rightarrow> \<not> sf_optional f | Some fn \<Rightarrow> field_word fn) \<and> wf_spelled (sf_ty f)) args)"
| "wf_spelled (SUnion ms) =
     (2 \<le> length ms \<and> list_all (\<lambda>m. wf_spelled m \<and> \<not> is_sunion m) ms)"

fun spelled_depth :: "spelled \<Rightarrow> nat" where
  "spelled_depth (SNamed n) = 0"
| "spelled_depth (SGeneric n args) = Suc (fold max (map (\<lambda>f. spelled_depth (sf_ty f)) args) 0)"
| "spelled_depth (SUnion ms) = fold max (map spelled_depth ms) 0"

text \<open>The canonical form without its spaces: what the parser sees.\<close>

fun compact :: "spelled \<Rightarrow> string" where
  "compact (SNamed n) = n"
| "compact (SUnion ms) = join_with ''|'' (map compact ms)"
| "compact (SGeneric n args) =
     n @ ''<'' @ join_with '','' (map (\<lambda>f. (case sf_name f of
         Some fname \<Rightarrow> fname @ (if sf_optional f then ''?'' else []) @ '':'' | None \<Rightarrow> []) @ compact (sf_ty f)) args) @ ''>''"

lemma fold_max_le: "fold max xs (a :: nat) \<le> b \<longleftrightarrow> a \<le> b \<and> (\<forall>x \<in> set xs. x \<le> b)"
  by (induction xs arbitrary: a) auto

lemma strip_ws_Nil [simp]: "strip_ws [] = []"
  by (simp add: strip_ws_def)

lemma strip_ws_Cons: "strip_ws (c # s) = (if is_whitespace c then strip_ws s else c # strip_ws s)"
  by (simp add: strip_ws_def)

lemma strip_ws_append [simp]: "strip_ws (a @ b) = strip_ws a @ strip_ws b"
  by (simp add: strip_ws_def)

lemma strip_ws_join: "strip_ws (join_with sep xs) = join_with (strip_ws sep) (map strip_ws xs)"
  by (induction sep xs rule: join_with.induct) auto

lemma strip_ws_solid: "list_all (\<lambda>c. \<not> is_whitespace c) s \<Longrightarrow> strip_ws s = s"
  by (simp add: strip_ws_def list_all_iff filter_id_conv)

lemma type_word_solid: "type_word n \<Longrightarrow> strip_ws n = n"
  by (rule strip_ws_solid) (auto simp: type_word_def type_name_char_def list_all_iff char_class_defs)

lemma field_word_solid: "field_word n \<Longrightarrow> strip_ws n = n"
  by (rule strip_ws_solid) (auto simp: field_word_def field_name_char_def list_all_iff char_class_defs)

lemma punct_solid [simp]:
  "\<not> is_whitespace CHR ''|''" "\<not> is_whitespace CHR ''<''" "\<not> is_whitespace CHR '',''"
  "\<not> is_whitespace CHR ''>''" "\<not> is_whitespace CHR '':''" "\<not> is_whitespace CHR ''?''" "is_whitespace CHR '' ''"
  by (simp_all add: char_class_defs)

lemma strip_ws_field:
  assumes "case sf_name f of None \<Rightarrow> \<not> sf_optional f | Some fn \<Rightarrow> field_word fn"
    and "strip_ws (render_spelled (sf_ty f)) = compact (sf_ty f)"
  shows "strip_ws (case sf_name f of
         Some fname \<Rightarrow> fname @ (if sf_optional f then ''?'' else []) @ '': '' @ render_spelled (sf_ty f)
       | None \<Rightarrow> render_spelled (sf_ty f)) =
     (case sf_name f of
         Some fname \<Rightarrow> fname @ (if sf_optional f then ''?'' else []) @ '':'' | None \<Rightarrow> []) @ compact (sf_ty f)"
  using assms by (cases "sf_name f") (auto simp: strip_ws_Cons field_word_solid)

lemma strip_ws_render: "wf_spelled sp \<Longrightarrow> strip_ws (render_spelled sp) = compact sp"
proof (induction sp rule: wf_spelled.induct)
  case (2 n args)
  then show ?case
    by (simp add: strip_ws_join strip_ws_Cons type_word_solid comp_def list_all_iff strip_ws_field cong: map_cong)
next
  case (3 ms)
  then show ?case by (simp add: strip_ws_join strip_ws_Cons list_all_iff comp_def cong: map_cong)
qed (simp add: type_word_solid)

section \<open>Parsing a canonical form\<close>

text \<open>Where a name ends: the text that follows does not continue it and opens no argument.\<close>

definition ends_shape :: "string \<Rightarrow> bool" where
  "ends_shape k \<longleftrightarrow> (case k of [] \<Rightarrow> True | c # _ \<Rightarrow> \<not> type_name_char c \<and> c \<noteq> CHR ''<'')"

lemma ends_shape_punct [simp]:
  "ends_shape (CHR ''|'' # k)" "ends_shape (CHR '','' # k)" "ends_shape (CHR ''>'' # k)" "ends_shape []"
  by (simp_all add: ends_shape_def type_name_char_def char_class_defs)

lemma takeWhile_stop: "list_all P a \<Longrightarrow> (case k of [] \<Rightarrow> True | c # _ \<Rightarrow> \<not> P c) \<Longrightarrow> takeWhile P (a @ k) = a \<and> dropWhile P (a @ k) = k"
  by (induction a) (auto split: list.splits)

lemma parse_shape_name_word:
  assumes "type_word n" "case k of [] \<Rightarrow> True | c # _ \<Rightarrow> \<not> type_name_char c"
  shows "parse_shape_name (n @ k) = Ok (n, k)"
proof -
  obtain c cs where n: "n = c # cs" using assms(1) by (cases n) (auto simp: type_word_def)
  with assms takeWhile_stop [of type_name_char cs k] show ?thesis
    by (simp add: parse_shape_name_def type_word_def)
qed

lemma parse_field_name_none:
  assumes "type_word n"
  shows "parse_spelled_field_name (n @ k) = (None, False, n @ k)"
proof -
  obtain c cs where n: "n = c # cs" "is_ascii_uppercase c" using assms by (cases n) (auto simp: type_word_def)
  then have "\<not> is_ascii_lowercase c" by (simp add: char_class_defs)
  with n show ?thesis by (simp add: parse_spelled_field_name_def)
qed

lemma parse_field_name_some:
  assumes "field_word fn"
  shows "parse_spelled_field_name (fn @ (if opt then ''?'' else []) @ '':'' @ k) = (Some fn, opt, k)"
proof -
  obtain c cs where fn: "fn = c # cs" using assms by (cases fn) (auto simp: field_word_def)
  have stop: "\<not> field_name_char CHR ''?''" "\<not> field_name_char CHR '':''"
    by (simp_all add: field_name_char_def char_class_defs)
  from takeWhile_stop [of field_name_char cs "(if opt then ''?'' else []) @ '':'' @ k"] assms stop
  show ?thesis by (cases opt) (simp_all add: parse_spelled_field_name_def field_word_def fn)
qed

text \<open>A parser of shapes that reads back canonical shapes of a class \<open>W\<close>.\<close>

definition reads_shapes :: "(spelled \<Rightarrow> bool) \<Rightarrow> (string \<Rightarrow> spelling_error + spelled \<times> string) \<Rightarrow> bool" where
  "reads_shapes W p \<longleftrightarrow> (\<forall>m k. W m \<longrightarrow> ends_shape k \<longrightarrow> p (compact m @ k) = Ok (m, k))"

lemma union_tail_reads:
  assumes "reads_shapes W p" "list_all W ms" "ends_shape k" "\<not> prefix ''|'' k" "length ms < fuel"
  shows "union_tail fuel p (concat (map (\<lambda>m. CHR ''|'' # compact m) ms) @ k) = Ok (ms, k)"
  using assms(2,5)
proof (induction ms arbitrary: fuel)
  case Nil
  then show ?case
    using assms(4) by (cases fuel) (auto simp: strip_prefix_None_iff [symmetric] simp del: strip_prefix.simps)
next
  case (Cons m ms)
  let ?rest = "concat (map (\<lambda>m. CHR ''|'' # compact m) ms) @ k"
  obtain fuel' where fuel: "fuel = Suc fuel'" using Cons.prems(2) by (cases fuel) auto
  have "ends_shape ?rest" using assms(3) by (cases ms) simp_all
  then have "p (compact m @ ?rest) = Ok (m, ?rest)" using assms(1) Cons.prems(1) by (simp add: reads_shapes_def)
  with Cons fuel show ?case by simp
qed

lemma join_as_concat: "join_with [d] (x # xs) = x @ concat (map (\<lambda>y. d # y) xs)"
  by (induction xs arbitrary: x) simp_all

lemma length_le_concat: "length ms \<le> length (concat (map (\<lambda>m. c # f m) ms) @ k)"
  by (induction ms) auto

text \<open>What \<open>one_with\<close> reads back: a shape, or a union of at least two shapes.\<close>

definition one_ok :: "(spelled \<Rightarrow> bool) \<Rightarrow> spelled \<Rightarrow> bool" where
  "one_ok W sp \<longleftrightarrow>
     (\<not> is_sunion sp \<and> W sp) \<or> (\<exists>m n ms. sp = SUnion (m # n # ms) \<and> list_all W (m # n # ms))"

lemma one_with_reads:
  assumes "reads_shapes W p" "one_ok W sp" "ends_shape k" "\<not> prefix ''|'' k"
  shows "one_with p (compact sp @ k) = Ok (sp, k)"
  using assms(2) unfolding one_ok_def
proof (elim disjE exE conjE)
  assume "W sp"
  with assms show ?thesis by (simp add: one_with_def reads_shapes_def)
next
  fix m n ms assume sp: "sp = SUnion (m # n # ms)" "list_all W (m # n # ms)"
  let ?rest = "concat (map (\<lambda>m. CHR ''|'' # compact m) (n # ms)) @ k"
  have body: "compact sp @ k = compact m @ ?rest"
    using join_as_concat [of "CHR ''|''" "compact m" "map compact (n # ms)"] by (simp add: sp comp_def)
  have first: "p (compact m @ ?rest) = Ok (m, ?rest)"
    using assms(1) sp(2) by (simp add: reads_shapes_def)
  have "union_tail (Suc (length ?rest)) p ?rest = Ok (n # ms, k)"
    by (rule union_tail_reads [OF assms(1) _ assms(3,4)])
       (use sp(2) length_le_concat [of "n # ms" "CHR ''|''" compact k] in \<open>simp_all del: length_append\<close>)
  with first show ?thesis unfolding body one_with_def by (simp add: sp)
qed

definition compact_field :: "spelled_field \<Rightarrow> string" where
  "compact_field f = (case sf_name f of
     Some fname \<Rightarrow> fname @ (if sf_optional f then ''?'' else []) @ '':'' | None \<Rightarrow> []) @ compact (sf_ty f)"

definition field_head_ok :: "spelled_field \<Rightarrow> bool" where
  "field_head_ok f \<longleftrightarrow> (case sf_name f of None \<Rightarrow> \<not> sf_optional f | Some fn \<Rightarrow> field_word fn)"

lemma wf_compact_head: "wf_spelled sp \<Longrightarrow> \<exists>n r. type_word n \<and> compact sp = n @ r"
proof (induction sp rule: wf_spelled.induct)
  case (3 ms)
  then obtain m n ms' where ms: "ms = m # n # ms'" by (cases ms; cases "tl ms") auto
  with 3(2) have "wf_spelled m" by simp
  with 3(1) [of m] ms obtain w r where "type_word w" "compact m = w @ r" by auto
  then show ?case using ms by auto
qed auto

lemma parse_field_head:
  assumes "field_head_ok f" "wf_spelled (sf_ty f)"
  shows "parse_spelled_field_name (compact_field f @ k) = (sf_name f, sf_optional f, compact (sf_ty f) @ k)"
proof (cases "sf_name f")
  case None
  obtain n r where "type_word n" "compact (sf_ty f) = n @ r" using wf_compact_head [OF assms(2)] by blast
  then show ?thesis using assms(1) None parse_field_name_none [of n "r @ k"]
    by (simp add: compact_field_def field_head_ok_def)
next
  case (Some fn)
  then show ?thesis using assms(1) parse_field_name_some [of fn "sf_optional f" "compact (sf_ty f) @ k"]
    by (simp add: compact_field_def field_head_ok_def)
qed

lemma args_loop_reads:
  assumes q: "\<And>f k. f \<in> set args \<Longrightarrow> ends_shape k \<Longrightarrow> \<not> prefix ''|'' k \<Longrightarrow> q (compact (sf_ty f) @ k) = Ok (sf_ty f, k)"
    and "args \<noteq> []" "\<forall>f \<in> set args. field_head_ok f \<and> wf_spelled (sf_ty f)" "length args \<le> fuel"
  shows "args_loop fuel q (join_with '','' (map compact_field args) @ ''>'' @ k) = Ok (args, k)"
  using assms
proof (induction args arbitrary: fuel)
  case (Cons f args)
  obtain fuel' where fuel: "fuel = Suc fuel'" using Cons.prems(4) by (cases fuel) auto
  have f: "field_head_ok f" "wf_spelled (sf_ty f)" using Cons.prems(3) by auto
  have eta: "SField (sf_name f) (sf_optional f) (sf_ty f) = f" by simp
  show ?case
  proof (cases args)
    case Nil
    have "q (compact (sf_ty f) @ ''>'' @ k) = Ok (sf_ty f, ''>'' @ k)" by (rule Cons.prems(1)) simp_all
    then show ?thesis using parse_field_head [OF f, of "''>'' @ k"] Nil fuel by simp
  next
    case (Cons g gs)
    let ?rest = "join_with '','' (map compact_field args) @ ''>'' @ k"
    have "q (compact (sf_ty f) @ '','' @ ?rest) = Ok (sf_ty f, '','' @ ?rest)"
      by (rule Cons.prems(1)) simp_all
    moreover have "args_loop fuel' q ?rest = Ok (args, k)"
      by (rule Cons.IH) (use Cons.prems Cons fuel in auto)
    ultimately show ?thesis using parse_field_head [OF f, of "'','' @ ?rest"] Cons fuel by simp
  qed
qed simp

lemma depth_generic: "f \<in> set args \<Longrightarrow> spelled_depth (SGeneric n args) \<le> b \<Longrightarrow> spelled_depth (sf_ty f) < b"
  using fold_max_le [of "map (\<lambda>f. spelled_depth (sf_ty f)) args" 0 "b - 1"] by (cases b) auto

lemma depth_union: "m \<in> set ms \<Longrightarrow> spelled_depth (SUnion ms) < b \<Longrightarrow> spelled_depth m < b"
  using fold_max_le [of "map spelled_depth ms" 0 "b - 1"] by (cases b) auto

definition shape_ok :: "nat \<Rightarrow> spelled \<Rightarrow> bool" where
  "shape_ok b m \<longleftrightarrow> wf_spelled m \<and> \<not> is_sunion m \<and> spelled_depth m < b"

lemma one_ok_wf:
  assumes "wf_spelled sp" "spelled_depth sp < b"
  shows "one_ok (shape_ok b) sp"
proof (cases sp)
  case (SUnion ms)
  then obtain m n ms' where ms: "ms = m # n # ms'" using assms(1) by (cases ms; cases "tl ms") auto
  have "list_all (shape_ok b) ms"
    using assms SUnion depth_union [of _ ms b] by (auto simp: list_all_iff shape_ok_def)
  with SUnion ms show ?thesis by (auto simp: one_ok_def)
qed (use assms in \<open>auto simp: one_ok_def shape_ok_def\<close>)

lemma length_args_fuel: "length xs \<le> Suc (length (join_with [d] (map f xs) @ k))"
proof (cases xs)
  case (Cons y ys)
  have "length ys \<le> length (concat (map (\<lambda>z. d # f z) ys) @ k)" by (rule length_le_concat)
  moreover have "join_with [d] (map f xs) = f y @ concat (map (\<lambda>z. d # f z) ys)"
    using join_as_concat [of d "f y" "map f ys"] by (simp add: Cons comp_def)
  ultimately show ?thesis by (simp add: Cons)
qed simp

lemma shape_reads: "reads_shapes (shape_ok b) (parse_spelled_shape b)"
proof (induction b)
  case 0
  then show ?case by (simp add: reads_shapes_def shape_ok_def)
next
  case (Suc b)
  have "parse_spelled_shape (Suc b) (compact m @ k) = Ok (m, k)"
    if m: "shape_ok (Suc b) m" and k: "ends_shape k" for m k
  proof (cases m)
    case (SNamed n)
    have "\<not> prefix ''<'' k" using k by (cases k) (auto simp: ends_shape_def)
    then have "strip_prefix ''<'' k = None" by (simp only: strip_prefix_None_iff not_False_eq_True)
    moreover have "case k of [] \<Rightarrow> True | c # _ \<Rightarrow> \<not> type_name_char c"
      using k by (auto simp: ends_shape_def split: list.splits)
    ultimately show ?thesis
      using m SNamed by (simp add: shape_ok_def parse_shape_name_word del: strip_prefix.simps)
  next
    case (SGeneric n args)
    let ?r = "join_with '','' (map compact_field args) @ ''>'' @ k"
    have w: "type_word n" "args \<noteq> []" "\<forall>f \<in> set args. field_head_ok f \<and> wf_spelled (sf_ty f)"
      using m SGeneric by (auto simp: shape_ok_def list_all_iff field_head_ok_def)
    have body: "compact m @ k = n @ ''<'' @ ?r"
      by (simp add: SGeneric compact_field_def [abs_def])
    have lt: "\<not> type_name_char CHR ''<''" by (simp add: type_name_char_def char_class_defs)
    have "args_loop (Suc (length ?r)) (one_with (parse_spelled_shape b)) ?r = Ok (args, k)"
    proof (rule args_loop_reads [OF _ w(2,3)])
      fix f k' assume f: "f \<in> set args" and k': "ends_shape k'" "\<not> prefix ''|'' k'"
      have "one_ok (shape_ok b) (sf_ty f)"
        using w(3) f m depth_generic [OF f] by (intro one_ok_wf) (auto simp: SGeneric shape_ok_def)
      from one_with_reads [OF Suc.IH this k']
      show "one_with (parse_spelled_shape b) (compact (sf_ty f) @ k') = Ok (sf_ty f, k')" .
    qed (rule length_args_fuel)
    then show ?thesis
      unfolding body using parse_shape_name_word [OF w(1), of "''<'' @ ?r"] lt SGeneric by simp
  next
    case (SUnion ms)
    with m show ?thesis by (simp add: shape_ok_def)
  qed
  then show ?case by (simp add: reads_shapes_def)
qed

lemma parse_render:
  assumes "wf_spelled sp" "spelled_depth sp \<le> MAX_GENERIC_DEPTH"
  shows "parse_spelling (render_spelled sp) = Ok sp"
  using one_with_reads [OF shape_reads one_ok_wf [OF assms(1)], of "Suc MAX_GENERIC_DEPTH" "[]"] assms
  by (simp add: parse_spelling_def parse_spelled_one_def strip_ws_render)

section \<open>What the parser returns\<close>

text \<open>A parser of things in \<open>W\<close> that consumes input and never runs out of fuel.\<close>

definition good_parser :: "('a \<Rightarrow> bool) \<Rightarrow> (string \<Rightarrow> spelling_error + 'a \<times> string) \<Rightarrow> bool" where
  "good_parser W p \<longleftrightarrow>
     (\<forall>t. p t \<noteq> Err OutOfFuel \<and> (\<forall>x r. p t = Ok (x, r) \<longrightarrow> W x \<and> length r < length t))"

lemma good_parserD:
  assumes "good_parser W p"
  shows "p t \<noteq> Err OutOfFuel" "p t = Ok (x, r) \<Longrightarrow> W x" "p t = Ok (x, r) \<Longrightarrow> length r < length t"
  using assms by (auto simp: good_parser_def)

lemma strip_prefix_length: "strip_prefix p s = Some r \<Longrightarrow> length s = length p + length r"
  by (simp add: strip_prefix_Some_iff)

lemma union_tail_good:
  assumes p: "good_parser W p" and "length rest < fuel"
  shows "union_tail fuel p rest \<noteq> Err OutOfFuel \<and>
    (\<forall>ms r. union_tail fuel p rest = Ok (ms, r) \<longrightarrow>
       list_all W ms \<and> length r \<le> length rest \<and> (prefix ''|'' rest \<longrightarrow> ms \<noteq> []))"
  using assms(2)
proof (induction fuel arbitrary: rest)
  case (Suc k)
  show ?case
  proof (cases "strip_prefix ''|'' rest")
    case None
    then have "\<not> prefix ''|'' rest" by (simp only: strip_prefix_None_iff not_False_eq_True)
    with None show ?thesis by simp
  next
    case (Some tail)
    then have len: "length tail < length rest" by (simp add: strip_prefix_length)
    show ?thesis
    proof (cases "p tail")
      case (Inl e)
      with Some good_parserD(1) [OF p, of tail] show ?thesis by simp
    next
      case (Inr q)
      then obtain x after where q: "p tail = Ok (x, after)" by (cases q) auto
      have "length after < k" using good_parserD(3) [OF p q] len Suc.prems by simp
      note IH = Suc.IH [OF this]
      show ?thesis
        using IH Some q good_parserD(2,3) [OF p q] len
        by (cases "union_tail k p after") auto
    qed
  qed
qed simp

lemma one_with_good:
  assumes p: "good_parser W p" and W: "\<And>x. W x \<Longrightarrow> \<not> is_sunion x"
  shows "good_parser (one_ok W) (one_with p)"
  unfolding good_parser_def
proof (intro allI)
  fix t
  show "one_with p t \<noteq> Err OutOfFuel \<and> (\<forall>x r. one_with p t = Ok (x, r) \<longrightarrow> one_ok W x \<and> length r < length t)"
  proof (cases "p t")
    case (Inl e)
    with good_parserD(1) [OF p, of t] show ?thesis by (simp add: one_with_def)
  next
    case (Inr q)
    then obtain x rest where q: "p t = Ok (x, rest)" by (cases q) auto
    note D = good_parserD(2,3) [OF p q]
    show ?thesis
    proof (cases "prefix ''|'' rest")
      case False
      then show ?thesis using q D W by (simp add: one_with_def one_ok_def)
    next
      case True
      with union_tail_good [OF p, of rest "Suc (length rest)"] q D W show ?thesis
        by (cases "union_tail (Suc (length rest)) p rest")
           (auto simp: one_with_def one_ok_def neq_Nil_conv simp del: union_tail.simps)
    qed
  qed
qed

lemma parse_shape_name_good: "good_parser type_word parse_shape_name"
proof -
  have "length (dropWhile P xs) \<le> length xs" for P :: "char \<Rightarrow> bool" and xs by (rule length_dropWhile_le)
  then show ?thesis
    by (auto simp: good_parser_def parse_shape_name_def type_word_def list_all_iff type_name_char_def less_Suc_eq_le
        dest: set_takeWhileD split: list.splits if_splits)
qed

lemma parse_field_name_good:
  assumes "parse_spelled_field_name t = (fname, opt, r)"
  shows "length r \<le> length t \<and> (case fname of None \<Rightarrow> \<not> opt | Some fn \<Rightarrow> field_word fn)"
proof (cases t)
  case (Cons c cs)
  let ?rest = "dropWhile field_name_char cs"
  have le: "length ?rest \<le> length cs" by (rule length_dropWhile_le)
  have word: "field_word (c # takeWhile field_name_char cs)" if "is_ascii_lowercase c"
    using that by (auto simp: field_word_def list_all_iff field_name_char_def dest: set_takeWhileD)
  show ?thesis
    using assms le word
    by (auto simp: Cons parse_spelled_field_name_def Let_def strip_prefix_Some_iff split: if_splits option.splits)
qed (use assms in \<open>simp add: parse_spelled_field_name_def\<close>)

lemma args_loop_good:
  assumes q: "good_parser V q" and "length rest < fuel"
  shows "args_loop fuel q rest \<noteq> Err OutOfFuel \<and>
    (\<forall>args r. args_loop fuel q rest = Ok (args, r) \<longrightarrow>
       args \<noteq> [] \<and> (\<forall>f \<in> set args. field_head_ok f \<and> V (sf_ty f)) \<and> length r \<le> length rest)"
  using assms(2)
proof (induction fuel arbitrary: rest)
  case (Suc k)
  obtain fname opt an where fn: "parse_spelled_field_name rest = (fname, opt, an)"
    by (cases "parse_spelled_field_name rest") auto
  note F = parse_field_name_good [OF fn]
  show ?case
  proof (cases "q an")
    case (Inl e)
    with fn good_parserD(1) [OF q, of an] show ?thesis by simp
  next
    case (Inr pr)
    then obtain arg aa where qa: "q an = Ok (arg, aa)" by (cases pr) auto
    note Q = good_parserD(2,3) [OF q qa]
    have H: "field_head_ok (SField fname opt arg)" using F by (cases fname) (simp_all add: field_head_ok_def)
    show ?thesis
    proof (cases "strip_prefix '','' aa")
      case None
      then show ?thesis using fn qa F Q H
        by (cases "strip_prefix ''>'' aa") (auto simp: strip_prefix_length)
    next
      case (Some tail)
      have "length tail < k" using strip_prefix_length [OF Some] F Q Suc.prems by simp
      from Suc.IH [OF this] strip_prefix_length [OF Some] fn qa F Q H Some show ?thesis
        by (cases "args_loop k q tail") auto
    qed
  qed
qed simp

lemma one_ok_parts:
  assumes "one_ok (shape_ok b) sp"
  shows "wf_spelled sp \<and> spelled_depth sp < b"
proof (cases "is_sunion sp")
  case False
  with assms show ?thesis by (auto simp: one_ok_def shape_ok_def)
next
  case True
  with assms obtain ms where ms: "sp = SUnion ms" "2 \<le> length ms" "list_all (shape_ok b) ms"
    by (auto simp: one_ok_def)
  moreover have "0 < b" using ms(2,3) by (cases ms) (auto simp: shape_ok_def)
  ultimately show ?thesis
    using fold_max_le [of "map spelled_depth ms" 0 "b - 1"]
    by (cases b) (auto simp: list_all_iff shape_ok_def less_Suc_eq_le)
qed

lemma generic_shape_ok:
  assumes "type_word n" "args \<noteq> []" "\<forall>f \<in> set args. field_head_ok f \<and> one_ok (shape_ok b) (sf_ty f)"
  shows "shape_ok (Suc b) (SGeneric n args)"
proof -
  have sub: "\<forall>f \<in> set args. wf_spelled (sf_ty f) \<and> spelled_depth (sf_ty f) < b"
    using assms(3) one_ok_parts by blast
  then have "0 < b" using assms(2) by (cases args) auto
  with sub fold_max_le [of "map (\<lambda>f. spelled_depth (sf_ty f)) args" 0 "b - 1"] assms show ?thesis
    by (cases b) (auto simp: shape_ok_def list_all_iff field_head_ok_def less_Suc_eq_le)
qed

lemma shape_good: "good_parser (shape_ok b) (parse_spelled_shape b)"
proof (induction b)
  case 0
  then show ?case by (simp add: good_parser_def)
next
  case (Suc b)
  have one: "good_parser (one_ok (shape_ok b)) (one_with (parse_spelled_shape b))"
    by (rule one_with_good [OF Suc.IH]) (simp add: shape_ok_def)
  show ?case unfolding good_parser_def
  proof (intro allI)
    fix t
    show "parse_spelled_shape (Suc b) t \<noteq> Err OutOfFuel \<and>
      (\<forall>x r. parse_spelled_shape (Suc b) t = Ok (x, r) \<longrightarrow> shape_ok (Suc b) x \<and> length r < length t)"
    proof (cases "parse_shape_name t")
      case (Inl e)
      with good_parserD(1) [OF parse_shape_name_good, of t] show ?thesis by simp
    next
      case (Inr pr)
      then obtain n rest where n: "parse_shape_name t = Ok (n, rest)" by (cases pr) auto
      note N = good_parserD(2,3) [OF parse_shape_name_good n]
      show ?thesis
      proof (cases "strip_prefix ''<'' rest")
        case None
        then show ?thesis using n N by (simp add: shape_ok_def)
      next
        case (Some r)
        note G = args_loop_good [OF one, of r "Suc (length r)"]
        show ?thesis
          using n N Some G strip_prefix_length [OF Some] generic_shape_ok [OF N(1), of _ b]
          by (cases "args_loop (Suc (length r)) (one_with (parse_spelled_shape b)) r")
             (auto simp del: args_loop.simps)
      qed
    qed
  qed
qed

lemma parse_spelling_good:
  "parse_spelling s \<noteq> Err OutOfFuel \<and>
   (\<forall>sp. parse_spelling s = Ok sp \<longrightarrow> wf_spelled sp \<and> spelled_depth sp \<le> MAX_GENERIC_DEPTH)"
proof -
  have "good_parser (one_ok (shape_ok (Suc MAX_GENERIC_DEPTH))) (parse_spelled_one (Suc MAX_GENERIC_DEPTH))"
    unfolding parse_spelled_one_def by (rule one_with_good [OF shape_good]) (simp add: shape_ok_def)
  from good_parserD [OF this] one_ok_parts show ?thesis
    by (cases "parse_spelled_one (Suc MAX_GENERIC_DEPTH) (strip_ws s)")
       (fastforce simp: parse_spelling_def less_Suc_eq_le split: if_splits)+
qed

lemma strip_ws_idem: "strip_ws (strip_ws s) = strip_ws s"
  by (simp add: strip_ws_def)

lemma filter_dropWhile: "filter (\<lambda>c. \<not> P c) (dropWhile P s) = filter (\<lambda>c. \<not> P c) s"
  by (induction s) auto

lemma strip_ws_trim: "strip_ws (trim s) = strip_ws s"
  by (simp add: strip_ws_def trim_def trim_start_by_def trim_end_by_def rev_filter [symmetric] filter_dropWhile)

lemma dropWhile_fixed: "xs = [] \<or> \<not> P (hd xs) \<Longrightarrow> dropWhile P xs = xs"
  by (cases xs) auto

lemma trim_trim: "trim (trim s) = trim s"
proof -
  let ?P = is_whitespace
  define a where "a = dropWhile ?P s"
  define b where "b = dropWhile ?P (rev a)"
  have t: "trim s = rev b" by (simp add: trim_def trim_start_by_def trim_end_by_def a_def b_def)
  have hb: "b = [] \<or> \<not> ?P (hd b)" unfolding b_def using hd_dropWhile by blast
  have ha: "a = [] \<or> \<not> ?P (hd a)" unfolding a_def using hd_dropWhile by blast
  obtain w where "rev a = w @ b" unfolding b_def by (metis takeWhile_dropWhile_id)
  then have "a = rev b @ rev w" by (metis rev_append rev_rev_ident)
  then have "rev b = [] \<or> \<not> ?P (hd (rev b))" using ha by (cases "rev b") auto
  then have "dropWhile ?P (rev b) = rev b" by (rule dropWhile_fixed)
  then show ?thesis unfolding t using dropWhile_fixed [of b ?P] hb
    by (simp add: trim_def trim_start_by_def trim_end_by_def)
qed

section \<open>Properties\<close>

text \<open>C33. Spellings survive printing: every well-formed spelling within the depth budget,
  rendered in canonical form, parses back to itself.\<close>

theorem spelling_roundtrip:
  assumes "wf_spelled sp" "spelled_depth sp \<le> MAX_GENERIC_DEPTH"
  shows "parse_spelling (render_spelled sp) = Ok sp"
  using assms by (rule parse_render)

theorem spelling_roundtrip_witness:
  "parse_spelling (render_spelled (SGeneric ''MAP'' [SField (Some ''permit'') True (SUnion [SNamed ''INT'', SNamed ''PIPE''])]))
     = Ok (SGeneric ''MAP'' [SField (Some ''permit'') True (SUnion [SNamed ''INT'', SNamed ''PIPE''])])"
  by (rule spelling_roundtrip)
     (simp_all add: type_word_def field_word_def type_name_char_def field_name_char_def char_class_defs
        MAX_GENERIC_DEPTH_def)

text \<open>The parser always answers, and only with what the canonical form can say: on any
  text its loops end within their fuel, and an accepted spelling is well formed and
  nested at most \<open>MAX_GENERIC_DEPTH\<close> deep.\<close>

theorem parse_spelling_total_and_bounded:
  "parse_spelling s \<noteq> Err OutOfFuel \<and>
   (parse_spelling s = Ok sp \<longrightarrow> wf_spelled sp \<and> spelled_depth sp \<le> MAX_GENERIC_DEPTH)"
  using parse_spelling_good by blast

theorem parse_spelling_total_and_bounded_witness:
  "parse_spelling (render_spelled (SNamed ''INT'')) = Ok (SNamed ''INT'') \<and> wf_spelled (SNamed ''INT'')"
proof -
  have "parse_spelling (render_spelled (SNamed ''INT'')) = Ok (SNamed ''INT'')"
    by (rule parse_render) (simp_all add: type_word_def type_name_char_def char_class_defs)
  with parse_spelling_total_and_bounded [of "render_spelled (SNamed ''INT'')" "SNamed ''INT''"]
  show ?thesis by blast
qed

text \<open>Canonicalization is a normal form: canonicalizing twice is canonicalizing once, for
  spellings that parse and for text that does not.\<close>

theorem canonicalize_idempotent:
  "canonicalize_spelling (canonicalize_spelling s) = canonicalize_spelling s"
proof (cases "parse_spelling (strip_ws s)")
  case (Inl e)
  then show ?thesis by (simp add: canonicalize_spelling_def strip_ws_trim trim_trim)
next
  case (Inr sp)
  then have "wf_spelled sp" "spelled_depth sp \<le> MAX_GENERIC_DEPTH" using parse_spelling_good by blast+
  then have "parse_spelling (strip_ws (render_spelled sp)) = Ok sp"
    using parse_render by (simp add: parse_spelling_def strip_ws_idem)
  with Inr show ?thesis by (simp add: canonicalize_spelling_def)
qed

end
