(* ===== verification/Type_Resolution.thy ===== *)
theory Type_Resolution
  imports Spelling Static_Tags
begin

text \<open>Name resolution of types (\<open>oxdock-core/src/exec/typing.rs\<close> and the intern table of
  \<open>oxdock-parser/src/tag.rs\<close>): the directories of one run (descriptors, record schemas,
  script aliases), the process-wide table of composed tags, resolution of a spelling to
  its tag, normalization of unions, collection of aliases and the option check. The
  table is state that outlives a run; the directories belong to one run. A field table
  built from a spelling gets a fresh address.\<close>

section \<open>State\<close>

record directory =
  types :: "string \<Rightarrow> nat option"
  record_schemas :: "string \<Rightarrow> (nat \<times> field list) option"
  type_aliases :: "string \<Rightarrow> string option"

record rstate =
  composed :: "string \<Rightarrow> type_tag option"
  next_table :: nat

datatype resolve_error =
    RTooDeep string
  | BareMap
  | BareList
  | Unregistered string
  | AliasCycle "string list"
  | UnknownType string
  | BadSpelling spelling_error
  | NoTypeArguments string
  | ListArity
  | MapBareArgument
  | EmptyUnion
  | ROutOfFuel

section \<open>Registration\<close>

text \<open>A panic is \<open>None\<close>.\<close>

definition register_type :: "string \<Rightarrow> nat \<Rightarrow> directory \<Rightarrow> directory option" where
  "register_type name d dir =
     (case types dir name of
        Some live \<Rightarrow> if live \<noteq> d then None else Some dir
      | None \<Rightarrow> Some (dir\<lparr>types := (types dir)(name \<mapsto> d)\<rparr>))"

definition register_record_schema :: "string \<Rightarrow> nat \<times> field list \<Rightarrow> directory \<Rightarrow> directory option" where
  "register_record_schema name sch dir =
     (case record_schemas dir name of
        Some live \<Rightarrow>
          if length (snd live) \<noteq> length (snd sch) \<or>
            list_ex (\<lambda>(a, b). field_name a \<noteq> field_name b) (zip (snd live) (snd sch))
          then None else Some dir
      | None \<Rightarrow> Some (dir\<lparr>record_schemas := (record_schemas dir)(name \<mapsto> sch)\<rparr>))"

fun check_tag_known :: "directory \<Rightarrow> type_tag \<Rightarrow> resolve_error + unit" where
  "check_tag_known dir (TCustom d n) = (if types dir n = None then Err (Unregistered n) else Ok ())"
| "check_tag_known dir (TListOf t) = check_tag_known dir t"
| "check_tag_known dir (TMapOf t) = check_tag_known dir t"
| "check_tag_known dir (TRecord r fs) = try_each (\<lambda>f. check_tag_known dir (field_ty f)) fs"
| "check_tag_known dir (TUnion sp ts) = try_each (check_tag_known dir) ts"
| "check_tag_known dir _ = Ok ()"

section \<open>Unions\<close>

definition splice :: "type_tag \<Rightarrow> type_tag list" where
  "splice m = (case m of TUnion sp nested \<Rightarrow> nested | _ \<Rightarrow> [m])"

fun unique_loop :: "type_tag list \<Rightarrow> type_tag list \<Rightarrow> type_tag list" where
  "unique_loop unique [] = unique"
| "unique_loop unique (m # ms) =
     unique_loop (if list_ex (\<lambda>seen. tags_equal seen m) unique then unique else unique @ [m]) ms"

definition finish_union :: "type_tag list \<Rightarrow> resolve_error + type_tag" where
  "finish_union members =
     (let flat = concat (map splice members) in
      if flat = [] then Err EmptyUnion
      else if TAny \<in> set flat then Ok TAny
      else let unique = unique_loop [] flat in
      if length unique = 1 then Ok (last unique) else Ok (union_tag unique))"

section \<open>Resolution\<close>

text \<open>A loop that threads the state and stops at the first error, keeping the state.\<close>

fun map_st :: "('a \<Rightarrow> 's \<Rightarrow> 's \<times> ('e + 'b)) \<Rightarrow> 'a list \<Rightarrow> 's \<Rightarrow> 's \<times> ('e + 'b list)" where
  "map_st f [] st = (st, Ok [])"
| "map_st f (x # xs) st =
     (case f x st of
        (st', Inl e) \<Rightarrow> (st', Err e)
      | (st', Inr y) \<Rightarrow>
          (case map_st f xs st' of
             (st'', Inl e) \<Rightarrow> (st'', Err e)
           | (st'', Inr ys) \<Rightarrow> (st'', Ok (y # ys))))"

lemma map_st_cong [fundef_cong]:
  assumes "xs = ys" "st = st'" "\<And>x s. x \<in> set ys \<Longrightarrow> f x s = g x s"
  shows "map_st f xs st = map_st g ys st'"
  using assms by (induction ys arbitrary: xs st st') (auto split: prod.splits sum.splits)

definition lookup_composed :: "string \<Rightarrow> rstate \<Rightarrow> type_tag option" where
  "lookup_composed canonical st = composed st canonical"

definition intern_composed :: "string \<Rightarrow> type_tag \<Rightarrow> rstate \<Rightarrow> rstate \<times> (resolve_error + type_tag)" where
  "intern_composed canonical t st =
     (case composed st canonical of
        Some hit \<Rightarrow> (st, Ok hit)
      | None \<Rightarrow> (st\<lparr>composed := (composed st)(canonical \<mapsto> t)\<rparr>, Ok t))"

definition new_record :: "field list \<Rightarrow> rstate \<Rightarrow> rstate \<times> (resolve_error + type_tag)" where
  "new_record fs st = (st\<lparr>next_table := next_table st + 1\<rparr>, Ok (TRecord (next_table st) fs))"

type_synonym resolver = "string \<Rightarrow> string list \<Rightarrow> nat \<Rightarrow> rstate \<Rightarrow> rstate \<times> (resolve_error + type_tag)"

text \<open>\<open>build_composed\<close> with \<open>build_generic\<close> as its generic branch, over the resolver of bare
  names.\<close>

fun build_composed :: "resolver \<Rightarrow> spelled \<Rightarrow> string list \<Rightarrow> nat \<Rightarrow> rstate \<Rightarrow> rstate \<times> (resolve_error + type_tag)" where
  "build_composed named (SNamed n) resolving depth st =
     (if depth > MAX_GENERIC_DEPTH then (st, Err (RTooDeep n)) else named n resolving depth st)"
| "build_composed named (SUnion ms) resolving depth st =
     (if depth > MAX_GENERIC_DEPTH then (st, Err (RTooDeep (render_spelled (SUnion ms))))
      else case map_st (\<lambda>m. build_composed named m resolving depth) ms st of
        (st', Inl e) \<Rightarrow> (st', Err e)
      | (st', Inr resolved) \<Rightarrow> (st', finish_union resolved))"
| "build_composed named (SGeneric n args) resolving depth st =
     (if depth > MAX_GENERIC_DEPTH then (st, Err (RTooDeep (render_spelled (SGeneric n args))))
      else if n \<noteq> ''LIST'' \<and> n \<noteq> ''MAP'' then
        (case named n resolving depth st of
           (st', Inl e) \<Rightarrow> (st', Err e)
         | (st', Inr _) \<Rightarrow> (st', Err (NoTypeArguments n)))
      else if n = ''LIST'' then
        (case args of
           [f] \<Rightarrow>
             if sf_name f = None then
               (case build_composed named (sf_ty f) resolving (depth + 1) st of
                  (st', Inl e) \<Rightarrow> (st', Err e)
                | (st', Inr element) \<Rightarrow> (st', Ok (TListOf element)))
             else (st, Err ListArity)
         | _ \<Rightarrow> (st, Err ListArity))
      else if (case args of [f] \<Rightarrow> sf_name f = None \<and> sf_ty f = SNamed ''ANY'' | _ \<Rightarrow> False)
      then (st, Ok (TMapOf TAny))
      else
        (case map_st (\<lambda>f s. case sf_name f of
                 None \<Rightarrow> (s, Err MapBareArgument)
               | Some fname \<Rightarrow>
                   (case build_composed named (sf_ty f) resolving (depth + 1) s of
                      (s', Inl e) \<Rightarrow> (s', Err e)
                    | (s', Inr ty) \<Rightarrow> (s', Ok (Field fname ty (sf_optional f))))) args st of
           (st', Inl e) \<Rightarrow> (st', Err e)
         | (st', Inr fs) \<Rightarrow> new_record fs st'))"

definition resolve_spelling_text ::
    "resolver \<Rightarrow> string \<Rightarrow> string list \<Rightarrow> nat \<Rightarrow> rstate \<Rightarrow> rstate \<times> (resolve_error + type_tag)" where
  "resolve_spelling_text named canonical resolving depth st =
     (case lookup_composed canonical st of
        Some hit \<Rightarrow> (st, Ok hit)
      | None \<Rightarrow>
          (case parse_spelling canonical of
             Inl e \<Rightarrow> (st, Err (BadSpelling e))
           | Inr sp \<Rightarrow>
               (case build_composed named sp resolving depth st of
                  (st', Inl e) \<Rightarrow> (st', Err e)
                | (st', Inr t) \<Rightarrow> intern_composed canonical t st')))"

text \<open>Alias hops nest at most as deep as the depth budget, so the fuel of \<open>resolve_named\<close>,
  which counts alias hops, never runs out when it starts above the budget.\<close>

fun resolve_named :: "nat \<Rightarrow> directory \<Rightarrow> resolver" where
  "resolve_named 0 dir name resolving depth st = (st, Err ROutOfFuel)"
| "resolve_named (Suc k) dir name resolving depth st =
     (if depth > MAX_GENERIC_DEPTH then (st, Err (RTooDeep name))
      else if name = ''MAP'' then (st, Err BareMap)
      else if name = ''LIST'' then (st, Err BareList)
      else case builtin name of
        Some t \<Rightarrow> (st, Ok t)
      | None \<Rightarrow>
      case types dir name of
        Some d \<Rightarrow> (st, Ok (TCustom d name))
      | None \<Rightarrow>
      case record_schemas dir name of
        Some (r, fs) \<Rightarrow>
          (case check_tag_known dir (TRecord r fs) of
             Inl e \<Rightarrow> (st, Err e) | Inr _ \<Rightarrow> (st, Ok (TRecord r fs)))
      | None \<Rightarrow>
      case type_aliases dir name of
        Some target \<Rightarrow>
          if name \<in> set resolving then (st, Err (AliasCycle (resolving @ [name])))
          else resolve_spelling_text (resolve_named k dir) target (resolving @ [name]) (depth + 1) st
      | None \<Rightarrow> (st, Err (UnknownType name)))"

definition resolve_fuel :: nat where
  "resolve_fuel = MAX_GENERIC_DEPTH + 2"

definition resolve_tag :: "directory \<Rightarrow> string \<Rightarrow> rstate \<Rightarrow> rstate \<times> (resolve_error + type_tag)" where
  "resolve_tag dir name st =
     (let canonical = canonicalize_spelling name in
      if CHR ''<'' \<in> set canonical \<or> CHR ''|'' \<in> set canonical
      then resolve_spelling_text (resolve_named resolve_fuel dir) canonical [] 0 st
      else resolve_named resolve_fuel dir canonical [] 0 st)"

section \<open>Aliases and options\<close>

datatype top_step = FuncDef string | TypeAlias string string | OtherStep

datatype alias_error =
    AlreadyDefined string | CollidesBuiltin string | CollidesType string
  | CollidesSchema string | CollidesFunction string

definition func_names :: "top_step list \<Rightarrow> string set" where
  "func_names steps = set (concat (map (\<lambda>s. case s of FuncDef n \<Rightarrow> [n] | _ \<Rightarrow> []) steps))"

fun collect_loop :: "directory \<Rightarrow> string set \<Rightarrow> top_step list \<Rightarrow> (string \<Rightarrow> string option) \<Rightarrow>
    alias_error + (string \<Rightarrow> string option)" where
  "collect_loop dir fns [] al = Ok al"
| "collect_loop dir fns (s # steps) al =
     (case s of
        TypeAlias name target \<Rightarrow>
          if al name \<noteq> None then Err (AlreadyDefined name)
          else if builtin name \<noteq> None then Err (CollidesBuiltin name)
          else if types dir name \<noteq> None then Err (CollidesType name)
          else if record_schemas dir name \<noteq> None then Err (CollidesSchema name)
          else if name \<in> fns then Err (CollidesFunction name)
          else collect_loop dir fns steps (al(name \<mapsto> canonicalize_spelling target))
      | _ \<Rightarrow> collect_loop dir fns steps al)"

definition collect_type_aliases :: "top_step list \<Rightarrow> directory \<Rightarrow> alias_error + (string \<Rightarrow> string option)" where
  "collect_type_aliases steps dir = collect_loop dir (func_names steps) steps Map.empty"

datatype option_error = UnknownOption string | OptionShape tag_error

definition check_options :: "(string \<times> dvalue) list \<Rightarrow> (string \<times> type_tag) list \<Rightarrow> string \<Rightarrow> option_error + unit" where
  "check_options m options func =
     bind_result
       (try_each (\<lambda>(key, v). if list_ex (\<lambda>known. fst known = key) options then Ok () else Err (UnknownOption key)) m)
       (\<lambda>_. try_each (\<lambda>(key, v).
          case find (\<lambda>known. fst known = key) options of
            None \<Rightarrow> Err (UnknownOption key)
          | Some option \<Rightarrow>
              (case check_value_at (snd option) v (func @ ''() option '' @ [CHR 0x27] @ key @ [CHR 0x27]) of
                 Inl e \<Rightarrow> Err (OptionShape e) | Inr _ \<Rightarrow> Ok ())) m)"

section \<open>Well-formed tags\<close>

text \<open>What resolution promises of a tag: unions are flat, have at least two members, none of
  them \<open>ANY\<close>, no two of them equal, and carry the spelling of their members.\<close>

fun tag_ok :: "type_tag \<Rightarrow> bool" where
  "tag_ok (TListOf t) = tag_ok t"
| "tag_ok (TMapOf t) = tag_ok t"
| "tag_ok (TRecord r fs) = list_all (\<lambda>f. tag_ok (field_ty f)) fs"
| "tag_ok (TUnion sp ts) =
     (list_all (\<lambda>t. tag_ok t \<and> \<not> is_union t \<and> t \<noteq> TAny) ts \<and> 2 \<le> length ts \<and>
      sorted_wrt (\<lambda>x y. \<not> tags_equal x y \<and> \<not> tags_equal y x) ts \<and>
      sp = join_with ''|'' (map render_structural ts))"
| "tag_ok _ = True"

lemma tag_ok_dedup: "tag_ok t \<Longrightarrow> dedup t"
  by (induction t rule: tag_ok.induct) (auto simp: list_all_iff)

lemma splice_ok:
  assumes "tag_ok m" "x \<in> set (splice m)"
  shows "tag_ok x \<and> \<not> is_union x"
  using assms by (cases m rule: type_tag.exhaust) (auto simp: splice_def list_all_iff)

lemma unique_loop_mem: "set (unique_loop u ms) \<subseteq> set u \<union> set ms"
  by (induction u ms rule: unique_loop.induct) (auto split: if_splits)

lemma unique_loop_keeps: "set u \<subseteq> set (unique_loop u ms)"
  by (induction u ms rule: unique_loop.induct) (auto split: if_splits)

lemma unique_loop_distinct:
  assumes "sorted_wrt (\<lambda>x y. \<not> tags_equal x y \<and> \<not> tags_equal y x) u" "\<forall>m \<in> set ms. dedup m"
  shows "sorted_wrt (\<lambda>x y. \<not> tags_equal x y \<and> \<not> tags_equal y x) (unique_loop u ms)"
  using assms
proof (induction u ms rule: unique_loop.induct)
  case (2 u m ms)
  have "sorted_wrt (\<lambda>x y. \<not> tags_equal x y \<and> \<not> tags_equal y x) (u @ [m])"
    if "\<not> list_ex (\<lambda>seen. tags_equal seen m) u"
    using 2(2,3) that tags_equal_sym [of m] by (auto simp: sorted_wrt_append list_ex_iff)
  with 2 show ?case by simp
qed simp

lemma unique_loop_covers: "m \<in> set ms \<Longrightarrow> \<exists>x \<in> set (unique_loop u ms). tags_equal x m"
proof (induction u ms rule: unique_loop.induct)
  case (2 u n ms)
  let ?u = "if list_ex (\<lambda>seen. tags_equal seen n) u then u else u @ [n]"
  show ?case
  proof (cases "m = n")
    case True
    have "\<exists>x \<in> set ?u. tags_equal x n" by (auto simp: list_ex_iff)
    then have "\<exists>x \<in> set (unique_loop ?u ms). tags_equal x n" using unique_loop_keeps [of ?u ms] by blast
    then show ?thesis unfolding True unique_loop.simps(2) .
  next
    case False
    with 2 show ?thesis by simp
  qed
qed simp

lemma unique_loop_nonempty: "ms \<noteq> [] \<Longrightarrow> unique_loop [] ms \<noteq> []"
  using unique_loop_covers [of "hd ms" ms "[]"] by (cases ms) auto

lemma finish_union_cases:
  assumes "finish_union ms = Ok t"
  obtains (absorbed) "t = TAny" "TAny \<in> set (concat (map splice ms))"
  | (single) "length (unique_loop [] (concat (map splice ms))) = 1"
      "t = last (unique_loop [] (concat (map splice ms)))"
  | (several) "concat (map splice ms) \<noteq> []" "TAny \<notin> set (concat (map splice ms))"
      "length (unique_loop [] (concat (map splice ms))) \<noteq> 1"
      "t = union_tag (unique_loop [] (concat (map splice ms)))"
proof -
  define flat where "flat = concat (map splice ms)"
  define u where "u = unique_loop [] flat"
  from assms have "(if flat = [] then Err EmptyUnion else if TAny \<in> set flat then Ok TAny
      else if length u = 1 then Ok (last u) else Ok (union_tag u)) = Ok t"
    by (simp only: finish_union_def Let_def flat_def u_def)
  then show thesis
    using that unfolding flat_def [symmetric] u_def [symmetric] by (auto split: if_splits)
qed

lemma finish_union_ok:
  assumes "\<forall>m \<in> set ms. tag_ok m" "finish_union ms = Ok t"
  shows "tag_ok t"
proof -
  let ?flat = "concat (map splice ms)" and ?u = "unique_loop [] (concat (map splice ms))"
  have flat: "\<forall>x \<in> set ?flat. tag_ok x \<and> \<not> is_union x" using assms(1) splice_ok by fastforce
  have mem: "set ?u \<subseteq> set ?flat" using unique_loop_mem [of "[]" ?flat] by simp
  have srt: "sorted_wrt (\<lambda>x y. \<not> tags_equal x y \<and> \<not> tags_equal y x) ?u"
    by (rule unique_loop_distinct) (use flat tag_ok_dedup in auto)
  from assms(2) show ?thesis
  proof (cases rule: finish_union_cases)
    case single
    then have "t \<in> set ?u" by (cases ?u) auto
    then have "t \<in> set ?flat" using mem by blast
    with flat show ?thesis by blast
  next
    case several
    have "?u \<noteq> []" using unique_loop_nonempty several(1) by blast
    with several(3) have "2 \<le> length ?u" by (cases ?u; cases "tl ?u") auto
    moreover have "\<forall>x \<in> set ?u. tag_ok x \<and> \<not> is_union x \<and> x \<noteq> TAny" using flat mem several(2) by blast
    ultimately show ?thesis using srt by (simp add: several(4) union_tag_def list_all_iff)
  qed simp
qed

section \<open>Resolution keeps the table well formed\<close>

definition table_ok :: "rstate \<Rightarrow> bool" where
  "table_ok st \<longleftrightarrow> (\<forall>c t. composed st c = Some t \<longrightarrow> tag_ok t)"

definition dir_ok :: "directory \<Rightarrow> bool" where
  "dir_ok dir \<longleftrightarrow> (\<forall>n r fs. record_schemas dir n = Some (r, fs) \<longrightarrow> tag_ok (TRecord r fs))"

definition res_ok :: "('a \<Rightarrow> bool) \<Rightarrow> rstate \<times> (resolve_error + 'a) \<Rightarrow> bool" where
  "res_ok Q p \<longleftrightarrow> table_ok (fst p) \<and> (case snd p of Inl e \<Rightarrow> e \<noteq> ROutOfFuel | Inr x \<Rightarrow> Q x)"

lemma res_ok_cases [consumes 1, case_names Err Ok]:
  assumes "res_ok Q p"
  obtains st e where "p = (st, Err e)" "table_ok st" "e \<noteq> ROutOfFuel"
  | st x where "p = (st, Ok x)" "table_ok st" "Q x"
proof (cases p)
  case (Pair st r)
  with assms that show thesis by (cases r) (auto simp: res_ok_def)
qed

lemma map_st_ok:
  assumes "\<And>x s. x \<in> set xs \<Longrightarrow> table_ok s \<Longrightarrow> res_ok Q (f x s)" "table_ok st"
  shows "res_ok (list_all Q) (map_st f xs st)"
  using assms
proof (induction xs arbitrary: st)
  case (Cons x xs)
  from Cons.prems have "res_ok Q (f x st)" by simp
  then show ?case
  proof (cases rule: res_ok_cases)
    case (Err st' e)
    then show ?thesis by (simp add: res_ok_def)
  next
    case (Ok st' y)
    have "res_ok (list_all Q) (map_st f xs st')" by (rule Cons.IH) (use Cons.prems Ok in auto)
    then show ?thesis by (cases rule: res_ok_cases) (use Ok in \<open>auto simp: res_ok_def\<close>)
  qed
qed (simp add: res_ok_def)

text \<open>The contract between \<open>build_composed\<close> and the resolver of bare names it is given.\<close>

definition good_resolver :: "nat \<Rightarrow> resolver \<Rightarrow> bool" where
  "good_resolver d0 named \<longleftrightarrow>
     (\<forall>n rs d st. d0 \<le> d \<longrightarrow> d \<le> MAX_GENERIC_DEPTH \<longrightarrow> table_ok st \<longrightarrow> res_ok tag_ok (named n rs d st))"

lemma intern_ok: "table_ok st \<Longrightarrow> tag_ok t \<Longrightarrow> res_ok tag_ok (intern_composed c t st)"
  by (auto simp: res_ok_def intern_composed_def table_ok_def split: option.splits)

lemma new_record_ok: "table_ok st \<Longrightarrow> list_all (\<lambda>f. tag_ok (field_ty f)) fs \<Longrightarrow> res_ok tag_ok (new_record fs st)"
  by (simp add: new_record_def res_ok_def table_ok_def)

lemma finish_union_res: "table_ok st \<Longrightarrow> list_all tag_ok ts \<Longrightarrow> res_ok tag_ok (st, finish_union ts)"
  using finish_union_ok [of ts]
  by (cases "finish_union ts") (auto simp: res_ok_def list_all_iff finish_union_def Let_def split: if_splits)

lemma res_ok_Err [simp]: "res_ok Q (st, Err e) \<longleftrightarrow> table_ok st \<and> e \<noteq> ROutOfFuel"
  and res_ok_Ok [simp]: "res_ok Q (st, Ok x) \<longleftrightarrow> table_ok st \<and> Q x"
  by (simp_all add: res_ok_def)

text \<open>Chaining a state-passing step that may fail.\<close>

lemma res_ok_chain:
  assumes "res_ok P p" "\<And>st x. table_ok st \<Longrightarrow> P x \<Longrightarrow> res_ok Q (g st x)"
  shows "res_ok Q (case p of (st, Inl e) \<Rightarrow> (st, Err e) | (st, Inr x) \<Rightarrow> g st x)"
  using assms(1) by (cases rule: res_ok_cases) (simp_all add: assms(2))

lemma build_generic_ok:
  assumes named: "good_resolver d0 named" and d: "d0 \<le> depth" and st: "table_ok st"
    and IH: "\<And>f s. f \<in> set args \<Longrightarrow> table_ok s \<Longrightarrow>
      res_ok tag_ok (build_composed named (sf_ty f) rs (depth + 1) s)"
  shows "res_ok tag_ok (build_composed named (SGeneric n args) rs depth st)"
proof -
  consider "depth > MAX_GENERIC_DEPTH" | "depth \<le> MAX_GENERIC_DEPTH" "n \<noteq> ''LIST''" "n \<noteq> ''MAP''"
    | "depth \<le> MAX_GENERIC_DEPTH" "n = ''LIST''" | "depth \<le> MAX_GENERIC_DEPTH" "n = ''MAP''" by fastforce
  then show ?thesis
  proof cases
    case 2
    then have "res_ok tag_ok (named n rs depth st)" using named d st by (simp add: good_resolver_def)
    then have "res_ok tag_ok (case named n rs depth st of
        (st', Inl e) \<Rightarrow> (st', Err e) | (st', Inr _) \<Rightarrow> (st', Err (NoTypeArguments n)))"
      by (rule res_ok_chain) simp
    with 2 show ?thesis by simp
  next
    case 3
    show ?thesis
    proof (cases "\<exists>f. args = [f] \<and> sf_name f = None")
      case True
      then obtain f where f: "args = [f]" "sf_name f = None" by blast
      then have "res_ok tag_ok (case build_composed named (sf_ty f) rs (depth + 1) st of
          (st', Inl e) \<Rightarrow> (st', Err e) | (st', Inr element) \<Rightarrow> (st', Ok (TListOf element)))"
        by (intro res_ok_chain [OF IH]) (simp_all add: st)
      with 3 f show ?thesis by simp
    next
      case False
      with 3 st show ?thesis by (auto split: list.splits)
    qed
  next
    case 4
    let ?f = "\<lambda>f s. case sf_name f of None \<Rightarrow> (s, Err MapBareArgument)
        | Some fname \<Rightarrow> (case build_composed named (sf_ty f) rs (depth + 1) s of
             (s', Inl e) \<Rightarrow> (s', Err e) | (s', Inr ty) \<Rightarrow> (s', Ok (Field fname ty (sf_optional f))))"
    have "res_ok (\<lambda>x. tag_ok (field_ty x)) (?f f s)" if "f \<in> set args" "table_ok s" for f s
    proof (cases "sf_name f")
      case (Some fname)
      have "res_ok (\<lambda>x. tag_ok (field_ty x)) (case build_composed named (sf_ty f) rs (depth + 1) s of
          (s', Inl e) \<Rightarrow> (s', Err e) | (s', Inr ty) \<Rightarrow> (s', Ok (Field fname ty (sf_optional f))))"
        by (rule res_ok_chain [OF IH [OF that]]) simp
      with Some show ?thesis by simp
    qed (simp add: that(2))
    then have "res_ok (list_all (\<lambda>x. tag_ok (field_ty x))) (map_st ?f args st)" using st by (rule map_st_ok)
    then have "res_ok tag_ok (case map_st ?f args st of
        (st', Inl e) \<Rightarrow> (st', Err e) | (st', Inr fs) \<Rightarrow> new_record fs st')"
      by (rule res_ok_chain) (rule new_record_ok)
    with 4 st show ?thesis by simp
  qed (simp add: st)
qed

lemma build_composed_ok:
  assumes named: "good_resolver d0 named"
  shows "d0 \<le> depth \<Longrightarrow> table_ok st \<Longrightarrow> res_ok tag_ok (build_composed named sp rs depth st)"
proof (induction sp arbitrary: depth st rule: measure_induct_rule [where f = size])
  case (less sp)
  show ?case
  proof (cases sp)
    case (SNamed n)
    with named less.prems show ?thesis by (simp add: good_resolver_def)
  next
    case (SGeneric n args)
    show ?thesis unfolding SGeneric
      by (rule build_generic_ok [OF named less.prems])
         (use less sf_ty_size_list in \<open>auto simp: SGeneric\<close>)
  next
    case (SUnion ms)
    have "res_ok (list_all tag_ok) (map_st (\<lambda>m. build_composed named m rs depth) ms st)"
      by (rule map_st_ok, rule less.IH) (simp_all add: SUnion member_size less.prems)
    then have "res_ok tag_ok (case map_st (\<lambda>m. build_composed named m rs depth) ms st of
        (st', Inl e) \<Rightarrow> (st', Err e) | (st', Inr resolved) \<Rightarrow> (st', finish_union resolved))"
      by (rule res_ok_chain) (rule finish_union_res)
    with less.prems(2) show ?thesis by (simp add: SUnion)
  qed
qed

lemma spelling_text_ok:
  assumes named: "good_resolver d0 named" and "d0 \<le> depth" "table_ok st"
  shows "res_ok tag_ok (resolve_spelling_text named c rs depth st)"
proof (cases "composed st c")
  case (Some hit)
  with assms(3) show ?thesis
    by (simp add: resolve_spelling_text_def lookup_composed_def table_ok_def)
next
  case None
  show ?thesis
  proof (cases "parse_spelling c")
    case (Inl e)
    with None assms(3) show ?thesis by (simp add: resolve_spelling_text_def lookup_composed_def)
  next
    case (Inr sp)
    have "res_ok tag_ok (case build_composed named sp rs depth st of
        (st', Inl e) \<Rightarrow> (st', Err e) | (st', Inr t) \<Rightarrow> intern_composed c t st')"
      by (rule res_ok_chain [OF build_composed_ok [OF assms]]) (rule intern_ok)
    with None Inr show ?thesis by (simp add: resolve_spelling_text_def lookup_composed_def)
  qed
qed

lemma builtin_tag_ok: "builtin n = Some t \<Longrightarrow> tag_ok t"
  by (auto simp: builtin_def split: if_splits)

lemma check_known_no_fuel: "check_tag_known dir t \<noteq> Err ROutOfFuel"
proof (induction dir t rule: check_tag_known.induct)
  case (4 dir r fs)
  then show ?case by (auto simp: try_each_Inl)
next
  case (5 dir sp ts)
  then show ?case by (auto simp: try_each_Inl)
qed auto

lemma resolve_named_good:
  assumes "dir_ok dir"
  shows "MAX_GENERIC_DEPTH + 1 \<le> k + d0 \<Longrightarrow> good_resolver d0 (resolve_named k dir)"
proof (induction k arbitrary: d0)
  case 0
  then show ?case by (simp add: good_resolver_def)
next
  case (Suc k)
  have hop: "good_resolver (Suc d0) (resolve_named k dir)" by (rule Suc.IH) (use Suc.prems in simp)
  show ?case unfolding good_resolver_def
  proof (intro allI impI)
    fix n rs d st assume d: "d0 \<le> d" "d \<le> MAX_GENERIC_DEPTH" and st: "table_ok st"
    have hopped: "res_ok tag_ok (resolve_spelling_text (resolve_named k dir) c rs' (d + 1) st)" for c rs'
      by (rule spelling_text_ok [OF hop]) (use d st in simp_all)
    have sch: "res_ok tag_ok (case check_tag_known dir (TRecord r fs) of
        Inl e \<Rightarrow> (st, Err e) | Inr _ \<Rightarrow> (st, Ok (TRecord r fs)))"
      if "record_schemas dir n = Some (r, fs)" for r fs
      using assms that st check_known_no_fuel [of dir "TRecord r fs"]
      by (cases "check_tag_known dir (TRecord r fs)") (auto simp: dir_ok_def simp del: check_tag_known.simps)
    show "res_ok tag_ok (resolve_named (Suc k) dir n rs d st)"
      using d(2) st hopped sch builtin_tag_ok [of n]
      by (simp del: check_tag_known.simps split: option.split)
  qed
qed

lemma resolve_tag_ok:
  assumes "dir_ok dir" "table_ok st"
  shows "res_ok tag_ok (resolve_tag dir name st)"
proof -
  have good: "good_resolver 0 (resolve_named resolve_fuel dir)"
    by (rule resolve_named_good [OF assms(1)]) (simp add: resolve_fuel_def)
  have "res_ok tag_ok (resolve_named resolve_fuel dir n [] 0 st)" for n
    using good assms(2) by (simp add: good_resolver_def)
  with spelling_text_ok [OF good le0 assms(2)] show ?thesis by (simp add: resolve_tag_def Let_def)
qed

lemma intern_hit: "intern_composed c t st = (st', Ok t') \<Longrightarrow> composed st' c = Some t'"
  by (auto simp: intern_composed_def split: option.splits)

lemma spelling_text_interns:
  assumes "resolve_spelling_text named c rs d st = (st', Ok t)"
  shows "composed st' c = Some t"
  using assms
  by (auto simp: resolve_spelling_text_def lookup_composed_def split: option.splits sum.splits prod.splits
      dest: intern_hit)

section \<open>Meaning of a normalized union\<close>

lemma splice_typing: "(\<exists>x \<in> set (splice m). has_type x v) \<longleftrightarrow> has_type m v"
  by (cases m rule: type_tag.exhaust) (auto simp: splice_def has_type_Union_iff)

lemma flat_typing: "(\<exists>x \<in> set (concat (map splice ms)). has_type x v) \<longleftrightarrow> (\<exists>m \<in> set ms. has_type m v)"
proof -
  have "(\<exists>x \<in> set (concat (map splice ms)). has_type x v) \<longleftrightarrow> (\<exists>m \<in> set ms. \<exists>x \<in> set (splice m). has_type x v)"
    by auto
  then show ?thesis by (simp only: splice_typing)
qed

lemma splice_wf: "wf_tag D R m \<and> dedup m \<Longrightarrow> x \<in> set (splice m) \<Longrightarrow> wf_tag D R x \<and> dedup x"
  by (cases m rule: type_tag.exhaust) (auto simp: splice_def list_all_iff)

lemma unique_loop_typing:
  assumes "\<forall>x \<in> set ms. wf_tag D R x \<and> dedup x"
  shows "(\<exists>x \<in> set (unique_loop [] ms). has_type x v) \<longleftrightarrow> (\<exists>x \<in> set ms. has_type x v)"
proof
  assume "\<exists>x \<in> set (unique_loop [] ms). has_type x v"
  then show "\<exists>x \<in> set ms. has_type x v" using unique_loop_mem [of "[]" ms] by auto
next
  assume "\<exists>x \<in> set ms. has_type x v"
  then obtain m where m: "m \<in> set ms" "has_type m v" by blast
  obtain x where x: "x \<in> set (unique_loop [] ms)" "tags_equal x m" using unique_loop_covers [OF m(1)] by blast
  have "x \<in> set ms" using x(1) unique_loop_mem [of "[]" ms] by auto
  then have "has_type x v"
    using tags_equal_typing [OF tags_equal_sym [OF _ x(2)] _ _ m(2)] assms m(1) by blast
  with x(1) show "\<exists>x \<in> set (unique_loop [] ms). has_type x v" by blast
qed

section \<open>Properties\<close>

text \<open>Resolution always answers with a well-formed tag or a real error: whatever the
  aliases (cycles included) and whatever the spelling, the alias hops end within the
  depth budget, a resolved tag has flat, deduplicated unions without \<open>ANY\<close>, and the
  shared table keeps only such tags.\<close>

theorem resolution_total_and_wellformed:
  assumes "dir_ok dir" "table_ok st" "resolve_tag dir name st = (st', r)"
  shows "table_ok st' \<and> r \<noteq> Err ROutOfFuel \<and> (\<forall>t. r = Ok t \<longrightarrow> tag_ok t \<and> dedup t)"
  using resolve_tag_ok [OF assms(1,2), of name] assms(3) tag_ok_dedup
  by (cases r) (auto simp: res_ok_def)

theorem resolution_total_and_wellformed_witness:
  "\<exists>st' r. resolve_tag \<lparr>types = Map.empty, record_schemas = Map.empty,
        type_aliases = [''A'' \<mapsto> ''LIST<B>'', ''B'' \<mapsto> ''A'']\<rparr> ''A'' \<lparr>composed = Map.empty, next_table = 0\<rparr> = (st', r) \<and>
     r \<noteq> Err ROutOfFuel"
proof -
  let ?dir = "\<lparr>types = Map.empty, record_schemas = Map.empty,
    type_aliases = [''A'' \<mapsto> ''LIST<B>'', ''B'' \<mapsto> ''A'']\<rparr>"
  let ?st = "\<lparr>composed = Map.empty, next_table = 0\<rparr>"
  have "dir_ok ?dir" "table_ok ?st" by (simp_all add: dir_ok_def table_ok_def)
  moreover obtain st' r where "resolve_tag ?dir ''A'' ?st = (st', r)" by fastforce
  ultimately show ?thesis using resolution_total_and_wellformed by blast
qed

text \<open>A composed spelling resolves once per process: after one run has resolved it, every
  later resolution of the same spelling, in this run or in any other and whatever that
  run's aliases and schemas say the names in it mean, returns the first run's tag.\<close>

theorem composed_spelling_resolves_once:
  assumes "resolve_tag dir1 name st = (st1, Ok t)"
    and "CHR ''<'' \<in> set (canonicalize_spelling name) \<or> CHR ''|'' \<in> set (canonicalize_spelling name)"
  shows "resolve_tag dir2 name st1 = (st1, Ok t)"
proof -
  have "composed st1 (canonicalize_spelling name) = Some t"
    using spelling_text_interns assms by (auto simp: resolve_tag_def Let_def)
  with assms(2) show ?thesis by (simp add: resolve_tag_def resolve_spelling_text_def lookup_composed_def Let_def)
qed

lemma parse_list_person:
  "parse_spelling ''LIST<PERSON>'' = Ok (SGeneric ''LIST'' [SField None False (SNamed ''PERSON'')])"
  "canonicalize_spelling ''LIST<PERSON>'' = ''LIST<PERSON>''"
proof -
  let ?sp = "SGeneric ''LIST'' [SField None False (SNamed ''PERSON'')]"
  have wf: "wf_spelled ?sp" "spelled_depth ?sp \<le> MAX_GENERIC_DEPTH"
    by (simp_all add: type_word_def type_name_char_def char_class_defs MAX_GENERIC_DEPTH_def)
  show 1: "parse_spelling ''LIST<PERSON>'' = Ok ?sp" using parse_render [OF wf] by simp
  then have "parse_spelling (strip_ws ''LIST<PERSON>'') = Ok ?sp" by (simp add: parse_spelling_def strip_ws_idem)
  then show "canonicalize_spelling ''LIST<PERSON>'' = ''LIST<PERSON>''" by (simp add: canonicalize_spelling_def)
qed

lemma parse_word:
  assumes "type_word n"
  shows "parse_spelling n = Ok (SNamed n)"
  using parse_render [of "SNamed n"] assms by simp

theorem composed_spelling_resolves_once_witness:
  "\<exists>st1. resolve_tag \<lparr>types = Map.empty, record_schemas = Map.empty, type_aliases = [''PERSON'' \<mapsto> ''INT'']\<rparr>
       ''LIST<PERSON>'' \<lparr>composed = Map.empty, next_table = 0\<rparr> = (st1, Ok (TListOf TInt)) \<and>
     resolve_tag \<lparr>types = Map.empty, record_schemas = Map.empty, type_aliases = [''PERSON'' \<mapsto> ''STRING'']\<rparr>
       ''LIST<PERSON>'' st1 = (st1, Ok (TListOf TInt))"
proof -
  let ?dir = "\<lambda>t. \<lparr>types = Map.empty, record_schemas = Map.empty, type_aliases = [''PERSON'' \<mapsto> t]\<rparr>"
  let ?st = "\<lparr>composed = Map.empty, next_table = 0\<rparr>"
  obtain k where fuel: "resolve_fuel = Suc (Suc k)" by (simp add: resolve_fuel_def)
  have "type_word ''INT''" by (simp add: type_word_def type_name_char_def char_class_defs)
  then have "\<exists>st1. resolve_tag (?dir ''INT'') ''LIST<PERSON>'' ?st = (st1, Ok (TListOf TInt))"
    by (simp add: resolve_tag_def parse_list_person Let_def resolve_spelling_text_def lookup_composed_def
        fuel MAX_GENERIC_DEPTH_def builtin_def parse_word intern_composed_def)
  then obtain st1 where st1: "resolve_tag (?dir ''INT'') ''LIST<PERSON>'' ?st = (st1, Ok (TListOf TInt))" by blast
  from composed_spelling_resolves_once [OF st1, of "?dir ''STRING''"] st1 show ?thesis
    by (simp add: parse_list_person)
qed

text \<open>Normalizing a union keeps its meaning: flattening nested unions, absorbing into
  \<open>ANY\<close>, dropping duplicates and collapsing a single survivor admit exactly the values
  that some member admits.\<close>

theorem finish_union_meaning:
  assumes "finish_union ms = Ok t" "\<forall>m \<in> set ms. wf_tag D R m \<and> dedup m"
  shows "has_type t v \<longleftrightarrow> (\<exists>m \<in> set ms. has_type m v)"
proof -
  let ?flat = "concat (map splice ms)"
  have wf: "\<forall>x \<in> set ?flat. wf_tag D R x \<and> dedup x"
  proof
    fix x assume "x \<in> set ?flat"
    then obtain m where "m \<in> set ms" "x \<in> set (splice m)" by auto
    with assms(2) splice_wf show "wf_tag D R x \<and> dedup x" by blast
  qed
  from assms(1) have "has_type t v \<longleftrightarrow> (\<exists>x \<in> set ?flat. has_type x v)"
  proof (cases rule: finish_union_cases)
    case absorbed
    then show ?thesis using has_type_bare_iff(3) by blast
  next
    case single
    then have "set (unique_loop [] ?flat) = {t}" by (cases "unique_loop [] ?flat") auto
    with unique_loop_typing [OF wf, of v] show ?thesis by simp
  next
    case several
    with unique_loop_typing [OF wf, of v] show ?thesis by (simp add: union_tag_def has_type_Union_iff)
  qed
  then show ?thesis by (simp only: flat_typing)
qed

theorem finish_union_meaning_witness:
  "has_type (union_tag [TInt, TPipe]) (VInt 3)"
proof -
  have *: "finish_union [TInt, TUnion ''PIPE|INT'' [TPipe, TInt]] = Ok (union_tag [TInt, TPipe])"
    by (simp add: finish_union_def splice_def Let_def)
  show ?thesis
    using finish_union_meaning [OF *, of "\<lambda>_. []" "\<lambda>_. []" "VInt 3"]
    by (simp add: has_type_scalar_iff reader_defs)
qed

end
