(* ===== verification/Guards.thy ===== *)
theory Guards
  imports Prelude
begin

text \<open>Step guards (\<open>oxdock-parser/src/ast.rs\<close>): the guard language with its smart constructors,
  its evaluation against an environment, and the static analysis built on it, namely
  disjointness, the capped expansion into disjunctive normal form, satisfiability, validity and overlap,
  with the classification the static checker draws from them
  (\<open>oxdock-core/src/exec/static_check.rs\<close>). The facts fixed when the program is compiled
  (target system and architecture) are a parameter record.\<close>

section \<open>Guards and their evaluation\<close>

datatype ns = NsOs | NsArch | NsBool | NsEnv

datatype guard = Attr (attr_ns: ns) (attr_key: "string option") (attr_val: "string option")

datatype guard_expr =
    GPredicate guard
  | GAll "guard_expr list"
  | GOr "guard_expr list"
  | GNot guard_expr

definition ARCH_VALUES :: "string list" where
  "ARCH_VALUES =
     [''aarch64'', ''arm'', ''arm64ec'', ''avr'', ''bpf'', ''csky'', ''hexagon'', ''loongarch32'',
      ''loongarch64'', ''mips'', ''mips32r6'', ''mips64'', ''mips64r6'', ''msp430'', ''nvptx64'',
      ''powerpc'', ''powerpc64'', ''riscv32'', ''riscv64'', ''s390x'', ''sparc'', ''sparc64'', ''wasm32'',
      ''wasm64'', ''x86'', ''x86_64'', ''xtensa'']"

record platform =
  platform_is_macos :: bool
  platform_is_linux :: bool
  platform_is_windows :: bool
  arch_target :: string

fun all_parts :: "guard_expr \<Rightarrow> guard_expr list" where
  "all_parts (GAll children) = children"
| "all_parts other = [other]"

fun or_parts :: "guard_expr \<Rightarrow> guard_expr list" where
  "or_parts (GOr children) = children"
| "or_parts other = [other]"

text \<open>The smart constructors panic on an empty list; \<open>None\<close> is the panic.\<close>

definition guard_all :: "guard_expr list \<Rightarrow> guard_expr option" where
  "guard_all exprs =
     (let flat = concat (map all_parts exprs) in
      case flat of [] \<Rightarrow> None | [e] \<Rightarrow> Some e | _ \<Rightarrow> Some (GAll flat))"

definition guard_or :: "guard_expr list \<Rightarrow> guard_expr option" where
  "guard_or exprs =
     (let flat = concat (map or_parts exprs) in
      case flat of [] \<Rightarrow> None | [e] \<Rightarrow> Some e | _ \<Rightarrow> Some (GOr flat))"

fun invert :: "guard_expr \<Rightarrow> guard_expr" where
  "invert (GNot inner) = inner"
| "invert other = GNot other"

definition guard_allows :: "platform \<Rightarrow> (string \<Rightarrow> string option) \<Rightarrow> guard \<Rightarrow> bool" where
  "guard_allows P env g =
     (case attr_ns g of
        NsOs \<Rightarrow>
          (if attr_val g = Some ''macos'' then platform_is_macos P
           else if attr_val g = Some ''linux'' then platform_is_linux P
           else if attr_val g = Some ''windows'' then platform_is_windows P
           else False)
      | NsArch \<Rightarrow> (case attr_val g of Some want \<Rightarrow> arch_target P = want | None \<Rightarrow> False)
      | NsBool \<Rightarrow> (case attr_val g of Some v \<Rightarrow> v = ''true'' | None \<Rightarrow> False)
      | NsEnv \<Rightarrow>
          (case attr_key g of
             None \<Rightarrow> False
           | Some var \<Rightarrow>
               (case attr_val g of
                  None \<Rightarrow> (case env var of Some v \<Rightarrow> v \<noteq> [] | None \<Rightarrow> False)
                | Some want \<Rightarrow> (case env var of Some v \<Rightarrow> v = want | None \<Rightarrow> False))))"

fun guard_expr_allows :: "platform \<Rightarrow> (string \<Rightarrow> string option) \<Rightarrow> guard_expr \<Rightarrow> bool" where
  "guard_expr_allows P env (GPredicate g) = guard_allows P env g"
| "guard_expr_allows P env (GAll children) = list_all (guard_expr_allows P env) children"
| "guard_expr_allows P env (GOr children) = list_ex (guard_expr_allows P env) children"
| "guard_expr_allows P env (GNot child) = (\<not> guard_expr_allows P env child)"

definition guard_option_allows :: "platform \<Rightarrow> (string \<Rightarrow> string option) \<Rightarrow> guard_expr option \<Rightarrow> bool" where
  "guard_option_allows P env expr =
     (case expr of Some e \<Rightarrow> guard_expr_allows P env e | None \<Rightarrow> True)"

section \<open>Disjointness\<close>

definition guard_disjoint :: "guard \<Rightarrow> guard \<Rightarrow> bool" where
  "guard_disjoint g h \<longleftrightarrow>
     attr_val g \<noteq> None \<and> attr_val h \<noteq> None \<and>
     attr_ns g = attr_ns h \<and> attr_key g = attr_key h \<and> attr_val g \<noteq> attr_val h"

fun unset_excludes :: "guard_expr \<Rightarrow> guard_expr \<Rightarrow> bool" where
  "unset_excludes (GPredicate (Attr n2 k2 v2)) (GPredicate (Attr n1 k1 None)) = (n1 = n2 \<and> k1 = k2)"
| "unset_excludes _ _ = False"

function (sequential) is_disjoint_from :: "guard_expr \<Rightarrow> guard_expr \<Rightarrow> bool" where
  "is_disjoint_from x (GNot inner) = (x = inner \<or> unset_excludes x inner)"
| "is_disjoint_from (GNot inner) x = (x = inner \<or> unset_excludes x inner)"
| "is_disjoint_from (GPredicate p1) (GPredicate p2) = guard_disjoint p1 p2"
| "is_disjoint_from (GOr arms) other = list_all (\<lambda>arm. is_disjoint_from arm other) arms"
| "is_disjoint_from other (GOr arms) = list_all (\<lambda>arm. is_disjoint_from arm other) arms"
| "is_disjoint_from (GAll arms) other = list_ex (\<lambda>arm. is_disjoint_from arm other) arms"
| "is_disjoint_from other (GAll arms) = list_ex (\<lambda>arm. is_disjoint_from arm other) arms"
  by pat_completeness auto

termination
  by (relation "measure (\<lambda>(x, y). size x + size y)") (auto simp: less_Suc_eq_le size_list_estimation')

section \<open>Disjunctive normal form\<close>

datatype dnf_lit = Pos guard | Neg guard

fun as_expr :: "dnf_lit \<Rightarrow> guard_expr" where
  "as_expr (Pos g) = GPredicate g"
| "as_expr (Neg g) = GNot (GPredicate g)"

definition MAX_DNF_DISJUNCTS :: nat where
  "MAX_DNF_DISJUNCTS = 64"

text \<open>The two loops of \<open>dnf_push\<close>: a conjunction threads the disjuncts through its children;
  a disjunction forks every disjunct once per child and gives up above the cap.\<close>

fun push_each :: "('a \<Rightarrow> 'd list \<Rightarrow> 'd list option) \<Rightarrow> 'a list \<Rightarrow> 'd list \<Rightarrow> 'd list option" where
  "push_each f [] out = Some out"
| "push_each f (c # cs) out = (case f c out of None \<Rightarrow> None | Some out' \<Rightarrow> push_each f cs out')"

fun fork_children :: "('a \<Rightarrow> 'd list \<Rightarrow> 'd list option) \<Rightarrow> 'd \<Rightarrow> 'a list \<Rightarrow> 'd list \<Rightarrow> 'd list option" where
  "fork_children f d [] forked = Some forked"
| "fork_children f d (c # cs) forked =
     (case f c [d] of
        None \<Rightarrow> None
      | Some branch \<Rightarrow>
          (let forked' = forked @ branch in
           if length forked' > MAX_DNF_DISJUNCTS then None else fork_children f d cs forked'))"

fun fork_each :: "('a \<Rightarrow> 'd list \<Rightarrow> 'd list option) \<Rightarrow> 'a list \<Rightarrow> 'd list \<Rightarrow> 'd list \<Rightarrow> 'd list option" where
  "fork_each f cs [] forked = Some forked"
| "fork_each f cs (d # ds) forked =
     (case fork_children f d cs forked of None \<Rightarrow> None | Some forked' \<Rightarrow> fork_each f cs ds forked')"

lemma push_each_cong [fundef_cong]:
  assumes "cs = cs'" "out = out'" "\<And>c d. c \<in> set cs' \<Longrightarrow> f c d = g c d"
  shows "push_each f cs out = push_each g cs' out'"
  using assms by (induction cs' arbitrary: cs out out') (auto split: option.splits)

lemma fork_children_eq:
  assumes "\<And>c d. c \<in> set cs \<Longrightarrow> f c d = g c d"
  shows "fork_children f d cs forked = fork_children g d cs forked"
  using assms by (induction cs arbitrary: forked) (auto simp: Let_def split: option.splits)

lemma fork_each_cong [fundef_cong]:
  assumes "cs = cs'" "ds = ds'" "fk = fk'" "\<And>c d. c \<in> set cs' \<Longrightarrow> f c d = g c d"
  shows "fork_each f cs ds fk = fork_each g cs' ds' fk'"
  using assms fork_children_eq [of cs' f g]
  by (induction ds' arbitrary: ds fk fk') (auto split: option.splits)

fun dnf_push :: "guard_expr \<Rightarrow> bool \<Rightarrow> dnf_lit list list \<Rightarrow> dnf_lit list list option" where
  "dnf_push (GPredicate g) polarity out =
     Some (map (\<lambda>disjunct. disjunct @ [if polarity then Pos g else Neg g]) out)"
| "dnf_push (GAll children) polarity out =
     (if polarity then push_each (\<lambda>c. dnf_push c polarity) children out
      else fork_each (\<lambda>c. dnf_push c polarity) children out [])"
| "dnf_push (GOr children) polarity out =
     (if polarity then fork_each (\<lambda>c. dnf_push c polarity) children out []
      else push_each (\<lambda>c. dnf_push c polarity) children out)"
| "dnf_push (GNot inner) polarity out = dnf_push inner (\<not> polarity) out"

definition closed_domain_values :: "ns \<Rightarrow> string option \<Rightarrow> string list option" where
  "closed_domain_values n key =
     (case (n, key) of
        (NsBool, None) \<Rightarrow> Some [''true'', ''false'']
      | (NsOs, None) \<Rightarrow> Some [''macos'', ''linux'', ''windows'']
      | (NsArch, None) \<Rightarrow> Some ARCH_VALUES
      | _ \<Rightarrow> None)"

fun statically_false :: "dnf_lit \<Rightarrow> bool" where
  "statically_false (Pos g) = (attr_ns g = NsBool \<and> attr_val g \<noteq> Some ''true'')"
| "statically_false (Neg g) = (attr_ns g = NsBool \<and> attr_key g = None \<and> attr_val g = Some ''true'')"

fun conflicting_pair :: "dnf_lit list \<Rightarrow> bool" where
  "conflicting_pair [] = False"
| "conflicting_pair (first # rest) =
     (list_ex (\<lambda>second. is_disjoint_from (as_expr first) (as_expr second)) rest \<or> conflicting_pair rest)"

definition exhausted_by :: "dnf_lit list \<Rightarrow> dnf_lit \<Rightarrow> bool" where
  "exhausted_by lits lit =
     (case lit of
        Neg (Attr n key (Some _)) \<Rightarrow>
          (case closed_domain_values n key of
             None \<Rightarrow> False
           | Some domain \<Rightarrow> list_all (\<lambda>v. Neg (Attr n key (Some v)) \<in> set lits) domain)
      | _ \<Rightarrow> False)"

definition disjunct_satisfiable :: "dnf_lit list \<Rightarrow> bool" where
  "disjunct_satisfiable lits =
     (if list_ex statically_false lits then False
      else if conflicting_pair lits then False
      else if list_ex (exhausted_by lits) lits then False
      else True)"

definition conjuncts :: "guard_expr \<Rightarrow> guard_expr list" where
  "conjuncts e = all_parts e"

definition conjunction_dead :: "guard_expr list \<Rightarrow> bool" where
  "conjunction_dead atoms =
     (if atoms = [] then False
      else (case push_each (\<lambda>atom. dnf_push atom True) atoms [[]] of
              None \<Rightarrow> False
            | Some disjuncts \<Rightarrow> \<not> list_ex disjunct_satisfiable disjuncts))"

definition guard_satisfiable :: "guard_expr \<Rightarrow> bool" where
  "guard_satisfiable e = (\<not> conjunction_dead (conjuncts e))"

fun guard_valid :: "guard_expr \<Rightarrow> bool" where
  "guard_valid (GPredicate g) = (attr_ns g = NsBool \<and> attr_val g = Some ''true'')"
| "guard_valid (GAll items) = list_all guard_valid items"
| "guard_valid (GNot inner) = (\<not> guard_satisfiable inner)"
| "guard_valid (GOr items) = False"

definition guards_overlap :: "guard_expr option \<Rightarrow> guard_expr option \<Rightarrow> bool" where
  "guards_overlap a b =
     (case (a, b) of
        (None, None) \<Rightarrow> True
      | (Some x, None) \<Rightarrow> guard_satisfiable x
      | (None, Some x) \<Rightarrow> guard_satisfiable x
      | (Some x, Some y) \<Rightarrow> \<not> conjunction_dead (conjuncts x @ conjuncts y))"

datatype guard_class = Unconditional | Conditional | Dead

definition classify_guard :: "guard_expr option \<Rightarrow> guard_class" where
  "classify_guard guard =
     (case guard of
        None \<Rightarrow> Unconditional
      | Some expr \<Rightarrow>
          if \<not> guard_satisfiable expr then Dead
          else if guard_valid expr then Unconditional
          else Conditional)"

section \<open>Hosts and guards the parser builds\<close>

text \<open>A host is one of the three systems and has one of the documented architectures.
  The parser gives every \<open>os\<close>, \<open>arch\<close> and \<open>bool\<close> guard a value; \<open>nonempty_guard\<close> excludes the one
  spelling it accepts and the analysis does not account for, \<open>eq(env:KEY, "")\<close>.\<close>

definition known_platform :: "platform \<Rightarrow> bool" where
  "known_platform P \<longleftrightarrow>
     (platform_is_macos P \<longleftrightarrow> \<not> platform_is_linux P \<and> \<not> platform_is_windows P) \<and>
     \<not> (platform_is_linux P \<and> platform_is_windows P) \<and> arch_target P \<in> set ARCH_VALUES"

definition nonempty_guard :: "guard \<Rightarrow> bool" where
  "nonempty_guard g \<longleftrightarrow>
     (attr_val g = None \<longrightarrow> attr_ns g = NsEnv) \<and> (attr_ns g = NsEnv \<longrightarrow> attr_val g \<noteq> Some [])"

fun nonempty_values :: "guard_expr \<Rightarrow> bool" where
  "nonempty_values (GPredicate g) = nonempty_guard g"
| "nonempty_values (GAll es) = list_all nonempty_values es"
| "nonempty_values (GOr es) = list_all nonempty_values es"
| "nonempty_values (GNot e) = nonempty_values e"

definition lit_holds :: "platform \<Rightarrow> (string \<Rightarrow> string option) \<Rightarrow> dnf_lit \<Rightarrow> bool" where
  "lit_holds P env l = guard_expr_allows P env (as_expr l)"

definition dnf_holds :: "platform \<Rightarrow> (string \<Rightarrow> string option) \<Rightarrow> dnf_lit list list \<Rightarrow> bool" where
  "dnf_holds P env ds \<longleftrightarrow> (\<exists>d \<in> set ds. \<forall>l \<in> set d. lit_holds P env l)"

fun lit_guard :: "dnf_lit \<Rightarrow> guard" where
  "lit_guard (Pos g) = g"
| "lit_guard (Neg g) = g"

section \<open>Facts\<close>

lemma guard_disjoint_sound:
  assumes "known_platform P" "guard_disjoint g h"
  shows "\<not> (guard_allows P env g \<and> guard_allows P env h)"
  using assms
  by (cases "attr_ns h")
    (auto simp: guard_disjoint_def guard_allows_def known_platform_def split: option.splits if_splits)

lemma unset_excludes_sound:
  assumes "unset_excludes x inner" "nonempty_values x" "nonempty_values inner" "guard_expr_allows P env x"
  shows "guard_expr_allows P env inner"
  using assms
  by (induction x inner rule: unset_excludes.induct)
    (auto simp: guard_allows_def nonempty_guard_def split: option.splits ns.splits)

lemma is_disjoint_sound:
  assumes "known_platform P" "is_disjoint_from x y" "nonempty_values x" "nonempty_values y"
  shows "\<not> (guard_expr_allows P env x \<and> guard_expr_allows P env y)"
  using assms
proof (induction x y rule: is_disjoint_from.induct)
  case (3 p q)
  then show ?case using guard_disjoint_sound by simp
qed (auto simp: list_all_iff list_ex_iff dest: unset_excludes_sound)

lemma dnf_holds_append: "dnf_holds P env (as @ bs) \<longleftrightarrow> dnf_holds P env as \<or> dnf_holds P env bs"
  by (auto simp: dnf_holds_def)

text \<open>What the loops need of the function they call: it conjoins the meaning \<open>Q c\<close> of a child
  to every disjunct list, and it introduces no guard with an empty value.\<close>

definition conjoins :: "platform \<Rightarrow> (string \<Rightarrow> string option) \<Rightarrow> ('a \<Rightarrow> bool) \<Rightarrow>
    ('a \<Rightarrow> dnf_lit list list \<Rightarrow> dnf_lit list list option) \<Rightarrow> 'a list \<Rightarrow> bool" where
  "conjoins P env Q f cs \<longleftrightarrow>
     (\<forall>c \<in> set cs. \<forall>out out'. f c out = Some out' \<longrightarrow> (dnf_holds P env out' \<longleftrightarrow> Q c \<and> dnf_holds P env out))"

lemma conjoins_Cons: "conjoins P env Q f (c # cs) \<Longrightarrow> conjoins P env Q f cs"
  by (simp add: conjoins_def)

lemma conjoins_head:
  "\<lbrakk>conjoins P env Q f (c # cs); f c out = Some out'\<rbrakk> \<Longrightarrow> dnf_holds P env out' \<longleftrightarrow> Q c \<and> dnf_holds P env out"
  by (simp add: conjoins_def)

lemma push_each_holds:
  assumes "conjoins P env Q f cs" and "push_each f cs out = Some out'"
  shows "dnf_holds P env out' \<longleftrightarrow> (\<forall>c \<in> set cs. Q c) \<and> dnf_holds P env out"
  using assms
proof (induction cs arbitrary: out)
  case (Cons c cs)
  then obtain o1 where o1: "f c out = Some o1" "push_each f cs o1 = Some out'"
    by (auto split: option.splits)
  show ?case
    using Cons.IH [OF conjoins_Cons [OF Cons.prems(1)] o1(2)] conjoins_head [OF Cons.prems(1) o1(1)] by auto
qed simp

lemma fork_children_holds:
  assumes "conjoins P env Q f cs" and "fork_children f d cs fk = Some out'"
  shows "dnf_holds P env out' \<longleftrightarrow> dnf_holds P env fk \<or> (\<exists>c \<in> set cs. Q c) \<and> dnf_holds P env [d]"
  using assms
proof (induction cs arbitrary: fk)
  case (Cons c cs)
  from Cons.prems(2) obtain br where br: "f c [d] = Some br" "fork_children f d cs (fk @ br) = Some out'"
    by (auto simp: Let_def split: option.splits if_splits)
  show ?case
    using Cons.IH [OF conjoins_Cons [OF Cons.prems(1)] br(2)] conjoins_head [OF Cons.prems(1) br(1)]
    by (auto simp: dnf_holds_append)
qed simp

lemma fork_each_holds:
  assumes "conjoins P env Q f cs" and "fork_each f cs ds fk = Some out'"
  shows "dnf_holds P env out' \<longleftrightarrow> dnf_holds P env fk \<or> (\<exists>c \<in> set cs. Q c) \<and> dnf_holds P env ds"
  using assms(2)
proof (induction ds arbitrary: fk)
  case Nil
  then show ?case by (simp add: dnf_holds_def)
next
  case (Cons d ds)
  then obtain fk' where fk': "fork_children f d cs fk = Some fk'" "fork_each f cs ds fk' = Some out'"
    by (auto split: option.splits)
  have "dnf_holds P env (d # ds) \<longleftrightarrow> dnf_holds P env [d] \<or> dnf_holds P env ds"
    by (simp add: dnf_holds_def)
  with Cons.IH [OF fk'(2)] fork_children_holds [OF assms(1) fk'(1)] show ?case by blast
qed

lemma dnf_push_predicate:
  "dnf_holds P env (map (\<lambda>d. d @ [l]) out) \<longleftrightarrow> lit_holds P env l \<and> dnf_holds P env out"
  by (auto simp: dnf_holds_def)

lemma dnf_push_holds:
  "dnf_push e pol out = Some out' \<Longrightarrow>
     dnf_holds P env out' \<longleftrightarrow> (guard_expr_allows P env e \<longleftrightarrow> pol) \<and> dnf_holds P env out"
proof (induction e pol out arbitrary: out' rule: dnf_push.induct)
  case (1 g pol out)
  then show ?case by (cases pol) (auto simp: dnf_push_predicate lit_holds_def)
next
  case (2 cs pol out)
  have "conjoins P env (\<lambda>c. guard_expr_allows P env c \<longleftrightarrow> pol) (\<lambda>c. dnf_push c pol) cs"
    using 2(1,2) unfolding conjoins_def by (cases pol) blast+
  from push_each_holds [OF this] fork_each_holds [OF this] 2(3) show ?case
    by (cases pol) (auto simp: list_all_iff dnf_holds_def [of _ _ "[]"])
next
  case (3 cs pol out)
  have "conjoins P env (\<lambda>c. guard_expr_allows P env c \<longleftrightarrow> pol) (\<lambda>c. dnf_push c pol) cs"
    using 3(1,2) unfolding conjoins_def by (cases pol) blast+
  from push_each_holds [OF this] fork_each_holds [OF this] 3(3) show ?case
    by (cases pol) (auto simp: list_ex_iff dnf_holds_def [of _ _ "[]"])
next
  case (4 e pol out)
  then show ?case by auto
qed

text \<open>The expansion invents no guards: every literal is a predicate of the expression.\<close>

definition dnf_nonempty :: "dnf_lit list list \<Rightarrow> bool" where
  "dnf_nonempty ds \<longleftrightarrow> (\<forall>d \<in> set ds. \<forall>l \<in> set d. nonempty_guard (lit_guard l))"

definition keeps_nonempty :: "('a \<Rightarrow> dnf_lit list list \<Rightarrow> dnf_lit list list option) \<Rightarrow> 'a list \<Rightarrow> bool" where
  "keeps_nonempty f cs \<longleftrightarrow>
     (\<forall>c \<in> set cs. \<forall>out out'. f c out = Some out' \<longrightarrow> dnf_nonempty out \<longrightarrow> dnf_nonempty out')"

lemma push_each_nonempty:
  assumes "keeps_nonempty f cs" "push_each f cs out = Some out'" "dnf_nonempty out"
  shows "dnf_nonempty out'"
  using assms
proof (induction cs arbitrary: out)
  case (Cons c cs)
  then obtain o1 where "f c out = Some o1" "push_each f cs o1 = Some out'"
    by (auto split: option.splits)
  with Cons show ?case by (simp add: keeps_nonempty_def)
qed simp

lemma fork_children_nonempty:
  assumes "keeps_nonempty f cs" "fork_children f d cs fk = Some out'" "dnf_nonempty [d]" "dnf_nonempty fk"
  shows "dnf_nonempty out'"
  using assms
proof (induction cs arbitrary: fk)
  case (Cons c cs)
  from Cons.prems(2) obtain br where br: "f c [d] = Some br" "fork_children f d cs (fk @ br) = Some out'"
    by (auto simp: Let_def split: option.splits if_splits)
  have rest: "keeps_nonempty f cs" and "dnf_nonempty br"
    using Cons.prems(1,3) br(1) by (simp_all add: keeps_nonempty_def)
  then have "dnf_nonempty (fk @ br)" using Cons.prems(4) by (auto simp: dnf_nonempty_def)
  then show ?case by (rule Cons.IH [OF rest br(2) Cons.prems(3)])
qed simp

lemma fork_each_nonempty:
  assumes "keeps_nonempty f cs" "fork_each f cs ds fk = Some out'" "dnf_nonempty ds" "dnf_nonempty fk"
  shows "dnf_nonempty out'"
  using assms(2-)
proof (induction ds arbitrary: fk)
  case (Cons d ds)
  from Cons.prems(1) obtain fk' where fk': "fork_children f d cs fk = Some fk'" "fork_each f cs ds fk' = Some out'"
    by (auto split: option.splits)
  have d: "dnf_nonempty [d]" "dnf_nonempty ds" using Cons.prems(2) by (auto simp: dnf_nonempty_def)
  show ?case
    by (rule Cons.IH [OF fk'(2) d(2) fork_children_nonempty [OF assms(1) fk'(1) d(1) Cons.prems(3)]])
qed simp

lemma dnf_push_nonempty:
  "\<lbrakk>dnf_push e pol out = Some out'; nonempty_values e; dnf_nonempty out\<rbrakk> \<Longrightarrow> dnf_nonempty out'"
proof (induction e pol out arbitrary: out' rule: dnf_push.induct)
  case (1 g pol out)
  then show ?case by (auto simp: dnf_nonempty_def)
next
  case (2 cs pol out)
  have "keeps_nonempty (\<lambda>c. dnf_push c pol) cs"
    using 2(1,2,4) unfolding keeps_nonempty_def list_all_iff nonempty_values.simps by (cases pol) blast+
  from push_each_nonempty [OF this] fork_each_nonempty [OF this] 2(3,5) show ?case
    by (cases pol) (auto simp: dnf_nonempty_def [of "[]"])
next
  case (3 cs pol out)
  have "keeps_nonempty (\<lambda>c. dnf_push c pol) cs"
    using 3(1,2,4) unfolding keeps_nonempty_def list_all_iff nonempty_values.simps by (cases pol) blast+
  from push_each_nonempty [OF this] fork_each_nonempty [OF this] 3(3,5) show ?case
    by (cases pol) (auto simp: dnf_nonempty_def [of "[]"])
qed auto

lemma statically_false_sound: "statically_false l \<Longrightarrow> \<not> lit_holds P env l"
  by (cases l) (auto simp: lit_holds_def guard_allows_def split: option.splits)

lemma lit_expr_nonempty: "nonempty_guard (lit_guard l) \<Longrightarrow> nonempty_values (as_expr l)"
  by (cases l) simp_all

lemma conflicting_pair_sound:
  assumes "known_platform P" "conflicting_pair ls" "\<forall>l \<in> set ls. nonempty_guard (lit_guard l)"
  shows "\<exists>l \<in> set ls. \<not> lit_holds P env l"
  using assms(2-)
proof (induction ls)
  case (Cons l ls)
  show ?case
  proof (cases "conflicting_pair ls")
    case True
    with Cons show ?thesis by auto
  next
    case False
    then obtain m where m: "m \<in> set ls" "is_disjoint_from (as_expr l) (as_expr m)"
      using Cons.prems(1) by (auto simp: list_ex_iff)
    have "nonempty_values (as_expr l)" "nonempty_values (as_expr m)"
      using lit_expr_nonempty Cons.prems(2) m(1) by simp_all
    from is_disjoint_sound [OF assms(1) m(2) this, of env] m(1) show ?thesis
      by (auto simp: lit_holds_def)
  qed
qed simp

lemma closed_domain_covers:
  assumes "known_platform P" "closed_domain_values n key = Some dm"
  shows "\<exists>x \<in> set dm. guard_allows P env (Attr n key (Some x))"
proof (cases n)
  case NsArch
  then have "dm = ARCH_VALUES" using assms(2) by (simp add: closed_domain_values_def split: option.splits)
  then show ?thesis using assms(1) NsArch by (auto simp: known_platform_def guard_allows_def)
next
  case NsOs
  then have "dm = [''macos'', ''linux'', ''windows'']"
    using assms(2) by (simp add: closed_domain_values_def split: option.splits)
  then show ?thesis using assms(1) NsOs by (simp add: known_platform_def guard_allows_def) blast
next
  case NsBool
  then have "dm = [''true'', ''false'']"
    using assms(2) by (simp add: closed_domain_values_def split: option.splits)
  then show ?thesis using NsBool by (simp add: guard_allows_def)
next
  case NsEnv
  then show ?thesis using assms(2) by (simp add: closed_domain_values_def)
qed

lemma exhausted_sound:
  assumes "known_platform P" "exhausted_by ls l"
  shows "\<exists>m \<in> set ls. \<not> lit_holds P env m"
proof -
  from assms(2) obtain n key v dm where l: "l = Neg (Attr n key (Some v))"
    and dm: "closed_domain_values n key = Some dm" "\<forall>x \<in> set dm. Neg (Attr n key (Some x)) \<in> set ls"
    unfolding exhausted_by_def
    by (cases l rule: dnf_lit.exhaust) (auto simp: list_all_iff split: guard.splits option.splits)
  obtain x where "x \<in> set dm" "guard_allows P env (Attr n key (Some x))"
    using closed_domain_covers [OF assms(1) dm(1)] by blast
  with dm(2) show ?thesis by (intro bexI [of _ "Neg (Attr n key (Some x))"]) (simp_all add: lit_holds_def)
qed

lemma disjunct_unsat_sound:
  assumes "known_platform P" "\<not> disjunct_satisfiable ls" "\<forall>l \<in> set ls. nonempty_guard (lit_guard l)"
  shows "\<exists>l \<in> set ls. \<not> lit_holds P env l"
proof -
  consider "list_ex statically_false ls" | "conflicting_pair ls" | "list_ex (exhausted_by ls) ls"
    using assms(2) by (auto simp: disjunct_satisfiable_def split: if_splits)
  then show ?thesis
    using statically_false_sound conflicting_pair_sound [OF assms(1) _ assms(3)] exhausted_sound [OF assms(1)]
    by cases (auto simp: list_ex_iff)
qed

lemma conjunction_dead_sound:
  assumes "known_platform P" "conjunction_dead atoms" "\<forall>a \<in> set atoms. nonempty_values a"
  shows "\<exists>a \<in> set atoms. \<not> guard_expr_allows P env a"
proof -
  from assms(2) obtain ds where ds: "push_each (\<lambda>atom. dnf_push atom True) atoms [[]] = Some ds"
      "\<not> list_ex disjunct_satisfiable ds"
    by (auto simp: conjunction_dead_def split: if_splits option.splits)
  have "conjoins P env (guard_expr_allows P env) (\<lambda>atom. dnf_push atom True) atoms"
    unfolding conjoins_def using dnf_push_holds by blast
  then have holds: "dnf_holds P env ds \<longleftrightarrow> (\<forall>a \<in> set atoms. guard_expr_allows P env a) \<and> dnf_holds P env [[]]"
    by (rule push_each_holds [OF _ ds(1)])
  have "keeps_nonempty (\<lambda>atom. dnf_push atom True) atoms"
    unfolding keeps_nonempty_def using assms(3) dnf_push_nonempty by blast
  then have ne: "dnf_nonempty ds"
    by (rule push_each_nonempty [OF _ ds(1)]) (simp add: dnf_nonempty_def)
  have "\<not> (\<forall>l \<in> set d. lit_holds P env l)" if "d \<in> set ds" for d
    using disjunct_unsat_sound [OF assms(1), of d] that ds(2) ne by (auto simp: list_ex_iff dnf_nonempty_def)
  with holds show ?thesis by (auto simp: dnf_holds_def)
qed

lemma conjuncts_allows: "guard_expr_allows P env e \<longleftrightarrow> (\<forall>c \<in> set (conjuncts e). guard_expr_allows P env c)"
  by (cases e) (auto simp: conjuncts_def list_all_iff)

lemma conjuncts_nonempty: "nonempty_values e \<Longrightarrow> c \<in> set (conjuncts e) \<Longrightarrow> nonempty_values c"
  by (cases e) (auto simp: conjuncts_def list_all_iff)

lemma unsatisfiable_sound:
  assumes "known_platform P" "\<not> guard_satisfiable e" "nonempty_values e"
  shows "\<not> guard_expr_allows P env e"
  using conjunction_dead_sound [OF assms(1), of "conjuncts e"] assms(2,3) conjuncts_nonempty
    conjuncts_allows [of P env e]
  by (auto simp: guard_satisfiable_def)

lemma guard_valid_sound:
  "\<lbrakk>known_platform P; guard_valid e; nonempty_values e\<rbrakk> \<Longrightarrow> guard_expr_allows P env e"
  by (induction e) (auto simp: guard_allows_def list_all_iff unsatisfiable_sound)

section \<open>Properties\<close>

text \<open>C34. The static classification of guards is sound: on every supported host and under every
  environment, a step classified dead never runs and a step classified unconditional always
  runs, for all guards as the parser builds them in which no environment variable is compared with the empty text.\<close>

theorem classify_guard_sound:
  assumes "known_platform P" and "\<forall>e. g = Some e \<longrightarrow> nonempty_values e"
  shows "(classify_guard g = Dead \<longrightarrow> \<not> guard_option_allows P env g) \<and>
     (classify_guard g = Unconditional \<longrightarrow> guard_option_allows P env g)"
  using assms unsatisfiable_sound guard_valid_sound
  by (auto simp: classify_guard_def guard_option_allows_def split: option.splits if_splits)

theorem classify_guard_sound_witness:
  "classify_guard (Some (GAll [GPredicate (Attr NsOs None (Some ''macos'')),
       GNot (GNot (GPredicate (Attr NsOs None (Some ''linux''))))])) = Dead \<and>
   \<not> guard_option_allows \<lparr>platform_is_macos = False, platform_is_linux = True,
       platform_is_windows = False, arch_target = ''x86_64''\<rparr> (\<lambda>_. None)
     (Some (GAll [GPredicate (Attr NsOs None (Some ''macos'')),
       GNot (GNot (GPredicate (Attr NsOs None (Some ''linux''))))]))"
proof -
  define P where "P = \<lparr>platform_is_macos = False, platform_is_linux = True,
       platform_is_windows = False, arch_target = ''x86_64''\<rparr>"
  define g where "g = GAll [GPredicate (Attr NsOs None (Some ''macos'')),
       GNot (GNot (GPredicate (Attr NsOs None (Some ''linux''))))]"
  have "known_platform P" unfolding P_def by code_simp
  moreover have "classify_guard (Some g) = Dead" unfolding g_def by code_simp
  moreover have "nonempty_values g" unfolding g_def by code_simp
  ultimately show ?thesis
    using classify_guard_sound [of P "Some g" "\<lambda>_. None"] by (simp add: P_def g_def)
qed

text \<open>Two declarations whose guards the checker considers non-overlapping never both run, so
  shadowing one by the other is never observable.\<close>

theorem guards_overlap_sound:
  assumes "known_platform P" and "\<not> guards_overlap a b"
    and "\<forall>e. a = Some e \<or> b = Some e \<longrightarrow> nonempty_values e"
  shows "\<not> (guard_option_allows P env a \<and> guard_option_allows P env b)"
proof (cases a; cases b)
  fix x y assume ab: "a = Some x" "b = Some y"
  then have "conjunction_dead (conjuncts x @ conjuncts y)"
    using assms(2) by (simp add: guards_overlap_def)
  moreover have "nonempty_values x" "nonempty_values y" using assms(3) ab by simp_all
  then have "\<forall>c \<in> set (conjuncts x @ conjuncts y). nonempty_values c" using conjuncts_nonempty by auto
  ultimately obtain c where "c \<in> set (conjuncts x @ conjuncts y)" "\<not> guard_expr_allows P env c"
    using conjunction_dead_sound [OF assms(1)] by blast
  then show ?thesis
    using conjuncts_allows [of P env x] conjuncts_allows [of P env y] ab
    by (auto simp: guard_option_allows_def)
qed (use assms unsatisfiable_sound in \<open>auto simp: guards_overlap_def guard_option_allows_def\<close>)

theorem guards_overlap_sound_witness:
  "\<not> (guard_option_allows \<lparr>platform_is_macos = False, platform_is_linux = True,
        platform_is_windows = False, arch_target = ''x86_64''\<rparr> (\<lambda>_. Some ''dev'')
        (Some (GPredicate (Attr NsEnv (Some ''MODE'') (Some ''dev'')))) \<and>
      guard_option_allows \<lparr>platform_is_macos = False, platform_is_linux = True,
        platform_is_windows = False, arch_target = ''x86_64''\<rparr> (\<lambda>_. Some ''dev'')
        (Some (GNot (GPredicate (Attr NsEnv (Some ''MODE'') None)))))"
proof -
  define P where "P = \<lparr>platform_is_macos = False, platform_is_linux = True,
       platform_is_windows = False, arch_target = ''x86_64''\<rparr>"
  define a where "a = GPredicate (Attr NsEnv (Some ''MODE'') (Some ''dev''))"
  define b where "b = GNot (GPredicate (Attr NsEnv (Some ''MODE'') None))"
  have "known_platform P" unfolding P_def by code_simp
  moreover have "\<not> guards_overlap (Some a) (Some b)" unfolding a_def b_def by code_simp
  moreover have "nonempty_values a" "nonempty_values b" unfolding a_def b_def by code_simp+
  ultimately show ?thesis
    using guards_overlap_sound [of P "Some a" "Some b" "\<lambda>_. Some ''dev''"]
    unfolding P_def a_def b_def by blast
qed

text \<open>The empty string is the boundary of the analysis: the guard pair \<open>eq(env:KEY, "")\<close> and
  \<open>not(env:KEY)\<close> is classified dead, and it runs on every host whenever \<open>KEY\<close> is set to the
  empty string.\<close>

theorem empty_value_escapes_dead_guard:
  "classify_guard (Some (GAll [GPredicate (Attr NsEnv (Some k) (Some [])), GNot (GPredicate (Attr NsEnv (Some k) None))]))
     = Dead \<and>
   guard_option_allows P [k \<mapsto> []]
     (Some (GAll [GPredicate (Attr NsEnv (Some k) (Some [])), GNot (GPredicate (Attr NsEnv (Some k) None))]))"
  by (simp add: classify_guard_def guard_satisfiable_def conjunction_dead_def conjuncts_def
      disjunct_satisfiable_def guard_option_allows_def guard_allows_def)

text \<open>The smart constructors keep the meaning: flattening a conjunction or a disjunction and
  cancelling a double negation evaluate like the expressions they were built from.\<close>

theorem smart_constructors_sound:
  "(guard_all es = Some a \<longrightarrow> guard_expr_allows P env a = list_all (guard_expr_allows P env) es) \<and>
   (guard_or es = Some b \<longrightarrow> guard_expr_allows P env b = list_ex (guard_expr_allows P env) es) \<and>
   guard_expr_allows P env (invert e) = (\<not> guard_expr_allows P env e)"
proof -
  have all: "list_all (guard_expr_allows P env) (concat (map all_parts es)) = list_all (guard_expr_allows P env) es"
  proof -
    have "list_all (guard_expr_allows P env) (all_parts x) = guard_expr_allows P env x" for x
      by (cases x) simp_all
    then show ?thesis by (induction es) simp_all
  qed
  have parts: "guard_expr_allows P env x = list_ex (guard_expr_allows P env) (or_parts x)" for x
    by (cases x) auto
  have or: "list_ex (guard_expr_allows P env) (concat (map or_parts es)) = list_ex (guard_expr_allows P env) es"
    using parts by (induction es) simp_all
  have inv: "guard_expr_allows P env (invert e) = (\<not> guard_expr_allows P env e)"
    by (cases e) simp_all
  show ?thesis
    using all or inv by (auto simp: guard_all_def guard_or_def Let_def split: list.splits)
qed

theorem smart_constructors_sound_witness:
  "\<forall>P env g h. guard_expr_allows P env (GAll [GPredicate g, GPredicate h, GPredicate g]) =
     list_all (guard_expr_allows P env) [GAll [GPredicate g, GPredicate h], GPredicate g]"
proof (intro allI)
  fix P env g h
  show "guard_expr_allows P env (GAll [GPredicate g, GPredicate h, GPredicate g]) =
     list_all (guard_expr_allows P env) [GAll [GPredicate g, GPredicate h], GPredicate g]"
  using smart_constructors_sound
    [of "[GAll [GPredicate g, GPredicate h], GPredicate g]" "GAll [GPredicate g, GPredicate h, GPredicate g]"]
  by (simp add: guard_all_def)
qed

end
