(* ===== verification/Syntax.thy ===== *)
theory Syntax
  imports Values Guards
begin

text \<open>The lowered script as the executor sees it (\<open>oxdock-parser/src/ast.rs\<close> and the step kinds
  of \<open>oxdock-parser/src/commands.rs\<close>): expressions, the flat stack operations dynamic
  arithmetic compiles to, command arguments and steps. Source positions and quoting flags are
  provenance the executor only renders, and are left out. Commands that touch the file
  system, processes or tasks are one constructor carrying an identity; so are the stream
  bindings of \<open>WITH_IO\<close>.\<close>

datatype compare_op = CEq | CNe | CLt | CLe | CGt | CGe

datatype arith_op = AAdd | ASub | AMul | ADiv

datatype logical_op = LAnd | LOr

datatype math_op =
    MPushConst dvalue
  | MLoadVar string
  | MLoadEnv string
  | MLoadKeyPath string "string list"
  | MCall string nat
  | MInspect string
  | MNeg
  | MArith arith_op
  | MCompare compare_op

datatype expr =
    ELiteral dvalue
  | EVar string
  | EEnv string
  | EKeyPath string "string list"
  | EList "expr list"
  | EMap "(string \<times> expr) list"
  | EBlock "step list"
  | ECall string "expr list"
  | EInspect string
  | ECompare compare_op expr expr
  | EArithmetic arith_op expr expr
  | ECompiledMath "math_op list"
  | EFreshPipe
  | EUnsignedIntBoundary nat
  | ENot expr
  | ELogical logical_op expr expr
and arg =
    ArgString string
  | ArgExpr expr
  | ArgParts "arg_part list"
and arg_part =
    PartText string
  | PartExpr expr
and step_kind =
    SFuncDef string "(string \<times> string) list" "step list"
  | SCall string "expr list"
  | SReturn expr
  | SWhile expr "step list"
  | SBreak
  | SContinue
  | SFor "string option" "string option" string string expr "step list"
  | SIf expr "step list" "(expr \<times> step list) list" "step list option"
  | STimeout arg "step list"
  | SIsolated "step list"
  | SWithIo nat step_kind
  | SAssignCapture string string step_kind
  | SAssign string string expr
  | SSet string expr
  | SListAppend string arg
  | SEnv string arg
  | SInheritEnv "string list"
  | SIsolatedInheritEnv "string list"
  | STypeAlias
  | SWithIoBlock
  | SExit arg
  | SCommand nat "arg list"
and step = Step (step_guard: "guard_expr option") (kind: step_kind) (scope_enter: nat) (scope_exit: nat)

end
