(* ===== verification/Registry.thy ===== *)
theory Registry
  imports Syntax "HOL-Library.AList"
begin

text \<open>The function registry (\<open>oxdock-core/src/exec/native.rs\<close>): one table for script
  functions, builtins and host functions, with the lexical frames that script definitions
  live in. Compiled functions are named by the identity of the shared closure; the table is
  an association list read with \<open>map_of\<close>. Frames are kept innermost first.\<close>

section \<open>Entries\<close>

record func_param =
  fp_name :: string
  fp_type :: "type_tag option"
  fp_optional :: bool

record func_meta =
  fm_module :: string
  fm_params :: "func_param list option"
  fm_returns :: "type_tag option"
  fm_rpn :: bool

datatype func_body =
    BodyScript "(string \<times> type_tag) list" "step list" "string option"
  | BodyPure nat
  | BodyCtx nat
  | BodyBoth nat nat

datatype func_entry = FuncEntry (entry_meta: func_meta) (entry_body: func_body)

record scope_frame =
  defined :: "string list"
  shadowed :: "(string \<times> func_entry) list"

record registry =
  reg_entries :: "(string \<times> func_entry) list"
  reg_frames :: "scope_frame list"

definition required_arity :: "func_param list \<Rightarrow> nat" where
  "required_arity params = length params - length (takeWhile fp_optional (rev params))"

text \<open>A panic of the argument filler is \<open>None\<close>.\<close>

definition fill_optional_args :: "func_param list \<Rightarrow> dvalue list \<Rightarrow> dvalue list option" where
  "fill_optional_args params vals =
     (if length vals > length params \<or> length vals < required_arity params then None
      else Some (vals @ replicate (length params - length vals) (VMap [])))"

section \<open>Names\<close>

fun split_once :: "'a list \<Rightarrow> 'a list \<Rightarrow> ('a list \<times> 'a list) option" where
  "split_once sep [] = (if sep = [] then Some ([], []) else None)"
| "split_once sep (c # cs) =
     (case strip_prefix sep (c # cs) of
        Some rest \<Rightarrow> Some ([], rest)
      | None \<Rightarrow> (case split_once sep cs of None \<Rightarrow> None | Some (a, b) \<Rightarrow> Some (c # a, b)))"

definition SCRIPT_MODULE_NAME :: string where
  "SCRIPT_MODULE_NAME = ''SCRIPT''"

definition qualify :: "string \<Rightarrow> string \<Rightarrow> string" where
  "qualify module base = module @ ''::'' @ base"

definition split_qualified :: "string \<Rightarrow> (string \<times> string) option" where
  "split_qualified name = split_once ''::'' name"

definition base_name :: "string \<Rightarrow> string" where
  "base_name qualified = (case split_qualified qualified of Some (_, base) \<Rightarrow> base | None \<Rightarrow> qualified)"

section \<open>Lookup\<close>

definition is_script :: "func_entry \<Rightarrow> bool" where
  "is_script e = (case entry_body e of BodyScript _ _ _ \<Rightarrow> True | _ \<Rightarrow> False)"

definition registry_get :: "string \<Rightarrow> registry \<Rightarrow> func_entry option" where
  "registry_get name r = map_of (reg_entries r) name"

definition contains_script :: "string \<Rightarrow> registry \<Rightarrow> bool" where
  "contains_script name r = (case registry_get name r of Some e \<Rightarrow> is_script e | None \<Rightarrow> False)"

definition clone_pure_fn :: "string \<Rightarrow> registry \<Rightarrow> nat option" where
  "clone_pure_fn name r =
     (case map_option entry_body (registry_get name r) of
        Some (BodyPure f) \<Rightarrow> Some f
      | Some (BodyBoth f _) \<Rightarrow> Some f
      | _ \<Rightarrow> None)"

definition clone_ctx_fn :: "string \<Rightarrow> registry \<Rightarrow> nat option" where
  "clone_ctx_fn name r =
     (case map_option entry_body (registry_get name r) of
        Some (BodyCtx f) \<Rightarrow> Some f
      | Some (BodyBoth _ f) \<Rightarrow> Some f
      | _ \<Rightarrow> None)"

definition registry_meta :: "string \<Rightarrow> registry \<Rightarrow> func_meta option" where
  "registry_meta name r = map_option entry_meta (registry_get name r)"

section \<open>Definitions and frames\<close>

datatype registry_error = CannotShadow string | DuplicateFunction string

text \<open>A name is reserved when some native entry of any module has it as its base name.\<close>

definition reserved :: "string \<Rightarrow> registry \<Rightarrow> bool" where
  "reserved name r =
     list_ex (\<lambda>(key, e). (case split_qualified key of Some (_, base) \<Rightarrow> base = name | None \<Rightarrow> False) \<and>
       \<not> is_script e) (reg_entries r)"

definition shadowable :: "string \<Rightarrow> registry \<Rightarrow> bool" where
  "shadowable qualified r = contains_script qualified r"

definition script_entry :: "string \<Rightarrow> (string \<times> type_tag) list \<Rightarrow> step list \<Rightarrow> string option \<Rightarrow> func_entry" where
  "script_entry module params body owner =
     FuncEntry \<lparr>fm_module = module,
         fm_params = Some (map (\<lambda>(n, t). \<lparr>fp_name = n, fp_type = Some t, fp_optional = False\<rparr>) params),
         fm_returns = None, fm_rpn = False\<rparr>
       (BodyScript params body owner)"

text \<open>Insert an entry and record it in a frame: the name, and the entry it hides if any.\<close>

definition record_in :: "string \<Rightarrow> func_entry option \<Rightarrow> scope_frame \<Rightarrow> scope_frame" where
  "record_in qualified old fr =
     fr\<lparr>defined := qualified # defined fr,
        shadowed := (case old of Some e \<Rightarrow> shadowed fr @ [(qualified, e)] | None \<Rightarrow> shadowed fr)\<rparr>"

definition define_script ::
    "string \<Rightarrow> (string \<times> type_tag) list \<Rightarrow> step list \<Rightarrow> string option \<Rightarrow> registry \<Rightarrow> registry_error + registry" where
  "define_script name params body owner r =
     (let qualified = qualify SCRIPT_MODULE_NAME name in
      if reserved name r \<and> \<not> shadowable qualified r then Err (CannotShadow name)
      else if (case reg_frames r of fr # _ \<Rightarrow> qualified \<in> set (defined fr) | [] \<Rightarrow> False)
      then Err (DuplicateFunction name)
      else Ok (r\<lparr>reg_entries := AList.update qualified (script_entry SCRIPT_MODULE_NAME params body owner) (reg_entries r),
                 reg_frames := (case reg_frames r of
                    fr # rest \<Rightarrow> record_in qualified (registry_get qualified r) fr # rest
                  | [] \<Rightarrow> [])\<rparr>))"

text \<open>File imports define into the frame at a depth counted from the outermost frame.\<close>

definition alias_frame :: "nat \<Rightarrow> registry \<Rightarrow> nat" where
  "alias_frame depth r = (let n = length (reg_frames r) in if depth < n then n - 1 - depth else 0)"

definition define_aliased_in ::
    "nat \<Rightarrow> string \<Rightarrow> string \<Rightarrow> (string \<times> type_tag) list \<Rightarrow> step list \<Rightarrow> string option \<Rightarrow> registry \<Rightarrow>
      registry_error + registry" where
  "define_aliased_in depth alias_name name params body owner r =
     (let qualified = qualify alias_name name; i = alias_frame depth r in
      if reserved name r \<and> \<not> shadowable qualified r then Err (CannotShadow name)
      else if i < length (reg_frames r) \<and> qualified \<in> set (defined (reg_frames r ! i))
      then Err (DuplicateFunction name)
      else Ok (r\<lparr>reg_entries := AList.update qualified (script_entry alias_name params body owner) (reg_entries r),
                 reg_frames := (if i < length (reg_frames r)
                    then (reg_frames r)[i := record_in qualified (registry_get qualified r) (reg_frames r ! i)]
                    else reg_frames r)\<rparr>))"

definition registry_push_scope :: "registry \<Rightarrow> registry" where
  "registry_push_scope r = r\<lparr>reg_frames := \<lparr>defined = [], shadowed = []\<rparr> # reg_frames r\<rparr>"

definition restore_frame :: "scope_frame \<Rightarrow> (string \<times> func_entry) list \<Rightarrow> (string \<times> func_entry) list" where
  "restore_frame fr es =
     fold (\<lambda>(name, old). AList.update name old) (shadowed fr) (fold AList.delete (defined fr) es)"

definition registry_pop_scope :: "registry \<Rightarrow> registry" where
  "registry_pop_scope r =
     (case reg_frames r of
        [] \<Rightarrow> r
      | fr # rest \<Rightarrow> r\<lparr>reg_entries := restore_frame fr (reg_entries r), reg_frames := rest\<rparr>)"

section \<open>Facts\<close>

lemma map_of_fold_delete:
  "map_of (fold AList.delete ns es) k = (if k \<in> set ns then None else map_of es k)"
  by (induction ns arbitrary: es) (auto simp: delete_conv')

lemma map_of_fold_update:
  "map_of (fold (\<lambda>(n, e). AList.update n e) us es) = (\<lambda>k. case map_of (rev us) k of Some e \<Rightarrow> Some e | None \<Rightarrow> map_of es k)"
  by (induction us arbitrary: es) (auto simp: update_conv' map_add_def fun_eq_iff split: option.splits)

lemma map_of_restore_frame:
  "map_of (restore_frame fr es) =
     (\<lambda>k. case map_of (rev (shadowed fr)) k of
        Some e \<Rightarrow> Some e
      | None \<Rightarrow> if k \<in> set (defined fr) then None else map_of es k)"
  by (rule ext) (simp only: restore_frame_def map_of_fold_update map_of_fold_delete)

text \<open>What leaving the innermost scope would make of the table.\<close>

definition outer_view :: "registry \<Rightarrow> string \<Rightarrow> func_entry option" where
  "outer_view r = map_of (reg_entries (registry_pop_scope r))"

lemma outer_view_push: "outer_view (registry_push_scope r) = map_of (reg_entries r)"
  by (simp add: outer_view_def registry_pop_scope_def registry_push_scope_def restore_frame_def)

text \<open>Recording a new name in the frame that will be popped leaves the outer view as it was:
  the hidden entry comes back, and a name with nothing behind it goes away. Shadowed
  entries must belong to defined names.\<close>

definition frame_ok :: "scope_frame \<Rightarrow> bool" where
  "frame_ok fr \<longleftrightarrow> fst ` set (shadowed fr) \<subseteq> set (defined fr)"

lemma frame_ok_fresh: "frame_ok \<lparr>defined = [], shadowed = []\<rparr>"
  by (simp add: frame_ok_def)

lemma frame_ok_record: "frame_ok fr \<Longrightarrow> frame_ok (record_in q old fr)"
  by (auto simp: frame_ok_def record_in_def split: option.splits)

lemma restore_recorded:
  assumes "frame_ok fr" "q \<notin> set (defined fr)"
  shows "map_of (restore_frame (record_in q (map_of es q) fr) (AList.update q e es)) = map_of (restore_frame fr es)"
proof -
  have fresh: "map_of (rev (shadowed fr)) q = None"
    using assms by (auto simp: frame_ok_def map_of_eq_None_iff)
  show ?thesis
    unfolding map_of_restore_frame
    by (rule ext) (use assms(2) fresh in \<open>auto simp: record_in_def update_conv' split: option.splits\<close>)
qed

definition registry_ok :: "registry \<Rightarrow> bool" where
  "registry_ok r \<longleftrightarrow> list_all frame_ok (reg_frames r)"

lemma registry_ok_push: "registry_ok r \<Longrightarrow> registry_ok (registry_push_scope r)"
  by (simp add: registry_ok_def registry_push_scope_def frame_ok_fresh)

lemma registry_ok_pop: "registry_ok r \<Longrightarrow> registry_ok (registry_pop_scope r)"
  by (auto simp: registry_ok_def registry_pop_scope_def split: list.splits)

text \<open>The relation between a registry and what a body executed in the same scope makes of it:
  outer frames untouched, same view from outside.\<close>

definition same_outer :: "registry \<Rightarrow> registry \<Rightarrow> bool" where
  "same_outer r r' \<longleftrightarrow>
     length (reg_frames r') = length (reg_frames r) \<and> List.tl (reg_frames r') = List.tl (reg_frames r) \<and>
     (reg_frames r \<noteq> [] \<longrightarrow> outer_view r' = outer_view r) \<and> (registry_ok r \<longrightarrow> registry_ok r')"

lemma same_outer_refl: "same_outer r r"
  by (simp add: same_outer_def)

lemma same_outer_trans: "\<lbrakk>same_outer r s; same_outer s t\<rbrakk> \<Longrightarrow> same_outer r t"
  unfolding same_outer_def by (metis length_0_conv)

lemma define_script_frames:
  assumes "define_script name params body owner r = Ok r'" "registry_ok r"
  shows "same_outer r r'"
proof (cases "reg_frames r")
  case Nil
  with assms show ?thesis
    by (auto simp: define_script_def same_outer_def registry_ok_def Let_def split: if_splits)
next
  case (Cons fr rest)
  define q where "q = qualify SCRIPT_MODULE_NAME name"
  define e where "e = script_entry SCRIPT_MODULE_NAME params body owner"
  from assms(1) Cons have fresh: "q \<notin> set (defined fr)"
    and r': "r' = r\<lparr>reg_entries := AList.update q e (reg_entries r), reg_frames := record_in q (map_of (reg_entries r) q) fr # rest\<rparr>"
    by (auto simp: define_script_def Let_def q_def e_def registry_get_def split: if_splits)
  have ok: "frame_ok fr" using assms(2) Cons by (simp add: registry_ok_def)
  have "outer_view r' = outer_view r"
    using restore_recorded [OF ok fresh, of "reg_entries r" e] Cons r'
    by (simp add: outer_view_def registry_pop_scope_def)
  moreover have "registry_ok r'"
    using assms(2) Cons r' frame_ok_record by (simp add: registry_ok_def)
  ultimately show ?thesis using Cons r' by (simp add: same_outer_def)
qed

lemma pop_restores:
  assumes "same_outer (registry_push_scope r) r'"
  shows "map_of (reg_entries (registry_pop_scope r')) = map_of (reg_entries r)"
    and "reg_frames (registry_pop_scope r') = reg_frames r"
proof -
  from assms have "outer_view r' = map_of (reg_entries r)"
    by (simp add: same_outer_def outer_view_push [symmetric]) (simp add: registry_push_scope_def)
  then show "map_of (reg_entries (registry_pop_scope r')) = map_of (reg_entries r)" by (simp add: outer_view_def)
  from assms obtain fr where "reg_frames r' = fr # reg_frames r"
    by (cases "reg_frames r'") (auto simp: same_outer_def registry_push_scope_def)
  then show "reg_frames (registry_pop_scope r') = reg_frames r" by (simp add: registry_pop_scope_def)
qed

end
