(* ===== verification/Exec_State.thy ===== *)
theory Exec_State
  imports Registry Type_Resolution Pipe_Handle
begin

text \<open>The execution state and its scopes (\<open>oxdock-core/src/exec/state.rs\<close>): variables with their
  declared types, the snapshots a lexical scope restores, the module store, and the fork a
  task starts from. Scopes are kept innermost first. Environment maps are partial
  functions; names are compared exactly (the non-Windows build). What lies behind the
  executor (files, processes, streams) is the type parameter.\<close>

section \<open>State\<close>

type_synonym var_scope = "(string \<times> type_tag \<times> dvalue) list"

type_synonym env_map = "string \<Rightarrow> string option"

record module_init =
  mi_vars :: var_scope
  mi_return :: dvalue
  mi_envs :: env_map
  mi_inherit_names :: "string list"

record module_record =
  mr_dir :: "string option"
  mr_init :: "module_init option"

record scope_snapshot =
  snap_cwd :: string
  snap_root :: string
  snap_envs :: env_map

record 'w exec_state =
  st_cwd :: string
  st_root :: string
  st_initial_root :: string
  st_envs :: env_map
  st_seed :: env_map
  st_isolated_stack :: "env_map list"
  st_scope_stack :: "scope_snapshot list"
  st_var_scopes :: "var_scope list"
  st_functions :: registry
  st_modules :: "(string \<times> module_record) list"
  st_module_stack :: "string option list"
  st_directory :: directory
  st_tags :: rstate
  st_cancel_token :: bool
  st_cancellable :: bool
  st_reap_floor :: "nat option"
  st_next_task_id :: nat
  st_call_depth :: nat
  st_task_id :: nat
  st_inside_async :: bool
  st_world :: 'w

definition MAX_CALL_DEPTH :: nat where
  "MAX_CALL_DEPTH = 64"

datatype state_error =
    Redeclaration string
  | Undeclared string
  | NoVariableScope
  | CoercionError coerce_error
  | NotAList string string
  | ElementShape tag_error
  | ScopeUnderflow

section \<open>Scopes\<close>

definition get_env :: "'w exec_state \<Rightarrow> string \<Rightarrow> string option" where
  "get_env s key = st_envs s key"

definition push_var_scope :: "'w exec_state \<Rightarrow> 'w exec_state" where
  "push_var_scope s = s\<lparr>st_var_scopes := [] # st_var_scopes s\<rparr>"

definition pop_var_scope :: "'w exec_state \<Rightarrow> 'w exec_state" where
  "pop_var_scope s = s\<lparr>st_var_scopes := drop 1 (st_var_scopes s)\<rparr>"

definition push_scope :: "'w exec_state \<Rightarrow> 'w exec_state" where
  "push_scope s =
     (let snap = \<lparr>snap_cwd = st_cwd s, snap_root = st_root s, snap_envs = st_envs s\<rparr>;
          s1 = s\<lparr>st_scope_stack := snap # st_scope_stack s\<rparr>;
          s2 = s1\<lparr>st_functions := registry_push_scope (st_functions s1)\<rparr>
      in push_var_scope s2)"

definition pop_scope :: "'w exec_state \<Rightarrow> 'w exec_state \<times> (state_error + unit)" where
  "pop_scope s =
     (case st_scope_stack s of
        [] \<Rightarrow> (s, Err ScopeUnderflow)
      | snap # rest \<Rightarrow>
          (let s1 = s\<lparr>st_scope_stack := rest, st_root := snap_root snap, st_cwd := snap_cwd snap,
                      st_envs := snap_envs snap\<rparr>;
               s2 = s1\<lparr>st_functions := registry_pop_scope (st_functions s1)\<rparr>
           in (pop_var_scope s2, Ok ())))"

definition reset_module_context :: "string option \<Rightarrow> env_map \<Rightarrow> 'w exec_state \<Rightarrow> 'w exec_state" where
  "reset_module_context dir es s =
     (let s1 = s\<lparr>st_envs := es\<rparr>;
          s2 = (case dir of Some d \<Rightarrow> s1\<lparr>st_cwd := d\<rparr> | None \<Rightarrow> s1)
      in s2\<lparr>st_root := st_initial_root s2\<rparr>)"

definition current_module :: "'w exec_state \<Rightarrow> string option" where
  "current_module s = (case st_module_stack s of Some key # _ \<Rightarrow> Some key | _ \<Rightarrow> None)"

definition effective_cwd :: "'w exec_state \<Rightarrow> string" where
  "effective_cwd s =
     (case current_module s of
        None \<Rightarrow> st_cwd s
      | Some m \<Rightarrow>
          (case Option.bind (map_of (st_modules s) m) mr_dir of Some dir \<Rightarrow> dir | None \<Rightarrow> st_cwd s))"

section \<open>Variables\<close>

text \<open>The shared store of the owning module, beneath every lexical scope.\<close>

definition module_vars :: "'w exec_state \<Rightarrow> var_scope" where
  "module_vars s =
     (case current_module s of
        None \<Rightarrow> []
      | Some m \<Rightarrow>
          (case Option.bind (map_of (st_modules s) m) mr_init of Some init \<Rightarrow> mi_vars init | None \<Rightarrow> []))"

definition get_var_typed :: "'w exec_state \<Rightarrow> string \<Rightarrow> (type_tag \<times> dvalue) option" where
  "get_var_typed s key =
     (case find_map (\<lambda>scope. map_of scope key) (st_var_scopes s) of
        Some entry \<Rightarrow> Some entry
      | None \<Rightarrow> map_of (module_vars s) key)"

definition get_var :: "'w exec_state \<Rightarrow> string \<Rightarrow> dvalue option" where
  "get_var s key =
     (case find_map (\<lambda>scope. map_of scope key) (st_var_scopes s) of
        Some (_, v) \<Rightarrow> Some v
      | None \<Rightarrow> map_option snd (map_of (module_vars s) key))"

fun absorb :: "(string \<times> dvalue) list \<Rightarrow> var_scope \<Rightarrow> (string \<times> dvalue) list" where
  "absorb result [] = result"
| "absorb result ((k, _, v) # scope) =
     absorb (if map_of result k = None then result @ [(k, v)] else result) scope"

definition all_vars :: "'w exec_state \<Rightarrow> (string \<times> dvalue) list" where
  "all_vars s = absorb (fold (\<lambda>scope result. absorb result scope) (st_var_scopes s) []) (module_vars s)"

definition declare_var ::
    "float_ops \<Rightarrow> string \<Rightarrow> type_tag \<Rightarrow> dvalue \<Rightarrow> 'w exec_state \<Rightarrow> 'w exec_state \<times> (state_error + unit)" where
  "declare_var F key t v s =
     (if (case st_var_scopes s of scope # _ \<Rightarrow> map_of scope key \<noteq> None | [] \<Rightarrow> False)
      then (s, Err (Redeclaration key))
      else (case coerce_value F v t of
              Inl e \<Rightarrow> (s, Err (CoercionError e))
            | Inr coerced \<Rightarrow>
                (case st_var_scopes s of
                   [] \<Rightarrow> (s, Err NoVariableScope)
                 | scope # rest \<Rightarrow> (s\<lparr>st_var_scopes := AList.update key (t, coerced) scope # rest\<rparr>, Ok ()))))"

text \<open>Assign to the innermost scope that holds the name.\<close>

fun assign_innermost :: "string \<Rightarrow> (type_tag \<times> dvalue \<Rightarrow> type_tag \<times> dvalue) \<Rightarrow> var_scope list \<Rightarrow> var_scope list option" where
  "assign_innermost key f [] = None"
| "assign_innermost key f (scope # rest) =
     (case map_of scope key of
        Some slot \<Rightarrow> Some (AList.update key (f slot) scope # rest)
      | None \<Rightarrow> map_option (\<lambda>r. scope # r) (assign_innermost key f rest))"

definition assign_module :: "string \<Rightarrow> dvalue \<Rightarrow> 'w exec_state \<Rightarrow> 'w exec_state option" where
  "assign_module key v s =
     (case current_module s of
        None \<Rightarrow> None
      | Some m \<Rightarrow>
          (case map_of (st_modules s) m of
             None \<Rightarrow> None
           | Some rec \<Rightarrow>
               (case mr_init rec of
                  None \<Rightarrow> None
                | Some init \<Rightarrow>
                    (case map_of (mi_vars init) key of
                       None \<Rightarrow> None
                     | Some (t, _) \<Rightarrow>
                         Some (s\<lparr>st_modules :=
                           AList.update m (rec\<lparr>mr_init := Some (init\<lparr>mi_vars := AList.update key (t, v) (mi_vars init)\<rparr>)\<rparr>)
                             (st_modules s)\<rparr>)))))"

definition mutate_var ::
    "float_ops \<Rightarrow> string \<Rightarrow> dvalue \<Rightarrow> 'w exec_state \<Rightarrow> 'w exec_state \<times> (state_error + unit)" where
  "mutate_var F key v s =
     (case get_var_typed s key of
        None \<Rightarrow> (s, Err (Undeclared key))
      | Some (t, _) \<Rightarrow>
          (case coerce_value F v t of
             Inl e \<Rightarrow> (s, Err (CoercionError e))
           | Inr coerced \<Rightarrow>
               (case assign_innermost key (\<lambda>slot. (fst slot, coerced)) (st_var_scopes s) of
                  Some scopes \<Rightarrow> (s\<lparr>st_var_scopes := scopes\<rparr>, Ok ())
                | None \<Rightarrow>
                    (case assign_module key coerced s of
                       Some s' \<Rightarrow> (s', Ok ())
                     | None \<Rightarrow> (s, Err (Undeclared key))))))"

definition list_element :: "type_tag \<Rightarrow> type_tag option option" where
  "list_element t = (case t of TList \<Rightarrow> Some None | TListOf e \<Rightarrow> Some (Some e) | _ \<Rightarrow> None)"

definition push_into_list :: "string \<Rightarrow> dvalue \<Rightarrow> 'w exec_state \<Rightarrow> 'w exec_state \<times> (state_error + unit)" where
  "push_into_list key item s =
     (case find_map (\<lambda>scope. map_of scope key) (st_var_scopes s) of
        None \<Rightarrow> (s, Err (Undeclared key))
      | Some (t, v) \<Rightarrow>
          (case list_element t of
             None \<Rightarrow> (s, Err (NotAList key (tag_name t)))
           | Some element \<Rightarrow>
               (case as_list v of
                  None \<Rightarrow> (s, Err (NotAList key (type_name v)))
                | Some xs \<Rightarrow>
                    (case (case element of
                             None \<Rightarrow> Ok ()
                           | Some expected \<Rightarrow>
                               check_value_at expected item (''$'' @ key @ ''['' @ show_nat (length xs) @ '']'')) of
                       Inl e \<Rightarrow> (s, Err (ElementShape e))
                     | Inr _ \<Rightarrow>
                         (case assign_innermost key (\<lambda>slot. (fst slot, VList (xs @ [item]))) (st_var_scopes s) of
                            Some scopes \<Rightarrow> (s\<lparr>st_var_scopes := scopes\<rparr>, Ok ())
                          | None \<Rightarrow> (s, Err (Undeclared key)))))))"

section \<open>Forks and captured pipes\<close>

definition fork :: "'w \<Rightarrow> 'w exec_state \<Rightarrow> 'w exec_state" where
  "fork world s =
     s\<lparr>st_scope_stack := [], st_cancel_token := False, st_inside_async := True, st_world := world\<rparr>"

fun value_pipes :: "dvalue \<Rightarrow> nat list" where
  "value_pipes (VPipe p) = [p]"
| "value_pipes (VList xs) = concat (map value_pipes xs)"
| "value_pipes (VMap m) = concat (map (\<lambda>p. value_pipes (snd p)) m)"
| "value_pipes _ = []"

definition scope_pipes :: "var_scope \<Rightarrow> nat list" where
  "scope_pipes scope = concat (map (\<lambda>e. value_pipes (snd (snd e))) scope)"

definition captured_pipes :: "'w exec_state \<Rightarrow> nat list" where
  "captured_pipes s =
     concat (map scope_pipes (st_var_scopes s)) @
     concat (map (\<lambda>p. case mr_init (snd p) of Some init \<Rightarrow> scope_pipes (mi_vars init) | None \<Rightarrow> []) (st_modules s))"

text \<open>Marking on the spawner before a worker starts; \<open>handles\<close> names the handle behind a word.\<close>

definition mark_captured_pipes_escaped :: "(nat \<Rightarrow> pipe_handle) \<Rightarrow> 'w exec_state \<Rightarrow> pipe_heap \<Rightarrow> pipe_heap" where
  "mark_captured_pipes_escaped handles s h = fold (\<lambda>p. mark_escaped (handles p)) (captured_pipes s) h"

section \<open>Reading and writing variables\<close>

lemma module_vars_scopes [simp]: "module_vars (s\<lparr>st_var_scopes := x\<rparr>) = module_vars s"
  by (simp add: module_vars_def current_module_def split: option.split)

lemma get_var_typed_value: "get_var s key = map_option snd (get_var_typed s key)"
  by (auto simp: get_var_def get_var_typed_def split: option.splits prod.splits)

lemma map_of_absorb:
  "map_of (absorb result scope) k =
     (case map_of result k of Some v \<Rightarrow> Some v | None \<Rightarrow> map_option snd (map_of scope k))"
  by (induction result scope rule: absorb.induct) (auto simp: map_add_def split: option.splits)

lemma map_of_absorb_scopes:
  "map_of (fold (\<lambda>scope result. absorb result scope) scopes result) k =
     (case map_of result k of Some v \<Rightarrow> Some v
      | None \<Rightarrow> map_option snd (find_map (\<lambda>scope. map_of scope k) scopes))"
  by (induction scopes arbitrary: result) (auto simp: map_of_absorb split: option.splits)

lemma all_vars_get_var: "map_of (all_vars s) k = get_var s k"
  by (auto simp: all_vars_def get_var_def map_of_absorb map_of_absorb_scopes split: option.splits)

lemma assign_innermost_finds:
  "find_map (\<lambda>scope. map_of scope key) scopes = Some slot \<Longrightarrow> \<exists>scopes'. assign_innermost key f scopes = Some scopes'"
  by (induction scopes) (auto split: option.splits)

lemma assign_innermost_found:
  "assign_innermost key f scopes = Some scopes' \<Longrightarrow> find_map (\<lambda>scope. map_of scope key) scopes \<noteq> None"
  by (induction scopes arbitrary: scopes') (auto split: option.splits)

lemma assign_innermost_read:
  assumes "assign_innermost key f scopes = Some scopes'"
  shows "find_map (\<lambda>scope. map_of scope k) scopes' =
     (if k = key then map_option f (find_map (\<lambda>scope. map_of scope k) scopes)
      else find_map (\<lambda>scope. map_of scope k) scopes)"
  using assms
proof (induction scopes arbitrary: scopes')
  case (Cons sc scopes)
  then show ?case by (auto simp: update_conv' split: option.splits)
qed simp

lemma assign_innermost_shape:
  assumes "assign_innermost key f scopes = Some scopes'"
  shows "length scopes' = length scopes"
  using assms by (induction scopes arbitrary: scopes') (auto split: option.splits)

section \<open>The store is typed\<close>

definition scope_typed :: "var_scope \<Rightarrow> bool" where
  "scope_typed sc \<longleftrightarrow> (\<forall>e \<in> set sc. has_type (fst (snd e)) (snd (snd e)))"

definition store_typed :: "'w exec_state \<Rightarrow> bool" where
  "store_typed s \<longleftrightarrow>
     (\<forall>sc \<in> set (st_var_scopes s). scope_typed sc) \<and>
     (\<forall>p \<in> set (st_modules s). \<forall>init. mr_init (snd p) = Some init \<longrightarrow> scope_typed (mi_vars init))"

lemma set_alist_update: "set (AList.update k v al) \<subseteq> insert (k, v) (set al)"
  by (induction al) auto

lemma scope_typed_update: "\<lbrakk>scope_typed sc; has_type t v\<rbrakk> \<Longrightarrow> scope_typed (AList.update k (t, v) sc)"
  using set_alist_update [of k "(t, v)" sc] by (auto simp: scope_typed_def)

lemma scope_typed_lookup: "\<lbrakk>scope_typed sc; map_of sc k = Some (t, v)\<rbrakk> \<Longrightarrow> has_type t v"
  by (auto simp: scope_typed_def dest!: map_of_SomeD)

lemma assign_innermost_typed:
  assumes "assign_innermost key f scopes = Some scopes'" "\<forall>sc \<in> set scopes. scope_typed sc"
    and "\<And>slot. find_map (\<lambda>scope. map_of scope key) scopes = Some slot \<Longrightarrow> has_type (fst (f slot)) (snd (f slot))"
  shows "\<forall>sc \<in> set scopes'. scope_typed sc"
  using assms
proof (induction scopes arbitrary: scopes')
  case (Cons sc scopes)
  show ?case
  proof (cases "map_of sc key")
    case None
    with Cons.prems(1) obtain r where r: "assign_innermost key f scopes = Some r" "scopes' = sc # r" by auto
    have "\<forall>sc \<in> set r. scope_typed sc"
      by (rule Cons.IH [OF r(1)]) (use Cons.prems(2,3) None in auto)
    with r(2) Cons.prems(2) show ?thesis by simp
  next
    case (Some slot)
    then have "has_type (fst (f slot)) (snd (f slot))" using Cons.prems(3) by simp
    then have "scope_typed (AList.update key (f slot) sc)"
      using scope_typed_update [of sc "fst (f slot)" "snd (f slot)" key] Cons.prems(2) by simp
    with Some Cons.prems show ?thesis by auto
  qed
qed simp

lemma find_scope_typed:
  assumes "\<forall>sc \<in> set scopes. scope_typed sc" "find_map (\<lambda>scope. map_of scope key) scopes = Some (t, v)"
  shows "has_type t v"
  using assms by (induction scopes) (auto split: option.splits dest: scope_typed_lookup)

lemma module_vars_typed: "store_typed s \<Longrightarrow> scope_typed (module_vars s)"
  by (auto simp: module_vars_def store_typed_def scope_typed_def [of "[]"] split: option.splits bind_splits
      dest!: map_of_SomeD)

lemma get_var_typed_typed: "\<lbrakk>store_typed s; get_var_typed s key = Some (t, v)\<rbrakk> \<Longrightarrow> has_type t v"
  using module_vars_typed [of s] find_scope_typed [of "st_var_scopes s" key t v]
  by (auto simp: get_var_typed_def store_typed_def split: option.splits dest: scope_typed_lookup)

lemma declare_var_typed:
  assumes "declare_var F key t v s = (s', r)" "store_typed s"
  shows "store_typed s'"
  using assms coerce_typed [of F v t]
  by (auto simp: declare_var_def store_typed_def scope_typed_update split: if_splits sum.splits list.splits)

lemma assign_module_typed:
  assumes "assign_module key v s = Some s'" "store_typed s"
    and "\<And>t w. map_of (module_vars s) key = Some (t, w) \<Longrightarrow> has_type t v"
  shows "store_typed s'"
proof -
  from assms(1) obtain m rec init t w where m: "current_module s = Some m" "map_of (st_modules s) m = Some rec"
      "mr_init rec = Some init" "map_of (mi_vars init) key = Some (t, w)"
    and s': "s' = s\<lparr>st_modules := AList.update m (rec\<lparr>mr_init := Some (init\<lparr>mi_vars := AList.update key (t, v) (mi_vars init)\<rparr>)\<rparr>)
       (st_modules s)\<rparr>"
    by (auto simp: assign_module_def split: option.splits prod.splits)
  have "(m, rec) \<in> set (st_modules s)" using m(2) by (rule map_of_SomeD)
  then have "scope_typed (mi_vars init)" using assms(2) m(3) by (auto simp: store_typed_def)
  moreover have "has_type t v" using assms(3) m by (simp add: module_vars_def)
  ultimately have "scope_typed (AList.update key (t, v) (mi_vars init))" by (rule scope_typed_update)
  then show ?thesis
    using assms(2) s' set_alist_update [of m _ "st_modules s"] by (fastforce simp: store_typed_def)
qed

lemma mutate_var_typed:
  assumes "mutate_var F key v s = (s', r)" "store_typed s"
  shows "store_typed s'"
proof -
  show ?thesis
  proof (cases "get_var_typed s key")
    case None
    with assms show ?thesis by (simp add: mutate_var_def)
  next
    case (Some e)
    obtain t w where e: "e = (t, w)" by (cases e)
    show ?thesis
    proof (cases "coerce_value F v t")
      case (Inl err)
      with Some e assms show ?thesis by (simp add: mutate_var_def)
    next
      case (Inr c)
      then have c: "has_type t c" by (rule coerce_typed)
      have slot: "t = fst slot" if "find_map (\<lambda>scope. map_of scope key) (st_var_scopes s) = Some slot" for slot
        using Some e that by (simp add: get_var_typed_def)
      show ?thesis
      proof (cases "assign_innermost key (\<lambda>slot. (fst slot, c)) (st_var_scopes s)")
        case (Some scopes)
        then have "\<forall>sc \<in> set scopes. scope_typed sc"
          by (rule assign_innermost_typed) (use assms(2) slot c in \<open>auto simp: store_typed_def\<close>)
        moreover have "s' = s\<lparr>st_var_scopes := scopes\<rparr>"
          using assms(1) \<open>get_var_typed s key = Some e\<close> e Inr Some by (simp add: mutate_var_def)
        ultimately show ?thesis using assms(2) by (simp add: store_typed_def)
      next
        case None
        then have "find_map (\<lambda>scope. map_of scope key) (st_var_scopes s) = None"
          using assign_innermost_finds by (metis not_None_eq)
        then have "map_of (module_vars s) key = Some (t, w)" using Some e by (simp add: get_var_typed_def)
        then have "store_typed s1" if "assign_module key c s = Some s1" for s1
          by (intro assign_module_typed [OF that assms(2)]) (use c in auto)
        with assms None Some e Inr show ?thesis
          by (cases "assign_module key c s") (simp_all add: mutate_var_def)
      qed
    qed
  qed
qed

lemma list_push_typed:
  assumes "has_type t v" "list_element t = Some element" "as_list v = Some xs"
    and "\<And>e. element = Some e \<Longrightarrow> has_type e item"
  shows "has_type t (VList (xs @ [item]))"
proof (cases t)
  case TList
  then show ?thesis by (simp add: has_type_iff reader_defs)
next
  case (TListOf e)
  moreover have "v = VList xs" using assms(3) by (cases v) (simp_all add: as_list_def)
  ultimately show ?thesis using assms by (auto simp: list_element_def has_type_ListOf_iff)
qed (use assms(2) in \<open>simp_all add: list_element_def\<close>)

lemma push_into_list_typed:
  assumes "push_into_list key item s = (s', r)" "store_typed s"
  shows "store_typed s'"
proof (cases "s' = s")
  case True
  with assms(2) show ?thesis by simp
next
  case False
  then obtain t v element xs scopes where found: "find_map (\<lambda>scope. map_of scope key) (st_var_scopes s) = Some (t, v)"
      and el: "list_element t = Some element" "as_list v = Some xs"
      and chk: "(case element of None \<Rightarrow> Ok () | Some expected \<Rightarrow>
          check_value_at expected item (''$'' @ key @ ''['' @ show_nat (length xs) @ '']'')) = Ok ()"
      and asg: "assign_innermost key (\<lambda>slot. (fst slot, VList (xs @ [item]))) (st_var_scopes s) = Some scopes"
      and s': "s' = s\<lparr>st_var_scopes := scopes\<rparr>"
    using assms(1) by (auto simp: push_into_list_def split: option.splits sum.splits)
  have "has_type t v" using find_scope_typed [OF _ found] assms(2) by (simp add: store_typed_def)
  moreover have "has_type e item" if "element = Some e" for e
    using chk that check_value_at_ok [of e item "''$'' @ key @ ''['' @ show_nat (length xs) @ '']''"] by simp
  ultimately have "has_type t (VList (xs @ [item]))" using list_push_typed el by blast
  with found have "\<forall>sc \<in> set scopes. scope_typed sc"
    by (intro assign_innermost_typed [OF asg]) (use assms(2) in \<open>auto simp: store_typed_def\<close>)
  with s' assms(2) show ?thesis by (simp add: store_typed_def)
qed

section \<open>Failures and reads after writes\<close>

lemma declare_var_fails: "declare_var F key t v s = (s', Err e) \<Longrightarrow> s' = s"
  by (auto simp: declare_var_def split: if_splits sum.splits list.splits)

lemma declare_var_ok:
  assumes "declare_var F key t v s = (s', Ok u)"
  obtains scope rest c where "st_var_scopes s = scope # rest" "map_of scope key = None"
    "coerce_value F v t = Ok c" "s' = s\<lparr>st_var_scopes := AList.update key (t, c) scope # rest\<rparr>"
  using assms by (auto simp: declare_var_def split: if_splits sum.splits list.splits)

lemma declare_var_reads:
  assumes "declare_var F key t v s = (s', Ok u)"
  shows "get_var_typed s' k = (if k = key then map_option (\<lambda>c. (t, c)) (case coerce_value F v t of Ok c \<Rightarrow> Some c | Err _ \<Rightarrow> None)
     else get_var_typed s k)"
proof -
  obtain scope rest c where "st_var_scopes s = scope # rest" "map_of scope key = None"
    "coerce_value F v t = Ok c" "s' = s\<lparr>st_var_scopes := AList.update key (t, c) scope # rest\<rparr>"
    using assms by (rule declare_var_ok)
  then show ?thesis by (simp add: get_var_typed_def update_conv' split: option.split)
qed

lemma mutate_var_fails: "mutate_var F key v s = (s', Err e) \<Longrightarrow> s' = s"
  by (auto simp: mutate_var_def split: option.splits sum.splits prod.splits)

lemma push_into_list_fails: "push_into_list key item s = (s', Err e) \<Longrightarrow> s' = s"
  by (auto simp: push_into_list_def split: option.splits sum.splits prod.splits)

lemma assign_module_reads:
  assumes "assign_module key c s = Some s'" "map_of (module_vars s) key = Some (t, w)"
  shows "map_of (module_vars s') k = (if k = key then Some (t, c) else map_of (module_vars s) k)"
    and "st_var_scopes s' = st_var_scopes s"
proof -
  from assms obtain m rec init where m: "current_module s = Some m" "map_of (st_modules s) m = Some rec"
      "mr_init rec = Some init" "map_of (mi_vars init) key = Some (t, w)"
    and s': "s' = s\<lparr>st_modules := AList.update m (rec\<lparr>mr_init := Some (init\<lparr>mi_vars := AList.update key (t, c) (mi_vars init)\<rparr>)\<rparr>)
       (st_modules s)\<rparr>"
    by (auto simp: assign_module_def module_vars_def split: option.splits prod.splits)
  then show "st_var_scopes s' = st_var_scopes s" by simp
  have "current_module s' = Some m" using m(1) s' by (simp add: current_module_def)
  then show "map_of (module_vars s') k = (if k = key then Some (t, c) else map_of (module_vars s) k)"
    using m s' by (simp add: module_vars_def update_conv')
qed

lemma mutate_var_reads:
  assumes "mutate_var F key v s = (s', Ok u)"
  shows "\<exists>t w c. get_var_typed s key = Some (t, w) \<and> coerce_value F v t = Ok c \<and>
     (\<forall>k. get_var_typed s' k = (if k = key then Some (t, c) else get_var_typed s k))"
proof -
  from assms obtain t w c where read: "get_var_typed s key = Some (t, w)" and c: "coerce_value F v t = Ok c"
    by (auto simp: mutate_var_def split: option.splits sum.splits prod.splits)
  have "\<forall>k. get_var_typed s' k = (if k = key then Some (t, c) else get_var_typed s k)"
  proof (cases "assign_innermost key (\<lambda>slot. (fst slot, c)) (st_var_scopes s)")
    case (Some scopes)
    then have s': "s' = s\<lparr>st_var_scopes := scopes\<rparr>" using assms read c by (simp add: mutate_var_def)
    with assign_innermost_found [OF Some] read assign_innermost_read [OF Some] show ?thesis
      by (auto simp: get_var_typed_def split: option.split)
  next
    case None
    then have nf: "find_map (\<lambda>scope. map_of scope key) (st_var_scopes s) = None"
      using assign_innermost_finds by (metis not_None_eq)
    then have mod: "map_of (module_vars s) key = Some (t, w)" using read by (simp add: get_var_typed_def)
    from None assms read c have "assign_module key c s = Some s'"
      by (simp add: mutate_var_def split: option.splits)
    from assign_module_reads [OF this mod] nf show ?thesis
      by (simp add: get_var_typed_def split: option.split)
  qed
  with read c show ?thesis by blast
qed

section \<open>Escaped pipes\<close>

lemma mark_all_escaped:
  "flags (fold (\<lambda>p. mark_escaped (handles p)) ps h) c \<longleftrightarrow> flags h c \<or> (\<exists>p \<in> set ps. escaped_to_child (handles p) = c)"
  by (induction ps arbitrary: h) (auto simp: mark_escaped_def)

lemma captured_get_var:
  assumes "get_var s key = Some v"
  shows "set (value_pipes v) \<subseteq> set (captured_pipes s)"
proof -
  have in_scope: "set (value_pipes w) \<subseteq> set (scope_pipes sc)"
    if "map_of sc key = Some (t, w)" for sc t w
    using map_of_SomeD [OF that] by (force simp: scope_pipes_def)
  show ?thesis
  proof (cases "find_map (\<lambda>scope. map_of scope key) (st_var_scopes s)")
    case None
    then obtain t where "map_of (module_vars s) key = Some (t, v)" using assms by (auto simp: get_var_def)
    moreover from this obtain m rec init where "map_of (st_modules s) m = Some rec" "mr_init rec = Some init"
        "module_vars s = mi_vars init"
      by (auto simp: module_vars_def split: option.splits bind_splits)
    ultimately show ?thesis using in_scope [of "mi_vars init" t v]
      by (force simp: captured_pipes_def dest!: map_of_SomeD [of "st_modules s"])
  next
    case (Some e)
    obtain t w where e: "e = (t, w)" by (cases e)
    with Some obtain sc where "sc \<in> set (st_var_scopes s)" "map_of sc key = Some (t, w)"
      using find_map_Some by metis
    moreover have "w = v" using Some e assms by (simp add: get_var_def)
    ultimately show ?thesis using in_scope [of sc t w] by (auto simp: captured_pipes_def)
  qed
qed

section \<open>Properties\<close>

text \<open>The variable store is typed: declaring, assigning and appending never put a word into a
  slot outside its declared type, in a lexical scope or in a module's shared store, and an operation
  that fails leaves the whole state as it was.\<close>

theorem store_stays_typed:
  assumes "store_typed s"
    and "op = declare_var F key t v s \<or> op = mutate_var F key v s \<or> op = push_into_list key v s"
  shows "store_typed (fst op) \<and> (\<not> is_ok (snd op) \<longrightarrow> fst op = s)"
proof -
  obtain s' r where op: "op = (s', r)" by (cases op)
  have "store_typed s'"
    using assms op declare_var_typed [of F key t v s s' r] mutate_var_typed [of F key v s s' r]
      push_into_list_typed [of key v s s' r] by auto
  moreover have "s' = s" if "r = Err e" for e
    using assms(2) op that declare_var_fails [of F key t v s s' e] mutate_var_fails [of F key v s s' e]
      push_into_list_fails [of key v s s' e] by auto
  ultimately show ?thesis using op by (cases r) auto
qed

text \<open>A state with one lexical scope, used to exercise the theorems.\<close>

definition sample_state :: "var_scope list \<Rightarrow> unit exec_state" where
  "sample_state scopes =
     \<lparr>st_cwd = ''/w'', st_root = ''/w'', st_initial_root = ''/w'', st_envs = Map.empty, st_seed = Map.empty,
      st_isolated_stack = [], st_scope_stack = [], st_var_scopes = scopes,
      st_functions = \<lparr>reg_entries = [], reg_frames = [\<lparr>defined = [], shadowed = []\<rparr>]\<rparr>,
      st_modules = [], st_module_stack = [],
      st_directory = \<lparr>types = Map.empty, record_schemas = Map.empty, type_aliases = Map.empty\<rparr>,
      st_tags = \<lparr>composed = Map.empty, next_table = 0\<rparr>,
      st_cancel_token = False, st_cancellable = False, st_reap_floor = None, st_next_task_id = 1,
      st_call_depth = 0, st_task_id = 0, st_inside_async = False, st_world = ()\<rparr>"

theorem store_stays_typed_witness:
  "store_typed (fst (push_into_list ''xs'' (VInt 7)
       (sample_state [[(''xs'', TListOf TInt, VList [VInt 1])]]))) \<and>
     get_var (fst (push_into_list ''xs'' (VInt 7) (sample_state [[(''xs'', TListOf TInt, VList [VInt 1])]]))) ''xs''
       = Some (VList [VInt 1, VInt 7])"
proof -
  let ?s = "sample_state [[(''xs'', TListOf TInt, VList [VInt 1])]]"
  have typed: "store_typed ?s"
    by (simp add: sample_state_def store_typed_def scope_typed_def has_type_ListOf_iff has_type_iff reader_defs)
  have "store_typed (fst (push_into_list ''xs'' (VInt 7) ?s))"
    using store_stays_typed [OF typed, of "push_into_list ''xs'' (VInt 7) ?s" undefined "''xs''" TAny "VInt 7"] by simp
  moreover have "get_var (fst (push_into_list ''xs'' (VInt 7) ?s)) ''xs'' = Some (VList [VInt 1, VInt 7])"
    by (simp add: sample_state_def push_into_list_def list_element_def reader_defs get_var_def)
  ultimately show ?thesis ..
qed

text \<open>Reads follow writes: after a successful declaration or assignment the name reads as the
  coerced value at its declared type, and every other name reads as before, across lexical scopes and the module store.\<close>

theorem reads_follow_writes:
  "(declare_var F key t v s = (s', Ok ()) \<longrightarrow>
      (\<exists>c. coerce_value F v t = Ok c \<and> get_var_typed s' key = Some (t, c)) \<and>
      (\<forall>k. k \<noteq> key \<longrightarrow> get_var_typed s' k = get_var_typed s k)) \<and>
   (mutate_var F key v s = (s', Ok ()) \<longrightarrow>
      (\<exists>t w c. get_var_typed s key = Some (t, w) \<and> coerce_value F v t = Ok c \<and> get_var_typed s' key = Some (t, c)) \<and>
      (\<forall>k. k \<noteq> key \<longrightarrow> get_var_typed s' k = get_var_typed s k))"
proof (intro conjI impI)
  assume d: "declare_var F key t v s = (s', Ok ())"
  then obtain c where c: "coerce_value F v t = Ok c" by (rule declare_var_ok)
  then show "\<exists>c. coerce_value F v t = Ok c \<and> get_var_typed s' key = Some (t, c)"
    using declare_var_reads [OF d, of key] by simp
  show "\<forall>k. k \<noteq> key \<longrightarrow> get_var_typed s' k = get_var_typed s k"
    using declare_var_reads [OF d] by simp
next
  assume m: "mutate_var F key v s = (s', Ok ())"
  from mutate_var_reads [OF m] obtain t w c where
    *: "get_var_typed s key = Some (t, w)" "coerce_value F v t = Ok c"
      "\<forall>k. get_var_typed s' k = (if k = key then Some (t, c) else get_var_typed s k)" by blast
  then show "\<exists>t w c. get_var_typed s key = Some (t, w) \<and> coerce_value F v t = Ok c \<and> get_var_typed s' key = Some (t, c)"
    by auto
  show "\<forall>k. k \<noteq> key \<longrightarrow> get_var_typed s' k = get_var_typed s k" using *(3) by simp
qed

theorem reads_follow_writes_witness:
  "\<forall>F. \<exists>s'. mutate_var F ''a'' (VInt 5) (sample_state [[], [(''a'', TInt, VInt 1), (''b'', TInt, VInt 2)]]) = (s', Ok ()) \<and>
     get_var_typed s' ''a'' = Some (TInt, VInt 5) \<and>
     get_var_typed s' ''b'' = get_var_typed (sample_state [[], [(''a'', TInt, VInt 1), (''b'', TInt, VInt 2)]]) ''b''"
proof
  fix F
  let ?s = "sample_state [[], [(''a'', TInt, VInt 1), (''b'', TInt, VInt 2)]]"
  have c: "coerce_value F (VInt 5) TInt = Ok (VInt 5)"
    by (rule coerce_conforming) (simp add: has_type_iff reader_defs)
  have a: "get_var_typed ?s ''a'' = Some (TInt, VInt 1)" by (simp add: sample_state_def get_var_typed_def)
  define s' where "s' = fst (mutate_var F ''a'' (VInt 5) ?s)"
  have run: "mutate_var F ''a'' (VInt 5) ?s = (s', Ok ())"
    using a c by (simp add: mutate_var_def s'_def) (simp add: sample_state_def)
  have w: "(\<exists>t w c. get_var_typed ?s ''a'' = Some (t, w) \<and> coerce_value F (VInt 5) t = Ok c \<and> get_var_typed s' ''a'' = Some (t, c)) \<and>
      (\<forall>k. k \<noteq> ''a'' \<longrightarrow> get_var_typed s' k = get_var_typed ?s k)"
    using reads_follow_writes [of F "''a''" TAny "VInt 5" ?s s'] run by blast
  with a c have "get_var_typed s' ''a'' = Some (TInt, VInt 5)" by auto
  moreover from w have "get_var_typed s' ''b'' = get_var_typed ?s ''b''" by simp
  ultimately show "\<exists>s'. mutate_var F ''a'' (VInt 5) ?s = (s', Ok ()) \<and> get_var_typed s' ''a'' = Some (TInt, VInt 5) \<and>
     get_var_typed s' ''b'' = get_var_typed ?s ''b''" using run by blast
qed

text \<open>Every pipe a worker could reach is marked before it starts: after
  \<open>mark_captured_pipes_escaped\<close> no pipe held by a visible variable, directly or inside lists
  and maps at any depth, may be promoted to a kernel pipe by any task.\<close>

theorem captured_pipes_never_promote:
  assumes "get_var s key = Some v" and "p \<in> set (value_pipes v)"
  shows "\<not> can_promote_in_task (mark_captured_pipes_escaped handles s h) (handles p) task"
  using captured_get_var [OF assms(1)] assms(2)
  by (auto simp: can_promote_in_task_def has_escaped_def mark_captured_pipes_escaped_def mark_all_escaped)

theorem captured_pipes_never_promote_witness:
  "\<forall>handles h task. \<not> can_promote_in_task
     (mark_captured_pipes_escaped handles (sample_state [[(''bag'', TList, VList [VMap [(''p'', VPipe 3)]])]]) h) (handles 3) task"
proof (intro allI)
  fix handles h task
  show "\<not> can_promote_in_task
     (mark_captured_pipes_escaped handles (sample_state [[(''bag'', TList, VList [VMap [(''p'', VPipe 3)]])]]) h) (handles 3) task"
    by (rule captured_pipes_never_promote [of _ "''bag''" "VList [VMap [(''p'', VPipe 3)]]"])
      (simp_all add: sample_state_def get_var_def)
qed

end
