(* ===== verification/Templates.thy ===== *)
theory Templates
  imports Exec_State
begin

text \<open>Text with placeholders: the shared scanner (\<open>oxdock-parser/src/template.rs\<close>), rendering of
  values, key paths and the argument grammar of placeholder calls
  (\<open>oxdock-process/src/expand.rs\<close>), and the expansion of strings and of \<open>RUN\<close> lines
  (\<open>oxdock-core/src/exec/args.rs\<close>) with the static gate on environment names
  (\<open>static_check.rs\<close>). Hints appended to error messages are not modelled.\<close>

section \<open>Errors of evaluation\<close>

datatype exec_error =
    UndefinedVariable string
  | KeyNotFound string
  | InvalidIndex string
  | IndexOutOfBounds nat
  | ScalarTraversal string
  | NotRenderable string
  | EmptyPlaceholder
  | UndefinedScriptVariable string
  | UndefinedBareKey string bool \<comment> \<open>a hint at \<open>env:\<close> (true) or at the sigil form\<close>
  | UnknownPlaceholderFunction string string
  | BadCallArgument string
  | NestedCall
  | TooDeep
  | BadMapEntry string
  | BadMapKey string
  | DuplicateKey string
  | UnterminatedEscape
  | UndeclaredEnv string
  | UnknownFunction string
  | RecursionLimit string
  | ArityError string nat nat nat
  | HostReturn tag_error
  | HostError nat
  | IntegerOverflow
  | FloatDivisionByZero
  | NonFiniteFloat
  | ArithmeticType string string
  | NegationType string
  | OrderingType string string
  | ConditionType string
  | StackUnderflow
  | StackLeft nat
  | UnstagedBoundary nat
  | StateError state_error
  | TypeResolution resolve_error
  | RegistryError registry_error
  | NotInspectable string
  | TaskCancelled
  | BreakCrosses nat
  | ContinueCrosses nat
  | NotIterable string
  | KeyBindingRequired
  | KeyMustBeString string
  | OutsideIsolated
  | UnexpandedWithIo
  | ExpectedInt string
  | ExpectedDuration string
  | ExitRequest "64 word"
  | DeadlineExceeded
  | ConversionFailed string
  | WrongShape string string
  | NotEncodable string
  | BadHandleArgument
  | CannotCapture nat
  | OutOfFuel

section \<open>Rendering values\<close>

fun format_value_for_string :: "float_ops \<Rightarrow> dvalue \<Rightarrow> exec_error + string" where
  "format_value_for_string F (VStr s) = Ok s"
| "format_value_for_string F (VInt i) = Ok (show_i64 i)"
| "format_value_for_string F (VFloat f) = Ok (f64_to_string F f)"
| "format_value_for_string F (VBool b) = Ok (show_bool b)"
| "format_value_for_string F (VPipe p) = Err (NotRenderable ''PIPE'')"
| "format_value_for_string F (VSemaphore p) = Err (NotRenderable ''SEMAPHORE'')"
| "format_value_for_string F (VPermit p) = Err (NotRenderable ''PERMIT'')"
| "format_value_for_string F (VDuration d) = Ok (format_duration d)"
| "format_value_for_string F (VPath p) = Ok p"
| "format_value_for_string F (VList items) =
     (case map_result (format_value_for_string F) items of
        Err e \<Rightarrow> Err e
      | Ok parts \<Rightarrow> Ok (join_with '' '' parts))"
| "format_value_for_string F (VMap m) =
     (case map_result (\<lambda>p. case format_value_for_string F (snd p) of
          Err e \<Rightarrow> Err e | Ok t \<Rightarrow> Ok (''\"'' @ fst p @ ''\": '' @ t)) m of
        Err e \<Rightarrow> Err e
      | Ok parts \<Rightarrow> Ok (join_with '', '' parts))"
| "format_value_for_string F (VHandle h) = Ok (''task#'' @ show_nat (unat h))"
| "format_value_for_string F (VHost n i) = Ok (host_display F n i)"

section \<open>Key paths\<close>

definition step_into :: "string \<Rightarrow> dvalue \<Rightarrow> exec_error + dvalue" where
  "step_into key current =
     (case as_map current of
        Some m \<Rightarrow> (case map_of m key of Some v \<Rightarrow> Ok v | None \<Rightarrow> Err (KeyNotFound key))
      | None \<Rightarrow>
          (case as_list current of
             Some xs \<Rightarrow>
               (case parse_u64 key of
                  None \<Rightarrow> Err (InvalidIndex key)
                | Some idx \<Rightarrow> if idx < length xs then Ok (xs ! idx) else Err (IndexOutOfBounds idx))
           | None \<Rightarrow> Err (ScalarTraversal key)))"

fun walk_path :: "string list \<Rightarrow> dvalue \<Rightarrow> exec_error + dvalue" where
  "walk_path [] current = Ok current"
| "walk_path (key # keys) current =
     (case step_into key current of Err e \<Rightarrow> Err e | Ok next \<Rightarrow> walk_path keys next)"

definition resolve_key_path_value :: "'w exec_state \<Rightarrow> string \<Rightarrow> string list \<Rightarrow> exec_error + dvalue" where
  "resolve_key_path_value s base keys =
     (case get_var s base of
        None \<Rightarrow> Err (UndefinedVariable base)
      | Some current \<Rightarrow> walk_path keys current)"

text \<open>The variants of \<open>expand.rs\<close> over a flat variable table: \<open>resolve_value_path\<close> for call
  arguments rejects an empty name and parentheses; \<open>resolve_key_path_strict\<close> renders.\<close>

fun walk_arg_path :: "string list \<Rightarrow> dvalue \<Rightarrow> exec_error + dvalue" where
  "walk_arg_path [] current = Ok current"
| "walk_arg_path (segment # rest) current =
     (if CHR ''('' \<in> set segment \<or> CHR '')'' \<in> set segment then Err NestedCall
      else case step_into segment current of Err e \<Rightarrow> Err e | Ok next \<Rightarrow> walk_arg_path rest next)"

definition resolve_value_path :: "string list \<Rightarrow> (string \<times> dvalue) list \<Rightarrow> exec_error + dvalue" where
  "resolve_value_path parts vars =
     (case parts of
        [] \<Rightarrow> Err (BadCallArgument [])
      | root_key # rest \<Rightarrow>
          if root_key = [] then Err (BadCallArgument [])
          else (case map_of vars root_key of
                  None \<Rightarrow> Err (UndefinedScriptVariable root_key)
                | Some current \<Rightarrow> walk_arg_path rest current))"

definition resolve_key_path_strict :: "float_ops \<Rightarrow> string list \<Rightarrow> (string \<times> dvalue) list \<Rightarrow> exec_error + string" where
  "resolve_key_path_strict F parts vars =
     (case parts of
        [] \<Rightarrow> Err (BadCallArgument [])
      | root_key # rest \<Rightarrow>
          (case map_of vars root_key of
             None \<Rightarrow> Err (UndefinedScriptVariable root_key)
           | Some current \<Rightarrow>
               (case walk_path rest current of Err e \<Rightarrow> Err e | Ok v \<Rightarrow> format_value_for_string F v)))"

section \<open>The placeholder scanner\<close>

datatype template_segment = TextSeg string | PlaceholderSeg string

fun find_close :: "string \<Rightarrow> (string \<times> string) option" where
  "find_close [] = None"
| "find_close [c] = None"
| "find_close (c # d # cs) =
     (if c = CHR ''}'' \<and> d = CHR ''}'' then Some ([], cs)
      else map_option (\<lambda>(body, rest). (c # body, rest)) (find_close (d # cs)))"

text \<open>One call of the iterator: the literal text before the next live opener, and the key with the
  text after the closer, if there is one. An opener without a closer makes the rest literal.\<close>

abbreviation backslash :: char where "backslash \<equiv> CHR 0x5C"

fun scan_segment :: "string \<Rightarrow> string \<times> (string \<times> string) option" where
  "scan_segment [] = ([], None)"
| "scan_segment (c # cs) =
     (if c = backslash \<and> take 2 cs = ''{{'' then apfst (append (c # ''{{'')) (scan_segment (drop 2 cs))
      else if c = backslash \<and> take 1 cs = [backslash] then apfst (append [c, backslash]) (scan_segment (drop 1 cs))
      else if c = backslash then apfst (Cons c) (scan_segment cs)
      else if c = CHR ''{'' \<and> take 1 cs = ''{'' then
        (case find_close (drop 1 cs) of
           None \<Rightarrow> (c # cs, None)
         | Some (body, rest) \<Rightarrow> ([], Some (trim body, rest)))
      else apfst (Cons c) (scan_segment cs))"

lemma find_close_length: "find_close s = Some (body, rest) \<Longrightarrow> length rest + 2 \<le> length s"
  by (induction s arbitrary: body rule: find_close.induct) (auto split: if_splits)

lemma apfst_eq_iff: "apfst f p = (a, b) \<longleftrightarrow> (\<exists>t. p = (t, b) \<and> a = f t)"
  by (cases p) auto

lemma scan_segment_length: "scan_segment s = (t, Some (key, rest)) \<Longrightarrow> length rest < length s"
proof (induction s arbitrary: t rule: scan_segment.induct)
  case (2 c cs)
  consider (esc) "c = backslash" "take 2 cs = ''{{''" | (bs) "c = backslash" "take 2 cs \<noteq> ''{{''" "take 1 cs = [backslash]"
    | (opener) "c \<noteq> backslash" "c = CHR ''{''" "take 1 cs = ''{''"
    | (other) "\<not> (c = backslash \<and> take 2 cs = ''{{'')" "\<not> (c = backslash \<and> take 1 cs = [backslash])"
      "\<not> (c = CHR ''{'' \<and> take 1 cs = ''{'')" by metis
  then show ?case
  proof cases
    case opener
    with 2(5) show ?thesis by (auto split: option.splits dest!: find_close_length)
  qed (use 2 in \<open>fastforce simp: apfst_eq_iff split: if_splits\<close>)+
qed simp

function (sequential) segments :: "string \<Rightarrow> template_segment list" where
  "segments [] = []"
| "segments (c # cs) =
     (case scan_segment (c # cs) of
        (t, None) \<Rightarrow> [TextSeg (c # cs)]
      | (t, Some (key, rest)) \<Rightarrow> (if t = [] then [] else [TextSeg t]) @ PlaceholderSeg key # segments rest)"
  by pat_completeness auto

termination
  by (relation "measure length") (auto simp del: scan_segment.simps dest: scan_segment_length [OF sym])


section \<open>Literal text\<close>

text \<open>Escapes of a literal segment; braces are literal here.\<close>

fun push_escaped_text :: "string \<Rightarrow> string" where
  "push_escaped_text [] = []"
| "push_escaped_text (c # cs) =
     (if c \<noteq> backslash then c # push_escaped_text cs
      else if take 1 cs = [backslash] then backslash # push_escaped_text (drop 1 cs)
      else if take 2 cs = ''{{'' then ''{{'' @ push_escaped_text (drop 2 cs)
      else if take 1 cs = ''n'' then CHR 0x0A # push_escaped_text (drop 1 cs)
      else if take 1 cs = ''t'' then CHR 0x09 # push_escaped_text (drop 1 cs)
      else if take 1 cs = ''r'' then CHR 0x0D # push_escaped_text (drop 1 cs)
      else if take 1 cs = [CHR 0x22] then CHR 0x22 # push_escaped_text (drop 1 cs)
      else backslash # push_escaped_text cs)"

section \<open>Placeholder calls\<close>

text \<open>One pass over quoted strings, in which a backslash escapes the next character:
  the three flags are \<open>in_string\<close>, \<open>escaped\<close> and the nesting depth.\<close>

fun split_top :: "char \<Rightarrow> string list \<Rightarrow> string \<Rightarrow> bool \<Rightarrow> bool \<Rightarrow> nat \<Rightarrow> string \<Rightarrow> string list" where
  "split_top sep out current in_string esc depth [] =
     (if out = [] \<and> trim current = [] then [] else out @ [trim current])"
| "split_top sep out current in_string esc depth (c # cs) =
     (if in_string then
        split_top sep out (current @ [c]) (esc \<or> c \<noteq> CHR 0x22) (\<not> esc \<and> c = backslash) depth cs
      else if c = CHR 0x22 then split_top sep out (current @ [c]) True esc depth cs
      else if c = CHR ''{'' \<or> c = CHR ''['' then split_top sep out (current @ [c]) False esc (depth + 1) cs
      else if c = CHR ''}'' \<or> c = CHR '']'' then split_top sep out (current @ [c]) False esc (depth - 1) cs
      else if c = sep \<and> depth = 0 then split_top sep (out @ [trim current]) [] False esc depth cs
      else split_top sep out (current @ [c]) False esc depth cs)"

definition split_top_level :: "string \<Rightarrow> char \<Rightarrow> string list" where
  "split_top_level src sep = split_top sep [] [] False False 0 src"

definition split_args :: "string \<Rightarrow> string list" where
  "split_args src = split_top_level src (CHR '','')"

definition call_word :: "string \<Rightarrow> bool" where
  "call_word w \<longleftrightarrow> w \<noteq> [] \<and> list_all (\<lambda>c. is_ascii_alphanumeric c \<or> c = CHR ''_'' \<or> c = CHR ''-'') w"

definition parse_call :: "string \<Rightarrow> (string \<times> string \<times> string list) option" where
  "parse_call key =
     (case split_once ''::'' key of
        None \<Rightarrow> None
      | Some (module, rest) \<Rightarrow>
          if \<not> call_word module then None
          else (case split_once ''('' rest of
             None \<Rightarrow> None
           | Some (func, args_src) \<Rightarrow>
               if \<not> call_word (trim func) then None
               else (case strip_suffix '')'' args_src of
                  None \<Rightarrow> None
                | Some inner \<Rightarrow> Some (module, trim func, split_args inner))))"

definition parse_placeholder_call :: "string \<Rightarrow> (string \<times> string \<times> string list) option" where
  "parse_placeholder_call key = parse_call (trim key)"

text \<open>\<open>strip_wrapped\<close>: the opener at the start must be closed by the last character and not before.\<close>

fun wrapped_ok :: "char \<Rightarrow> char \<Rightarrow> bool \<Rightarrow> bool \<Rightarrow> nat \<Rightarrow> string \<Rightarrow> bool" where
  "wrapped_ok opener closer in_string esc depth [] = (depth = 0)"
| "wrapped_ok opener closer in_string esc depth (c # cs) =
     (if in_string then wrapped_ok opener closer (esc \<or> c \<noteq> CHR 0x22) (\<not> esc \<and> c = backslash) depth cs
      else if c = CHR 0x22 then wrapped_ok opener closer True esc depth cs
      else if c = opener then wrapped_ok opener closer False esc (depth + 1) cs
      else if c = closer then
        (if depth - 1 = 0 \<and> cs \<noteq> [] then False else wrapped_ok opener closer False esc (depth - 1) cs)
      else wrapped_ok opener closer False esc depth cs)"

definition strip_wrapped :: "string \<Rightarrow> char \<Rightarrow> char \<Rightarrow> string option" where
  "strip_wrapped src opener closer =
     (if take 1 src \<noteq> [opener] \<or> src = [] \<or> last src \<noteq> closer \<or> length src < 2 then None
      else if \<not> wrapped_ok opener closer False False 0 src then None
      else Some (butlast (drop 1 src)))"

fun unescape_literal :: "string \<Rightarrow> exec_error + string" where
  "unescape_literal [] = Ok []"
| "unescape_literal [c] = (if c = backslash then Err UnterminatedEscape else Ok [c])"
| "unescape_literal (c # d # cs) =
     (if c \<noteq> backslash then (case unescape_literal (d # cs) of Err e \<Rightarrow> Err e | Ok t \<Rightarrow> Ok (c # t))
      else (case unescape_literal cs of
          Err e \<Rightarrow> Err e
        | Ok t \<Rightarrow> Ok ((if d = backslash \<or> d = CHR 0x22 then [d] else [backslash, d]) @ t)))"

definition is_quoted :: "string \<Rightarrow> bool" where
  "is_quoted src \<longleftrightarrow> 2 \<le> length src \<and> take 1 src = [CHR 0x22] \<and> last src = CHR 0x22"

definition resolve_call_key :: "string \<Rightarrow> exec_error + string" where
  "resolve_call_key src =
     (if is_quoted src then unescape_literal (butlast (drop 1 src))
      else if src \<noteq> [] \<and> list_all (\<lambda>c. is_ascii_alphanumeric c \<or> c = CHR ''_'') src then Ok src
      else Err (BadMapKey src))"

text \<open>\<open>i64::from_str\<close>: one optional sign, digits, no overflow.\<close>

definition parse_i64 :: "string \<Rightarrow> 64 word option" where
  "parse_i64 s =
     (case strip_prefix ''-'' s of
        Some body \<Rightarrow> if body = [] then None
          else map_option (\<lambda>n. - of_nat n) (parse_digits (2 ^ 63 + 1) 0 body)
      | None \<Rightarrow>
          (let body = (case strip_prefix ''+'' s of Some t \<Rightarrow> t | None \<Rightarrow> s) in
           if body = [] then None else map_option of_nat (parse_digits (2 ^ 63) 0 body)))"

text \<open>The entries of a \<open>BTreeMap<String, _>\<close>: keys in byte order, inserted in place.\<close>

fun str_less :: "string \<Rightarrow> string \<Rightarrow> bool" where
  "str_less [] [] = False"
| "str_less [] (d # ds) = True"
| "str_less (c # cs) [] = False"
| "str_less (c # cs) (d # ds) = ((of_char c :: nat) < of_char d \<or> c = d \<and> str_less cs ds)"

fun btree_insert :: "string \<Rightarrow> 'v \<Rightarrow> (string \<times> 'v) list \<Rightarrow> (string \<times> 'v) list" where
  "btree_insert k v [] = [(k, v)]"
| "btree_insert k v ((k', v') # m) =
     (if k = k' then (k, v) # m
      else if str_less k k' then (k, v) # (k', v') # m
      else (k', v') # btree_insert k v m)"

text \<open>The loop of \<open>resolve_call_map\<close>, over the resolver for the values one level deeper.\<close>

fun resolve_entries ::
    "(string \<Rightarrow> exec_error + dvalue) \<Rightarrow> (string \<times> dvalue) list \<Rightarrow> string list \<Rightarrow> exec_error + (string \<times> dvalue) list" where
  "resolve_entries value_of m [] = Ok m"
| "resolve_entries value_of m (entry # rest) =
     (case split_top_level entry (CHR '':'') of
        [k, v] \<Rightarrow>
          (case resolve_call_key k of
             Err e \<Rightarrow> Err e
           | Ok key \<Rightarrow>
               if map_of m key \<noteq> None then Err (DuplicateKey key)
               else (case value_of v of
                   Err e \<Rightarrow> Err e
                 | Ok w \<Rightarrow> resolve_entries value_of (btree_insert key w m) rest))
      | _ \<Rightarrow> Err (BadMapEntry entry))"

definition resolve_call_map :: "(string \<Rightarrow> exec_error + dvalue) \<Rightarrow> string \<Rightarrow> exec_error + dvalue" where
  "resolve_call_map value_of inner =
     (if trim inner = [] then Ok (VMap [])
      else (case resolve_entries value_of [] (split_top_level inner (CHR '','')) of
          Err e \<Rightarrow> Err e | Ok m \<Rightarrow> Ok (VMap m)))"

definition resolve_call_list :: "(string \<Rightarrow> exec_error + dvalue) \<Rightarrow> string \<Rightarrow> exec_error + dvalue" where
  "resolve_call_list value_of inner =
     (if trim inner = [] then Ok (VList [])
      else (case map_result value_of (split_top_level inner (CHR '','')) of
          Err e \<Rightarrow> Err e | Ok items \<Rightarrow> Ok (VList items)))"

definition MAX_LITERAL_DEPTH :: nat where
  "MAX_LITERAL_DEPTH = 16"

text \<open>The first argument counts the levels still allowed: \<open>MAX_LITERAL_DEPTH + 1 - depth\<close>.\<close>

fun resolve_call_value :: "nat \<Rightarrow> float_ops \<Rightarrow> (string \<times> dvalue) list \<Rightarrow> string \<Rightarrow> exec_error + dvalue" where
  "resolve_call_value 0 F vars src = Err TooDeep"
| "resolve_call_value (Suc n) F vars src =
     (case strip_prefix ''$'' src of
        Some path \<Rightarrow> resolve_value_path (split_on (CHR ''.'') path) vars
      | None \<Rightarrow>
          if is_quoted src then
            (case unescape_literal (butlast (drop 1 src)) of Err e \<Rightarrow> Err e | Ok t \<Rightarrow> Ok (VStr t))
          else (case strip_wrapped src (CHR ''{'') (CHR ''}'') of
             Some inner \<Rightarrow> resolve_call_map (resolve_call_value n F vars) inner
           | None \<Rightarrow>
               (case strip_wrapped src (CHR ''['') (CHR '']'') of
                  Some inner \<Rightarrow> resolve_call_list (resolve_call_value n F vars) inner
                | None \<Rightarrow>
                    if src = ''true'' then Ok (VBool True)
                    else if src = ''false'' then Ok (VBool False)
                    else (case parse_i64 src of
                       Some i \<Rightarrow> Ok (VInt i)
                     | None \<Rightarrow>
                         (case f64_of_str F src of
                            Some f \<Rightarrow> Ok (VFloat f)
                          | None \<Rightarrow> Err (BadCallArgument src))))))"

definition resolve_call_arg :: "float_ops \<Rightarrow> (string \<times> dvalue) list \<Rightarrow> string \<Rightarrow> exec_error + dvalue" where
  "resolve_call_arg F vars src = resolve_call_value (MAX_LITERAL_DEPTH + 1) F vars src"

section \<open>Expansion of strings\<close>

text \<open>Compiled functions by identity: the pure ones placeholders may call.\<close>

type_synonym pure_fns = "nat \<Rightarrow> dvalue list \<Rightarrow> exec_error + dvalue"

definition render :: "float_ops \<Rightarrow> exec_error + dvalue \<Rightarrow> exec_error + string" where
  "render F r = bind_result r (format_value_for_string F)"

definition call_placeholder ::
    "float_ops \<Rightarrow> pure_fns \<Rightarrow> 'w exec_state \<Rightarrow> string \<times> string \<times> string list \<Rightarrow> exec_error + string" where
  "call_placeholder F pure s call =
     (case call of (module, func, args_src) \<Rightarrow>
        (case clone_pure_fn (qualify module func) (st_functions s) of
           None \<Rightarrow> Err (UnknownPlaceholderFunction module func)
         | Some callee \<Rightarrow>
             render F (bind_result (map_result (resolve_call_arg F (all_vars s)) args_src) (pure callee))))"

definition expand_placeholder ::
    "float_ops \<Rightarrow> pure_fns \<Rightarrow> env_map \<Rightarrow> 'w exec_state \<Rightarrow> string \<Rightarrow> exec_error + string" where
  "expand_placeholder F pure env s key =
     (if key = [] then Err EmptyPlaceholder
      else case strip_prefix ''$'' key of
        Some var_expr \<Rightarrow>
          (case map trim (split_on (CHR ''.'') var_expr) of
             base # rest \<Rightarrow> render F (resolve_key_path_value s base rest)
           | [] \<Rightarrow> Err EmptyPlaceholder)
      | None \<Rightarrow>
          (case strip_prefix ''env:'' key of
             Some env_key \<Rightarrow>
               (case (case env (trim env_key) of Some v \<Rightarrow> Some v | None \<Rightarrow> get_env s (trim env_key)) of
                  Some v \<Rightarrow> Ok v | None \<Rightarrow> Ok [])
           | None \<Rightarrow>
               (case strip_prefix ''script_env:'' key of
                  Some env_key \<Rightarrow> (case env (trim env_key) of Some v \<Rightarrow> Ok v | None \<Rightarrow> Ok [])
                | None \<Rightarrow>
                    (case get_var s key of
                       Some v \<Rightarrow> format_value_for_string F v
                     | None \<Rightarrow>
                         (case parse_placeholder_call key of
                            Some call \<Rightarrow> call_placeholder F pure s call
                          | None \<Rightarrow> Err (UndefinedBareKey key (env key \<noteq> None \<or> get_env s key \<noteq> None)))))))"

fun expand_segment ::
    "float_ops \<Rightarrow> pure_fns \<Rightarrow> env_map \<Rightarrow> 'w exec_state \<Rightarrow> template_segment \<Rightarrow> exec_error + string" where
  "expand_segment F pure env s (TextSeg t) = Ok (push_escaped_text t)"
| "expand_segment F pure env s (PlaceholderSeg key) = expand_placeholder F pure env s key"

definition expand_string :: "float_ops \<Rightarrow> pure_fns \<Rightarrow> env_map \<Rightarrow> 'w exec_state \<Rightarrow> string \<Rightarrow> exec_error + string" where
  "expand_string F pure env s input =
     bind_result (map_result (expand_segment F pure env s) (segments input)) (\<lambda>parts. Ok (concat parts))"

text \<open>The gate of the static checker: an environment name a template reads must be declared in a
  frame, seeded by the file, or a sanctioned seed; the empty name is not looked at.\<close>

definition is_sanctioned_seed :: "string \<Rightarrow> bool" where
  "is_sanctioned_seed name \<longleftrightarrow> prefix ''CARGO_FEATURE_'' name \<or> prefix ''CARGO_CFG_'' name"

definition env_declared :: "string list list \<Rightarrow> string list \<Rightarrow> string \<Rightarrow> bool" where
  "env_declared frames seeded name \<longleftrightarrow>
     list_ex (\<lambda>fr. name \<in> set fr) frames \<or> name \<in> set seeded \<or> is_sanctioned_seed name"

definition template_env_name :: "string \<Rightarrow> string option" where
  "template_env_name key =
     map_option trim (case strip_prefix ''env:'' key of Some n \<Rightarrow> Some n | None \<Rightarrow> strip_prefix ''script_env:'' key)"

fun check_segment :: "(string \<Rightarrow> bool) \<Rightarrow> template_segment \<Rightarrow> exec_error + unit" where
  "check_segment declared (TextSeg t) = Ok ()"
| "check_segment declared (PlaceholderSeg key) =
     (case template_env_name key of
        Some name \<Rightarrow> if name \<noteq> [] \<and> \<not> declared name then Err (UndeclaredEnv name) else Ok ()
      | None \<Rightarrow> Ok ())"

definition check_template_env :: "(string \<Rightarrow> bool) \<Rightarrow> string \<Rightarrow> exec_error + unit" where
  "check_template_env declared input = try_each (check_segment declared) (segments input)"

text \<open>Bare \<open>$name\<close> in a \<open>RUN\<close> line. A \<open>{{ ... }}\<close> span is copied through its closer.\<close>

fun copy_span :: "string \<Rightarrow> string \<times> string" where
  "copy_span [] = ([], [])"
| "copy_span (c # cs) =
     (if c = CHR ''}'' \<and> take 1 cs = ''}'' then (''}}'', drop 1 cs)
      else apfst (Cons c) (copy_span cs))"

lemma copy_span_length: "length (snd (copy_span cs)) \<le> length cs"
  by (induction cs) (auto simp: apsnd_def split: prod.splits)

definition is_var_char :: "char \<Rightarrow> bool" where
  "is_var_char c \<longleftrightarrow> is_ascii_alphanumeric c \<or> c = CHR ''_''"

definition prepend :: "string \<Rightarrow> exec_error + string \<Rightarrow> exec_error + string" where
  "prepend p r = (case r of Err e \<Rightarrow> Err e | Ok t \<Rightarrow> Ok (p @ t))"

function (sequential) expand_dsl_vars :: "float_ops \<Rightarrow> 'w exec_state \<Rightarrow> string \<Rightarrow> exec_error + string" where
  "expand_dsl_vars F s [] = Ok []"
| "expand_dsl_vars F s (c # cs) =
     (if c = backslash \<and> take 1 cs = ''$'' then prepend ''$'' (expand_dsl_vars F s (drop 1 cs))
      else if c = CHR ''{'' \<and> take 1 cs = ''{'' then
        prepend (''{{'' @ fst (copy_span (drop 1 cs))) (expand_dsl_vars F s (snd (copy_span (drop 1 cs))))
      else if c = CHR ''$'' then
        (if takeWhile is_var_char cs = [] then prepend ''$'' (expand_dsl_vars F s cs)
         else case get_var s (takeWhile is_var_char cs) of
             Some v \<Rightarrow>
               (case format_value_for_string F v of
                  Err e \<Rightarrow> Err e
                | Ok t \<Rightarrow> prepend t (expand_dsl_vars F s (dropWhile is_var_char cs)))
           | None \<Rightarrow> prepend (''$'' @ takeWhile is_var_char cs) (expand_dsl_vars F s (dropWhile is_var_char cs)))
      else prepend [c] (expand_dsl_vars F s cs))"
  by pat_completeness auto

termination
  by (relation "measure (\<lambda>(F, s, cs). length cs)")
    (auto simp: less_Suc_eq_le intro: order_trans [OF copy_span_length] order_trans [OF length_dropWhile_le])

section \<open>Lookup of streamed templates\<close>

text \<open>\<open>lookup\<close> of \<open>expand.rs\<close>: overrides, the environment, the variables and an optional resolver
  of calls. The last two errors differ only in wording and are one here.\<close>

record expander_env =
  overrides :: env_map
  ex_env :: env_map
  ex_vars :: "(string \<times> dvalue) list"
  call_resolver :: "(string \<Rightarrow> string \<Rightarrow> dvalue list \<Rightarrow> exec_error + dvalue) option"

definition lookup :: "float_ops \<Rightarrow> expander_env \<Rightarrow> string \<Rightarrow> exec_error + string" where
  "lookup F E raw_key =
     (let key = trim raw_key in
      case overrides E key of
        Some v \<Rightarrow> Ok v
      | None \<Rightarrow>
          (case strip_prefix ''env:'' key of
             Some env_key \<Rightarrow>
               (case (case overrides E env_key of Some v \<Rightarrow> Some v | None \<Rightarrow> ex_env E env_key) of
                  Some v \<Rightarrow> Ok v | None \<Rightarrow> Err (UndeclaredEnv env_key))
           | None \<Rightarrow>
               (case strip_prefix ''$'' key of
                  Some var_key \<Rightarrow>
                    if CHR ''.'' \<in> set var_key then resolve_key_path_strict F (split_on (CHR ''.'') var_key) (ex_vars E)
                    else (case map_of (ex_vars E) var_key of
                        Some v \<Rightarrow> format_value_for_string F v
                      | None \<Rightarrow> Err (UndefinedScriptVariable var_key))
                | None \<Rightarrow>
                    (case parse_call key of
                       Some (module, func, args_src) \<Rightarrow>
                         (case call_resolver E of
                            None \<Rightarrow> Err (UnknownPlaceholderFunction module func)
                          | Some resolver \<Rightarrow>
                              render F (bind_result (map_result (resolve_call_arg F (ex_vars E)) args_src) (resolver module func)))
                     | None \<Rightarrow> Err (UndefinedScriptVariable key)))))"

section \<open>Properties\<close>

lemma env_update_module [simp]: "module_vars (s\<lparr>st_envs := es\<rparr>) = module_vars s"
  by (simp add: module_vars_def current_module_def cong: option.case_cong)

lemma env_update_reads [simp]:
  "get_var (s\<lparr>st_envs := es\<rparr>) = get_var s" "all_vars (s\<lparr>st_envs := es\<rparr>) = all_vars s"
  by (auto simp: fun_eq_iff get_var_def all_vars_def cong: option.case_cong)

lemma env_update_paths [simp]: "resolve_key_path_value (s\<lparr>st_envs := es\<rparr>) = resolve_key_path_value s"
  by (simp add: fun_eq_iff resolve_key_path_value_def)

text \<open>Errors up to the hint of an undefined bare key, which looks at the environment.\<close>

fun forget_hint :: "exec_error \<Rightarrow> exec_error" where
  "forget_hint (UndefinedBareKey key hint) = UndefinedBareKey key False"
| "forget_hint e = e"

fun hintless :: "exec_error + 'a \<Rightarrow> exec_error + 'a" where
  "hintless (Inl e) = Inl (forget_hint e)"
| "hintless (Inr x) = Inr x"

lemma hintless_Ok [simp]: "hintless r = Ok x \<longleftrightarrow> r = Ok x"
  by (cases r) auto

lemma hintless_map_result:
  "(\<And>x. x \<in> set xs \<Longrightarrow> hintless (f x) = hintless (g x)) \<Longrightarrow> hintless (map_result f xs) = hintless (map_result g xs)"
proof (induction xs)
  case (Cons x xs)
  have x: "hintless (f x) = hintless (g x)" and xs: "hintless (map_result f xs) = hintless (map_result g xs)"
    using Cons by simp_all
  show ?case
  proof (cases "f x")
    case (Inl e)
    with x show ?thesis by (cases "g x") auto
  next
    case (Inr y)
    with x have "g x = Ok y" by (metis hintless_Ok)
    with Inr xs show ?thesis
      by (cases "map_result f xs"; cases "map_result g xs") auto
  qed
qed simp

lemma expand_placeholder_env:
  assumes "check_segment declared (PlaceholderSeg key) = Ok ()"
    and agree: "\<And>n. n = [] \<or> declared n \<Longrightarrow> env n = env' n \<and> st_envs s n = es n"
  shows "hintless (expand_placeholder F pure env s key) = hintless (expand_placeholder F pure env' (s\<lparr>st_envs := es\<rparr>) key)"
proof (cases "template_env_name key")
  case None
  then have "strip_prefix ''env:'' key = None" "strip_prefix ''script_env:'' key = None"
    by (auto simp: template_env_name_def split: option.splits)
  then show ?thesis
    by (simp add: expand_placeholder_def call_placeholder_def cong: option.case_cong list.case_cong prod.case_cong)
      (simp split: option.split)
next
  case (Some name)
  with assms(1) have "name = [] \<or> declared name" by (auto split: if_splits)
  then have "env name = env' name" "get_env s name = get_env (s\<lparr>st_envs := es\<rparr>) name"
    using agree by (auto simp: get_env_def)
  moreover from Some obtain n where "name = trim n"
      "strip_prefix ''env:'' key = Some n \<or> strip_prefix ''env:'' key = None \<and> strip_prefix ''script_env:'' key = Some n"
    by (auto simp: template_env_name_def split: option.splits)
  moreover from this(2) have "strip_prefix ''$'' key = None" by (auto simp: strip_prefix_Some_iff)
  ultimately show ?thesis
    by (elim disjE conjE) (simp_all add: expand_placeholder_def del: strip_prefix.simps cong: option.case_cong)
qed

text \<open>C36. The static gate bounds what a template can read of the environment: on a text it accepts,
  two environments that agree on the declared names (and on the empty name, which the gate does not
  look at) expand it to the same text or the same error, up to the hint that the error of an
  undefined bare key ends with.\<close>

theorem template_env_gate_sound:
  assumes "check_template_env declared input = Ok ()"
    and "\<And>n. n = [] \<or> declared n \<Longrightarrow> env n = env' n \<and> st_envs s n = es n"
  shows "hintless (expand_string F pure env s input) = hintless (expand_string F pure env' (s\<lparr>st_envs := es\<rparr>) input)"
proof -
  have "hintless (expand_segment F pure env s seg) = hintless (expand_segment F pure env' (s\<lparr>st_envs := es\<rparr>) seg)"
    if "seg \<in> set (segments input)" for seg
  proof (cases seg)
    case (PlaceholderSeg key)
    moreover have "check_segment declared seg = Ok ()"
      using assms(1) that by (auto simp: check_template_env_def try_each_Inr is_ok_iff)
    ultimately show ?thesis using expand_placeholder_env [of declared key env env' s es] assms(2) by simp
  qed simp
  then have "hintless (map_result (expand_segment F pure env s) (segments input)) =
      hintless (map_result (expand_segment F pure env' (s\<lparr>st_envs := es\<rparr>)) (segments input))"
    by (rule hintless_map_result)
  then show ?thesis
    unfolding expand_string_def
    by (cases "map_result (expand_segment F pure env s) (segments input)";
        cases "map_result (expand_segment F pure env' (s\<lparr>st_envs := es\<rparr>)) (segments input)") auto
qed

theorem template_env_gate_sound_witness:
  "\<forall>F pure. hintless (expand_string F pure Map.empty (sample_state [] \<lparr>st_envs := [''HOME'' \<mapsto> ''/h'', ''TOKEN'' \<mapsto> ''x'']\<rparr>)
       ''{{ env:HOME }}/bin'')
     = hintless (expand_string F pure Map.empty (sample_state [] \<lparr>st_envs := [''HOME'' \<mapsto> ''/h'']\<rparr>) ''{{ env:HOME }}/bin'')"
proof (intro allI)
  fix F pure
  let ?s = "sample_state [] \<lparr>st_envs := [''HOME'' \<mapsto> ''/h'', ''TOKEN'' \<mapsto> ''x'']\<rparr>"
  have gate: "check_template_env (\<lambda>n. n = ''HOME'') ''{{ env:HOME }}/bin'' = Ok ()" by code_simp
  have agree: "Map.empty n = Map.empty n \<and> st_envs ?s n = [''HOME'' \<mapsto> ''/h''] n" if "n = [] \<or> n = ''HOME''" for n
    using that by (elim disjE) simp_all
  show "hintless (expand_string F pure Map.empty ?s ''{{ env:HOME }}/bin'')
     = hintless (expand_string F pure Map.empty (sample_state [] \<lparr>st_envs := [''HOME'' \<mapsto> ''/h'']\<rparr>) ''{{ env:HOME }}/bin'')"
    using template_env_gate_sound [OF gate, of Map.empty Map.empty ?s "[''HOME'' \<mapsto> ''/h'']" F pure, OF agree] by simp
qed

text \<open>The hint looks past the gate: the error of a bare key tells whether a variable of this name,
  declared or not, is set in the environment.\<close>

theorem hint_reads_undeclared_name:
  "check_template_env (\<lambda>n. False) ''{{ TOKEN }}'' = Ok ()
   \<and> expand_string F pure Map.empty (sample_state [] \<lparr>st_envs := [''TOKEN'' \<mapsto> ''x'']\<rparr>) ''{{ TOKEN }}''
       = Err (UndefinedBareKey ''TOKEN'' True)
   \<and> expand_string F pure Map.empty (sample_state []) ''{{ TOKEN }}'' = Err (UndefinedBareKey ''TOKEN'' False)"
proof -
  have segs: "segments ''{{ TOKEN }}'' = [PlaceholderSeg ''TOKEN'']" "parse_placeholder_call ''TOKEN'' = None"
    "check_template_env (\<lambda>n. False) ''{{ TOKEN }}'' = Ok ()" by code_simp+
  have vars: "get_var (sample_state []) ''TOKEN'' = None" "get_env (sample_state []) ''TOKEN'' = None"
    by (simp_all add: get_var_def get_env_def sample_state_def module_vars_def current_module_def)
  show ?thesis
    using segs vars by (simp add: expand_string_def expand_placeholder_def get_env_def)
qed

text \<open>Strings and streamed file templates agree on variables: a \<open>$name.path\<close> placeholder whose
  segments carry no surrounding white space and that no override hides renders to the same text in both,
  and fails in both or in neither.\<close>

theorem variable_placeholders_agree:
  assumes "key = CHR ''$'' # path" and "trim key = key"
    and "map trim (split_on (CHR ''.'') path) = split_on (CHR ''.'') path"
    and "overrides E key = None" and "ex_vars E = all_vars s"
  shows "lookup F E key = Ok t \<longleftrightarrow> expand_placeholder F pure env s key = Ok t"
proof -
  obtain base rest where parts: "split_on (CHR ''.'') path = base # rest"
    by (cases "split_on (CHR ''.'') path") auto
  have plain: "rest = []" "base = path" if "CHR ''.'' \<notin> set path"
    using parts split_on_no_sep [OF that] by auto
  have "strip_prefix ''env:'' key = None" using assms(1) by simp
  then show ?thesis
    using assms parts plain
    by (auto simp: lookup_def Let_def expand_placeholder_def resolve_key_path_strict_def resolve_key_path_value_def
        render_def all_vars_get_var result_simps split: option.splits sum.splits)
qed

theorem variable_placeholders_agree_witness:
  "\<forall>F pure env. lookup F \<lparr>overrides = Map.empty, ex_env = Map.empty, ex_vars = all_vars
       (sample_state [[(''p'', TMap, VMap [(''xs'', VList [VStr ''hi''])])]]), call_resolver = None\<rparr> ''$p.xs.0'' = Ok ''hi'' \<and>
     expand_placeholder F pure env (sample_state [[(''p'', TMap, VMap [(''xs'', VList [VStr ''hi''])])]]) ''$p.xs.0'' = Ok ''hi''"
proof (intro allI)
  fix F pure env
  let ?s = "sample_state [[(''p'', TMap, VMap [(''xs'', VList [VStr ''hi''])])]]"
  let ?E = "\<lparr>overrides = Map.empty, ex_env = Map.empty, ex_vars = all_vars ?s, call_resolver = None\<rparr>"
  have parts: "split_on (CHR ''.'') ''p.xs.0'' = [''p'', ''xs'', ''0'']" by code_simp
  have trims: "trim ''$p.xs.0'' = ''$p.xs.0''" "trim ''p'' = ''p''" "trim ''xs'' = ''xs''" "trim ''0'' = ''0''"
    by code_simp+
  have idx: "parse_u64 ''0'' = Some 0" by (simp add: parse_u64_def is_ascii_digit_def digit_value_def)
  have var: "get_var ?s ''p'' = Some (VMap [(''xs'', VList [VStr ''hi''])])"
    by (simp add: get_var_def sample_state_def)
  have key: "strip_prefix ''$'' ''$p.xs.0'' = Some ''p.xs.0''" by simp
  have walk: "walk_path [''xs'', ''0''] (VMap [(''xs'', VList [VStr ''hi''])]) = Ok (VStr ''hi'')"
    by (simp add: step_into_def reader_defs idx)
  have "resolve_key_path_value ?s ''p'' [''xs'', ''0''] = Ok (VStr ''hi'')"
    unfolding resolve_key_path_value_def var by (simp only: option.case walk)
  then have "expand_placeholder F pure env ?s ''$p.xs.0'' = Ok ''hi''"
    unfolding expand_placeholder_def key by (simp add: parts trims render_def del: strip_prefix.simps)
  moreover have "lookup F ?E ''$p.xs.0'' = Ok ''hi'' \<longleftrightarrow> expand_placeholder F pure env ?s ''$p.xs.0'' = Ok ''hi''"
    by (rule variable_placeholders_agree [of _ "''p.xs.0''"]) (simp_all add: parts trims)
  ultimately show "lookup F ?E ''$p.xs.0'' = Ok ''hi'' \<and> expand_placeholder F pure env ?s ''$p.xs.0'' = Ok ''hi''" by blast
qed

end
