(* ===== verification/Streaming_Expand.thy ===== *)
theory Streaming_Expand
  imports Templates
begin

text \<open>The streaming template expander (\<open>oxdock-process/src/expand.rs\<close>, \<open>StreamingExpand\<close>): input
  arrives in chunks of any size, and the bytes a chunk ends in that could start an escape, an
  opener or a closer are deferred to the next one. The specification is a machine that reads
  one byte at a time. Decoding and encoding of text is the Rust library's and is a
  parameter; the delimiters are the default ones, which no caller changes.\<close>

section \<open>The expander\<close>

definition MAX_PLACEHOLDER_SCAN :: nat where
  "MAX_PLACEHOLDER_SCAN = 1024"

abbreviation open_byte :: byte where "open_byte \<equiv> 0x7B"
abbreviation close_byte :: byte where "close_byte \<equiv> 0x7D"
abbreviation escape_byte :: byte where "escape_byte \<equiv> 0x5C"

record utf8_codec =
  from_utf8_lossy :: "byte list \<Rightarrow> string"
  as_bytes :: "string \<Rightarrow> byte list"

record expander =
  ex_buffer :: "byte list"
  in_placeholder :: bool
  pending_brace :: bool
  pending_close_brace :: bool
  pending_escape :: bool
  pending_escape_brace :: bool

definition new_expander :: expander where
  "new_expander = \<lparr>ex_buffer = [], in_placeholder = False, pending_brace = False,
     pending_close_brace = False, pending_escape = False, pending_escape_brace = False\<rparr>"

definition extract_key :: "utf8_codec \<Rightarrow> byte list \<Rightarrow> string" where
  "extract_key U b = trim (from_utf8_lossy U b)"

text \<open>What replaces a placeholder with the given body: \<open>lookup\<close> of its key, as bytes.\<close>

definition resolve_body :: "utf8_codec \<Rightarrow> float_ops \<Rightarrow> expander_env \<Rightarrow> byte list \<Rightarrow> exec_error + byte list" where
  "resolve_body U F E b = (case lookup F E (extract_key U b) of Err e \<Rightarrow> Err e | Ok v \<Rightarrow> Ok (as_bytes U v))"

type_synonym body_resolver = "byte list \<Rightarrow> exec_error + byte list"

definition emit :: "byte list \<Rightarrow> exec_error + 'a \<times> byte list \<Rightarrow> exec_error + 'a \<times> byte list" where
  "emit out r = (case r of Err e \<Rightarrow> Err e | Ok (a, out') \<Rightarrow> Ok (a, out @ out'))"

text \<open>The result of \<open>scan_placeholder\<close> is the state, the output and the input not yet read.\<close>

fun scan_placeholder :: "body_resolver \<Rightarrow> expander \<Rightarrow> byte list \<Rightarrow> exec_error + expander \<times> byte list \<times> byte list" where
  "scan_placeholder R x [] = Ok (x, [], [])"
| "scan_placeholder R x (b # bs) =
     (if b = close_byte \<and> take 1 bs = [close_byte] then
        (case R (ex_buffer x) of
           Err e \<Rightarrow> Err e
         | Ok v \<Rightarrow> Ok (x\<lparr>ex_buffer := [], in_placeholder := False\<rparr>, v, drop 1 bs))
      else if b = close_byte \<and> bs = [] then Ok (x\<lparr>pending_close_brace := True\<rparr>, [], [])
      else if MAX_PLACEHOLDER_SCAN < length (ex_buffer x @ [b]) then
        Ok (x\<lparr>ex_buffer := [], in_placeholder := False\<rparr>, [open_byte, open_byte] @ ex_buffer x @ [b], bs)
      else scan_placeholder R (x\<lparr>ex_buffer := ex_buffer x @ [b]\<rparr>) bs)"

lemma scan_placeholder_length:
  "scan_placeholder R x bs = Ok (x', out, rest) \<Longrightarrow> length rest \<le> length bs"
  by (induction R x bs rule: scan_placeholder.induct) (fastforce split: if_splits sum.splits)+

definition is_literal_byte :: "byte \<Rightarrow> bool" where
  "is_literal_byte b \<longleftrightarrow> b \<noteq> open_byte \<and> b \<noteq> escape_byte"

text \<open>The loop over the normal state.\<close>

function (sequential) normal_loop :: "body_resolver \<Rightarrow> expander \<Rightarrow> byte list \<Rightarrow> exec_error + expander \<times> byte list" where
  "normal_loop R x [] = Ok (x, [])"
| "normal_loop R x (b # bs) =
     (if b = escape_byte then
        (if take 2 bs = [open_byte, open_byte] then emit [open_byte, open_byte] (normal_loop R x (drop 2 bs))
         else if bs = [open_byte] then Ok (x\<lparr>pending_escape_brace := True\<rparr>, [])
         else if take 1 bs = [escape_byte] then emit [escape_byte] (normal_loop R x (drop 1 bs))
         else if bs = [] then Ok (x\<lparr>pending_escape := True\<rparr>, [])
         else emit [escape_byte] (normal_loop R x bs))
      else if b = open_byte then
        (if take 1 bs = [open_byte] then
           (case scan_placeholder R (x\<lparr>in_placeholder := True, ex_buffer := []\<rparr>) (drop 1 bs) of
              Err e \<Rightarrow> Err e
            | Ok (x', out, rest) \<Rightarrow> emit out (normal_loop R x' rest))
         else if bs = [] then Ok (x\<lparr>pending_brace := True\<rparr>, [])
         else emit [open_byte] (normal_loop R x bs))
      else emit (b # takeWhile is_literal_byte bs) (normal_loop R x (dropWhile is_literal_byte bs)))"
  by pat_completeness auto

termination
  by (relation "measure (\<lambda>(R, x, bs). length bs)")
    (auto simp: less_Suc_eq_le intro: order_trans [OF length_dropWhile_le] dest!: scan_placeholder_length)

text \<open>The four deferred cases at the start of a chunk: the state, the output and the index \<open>i\<close>.\<close>

definition resume_close :: "body_resolver \<Rightarrow> byte list \<Rightarrow> expander \<Rightarrow> exec_error + expander \<times> byte list \<times> nat" where
  "resume_close R input x =
     (if pending_close_brace x then
        (let x1 = x\<lparr>pending_close_brace := False\<rparr> in
         if take 1 input = [close_byte] then
           (case R (ex_buffer x1) of
              Err e \<Rightarrow> Err e
            | Ok v \<Rightarrow> Ok (x1\<lparr>ex_buffer := [], in_placeholder := False\<rparr>, v, 1))
         else Ok (x1\<lparr>ex_buffer := ex_buffer x1 @ [close_byte]\<rparr>, [], 0))
      else Ok (x, [], 0))"

definition resume_brace :: "byte list \<Rightarrow> expander \<times> byte list \<times> nat \<Rightarrow> expander \<times> byte list \<times> nat" where
  "resume_brace input r =
     (case r of (x, out, i) \<Rightarrow>
        if pending_brace x then
          (let x1 = x\<lparr>pending_brace := False\<rparr> in
           if take 1 input = [open_byte] then (x1\<lparr>in_placeholder := True, ex_buffer := []\<rparr>, out, 1)
           else (x1, out @ [open_byte], i))
        else (x, out, i))"

definition resume_escape_brace :: "byte list \<Rightarrow> expander \<times> byte list \<times> nat \<Rightarrow> expander \<times> byte list \<times> nat" where
  "resume_escape_brace input r =
     (case r of (x, out, i) \<Rightarrow>
        if pending_escape_brace x then
          (let x1 = x\<lparr>pending_escape_brace := False\<rparr> in
           if take 1 input = [open_byte] then (x1, out @ [open_byte, open_byte], 1)
           else (x1, out @ [escape_byte, open_byte], i))
        else (x, out, i))"

definition resume_escape :: "byte list \<Rightarrow> expander \<times> byte list \<times> nat \<Rightarrow> expander \<times> byte list \<times> nat" where
  "resume_escape input r =
     (case r of (x, out, i) \<Rightarrow>
        if pending_escape x then
          (let x1 = x\<lparr>pending_escape := False\<rparr> in
           if take 2 input = [open_byte, open_byte] then (x1, out @ [open_byte, open_byte], 2)
           else if input = [open_byte] then (x1\<lparr>pending_escape_brace := True\<rparr>, out, 1)
           else if take 1 input = [escape_byte] then (x1, out @ [escape_byte], 1)
           else (x1, out @ [escape_byte], i))
        else (x, out, i))"

definition process_bytes :: "body_resolver \<Rightarrow> expander \<Rightarrow> byte list \<Rightarrow> exec_error + expander \<times> byte list" where
  "process_bytes R x input =
     (if input = [] then Ok (x, [])
      else case resume_close R input x of
        Err e \<Rightarrow> Err e
      | Ok r \<Rightarrow>
          (case resume_escape input (resume_escape_brace input (resume_brace input r)) of
             (x1, out, i) \<Rightarrow>
               if in_placeholder x1 then
                 (case scan_placeholder R x1 (drop i input) of
                    Err e \<Rightarrow> Err e
                  | Ok (x2, out2, rest) \<Rightarrow> emit (out @ out2) (normal_loop R x2 rest))
               else emit out (normal_loop R x1 (drop i input))))"

text \<open>\<open>flush\<close>: the bytes still held, as literals.\<close>

definition flush_expander :: "expander \<Rightarrow> byte list" where
  "flush_expander x =
     (let b = (if pending_close_brace x then ex_buffer x @ [close_byte] else ex_buffer x) in
      (if pending_brace x then [open_byte] else []) @
      (if pending_escape x then [escape_byte] else []) @
      (if pending_escape_brace x then [escape_byte, open_byte] else []) @
      (if in_placeholder x then [open_byte, open_byte] else []) @ b)"

fun stream_expand :: "body_resolver \<Rightarrow> expander \<Rightarrow> byte list list \<Rightarrow> exec_error + byte list" where
  "stream_expand R x [] = Ok (flush_expander x)"
| "stream_expand R x (chunk # chunks) =
     (case process_bytes R x chunk of
        Err e \<Rightarrow> Err e
      | Ok (x', out) \<Rightarrow>
          (case stream_expand R x' chunks of Err e \<Rightarrow> Err e | Ok out' \<Rightarrow> Ok (out @ out')))"

section \<open>The byte-at-a-time machine\<close>

datatype mode = Plain | Opening | Escaping | EscapingBrace | Inside "byte list" | Closing "byte list"

definition feed_plain :: "byte \<Rightarrow> mode \<times> byte list" where
  "feed_plain b =
     (if b = escape_byte then (Escaping, []) else if b = open_byte then (Opening, []) else (Plain, [b]))"

definition feed_inside :: "byte list \<Rightarrow> byte \<Rightarrow> mode \<times> byte list" where
  "feed_inside body b =
     (if b = close_byte then (Closing body, [])
      else if MAX_PLACEHOLDER_SCAN < length body + 1 then (Plain, [open_byte, open_byte] @ body @ [b])
      else (Inside (body @ [b]), []))"

fun feed :: "body_resolver \<Rightarrow> mode \<Rightarrow> byte \<Rightarrow> exec_error + mode \<times> byte list" where
  "feed R Plain b = Ok (feed_plain b)"
| "feed R Opening b = (if b = open_byte then Ok (Inside [], []) else Ok (apsnd (Cons open_byte) (feed_plain b)))"
| "feed R Escaping b =
     (if b = open_byte then Ok (EscapingBrace, [])
      else if b = escape_byte then Ok (Plain, [escape_byte])
      else Ok (apsnd (Cons escape_byte) (feed_plain b)))"
| "feed R EscapingBrace b =
     (if b = open_byte then Ok (Plain, [open_byte, open_byte])
      else Ok (apsnd (append [escape_byte, open_byte]) (feed_plain b)))"
| "feed R (Inside body) b = Ok (feed_inside body b)"
| "feed R (Closing body) b =
     (if b = close_byte then (case R body of Err e \<Rightarrow> Err e | Ok v \<Rightarrow> Ok (Plain, v))
      else if MAX_PLACEHOLDER_SCAN < length body + 1
      then Ok (apsnd (append ([open_byte, open_byte] @ body @ [close_byte])) (feed_plain b))
      else Ok (feed_inside (body @ [close_byte]) b))"

fun feeds :: "body_resolver \<Rightarrow> mode \<Rightarrow> byte list \<Rightarrow> exec_error + mode \<times> byte list" where
  "feeds R q [] = Ok (q, [])"
| "feeds R q (b # bs) = (case feed R q b of Err e \<Rightarrow> Err e | Ok (q', out) \<Rightarrow> emit out (feeds R q' bs))"

fun finish :: "mode \<Rightarrow> byte list" where
  "finish Plain = []"
| "finish Opening = [open_byte]"
| "finish Escaping = [escape_byte]"
| "finish EscapingBrace = [escape_byte, open_byte]"
| "finish (Inside body) = [open_byte, open_byte] @ body"
| "finish (Closing body) = [open_byte, open_byte] @ body @ [close_byte]"

text \<open>The machine is never at the one place where the expander depends on the chunks: a body
  of exactly the maximal length followed by a lone closing byte.\<close>

fun at_limit :: "mode \<Rightarrow> byte \<Rightarrow> bool" where
  "at_limit (Closing body) b \<longleftrightarrow> length body = MAX_PLACEHOLDER_SCAN \<and> b \<noteq> close_byte"
| "at_limit q b \<longleftrightarrow> False"

fun calm :: "body_resolver \<Rightarrow> mode \<Rightarrow> byte list \<Rightarrow> bool" where
  "calm R q [] = True"
| "calm R q (b # bs) =
     (\<not> at_limit q b \<and> (case feed R q b of Err e \<Rightarrow> True | Ok (q', out) \<Rightarrow> calm R q' bs))"

text \<open>The expander state of a mode.\<close>

fun conc :: "mode \<Rightarrow> expander" where
  "conc Plain = new_expander"
| "conc Opening = new_expander\<lparr>pending_brace := True\<rparr>"
| "conc Escaping = new_expander\<lparr>pending_escape := True\<rparr>"
| "conc EscapingBrace = new_expander\<lparr>pending_escape_brace := True\<rparr>"
| "conc (Inside body) = new_expander\<lparr>in_placeholder := True, ex_buffer := body\<rparr>"
| "conc (Closing body) = new_expander\<lparr>in_placeholder := True, ex_buffer := body, pending_close_brace := True\<rparr>"

section \<open>Refinement\<close>

lemma emit_simps [simp]:
  "emit [] r = r" "emit a (emit b r) = emit (a @ b) r" "emit a (Err e) = Err e"
  "emit a (Ok (q, b)) = Ok (q, a @ b)"
  by (auto simp: emit_def split: sum.splits)

definition refine :: "exec_error + mode \<times> byte list \<Rightarrow> exec_error + expander \<times> byte list" where
  "refine r = (case r of Err e \<Rightarrow> Err e | Ok (q, out) \<Rightarrow> Ok (conc q, out))"

lemma refine_simps [simp]:
  "refine (emit out r) = emit out (refine r)" "refine (Err e) = Err e" "refine (Ok (q, out)) = Ok (conc q, out)"
  by (auto simp: refine_def emit_def split: sum.splits)

lemma feeds_append:
  "feeds R q (a @ b) = (case feeds R q a of Err e \<Rightarrow> Err e | Ok (q', out) \<Rightarrow> emit out (feeds R q' b))"
  by (induction a arbitrary: q) (auto split: sum.splits prod.splits)

lemma calm_append:
  "calm R q (a @ b) \<longleftrightarrow> calm R q a \<and> (case feeds R q a of Err e \<Rightarrow> True | Ok (q', out) \<Rightarrow> calm R q' b)"
  by (induction a arbitrary: q) (auto split: sum.splits prod.splits)

lemma lone_close_feeds:
  assumes "c \<noteq> close_byte"
  shows "feeds R (Closing body) (c # bs) =
      (if MAX_PLACEHOLDER_SCAN < length body + 1
       then emit ([open_byte, open_byte] @ body @ [close_byte]) (feeds R Plain (c # bs))
       else feeds R (Inside (body @ [close_byte])) (c # bs))"
    and "calm R (Closing body) (c # bs) \<Longrightarrow>
      length body \<noteq> MAX_PLACEHOLDER_SCAN \<and>
      (if MAX_PLACEHOLDER_SCAN < length body + 1 then calm R Plain (c # bs)
       else calm R (Inside (body @ [close_byte])) (c # bs))"
  using assms by (auto simp: apsnd_def map_prod_def split: prod.splits)

definition scan_ok :: "body_resolver \<Rightarrow> byte list \<Rightarrow> byte list \<Rightarrow> bool" where
  "scan_ok R body bs \<longleftrightarrow>
     (case scan_placeholder R (conc (Inside body)) bs of
        Err e \<Rightarrow> feeds R (Inside body) bs = Err e
      | Ok (x', out, rest) \<Rightarrow>
          (\<exists>q. x' = conc q \<and> (rest = [] \<or> q = Plain) \<and> calm R q rest \<and>
             feeds R (Inside body) bs = emit out (feeds R q rest)))"

lemma conc_Inside_push: "(conc (Inside body))\<lparr>ex_buffer := b\<rparr> = conc (Inside b)"
  by simp

lemma scan_refines: "calm R (Inside body) bs \<Longrightarrow> scan_ok R body bs"
proof (induction bs arbitrary: body)
  case Nil
  then show ?case by (auto simp: scan_ok_def intro: exI [of _ "Inside body"])
next
  case (Cons b bs)
  show ?case
  proof (cases "b = close_byte")
    case False
    show ?thesis
    proof (cases "MAX_PLACEHOLDER_SCAN < length body + 1")
      case True
      with False Cons.prems show ?thesis
        by (auto simp: scan_ok_def feed_inside_def new_expander_def intro!: exI [of _ Plain])
    next
      case under: False
      with False Cons have "scan_ok R (body @ [b]) bs" by (simp add: feed_inside_def)
      with under False show ?thesis by (auto simp: scan_ok_def feed_inside_def split: sum.splits)
    qed
  next
    case close: True
    show ?thesis
    proof (cases bs)
      case Nil
      with close show ?thesis
        by (auto simp: scan_ok_def feed_inside_def new_expander_def intro!: exI [of _ "Closing body"])
    next
      case (Cons c cs)
      have step: "feeds R (Inside body) (b # bs) = feeds R (Closing body) bs" "calm R (Closing body) bs"
        using close Cons.prems by (simp_all add: feed_inside_def)
      show ?thesis
      proof (cases "c = close_byte")
        case True
        with close Cons step show ?thesis
          by (auto simp: scan_ok_def feed_inside_def new_expander_def split: sum.splits intro!: exI [of _ Plain])
      next
        case False
        note lone = lone_close_feeds [OF False, of R body cs]
        have calm: "calm R (Inside (body @ [close_byte])) bs" "length body + 1 \<le> MAX_PLACEHOLDER_SCAN"
          if "\<not> MAX_PLACEHOLDER_SCAN < length body + 1"
          using lone(2) step(2) Cons that by auto
        show ?thesis
        proof (cases "MAX_PLACEHOLDER_SCAN < length body + 1")
          case True
          with lone step(2) Cons have "calm R Plain bs" by auto
          with True lone(1) step close Cons False show ?thesis
            by (auto simp: scan_ok_def new_expander_def simp del: feeds.simps calm.simps intro!: exI [of _ Plain])
        next
          case under: False
          with calm Cons.IH have "scan_ok R (body @ [close_byte]) bs" by blast
          moreover have "feeds R (Inside body) (b # bs) = feeds R (Inside (body @ [close_byte])) bs"
            using under lone(1) step(1) Cons by (simp del: feeds.simps)
          moreover have "scan_placeholder R (conc (Inside body)) (b # bs) =
              scan_placeholder R (conc (Inside (body @ [close_byte]))) bs"
            using under close Cons False by (subst scan_placeholder.simps(2)) simp
          ultimately show ?thesis by (simp only: scan_ok_def)
        qed
      qed
    qed
  qed
qed

lemma feeds_literal:
  assumes "\<forall>b \<in> set lits. is_literal_byte b"
  shows "feeds R Plain (lits @ bs) = emit lits (feeds R Plain bs)"
    and "calm R Plain (lits @ bs) = calm R Plain bs"
  using assms by (induction lits) (auto simp: is_literal_byte_def feed_plain_def)

lemma take_one_eq: "take 1 bs = [b] \<longleftrightarrow> (\<exists>cs. bs = b # cs)"
  by (cases bs) auto

lemma take_two_eq: "take 2 bs = [b, c] \<longleftrightarrow> (\<exists>cs. bs = b # c # cs)"
  by (cases bs; cases "List.tl bs") auto

text \<open>After a backslash that escapes nothing the machine is in the plain state again.\<close>

lemma plain_escape:
  assumes "bs \<noteq> []" "take 2 bs \<noteq> [open_byte, open_byte]" "bs \<noteq> [open_byte]" "take 1 bs \<noteq> [escape_byte]"
  shows "feeds R Escaping bs = emit [escape_byte] (feeds R Plain bs)"
    and "calm R Escaping bs \<Longrightarrow> calm R Plain bs"
  using assms
  by (cases bs; cases "List.tl bs"; auto simp: feed_plain_def take_two_eq split: if_splits sum.splits)+

lemma plain_open:
  assumes "bs \<noteq> []" "take 1 bs \<noteq> [open_byte]"
  shows "feeds R Opening bs = emit [open_byte] (feeds R Plain bs)"
    and "calm R Opening bs \<Longrightarrow> calm R Plain bs"
  using assms by (cases bs; auto simp: feed_plain_def split: if_splits)+

lemma normal_refines: "calm R Plain bs \<Longrightarrow> normal_loop R (conc Plain) bs = refine (feeds R Plain bs)"
proof (induction bs rule: length_induct)
  case (1 bs)
  then have IH: "normal_loop R new_expander cs = refine (feeds R Plain cs)"
    if "length cs < length bs" "calm R Plain cs" for cs using that by simp
  show ?case
  proof (cases bs)
    case (Cons b cs)
    consider "b = escape_byte" | "b = open_byte" | "is_literal_byte b" by (auto simp: is_literal_byte_def)
    then show ?thesis
    proof cases
      case 1
      have esc: "feeds R Plain bs = feeds R Escaping cs" "calm R Escaping cs"
        using Cons 1 \<open>calm R Plain bs\<close> by (simp_all add: feed_plain_def)
      consider (opener) ds where "cs = open_byte # open_byte # ds" | (brace) "cs = [open_byte]"
        | (pair) ds where "cs = escape_byte # ds" | (none) "cs = []"
        | (other) "cs \<noteq> []" "take 2 cs \<noteq> [open_byte, open_byte]" "cs \<noteq> [open_byte]" "take 1 cs \<noteq> [escape_byte]"
        unfolding take_one_eq take_two_eq by blast
      then show ?thesis
      proof cases
        case other
        with plain_escape [OF other, of R] esc IH [of cs] Cons 1 show ?thesis by simp
      qed (use esc IH Cons 1 in \<open>auto simp: feed_plain_def\<close>)
    next
      case 2
      have opn: "feeds R Plain bs = feeds R Opening cs" "calm R Opening cs"
        using Cons 2 \<open>calm R Plain bs\<close> by (simp_all add: feed_plain_def)
      consider (opener) ds where "cs = open_byte # ds" | (none) "cs = []"
        | (other) "cs \<noteq> []" "take 1 cs \<noteq> [open_byte]" unfolding take_one_eq by blast
      then show ?thesis
      proof cases
        case (opener ds)
        with opn have "scan_ok R [] ds" "feeds R Plain bs = feeds R (Inside []) ds"
          by (auto intro: scan_refines)
        moreover have "new_expander\<lparr>in_placeholder := True, ex_buffer := []\<rparr> = conc (Inside [])" by simp
        ultimately show ?thesis
          using Cons 2 opener IH scan_placeholder_length [of R "conc (Inside [])" ds]
          by (auto simp: scan_ok_def simp del: conc.simps(5) split: sum.splits)
      next
        case other
        with plain_open [OF other, of R] opn IH [of cs] Cons 2 show ?thesis by simp
      qed (use opn Cons 2 in auto)
    next
      case 3
      define lits where "lits = b # takeWhile is_literal_byte cs"
      have bs: "bs = lits @ dropWhile is_literal_byte cs" and "\<forall>x \<in> set lits. is_literal_byte x"
        using Cons 3 by (auto simp: lits_def dest: set_takeWhileD)
      with feeds_literal [of lits R "dropWhile is_literal_byte cs"] \<open>calm R Plain bs\<close>
      have "feeds R Plain bs = emit lits (feeds R Plain (dropWhile is_literal_byte cs))"
        "calm R Plain (dropWhile is_literal_byte cs)" by simp_all
      moreover have "length (dropWhile is_literal_byte cs) < length bs"
        using Cons length_dropWhile_le [of is_literal_byte cs] by simp
      ultimately show ?thesis
        using IH [of "dropWhile is_literal_byte cs"] 3 Cons by (simp add: lits_def is_literal_byte_def)
    qed
  qed simp
qed

lemmas resume_defs = resume_close_def resume_brace_def resume_escape_brace_def resume_escape_def Let_def

lemma inside_refines:
  assumes "calm R (Inside body) bs"
  shows "(case scan_placeholder R (conc (Inside body)) bs of
      Err e \<Rightarrow> Err e
    | Ok (x2, out2, rest) \<Rightarrow> emit ([] @ out2) (normal_loop R x2 rest)) = refine (feeds R (Inside body) bs)"
  using scan_refines [OF assms] normal_refines [of R]
  by (auto simp: scan_ok_def simp del: conc.simps split: sum.splits)

lemma escaping_brace_chunk:
  assumes "bs \<noteq> []" "take 1 bs \<noteq> [open_byte]"
  shows "feeds R EscapingBrace bs = emit [escape_byte, open_byte] (feeds R Plain bs)"
    and "calm R EscapingBrace bs \<Longrightarrow> calm R Plain bs"
  using assms by (cases bs; auto simp: feed_plain_def split: if_splits)+

text \<open>Between calls the buffer is within the limit.\<close>

fun within :: "mode \<Rightarrow> bool" where
  "within (Inside body) \<longleftrightarrow> length body \<le> MAX_PLACEHOLDER_SCAN"
| "within (Closing body) \<longleftrightarrow> length body \<le> MAX_PLACEHOLDER_SCAN"
| "within q \<longleftrightarrow> True"

lemma feed_plain_within: "feed_plain b = (q', out) \<Longrightarrow> within q'"
  by (auto simp: feed_plain_def split: if_splits)

lemma feed_inside_within: "\<lbrakk>feed_inside body b = (q', out); length body \<le> MAX_PLACEHOLDER_SCAN\<rbrakk> \<Longrightarrow> within q'"
  by (auto simp: feed_inside_def split: if_splits)

lemma feed_within: "\<lbrakk>feed R q b = Ok (q', out); within q\<rbrakk> \<Longrightarrow> within q'"
  by (cases q) (auto simp: apsnd_def map_prod_def split: if_splits sum.splits prod.splits
      dest: feed_plain_within feed_inside_within)

lemma feeds_within: "\<lbrakk>feeds R q bs = Ok (q', out); within q\<rbrakk> \<Longrightarrow> within q'"
proof (induction bs arbitrary: q out)
  case (Cons b bs)
  from Cons.prems(1) obtain q1 o1 o2 where "feed R q b = Ok (q1, o1)" "feeds R q1 bs = Ok (q', o2)"
    by (auto simp: emit_def split: sum.splits)
  with Cons.IH Cons.prems(2) feed_within show ?case by blast
qed simp

lemma process_refines:
  assumes "calm R q input" and "within q"
  shows "process_bytes R (conc q) input = refine (feeds R q input)"
proof (cases "input = []")
  case False
  then obtain b bs where input: "input = b # bs" by (cases input) auto
  show ?thesis
  proof (cases q)
    case Plain
    with False assms normal_refines show ?thesis
      by (simp add: process_bytes_def resume_defs new_expander_def)
  next
    case Opening
    show ?thesis
    proof (cases "b = open_byte")
      case True
      with Opening input assms inside_refines [of R "[]" bs] show ?thesis
        by (simp add: process_bytes_def resume_defs new_expander_def)
    next
      case no: False
      with Opening input assms plain_open [of input R] normal_refines [of R input] show ?thesis
        by (simp add: process_bytes_def resume_defs new_expander_def)
    qed
  next
    case Escaping
    consider (opener) ds where "input = open_byte # open_byte # ds" | (brace) "input = [open_byte]"
      | (pair) "b = escape_byte"
      | (other) "take 2 input \<noteq> [open_byte, open_byte]" "input \<noteq> [open_byte]" "take 1 input \<noteq> [escape_byte]"
      unfolding take_one_eq take_two_eq using input by blast
    then show ?thesis
    proof cases
      case other
      with Escaping assms plain_escape [OF False other, of R] normal_refines [of R input] False show ?thesis
        by (simp add: process_bytes_def resume_defs new_expander_def)
    qed (use Escaping assms input normal_refines [of R] in \<open>auto simp: process_bytes_def resume_defs new_expander_def\<close>)
  next
    case EscapingBrace
    show ?thesis
    proof (cases "b = open_byte")
      case True
      with EscapingBrace input assms normal_refines [of R bs] show ?thesis
        by (simp add: process_bytes_def resume_defs new_expander_def)
    next
      case no: False
      with EscapingBrace input assms escaping_brace_chunk [of input R] normal_refines [of R input] show ?thesis
        by (simp add: process_bytes_def resume_defs new_expander_def)
    qed
  next
    case (Inside body)
    with False assms inside_refines [of R body input] show ?thesis
      by (simp add: process_bytes_def resume_defs new_expander_def)
  next
    case (Closing body)
    show ?thesis
    proof (cases "b = close_byte")
      case True
      with Closing input assms normal_refines [of R bs] show ?thesis
        by (cases "R body") (simp_all add: process_bytes_def resume_defs new_expander_def)
    next
      case no: False
      have body: "length body \<le> MAX_PLACEHOLDER_SCAN" using assms(2) Closing by simp
      from assms(1) Closing input have "length body \<noteq> MAX_PLACEHOLDER_SCAN"
        and calm: "calm R (Closing body) input" using no by auto
      with body have under: "\<not> MAX_PLACEHOLDER_SCAN < length body + 1" by simp
      with lone_close_feeds [OF no, of R body bs] calm input
      have "feeds R (Closing body) input = feeds R (Inside (body @ [close_byte])) input"
        "calm R (Inside (body @ [close_byte])) input" by (simp_all del: feeds.simps calm.simps)
      moreover have "process_bytes R (conc q) input =
          (case scan_placeholder R (conc (Inside (body @ [close_byte]))) input of
             Err e \<Rightarrow> Err e
           | Ok (x2, out2, rest) \<Rightarrow> emit ([] @ out2) (normal_loop R x2 rest))"
        unfolding Closing process_bytes_def using no input
        by (simp add: resume_defs new_expander_def del: scan_placeholder.simps)
      ultimately show ?thesis using inside_refines Closing by metis
    qed
  qed
qed (simp add: process_bytes_def)

lemma flush_refines: "flush_expander (conc q) = finish q"
  by (cases q) (simp_all add: flush_expander_def new_expander_def)

lemma stream_refines:
  assumes "calm R q (concat chunks)" and "within q"
  shows "stream_expand R (conc q) chunks =
     (case feeds R q (concat chunks) of Err e \<Rightarrow> Err e | Ok (q', out) \<Rightarrow> Ok (out @ finish q'))"
  using assms
proof (induction chunks arbitrary: q)
  case (Cons chunk chunks)
  then have "process_bytes R (conc q) chunk = refine (feeds R q chunk)"
    by (simp add: calm_append process_refines)
  show ?case
  proof (cases "feeds R q chunk")
    case (Inr r)
    obtain q' out where r: "r = (q', out)" by (cases r)
    with Cons.prems Inr have "calm R q' (concat chunks)" "within q'"
      by (auto simp: calm_append dest: feeds_within)
    note IH = Cons.IH [OF this]
    show ?thesis
      using Inr r IH \<open>process_bytes R (conc q) chunk = refine (feeds R q chunk)\<close>
      by (cases "feeds R q' (concat chunks)") (auto simp: feeds_append)
  qed (use \<open>process_bytes R (conc q) chunk = refine (feeds R q chunk)\<close> in \<open>simp add: feeds_append\<close>)
qed (simp add: flush_refines)

text \<open>A text no longer than the limit is never at the limit.\<close>

fun body_length :: "mode \<Rightarrow> nat" where
  "body_length (Inside body) = length body"
| "body_length (Closing body) = length body + 1"
| "body_length q = 0"

lemma feed_body_length: "feed R q b = Ok (q', out) \<Longrightarrow> body_length q' \<le> body_length q + 1"
  by (cases q) (auto simp: feed_plain_def feed_inside_def split: if_splits sum.splits)

lemma calm_short: "body_length q + length bs \<le> MAX_PLACEHOLDER_SCAN + 1 \<Longrightarrow> calm R q bs"
proof (induction bs arbitrary: q)
  case (Cons b bs)
  then have "\<not> at_limit q b" by (cases q) auto
  moreover have "calm R q' bs" if "feed R q b = Ok (q', out)" for q' out
    using Cons feed_body_length [OF that] by auto
  ultimately show ?case by (auto split: sum.splits)
qed simp

section \<open>Properties\<close>

text \<open>C37. Expansion does not depend on how the input is cut into chunks: whenever no placeholder body
  of exactly the maximal length is followed by a lone closing brace, any chunking of a text, empty
  chunks included, gives the result of the byte-at-a-time machine, errors included.\<close>

theorem chunking_invariant:
  assumes "calm R Plain (concat chunks)"
  shows "stream_expand R new_expander chunks =
     (case feeds R Plain (concat chunks) of Err e \<Rightarrow> Err e | Ok (q, out) \<Rightarrow> Ok (out @ finish q))"
  using stream_refines [OF assms] by simp

theorem chunking_invariant_witness:
  "stream_expand (\<lambda>body. Ok (0x3D # body)) new_expander [[0x61, 0x7B], [], [0x7B, 0x6B, 0x7D], [0x7D, 0x62]]
     = Ok [0x61, 0x3D, 0x6B, 0x62]"
proof -
  let ?R = "\<lambda>body. Ok (0x3D # body)"
  let ?chunks = "[[0x61, 0x7B], [], [0x7B, 0x6B, 0x7D], [0x7D, 0x62]] :: byte list list"
  have "calm ?R Plain (concat ?chunks)" by (rule calm_short) (simp add: MAX_PLACEHOLDER_SCAN_def)
  from chunking_invariant [OF this] show ?thesis
    by (simp add: feed_plain_def feed_inside_def MAX_PLACEHOLDER_SCAN_def)
qed

text \<open>The shape of the state, whatever the input: one mode, within the limit.\<close>

definition expander_ok :: "expander \<Rightarrow> bool" where
  "expander_ok x \<longleftrightarrow> (\<exists>q. within q \<and> x = conc q)"

lemma conc_ok: "within q \<Longrightarrow> expander_ok (conc q)"
  by (auto simp: expander_ok_def)

lemmas ok_modes [simp] = conc_ok [of Plain, simplified] conc_ok [of Opening, simplified]
  conc_ok [of Escaping, simplified] conc_ok [of EscapingBrace, simplified]

lemma scan_shape:
  assumes "scan_placeholder R (conc (Inside body)) bs = Ok (x', out, rest)"
    and "length body \<le> MAX_PLACEHOLDER_SCAN \<or> bs \<noteq> [] \<and> hd bs \<noteq> close_byte"
  shows "\<exists>q. x' = conc q \<and> within q \<and> (rest = [] \<or> q = Plain)"
  using assms
proof (induction bs arbitrary: body)
  case Nil
  then show ?case by (auto intro: exI [of _ "Inside body"])
next
  case (Cons b bs)
  consider (close2) "b = close_byte" "take 1 bs = [close_byte]" | (close1) "b = close_byte" "bs = []"
    | (over) "MAX_PLACEHOLDER_SCAN < length body + 1" "b \<noteq> close_byte \<or> bs \<noteq> [] \<and> take 1 bs \<noteq> [close_byte]"
    | (more) "length (body @ [b]) \<le> MAX_PLACEHOLDER_SCAN" "b \<noteq> close_byte \<or> bs \<noteq> [] \<and> take 1 bs \<noteq> [close_byte]"
    by fastforce
  then show ?case
  proof cases
    case close2
    with Cons.prems show ?thesis by (auto simp: new_expander_def split: sum.splits intro!: exI [of _ Plain])
  next
    case close1
    with Cons.prems show ?thesis by (auto simp: new_expander_def intro!: exI [of _ "Closing body"])
  next
    case over
    with Cons.prems show ?thesis by (auto simp: new_expander_def split: if_splits intro!: exI [of _ Plain])
  next
    case more
    with Cons.prems(1) have "scan_placeholder R (conc (Inside (body @ [b]))) bs = Ok (x', out, rest)"
      by (auto split: if_splits)
    with Cons.IH more(1) show ?thesis by blast
  qed
qed

lemma emit_Ok: "emit a r = Ok (x, out) \<longleftrightarrow> (\<exists>b. r = Ok (x, b) \<and> out = a @ b)"
  by (auto simp: emit_def split: sum.splits)

lemma normal_shape: "normal_loop R (conc Plain) bs = Ok (x', out) \<Longrightarrow> expander_ok x'"
proof (induction bs arbitrary: out rule: length_induct)
  case (1 bs)
  have IH: "expander_ok x'" if "normal_loop R new_expander cs = Ok (x', o1)" "length cs < length bs" for cs o1
    using 1(1) that by auto
  show ?case
  proof (cases bs)
    case Nil
    with 1(2) show ?thesis by auto
  next
    case (Cons b cs)
    consider "b = escape_byte" | "b = open_byte" "take 1 cs \<noteq> [open_byte]" | "b = open_byte" "take 1 cs = [open_byte]"
      | "is_literal_byte b" by (auto simp: is_literal_byte_def)
    then show ?thesis
    proof cases
      case 1
      with \<open>normal_loop R (conc Plain) bs = _\<close> Cons show ?thesis
        by (auto simp: emit_Ok split: if_splits elim!: IH)
    next
      case 2
      with \<open>normal_loop R (conc Plain) bs = _\<close> Cons show ?thesis
        by (auto simp: emit_Ok split: if_splits elim!: IH)
    next
      case 3
      with \<open>normal_loop R (conc Plain) bs = _\<close> Cons obtain x1 o1 rest o2 where
        scan: "scan_placeholder R (conc (Inside [])) (drop 1 cs) = Ok (x1, o1, rest)"
        and rest: "normal_loop R x1 rest = Ok (x', o2)"
        by (auto simp: emit_Ok split: sum.splits)
      from scan_shape [OF scan] obtain q where q: "x1 = conc q" "within q" "rest = [] \<or> q = Plain" by auto
      show ?thesis
      proof (cases "rest = []")
        case True
        with rest q show ?thesis by (auto simp: expander_ok_def)
      next
        case False
        with q rest IH [of rest o2] scan_placeholder_length [OF scan] Cons show ?thesis by auto
      qed
    next
      case 4
      with \<open>normal_loop R (conc Plain) bs = _\<close> Cons length_dropWhile_le [of is_literal_byte cs] show ?thesis
        by (auto simp: emit_Ok is_literal_byte_def elim!: IH)
    qed
  qed
qed

lemma inside_shape:
  assumes "(case scan_placeholder R (conc (Inside body)) bs of
      Err e \<Rightarrow> Err e
    | Ok (x2, out2, rest) \<Rightarrow> emit (out @ out2) (normal_loop R x2 rest)) = Ok (x', out')"
    and "length body \<le> MAX_PLACEHOLDER_SCAN \<or> bs \<noteq> [] \<and> hd bs \<noteq> close_byte"
  shows "expander_ok x'"
proof -
  from assms(1) obtain x2 out2 rest o3 where scan: "scan_placeholder R (conc (Inside body)) bs = Ok (x2, out2, rest)"
    and loop: "normal_loop R x2 rest = Ok (x', o3)"
    by (auto simp: emit_Ok split: sum.splits)
  from scan_shape [OF scan assms(2)] obtain q where q: "x2 = conc q" "within q" "rest = [] \<or> q = Plain" by blast
  show ?thesis
  proof (cases "rest = []")
    case True
    with loop q show ?thesis by (auto simp: conc_ok)
  next
    case False
    with loop q normal_shape show ?thesis by blast
  qed
qed

lemma process_shape:
  assumes "process_bytes R x input = Ok (x', out)" and "expander_ok x"
  shows "expander_ok x'"
proof (cases "input = []")
  case True
  with assms show ?thesis by (simp add: process_bytes_def)
next
  case False
  from assms(2) obtain q where q: "within q" "x = conc q" by (auto simp: expander_ok_def)
  show ?thesis
  proof (cases q)
    case Opening
    show ?thesis
    proof (cases "take 1 input = [open_byte]")
      case True
      have "new_expander\<lparr>pending_brace := True, pending_brace := False, in_placeholder := True, ex_buffer := []\<rparr>
          = conc (Inside [])" by (simp add: new_expander_def)
      with True Opening assms(1) q False show ?thesis
        by (intro inside_shape [where R = R and body = "[]" and bs = "drop 1 input" and out = "[]" and out' = out])
          (simp_all add: process_bytes_def resume_defs new_expander_def)
    qed (use Opening assms(1) q False normal_shape [of R input] in
        \<open>auto simp: process_bytes_def resume_defs new_expander_def emit_Ok\<close>)
  next
    case (Inside body)
    with assms(1) q False show ?thesis
      by (intro inside_shape [where R = R and body = body and bs = input and out = "[]" and out' = out])
        (simp_all add: process_bytes_def resume_defs new_expander_def)
  next
    case (Closing body)
    show ?thesis
    proof (cases "take 1 input = [close_byte]")
      case True
      with Closing assms(1) q False normal_shape [of R "drop 1 input"] show ?thesis
        by (auto simp: process_bytes_def resume_defs new_expander_def emit_Ok split: sum.splits)
    next
      case no: False
      with False have "hd input \<noteq> close_byte" by (cases input) auto
      with no Closing assms(1) q False show ?thesis
        by (intro inside_shape [where R = R and body = "body @ [close_byte]" and bs = input and out = "[]" and out' = out])
          (simp_all add: process_bytes_def resume_defs new_expander_def)
    qed
  qed (use assms(1) q False normal_shape [of R] conc_ok [of EscapingBrace] in
      \<open>auto simp: process_bytes_def resume_defs new_expander_def emit_Ok split: if_splits\<close>)
qed

fun run_chunks :: "body_resolver \<Rightarrow> expander \<Rightarrow> byte list list \<Rightarrow> exec_error + expander \<times> byte list" where
  "run_chunks R x [] = Ok (x, [])"
| "run_chunks R x (chunk # chunks) =
     (case process_bytes R x chunk of Err e \<Rightarrow> Err e | Ok (x', out) \<Rightarrow> emit out (run_chunks R x' chunks))"

lemma run_chunks_shape: "\<lbrakk>run_chunks R x chunks = Ok (x', out); expander_ok x\<rbrakk> \<Longrightarrow> expander_ok x'"
proof (induction chunks arbitrary: x out)
  case (Cons chunk chunks)
  from Cons.prems(1) obtain x1 o1 o2 where "process_bytes R x chunk = Ok (x1, o1)" "run_chunks R x1 chunks = Ok (x', o2)"
    by (auto simp: emit_Ok split: sum.splits)
  with Cons.IH Cons.prems(2) process_shape show ?case by blast
qed simp

text \<open>C38. The memory of the expander is bounded on every input: after any chunks at most
  \<open>MAX_PLACEHOLDER_SCAN\<close> bytes are buffered, at most one deferred prefix is pending, and what is
  flushed at the end is at most that many bytes and three more.\<close>

theorem buffer_bounded:
  assumes "run_chunks R new_expander chunks = Ok (x, out)"
  shows "length (ex_buffer x) \<le> MAX_PLACEHOLDER_SCAN \<and>
     length (filter id [pending_brace x, pending_close_brace x, pending_escape x, pending_escape_brace x]) \<le> 1 \<and>
     length (flush_expander x) \<le> MAX_PLACEHOLDER_SCAN + 3"
proof -
  obtain q where q: "within q" "x = conc q"
    using run_chunks_shape [OF assms ok_modes(1)] by (auto simp: expander_ok_def)
  have "length (finish q) \<le> MAX_PLACEHOLDER_SCAN + 3" using q(1) by (cases q) auto
  with q show ?thesis unfolding q(2) flush_refines
    by (cases q) (auto simp: new_expander_def)
qed

theorem buffer_bounded_witness:
  "length (ex_buffer (conc (Inside [0x6B]))) \<le> MAX_PLACEHOLDER_SCAN"
proof -
  have "run_chunks Ok new_expander [[0x7B], [0x7B, 0x6B]] = Ok (conc (Inside [0x6B]), [])"
    by (simp add: process_bytes_def resume_defs new_expander_def MAX_PLACEHOLDER_SCAN_def)
  from buffer_bounded [OF this] show ?thesis by blast
qed

lemma scan_ordinary:
  assumes "close_byte \<notin> set bs" "length body + length bs \<le> MAX_PLACEHOLDER_SCAN"
  shows "scan_placeholder R (conc (Inside body)) (bs @ rest) = scan_placeholder R (conc (Inside (body @ bs))) rest"
  using assms
proof (induction bs arbitrary: body)
  case (Cons b bs)
  then have "scan_placeholder R (conc (Inside body)) ((b # bs) @ rest) =
      scan_placeholder R (conc (Inside (body @ [b]))) (bs @ rest)" by simp
  with Cons show ?case by simp
qed simp

text \<open>At the limit the result does depend on the chunks: a body of the maximal length, a lone
  closing brace and a new placeholder expand that placeholder when they arrive in one chunk, and
  render it verbatim when the brace ends a chunk.\<close>

theorem limit_depends_on_chunks:
  assumes "length body = MAX_PLACEHOLDER_SCAN" and "close_byte \<notin> set body" and "R [0x6B] = Ok v"
  shows "stream_expand R new_expander [[0x7B, 0x7B] @ body @ [0x7D, 0x7B, 0x7B, 0x6B, 0x7D, 0x7D]]
      = Ok ([0x7B, 0x7B] @ body @ [0x7D] @ v) \<and>
    stream_expand R new_expander [[0x7B, 0x7B] @ body @ [0x7D], [0x7B, 0x7B, 0x6B, 0x7D, 0x7D]]
      = Ok ([0x7B, 0x7B] @ body @ [0x7D, 0x7B, 0x7B, 0x6B, 0x7D, 0x7D])"
proof -
  have scan: "scan_placeholder R (new_expander\<lparr>in_placeholder := True, ex_buffer := []\<rparr>) (body @ rest) =
      scan_placeholder R (conc (Inside body)) rest" for rest
    using scan_ordinary [of body "[]" R rest] assms by simp
  have max: "\<not> MAX_PLACEHOLDER_SCAN < Suc 0" by (simp add: MAX_PLACEHOLDER_SCAN_def)
  have "process_bytes R new_expander ([0x7B, 0x7B] @ body @ [0x7D, 0x7B, 0x7B, 0x6B, 0x7D, 0x7D])
      = Ok (new_expander, [0x7B, 0x7B] @ body @ [0x7D] @ v)"
    using assms(1,3) max by (simp add: process_bytes_def resume_defs scan)
      (simp add: new_expander_def)
  moreover have "process_bytes R new_expander ([0x7B, 0x7B] @ body @ [0x7D]) = Ok (conc (Closing body), [])"
    using assms(1) by (simp add: process_bytes_def resume_defs scan) (simp add: new_expander_def)
  moreover have "process_bytes R (conc (Closing body)) [0x7B, 0x7B, 0x6B, 0x7D, 0x7D]
      = Ok (new_expander, [0x7B, 0x7B] @ body @ [0x7D, 0x7B, 0x7B, 0x6B, 0x7D, 0x7D])"
    using assms(1) by (simp add: process_bytes_def resume_defs new_expander_def is_literal_byte_def)
  moreover have "flush_expander new_expander = []" by (simp add: flush_expander_def new_expander_def)
  ultimately show ?thesis by simp
qed

theorem limit_depends_on_chunks_witness:
  "stream_expand (\<lambda>body. Ok [0x76]) new_expander
      [[0x7B, 0x7B] @ replicate 1024 0x61 @ [0x7D, 0x7B, 0x7B, 0x6B, 0x7D, 0x7D]] \<noteq>
    stream_expand (\<lambda>body. Ok [0x76]) new_expander
      [[0x7B, 0x7B] @ replicate 1024 0x61 @ [0x7D], [0x7B, 0x7B, 0x6B, 0x7D, 0x7D]]"
proof -
  have len: "length (replicate 1024 0x61 :: byte list) = MAX_PLACEHOLDER_SCAN"
    unfolding length_replicate by (simp add: MAX_PLACEHOLDER_SCAN_def)
  have "close_byte \<notin> set (replicate 1024 0x61)" by (simp del: replicate.simps)
  from limit_depends_on_chunks [OF len this, of "\<lambda>body. Ok [0x76]" "[0x76]"] show ?thesis
    by (simp del: replicate.simps stream_expand.simps)
qed

end
