(* ===== verification/Arithmetic.thy ===== *)
theory Arithmetic
  imports Templates "HOL-Library.Signed_Division"
begin

unbundle bit_operations_syntax

text \<open>Operators on values: the runtime arithmetic, negation and comparison
  (\<open>oxdock-core/src/exec/args.rs\<close>), the converters \<open>INT\<close> and \<open>FLOAT\<close>, the map builtins, and the
  constant folding of the parser (\<open>oxdock-parser/src/commands.rs\<close>). Integers are 64-bit words
  with checked operations. Floats are bit patterns: sign, finiteness, order and the exact value
  of an integral float are computed from the IEEE 754 layout, and only the rounding
  operations stay parameters.\<close>

section \<open>Machine numbers\<close>

text \<open>The result of a checked \<open>i64\<close> operation: the exact integer when it fits.\<close>

definition i64_checked :: "int \<Rightarrow> 64 word option" where
  "i64_checked v = (if - (2 ^ 63) \<le> v \<and> v < 2 ^ 63 then Some (word_of_int v) else None)"

fun checked_arith :: "arith_op \<Rightarrow> 64 word \<Rightarrow> 64 word \<Rightarrow> 64 word option" where
  "checked_arith AAdd a b = i64_checked (sint a + sint b)"
| "checked_arith ASub a b = i64_checked (sint a - sint b)"
| "checked_arith AMul a b = i64_checked (sint a * sint b)"
| "checked_arith ADiv a b = (if b = 0 then None else i64_checked (sint a sdiv sint b))"

definition checked_neg :: "64 word \<Rightarrow> 64 word option" where
  "checked_neg a = i64_checked (- sint a)"

definition f64_exponent :: "64 word \<Rightarrow> nat" where
  "f64_exponent w = unat (take_bit 11 (drop_bit 52 w))"

definition f64_is_finite :: "64 word \<Rightarrow> bool" where
  "f64_is_finite w \<longleftrightarrow> f64_exponent w \<noteq> 2047"

definition f64_neg :: "64 word \<Rightarrow> 64 word" where
  "f64_neg w = w XOR push_bit 63 1"

text \<open>The order of finite floats is that of their sign and magnitude; both zeros are 0.\<close>

definition f64_key :: "64 word \<Rightarrow> int" where
  "f64_key w = (if bit w 63 then - int (unat (take_bit 63 w)) else int (unat (take_bit 63 w)))"

text \<open>The exact value of a finite float that is an integer (\<open>fract() == 0.0\<close>): the significand
  scaled by the exponent.\<close>

definition f64_integer :: "64 word \<Rightarrow> int option" where
  "f64_integer w =
     (let e = f64_exponent w;
          fraction = int (unat (take_bit 52 w));
          m = (if e = 0 then fraction else fraction + 2 ^ 52);
          e' = (if e = 0 then 1 else e);
          sign = (if bit w 63 then -1 else 1) in
      if 1075 \<le> e' then Some (sign * (m * 2 ^ (e' - 1075)))
      else if 2 ^ (1075 - e') dvd m then Some (sign * (m div 2 ^ (1075 - e')))
      else None)"

section \<open>Runtime operators\<close>

definition as_f64_value :: "float_ops \<Rightarrow> dvalue \<Rightarrow> 64 word option" where
  "as_f64_value F v =
     (case as_i64 v of
        Some n \<Rightarrow> Some (f64_of_i64 F n)
      | None \<Rightarrow> (case as_f64 v of Some f \<Rightarrow> if f64_is_finite f then Some f else None | None \<Rightarrow> None))"

fun f64_arith :: "float_ops \<Rightarrow> arith_op \<Rightarrow> 64 word \<Rightarrow> 64 word \<Rightarrow> 64 word" where
  "f64_arith F AAdd = f64_add F"
| "f64_arith F ASub = f64_sub F"
| "f64_arith F AMul = f64_mul F"
| "f64_arith F ADiv = f64_div F"

definition apply_arith :: "float_ops \<Rightarrow> arith_op \<Rightarrow> dvalue \<Rightarrow> dvalue \<Rightarrow> exec_error + dvalue" where
  "apply_arith F op left right =
     (case (as_i64 left, as_i64 right) of
        (Some a, Some b) \<Rightarrow>
          (case checked_arith op a b of Some v \<Rightarrow> Ok (VInt v) | None \<Rightarrow> Err IntegerOverflow)
      | _ \<Rightarrow>
          (case (as_f64_value F left, as_f64_value F right) of
             (Some a, Some b) \<Rightarrow>
               if op = ADiv \<and> f64_key b = 0 then Err FloatDivisionByZero
               else (let v = f64_arith F op a b in
                     if f64_is_finite v then Ok (VFloat v) else Err NonFiniteFloat)
           | _ \<Rightarrow> Err (ArithmeticType (type_name left) (type_name right))))"

definition apply_neg :: "dvalue \<Rightarrow> exec_error + dvalue" where
  "apply_neg v =
     (case as_i64 v of
        Some n \<Rightarrow> (case checked_neg n of Some m \<Rightarrow> Ok (VInt m) | None \<Rightarrow> Err IntegerOverflow)
      | None \<Rightarrow>
          (case as_f64 v of
             Some f \<Rightarrow> if f64_is_finite f then Ok (VFloat (f64_neg f)) else Err NonFiniteFloat
           | None \<Rightarrow> Err (NegationType (type_name v))))"

fun compare_int :: "compare_op \<Rightarrow> int \<Rightarrow> int \<Rightarrow> bool" where
  "compare_int CEq a b = (a = b)"
| "compare_int CNe a b = (a \<noteq> b)"
| "compare_int CLt a b = (a < b)"
| "compare_int CLe a b = (a \<le> b)"
| "compare_int CGt a b = (a > b)"
| "compare_int CGe a b = (a \<ge> b)"

definition apply_compare :: "float_ops \<Rightarrow> compare_op \<Rightarrow> dvalue \<Rightarrow> dvalue \<Rightarrow> exec_error + dvalue" where
  "apply_compare F op left right =
     (case (as_f64_value F left, as_f64_value F right) of
        (Some a, Some b) \<Rightarrow>
          (case (as_i64 left, as_i64 right) of
             (Some i, Some j) \<Rightarrow> Ok (VBool (compare_int op (sint i) (sint j)))
           | _ \<Rightarrow> Ok (VBool (compare_int op (f64_key a) (f64_key b))))
      | _ \<Rightarrow>
          if op = CEq \<or> op = CNe then
            bind_result (format_value_for_string F left) (\<lambda>ls.
              bind_result (format_value_for_string F right) (\<lambda>rs.
                Ok (VBool (if op = CEq then ls = rs else ls \<noteq> rs))))
          else Err (OrderingType (type_name left) (type_name right)))"

definition is_truthy :: "dvalue \<Rightarrow> exec_error + bool" where
  "is_truthy v = (case as_bool v of Some b \<Rightarrow> Ok b | None \<Rightarrow> Err (ConditionType (type_name v)))"

section \<open>Converters and map builtins\<close>

definition trim_ascii :: "string \<Rightarrow> string" where
  "trim_ascii s = trim_end_by is_ascii_whitespace (trim_start_by is_ascii_whitespace s)"

text \<open>\<open>f as i64\<close> saturates; the guard compares with \<open>i64::MAX as f64\<close>, which is \<open>2 ^ 63\<close>.\<close>

definition f64_as_i64 :: "int \<Rightarrow> 64 word" where
  "f64_as_i64 z = word_of_int (max (- (2 ^ 63)) (min (2 ^ 63 - 1) z))"

definition int_from_value :: "dvalue \<Rightarrow> exec_error + dvalue" where
  "int_from_value v =
     (if as_i64 v \<noteq> None then Ok v
      else case as_f64 v of
        Some f \<Rightarrow>
          (case (if f64_is_finite f then f64_integer f else None) of
             Some z \<Rightarrow> if - (2 ^ 63) \<le> z \<and> z \<le> 2 ^ 63 then Ok (VInt (f64_as_i64 z)) else Err (ConversionFailed ''INT'')
           | None \<Rightarrow> Err (ConversionFailed ''INT''))
      | None \<Rightarrow>
          (case as_bool v of
             Some b \<Rightarrow> Ok (VInt (if b then 1 else 0))
           | None \<Rightarrow>
               (case as_str v of
                  Some s \<Rightarrow>
                    (case parse_i64 (strip_digit_separators (trim_ascii s)) of
                       Some i \<Rightarrow> Ok (VInt i) | None \<Rightarrow> Err (ConversionFailed ''INT''))
                | None \<Rightarrow> Err (ConversionFailed ''INT''))))"

definition float_from_value :: "float_ops \<Rightarrow> dvalue \<Rightarrow> exec_error + dvalue" where
  "float_from_value F v =
     (case as_f64 v of
        Some f \<Rightarrow> if f64_is_finite f then Ok (VFloat f) else Err (ConversionFailed ''FLOAT'')
      | None \<Rightarrow>
          (case as_i64 v of
             Some n \<Rightarrow> Ok (VFloat (f64_of_i64 F n))
           | None \<Rightarrow>
               (case as_str v of
                  Some s \<Rightarrow>
                    (case f64_of_str F (trim_ascii s) of
                       Some f \<Rightarrow> if f64_is_finite f then Ok (VFloat f) else Err (ConversionFailed ''FLOAT'')
                     | None \<Rightarrow> Err (ConversionFailed ''FLOAT''))
                | None \<Rightarrow> Err (ConversionFailed ''FLOAT''))))"

definition has_key_from_value :: "dvalue \<Rightarrow> string \<Rightarrow> exec_error + dvalue" where
  "has_key_from_value m key =
     (case as_map m of
        Some es \<Rightarrow> Ok (VBool (map_of es key \<noteq> None))
      | None \<Rightarrow> Err (WrongShape ''HAS_KEY'' (type_name m)))"

definition map_set_from_value :: "dvalue \<Rightarrow> string \<Rightarrow> dvalue \<Rightarrow> exec_error + dvalue" where
  "map_set_from_value m key v =
     (case as_map m of
        None \<Rightarrow> Err (WrongShape ''MAP_SET'' (type_name m))
      | Some es \<Rightarrow>
          if map_of es key \<noteq> None then Err (DuplicateKey key) else Ok (VMap (btree_insert key v es)))"

fun merge_entries :: "bool \<Rightarrow> (string \<times> dvalue) list \<Rightarrow> (string \<times> dvalue) list \<Rightarrow> exec_error + (string \<times> dvalue) list" where
  "merge_entries fail_dup merged [] = Ok merged"
| "merge_entries fail_dup merged ((k, v) # rest) =
     (if map_of merged k \<noteq> None \<and> fail_dup then Err (DuplicateKey k)
      else merge_entries fail_dup (btree_insert k v merged) rest)"

fun merge_items :: "bool \<Rightarrow> (string \<times> dvalue) list \<Rightarrow> dvalue list \<Rightarrow> exec_error + (string \<times> dvalue) list" where
  "merge_items fail_dup merged [] = Ok merged"
| "merge_items fail_dup merged (item # rest) =
     (case as_map item of
        None \<Rightarrow> Err (WrongShape ''MERGE_MAPS'' (type_name item))
      | Some es \<Rightarrow>
          (case merge_entries fail_dup merged es of
             Err e \<Rightarrow> Err e | Ok m \<Rightarrow> merge_items fail_dup m rest))"

definition merge_maps_from_value :: "dvalue \<Rightarrow> string \<Rightarrow> exec_error + dvalue" where
  "merge_maps_from_value maps policy =
     (case as_list maps of
        None \<Rightarrow> Err (WrongShape ''MERGE_MAPS'' (type_name maps))
      | Some items \<Rightarrow>
          (case merge_items (policy = ''fail_on_duplicate'') [] items of Err e \<Rightarrow> Err e | Ok m \<Rightarrow> Ok (VMap m)))"

section \<open>Constant folding in the parser\<close>

fun fold_float :: "float_ops \<Rightarrow> arith_op \<Rightarrow> 64 word \<Rightarrow> 64 word \<Rightarrow> dvalue option" where
  "fold_float F op a b =
     (if \<not> f64_is_finite a \<or> \<not> f64_is_finite b then None
      else if op = ADiv \<and> f64_key b = 0 then None
      else (let v = f64_arith F op a b in if f64_is_finite v then Some (VFloat v) else None))"

definition fold_arith_values :: "float_ops \<Rightarrow> arith_op \<Rightarrow> dvalue \<Rightarrow> dvalue \<Rightarrow> dvalue option" where
  "fold_arith_values F op left right =
     (case (as_i64 left, as_i64 right) of
        (Some a, Some b) \<Rightarrow> map_option VInt (checked_arith op a b)
      | _ \<Rightarrow>
          (case (as_f64_value F left, as_f64_value F right) of
             (Some a, Some b) \<Rightarrow> fold_float F op a b
           | _ \<Rightarrow> None))"

definition try_fold_arith :: "float_ops \<Rightarrow> arith_op \<Rightarrow> expr \<Rightarrow> expr \<Rightarrow> expr option" where
  "try_fold_arith F op left right =
     (case (left, right) of
        (ELiteral lv, ELiteral rv) \<Rightarrow> map_option ELiteral (fold_arith_values F op lv rv)
      | _ \<Rightarrow> None)"

definition fold_compare_values :: "float_ops \<Rightarrow> compare_op \<Rightarrow> dvalue \<Rightarrow> dvalue \<Rightarrow> dvalue option" where
  "fold_compare_values F op lv rv =
     (case (as_i64 lv, as_i64 rv) of
        (Some a, Some b) \<Rightarrow> Some (VBool (compare_int op (sint a) (sint b)))
      | _ \<Rightarrow>
          (case (as_bool lv, as_bool rv) of
             (Some a, Some b) \<Rightarrow>
               if op = CEq then Some (VBool (a = b)) else if op = CNe then Some (VBool (a \<noteq> b)) else None
           | _ \<Rightarrow>
               (case (as_f64_value F lv, as_f64_value F rv) of
                  (Some a, Some b) \<Rightarrow> Some (VBool (compare_int op (f64_key a) (f64_key b)))
                | _ \<Rightarrow> None)))"

definition try_fold_compare :: "float_ops \<Rightarrow> compare_op \<Rightarrow> expr \<Rightarrow> expr \<Rightarrow> expr option" where
  "try_fold_compare F op left right =
     (case (left, right) of
        (ELiteral lv, ELiteral rv) \<Rightarrow> map_option ELiteral (fold_compare_values F op lv rv)
      | _ \<Rightarrow> None)"

section \<open>Facts\<close>

lemma i64_checked_Some: "i64_checked v = Some w \<longleftrightarrow> sint w = v"
proof -
  have "sint (word_of_int v :: 64 word) = v" if "- (2 ^ 63) \<le> v" "v < 2 ^ 63"
    using that by (simp add: sint_sbintrunc' signed_take_bit_int_eq_self)
  moreover have "- (2 ^ 63) \<le> sint w" "sint w < 2 ^ 63" using sint_range_size [of w] by (simp_all add: word_size)
  ultimately show ?thesis by (auto simp: i64_checked_def)
qed

lemma i64_checked_None: "i64_checked v = None \<longleftrightarrow> v < - (2 ^ 63) \<or> 2 ^ 63 \<le> v"
  by (auto simp: i64_checked_def)

text \<open>The exact integer operation.\<close>

fun exact_arith :: "arith_op \<Rightarrow> int \<Rightarrow> int \<Rightarrow> int" where
  "exact_arith AAdd a b = a + b"
| "exact_arith ASub a b = a - b"
| "exact_arith AMul a b = a * b"
| "exact_arith ADiv a b = a sdiv b"

lemma checked_arith_exact:
  "checked_arith op a b = (if op = ADiv \<and> b = 0 then None else i64_checked (exact_arith op (sint a) (sint b)))"
  by (cases op) simp_all

lemma map_of_btree_insert [simp]: "map_of (btree_insert k v m) = (map_of m)(k \<mapsto> v)"
  by (induction k v m rule: btree_insert.induct) (auto simp: fun_eq_iff)

lemma fold_arith_is_runtime:
  assumes "\<forall>n. f64_is_finite (f64_of_i64 F n)"
  shows "fold_arith_values F op l r = (case apply_arith F op l r of Ok v \<Rightarrow> Some v | Err _ \<Rightarrow> None)"
proof -
  have fin: "f64_is_finite f" if "as_f64_value F v = Some f" for v f
    using that assms by (auto simp: as_f64_value_def split: option.splits if_splits)
  show ?thesis
    by (auto simp: fold_arith_values_def apply_arith_def Let_def dest: fin split: option.splits)
qed

lemma show_bool_inj: "show_bool a = show_bool b \<longleftrightarrow> a = b"
  by (simp add: show_bool_def)

lemma compare_bools:
  "apply_compare F op (VBool a) (VBool b) =
     (if op = CEq then Ok (VBool (a = b)) else if op = CNe then Ok (VBool (a \<noteq> b))
      else Err (OrderingType ''BOOL'' ''BOOL''))"
  by (auto simp: apply_compare_def as_f64_value_def reader_defs show_bool_inj)

lemma compare_ints: "apply_compare F op (VInt a) (VInt b) = Ok (VBool (compare_int op (sint a) (sint b)))"
  by (simp add: apply_compare_def as_f64_value_def reader_defs)

lemma compare_floats:
  assumes "as_f64_value F l = Some a" "as_f64_value F r = Some b" "as_i64 l = None \<or> as_i64 r = None"
  shows "apply_compare F op l r = Ok (VBool (compare_int op (f64_key a) (f64_key b)))"
  using assms by (auto simp: apply_compare_def split: option.splits)

lemma reader_inverts: "as_i64 x = Some n \<Longrightarrow> x = VInt n" "as_bool x = Some b \<Longrightarrow> x = VBool b"
  by (cases x; simp add: reader_defs)+

lemma fold_compare_is_runtime:
  assumes "fold_compare_values F op l r = Some v"
  shows "apply_compare F op l r = Ok v"
proof (cases "\<exists>a b. as_i64 l = Some a \<and> as_i64 r = Some b")
  case True
  then obtain a b where lr: "l = VInt a" "r = VInt b" using reader_inverts(1) by blast
  from assms show ?thesis unfolding lr compare_ints by (simp add: fold_compare_values_def reader_defs)
next
  case False
  note no_ints = this
  show ?thesis
  proof (cases "\<exists>a b. as_bool l = Some a \<and> as_bool r = Some b")
    case True
    then obtain a b where lr: "l = VBool a" "r = VBool b" using reader_inverts(2) by blast
    from assms show ?thesis unfolding lr compare_bools
      by (simp add: fold_compare_values_def reader_defs split: if_splits)
  next
    case False
    then obtain a b where "as_f64_value F l = Some a" "as_f64_value F r = Some b"
        "v = VBool (compare_int op (f64_key a) (f64_key b))"
      using assms no_ints by (auto simp: fold_compare_values_def split: option.splits)
    with compare_floats no_ints show ?thesis by (metis not_None_eq)
  qed
qed

section \<open>Properties\<close>

text \<open>Integer arithmetic never wraps: on two integers an operation gives the exact result when
  it fits in 64 bits, and fails exactly when it does not or the divisor is zero.\<close>

theorem integer_arith_exact:
  "(\<exists>w. apply_arith F op (VInt a) (VInt b) = Ok (VInt w) \<and> sint w = exact_arith op (sint a) (sint b) \<and> \<not> (op = ADiv \<and> b = 0)) \<or>
   apply_arith F op (VInt a) (VInt b) = Err IntegerOverflow \<and>
     ((op = ADiv \<and> b = 0) \<or> exact_arith op (sint a) (sint b) < - (2 ^ 63) \<or> 2 ^ 63 \<le> exact_arith op (sint a) (sint b))"
proof (cases "checked_arith op a b")
  case None
  then show ?thesis by (auto simp: apply_arith_def reader_defs checked_arith_exact i64_checked_None split: if_splits)
next
  case (Some w)
  then show ?thesis by (auto simp: apply_arith_def reader_defs checked_arith_exact i64_checked_Some split: if_splits)
qed

text \<open>The parser folds constants to what the runtime computes: on two literals arithmetic folds
  exactly when the runtime operation succeeds, and to its value; a folded comparison is the
  runtime's. The conversion of an integer to a float is finite, as in Rust.\<close>

theorem constant_folding_correct:
  assumes "\<forall>n. f64_is_finite (f64_of_i64 F n)"
  shows "try_fold_arith F op (ELiteral l) (ELiteral r) =
      (case apply_arith F op l r of Ok v \<Rightarrow> Some (ELiteral v) | Err _ \<Rightarrow> None) \<and>
    (\<forall>e. try_fold_compare F cmp (ELiteral l) (ELiteral r) = Some e \<longrightarrow>
      (\<exists>v. e = ELiteral v \<and> apply_compare F cmp l r = Ok v))"
  using fold_arith_is_runtime [OF assms, of op l r]
  by (auto simp: try_fold_arith_def try_fold_compare_def split: sum.splits dest: fold_compare_is_runtime)

theorem constant_folding_correct_witness:
  "\<exists>F. try_fold_arith F AMul (ELiteral (VInt 6)) (ELiteral (VInt 7)) = Some (ELiteral (VInt 42)) \<and>
     try_fold_arith F ADiv (ELiteral (VInt 6)) (ELiteral (VInt 0)) = None"
proof -
  define F where "F = \<lparr>f64_of_i64 = \<lambda>_. 0, f64_of_u64 = \<lambda>_. 0, f64_to_string = \<lambda>_. ''0'', f64_of_str = \<lambda>_. None,
     f64_add = (\<lambda>_ _. 0), f64_sub = (\<lambda>_ _. 0), f64_mul = (\<lambda>_ _. 0), f64_div = (\<lambda>_ _. 0), host_display = (\<lambda>_ _. [])\<rparr>"
  have fin: "\<forall>n. f64_is_finite (f64_of_i64 F n)"
    by (simp add: F_def f64_is_finite_def f64_exponent_def)
  have "apply_arith F AMul (VInt 6) (VInt 7) = Ok (VInt 42)" "apply_arith F ADiv (VInt 6) (VInt 0) = Err IntegerOverflow"
    by (simp_all add: apply_arith_def reader_defs i64_checked_def)
  with constant_folding_correct [OF fin, of AMul "VInt 6" "VInt 7" CEq]
    constant_folding_correct [OF fin, of ADiv "VInt 6" "VInt 0" CEq] show ?thesis
    by (intro exI [of _ F]) auto
qed

text \<open>\<open>INT()\<close> of a float is exact on every integral float in range and fails on the others, with
  one exception: exactly \<open>2 ^ 63\<close>, which is out of range, becomes the largest integer.\<close>

theorem int_conversion_exact:
  "int_from_value (VFloat f) =
     (case (if f64_is_finite f then f64_integer f else None) of
        None \<Rightarrow> Err (ConversionFailed ''INT'')
      | Some z \<Rightarrow>
          (case i64_checked z of
             Some w \<Rightarrow> Ok (VInt w)
           | None \<Rightarrow> if z = 2 ^ 63 then Ok (VInt (2 ^ 63 - 1)) else Err (ConversionFailed ''INT''))) \<and>
   int_from_value (VFloat 0x43E0000000000000) = Ok (VInt 0x7FFFFFFFFFFFFFFF)"
proof
  show "int_from_value (VFloat 0x43E0000000000000) = Ok (VInt 0x7FFFFFFFFFFFFFFF)" by code_simp
qed (auto simp: int_from_value_def reader_defs f64_as_i64_def i64_checked_def split: option.splits)

end
