(* ===== verification/Json.thy ===== *)
theory Json
  imports Arithmetic
begin

text \<open>Values across a JSON boundary (\<open>oxdock-core/src/exec/args.rs\<close>): \<open>value_to_json\<close>, its inverse
  \<open>json_to_value\<close> and the tag-directed pair that carries task handles. The JSON tree is that of
  \<open>serde_json\<close>: a number is an integer of the \<open>i64\<close> or \<open>u64\<close> range or a finite float, an object is
  the list of its entries in iteration order.\<close>

section \<open>Operations\<close>

datatype json_number = JInt int | JFloat "64 word"

datatype json =
    JNull
  | JBool bool
  | JNumber json_number
  | JString string
  | JArray "json list"
  | JObject "(string \<times> json) list"

fun value_to_json :: "dvalue \<Rightarrow> exec_error + json" where
  "value_to_json (VHandle h) = Ok (JObject [(''task_id'', JNumber (JInt (uint h)))])"
| "value_to_json (VMap m) =
     (case map_result (\<lambda>p. case value_to_json (snd p) of Err e \<Rightarrow> Err e | Ok j \<Rightarrow> Ok (fst p, j)) m of
        Err e \<Rightarrow> Err e
      | Ok es \<Rightarrow> Ok (JObject es))"
| "value_to_json (VList xs) =
     (case map_result value_to_json xs of Err e \<Rightarrow> Err e | Ok js \<Rightarrow> Ok (JArray js))"
| "value_to_json (VStr s) = Ok (JString s)"
| "value_to_json (VInt i) = Ok (JNumber (JInt (sint i)))"
| "value_to_json (VFloat f) = (if f64_is_finite f then Ok (JNumber (JFloat f)) else Err (NotEncodable ''FLOAT''))"
| "value_to_json (VBool b) = Ok (JBool b)"
| "value_to_json v = Err (NotEncodable (type_name v))"

fun number_as_i64 :: "json_number \<Rightarrow> 64 word option" where
  "number_as_i64 (JInt i) = i64_checked i"
| "number_as_i64 (JFloat f) = None"

fun number_as_u64 :: "json_number \<Rightarrow> 64 word option" where
  "number_as_u64 (JInt i) = (if 0 \<le> i \<and> i < 2 ^ 64 then Some (word_of_int i) else None)"
| "number_as_u64 (JFloat f) = None"

fun number_as_f64 :: "float_ops \<Rightarrow> json_number \<Rightarrow> 64 word" where
  "number_as_f64 F (JInt i) =
     (if i < 0 then f64_of_i64 F (word_of_int i) else f64_of_u64 F (word_of_int i))"
| "number_as_f64 F (JFloat f) = f"

text \<open>Collecting entries into a \<open>BTreeMap\<close>.\<close>

definition btree_collect :: "(string \<times> 'v) list \<Rightarrow> (string \<times> 'v) list" where
  "btree_collect es = fold (\<lambda>(k, v). btree_insert k v) es []"

fun json_to_value :: "float_ops \<Rightarrow> json \<Rightarrow> dvalue" where
  "json_to_value F (JString s) = VStr s"
| "json_to_value F (JBool b) = VBool b"
| "json_to_value F (JNumber n) =
     (case number_as_i64 n of Some i \<Rightarrow> VInt i | None \<Rightarrow> VFloat (number_as_f64 F n))"
| "json_to_value F (JArray js) = VList (map (json_to_value F) js)"
| "json_to_value F (JObject es) = VMap (btree_collect (map (\<lambda>p. (fst p, json_to_value F (snd p))) es))"
| "json_to_value F JNull = VStr []"

definition json_to_value_typed :: "float_ops \<Rightarrow> type_tag option \<Rightarrow> json \<Rightarrow> exec_error + dvalue" where
  "json_to_value_typed F t j =
     (if t \<noteq> Some THandle then Ok (json_to_value F j)
      else case j of
        JObject [(k, JNumber n)] \<Rightarrow>
          if k \<noteq> ''task_id'' then Err BadHandleArgument
          else (case number_as_u64 n of
              Some i \<Rightarrow> if 1 \<le> uint i then Ok (VHandle i) else Err BadHandleArgument
            | None \<Rightarrow> Err BadHandleArgument)
      | _ \<Rightarrow> Err BadHandleArgument)"

definition value_to_json_typed :: "type_tag option \<Rightarrow> dvalue \<Rightarrow> exec_error + json" where
  "value_to_json_typed t v =
     (if t \<noteq> Some THandle then value_to_json v
      else case as_handle v of
        Some h \<Rightarrow> Ok (JObject [(''task_id'', JNumber (JInt (uint h)))])
      | None \<Rightarrow> Err (NotEncodable (type_name v)))"

section \<open>Sorted maps\<close>

lemma str_less_irrefl [simp]: "\<not> str_less s s"
  by (induction s) auto

lemma str_less_asym: "str_less a b \<Longrightarrow> \<not> str_less b a"
  by (induction a b rule: str_less.induct) auto

definition sorted_keys :: "(string \<times> 'v) list \<Rightarrow> bool" where
  "sorted_keys m \<longleftrightarrow> sorted_wrt str_less (map fst m)"

lemma btree_insert_last:
  assumes "\<forall>k' \<in> fst ` set m. str_less k' k"
  shows "btree_insert k v m = m @ [(k, v)]"
  using assms
proof (induction k v m rule: btree_insert.induct)
  case (2 k v k' v' m)
  then have "str_less k' k" by simp
  then have "k \<noteq> k'" "\<not> str_less k k'" using str_less_asym by auto
  with 2 show ?case by simp
qed simp

lemma btree_collect_snoc: "btree_collect (m @ [(k, v)]) = btree_insert k v (btree_collect m)"
  by (simp add: btree_collect_def)

lemma btree_collect_sorted: "sorted_keys m \<Longrightarrow> btree_collect m = m"
proof (induction m rule: rev_induct)
  case (snoc p m)
  then have "btree_collect m = m" "\<forall>k' \<in> fst ` set m. str_less k' (fst p)"
    by (auto simp: sorted_keys_def sorted_wrt_append)
  then show ?case by (cases p) (simp add: btree_collect_snoc btree_insert_last)
qed (simp add: btree_collect_def)

text \<open>Values with a JSON form that carry no handle; maps in key order, as every \<open>BTreeMap\<close> is.\<close>

fun json_shaped :: "dvalue \<Rightarrow> bool" where
  "json_shaped (VInt i) = True"
| "json_shaped (VFloat f) = f64_is_finite f"
| "json_shaped (VStr s) = True"
| "json_shaped (VBool b) = True"
| "json_shaped (VList xs) = list_all json_shaped xs"
| "json_shaped (VMap m) = (sorted_keys m \<and> list_all (\<lambda>p. json_shaped (snd p)) m)"
| "json_shaped v = False"

lemma i64_checked_sint [simp]: "i64_checked (sint i) = Some i"
  by (simp add: i64_checked_Some)

lemma json_roundtrip_value:
  "json_shaped v \<Longrightarrow> \<exists>j. value_to_json v = Ok j \<and> json_to_value F j = v"
proof (induction v)
  case (VList xs)
  then have "\<forall>x \<in> set xs. \<exists>j. value_to_json x = Ok j \<and> json_to_value F j = x" by (simp add: list_all_iff)
  then have "\<exists>js. map_result value_to_json xs = Ok js \<and> map (json_to_value F) js = xs"
  proof (induction xs)
    case (Cons x xs)
    then obtain j js where "value_to_json x = Ok j" "json_to_value F j = x"
      "map_result value_to_json xs = Ok js" "map (json_to_value F) js = xs" by auto
    then show ?case by (intro exI [of _ "j # js"]) simp
  qed simp
  then show ?case by force
next
  case (VMap m)
  then have "\<forall>p \<in> set m. \<exists>j. value_to_json (snd p) = Ok j \<and> json_to_value F j = snd p"
    by (fastforce simp: list_all_iff)
  then have "\<exists>es. map_result (\<lambda>p. case value_to_json (snd p) of Err e \<Rightarrow> Err e | Ok j \<Rightarrow> Ok (fst p, j)) m = Ok es \<and>
      map (\<lambda>p. (fst p, json_to_value F (snd p))) es = m"
  proof (induction m)
    case (Cons p m)
    then obtain j es where "value_to_json (snd p) = Ok j" "json_to_value F j = snd p"
      "map_result (\<lambda>p. case value_to_json (snd p) of Err e \<Rightarrow> Err e | Ok j \<Rightarrow> Ok (fst p, j)) m = Ok es"
      "map (\<lambda>p. (fst p, json_to_value F (snd p))) es = m" by auto
    then show ?case by (intro exI [of _ "(fst p, j) # es"]) simp
  qed simp
  moreover have "btree_collect m = m" using VMap.prems by (simp add: btree_collect_sorted)
  ultimately show ?case by force
qed auto

section \<open>Properties\<close>

text \<open>C40. JSON round trip: every value of JSON shape encodes, and decoding gives it back; a task
  handle encodes under its tag and decodes to itself, and the handle 0 encodes to what the decoder refuses.\<close>

theorem json_roundtrip:
  "(json_shaped v \<longrightarrow> bind_result (value_to_json v) (\<lambda>j. Ok (json_to_value F j)) = Ok v) \<and>
   bind_result (value_to_json_typed (Some THandle) (VHandle h)) (json_to_value_typed F (Some THandle)) =
     (if h = 0 then Err BadHandleArgument else Ok (VHandle h))"
proof
  show "json_shaped v \<longrightarrow> bind_result (value_to_json v) (\<lambda>j. Ok (json_to_value F j)) = Ok v"
    using json_roundtrip_value [of v F] by auto
  have "1 \<le> uint h \<longleftrightarrow> h \<noteq> 0"
  proof (cases "h = 0")
    case False
    then have "uint h \<noteq> 0" by (metis of_int_0 word_of_int_uint)
    moreover have "0 \<le> uint h" by simp
    ultimately show ?thesis using False by linarith
  qed simp
  moreover have "uint h < 2 ^ 64" using uint_lt2p [of h] by simp
  ultimately show "bind_result (value_to_json_typed (Some THandle) (VHandle h)) (json_to_value_typed F (Some THandle)) =
     (if h = 0 then Err BadHandleArgument else Ok (VHandle h))"
    by (auto simp: value_to_json_typed_def json_to_value_typed_def reader_defs)
qed

theorem json_roundtrip_witness:
  "\<forall>F. bind_result (value_to_json (VMap [(''a'', VInt 1), (''b'', VList [VStr ''x'', VBool True])])) (\<lambda>j. Ok (json_to_value F j))
     = Ok (VMap [(''a'', VInt 1), (''b'', VList [VStr ''x'', VBool True])])"
proof
  fix F
  have "json_shaped (VMap [(''a'', VInt 1), (''b'', VList [VStr ''x'', VBool True])])"
    by (simp add: sorted_keys_def)
  with json_roundtrip show "bind_result (value_to_json (VMap [(''a'', VInt 1), (''b'', VList [VStr ''x'', VBool True])])) (\<lambda>j. Ok (json_to_value F j))
     = Ok (VMap [(''a'', VInt 1), (''b'', VList [VStr ''x'', VBool True])])" by blast
qed

end
