(* ===== verification/Expr_Eval.thy ===== *)
theory Expr_Eval
  imports Arithmetic Json
begin

text \<open>Evaluation of expressions (\<open>oxdock-core/src/exec/args.rs\<close>, and the call and block boundaries of
  \<open>handlers.rs\<close>), the stack machine compiled arithmetic runs on, and the compiler to it in the parser
  (\<open>oxdock-parser/src/commands.rs\<close>). Everything is a function from a state to a state and a
  result. The executor of bodies is an argument, closed by the theory of steps. What lies behind the
  executor is the record of host operations: compiled functions, files, processes and
  streams see the state and change only the world and the cancellation flag, as the
  handlers of the source do.\<close>

section \<open>Computations with state and errors\<close>

definition ret :: "'a \<Rightarrow> 's \<Rightarrow> 's \<times> ('e + 'a)" where
  "ret a s = (s, Ok a)"

definition fail :: "'e \<Rightarrow> 's \<Rightarrow> 's \<times> ('e + 'a)" where
  "fail e s = (s, Err e)"

definition reads :: "('s \<Rightarrow> 'e + 'a) \<Rightarrow> 's \<Rightarrow> 's \<times> ('e + 'a)" where
  "reads f s = (s, f s)"

definition bind_st :: "('s \<Rightarrow> 's \<times> ('e + 'a)) \<Rightarrow> ('a \<Rightarrow> 's \<Rightarrow> 's \<times> ('e + 'b)) \<Rightarrow> 's \<Rightarrow> 's \<times> ('e + 'b)" where
  "bind_st m f s = (case m s of (s', Inl e) \<Rightarrow> (s', Inl e) | (s', Inr a) \<Rightarrow> f a s')"

lemma bind_st_cong [fundef_cong]:
  assumes "m = m'" and "\<And>a. f a = g a"
  shows "bind_st m f = bind_st m' g"
  using assms by presburger

lemma map_st_fun_cong [fundef_cong]:
  assumes "xs = ys" and "\<And>x. x \<in> set ys \<Longrightarrow> f x = g x"
  shows "map_st f xs = map_st g ys"
  using assms by (intro ext map_st_cong) auto

definition map_err :: "('e \<Rightarrow> 'f) \<Rightarrow> ('s \<Rightarrow> 's \<times> ('e + 'a)) \<Rightarrow> 's \<Rightarrow> 's \<times> ('f + 'a)" where
  "map_err f m s = (case m s of (s', Inl e) \<Rightarrow> (s', Inl (f e)) | (s', Inr a) \<Rightarrow> (s', Inr a))"

section \<open>The host\<close>

datatype flow = Done | BreakFlow nat | ContinueFlow nat | ReturnFlow nat dvalue

datatype inherited = Removed | Bridged string | Absent

datatype leaf_effect =
    SetCwd string
  | SetRoot string
  | DeclareVar string type_tag dvalue
  | MutateVar string dvalue
  | NextTask nat

record 'w host =
  h_float :: float_ops
  h_platform :: platform
  h_pure :: pure_fns
  h_ctx :: "nat \<Rightarrow> dvalue list \<Rightarrow> 'w exec_state \<Rightarrow> 'w \<times> bool \<times> (exec_error + dvalue)"
  h_fresh_pipe :: "'w exec_state \<Rightarrow> 'w \<times> nat"
  h_inspect :: "'w exec_state \<Rightarrow> string \<Rightarrow> type_tag \<Rightarrow> dvalue \<Rightarrow> (string \<times> dvalue) list"
  h_inherit :: "string \<Rightarrow> 'w exec_state \<Rightarrow> inherited"
  h_command :: "nat \<Rightarrow> string list \<Rightarrow> 'w exec_state \<Rightarrow> leaf_effect list \<times> 'w \<times> bool \<times> (exec_error + unit)"
  h_streams :: "nat list \<Rightarrow> step_kind \<Rightarrow> 'w exec_state \<Rightarrow> 'w \<times> bool \<times> (exec_error + unit)"
  h_captured :: "'w exec_state \<Rightarrow> 'w \<times> bool \<times> (exec_error + string)"
  h_reap :: "'w exec_state \<Rightarrow> 'w \<times> bool \<times> (exec_error + unit)"
  h_teardown :: "'w exec_state \<Rightarrow> 'w"
  h_kill_children :: "'w exec_state \<Rightarrow> 'w"
  h_fired :: "nat \<Rightarrow> 'w exec_state \<Rightarrow> bool"

text \<open>The effect of a host operation: a new world, and the cancellation flag possibly raised.\<close>

definition host_step :: "('w exec_state \<Rightarrow> 'w \<times> bool \<times> (exec_error + 'a)) \<Rightarrow>
    'w exec_state \<Rightarrow> 'w exec_state \<times> (exec_error + 'a)" where
  "host_step f s =
     (case f s of (w, c, r) \<Rightarrow> (s\<lparr>st_world := w, st_cancel_token := st_cancel_token s \<or> c\<rparr>, r))"

section \<open>Calls and blocks\<close>

definition clean_var :: "string \<Rightarrow> string" where
  "clean_var v = dropWhile (\<lambda>c. c = CHR ''$'') v"

definition arity_gate :: "string \<Rightarrow> func_meta \<Rightarrow> nat \<Rightarrow> exec_error + unit" where
  "arity_gate name meta n =
     (case fm_params meta of
        None \<Rightarrow> Ok ()
      | Some params \<Rightarrow>
          if n < required_arity params \<or> length params < n
          then Err (ArityError (base_name name) (required_arity params) (length params) n)
          else Ok ())"

definition return_label :: "string \<Rightarrow> string" where
  "return_label name = ''function `'' @ base_name name @ ''` returned''"

definition checked_return :: "string \<Rightarrow> func_meta \<Rightarrow> dvalue \<Rightarrow> 's \<Rightarrow> 's \<times> (exec_error + dvalue)" where
  "checked_return name meta v =
     reads (\<lambda>_. case check_host_return_value (return_label name) (fm_returns meta) v of
        Err e \<Rightarrow> Err (HostReturn e) | Ok _ \<Rightarrow> Ok v)"

text \<open>Run in a fresh scope and pop it on every path; an error of the body wins over one of the pop.\<close>

definition merge_pop :: "exec_error + 'a \<Rightarrow> state_error + unit \<Rightarrow> exec_error + 'a" where
  "merge_pop r p = (case r of Err e \<Rightarrow> Err e | Ok a \<Rightarrow> (case p of Ok _ \<Rightarrow> Ok a | Err e \<Rightarrow> Err (StateError e)))"

definition scoped :: "('w exec_state \<Rightarrow> 'w exec_state \<times> (exec_error + 'a)) \<Rightarrow>
    'w exec_state \<Rightarrow> 'w exec_state \<times> (exec_error + 'a)" where
  "scoped m s =
     (case m (push_scope s) of (s1, r) \<Rightarrow> case pop_scope s1 of (s2, p) \<Rightarrow> (s2, merge_pop r p))"

type_synonym 'w executor = "step list \<Rightarrow> bool \<Rightarrow> 'w exec_state \<Rightarrow> 'w exec_state \<times> (exec_error + flow)"

text \<open>The value of a body at its boundary.\<close>

definition boundary :: "flow \<Rightarrow> 's \<Rightarrow> 's \<times> (exec_error + dvalue)" where
  "boundary fl =
     (case fl of
        Done \<Rightarrow> ret (VStr [])
      | ReturnFlow _ v \<Rightarrow> ret v
      | BreakFlow i \<Rightarrow> fail (BreakCrosses i)
      | ContinueFlow i \<Rightarrow> fail (ContinueCrosses i))"

definition block_value :: "'w executor \<Rightarrow> step list \<Rightarrow> 'w exec_state \<Rightarrow> 'w exec_state \<times> (exec_error + dvalue)" where
  "block_value X body = scoped (bind_st (X body False) boundary)"

text \<open>\<open>INHERIT_ENV\<close>: names the host removed go, names it bridges or has come in.\<close>

definition inherit_env :: "'w host \<Rightarrow> string list \<Rightarrow> 'w exec_state \<Rightarrow> 'w exec_state" where
  "inherit_env H keys s =
     (let removals = filter (\<lambda>k. h_inherit H k s = Removed) keys;
          inserts = concat (map (\<lambda>k. case h_inherit H k s of Bridged v \<Rightarrow> [(k, v)] | _ \<Rightarrow> []) keys);
          kept = fold (\<lambda>k m. m(k := None)) removals (st_envs s)
      in s\<lparr>st_envs := fold (\<lambda>(k, v) m. m(k \<mapsto> v)) inserts kept\<rparr>)"

fun bind_params :: "float_ops \<Rightarrow> (string \<times> type_tag) list \<Rightarrow> dvalue list \<Rightarrow> 'w exec_state \<Rightarrow> 'w exec_state \<times> (exec_error + unit)" where
  "bind_params F ((p, t) # ps) (v # vs) =
     bind_st (map_err StateError (declare_var F p t v)) (\<lambda>_. bind_params F ps vs)"
| "bind_params F _ _ = ret ()"

definition module_context :: "'w exec_state \<Rightarrow> string option \<Rightarrow> (string option \<times> env_map \<times> string list) option" where
  "module_context s owner =
     (case owner of
        None \<Rightarrow> None
      | Some key \<Rightarrow>
          (case map_of (st_modules s) key of
             None \<Rightarrow> None
           | Some rec \<Rightarrow> map_option (\<lambda>init. (mr_dir rec, mi_envs init, mi_inherit_names init)) (mr_init rec)))"

definition enter_call :: "'w host \<Rightarrow> string option \<Rightarrow> 'w exec_state \<Rightarrow> 'w exec_state" where
  "enter_call H owner s =
     (let s1 = push_scope (s\<lparr>st_call_depth := st_call_depth s + 1\<rparr>);
          s2 = s1\<lparr>st_module_stack := owner # st_module_stack s1\<rparr>
      in case module_context s owner of
           Some (dir, es, names) \<Rightarrow>
             (let s3 = reset_module_context dir es s2 in if names \<noteq> [] then inherit_env H names s3 else s3)
         | None \<Rightarrow> s2)"

definition leave_call :: "'w exec_state \<Rightarrow> 'w exec_state" where
  "leave_call s = s\<lparr>st_call_depth := st_call_depth s - 1, st_module_stack := drop 1 (st_module_stack s)\<rparr>"

definition in_call :: "'w host \<Rightarrow> string option \<Rightarrow> ('w exec_state \<Rightarrow> 'w exec_state \<times> (exec_error + dvalue)) \<Rightarrow>
    'w exec_state \<Rightarrow> 'w exec_state \<times> (exec_error + dvalue)" where
  "in_call H owner m s =
     (case m (enter_call H owner s) of (s1, r) \<Rightarrow> case pop_scope s1 of (s2, p) \<Rightarrow> (leave_call s2, merge_pop r p))"

definition call_script ::
    "'w host \<Rightarrow> 'w executor \<Rightarrow> (string \<times> type_tag) list \<Rightarrow> step list \<Rightarrow> string option \<Rightarrow> dvalue list \<Rightarrow>
      'w exec_state \<Rightarrow> 'w exec_state \<times> (exec_error + dvalue)" where
  "call_script H X params body owner vals =
     in_call H owner (bind_st (bind_params (h_float H) params vals) (\<lambda>_. bind_st (X body False) boundary))"

definition run_body ::
    "'w host \<Rightarrow> 'w executor \<Rightarrow> string \<Rightarrow> func_entry \<Rightarrow> dvalue list \<Rightarrow> 'w exec_state \<Rightarrow> 'w exec_state \<times> (exec_error + dvalue)" where
  "run_body H X name entry vals =
     (case entry_body entry of
        BodyScript params body owner \<Rightarrow> call_script H X params body owner vals
      | BodyPure f \<Rightarrow> bind_st (reads (\<lambda>_. h_pure H f vals)) (checked_return name (entry_meta entry))
      | BodyCtx f \<Rightarrow> bind_st (host_step (h_ctx H f vals)) (checked_return name (entry_meta entry))
      | BodyBoth _ f \<Rightarrow> bind_st (host_step (h_ctx H f vals)) (checked_return name (entry_meta entry)))"

definition call_func_value ::
    "'w host \<Rightarrow> 'w executor \<Rightarrow> string \<Rightarrow> nat \<Rightarrow> ('w exec_state \<Rightarrow> 'w exec_state \<times> (exec_error + dvalue list)) \<Rightarrow>
      'w exec_state \<Rightarrow> 'w exec_state \<times> (exec_error + dvalue)" where
  "call_func_value H X name n eval_args s =
     (case registry_get name (st_functions s) of
        None \<Rightarrow> (s, Err (UnknownFunction name))
      | Some entry \<Rightarrow>
          if MAX_CALL_DEPTH \<le> st_call_depth s then (s, Err (RecursionLimit (base_name name)))
          else (case arity_gate name (entry_meta entry) n of
              Err e \<Rightarrow> (s, Err e)
            | Ok _ \<Rightarrow> bind_st eval_args (run_body H X name entry) s))"

text \<open>Native calls in expressions: the gates, then the stateful arm, then the pure one.\<close>

definition call_native ::
    "'w host \<Rightarrow> string \<Rightarrow> func_meta \<Rightarrow> dvalue list \<Rightarrow> 'w exec_state \<Rightarrow> 'w exec_state \<times> (exec_error + dvalue)" where
  "call_native H name meta vals s =
     (case clone_ctx_fn name (st_functions s) of
        Some f \<Rightarrow> bind_st (host_step (h_ctx H f vals)) (checked_return name meta) s
      | None \<Rightarrow>
          (case clone_pure_fn name (st_functions s) of
             Some f \<Rightarrow> bind_st (reads (\<lambda>_. h_pure H f vals)) (checked_return name meta) s
           | None \<Rightarrow> (s, Err (UnknownFunction name))))"

definition call_expr ::
    "'w host \<Rightarrow> 'w executor \<Rightarrow> string \<Rightarrow> nat \<Rightarrow> ('w exec_state \<Rightarrow> 'w exec_state \<times> (exec_error + dvalue list)) \<Rightarrow>
      'w exec_state \<Rightarrow> 'w exec_state \<times> (exec_error + dvalue)" where
  "call_expr H X name n eval_args s =
     (if contains_script name (st_functions s) then call_func_value H X name n eval_args s
      else case registry_meta name (st_functions s) of
        None \<Rightarrow> (s, Err (UnknownFunction name))
      | Some meta \<Rightarrow>
          if MAX_CALL_DEPTH \<le> st_call_depth s then (s, Err (RecursionLimit (base_name name)))
          else (case arity_gate name meta n of
              Err e \<Rightarrow> (s, Err e)
            | Ok _ \<Rightarrow> bind_st eval_args (call_native H name meta) s))"

definition inspect_var_map :: "'w host \<Rightarrow> string \<Rightarrow> 'w exec_state \<Rightarrow> exec_error + (string \<times> dvalue) list" where
  "inspect_var_map H var s =
     (let key = clean_var var in
      case get_var_typed s key of
        None \<Rightarrow> Err (UndefinedVariable key)
      | Some (t, v) \<Rightarrow>
          Ok (btree_collect ([(''type'', VStr (render_structural t)), (''variable'', VStr key)] @ h_inspect H s key t v)))"

section \<open>The stack machine\<close>

definition load_const :: "'w host \<Rightarrow> dvalue \<Rightarrow> 'w exec_state \<Rightarrow> exec_error + dvalue" where
  "load_const H v s =
     (case as_str v of
        Some t \<Rightarrow> bind_result (expand_string (h_float H) (h_pure H) (st_envs s) s t) (\<lambda>r. Ok (VStr r))
      | None \<Rightarrow> Ok v)"

definition load_var :: "string \<Rightarrow> 'w exec_state \<Rightarrow> exec_error + dvalue" where
  "load_var name s = (case get_var s name of Some v \<Rightarrow> Ok v | None \<Rightarrow> Err (UndefinedVariable name))"

definition load_env :: "string \<Rightarrow> 'w exec_state \<Rightarrow> exec_error + dvalue" where
  "load_env key s = Ok (VStr (case get_env s key of Some v \<Rightarrow> v | None \<Rightarrow> []))"

definition inspect_value :: "'w host \<Rightarrow> string \<Rightarrow> 'w exec_state \<Rightarrow> exec_error + dvalue" where
  "inspect_value H var s = bind_result (inspect_var_map H var s) (\<lambda>m. Ok (VMap m))"

definition math_call :: "'w host \<Rightarrow> string \<Rightarrow> dvalue list \<Rightarrow> 'w exec_state \<Rightarrow> 'w exec_state \<times> (exec_error + dvalue)" where
  "math_call H name vals s =
     (case (if (case registry_meta name (st_functions s) of Some meta \<Rightarrow> fm_rpn meta | None \<Rightarrow> False)
            then clone_ctx_fn name (st_functions s) else None) of
        Some f \<Rightarrow> host_step (h_ctx H f vals) s
      | None \<Rightarrow>
          (case clone_pure_fn name (st_functions s) of
             Some f \<Rightarrow> (s, h_pure H f vals)
           | None \<Rightarrow> (s, Err (UnknownFunction name))))"

definition binary :: "(dvalue \<Rightarrow> dvalue \<Rightarrow> exec_error + dvalue) \<Rightarrow> dvalue list \<Rightarrow> 's \<Rightarrow> 's \<times> (exec_error + dvalue list)" where
  "binary f stack =
     (case stack of
        right # left # rest \<Rightarrow> reads (\<lambda>_. bind_result (f left right) (\<lambda>v. Ok (v # rest)))
      | _ \<Rightarrow> fail StackUnderflow)"

definition push_on :: "dvalue list \<Rightarrow> ('s \<Rightarrow> exec_error + dvalue) \<Rightarrow> 's \<Rightarrow> 's \<times> (exec_error + dvalue list)" where
  "push_on stack f = reads (\<lambda>s. bind_result (f s) (\<lambda>v. Ok (v # stack)))"

text \<open>The stack is kept top first.\<close>

fun math_step :: "'w host \<Rightarrow> math_op \<Rightarrow> dvalue list \<Rightarrow> 'w exec_state \<Rightarrow> 'w exec_state \<times> (exec_error + dvalue list)" where
  "math_step H (MPushConst v) stack = push_on stack (load_const H v)"
| "math_step H (MLoadVar name) stack = push_on stack (load_var name)"
| "math_step H (MLoadEnv key) stack = push_on stack (load_env key)"
| "math_step H (MLoadKeyPath base keys) stack = push_on stack (\<lambda>s. resolve_key_path_value s base keys)"
| "math_step H (MCall name n) stack =
     (if length stack < n then fail StackUnderflow
      else bind_st (math_call H name (rev (take n stack))) (\<lambda>v. ret (v # drop n stack)))"
| "math_step H (MInspect name) stack = push_on stack (inspect_value H name)"
| "math_step H MNeg stack =
     (case stack of v # rest \<Rightarrow> push_on rest (\<lambda>_. apply_neg v) | [] \<Rightarrow> fail StackUnderflow)"
| "math_step H (MArith op) stack = binary (apply_arith (h_float H) op) stack"
| "math_step H (MCompare op) stack = binary (apply_compare (h_float H) op) stack"

fun run_math :: "'w host \<Rightarrow> math_op list \<Rightarrow> dvalue list \<Rightarrow> 'w exec_state \<Rightarrow> 'w exec_state \<times> (exec_error + dvalue list)" where
  "run_math H [] stack = ret stack"
| "run_math H (op # ops) stack = bind_st (math_step H op stack) (run_math H ops)"

definition evaluate_compiled_math :: "'w host \<Rightarrow> math_op list \<Rightarrow> 'w exec_state \<Rightarrow> 'w exec_state \<times> (exec_error + dvalue)" where
  "evaluate_compiled_math H ops =
     bind_st (run_math H ops []) (\<lambda>stack. if length stack = 1 then ret (hd stack) else fail (StackLeft (length stack)))"

section \<open>Evaluation\<close>

definition as_condition :: "dvalue \<Rightarrow> 's \<Rightarrow> 's \<times> (exec_error + bool)" where
  "as_condition v = reads (\<lambda>_. is_truthy v)"

fun evaluate_expr :: "'w host \<Rightarrow> 'w executor \<Rightarrow> expr \<Rightarrow> 'w exec_state \<Rightarrow> 'w exec_state \<times> (exec_error + dvalue)" where
  "evaluate_expr H X (ELiteral v) = reads (load_const H v)"
| "evaluate_expr H X (EVar name) = reads (load_var name)"
| "evaluate_expr H X (EEnv key) = reads (load_env key)"
| "evaluate_expr H X (EKeyPath base keys) = reads (\<lambda>s. resolve_key_path_value s base keys)"
| "evaluate_expr H X (EList items) =
     bind_st (map_st (evaluate_expr H X) items) (\<lambda>vs. ret (VList vs))"
| "evaluate_expr H X (EMap es) =
     bind_st (map_st (\<lambda>p. bind_st (evaluate_expr H X (snd p)) (\<lambda>v. ret (fst p, v))) es)
       (\<lambda>kvs. ret (VMap (btree_collect kvs)))"
| "evaluate_expr H X (EBlock body) = block_value X body"
| "evaluate_expr H X (ECall name args) = call_expr H X name (length args) (map_st (evaluate_expr H X) args)"
| "evaluate_expr H X (EInspect var) = reads (inspect_value H var)"
| "evaluate_expr H X EFreshPipe =
     host_step (\<lambda>s. case h_fresh_pipe H s of (w, p) \<Rightarrow> (w, False, Ok (VPipe p)))"
| "evaluate_expr H X (EArithmetic op l r) =
     bind_st (evaluate_expr H X l) (\<lambda>lv. bind_st (evaluate_expr H X r)
       (\<lambda>rv. reads (\<lambda>_. apply_arith (h_float H) op lv rv)))"
| "evaluate_expr H X (ECompiledMath ops) = evaluate_compiled_math H ops"
| "evaluate_expr H X (EUnsignedIntBoundary n) = fail (UnstagedBoundary n)"
| "evaluate_expr H X (ECompare op l r) =
     bind_st (evaluate_expr H X l) (\<lambda>lv. bind_st (evaluate_expr H X r)
       (\<lambda>rv. reads (\<lambda>_. apply_compare (h_float H) op lv rv)))"
| "evaluate_expr H X (ELogical op l r) =
     bind_st (bind_st (evaluate_expr H X l) as_condition) (\<lambda>b.
       if op = LOr \<and> b then ret (VBool True)
       else if op = LAnd \<and> \<not> b then ret (VBool False)
       else bind_st (bind_st (evaluate_expr H X r) as_condition) (\<lambda>c. ret (VBool c)))"
| "evaluate_expr H X (ENot e) =
     bind_st (bind_st (evaluate_expr H X e) as_condition) (\<lambda>b. ret (VBool (\<not> b)))"

section \<open>Arguments of commands\<close>

fun resolve_part :: "'w host \<Rightarrow> 'w executor \<Rightarrow> arg_part \<Rightarrow> 'w exec_state \<Rightarrow> 'w exec_state \<times> (exec_error + string)" where
  "resolve_part H X (PartText t) = reads (\<lambda>s. expand_string (h_float H) (h_pure H) (st_envs s) s t)"
| "resolve_part H X (PartExpr e) =
     bind_st (evaluate_expr H X e) (\<lambda>v. reads (\<lambda>_. format_value_for_string (h_float H) v))"

fun resolve_arg :: "'w host \<Rightarrow> 'w executor \<Rightarrow> arg \<Rightarrow> 'w exec_state \<Rightarrow> 'w exec_state \<times> (exec_error + string)" where
  "resolve_arg H X (ArgString t) = reads (\<lambda>s. expand_string (h_float H) (h_pure H) (st_envs s) s t)"
| "resolve_arg H X (ArgExpr e) =
     bind_st (evaluate_expr H X e) (\<lambda>v. reads (\<lambda>_. format_value_for_string (h_float H) v))"
| "resolve_arg H X (ArgParts parts) = bind_st (map_st (resolve_part H X) parts) (\<lambda>ts. ret (concat ts))"

fun evaluate_assert_operand :: "'w host \<Rightarrow> 'w executor \<Rightarrow> arg \<Rightarrow> 'w exec_state \<Rightarrow> 'w exec_state \<times> (exec_error + dvalue)" where
  "evaluate_assert_operand H X (ArgExpr e) = evaluate_expr H X e"
| "evaluate_assert_operand H X a = bind_st (resolve_arg H X a) (\<lambda>t. ret (VStr t))"

definition resolve_arg_as_int :: "'w host \<Rightarrow> 'w executor \<Rightarrow> arg \<Rightarrow> 'w exec_state \<Rightarrow> 'w exec_state \<times> (exec_error + 64 word)" where
  "resolve_arg_as_int H X a =
     bind_st (resolve_arg H X a) (\<lambda>t. reads (\<lambda>_.
       case parse_i64 (strip_digit_separators t) of Some i \<Rightarrow> Ok i | None \<Rightarrow> Err (ExpectedInt t)))"

definition resolve_arg_as_duration :: "'w host \<Rightarrow> 'w executor \<Rightarrow> arg \<Rightarrow> 'w exec_state \<Rightarrow> 'w exec_state \<times> (exec_error + nat)" where
  "resolve_arg_as_duration H X a =
     bind_st (resolve_arg H X a) (\<lambda>t. reads (\<lambda>_.
       case parse_duration t of Ok d \<Rightarrow> Ok d | Err e \<Rightarrow> Err (ExpectedDuration t)))"

text \<open>A host without files, processes or functions, used to exercise the theorems.\<close>

definition sample_floats :: float_ops where
  "sample_floats = \<lparr>f64_of_i64 = \<lambda>_. 0, f64_of_u64 = \<lambda>_. 0, f64_to_string = \<lambda>_. ''0'', f64_of_str = \<lambda>_. None,
     f64_add = (\<lambda>_ _. 0), f64_sub = (\<lambda>_ _. 0), f64_mul = (\<lambda>_ _. 0), f64_div = (\<lambda>_ _. 0), host_display = (\<lambda>_ _. [])\<rparr>"

definition sample_host :: "unit host" where
  "sample_host =
     \<lparr>h_float = sample_floats,
      h_platform = \<lparr>platform_is_macos = False, platform_is_linux = True, platform_is_windows = False, arch_target = ''x86_64''\<rparr>,
      h_pure = (\<lambda>_ _. Err (HostError 0)), h_ctx = (\<lambda>_ _ _. ((), False, Err (HostError 0))),
      h_fresh_pipe = (\<lambda>_. ((), 0)), h_inspect = (\<lambda>_ _ _ _. []), h_inherit = (\<lambda>_ _. Absent),
      h_command = (\<lambda>_ _ _. ([], (), False, Ok ())), h_streams = (\<lambda>_ _ _. ((), False, Ok ())),
      h_captured = (\<lambda>_. ((), False, Ok [])), h_reap = (\<lambda>_. ((), False, Ok ())), h_teardown = (\<lambda>_. ()), h_kill_children = (\<lambda>_. ()), h_fired = (\<lambda>_ _. False)\<rparr>"

lemma sample_floats_finite: "\<forall>n. f64_is_finite (f64_of_i64 (h_float sample_host) n)"
  by (simp add: sample_host_def sample_floats_def f64_is_finite_def f64_exponent_def)

end
