(* ===== verification/Math_Compile.thy ===== *)
theory Math_Compile
  imports Expr_Eval
begin

text \<open>Lowering of arithmetic in the parser (\<open>oxdock-parser/src/commands.rs\<close>): number literals with the
  staged boundary of the most negative integer, constant folding, and compilation of dynamic
  operands to flat stack code. The compiled code is proved to compute what the expression
  computes, and never to disturb the stack below it.\<close>

section \<open>Lowering\<close>

datatype lower_error = TooLarge string | BadFloat string

fun expr_to_rpn :: "expr \<Rightarrow> math_op list option" where
  "expr_to_rpn (ELiteral v) = Some [MPushConst v]"
| "expr_to_rpn (EVar name) = Some [MLoadVar name]"
| "expr_to_rpn (EEnv key) = Some [MLoadEnv key]"
| "expr_to_rpn (EKeyPath base keys) = Some [MLoadKeyPath base keys]"
| "expr_to_rpn (ECall name args) =
     (case those (map expr_to_rpn args) of
        None \<Rightarrow> None
      | Some opss \<Rightarrow> Some (concat opss @ [MCall name (length args)]))"
| "expr_to_rpn (EInspect var) = Some [MInspect var]"
| "expr_to_rpn (EArithmetic op l r) =
     (case expr_to_rpn l of
        None \<Rightarrow> None
      | Some lops \<Rightarrow> (case expr_to_rpn r of None \<Rightarrow> None | Some rops \<Rightarrow> Some (lops @ rops @ [MArith op])))"
| "expr_to_rpn (ECompare op l r) =
     (case expr_to_rpn l of
        None \<Rightarrow> None
      | Some lops \<Rightarrow> (case expr_to_rpn r of None \<Rightarrow> None | Some rops \<Rightarrow> Some (lops @ rops @ [MCompare op])))"
| "expr_to_rpn (ECompiledMath ops) = Some ops"
| "expr_to_rpn _ = None"

fun reject_boundary :: "expr \<Rightarrow> lower_error + unit" where
  "reject_boundary (EUnsignedIntBoundary n) = Err (TooLarge ''9223372036854775808'')"
| "reject_boundary _ = Ok ()"

definition zero_minus :: "expr \<Rightarrow> expr" where
  "zero_minus e = EArithmetic ASub (ELiteral (VInt 0)) e"

definition compile_neg :: "expr \<Rightarrow> expr" where
  "compile_neg e = (case expr_to_rpn e of Some ops \<Rightarrow> ECompiledMath (ops @ [MNeg]) | None \<Rightarrow> zero_minus e)"

definition neg_literal :: "dvalue \<Rightarrow> expr" where
  "neg_literal v =
     (case as_i64 v of
        Some n \<Rightarrow> (case checked_neg n of
            Some m \<Rightarrow> ELiteral (VInt m) | None \<Rightarrow> ECompiledMath [MPushConst v, MNeg])
      | None \<Rightarrow>
          (case as_f64 v of
             Some f \<Rightarrow> ELiteral (VFloat (f64_neg f))
           | None \<Rightarrow> compile_neg (ELiteral v)))"

fun apply_unary_neg :: "expr \<Rightarrow> lower_error + expr" where
  "apply_unary_neg (ELiteral v) = Ok (neg_literal v)"
| "apply_unary_neg (EUnsignedIntBoundary n) =
     (if n = 2 ^ 63 then Ok (ELiteral (VInt (word_of_int (- (2 ^ 63))))) else Err (TooLarge (show_nat n)))"
| "apply_unary_neg e = Ok (compile_neg e)"

definition compile_binary :: "math_op \<Rightarrow> expr \<Rightarrow> expr \<Rightarrow> expr \<Rightarrow> expr" where
  "compile_binary op node l r =
     (case (expr_to_rpn l, expr_to_rpn r) of
        (Some lops, Some rops) \<Rightarrow> ECompiledMath (lops @ rops @ [op])
      | _ \<Rightarrow> node)"

definition make_arith :: "float_ops \<Rightarrow> arith_op \<Rightarrow> expr \<Rightarrow> expr \<Rightarrow> lower_error + expr" where
  "make_arith F op l r =
     bind_result (reject_boundary l) (\<lambda>_. bind_result (reject_boundary r) (\<lambda>_.
       case try_fold_arith F op l r of
         Some folded \<Rightarrow> Ok folded
       | None \<Rightarrow> Ok (compile_binary (MArith op) (EArithmetic op l r) l r)))"

definition make_compare :: "float_ops \<Rightarrow> compare_op \<Rightarrow> expr \<Rightarrow> expr \<Rightarrow> lower_error + expr" where
  "make_compare F op l r =
     bind_result (reject_boundary l) (\<lambda>_. bind_result (reject_boundary r) (\<lambda>_.
       case try_fold_compare F op l r of
         Some folded \<Rightarrow> Ok folded
       | None \<Rightarrow> Ok (compile_binary (MCompare op) (ECompare op l r) l r)))"

definition classify_numeric_text :: "float_ops \<Rightarrow> string \<Rightarrow> lower_error + expr" where
  "classify_numeric_text F t =
     (let clean = filter (\<lambda>c. c \<noteq> CHR ''_'') t in
      if CHR ''.'' \<in> set clean then
        (case f64_of_str F clean of
           None \<Rightarrow> Err (BadFloat t)
         | Some f \<Rightarrow> if f64_is_finite f then Ok (ELiteral (VFloat f)) else Err (BadFloat t))
      else (case parse_u64 clean of
           None \<Rightarrow> Err (TooLarge t)
         | Some n \<Rightarrow>
             if n < 2 ^ 63 then Ok (ELiteral (VInt (of_nat n)))
             else if n = 2 ^ 63 then Ok (EUnsignedIntBoundary n)
             else Err (TooLarge t)))"

section \<open>Laws of sequencing\<close>

lemma bind_st_assoc: "bind_st (bind_st m f) g = bind_st m (\<lambda>a. bind_st (f a) g)"
  by (rule ext) (auto simp: bind_st_def split: prod.splits sum.splits)

lemma bind_st_ret [simp]: "bind_st m ret = m" "bind_st (ret a) f = f a" "bind_st (fail e) f = fail e"
  by (rule ext, auto simp: bind_st_def ret_def fail_def split: prod.splits sum.splits)+

lemma bind_st_reads: "bind_st (reads (\<lambda>_. r)) f = (case r of Err e \<Rightarrow> fail e | Ok a \<Rightarrow> f a)"
  by (rule ext) (auto simp: bind_st_def reads_def fail_def split: sum.splits)

lemma push_on_bind: "push_on stack f = bind_st (reads f) (\<lambda>v. ret (v # stack))"
  by (rule ext) (auto simp: push_on_def reads_def bind_st_def ret_def split: sum.splits)

lemma run_math_append: "run_math H (a @ b) stack = bind_st (run_math H a stack) (run_math H b)"
proof (induction a arbitrary: stack)
  case (Cons op a)
  then have "run_math H (a @ b) = (\<lambda>st. bind_st (run_math H a st) (run_math H b))" by (intro ext) simp
  then show ?case by (simp add: bind_st_assoc)
qed simp

lemma binary_push: "binary f (r # l # rest) = push_on rest (\<lambda>_. f l r)"
  by (simp add: binary_def push_on_def)

section \<open>Stack shape\<close>

text \<open>The depth an operation leaves, given the depth it starts from.\<close>

fun op_depth :: "math_op \<Rightarrow> nat \<Rightarrow> nat option" where
  "op_depth (MCall name n) d = (if n \<le> d then Some (Suc (d - n)) else None)"
| "op_depth MNeg d = (if 1 \<le> d then Some d else None)"
| "op_depth (MArith op) d = (if 2 \<le> d then Some (d - 1) else None)"
| "op_depth (MCompare op) d = (if 2 \<le> d then Some (d - 1) else None)"
| "op_depth op d = Some (Suc d)"

fun ops_depth :: "math_op list \<Rightarrow> nat \<Rightarrow> nat option" where
  "ops_depth [] d = Some d"
| "ops_depth (op # ops) d = Option.bind (op_depth op d) (ops_depth ops)"

lemma ops_depth_append: "ops_depth (a @ b) d = Option.bind (ops_depth a d) (ops_depth b)"
  by (induction a arbitrary: d) (simp_all split: bind_split)

lemma op_depth_shift: "op_depth op d = Some d' \<Longrightarrow> op_depth op (d + k) = Some (d' + k)"
  by (cases op) (auto split: if_splits)

lemma ops_depth_shift: "ops_depth ops d = Some d' \<Longrightarrow> ops_depth ops (d + k) = Some (d' + k)"
proof (induction ops arbitrary: d)
  case (Cons op ops)
  then show ?case by (auto simp: bind_eq_Some_conv dest: op_depth_shift)
qed simp

lemma math_step_frame:
  assumes "op_depth op (length st) = Some d"
  shows "math_step H op (st @ rest) = bind_st (math_step H op st) (\<lambda>st'. ret (st' @ rest))"
    and "\<And>s s' st'. math_step H op st s = (s', Ok st') \<Longrightarrow> length st' = d"
proof -
  have pops: "\<exists>v w ys. st = v # w # ys" if "2 \<le> length st"
    using that by (cases st; cases "List.tl st") auto
  have one: "\<exists>v ys. st = v # ys" if "Suc 0 \<le> length st"
    using that by (cases st) auto
  show "math_step H op (st @ rest) = bind_st (math_step H op st) (\<lambda>st'. ret (st' @ rest))"
    using assms by (cases op) (auto simp: push_on_bind bind_st_assoc binary_push dest!: pops one split: if_splits)
  show "length st' = d" if "math_step H op st s = (s', Ok st')" for s s' st'
    using assms that
    by (cases op) (auto simp: push_on_def reads_def binary_push bind_st_def ret_def result_simps
        dest!: pops one split: if_splits prod.splits sum.splits)
qed

lemma run_math_length:
  "\<lbrakk>ops_depth ops (length st) = Some d; run_math H ops st s = (s', Ok st')\<rbrakk> \<Longrightarrow> length st' = d"
proof (induction ops arbitrary: st s)
  case (Cons op ops)
  from Cons.prems(1) obtain d1 where d1: "op_depth op (length st) = Some d1" "ops_depth ops d1 = Some d"
    by (auto simp: bind_eq_Some_conv)
  from Cons.prems(2) obtain s1 st1 where step: "math_step H op st s = (s1, Ok st1)" "run_math H ops st1 s1 = (s', Ok st')"
    by (auto simp: bind_st_def split: prod.splits sum.splits)
  with math_step_frame(2) [OF d1(1)] d1(2) have "ops_depth ops (length st1) = Some d" by metis
  from Cons.IH [OF this step(2)] show ?case .
qed (simp add: ret_def)

lemma run_math_frame:
  "ops_depth ops (length st) = Some d \<Longrightarrow>
     run_math H ops (st @ rest) s = bind_st (run_math H ops st) (\<lambda>st'. ret (st' @ rest)) s"
proof (induction ops arbitrary: st s)
  case (Cons op ops)
  from Cons.prems obtain d1 where d1: "op_depth op (length st) = Some d1" "ops_depth ops d1 = Some d"
    by (auto simp: bind_eq_Some_conv)
  note frame = math_step_frame [OF d1(1)]
  obtain s1 r where step: "math_step H op st s = (s1, r)" by fastforce
  show ?case
  proof (cases r)
    case (Inr st1)
    with frame(2) step d1(2) have "ops_depth ops (length st1) = Some d" by metis
    from Cons.IH [OF this] step Inr frame(1) [of H rest] show ?thesis
      by (simp add: bind_st_def ret_def)
  qed (use step frame(1) [of H rest] in \<open>simp add: bind_st_def\<close>)
qed simp

text \<open>Code that leaves exactly one value computes it whatever is below.\<close>

lemma run_exact:
  assumes "ops_depth ops 0 = Some 1"
  shows "run_math H ops stack = bind_st (evaluate_compiled_math H ops) (\<lambda>v. ret (v # stack))"
proof (rule ext)
  fix s
  obtain s1 r where run: "run_math H ops [] s = (s1, r)" by fastforce
  have "run_math H ops stack s = bind_st (run_math H ops []) (\<lambda>st'. ret (st' @ stack)) s"
    using run_math_frame [of ops "[]" 1 H stack s] assms by simp
  then show "run_math H ops stack s = bind_st (evaluate_compiled_math H ops) (\<lambda>v. ret (v # stack)) s"
  proof (cases r)
    case (Inr st')
    with run_math_length [of ops "[]" 1 H s s1 st'] run assms obtain v where "st' = [v]"
      by (auto simp: length_Suc_conv)
    with Inr run \<open>run_math H ops stack s = _\<close> show ?thesis
      by (simp add: evaluate_compiled_math_def bind_st_def ret_def)
  qed (use run in \<open>simp add: evaluate_compiled_math_def bind_st_def\<close>)
qed

section \<open>Compiled code computes the expression\<close>

text \<open>Expressions whose compiled form has no call; code compiled earlier is well shaped.\<close>

fun call_free :: "expr \<Rightarrow> bool" where
  "call_free (ECall name args) = False"
| "call_free (EArithmetic op l r) = (call_free l \<and> call_free r)"
| "call_free (ECompare op l r) = (call_free l \<and> call_free r)"
| "call_free (ECompiledMath ops) = (ops_depth ops 0 = Some 1)"
| "call_free _ = True"

lemma compiled_runs:
  "\<lbrakk>call_free e; expr_to_rpn e = Some ops\<rbrakk> \<Longrightarrow>
     ops_depth ops 0 = Some 1 \<and>
     run_math H ops stack = bind_st (evaluate_expr H X e) (\<lambda>v. ret (v # stack))"
proof (induction e arbitrary: ops stack)
  case (EArithmetic op l r)
  from EArithmetic.prems obtain lops rops where ops: "expr_to_rpn l = Some lops" "expr_to_rpn r = Some rops"
    "ops = lops @ rops @ [MArith op]" "call_free l" "call_free r" by (auto split: option.splits)
  note L = EArithmetic.IH(1) [OF ops(4,1)] and R = EArithmetic.IH(2) [OF ops(5,2)]
  then have "ops_depth rops 1 = Some 2" using ops_depth_shift [of rops 0 1 1] by simp
  with L have "ops_depth ops 0 = Some 1" using ops(3) by (simp add: ops_depth_append)
  moreover have "run_math H ops stack = bind_st (evaluate_expr H X (EArithmetic op l r)) (\<lambda>v. ret (v # stack))"
    using ops(3) conjunct2 [OF L] conjunct2 [OF R]
    by (simp add: run_math_append bind_st_assoc binary_push push_on_bind)
  ultimately show ?case ..
next
  case (ECompare op l r)
  from ECompare.prems obtain lops rops where ops: "expr_to_rpn l = Some lops" "expr_to_rpn r = Some rops"
    "ops = lops @ rops @ [MCompare op]" "call_free l" "call_free r" by (auto split: option.splits)
  note L = ECompare.IH(1) [OF ops(4,1)] and R = ECompare.IH(2) [OF ops(5,2)]
  then have "ops_depth rops 1 = Some 2" using ops_depth_shift [of rops 0 1 1] by simp
  with L have "ops_depth ops 0 = Some 1" using ops(3) by (simp add: ops_depth_append)
  moreover have "run_math H ops stack = bind_st (evaluate_expr H X (ECompare op l r)) (\<lambda>v. ret (v # stack))"
    using ops(3) conjunct2 [OF L] conjunct2 [OF R]
    by (simp add: run_math_append bind_st_assoc binary_push push_on_bind)
  ultimately show ?case ..
next
  case (ECompiledMath ops')
  then show ?case using run_exact by auto
qed (auto simp: push_on_bind bind_st_assoc)

lemma compiled_evaluates:
  assumes "call_free e" "expr_to_rpn e = Some ops"
  shows "evaluate_compiled_math H ops = evaluate_expr H X e"
proof -
  have "run_math H ops [] = bind_st (evaluate_expr H X e) (\<lambda>v. ret [v])" using compiled_runs [OF assms] by blast
  then show ?thesis by (simp add: evaluate_compiled_math_def bind_st_assoc)
qed

lemma literal_value: "as_str v = None \<Longrightarrow> evaluate_expr H X (ELiteral v) = ret v"
  by (rule ext) (simp add: reads_def load_const_def ret_def)

lemma fold_arith_numeric:
  assumes "fold_arith_values F op l r = Some v"
  shows "as_str l = None" "as_str r = None" "as_str v = None"
proof -
  have num: "as_str x = None" if "as_f64_value F x = Some f" for x f
    using that by (cases x) (auto simp: as_f64_value_def reader_defs)
  have int: "as_str x = None" if "as_i64 x = Some n" for x n
    using that by (cases x) (auto simp: reader_defs)
  from assms num int show "as_str l = None" "as_str r = None"
    by (auto simp: fold_arith_values_def split: option.splits)
  from assms show "as_str v = None"
    by (auto simp: fold_arith_values_def Let_def reader_defs split: option.splits if_splits)
qed

lemma fold_compare_plain:
  assumes "fold_compare_values F op l r = Some v"
  shows "as_str l = None" "as_str r = None" "as_str v = None"
proof -
  have num: "as_str x = None" if "as_f64_value F x = Some f" for x f
    using that by (cases x) (auto simp: as_f64_value_def reader_defs)
  have int: "as_str x = None" if "as_i64 x = Some n" for x n
    using that by (cases x) (auto simp: reader_defs)
  have bool: "as_str x = None" if "as_bool x = Some n" for x n
    using that by (cases x) (auto simp: reader_defs)
  from assms num int bool show "as_str l = None" "as_str r = None"
    by (auto simp: fold_compare_values_def split: option.splits)
  from assms have "\<exists>b. v = VBool b"
    by (auto simp: fold_compare_values_def split: option.splits if_splits)
  then show "as_str v = None" by (auto simp: reader_defs)
qed

lemma folded_evaluates:
  assumes "as_str l = None" "as_str r = None" "as_str v = None" "f l r = Ok v"
  shows "bind_st (evaluate_expr H X (ELiteral l)) (\<lambda>lv. bind_st (evaluate_expr H X (ELiteral r)) (\<lambda>rv. reads (\<lambda>_. f lv rv)))
     = evaluate_expr H X (ELiteral v)"
  using assms by (simp add: literal_value del: evaluate_expr.simps) (auto simp: reads_def ret_def)

lemma compile_binary_evaluates:
  assumes "call_free l" "call_free r"
    and node: "expr_to_rpn node = (case (expr_to_rpn l, expr_to_rpn r) of (Some a, Some b) \<Rightarrow> Some (a @ b @ [op]) | _ \<Rightarrow> None)"
    and "call_free node"
  shows "evaluate_expr H X (compile_binary op node l r) = evaluate_expr H X node"
proof (cases "\<exists>a b. expr_to_rpn l = Some a \<and> expr_to_rpn r = Some b")
  case True
  then obtain a b where "expr_to_rpn l = Some a" "expr_to_rpn r = Some b" by blast
  with node compiled_evaluates [OF assms(4), of "a @ b @ [op]" H X] show ?thesis
    by (simp add: compile_binary_def)
next
  case False
  then show ?thesis by (auto simp: compile_binary_def split: option.splits)
qed

lemma make_arith_evaluates:
  assumes "\<forall>n. f64_is_finite (f64_of_i64 (h_float H) n)" and "call_free l" and "call_free r"
    and "make_arith (h_float H) op l r = Ok a"
  shows "evaluate_expr H X a = evaluate_expr H X (EArithmetic op l r)"
proof (cases "try_fold_arith (h_float H) op l r")
  case None
  with assms(4) have "a = compile_binary (MArith op) (EArithmetic op l r) l r"
    by (auto simp: make_arith_def result_simps)
  with compile_binary_evaluates [of l r "EArithmetic op l r" "MArith op" H X] assms(2,3) show ?thesis
    by (simp split: option.splits)
next
  case (Some e)
  then obtain lv rv v where lits: "l = ELiteral lv" "r = ELiteral rv" "e = ELiteral v"
    and fold: "fold_arith_values (h_float H) op lv rv = Some v"
    by (auto simp: try_fold_arith_def split: expr.splits)
  have "apply_arith (h_float H) op lv rv = Ok v"
    using fold fold_arith_is_runtime [OF assms(1), of op lv rv] by (simp split: sum.splits)
  moreover have "a = e" using assms(4) Some by (auto simp: make_arith_def result_simps)
  ultimately show ?thesis
    using folded_evaluates [OF fold_arith_numeric [OF fold], of "apply_arith (h_float H) op" H X] lits by simp
qed

lemma make_compare_evaluates:
  assumes "call_free l" and "call_free r" and "make_compare (h_float H) cmp l r = Ok c"
  shows "evaluate_expr H X c = evaluate_expr H X (ECompare cmp l r)"
proof (cases "try_fold_compare (h_float H) cmp l r")
  case None
  with assms(3) have "c = compile_binary (MCompare cmp) (ECompare cmp l r) l r"
    by (auto simp: make_compare_def result_simps)
  with compile_binary_evaluates [of l r "ECompare cmp l r" "MCompare cmp" H X] assms(1,2) show ?thesis
    by (simp split: option.splits)
next
  case (Some e)
  then obtain lv rv v where lits: "l = ELiteral lv" "r = ELiteral rv" "e = ELiteral v"
    and fold: "fold_compare_values (h_float H) cmp lv rv = Some v"
    by (auto simp: try_fold_compare_def split: expr.splits)
  moreover have "c = e" using assms(3) Some by (auto simp: make_compare_def result_simps)
  ultimately show ?thesis
    using folded_evaluates [OF fold_compare_plain [OF fold], of "apply_compare (h_float H) cmp" H X]
      fold_compare_is_runtime [OF fold] by simp
qed

section \<open>Properties\<close>

text \<open>C7. The compiled stack code computes the expression: for every expression the parser
  compiles without calls, the code yields the same value, the same error and the same
  state in every state, and it never reads or changes the stack below it.\<close>

theorem compiled_math_equivalent:
  assumes "call_free e" and "expr_to_rpn e = Some ops"
  shows "evaluate_expr H X (ECompiledMath ops) s = evaluate_expr H X e s \<and>
    run_math H ops stack s = bind_st (evaluate_expr H X e) (\<lambda>v. ret (v # stack)) s"
  using compiled_evaluates [OF assms, of H X] compiled_runs [OF assms, of H stack X] by simp

theorem compiled_math_equivalent_witness:
  "\<forall>H X s. evaluate_expr H X (ECompiledMath [MLoadVar ''a'', MPushConst (VInt 2), MArith AMul, MLoadVar ''b'', MCompare CLt]) s =
     evaluate_expr H X (ECompare CLt (EArithmetic AMul (EVar ''a'') (ELiteral (VInt 2))) (EVar ''b'')) s"
proof (intro allI)
  fix H X s
  let ?e = "ECompare CLt (EArithmetic AMul (EVar ''a'') (ELiteral (VInt 2))) (EVar ''b'')"
  have "call_free ?e" "expr_to_rpn ?e = Some [MLoadVar ''a'', MPushConst (VInt 2), MArith AMul, MLoadVar ''b'', MCompare CLt]"
    by simp_all
  from compiled_math_equivalent [OF this] show
    "evaluate_expr H X (ECompiledMath [MLoadVar ''a'', MPushConst (VInt 2), MArith AMul, MLoadVar ''b'', MCompare CLt]) s =
     evaluate_expr H X ?e s" by blast
qed

text \<open>Lowering keeps the meaning: whatever the parser makes of a binary operation on call-free
  operands (a folded constant, compiled code or a tree node), evaluating it is evaluating
  the left operand, then the right one, and applying the runtime operator.\<close>

theorem lowering_preserves_meaning:
  assumes "\<forall>n. f64_is_finite (f64_of_i64 (h_float H) n)" and "call_free l" and "call_free r"
    and "make_arith (h_float H) op l r = Ok a" and "make_compare (h_float H) cmp l r = Ok c"
  shows "evaluate_expr H X a = evaluate_expr H X (EArithmetic op l r) \<and>
    evaluate_expr H X c = evaluate_expr H X (ECompare cmp l r)"
  using make_arith_evaluates [OF assms(1-4)] make_compare_evaluates [OF assms(2,3,5)] by blast

theorem lowering_preserves_meaning_witness:
  "\<forall>X. evaluate_expr sample_host X (ECompiledMath [MLoadVar ''n'', MPushConst (VInt 1), MArith AAdd]) =
     evaluate_expr sample_host X (EArithmetic AAdd (EVar ''n'') (ELiteral (VInt 1)))"
proof
  fix X
  have "make_arith (h_float sample_host) AAdd (EVar ''n'') (ELiteral (VInt 1)) =
      Ok (ECompiledMath [MLoadVar ''n'', MPushConst (VInt 1), MArith AAdd])"
    "make_compare (h_float sample_host) CEq (EVar ''n'') (ELiteral (VInt 1)) =
      Ok (ECompiledMath [MLoadVar ''n'', MPushConst (VInt 1), MCompare CEq])"
    by (simp_all add: make_arith_def make_compare_def try_fold_arith_def try_fold_compare_def compile_binary_def)
  from lowering_preserves_meaning [OF sample_floats_finite _ _ this, of X] show
    "evaluate_expr sample_host X (ECompiledMath [MLoadVar ''n'', MPushConst (VInt 1), MArith AAdd]) =
     evaluate_expr sample_host X (EArithmetic AAdd (EVar ''n'') (ELiteral (VInt 1)))" by simp
qed

text \<open>Compilation changes calls of script functions: as an operand of arithmetic such a call is
  compiled, and the stack machine reports an unknown function where the expression on its own
  performs the call.\<close>

theorem script_call_lost_in_arithmetic:
  assumes "contains_script f (st_functions s)"
  shows "make_arith F op (ECall f []) (ELiteral v) = Ok (ECompiledMath [MCall f 0, MPushConst v, MArith op]) \<and>
    evaluate_expr H X (ECompiledMath [MCall f 0, MPushConst v, MArith op]) s = (s, Err (UnknownFunction f)) \<and>
    evaluate_expr H X (ECall f []) s = call_func_value H X f 0 (map_st (evaluate_expr H X) []) s"
proof -
  from assms have none: "clone_ctx_fn f (st_functions s) = None" "clone_pure_fn f (st_functions s) = None"
    by (auto simp: contains_script_def is_script_def clone_ctx_fn_def clone_pure_fn_def
        split: option.splits func_body.splits)
  then have "math_call H f [] s = (s, Err (UnknownFunction f))"
    by (simp add: math_call_def split: option.split)
  with assms show ?thesis
    by (simp add: make_arith_def try_fold_arith_def compile_binary_def call_expr_def
        evaluate_compiled_math_def bind_st_def)
qed

definition one_function :: "unit exec_state" where
  "one_function = (sample_state [[]])\<lparr>st_functions := \<lparr>reg_entries = [(''SCRIPT::F'',
     script_entry ''SCRIPT'' [] [Step None (SReturn (ELiteral (VInt 41))) 0 0] None)], reg_frames = []\<rparr>\<rparr>"

theorem script_call_lost_in_arithmetic_witness:
  "\<forall>H X. evaluate_expr H X (ECompiledMath [MCall ''SCRIPT::F'' 0, MPushConst (VInt 1), MArith AAdd]) one_function =
     (one_function, Err (UnknownFunction ''SCRIPT::F''))"
proof (intro allI)
  fix H X
  have "contains_script ''SCRIPT::F'' (st_functions one_function)"
    by (simp add: one_function_def contains_script_def registry_get_def is_script_def script_entry_def)
  from script_call_lost_in_arithmetic [OF this] show
    "evaluate_expr H X (ECompiledMath [MCall ''SCRIPT::F'' 0, MPushConst (VInt 1), MArith AAdd]) one_function =
     (one_function, Err (UnknownFunction ''SCRIPT::F''))" by blast
qed

end
