(* ===== verification/Interpreter.thy ===== *)
theory Interpreter
  imports Math_Compile
begin

text \<open>Execution of steps (\<open>oxdock-core/src/exec/steps.rs\<close> and the control handlers of
  \<open>handlers.rs\<close>): the step loop with its guards, scope markers and cancellation checks,
  conditionals, loops, function definitions and calls, \<open>ISOLATED\<close>, \<open>TIMEOUT\<close>, \<open>WITH_IO\<close>, assignments
  and environment directives. The executor is indexed by fuel: a level of nesting and an iteration of
  \<open>WHILE\<close> each take one unit, and running out is an error of its own that nothing catches. Leaf
  commands go to the host, which answers with the effects it has on the working directory,
  the root, the variables and the task counter. Captures of imports, assertion windows,
  positions in error messages and imports are not modelled.\<close>

section \<open>Leaf operations\<close>

definition resolve_tag_st :: "string \<Rightarrow> 'w exec_state \<Rightarrow> 'w exec_state \<times> (exec_error + type_tag)" where
  "resolve_tag_st name s =
     (case resolve_tag (st_directory s) name (st_tags s) of
        (tags, Inl e) \<Rightarrow> (s\<lparr>st_tags := tags\<rparr>, Err (TypeResolution e))
      | (tags, Inr t) \<Rightarrow> (s\<lparr>st_tags := tags\<rparr>, Ok t))"

definition coerce_st :: "float_ops \<Rightarrow> dvalue \<Rightarrow> type_tag \<Rightarrow> 's \<Rightarrow> 's \<times> (exec_error + dvalue)" where
  "coerce_st F v t =
     reads (\<lambda>_. case coerce_value F v t of Err e \<Rightarrow> Err (StateError (CoercionError e)) | Ok c \<Rightarrow> Ok c)"

definition declare_st :: "'w host \<Rightarrow> string \<Rightarrow> type_tag \<Rightarrow> dvalue \<Rightarrow> 'w exec_state \<Rightarrow> 'w exec_state \<times> (exec_error + unit)" where
  "declare_st H key t v = map_err StateError (declare_var (h_float H) key t v)"

definition mutate_st :: "'w host \<Rightarrow> string \<Rightarrow> dvalue \<Rightarrow> 'w exec_state \<Rightarrow> 'w exec_state \<times> (exec_error + unit)" where
  "mutate_st H key v = map_err StateError (mutate_var (h_float H) key v)"

definition assign :: "'w host \<Rightarrow> 'w executor \<Rightarrow> string \<Rightarrow> string \<Rightarrow> expr \<Rightarrow> 'w exec_state \<Rightarrow> 'w exec_state \<times> (exec_error + unit)" where
  "assign H X var decl_type e =
     bind_st (evaluate_expr H X e) (\<lambda>v. bind_st (resolve_tag_st decl_type) (\<lambda>t. declare_st H (clean_var var) t v))"

definition set_var_value :: "'w host \<Rightarrow> 'w executor \<Rightarrow> string \<Rightarrow> expr \<Rightarrow> 'w exec_state \<Rightarrow> 'w exec_state \<times> (exec_error + unit)" where
  "set_var_value H X var e = bind_st (evaluate_expr H X e) (mutate_st H (clean_var var))"

definition push_into :: "'w host \<Rightarrow> 'w executor \<Rightarrow> string \<Rightarrow> arg \<Rightarrow> 'w exec_state \<Rightarrow> 'w exec_state \<times> (exec_error + unit)" where
  "push_into H X list item =
     bind_st (evaluate_assert_operand H X item) (\<lambda>v. map_err StateError (push_into_list list v))"

definition env_step :: "'w host \<Rightarrow> 'w executor \<Rightarrow> string \<Rightarrow> arg \<Rightarrow> 'w exec_state \<Rightarrow> 'w exec_state \<times> (exec_error + unit)" where
  "env_step H X key a =
     bind_st (resolve_arg H X a) (\<lambda>v s. (s\<lparr>st_envs := (st_envs s)(key \<mapsto> v)\<rparr>, Ok ()))"

definition define_func :: "string \<Rightarrow> (string \<times> string) list \<Rightarrow> step list \<Rightarrow> 'w exec_state \<Rightarrow> 'w exec_state \<times> (exec_error + unit)" where
  "define_func name params body =
     bind_st (map_st (\<lambda>(p, ty). bind_st (resolve_tag_st ty) (\<lambda>t. ret (p, t))) params) (\<lambda>resolved s.
       case define_script name resolved body (current_module s) (st_functions s) of
         Err e \<Rightarrow> (s, Err (RegistryError e))
       | Ok r \<Rightarrow> (s\<lparr>st_functions := r\<rparr>, Ok ()))"

definition isolated_inherit_env :: "string list \<Rightarrow> 'w exec_state \<Rightarrow> 'w exec_state \<times> (exec_error + unit)" where
  "isolated_inherit_env keys s =
     (case st_isolated_stack s of
        [] \<Rightarrow> (s, Err OutsideIsolated)
      | snapshot # _ \<Rightarrow>
          (s\<lparr>st_envs := fold (\<lambda>k m. case snapshot k of Some v \<Rightarrow> m(k \<mapsto> v) | None \<Rightarrow> m) keys (st_envs s)\<rparr>, Ok ()))"

definition exit_step :: "'w host \<Rightarrow> 'w executor \<Rightarrow> arg \<Rightarrow> 'w exec_state \<Rightarrow> 'w exec_state \<times> (exec_error + unit)" where
  "exit_step H X a =
     bind_st (resolve_arg_as_int H X a) (\<lambda>code s. (s\<lparr>st_world := h_kill_children H s\<rparr>, Err (ExitRequest code)))"

fun apply_effect :: "'w host \<Rightarrow> leaf_effect \<Rightarrow> 'w exec_state \<Rightarrow> 'w exec_state \<times> (exec_error + unit)" where
  "apply_effect H (SetCwd d) s = (s\<lparr>st_cwd := d\<rparr>, Ok ())"
| "apply_effect H (SetRoot d) s = (s\<lparr>st_root := d\<rparr>, Ok ())"
| "apply_effect H (DeclareVar k t v) s = declare_st H k t v s"
| "apply_effect H (MutateVar k v) s = mutate_st H k v s"
| "apply_effect H (NextTask n) s = (s\<lparr>st_next_task_id := n\<rparr>, Ok ())"

definition handle_command :: "'w host \<Rightarrow> nat \<Rightarrow> string list \<Rightarrow> 'w exec_state \<Rightarrow> 'w exec_state \<times> (exec_error + unit)" where
  "handle_command H c vals s =
     (case h_command H c vals s of (effects, w, raised, r) \<Rightarrow>
        bind_st (map_st (apply_effect H) effects) (\<lambda>_. host_step (\<lambda>_. (w, raised, r))) s)"

text \<open>The arguments of a leaf command are resolved in order before its handler runs.\<close>

definition leaf_command :: "'w host \<Rightarrow> 'w executor \<Rightarrow> nat \<Rightarrow> arg list \<Rightarrow> 'w exec_state \<Rightarrow> 'w exec_state \<times> (exec_error + unit)" where
  "leaf_command H X c args = bind_st (map_st (resolve_arg H X) args) (handle_command H c)"

section \<open>Blocks and loops\<close>

type_synonym 'w runs = "'w exec_state \<Rightarrow> 'w exec_state \<times> (exec_error + flow)"

definition execute_scoped_steps :: "'w executor \<Rightarrow> step list \<Rightarrow> bool \<Rightarrow> 'w runs" where
  "execute_scoped_steps X steps wait = scoped (X steps wait)"

definition condition :: "'w host \<Rightarrow> 'w executor \<Rightarrow> expr \<Rightarrow> 'w exec_state \<Rightarrow> 'w exec_state \<times> (exec_error + bool)" where
  "condition H X c = bind_st (evaluate_expr H X c) as_condition"

fun if_chain :: "'w host \<Rightarrow> 'w executor \<Rightarrow> (expr \<times> step list) list \<Rightarrow> step list option \<Rightarrow> 'w runs" where
  "if_chain H X [] else_body =
     (case else_body of Some body \<Rightarrow> execute_scoped_steps X body False | None \<Rightarrow> ret Done)"
| "if_chain H X ((c, body) # rest) else_body =
     bind_st (condition H X c) (\<lambda>t. if t then execute_scoped_steps X body False else if_chain H X rest else_body)"

definition if_then :: "'w host \<Rightarrow> 'w executor \<Rightarrow> expr \<Rightarrow> step list \<Rightarrow> (expr \<times> step list) list \<Rightarrow> step list option \<Rightarrow> 'w runs" where
  "if_then H X cond then_body else_ifs else_body = if_chain H X ((cond, then_body) # else_ifs) else_body"

text \<open>What a loop does with the flow of an iteration: go on, or leave with a flow.\<close>

fun after_iteration :: "flow \<Rightarrow> flow option" where
  "after_iteration Done = None"
| "after_iteration (ContinueFlow i) = None"
| "after_iteration (BreakFlow i) = Some Done"
| "after_iteration (ReturnFlow i v) = Some (ReturnFlow i v)"

fun while_loop :: "'w host \<Rightarrow> 'w executor \<Rightarrow> nat \<Rightarrow> expr \<Rightarrow> step list \<Rightarrow> 'w runs" where
  "while_loop H X 0 cond body s = (s, Err OutOfFuel)"
| "while_loop H X (Suc n) cond body s =
     (if st_cancel_token s then (s, Err TaskCancelled)
      else bind_st (condition H X cond) (\<lambda>t.
        if \<not> t then ret Done
        else bind_st (execute_scoped_steps X body False) (\<lambda>fl.
          case after_iteration fl of None \<Rightarrow> while_loop H X n cond body | Some fl' \<Rightarrow> ret fl')) s)"

text \<open>One iteration of \<open>FOR\<close>: the scope is pushed before the variables are bound, and only the
  body's end pops it.\<close>

definition for_iteration :: "'w executor \<Rightarrow> step list \<Rightarrow> ('w exec_state \<Rightarrow> 'w exec_state \<times> (exec_error + unit)) \<Rightarrow> 'w runs" where
  "for_iteration X body bind s =
     (case bind (push_scope s) of
        (s1, Inl e) \<Rightarrow> (s1, Err e)
      | (s1, Inr _) \<Rightarrow>
          (case X body False s1 of (s2, r) \<Rightarrow> case pop_scope s2 of (s3, p) \<Rightarrow> (s3, merge_pop r p)))"

fun for_each :: "'w executor \<Rightarrow> step list \<Rightarrow> ('w exec_state \<Rightarrow> 'w exec_state \<times> (exec_error + unit)) list \<Rightarrow> 'w runs" where
  "for_each X body [] = ret Done"
| "for_each X body (bind # binds) =
     bind_st (for_iteration X body bind) (\<lambda>fl.
       case after_iteration fl of None \<Rightarrow> for_each X body binds | Some fl' \<Rightarrow> ret fl')"

definition bind_coerced :: "'w host \<Rightarrow> string \<Rightarrow> type_tag \<Rightarrow> dvalue \<Rightarrow> 'w exec_state \<Rightarrow> 'w exec_state \<times> (exec_error + unit)" where
  "bind_coerced H name t v = bind_st (coerce_st (h_float H) v t) (declare_st H (clean_var name) t)"

definition bind_index :: "'w host \<Rightarrow> string option \<Rightarrow> string option \<Rightarrow> nat \<Rightarrow> 'w exec_state \<Rightarrow> 'w exec_state \<times> (exec_error + unit)" where
  "bind_index H key_var key_type i =
     (case key_var of
        None \<Rightarrow> ret ()
      | Some name \<Rightarrow>
          bind_st (case key_type of Some ty \<Rightarrow> resolve_tag_st ty | None \<Rightarrow> ret TInt)
            (\<lambda>kt. bind_coerced H name kt (VInt (of_nat i))))"

definition bind_list_item ::
    "'w host \<Rightarrow> string option \<Rightarrow> string option \<Rightarrow> string \<Rightarrow> type_tag \<Rightarrow> nat \<times> dvalue \<Rightarrow> 'w exec_state \<Rightarrow> 'w exec_state \<times> (exec_error + unit)" where
  "bind_list_item H key_var key_type var t item =
     bind_st (bind_index H key_var key_type (fst item)) (\<lambda>_. bind_coerced H var t (snd item))"

definition bind_map_entry ::
    "'w host \<Rightarrow> string \<Rightarrow> string \<Rightarrow> type_tag \<Rightarrow> string \<times> dvalue \<Rightarrow> 'w exec_state \<Rightarrow> 'w exec_state \<times> (exec_error + unit)" where
  "bind_map_entry H key_name var t p =
     bind_st (declare_st H (clean_var key_name) TString (VStr (fst p))) (\<lambda>_. bind_coerced H var t (snd p))"

definition for_loop ::
    "'w host \<Rightarrow> 'w executor \<Rightarrow> string option \<Rightarrow> string option \<Rightarrow> string \<Rightarrow> string \<Rightarrow> expr \<Rightarrow> step list \<Rightarrow> 'w runs" where
  "for_loop H X key_var key_type var var_type in_expr body =
     bind_st (evaluate_expr H X in_expr) (\<lambda>iterable.
     bind_st (resolve_tag_st var_type) (\<lambda>t.
       case as_list iterable of
         Some items \<Rightarrow> for_each X body (map (bind_list_item H key_var key_type var t) (enumerate 0 items))
       | None \<Rightarrow>
           (case as_map iterable of
              None \<Rightarrow> fail (NotIterable (type_name iterable))
            | Some m \<Rightarrow>
                (case key_var of
                   None \<Rightarrow> fail KeyBindingRequired
                 | Some key_name \<Rightarrow>
                     bind_st (case key_type of Some ty \<Rightarrow> resolve_tag_st ty | None \<Rightarrow> ret TString) (\<lambda>kt.
                       if kt \<noteq> TString then fail (KeyMustBeString (tag_name kt))
                       else for_each X body (map (bind_map_entry H key_name var t) m))))))"

definition isolated :: "'w executor \<Rightarrow> step list \<Rightarrow> 'w runs" where
  "isolated X body s =
     (case execute_scoped_steps X body False
        (s\<lparr>st_isolated_stack := st_envs s # st_isolated_stack s, st_envs := st_seed s\<rparr>) of
        (s1, r) \<Rightarrow>
          ((case st_isolated_stack s1 of
              snapshot # rest \<Rightarrow> s1\<lparr>st_isolated_stack := rest, st_envs := snapshot\<rparr>
            | [] \<Rightarrow> s1), r))"

definition timeout :: "'w host \<Rightarrow> 'w executor \<Rightarrow> nat \<Rightarrow> step list \<Rightarrow> 'w runs" where
  "timeout H X duration body s =
     (case execute_scoped_steps X body True
        (s\<lparr>st_cancellable := True, st_reap_floor := Some (st_next_task_id s)\<rparr>) of
        (s1, r) \<Rightarrow>
          (let fired = h_fired H duration s1;
               s2 = s1\<lparr>st_cancellable := st_cancellable s, st_reap_floor := st_reap_floor s,
                  st_cancel_token := (if fired then True else st_cancel_token s)\<rparr>
           in (s2, if fired then (case r of Err e \<Rightarrow> Err e | Ok _ \<Rightarrow> Err DeadlineExceeded) else r)))"

section \<open>Captures\<close>

text \<open>A call under layers of \<open>WITH_IO\<close>: its bindings, outermost first, and the call.\<close>

fun extract_call :: "step_kind \<Rightarrow> (nat list \<times> string \<times> expr list) option" where
  "extract_call (SCall name args) = Some ([], name, args)"
| "extract_call (SWithIo b k) = map_option (\<lambda>(bs, c). (b # bs, c)) (extract_call k)"
| "extract_call _ = None"

fun captured_flow :: "flow \<Rightarrow> 's \<Rightarrow> 's \<times> (exec_error + unit)" where
  "captured_flow Done = ret ()"
| "captured_flow (BreakFlow i) = fail (CannotCapture i)"
| "captured_flow (ContinueFlow i) = fail (CannotCapture i)"
| "captured_flow (ReturnFlow i v) = fail (CannotCapture i)"

text \<open>\<open>LET $x: T = <command>\<close>: a call binds its value, any other command the text it wrote.\<close>

definition assign_capture :: "'w host \<Rightarrow> 'w executor \<Rightarrow> 'w runs \<Rightarrow> string \<Rightarrow> string \<Rightarrow> step_kind \<Rightarrow>
    'w exec_state \<Rightarrow> 'w exec_state \<times> (exec_error + unit)" where
  "assign_capture H X run var decl_type k =
     bind_st
       (case extract_call k of
          Some (bs, name, args) \<Rightarrow>
            bind_st (if bs = [] then ret () else host_step (h_streams H bs k))
              (\<lambda>_. call_func_value H X name (length args) (map_st (evaluate_expr H X) args))
        | None \<Rightarrow>
            bind_st (bind_st run captured_flow) (\<lambda>_. bind_st (host_step (h_captured H)) (\<lambda>t. ret (VStr t))))
       (\<lambda>v. bind_st (resolve_tag_st decl_type) (\<lambda>t. declare_st H (clean_var var) t v))"

section \<open>The step loop\<close>

definition finish_step :: "('w exec_state \<Rightarrow> 'w exec_state \<times> (exec_error + 'a)) \<Rightarrow> 'w runs" where
  "finish_step m = bind_st m (\<lambda>_. ret Done)"

fun execute_kind :: "'w host \<Rightarrow> 'w executor \<Rightarrow> nat \<Rightarrow> nat \<Rightarrow> step_kind \<Rightarrow> 'w runs" where
  "execute_kind H X n idx (SFuncDef name params body) = finish_step (define_func name params body)"
| "execute_kind H X n idx (SCall name args) =
     finish_step (call_func_value H X name (length args) (map_st (evaluate_expr H X) args))"
| "execute_kind H X n idx (SReturn e) = bind_st (evaluate_expr H X e) (\<lambda>v. ret (ReturnFlow idx v))"
| "execute_kind H X n idx (SWhile c body) = while_loop H X n c body"
| "execute_kind H X n idx SBreak = ret (BreakFlow idx)"
| "execute_kind H X n idx SContinue = ret (ContinueFlow idx)"
| "execute_kind H X n idx (SFor key_var key_type var var_type e body) =
     for_loop H X key_var key_type var var_type e body"
| "execute_kind H X n idx (SIf c then_body else_ifs else_body) = if_then H X c then_body else_ifs else_body"
| "execute_kind H X n idx (STimeout a body) = bind_st (resolve_arg_as_duration H X a) (\<lambda>d. timeout H X d body)"
| "execute_kind H X n idx (SIsolated body) = isolated X body"
| "execute_kind H X n idx (SWithIo b k) =
     bind_st (host_step (h_streams H [b] k)) (\<lambda>_. execute_kind H X n idx k)"
| "execute_kind H X n idx (SAssignCapture var ty k) = finish_step (assign_capture H X (execute_kind H X n idx k) var ty k)"
| "execute_kind H X n idx (SAssign var ty e) = finish_step (assign H X var ty e)"
| "execute_kind H X n idx (SSet var e) = finish_step (set_var_value H X var e)"
| "execute_kind H X n idx (SListAppend list a) = finish_step (push_into H X list a)"
| "execute_kind H X n idx (SEnv key a) = finish_step (env_step H X key a)"
| "execute_kind H X n idx (SInheritEnv keys) = (\<lambda>s. (inherit_env H keys s, Ok Done))"
| "execute_kind H X n idx (SIsolatedInheritEnv keys) = finish_step (isolated_inherit_env keys)"
| "execute_kind H X n idx STypeAlias = ret Done"
| "execute_kind H X n idx SWithIoBlock = fail UnexpandedWithIo"
| "execute_kind H X n idx (SExit a) = finish_step (exit_step H X a)"
| "execute_kind H X n idx (SCommand c args) = finish_step (leaf_command H X c args)"

fun restore_scopes :: "nat \<Rightarrow> 'w exec_state \<Rightarrow> 'w exec_state \<times> (state_error + unit)" where
  "restore_scopes 0 s = (s, Ok ())"
| "restore_scopes (Suc n) s = (case pop_scope s of (s', Inl e) \<Rightarrow> (s', Err e) | (s', Inr _) \<Rightarrow> restore_scopes n s')"

definition execute_step :: "'w host \<Rightarrow> 'w executor \<Rightarrow> nat \<Rightarrow> nat \<Rightarrow> step \<Rightarrow> 'w runs" where
  "execute_step H X n idx stp s =
     (let s1 = (push_scope ^^ scope_enter stp) s in
      case (if guard_option_allows (h_platform H) (st_envs s1) (step_guard stp)
            then execute_kind H X n idx (step.kind stp) s1 else (s1, Ok Done)) of
        (s2, r) \<Rightarrow> case restore_scopes (scope_exit stp) s2 of (s3, p) \<Rightarrow> (s3, merge_pop r p))"

fun step_loop :: "'w host \<Rightarrow> 'w executor \<Rightarrow> nat \<Rightarrow> nat \<Rightarrow> step list \<Rightarrow> 'w runs" where
  "step_loop H X n idx [] s = (s, Ok Done)"
| "step_loop H X n idx (stp # rest) s =
     (if st_cancel_token s then (s, Err TaskCancelled)
      else bind_st (execute_step H X n idx stp)
        (\<lambda>fl. if fl = Done then step_loop H X n (Suc idx) rest else ret fl) s)"

definition execute_steps_inner :: "'w host \<Rightarrow> 'w executor \<Rightarrow> nat \<Rightarrow> step list \<Rightarrow> bool \<Rightarrow> 'w runs" where
  "execute_steps_inner H X n steps wait =
     bind_st (step_loop H X n 0 steps) (\<lambda>fl.
       if fl = Done \<and> wait then finish_step (host_step (h_reap H)) else ret fl)"

definition execute_steps :: "'w host \<Rightarrow> 'w executor \<Rightarrow> nat \<Rightarrow> step list \<Rightarrow> bool \<Rightarrow> 'w runs" where
  "execute_steps H X n steps wait s =
     (case execute_steps_inner H X n steps wait s of
        (s1, Inl e) \<Rightarrow> (s1\<lparr>st_world := h_teardown H s1\<rparr>, Err e)
      | (s1, Inr fl) \<Rightarrow> (s1, Ok fl))"

primrec exec :: "'w host \<Rightarrow> nat \<Rightarrow> 'w executor" where
  "exec H 0 = (\<lambda>steps wait s. (s, Err OutOfFuel))"
| "exec H (Suc n) = execute_steps H (exec H n) n"

end
