(* ===== verification/Fuel_Errors.thy ===== *)
theory Fuel_Errors
  imports Interpreter
begin

text \<open>Running out of fuel is an error only the executor produces. Every computation the
  interpreter makes without it reports other errors, as long as the host does.\<close>

definition clean :: "exec_error + 'a \<Rightarrow> bool" where
  "clean r \<longleftrightarrow> r \<noteq> Err OutOfFuel"

definition clean_host :: "'w host \<Rightarrow> bool" where
  "clean_host H \<longleftrightarrow>
     (\<forall>f vs. clean (h_pure H f vs)) \<and> (\<forall>f vs s. clean (snd (snd (h_ctx H f vs s)))) \<and>
     (\<forall>c vs s. clean (snd (snd (snd (h_command H c vs s))))) \<and> (\<forall>b k s. clean (snd (snd (h_streams H b k s)))) \<and>
     (\<forall>s. clean (snd (snd (h_captured H s)))) \<and> (\<forall>s. clean (snd (snd (h_reap H s))))"

named_theorems clean_rules

lemma clean_Ok [clean_rules]: "clean (Ok a)"
  by (simp add: clean_def)

lemma clean_Err: "clean (Err e) \<longleftrightarrow> e \<noteq> OutOfFuel"
  by (simp add: clean_def)

lemma clean_bind [clean_rules]: "\<lbrakk>clean r; \<And>a. clean (f a)\<rbrakk> \<Longrightarrow> clean (bind_result r f)"
  by (cases r) (simp_all add: clean_def)

lemma clean_case:
  "\<lbrakk>clean r; \<And>a. clean (f a)\<rbrakk> \<Longrightarrow> clean (case r of Inl e \<Rightarrow> Inl e | Inr a \<Rightarrow> f a)"
  by (cases r) (simp_all add: clean_def)

lemma clean_map [clean_rules]: "(\<And>x. x \<in> set xs \<Longrightarrow> clean (f x)) \<Longrightarrow> clean (map_result f xs)"
  by (induction xs) (auto simp: clean_def split: sum.splits)

lemma clean_format [clean_rules]: "clean (format_value_for_string F v)"
proof (induction F v rule: format_value_for_string.induct)
  case (10 F items)
  then show ?case unfolding format_value_for_string.simps by (intro clean_case clean_map clean_Ok)
next
  case (11 F m)
  then have "clean (format_value_for_string F (snd p))" if "p \<in> set m" for p using that by blast
  then show ?case unfolding format_value_for_string.simps by (intro clean_case clean_map clean_Ok)
qed (simp_all add: clean_def)

lemma clean_step_into: "clean (step_into key v)"
  by (simp add: step_into_def clean_def split: option.split)

lemma clean_walk: "clean (walk_path keys v)"
  by (induction keys arbitrary: v) (auto intro: clean_case clean_step_into clean_Ok)

lemma clean_walk_arg: "clean (walk_arg_path keys v)"
  by (induction keys arbitrary: v) (auto simp: clean_Err intro: clean_case clean_step_into clean_Ok)

lemma clean_key_path [clean_rules]: "clean (resolve_key_path_value s base keys)"
  by (simp add: resolve_key_path_value_def clean_walk clean_Err split: option.split)

lemma clean_unescape: "clean (unescape_literal t)"
  by (induction t rule: unescape_literal.induct) (auto simp: clean_Err intro: clean_case clean_Ok)

lemma clean_entries:
  assumes "\<And>t. clean (value_of t)"
  shows "clean (resolve_entries value_of m es)"
proof (induction es arbitrary: m)
  case (Cons e es)
  have "clean (resolve_call_key k)" for k by (simp add: resolve_call_key_def clean_unescape clean_Ok clean_Err)
  with Cons assms show ?case
    by (auto simp: clean_Err split: list.split intro!: clean_case)
qed (simp add: clean_Ok)

lemma clean_call_value: "clean (resolve_call_value n F vars t)"
proof (induction n arbitrary: t)
  case (Suc n)
  have "clean (resolve_value_path parts vars)" for parts
    by (auto simp: resolve_value_path_def clean_walk_arg clean_Err split: list.split option.split)
  moreover have "clean (resolve_call_map (resolve_call_value n F vars) inner)" for inner
    unfolding resolve_call_map_def using clean_entries [OF Suc] by (auto intro: clean_case clean_Ok)
  moreover have "clean (resolve_call_list (resolve_call_value n F vars) inner)" for inner
    unfolding resolve_call_list_def using Suc by (auto intro!: clean_case clean_Ok clean_map)
  moreover have "clean (case unescape_literal u of Err e \<Rightarrow> Err e | Ok t \<Rightarrow> Ok (VStr t))" for u
    by (intro clean_case clean_Ok clean_unescape)
  ultimately show ?case by (simp add: clean_Ok clean_Err split: option.split)
qed (simp add: clean_Err)

lemma clean_placeholder:
  assumes "\<And>f vs. clean (pure f vs)"
  shows "clean (expand_placeholder F pure env s key)"
proof -
  have args: "clean (render F (bind_result (map_result (resolve_call_arg F vars) args) (pure callee)))" for vars args callee
    unfolding render_def resolve_call_arg_def by (intro clean_bind clean_map clean_call_value clean_format assms)
  have call: "clean (call_placeholder F pure s call)" for call
    unfolding call_placeholder_def by (simp add: args clean_Err split: prod.split option.split)
  have path: "clean (render F (resolve_key_path_value s base rest))" for base rest
    unfolding render_def by (intro clean_bind clean_key_path clean_format)
  show ?thesis
    unfolding expand_placeholder_def
    by (simp add: clean_Ok clean_Err clean_format path call split: option.split list.split)
qed

lemma clean_expand: "(\<And>f vs. clean (pure f vs)) \<Longrightarrow> clean (expand_string F pure env s t)"
  unfolding expand_string_def
proof (intro clean_rules)
  fix seg assume "\<And>f vs. clean (pure f vs)"
  then show "clean (expand_segment F pure env s seg)" by (cases seg) (simp_all add: clean_placeholder clean_Ok)
qed

lemma clean_host_pure: "clean_host H \<Longrightarrow> clean (h_pure H f vs)"
  by (simp add: clean_host_def)

lemma clean_expand_host [clean_rules]: "clean_host H \<Longrightarrow> clean (expand_string (h_float H) (h_pure H) env s t)"
  using clean_expand clean_host_pure by blast

lemma clean_load [clean_rules]:
  "clean_host H \<Longrightarrow> clean (load_const H v s)" "clean (load_var name s)" "clean (load_env key s)" "clean (inspect_value H var s)"
proof -
  show "clean_host H \<Longrightarrow> clean (load_const H v s)"
    by (auto simp: load_const_def clean_Ok split: option.split intro!: clean_bind clean_expand_host)
  show "clean (load_var name s)" by (simp add: load_var_def clean_def split: option.split)
  show "clean (load_env key s)" by (simp add: load_env_def clean_def)
  have "clean (inspect_var_map H var s)" by (simp add: inspect_var_map_def Let_def clean_def split: option.split prod.split)
  then show "clean (inspect_value H var s)" unfolding inspect_value_def by (intro clean_rules)
qed

lemma clean_arith [clean_rules]:
  "clean (apply_arith F op l r)" "clean (apply_neg l)" "clean (apply_compare F cop l r)" "clean (is_truthy l)"
proof -
  show "clean (apply_arith F op l r)" by (simp add: apply_arith_def Let_def clean_def split: option.split)
  show "clean (apply_neg l)" by (simp add: apply_neg_def clean_def split: option.split)
  show "clean (is_truthy l)" by (simp add: is_truthy_def clean_def split: option.split)
  show "clean (apply_compare F cop l r)"
    by (auto simp: apply_compare_def clean_Ok clean_Err split: option.split intro!: clean_bind clean_format)
qed

end
