(* ===== verification/Frames.thy ===== *)
theory Frames
  imports Fuel_Errors
begin

text \<open>What execution keeps. A relation \<open>R\<close> between the states before and after a run that succeeds,
  and a relation \<open>E e\<close> for a run that fails with \<open>e\<close>, are kept by a computation if every run of
  it respects them. The locale \<open>exec_prims\<close> is the contract: the relations compose, the primitive
  operations keep them, and the operations that open and close a scope keep them if their
  body does. \<open>exec_frame\<close> adds an executor of nested bodies and carries the relations
  through every expression, step and loop; \<open>exec_laws\<close> closes the recursion at every
  fuel.\<close>

section \<open>Nested bodies\<close>

text \<open>Every body directly nested in an expression, an argument or a step satisfies \<open>B\<close>.\<close>

fun sub_expr :: "(step list \<Rightarrow> bool) \<Rightarrow> expr \<Rightarrow> bool" where
  "sub_expr B (EList es) = list_all (sub_expr B) es"
| "sub_expr B (EMap es) = list_all (\<lambda>p. sub_expr B (snd p)) es"
| "sub_expr B (EBlock body) = B body"
| "sub_expr B (ECall name args) = list_all (sub_expr B) args"
| "sub_expr B (ECompare op l r) = (sub_expr B l \<and> sub_expr B r)"
| "sub_expr B (EArithmetic op l r) = (sub_expr B l \<and> sub_expr B r)"
| "sub_expr B (ENot e) = sub_expr B e"
| "sub_expr B (ELogical op l r) = (sub_expr B l \<and> sub_expr B r)"
| "sub_expr B _ = True"

fun sub_part :: "(step list \<Rightarrow> bool) \<Rightarrow> arg_part \<Rightarrow> bool" where
  "sub_part B (PartText t) = True"
| "sub_part B (PartExpr e) = sub_expr B e"

fun sub_arg :: "(step list \<Rightarrow> bool) \<Rightarrow> arg \<Rightarrow> bool" where
  "sub_arg B (ArgString t) = True"
| "sub_arg B (ArgExpr e) = sub_expr B e"
| "sub_arg B (ArgParts ps) = list_all (sub_part B) ps"

fun sub_kind :: "(step list \<Rightarrow> bool) \<Rightarrow> step_kind \<Rightarrow> bool" where
  "sub_kind B (SFuncDef name params body) = B body"
| "sub_kind B (SCall name args) = list_all (sub_expr B) args"
| "sub_kind B (SReturn e) = sub_expr B e"
| "sub_kind B (SWhile c body) = (sub_expr B c \<and> B body)"
| "sub_kind B (SFor kv kt v vt e body) = (sub_expr B e \<and> B body)"
| "sub_kind B (SIf c body els el) =
     (sub_expr B c \<and> B body \<and> list_all (\<lambda>p. sub_expr B (fst p) \<and> B (snd p)) els \<and>
      (case el of Some b \<Rightarrow> B b | None \<Rightarrow> True))"
| "sub_kind B (STimeout a body) = (sub_arg B a \<and> B body)"
| "sub_kind B (SIsolated body) = B body"
| "sub_kind B (SWithIo b k) = sub_kind B k"
| "sub_kind B (SAssignCapture v ty k) = sub_kind B k"
| "sub_kind B (SAssign v ty e) = sub_expr B e"
| "sub_kind B (SSet v e) = sub_expr B e"
| "sub_kind B (SListAppend l a) = sub_arg B a"
| "sub_kind B (SEnv k a) = sub_arg B a"
| "sub_kind B (SExit a) = sub_arg B a"
| "sub_kind B (SCommand c args) = list_all (sub_arg B) args"
| "sub_kind B _ = True"

fun runs_while :: "step_kind \<Rightarrow> bool" where
  "runs_while (SWhile c body) = True"
| "runs_while (SWithIo b k) = runs_while k"
| "runs_while (SAssignCapture v ty k) = runs_while k"
| "runs_while _ = False"

lemma sub_expr_mono: "\<lbrakk>sub_expr B e; \<And>b. B b \<Longrightarrow> C b\<rbrakk> \<Longrightarrow> sub_expr C e"
  by (induction B e rule: sub_expr.induct) (auto simp: list_all_iff)

lemma sub_arg_mono: "\<lbrakk>sub_arg B a; \<And>b. B b \<Longrightarrow> C b\<rbrakk> \<Longrightarrow> sub_arg C a"
proof (cases a)
  case (ArgParts ps)
  assume "sub_arg B a" and B: "\<And>b. B b \<Longrightarrow> C b"
  have "sub_part C p" if "sub_part B p" for p using that B by (cases p) (auto elim: sub_expr_mono)
  with ArgParts \<open>sub_arg B a\<close> show ?thesis by (auto simp: list_all_iff)
qed (auto elim: sub_expr_mono)

lemma sub_kind_mono:
  fixes D :: "step list \<Rightarrow> bool"
  assumes "\<And>b. B b \<Longrightarrow> C b"
  shows "sub_kind B k \<Longrightarrow> sub_kind C k"
proof -
  have expr: "sub_expr C e" if "sub_expr B e" for e using that by (rule sub_expr_mono) (rule assms)
  have arg: "sub_arg C a" if "sub_arg B a" for a using that by (rule sub_arg_mono) (rule assms)
  show "sub_kind B k \<Longrightarrow> sub_kind C k"
    by (induction D k rule: sub_kind.induct) (auto simp: list_all_iff expr arg assms split: option.splits)
qed

lemma sub_expr_top:
  fixes D :: "step list \<Rightarrow> bool"
  shows "sub_expr (\<lambda>_. True) e"
  by (induction D e rule: sub_expr.induct) (simp_all add: list_all_iff)

lemma sub_arg_top: "sub_arg (\<lambda>_. True) a"
proof (cases a)
  case (ArgParts ps)
  have "sub_part (\<lambda>_. True) p" for p by (cases p) (simp_all add: sub_expr_top)
  with ArgParts show ?thesis by (simp add: list_all_iff)
qed (simp_all add: sub_expr_top)

lemma sub_kind_top:
  fixes D :: "step list \<Rightarrow> bool"
  shows "sub_kind (\<lambda>_. True) k"
proof (induction D k rule: sub_kind.induct)
  case (6 D c body els el)
  show ?case by (cases el) (simp_all add: sub_expr_top list_all_iff)
qed (simp_all add: sub_expr_top sub_arg_top list_all_iff)

section \<open>Relations kept by computations\<close>

definition keeps :: "(exec_error \<Rightarrow> 's \<Rightarrow> 's \<Rightarrow> bool) \<Rightarrow> ('s \<Rightarrow> 's \<Rightarrow> bool) \<Rightarrow> ('s \<Rightarrow> 's \<times> (exec_error + 'a)) \<Rightarrow> bool" where
  "keeps E R m \<longleftrightarrow> (\<forall>s. case m s of (s', Inl e) \<Rightarrow> E e s s' | (s', Inr a) \<Rightarrow> R s s')"

lemma keepsI:
  assumes "\<And>s s' e. m s = (s', Err e) \<Longrightarrow> E e s s'" "\<And>s s' a. m s = (s', Ok a) \<Longrightarrow> R s s'"
  shows "keeps E R m"
  unfolding keeps_def using assms by (simp split: prod.split sum.split)

lemma keeps_ok:
  assumes "keeps E R m" "m s = (s', Ok a)"
  shows "R s s'"
  using assms(1) [unfolded keeps_def, rule_format, of s] assms(2) by simp

lemma keeps_err:
  assumes "keeps E R m" "m s = (s', Err e)"
  shows "E e s s'"
  using assms(1) [unfolded keeps_def, rule_format, of s] assms(2) by simp

lemma merge_pop_Err: "merge_pop r p = Err e \<longleftrightarrow> r = Err e \<or> is_ok r \<and> (\<exists>x. p = Err x \<and> e = StateError x)"
  by (cases r; cases p) (auto simp: merge_pop_def)

lemma merge_pop_Ok: "merge_pop r p = Ok a \<longleftrightarrow> r = Ok a \<and> p = Ok ()"
  by (cases r; cases p) (auto simp: merge_pop_def)

locale frame_rel =
  fixes E :: "exec_error \<Rightarrow> 's \<Rightarrow> 's \<Rightarrow> bool" and R :: "'s \<Rightarrow> 's \<Rightarrow> bool"
  assumes R_refl: "R s s" and R_trans: "\<lbrakk>R s t; R t u\<rbrakk> \<Longrightarrow> R s u"
    and E_after: "\<lbrakk>R s t; E e t u\<rbrakk> \<Longrightarrow> E e s u" and E_then: "\<lbrakk>E e s t; R t u\<rbrakk> \<Longrightarrow> E e s u"
    and raised: "e \<noteq> OutOfFuel \<Longrightarrow> E e s s"
begin

lemma keeps_ret: "keeps E R (ret a)"
  by (simp add: keeps_def ret_def R_refl)

lemma keeps_fail: "e \<noteq> OutOfFuel \<Longrightarrow> keeps E R (fail e)"
  by (simp add: keeps_def fail_def raised)

lemma bind_st_Err:
  "bind_st m f s = (s', Err e) \<longleftrightarrow> m s = (s', Err e) \<or> (\<exists>t a. m s = (t, Ok a) \<and> f a t = (s', Err e))"
  by (auto simp: bind_st_def split: prod.split sum.split)

lemma bind_st_Ok: "bind_st m f s = (s', Ok b) \<longleftrightarrow> (\<exists>t a. m s = (t, Ok a) \<and> f a t = (s', Ok b))"
  by (auto simp: bind_st_def split: prod.split sum.split)

lemma keeps_bind:
  assumes "keeps E R m" "\<And>a. keeps E R (f a)"
  shows "keeps E R (bind_st m f)"
proof (rule keepsI)
  fix s s' e assume "bind_st m f s = (s', Err e)"
  then consider "m s = (s', Err e)" | t a where "m s = (t, Ok a)" "f a t = (s', Err e)" unfolding bind_st_Err by blast
  then show "E e s s'"
    by cases (use keeps_ok [OF assms(1)] keeps_err [OF assms(1)] keeps_err [OF assms(2)] E_after in blast)+
next
  fix s s' a assume "bind_st m f s = (s', Ok a)"
  then obtain t b where "m s = (t, Ok b)" "f b t = (s', Ok a)" unfolding bind_st_Ok by blast
  then show "R s s'" using keeps_ok [OF assms(1)] keeps_ok [OF assms(2)] R_trans by blast
qed

lemma map_st_Cons_bind:
  "map_st f (x # xs) = bind_st (f x) (\<lambda>y. bind_st (map_st f xs) (\<lambda>ys. ret (y # ys)))"
  by (rule ext) (auto simp: bind_st_def ret_def split: prod.splits sum.splits)

lemma map_st_Nil_ret: "map_st f [] = ret []"
  by (rule ext) (simp add: ret_def)

lemma keeps_map_st: "(\<And>x. x \<in> set xs \<Longrightarrow> keeps E R (f x)) \<Longrightarrow> keeps E R (map_st f xs)"
  by (induction xs) (auto simp: map_st_Cons_bind map_st_Nil_ret keeps_ret simp del: map_st.simps intro!: keeps_bind keeps_ret)

lemma keeps_if: "\<lbrakk>c \<Longrightarrow> keeps E R a; \<not> c \<Longrightarrow> keeps E R b\<rbrakk> \<Longrightarrow> keeps E R (if c then a else b)"
  by simp

lemma keeps_update: "(\<And>s. R s (f s)) \<Longrightarrow> keeps E R (\<lambda>s. (f s, Ok a))"
  by (simp add: keeps_def)

end

locale exec_prims = frame_rel E R
  for E :: "exec_error \<Rightarrow> 'w exec_state \<Rightarrow> 'w exec_state \<Rightarrow> bool" and R :: "'w exec_state \<Rightarrow> 'w exec_state \<Rightarrow> bool" +
  fixes H :: "'w host" and good :: "step list \<Rightarrow> bool" and P :: "'w exec_state \<Rightarrow> bool"
  assumes world: "R s (s\<lparr>st_world := w, st_cancel_token := c\<rparr>)"
    and ambient: "R s (s\<lparr>st_envs := es\<rparr>)" "R s (s\<lparr>st_cwd := d\<rparr>)" "R s (s\<lparr>st_root := d\<rparr>)"
      "R s (s\<lparr>st_next_task_id := k\<rparr>)" "R s (s\<lparr>st_tags := tags\<rparr>)"
    and store: "keeps E R (declare_st H key t v)" "keeps E R (mutate_st H key v)"
      "keeps E R (map_err StateError (push_into_list key v))"
    and scope: "keeps E R (m :: 'w exec_state \<Rightarrow> 'w exec_state \<times> (exec_error + flow)) \<Longrightarrow> keeps E R (scoped m)"
      "keeps E R (v_m :: 'w exec_state \<Rightarrow> 'w exec_state \<times> (exec_error + dvalue)) \<Longrightarrow> keeps E R (scoped v_m)"
    and iteration: "\<lbrakk>keeps E R bind; keeps E R (Y body False)\<rbrakk> \<Longrightarrow> keeps E R (for_iteration Y body bind)"
    and deadline: "keeps E R (Y body True) \<Longrightarrow> keeps E R (timeout H Y duration body)"
    and isolation: "keeps E R (Y body False) \<Longrightarrow> keeps E R (isolated Y body)"
    and definition_step: "\<lbrakk>good body; define_script name params body owner (st_functions s) = Ok f\<rbrakk> \<Longrightarrow>
      R s (s\<lparr>st_functions := f\<rparr>)"
    and outside: "\<not> P s \<Longrightarrow> R s s'" "\<not> P s \<Longrightarrow> E e s s'"
    and fuel: "clean_host H \<or> (\<forall>s. E OutOfFuel s s)"
begin

lemma world1: "R s (s\<lparr>st_world := w\<rparr>)"
proof -
  have "s\<lparr>st_world := w\<rparr> = s\<lparr>st_world := w, st_cancel_token := st_cancel_token s\<rparr>" by simp
  then show ?thesis using world by metis
qed

lemma E_self: "(clean_host H \<longrightarrow> e \<noteq> OutOfFuel) \<Longrightarrow> E e s s"
  using fuel raised by metis

lemma keeps_reads: "(\<And>s. clean_host H \<Longrightarrow> clean (f s)) \<Longrightarrow> keeps E R (reads f)"
  by (rule keepsI) (auto simp: reads_def R_refl clean_def intro!: E_self)

lemma keeps_host:
  assumes "\<And>s. clean_host H \<Longrightarrow> clean (snd (snd (f s)))"
  shows "keeps E R (host_step f)"
proof (rule keepsI)
  fix s s' e assume run: "host_step f s = (s', Err e)"
  then obtain w c where s': "s' = s\<lparr>st_world := w, st_cancel_token := st_cancel_token s \<or> c\<rparr>" and "f s = (w, c, Err e)"
    by (auto simp: host_step_def split: prod.splits)
  with assms [of s] have "E e s' s'" by (intro E_self) (auto simp: clean_def)
  with s' show "E e s s'" using world E_after by blast
qed (auto simp: host_step_def world split: prod.splits)

lemma keeps_checked: "keeps E R (checked_return name meta v)"
  unfolding checked_return_def by (rule keeps_reads) (simp add: clean_def split: sum.split)

lemma keeps_boundary: "keeps E R (boundary fl)"
  by (simp add: boundary_def keeps_ret keeps_fail split: flow.split)

lemma keeps_params: "keeps E R (bind_params (h_float H) params vals)"
  by (induction "h_float H" params vals rule: bind_params.induct)
    (auto simp: declare_st_def [symmetric] intro!: keeps_bind keeps_ret store)

lemma keeps_ctx: "keeps E R (host_step (h_ctx H f vals))"
  by (rule keeps_host) (simp add: clean_host_def)

lemma keeps_pure: "keeps E R (reads (\<lambda>_. h_pure H f vals))"
  by (rule keeps_reads) (simp add: clean_host_pure)

lemma keeps_call_native: "keeps E R (call_native H name meta vals)"
proof -
  have "keeps E R (bind_st (host_step (h_ctx H f vals)) (checked_return name meta))"
    "keeps E R (bind_st (reads (\<lambda>_. h_pure H f vals)) (checked_return name meta))" for f
    by (intro keeps_bind keeps_ctx keeps_pure keeps_checked)+
  then show ?thesis unfolding keeps_def call_native_def by (auto simp: R_refl raised split: option.split)
qed

lemma keeps_push_on: "(\<And>s. clean_host H \<Longrightarrow> clean (f s)) \<Longrightarrow> keeps E R (push_on stack f)"
  unfolding push_on_def by (intro keeps_reads clean_bind clean_Ok)

lemma keeps_binary: "(\<And>a b. clean (f a b)) \<Longrightarrow> keeps E R (binary f stack)"
  unfolding binary_def by (auto simp: keeps_fail split: list.split intro!: keeps_reads clean_bind clean_Ok)

lemma keeps_math_step: "keeps E R (math_step H op stack)"
proof -
  have "keeps E R (math_call H name vals)" for name vals
    using keeps_ctx keeps_pure unfolding keeps_def math_call_def reads_def
    by (auto simp: R_refl raised split: option.split)
  then show ?thesis
    by (cases op) (auto simp: keeps_fail split: list.split
      intro!: keeps_bind keeps_ret keeps_push_on keeps_binary clean_rules)
qed

lemma keeps_math: "keeps E R (evaluate_compiled_math H ops)"
proof -
  have "keeps E R (run_math H ops stack)" for stack
    by (induction ops arbitrary: stack) (auto intro!: keeps_bind keeps_math_step keeps_ret)
  then show ?thesis unfolding evaluate_compiled_math_def by (auto intro!: keeps_bind keeps_ret keeps_fail)
qed

lemma keeps_condition_value: "keeps E R (as_condition v)"
  unfolding as_condition_def by (intro keeps_reads clean_rules)

lemma keeps_resolve_tag: "keeps E R (resolve_tag_st ty)"
proof (rule keepsI)
  fix s s' :: "'w exec_state" and e assume "resolve_tag_st ty s = (s', Err e)"
  then obtain tags x where s': "s' = s\<lparr>st_tags := tags\<rparr>" and e: "e = TypeResolution x"
    by (auto simp: resolve_tag_st_def split: prod.splits sum.splits)
  show "E e s s'" unfolding s' by (rule E_after [OF ambient(5) raised]) (simp add: e)
qed (auto simp: resolve_tag_st_def ambient split: prod.splits sum.splits)

lemma keeps_coerced: "keeps E R (bind_coerced H name t v)"
  unfolding bind_coerced_def coerce_st_def
  by (intro keeps_bind keeps_reads store) (simp add: clean_def split: sum.split)

lemma keeps_effect: "keeps E R (apply_effect H eff)"
  by (cases eff) (simp_all add: keeps_def ambient store [unfolded keeps_def, rule_format])

lemma keeps_handle: "keeps E R (handle_command H c vs)"
proof -
  have "keeps E R (bind_st (map_st (apply_effect H) (fst (h_command H c vs s))) (\<lambda>_. host_step (\<lambda>_. snd (h_command H c vs s))))" for s
    by (intro keeps_bind keeps_map_st keeps_effect keeps_host) (simp add: clean_host_def)
  then show ?thesis unfolding keeps_def handle_command_def by (simp add: case_prod_unfold)
qed

lemma keeps_streams: "keeps E R (host_step (h_streams H bs k))"
  by (rule keeps_host) (simp add: clean_host_def)

lemma keeps_captured_flow: "keeps E R (captured_flow fl)"
  by (cases fl) (simp_all add: keeps_ret keeps_fail)

lemma keeps_inherit: "R s (inherit_env H keys s)"
  by (simp add: inherit_env_def Let_def ambient)

lemma keeps_isolated_inherit: "keeps E R (isolated_inherit_env keys)"
  by (auto simp: keeps_def isolated_inherit_env_def raised ambient split: list.split)

lemma keeps_after: "keeps E R m \<Longrightarrow> keeps E R (case after_iteration fl of None \<Rightarrow> m | Some fl' \<Rightarrow> ret fl')"
  by (simp add: keeps_ret split: option.split)

lemma keeps_index: "keeps E R (bind_index H key_var key_type i)"
  by (auto simp: bind_index_def keeps_ret split: option.split intro!: keeps_bind keeps_resolve_tag keeps_coerced keeps_ret)

lemma keeps_finish: "keeps E R m \<Longrightarrow> keeps E R (finish_step m)"
  unfolding finish_step_def by (intro keeps_bind keeps_ret)

lemma keeps_definition: "good body \<Longrightarrow> keeps E R (define_func name params body)"
  unfolding define_func_def
proof (intro keeps_bind keeps_map_st)
  fix p :: "string \<times> string"
  show "keeps E R (case p of (p, ty) \<Rightarrow> bind_st (resolve_tag_st ty) (\<lambda>t. ret (p, t)))"
    by (cases p) (simp add: keeps_bind keeps_resolve_tag keeps_ret)
next
  fix resolved assume "good body"
  then show "keeps E R (\<lambda>s. case define_script name resolved body (current_module s) (st_functions s) of
      Inl e \<Rightarrow> (s, Err (RegistryError e)) | Inr r \<Rightarrow> (s\<lparr>st_functions := r\<rparr>, Ok ()))"
    unfolding keeps_def using definition_step by (auto simp: raised split: sum.split)
qed

end

section \<open>One level of execution\<close>

locale exec_frame = exec_prims E R H good P
  for E :: "exec_error \<Rightarrow> 'w exec_state \<Rightarrow> 'w exec_state \<Rightarrow> bool" and R :: "'w exec_state \<Rightarrow> 'w exec_state \<Rightarrow> bool"
    and H :: "'w host" and good :: "step list \<Rightarrow> bool" and P :: "'w exec_state \<Rightarrow> bool" +
  fixes X :: "'w executor"
  assumes nested: "good body \<Longrightarrow> keeps E R (X body wait)"
    and callee: "\<lbrakk>P s; st_call_depth s < MAX_CALL_DEPTH; registry_get name (st_functions s) = Some e;
      entry_body e = BodyScript params body owner\<rbrakk> \<Longrightarrow> keeps E R (call_script H X params body owner vals)"
begin

lemma keeps_run_body:
  assumes "P s" "st_call_depth s < MAX_CALL_DEPTH" "registry_get name (st_functions s) = Some entry"
  shows "keeps E R (run_body H X label entry vals)"
  using callee [OF assms] unfolding run_body_def
  by (auto split: func_body.splits intro!: keeps_bind keeps_ctx keeps_pure keeps_checked)

lemma keeps_call_func:
  assumes "keeps E R eval_args"
  shows "keeps E R (call_func_value H X name n eval_args)"
proof -
  have "case call_func_value H X name n eval_args s of (s', Inl e) \<Rightarrow> E e s s' | (s', Inr a) \<Rightarrow> R s s'" for s
  proof (cases "P s \<and> st_call_depth s < MAX_CALL_DEPTH \<and> registry_get name (st_functions s) \<noteq> None")
    case True
    then obtain entry where entry: "P s" "st_call_depth s < MAX_CALL_DEPTH" "registry_get name (st_functions s) = Some entry"
      by auto
    have "keeps E R (bind_st eval_args (run_body H X name entry))"
      by (intro keeps_bind assms keeps_run_body [OF entry])
    with entry show ?thesis
      by (auto simp: call_func_value_def keeps_def arity_gate_def raised split: sum.split option.splits if_splits)
  next
    case False
    then show ?thesis
      by (cases "P s") (auto simp: outside call_func_value_def raised split: prod.split sum.split option.split)
  qed
  then show ?thesis by (simp add: keeps_def)
qed

lemma keeps_call_expr:
  assumes "keeps E R eval_args"
  shows "keeps E R (call_expr H X name n eval_args)"
proof -
  have "keeps E R (bind_st eval_args (call_native H name meta))" for meta
    using assms keeps_call_native by (intro keeps_bind)
  with keeps_call_func [OF assms] show ?thesis
    unfolding keeps_def call_expr_def by (auto simp: raised arity_gate_def split: option.splits sum.split if_splits)
qed

lemma keeps_expr:
  fixes Hd :: "'w host" and Y :: "'w executor"
  shows "sub_expr good e \<Longrightarrow> keeps E R (evaluate_expr H X e)"
proof (induction Hd Y e rule: evaluate_expr.induct)
  case (5 Hd Y items)
  then have "keeps E R (evaluate_expr H X e)" if "e \<in> set items" for e
    using that by (simp add: list_all_iff)
  then show ?case by (simp add: keeps_bind keeps_map_st keeps_ret)
next
  case (6 Hd Y es)
  then have "keeps E R (evaluate_expr H X (snd p))" if "p \<in> set es" for p
    using that by (simp add: list_all_iff)
  then show ?case by (simp add: keeps_bind keeps_map_st keeps_ret)
next
  case (7 Hd Y body)
  then have "keeps E R (X body False)" by (simp add: nested)
  then show ?case by (simp add: block_value_def keeps_bind keeps_boundary scope)
next
  case (8 Hd Y name args)
  then have "keeps E R (evaluate_expr H X e)" if "e \<in> set args" for e
    using that by (simp add: list_all_iff)
  then show ?case by (simp add: keeps_call_expr keeps_map_st)
next
  case (15 Hd Y op l r)
  have "keeps E R (evaluate_expr H X l)" using 15 by simp
  moreover have "keeps E R (evaluate_expr H X r)" using 15(2) [of "op = LAnd"] 15(3) by simp
  ultimately show ?case
    unfolding evaluate_expr.simps by (intro keeps_bind keeps_if keeps_ret keeps_condition_value)
qed (auto simp: keeps_fail intro!: keeps_math keeps_bind keeps_ret keeps_condition_value keeps_reads keeps_host clean_rules
  split: prod.split)

lemma keeps_part: "sub_part good p \<Longrightarrow> keeps E R (resolve_part H X p)"
  by (cases p) (auto intro!: keeps_bind keeps_reads keeps_expr clean_rules)

lemma keeps_arg: "sub_arg good a \<Longrightarrow> keeps E R (resolve_arg H X a)"
  by (cases a) (auto simp: list_all_iff intro!: keeps_bind keeps_ret keeps_reads keeps_expr keeps_map_st keeps_part clean_rules)

lemma keeps_operand: "sub_arg good a \<Longrightarrow> keeps E R (evaluate_assert_operand H X a)"
  by (cases a) (auto simp del: resolve_arg.simps intro!: keeps_bind keeps_ret keeps_expr keeps_arg)

lemma keeps_as_int: "sub_arg good a \<Longrightarrow> keeps E R (resolve_arg_as_int H X a)"
  unfolding resolve_arg_as_int_def
  by (intro keeps_bind keeps_arg keeps_reads) (simp_all add: clean_def split: option.split)

lemma keeps_as_duration: "sub_arg good a \<Longrightarrow> keeps E R (resolve_arg_as_duration H X a)"
  unfolding resolve_arg_as_duration_def
  by (intro keeps_bind keeps_arg keeps_reads) (simp_all add: clean_def split: sum.split)

lemma keeps_env: "sub_arg good a \<Longrightarrow> keeps E R (env_step H X key a)"
  unfolding env_step_def by (intro keeps_bind keeps_arg keeps_update ambient)

lemma keeps_leaf: "list_all (sub_arg good) args \<Longrightarrow> keeps E R (leaf_command H X c args)"
  unfolding leaf_command_def by (intro keeps_bind keeps_map_st keeps_arg keeps_handle) (simp add: list_all_iff)

lemma extract_call_args: "\<lbrakk>extract_call k = Some (bs, name, args); sub_kind B k\<rbrakk> \<Longrightarrow> list_all (sub_expr B) args"
  by (induction k arbitrary: bs rule: extract_call.induct) auto

lemma keeps_capture:
  assumes "sub_kind good k" "keeps E R run"
  shows "keeps E R (assign_capture H X run var decl_type k)"
proof -
  have written: "keeps E R (bind_st (bind_st run captured_flow) (\<lambda>_. bind_st (host_step (h_captured H)) (\<lambda>t. ret (VStr t))))"
    by (intro keeps_bind keeps_ret keeps_captured_flow keeps_host assms) (simp add: clean_host_def)
  have "keeps E R (bind_st (if bs = [] then ret () else host_step (h_streams H bs k))
      (\<lambda>_. call_func_value H X name (length args) (map_st (evaluate_expr H X) args)))"
    if "extract_call k = Some (bs, name, args)" for bs name args
    using extract_call_args [OF that assms(1)]
    by (intro keeps_bind keeps_if keeps_ret keeps_streams keeps_call_func keeps_map_st keeps_expr) (simp add: list_all_iff)
  with written show ?thesis unfolding assign_capture_def
    by (intro keeps_bind keeps_resolve_tag store) (simp split: option.split)
qed

lemma keeps_exit:
  assumes "sub_arg good a"
  shows "keeps E R (exit_step H X a)"
proof -
  have "E (ExitRequest code) s (s\<lparr>st_world := w\<rparr>)" for code s w
    by (rule E_after [OF world1 raised]) simp
  then show ?thesis unfolding exit_step_def
    by (intro keeps_bind keeps_as_int assms) (simp add: keeps_def)
qed

lemma keeps_condition: "sub_expr good c \<Longrightarrow> keeps E R (condition H X c)"
  unfolding condition_def by (intro keeps_bind keeps_expr keeps_condition_value)

lemma keeps_block: "good body \<Longrightarrow> keeps E R (execute_scoped_steps X body wait)"
  unfolding execute_scoped_steps_def by (intro scope nested)

lemma keeps_if_chain:
  assumes "list_all (\<lambda>p. sub_expr good (fst p) \<and> good (snd p)) branches"
    "case el of Some b \<Rightarrow> good b | None \<Rightarrow> True"
  shows "keeps E R (if_chain H X branches el)"
  using assms(1)
proof (induction branches)
  case Nil
  with assms(2) show ?case by (cases el) (simp_all add: keeps_ret keeps_block)
next
  case (Cons b branches)
  obtain c body where b: "b = (c, body)" by fastforce
  show ?case unfolding b if_chain.simps
    by (intro keeps_bind keeps_if) (use Cons b in \<open>simp_all add: keeps_condition keeps_block\<close>)
qed

lemma keeps_while:
  assumes "sub_expr good c" "good body" and out: "\<And>s. E OutOfFuel s s"
  shows "keeps E R (while_loop H X n c body)"
proof (induction n)
  case 0
  show ?case by (simp add: keeps_def out)
next
  case (Suc n)
  have "keeps E R (bind_st (condition H X c) (\<lambda>t. if \<not> t then ret Done
      else bind_st (execute_scoped_steps X body False)
        (\<lambda>fl. case after_iteration fl of None \<Rightarrow> while_loop H X n c body | Some fl' \<Rightarrow> ret fl')))"
    using assms Suc by (intro keeps_bind keeps_if keeps_ret keeps_condition keeps_block keeps_after)
  then show ?case by (simp add: keeps_def raised)
qed

lemma keeps_for_each:
  assumes "good body" "\<And>b. b \<in> set binds \<Longrightarrow> keeps E R b"
  shows "keeps E R (for_each X body binds)"
  using assms(2)
proof (induction binds)
  case (Cons b binds)
  then have "keeps E R (for_each X body binds)" "keeps E R b" by simp_all
  then show ?case unfolding for_each.simps by (intro keeps_bind keeps_after iteration nested assms(1))
qed (simp add: keeps_ret)

lemma keeps_for:
  assumes "sub_expr good e" "good body"
  shows "keeps E R (for_loop H X key_var key_type var var_type e body)"
proof -
  have "keeps E R (for_each X body (map (bind_list_item H key_var key_type var t) items))" for t items
    unfolding bind_list_item_def
    by (rule keeps_for_each [OF assms(2)]) (auto intro!: keeps_bind keeps_index keeps_coerced)
  moreover have "keeps E R (for_each X body (map (bind_map_entry H key_name var t) m))" for key_name t m
    unfolding bind_map_entry_def
    by (rule keeps_for_each [OF assms(2)]) (auto intro!: keeps_bind store keeps_coerced)
  ultimately show ?thesis unfolding for_loop_def
    by (intro keeps_bind keeps_expr keeps_resolve_tag)
      (auto simp: assms keeps_ret keeps_fail keeps_resolve_tag split: option.split intro!: keeps_bind)
qed

definition step_ok :: "step \<Rightarrow> bool" where
  "step_ok stp \<longleftrightarrow> sub_kind good (step.kind stp) \<and> (runs_while (step.kind stp) \<longrightarrow> (\<forall>s. E OutOfFuel s s)) \<and>
     (scope_enter stp = 0 \<and> scope_exit stp = 0 \<or> (\<forall>s. R s (push_scope s) \<and> R s (fst (pop_scope s))))"

lemmas keeps_steps = keeps_finish keeps_bind keeps_ret keeps_expr keeps_map_st keeps_call_func keeps_for
  keeps_if_chain keeps_resolve_tag store keeps_operand keeps_env keeps_isolated_inherit keeps_exit keeps_leaf keeps_arg
  keeps_as_duration keeps_definition keeps_fail

lemma keeps_kind:
  fixes Hd :: "'w host" and Y :: "'w executor"
  shows "\<lbrakk>sub_kind good k; runs_while k \<longrightarrow> (\<forall>s. E OutOfFuel s s)\<rbrakk> \<Longrightarrow> keeps E R (execute_kind H X n idx k)"
proof (induction Hd Y n idx k rule: execute_kind.induct)
  case (4 Hd Y n idx c body)
  then show ?case by (simp add: keeps_while)
next
  case (8 Hd Y n idx c then_body else_ifs else_body)
  then show ?case by (simp add: if_then_def keeps_if_chain del: if_chain.simps)
next
  case (9 Hd Y n idx a body)
  then show ?case by (simp add: keeps_bind keeps_as_duration deadline nested)
next
  case (10 Hd Y n idx body)
  then show ?case by (simp add: isolation nested)
next
  case (11 Hd Y n idx b k)
  then have "keeps E R (execute_kind H X n idx k)" by simp
  then show ?case by (simp add: keeps_bind keeps_streams)
next
  case (12 Hd Y n idx var ty k)
  then have "keeps E R (execute_kind H X n idx k)" by simp
  with 12 show ?case by (simp add: keeps_finish keeps_capture)
next
  case (17 Hd Y n idx keys)
  show ?case by (simp add: keeps_update keeps_inherit)
qed (simp_all add: assign_def set_var_value_def push_into_def list_all_iff keeps_steps)

lemma R_enter: "(k = 0 \<or> (\<forall>s. R s (push_scope s))) \<Longrightarrow> R s ((push_scope ^^ k) s)"
proof (induction k)
  case (Suc k)
  then show ?case using R_trans by fastforce
qed (simp add: R_refl)

lemma R_exit: "(k = 0 \<or> (\<forall>s. R s (fst (pop_scope s)))) \<Longrightarrow> R s (fst (restore_scopes k s))"
proof (induction k s rule: restore_scopes.induct)
  case (2 k s)
  obtain s' p where pop: "pop_scope s = (s', p)" by fastforce
  with 2(2) have "R s s'" by (metis fst_conv nat.discI)
  with 2 pop show ?case using R_trans by (auto split: sum.split)
qed (simp add: R_refl)

lemma keeps_step:
  assumes "step_ok stp"
  shows "keeps E R (execute_step H X n idx stp)"
proof -
  define m where "m = (\<lambda>s1. if guard_option_allows (h_platform H) (st_envs s1) (step_guard stp)
    then execute_kind H X n idx (step.kind stp) s1 else (s1, Ok Done))"
  have "keeps E R (execute_kind H X n idx (step.kind stp))"
    using assms by (intro keeps_kind) (simp_all add: step_ok_def)
  then have m: "keeps E R m" unfolding m_def keeps_def by (simp add: R_refl)
  have enter: "R s ((push_scope ^^ scope_enter stp) s)" and leave: "R s (fst (restore_scopes (scope_exit stp) s))" for s
    using assms by (auto simp: step_ok_def intro!: R_enter R_exit)
  have split: "\<exists>s2 q p. m ((push_scope ^^ scope_enter stp) s) = (s2, q) \<and> restore_scopes (scope_exit stp) s2 = (s', p) \<and>
      r = merge_pop q p" if run: "execute_step H X n idx stp s = (s', r)" for s s' r
  proof -
    obtain s2 q where q: "m ((push_scope ^^ scope_enter stp) s) = (s2, q)" by fastforce
    obtain s3 p where p: "restore_scopes (scope_exit stp) s2 = (s3, p)" by fastforce
    from run q p show ?thesis by (simp add: execute_step_def m_def)
  qed
  show ?thesis
  proof (rule keepsI)
    fix s s' e assume "execute_step H X n idx stp s = (s', Err e)"
    then obtain s2 q p where q: "m ((push_scope ^^ scope_enter stp) s) = (s2, q)"
      and p: "restore_scopes (scope_exit stp) s2 = (s', p)" and e: "Err e = merge_pop q p" using split by blast
    have s': "R s2 s'" using leave [of s2] p by simp
    show "E e s s'"
    proof (cases q)
      case (Inl x)
      with e q keeps_err [OF m] have "E e ((push_scope ^^ scope_enter stp) s) s2" by (auto simp: merge_pop_def)
      then show ?thesis using s' enter E_after E_then by blast
    next
      case (Inr fl)
      with q keeps_ok [OF m] have "R ((push_scope ^^ scope_enter stp) s) s2" by blast
      with s' enter have "R s s'" using R_trans by blast
      moreover have "E e s' s'" using e Inr by (intro raised) (auto simp: merge_pop_def split: sum.splits)
      ultimately show ?thesis by (rule E_after)
    qed
  next
    fix s s' a assume "execute_step H X n idx stp s = (s', Ok a)"
    then obtain s2 q p where q: "m ((push_scope ^^ scope_enter stp) s) = (s2, q)"
      and p: "restore_scopes (scope_exit stp) s2 = (s', p)" and a: "Ok a = merge_pop q p" using split by blast
    have "q = Ok a" using a [symmetric] unfolding merge_pop_Ok by blast
    with q have "R ((push_scope ^^ scope_enter stp) s) s2" using keeps_ok [OF m] by blast
    moreover have "R s2 s'" using leave [of s2] p by simp
    ultimately show "R s s'" using enter R_trans by blast
  qed
qed

lemma keeps_step_loop:
  assumes "list_all step_ok steps"
  shows "keeps E R (step_loop H X n idx steps)"
  using assms
proof (induction steps arbitrary: idx)
  case (Cons stp rest)
  then have "keeps E R (bind_st (execute_step H X n idx stp)
      (\<lambda>fl. if fl = Done then step_loop H X n (Suc idx) rest else ret fl))"
    by (intro keeps_bind keeps_if keeps_ret keeps_step) simp_all
  then show ?case by (simp add: keeps_def raised)
qed (simp add: keeps_def R_refl)

theorem keeps_execute_steps:
  assumes "list_all step_ok steps"
  shows "keeps E R (execute_steps H X n steps wait)"
proof -
  have inner: "keeps E R (execute_steps_inner H X n steps wait)"
    unfolding execute_steps_inner_def
    by (intro keeps_bind keeps_if keeps_ret keeps_finish keeps_host keeps_step_loop assms) (simp add: clean_host_def)
  show ?thesis
  proof (rule keepsI)
    fix s s' e assume "execute_steps H X n steps wait s = (s', Err e)"
    then obtain s1 where "execute_steps_inner H X n steps wait s = (s1, Err e)" "s' = s1\<lparr>st_world := h_teardown H s1\<rparr>"
      by (auto simp: execute_steps_def split: prod.splits sum.splits)
    then show "E e s s'" using keeps_err [OF inner] E_then world1 by metis
  next
    fix s s' a assume "execute_steps H X n steps wait s = (s', Ok a)"
    then have "execute_steps_inner H X n steps wait s = (s', Ok a)"
      by (auto simp: execute_steps_def split: prod.splits sum.splits)
    then show "R s s'" by (rule keeps_ok [OF inner])
  qed
qed

end

section \<open>Every level of execution\<close>

locale exec_laws = exec_prims E R H good P
  for E :: "exec_error \<Rightarrow> 'w exec_state \<Rightarrow> 'w exec_state \<Rightarrow> bool" and R :: "'w exec_state \<Rightarrow> 'w exec_state \<Rightarrow> bool"
    and H :: "'w host" and good :: "step list \<Rightarrow> bool" and P :: "'w exec_state \<Rightarrow> bool" +
  assumes call: "keeps E R v_m \<Longrightarrow> keeps E R (in_call H owner v_m)"
    and bodies: "\<lbrakk>P s; registry_get name (st_functions s) = Some e; entry_body e = BodyScript params body owner\<rbrakk> \<Longrightarrow> good body"
    and exhausted: "E OutOfFuel s s"
    and steps: "good body \<Longrightarrow> list_all (\<lambda>stp. sub_kind good (step.kind stp) \<and>
      (scope_enter stp = 0 \<and> scope_exit stp = 0 \<or> (\<forall>s. R s (push_scope s) \<and> R s (fst (pop_scope s))))) body"
begin

lemma level:
  assumes "\<And>body wait. good body \<Longrightarrow> keeps E R (X body wait)"
  shows "exec_frame E R H good P X"
proof unfold_locales
  fix s name e params body owner vals
  assume "P s" "registry_get name (st_functions s) = Some e" "entry_body e = BodyScript params body owner"
  then have "keeps E R (X body False)" using bodies assms by blast
  then show "keeps E R (call_script H X params body owner vals)"
    unfolding call_script_def by (intro call keeps_bind keeps_params keeps_boundary)
qed (rule assms)

theorem exec_keeps: "good body \<Longrightarrow> keeps E R (exec H n body wait)"
proof (induction n arbitrary: body wait)
  case 0
  show ?case by (simp add: keeps_def exhausted)
next
  case (Suc n)
  then have fr: "exec_frame E R H good P (exec H n)" by (intro level)
  have "list_all (exec_frame.step_ok E R good) body"
    using steps [OF Suc.prems] exhausted by (auto simp: list_all_iff exec_frame.step_ok_def [OF fr])
  then show ?case using exec_frame.keeps_execute_steps [OF fr] by simp
qed

end

sublocale exec_laws \<subseteq> run: exec_frame E R H good P "exec H n" for n
  by (rule level) (rule exec_keeps)

end
