(* ===== verification/Exec_Invariants.thy ===== *)
theory Exec_Invariants
  imports Frames
begin

text \<open>The three frames of execution, as interpretations of \<open>exec_frame\<close>: the store stays typed and
  the dynamic context (call depth, module and isolation stacks, cancellation settings) comes
  back on every path; the lexical context (scope stack, declared variables of outer scopes, function
  table seen from outside) comes back whenever a run of a script without scope markers
  succeeds.\<close>

abbreviation always :: "('s \<Rightarrow> 's \<Rightarrow> bool) \<Rightarrow> ('s \<Rightarrow> 's \<times> (exec_error + 'a)) \<Rightarrow> bool" where
  "always R \<equiv> keeps (\<lambda>_. R) R"

abbreviation succeeding :: "('s \<Rightarrow> 's \<Rightarrow> bool) \<Rightarrow> ('s \<Rightarrow> 's \<times> (exec_error + 'a)) \<Rightarrow> bool" where
  "succeeding R \<equiv> keeps (\<lambda>_ _ _. True) R"

lemma alwaysI: "(\<And>s s' r. m s = (s', r) \<Longrightarrow> R s s') \<Longrightarrow> always R m"
  by (rule keepsI)

lemma alwaysD: "\<lbrakk>always R m; m s = (s', r)\<rbrakk> \<Longrightarrow> R s s'"
  by (cases r) (auto dest: keeps_ok keeps_err)

text \<open>The operations of the store report errors of their own type.\<close>

definition every :: "('s \<Rightarrow> 's \<Rightarrow> bool) \<Rightarrow> ('s \<Rightarrow> 's \<times> 'r) \<Rightarrow> bool" where
  "every R m \<longleftrightarrow> (\<forall>s s' r. m s = (s', r) \<longrightarrow> R s s')"

lemma always_map_err: "every R m \<Longrightarrow> always R (map_err f m)"
  by (rule alwaysI) (auto simp: every_def map_err_def split: prod.splits sum.splits)

lemma succeedingI:
  assumes "\<And>s s' a. m s = (s', Ok a) \<Longrightarrow> R s s'"
  shows "succeeding R m"
  by (rule keepsI) (simp_all add: assms)

section \<open>Phases that open and close a scope\<close>

lemma scoped_split:
  assumes "scoped m s = (s', r)"
  obtains s1 q p where "m (push_scope s) = (s1, q)" "pop_scope s1 = (s', p)" "r = merge_pop q p"
  using assms by (auto simp: scoped_def split: prod.splits)

lemma for_iteration_split:
  assumes "for_iteration X body bind s = (s', r)"
  obtains (unbound) e where "bind (push_scope s) = (s', Err e)" "r = Err e"
  | (bound) s1 s2 q p where "bind (push_scope s) = (s1, Ok ())" "X body False s1 = (s2, q)" "pop_scope s2 = (s', p)"
      "r = merge_pop q p"
  using assms by (auto simp: for_iteration_def split: prod.splits sum.splits)

lemma in_call_split:
  assumes "in_call H owner m s = (s', r)"
  obtains s1 q s2 p where "m (enter_call H owner s) = (s1, q)" "pop_scope s1 = (s2, p)" "s' = leave_call s2"
    "r = merge_pop q p"
  using assms by (auto simp: in_call_def split: prod.splits)

lemma timeout_split:
  assumes "timeout H X d body s = (s', r)"
  obtains s1 q where
    "scoped (X body True) (s\<lparr>st_cancellable := True, st_reap_floor := Some (st_next_task_id s)\<rparr>) = (s1, q)"
    "s' = s1\<lparr>st_cancellable := st_cancellable s, st_reap_floor := st_reap_floor s,
       st_cancel_token := (if h_fired H d s1 then True else st_cancel_token s)\<rparr>"
    "is_ok r \<longrightarrow> is_ok q"
  using assms by (auto simp: timeout_def execute_scoped_steps_def Let_def split: prod.splits if_splits sum.splits)

lemma isolated_split:
  assumes "isolated X body s = (s', r)"
  obtains s1 where
    "scoped (X body False) (s\<lparr>st_isolated_stack := st_envs s # st_isolated_stack s, st_envs := st_seed s\<rparr>) = (s1, r)"
    "s' = (case st_isolated_stack s1 of snapshot # rest \<Rightarrow> s1\<lparr>st_isolated_stack := rest, st_envs := snapshot\<rparr> | [] \<Rightarrow> s1)"
  using assms by (auto simp: isolated_def execute_scoped_steps_def split: prod.splits)

lemmas split_run = scoped_split for_iteration_split in_call_split timeout_split isolated_split

section \<open>The typed store\<close>

lemma store_typed_ext:
  "\<lbrakk>st_var_scopes s' = st_var_scopes s; st_modules s' = st_modules s\<rbrakk> \<Longrightarrow> store_typed s' = store_typed s"
  by (simp add: store_typed_def)

lemma store_typed_update [simp]:
  "store_typed (s\<lparr>st_cwd := x0\<rparr>) = store_typed s"
  "store_typed (s\<lparr>st_root := x1\<rparr>) = store_typed s"
  "store_typed (s\<lparr>st_envs := x2\<rparr>) = store_typed s"
  "store_typed (s\<lparr>st_isolated_stack := x3\<rparr>) = store_typed s"
  "store_typed (s\<lparr>st_scope_stack := x4\<rparr>) = store_typed s"
  "store_typed (s\<lparr>st_functions := x5\<rparr>) = store_typed s"
  "store_typed (s\<lparr>st_module_stack := x6\<rparr>) = store_typed s"
  "store_typed (s\<lparr>st_tags := x7\<rparr>) = store_typed s"
  "store_typed (s\<lparr>st_cancel_token := x8\<rparr>) = store_typed s"
  "store_typed (s\<lparr>st_cancellable := x9\<rparr>) = store_typed s"
  "store_typed (s\<lparr>st_reap_floor := x10\<rparr>) = store_typed s"
  "store_typed (s\<lparr>st_next_task_id := x11\<rparr>) = store_typed s"
  "store_typed (s\<lparr>st_call_depth := x12\<rparr>) = store_typed s"
  "store_typed (s\<lparr>st_world := x13\<rparr>) = store_typed s"
  by (simp_all add: store_typed_def)

lemma store_typed_push [simp]: "store_typed (push_scope s) = store_typed s"
  by (simp add: store_typed_def push_scope_def push_var_scope_def scope_typed_def Let_def)

lemma store_typed_pop: "\<lbrakk>pop_scope s = (s', p); store_typed s\<rbrakk> \<Longrightarrow> store_typed s'"
  by (cases "st_var_scopes s") (auto simp: store_typed_def pop_scope_def pop_var_scope_def Let_def split: list.splits)

lemma store_typed_enter [simp]: "store_typed (enter_call H owner s) = store_typed s"
proof -
  have "store_typed (enter_call H owner s) = store_typed (push_scope s)"
    by (rule store_typed_ext) (auto simp: enter_call_def inherit_env_def reset_module_context_def push_scope_def
      push_var_scope_def Let_def split: option.split)
  then show ?thesis by simp
qed

lemma store_typed_leave [simp]: "store_typed (leave_call s) = store_typed s"
  by (rule store_typed_ext) (simp_all add: leave_call_def)

definition typed_rel :: "'w exec_state \<Rightarrow> 'w exec_state \<Rightarrow> bool" where
  "typed_rel s s' \<longleftrightarrow> (store_typed s \<longrightarrow> store_typed s')"

lemma typed_scoped:
  assumes "always typed_rel m"
  shows "always typed_rel (scoped m)"
proof (rule alwaysI)
  fix s s' r assume "scoped m s = (s', r)"
  then obtain s1 q p where m: "m (push_scope s) = (s1, q)" and "pop_scope s1 = (s', p)" by (rule scoped_split)
  moreover have "typed_rel (push_scope s) s1" using alwaysD [OF assms m] .
  ultimately show "typed_rel s s'" by (auto simp: typed_rel_def dest: store_typed_pop)
qed

lemma typed_call:
  assumes "always typed_rel m"
  shows "always typed_rel (in_call H owner m)"
proof (rule alwaysI)
  fix s s' r assume "in_call H owner m s = (s', r)"
  then obtain s1 q s2 p where m: "m (enter_call H owner s) = (s1, q)" and "pop_scope s1 = (s2, p)" "s' = leave_call s2"
    by (rule in_call_split)
  moreover have "typed_rel (enter_call H owner s) s1" using alwaysD [OF assms m] .
  ultimately show "typed_rel s s'" by (auto simp: typed_rel_def dest: store_typed_pop)
qed

lemma typed_iteration:
  assumes "always typed_rel bind" "always typed_rel (X body False)"
  shows "always typed_rel (for_iteration X body bind)"
proof (rule alwaysI)
  fix s s' r assume "for_iteration X body bind s = (s', r)"
  then show "typed_rel s s'"
    by (cases rule: for_iteration_split)
      (use alwaysD [OF assms(1), of "push_scope s"] alwaysD [OF assms(2)] in
        \<open>fastforce simp: typed_rel_def dest: store_typed_pop\<close>)+
qed

lemma typed_timeout:
  assumes "always typed_rel (X body True)"
  shows "always typed_rel (timeout H X d body)"
proof (rule alwaysI)
  fix s s' r assume "timeout H X d body s = (s', r)"
  then obtain s1 q where run: "scoped (X body True) (s\<lparr>st_cancellable := True, st_reap_floor := Some (st_next_task_id s)\<rparr>) = (s1, q)"
    and "s' = s1\<lparr>st_cancellable := st_cancellable s, st_reap_floor := st_reap_floor s,
       st_cancel_token := (if h_fired H d s1 then True else st_cancel_token s)\<rparr>" by (rule timeout_split)
  with alwaysD [OF typed_scoped [OF assms] run] show "typed_rel s s'" by (simp add: typed_rel_def)
qed

lemma typed_isolated:
  assumes "always typed_rel (X body False)"
  shows "always typed_rel (isolated X body)"
proof (rule alwaysI)
  fix s s' r assume "isolated X body s = (s', r)"
  then obtain s1 where
    run: "scoped (X body False) (s\<lparr>st_isolated_stack := st_envs s # st_isolated_stack s, st_envs := st_seed s\<rparr>) = (s1, r)"
    and "s' = (case st_isolated_stack s1 of snapshot # rest \<Rightarrow> s1\<lparr>st_isolated_stack := rest, st_envs := snapshot\<rparr> | [] \<Rightarrow> s1)"
    by (rule isolated_split)
  with alwaysD [OF typed_scoped [OF assms] run] show "typed_rel s s'"
    by (cases "st_isolated_stack s1") (simp_all add: typed_rel_def)
qed

lemma typed_store:
  "every typed_rel (declare_var F key t v)" "every typed_rel (mutate_var F key v)"
  "every typed_rel (push_into_list key v)"
  by (simp add: every_def typed_rel_def, metis declare_var_typed mutate_var_typed push_into_list_typed)+

lemma typed_prims: "always typed_rel (declare_st H key t v)" "always typed_rel (mutate_st H key v)"
  "always typed_rel (map_err StateError (push_into_list key v))"
  unfolding declare_st_def mutate_st_def by (rule always_map_err, rule typed_store)+

interpretation typed: exec_laws "\<lambda>_. typed_rel" typed_rel H "\<lambda>_. True" "\<lambda>_. True" for H :: "'w host"
proof unfold_locales
  fix body :: "step list"
  have "typed_rel s (push_scope s)" "typed_rel s (fst (pop_scope s))" for s :: "'w exec_state"
    using store_typed_pop [of s "fst (pop_scope s)" "snd (pop_scope s)"] by (simp_all add: typed_rel_def)
  then show "list_all (\<lambda>stp. sub_kind (\<lambda>_. True) (step.kind stp) \<and> (scope_enter stp = 0 \<and> scope_exit stp = 0 \<or>
      (\<forall>s :: 'w exec_state. typed_rel s (push_scope s) \<and> typed_rel s (fst (pop_scope s))))) body"
    by (simp add: sub_kind_top list_all_iff)
qed (simp_all add: typed_scoped typed_call typed_iteration typed_timeout typed_isolated typed_prims typed_rel_def)

section \<open>The dynamic context\<close>

text \<open>What calls, \<open>ISOLATED\<close> and \<open>TIMEOUT\<close> change for the duration of their body, and what nothing
  changes.\<close>

definition dynamic_context :: "'w exec_state \<Rightarrow>
    (nat \<times> env_map list \<times> string option list) \<times> (bool \<times> nat option) \<times> (env_map \<times> string \<times> nat \<times> bool \<times> directory)" where
  "dynamic_context s =
     ((st_call_depth s, st_isolated_stack s, st_module_stack s), (st_cancellable s, st_reap_floor s),
      (st_seed s, st_initial_root s, st_task_id s, st_inside_async s, st_directory s))"

lemma dynamic_context_update [simp]:
  "dynamic_context (s\<lparr>st_cwd := x0\<rparr>) = dynamic_context s"
  "dynamic_context (s\<lparr>st_root := x1\<rparr>) = dynamic_context s"
  "dynamic_context (s\<lparr>st_envs := x2\<rparr>) = dynamic_context s"
  "dynamic_context (s\<lparr>st_scope_stack := x3\<rparr>) = dynamic_context s"
  "dynamic_context (s\<lparr>st_var_scopes := x4\<rparr>) = dynamic_context s"
  "dynamic_context (s\<lparr>st_functions := x5\<rparr>) = dynamic_context s"
  "dynamic_context (s\<lparr>st_modules := x6\<rparr>) = dynamic_context s"
  "dynamic_context (s\<lparr>st_tags := x7\<rparr>) = dynamic_context s"
  "dynamic_context (s\<lparr>st_cancel_token := x8\<rparr>) = dynamic_context s"
  "dynamic_context (s\<lparr>st_next_task_id := x9\<rparr>) = dynamic_context s"
  "dynamic_context (s\<lparr>st_world := x10\<rparr>) = dynamic_context s"
  by (simp_all add: dynamic_context_def)

lemma dynamic_context_eq:
  assumes "dynamic_context s' = dynamic_context s"
  shows "st_call_depth s' = st_call_depth s" "st_isolated_stack s' = st_isolated_stack s"
    "st_module_stack s' = st_module_stack s" "st_cancellable s' = st_cancellable s" "st_reap_floor s' = st_reap_floor s"
    "st_seed s' = st_seed s" "st_initial_root s' = st_initial_root s" "st_task_id s' = st_task_id s"
    "st_inside_async s' = st_inside_async s" "st_directory s' = st_directory s"
  using assms by (simp_all add: dynamic_context_def)

lemma dynamic_push [simp]: "dynamic_context (push_scope s) = dynamic_context s"
  by (simp add: push_scope_def push_var_scope_def Let_def)

lemma dynamic_pop: "pop_scope s = (s', p) \<Longrightarrow> dynamic_context s' = dynamic_context s"
  by (auto simp: pop_scope_def pop_var_scope_def Let_def split: list.splits)

lemma dynamic_enter:
  "dynamic_context (enter_call H owner s) =
     dynamic_context (s\<lparr>st_call_depth := st_call_depth s + 1, st_module_stack := owner # st_module_stack s\<rparr>)"
  by (auto simp: enter_call_def inherit_env_def reset_module_context_def push_scope_def push_var_scope_def
    dynamic_context_def Let_def split: option.split)

definition dynamic_rel :: "'w exec_state \<Rightarrow> 'w exec_state \<Rightarrow> bool" where
  "dynamic_rel s s' \<longleftrightarrow> dynamic_context s' = dynamic_context s"

lemma dynamic_scoped:
  assumes "always dynamic_rel m"
  shows "always dynamic_rel (scoped m)"
proof (rule alwaysI)
  fix s s' r assume "scoped m s = (s', r)"
  then obtain s1 q p where m: "m (push_scope s) = (s1, q)" and "pop_scope s1 = (s', p)" by (rule scoped_split)
  moreover have "dynamic_rel (push_scope s) s1" using alwaysD [OF assms m] .
  ultimately show "dynamic_rel s s'" by (simp add: dynamic_rel_def dynamic_pop)
qed

lemma dynamic_call:
  assumes "always dynamic_rel m"
  shows "always dynamic_rel (in_call H owner m)"
proof (rule alwaysI)
  fix s s' r assume "in_call H owner m s = (s', r)"
  then obtain s1 q s2 p where m: "m (enter_call H owner s) = (s1, q)" and pop: "pop_scope s1 = (s2, p)"
    and s': "s' = leave_call s2" by (rule in_call_split)
  have "dynamic_rel (enter_call H owner s) s1" using alwaysD [OF assms m] .
  with pop have "dynamic_context s2 = dynamic_context (s\<lparr>st_call_depth := st_call_depth s + 1, st_module_stack := owner # st_module_stack s\<rparr>)"
    by (simp add: dynamic_rel_def dynamic_pop dynamic_enter)
  with s' show "dynamic_rel s s'" by (simp add: dynamic_rel_def leave_call_def dynamic_context_def)
qed

lemma dynamic_iteration:
  assumes "always dynamic_rel bind" "always dynamic_rel (X body False)"
  shows "always dynamic_rel (for_iteration X body bind)"
proof (rule alwaysI)
  fix s s' r assume "for_iteration X body bind s = (s', r)"
  then show "dynamic_rel s s'"
    by (cases rule: for_iteration_split)
      (use alwaysD [OF assms(1), of "push_scope s"] alwaysD [OF assms(2)] in
        \<open>fastforce simp: dynamic_rel_def dest: dynamic_pop\<close>)+
qed

lemma dynamic_timeout:
  assumes "always dynamic_rel (X body True)"
  shows "always dynamic_rel (timeout H X d body)"
proof (rule alwaysI)
  fix s s' r assume "timeout H X d body s = (s', r)"
  then obtain s1 q where run: "scoped (X body True) (s\<lparr>st_cancellable := True, st_reap_floor := Some (st_next_task_id s)\<rparr>) = (s1, q)"
    and "s' = s1\<lparr>st_cancellable := st_cancellable s, st_reap_floor := st_reap_floor s,
       st_cancel_token := (if h_fired H d s1 then True else st_cancel_token s)\<rparr>" by (rule timeout_split)
  with alwaysD [OF dynamic_scoped [OF assms] run] show "dynamic_rel s s'"
    by (simp add: dynamic_rel_def dynamic_context_def)
qed

lemma dynamic_isolated:
  assumes "always dynamic_rel (X body False)" and "isolated X body s = (s', r)"
  shows "dynamic_rel s s' \<and> st_envs s' = st_envs s"
proof -
  from assms(2) obtain s1 where
    run: "scoped (X body False) (s\<lparr>st_isolated_stack := st_envs s # st_isolated_stack s, st_envs := st_seed s\<rparr>) = (s1, r)"
    and s': "s' = (case st_isolated_stack s1 of snapshot # rest \<Rightarrow> s1\<lparr>st_isolated_stack := rest, st_envs := snapshot\<rparr> | [] \<Rightarrow> s1)"
    by (rule isolated_split)
  from alwaysD [OF dynamic_scoped [OF assms(1)] run]
  have "dynamic_context s1 = dynamic_context (s\<lparr>st_isolated_stack := st_envs s # st_isolated_stack s, st_envs := st_seed s\<rparr>)"
    by (simp add: dynamic_rel_def)
  with s' show ?thesis by (simp add: dynamic_rel_def dynamic_context_def)
qed

lemma dynamic_store:
  "every dynamic_rel (declare_var F key t v)" "every dynamic_rel (mutate_var F key v)"
  "every dynamic_rel (push_into_list key v)"
  by (auto simp: every_def dynamic_rel_def declare_var_def mutate_var_def push_into_list_def assign_module_def
    split: if_splits sum.splits list.splits option.splits prod.splits)+

lemma dynamic_prims: "always dynamic_rel (declare_st H key t v)" "always dynamic_rel (mutate_st H key v)"
  "always dynamic_rel (map_err StateError (push_into_list key v))"
  unfolding declare_st_def mutate_st_def by (rule always_map_err, rule dynamic_store)+

interpretation dynamic: exec_laws "\<lambda>_. dynamic_rel" dynamic_rel H "\<lambda>_. True" "\<lambda>_. True" for H :: "'w host"
proof unfold_locales
  fix body :: "step list"
  have "dynamic_rel s (push_scope s)" "dynamic_rel s (fst (pop_scope s))" for s :: "'w exec_state"
    using dynamic_pop [of s "fst (pop_scope s)" "snd (pop_scope s)"] by (simp_all add: dynamic_rel_def)
  then show "list_all (\<lambda>stp. sub_kind (\<lambda>_. True) (step.kind stp) \<and> (scope_enter stp = 0 \<and> scope_exit stp = 0 \<or>
      (\<forall>s :: 'w exec_state. dynamic_rel s (push_scope s) \<and> dynamic_rel s (fst (pop_scope s))))) body"
    by (simp add: sub_kind_top list_all_iff)
next
  fix X :: "'w executor" and body
  assume "always dynamic_rel (X body False)"
  then show "always dynamic_rel (isolated X body)" using dynamic_isolated by (intro alwaysI) blast
qed (simp_all add: dynamic_scoped dynamic_call dynamic_iteration dynamic_timeout dynamic_prims dynamic_rel_def)

section \<open>Scripts without scope markers\<close>

fun mf_expr :: "expr \<Rightarrow> bool" and mf_arg :: "arg \<Rightarrow> bool" and mf_part :: "arg_part \<Rightarrow> bool"
  and mf_kind :: "step_kind \<Rightarrow> bool" and mf_step :: "step \<Rightarrow> bool" where
  "mf_expr (EList es) = list_all mf_expr es"
| "mf_expr (EMap es) = list_all (\<lambda>p. mf_expr (snd p)) es"
| "mf_expr (EBlock body) = list_all mf_step body"
| "mf_expr (ECall name args) = list_all mf_expr args"
| "mf_expr (ECompare op l r) = (mf_expr l \<and> mf_expr r)"
| "mf_expr (EArithmetic op l r) = (mf_expr l \<and> mf_expr r)"
| "mf_expr (ENot e) = mf_expr e"
| "mf_expr (ELogical op l r) = (mf_expr l \<and> mf_expr r)"
| "mf_expr _ = True"
| "mf_arg (ArgString t) = True"
| "mf_arg (ArgExpr e) = mf_expr e"
| "mf_arg (ArgParts ps) = list_all mf_part ps"
| "mf_part (PartText t) = True"
| "mf_part (PartExpr e) = mf_expr e"
| "mf_kind (SFuncDef name params body) = list_all mf_step body"
| "mf_kind (SCall name args) = list_all mf_expr args"
| "mf_kind (SReturn e) = mf_expr e"
| "mf_kind (SWhile c body) = (mf_expr c \<and> list_all mf_step body)"
| "mf_kind (SFor kv kt v vt e body) = (mf_expr e \<and> list_all mf_step body)"
| "mf_kind (SIf c body els el) =
     (mf_expr c \<and> list_all mf_step body \<and> list_all (\<lambda>p. mf_expr (fst p) \<and> list_all mf_step (snd p)) els \<and>
      (case el of Some b \<Rightarrow> list_all mf_step b | None \<Rightarrow> True))"
| "mf_kind (STimeout a body) = (mf_arg a \<and> list_all mf_step body)"
| "mf_kind (SIsolated body) = list_all mf_step body"
| "mf_kind (SWithIo b k) = mf_kind k"
| "mf_kind (SAssignCapture v ty k) = mf_kind k"
| "mf_kind (SAssign v ty e) = mf_expr e"
| "mf_kind (SSet v e) = mf_expr e"
| "mf_kind (SListAppend l a) = mf_arg a"
| "mf_kind (SEnv k a) = mf_arg a"
| "mf_kind (SExit a) = mf_arg a"
| "mf_kind (SCommand c args) = list_all mf_arg args"
| "mf_kind _ = True"
| "mf_step (Step g k enters exits) = (enters = 0 \<and> exits = 0 \<and> mf_kind k)"

lemma mf_expr_sub:
  fixes D :: "step list \<Rightarrow> bool"
  shows "mf_expr e = sub_expr (list_all mf_step) e"
  by (induction D e rule: sub_expr.induct) (auto simp: list_all_iff)

lemma mf_arg_sub: "mf_arg a = sub_arg (list_all mf_step) a"
proof (cases a)
  case (ArgParts ps)
  have "mf_part p = sub_part (list_all mf_step) p" for p by (cases p) (simp_all add: mf_expr_sub)
  with ArgParts show ?thesis by (simp add: list_all_iff)
qed (simp_all add: mf_expr_sub)

lemma mf_kind_sub:
  fixes D :: "step list \<Rightarrow> bool"
  shows "mf_kind k = sub_kind (list_all mf_step) k"
proof -
  have "list_all mf_expr = list_all (sub_expr (list_all mf_step))" "list_all mf_arg = list_all (sub_arg (list_all mf_step))"
    by (simp_all add: fun_eq_iff list_all_iff mf_expr_sub mf_arg_sub)
  then show ?thesis by (induction D k rule: sub_kind.induct) (simp_all add: mf_expr_sub mf_arg_sub)
qed

section \<open>The lexical context\<close>

definition scope_types :: "var_scope \<Rightarrow> string \<Rightarrow> type_tag option" where
  "scope_types sc k = map_option fst (map_of sc k)"

text \<open>Outer scopes declare what they declared; the innermost one may declare more.\<close>

definition scopes_frame :: "var_scope list \<Rightarrow> var_scope list \<Rightarrow> bool" where
  "scopes_frame scs scs' \<longleftrightarrow>
     length scs' = length scs \<and> map scope_types (drop 1 scs') = map scope_types (drop 1 scs) \<and>
     (scs \<noteq> [] \<longrightarrow> scope_types (hd scs) \<subseteq>\<^sub>m scope_types (hd scs'))"

text \<open>Every script function, visible or hidden by an inner definition, has a body that satisfies \<open>B\<close>.\<close>

definition entry_all :: "(step list \<Rightarrow> bool) \<Rightarrow> func_entry \<Rightarrow> bool" where
  "entry_all B e = (case entry_body e of BodyScript _ body _ \<Rightarrow> B body | _ \<Rightarrow> True)"

definition registry_all :: "(step list \<Rightarrow> bool) \<Rightarrow> registry \<Rightarrow> bool" where
  "registry_all B r \<longleftrightarrow>
     list_all (\<lambda>p. entry_all B (snd p)) (reg_entries r) \<and>
     list_all (\<lambda>fr. list_all (\<lambda>p. entry_all B (snd p)) (shadowed fr)) (reg_frames r)"

definition lex_ok :: "'w exec_state \<Rightarrow> bool" where
  "lex_ok s \<longleftrightarrow> registry_ok (st_functions s) \<and> registry_all (list_all mf_step) (st_functions s)"

definition lex_rel :: "'w exec_state \<Rightarrow> 'w exec_state \<Rightarrow> bool" where
  "lex_rel s s' \<longleftrightarrow>
     (lex_ok s \<longrightarrow> lex_ok s' \<and> st_scope_stack s' = st_scope_stack s \<and>
        scopes_frame (st_var_scopes s) (st_var_scopes s') \<and> same_outer (st_functions s) (st_functions s'))"

text \<open>What a block gives back to the code after it.\<close>

definition restored :: "'w exec_state \<Rightarrow> 'w exec_state \<Rightarrow> bool" where
  "restored s s' \<longleftrightarrow>
     st_envs s' = st_envs s \<and> st_cwd s' = st_cwd s \<and> st_root s' = st_root s \<and> st_scope_stack s' = st_scope_stack s \<and>
     map scope_types (st_var_scopes s') = map scope_types (st_var_scopes s) \<and>
     map_of (reg_entries (st_functions s')) = map_of (reg_entries (st_functions s)) \<and>
     reg_frames (st_functions s') = reg_frames (st_functions s)"

lemma scopes_frame_refl: "scopes_frame scs scs"
  by (simp add: scopes_frame_def)

lemma scopes_frame_trans: "\<lbrakk>scopes_frame a b; scopes_frame b c\<rbrakk> \<Longrightarrow> scopes_frame a c"
  unfolding scopes_frame_def by (metis length_0_conv map_le_trans)

lemma scopes_frame_pop:
  assumes "scopes_frame ([] # scs) scs'"
  shows "map scope_types (drop 1 scs') = map scope_types scs"
  using assms by (simp add: scopes_frame_def)

lemma scopes_frame_types: "map scope_types scs' = map scope_types scs \<Longrightarrow> scopes_frame scs scs'"
  unfolding scopes_frame_def
  by (metis drop_map hd_map length_map length_greater_0_conv map_le_refl)

lemma list_all_update:
  "\<lbrakk>list_all (\<lambda>p. Q (snd p)) al; Q v\<rbrakk> \<Longrightarrow> list_all (\<lambda>p. Q (snd p)) (AList.update k v al)"
  using set_alist_update [of k v al] by (auto simp: list_all_iff)

lemma list_all_delete: "list_all Q al \<Longrightarrow> list_all Q (AList.delete k al)"
  by (auto simp: list_all_iff AList.delete_eq)

lemma list_all_restore:
  assumes "list_all (\<lambda>p. Q (snd p)) es" "list_all (\<lambda>p. Q (snd p)) (shadowed fr)"
  shows "list_all (\<lambda>p. Q (snd p)) (restore_frame fr es)"
proof -
  have "list_all (\<lambda>p. Q (snd p)) (fold AList.delete ns es)" for ns
    using assms(1) by (induction ns arbitrary: es) (simp_all add: list_all_delete)
  moreover have "list_all (\<lambda>p. Q (snd p)) (fold (\<lambda>(n, e). AList.update n e) us al)"
    if "list_all (\<lambda>p. Q (snd p)) al" "list_all (\<lambda>p. Q (snd p)) us" for us al :: "(string \<times> func_entry) list"
    using that by (induction us arbitrary: al) (auto simp: list_all_update split: prod.split)
  ultimately show ?thesis using assms(2) by (simp add: restore_frame_def)
qed

lemma registry_all_push [simp]: "registry_all B (registry_push_scope r) = registry_all B r"
  by (simp add: registry_all_def registry_push_scope_def)

lemma registry_all_pop: "registry_all B r \<Longrightarrow> registry_all B (registry_pop_scope r)"
  by (auto simp: registry_all_def registry_pop_scope_def list_all_restore split: list.splits)

lemma registry_all_define:
  assumes "define_script name params body owner r = Ok r'" "registry_all B r" "B body"
  shows "registry_all B r'"
proof -
  have "entry_all B e" if "registry_get q r = Some e" for q e
    using that assms(2) by (auto simp: registry_get_def registry_all_def list_all_iff dest!: map_of_SomeD)
  moreover have "entry_all B (script_entry SCRIPT_MODULE_NAME params body owner)"
    using assms(3) by (simp add: script_entry_def entry_all_def)
  ultimately show ?thesis using assms(1,2)
    by (auto simp: define_script_def registry_all_def record_in_def Let_def list_all_update
      split: if_splits list.splits option.splits)
qed

lemma same_outer_equal_view:
  assumes "map_of (reg_entries r') = map_of (reg_entries r)" "reg_frames r' = reg_frames r" "registry_ok r'"
  shows "same_outer r r'"
  using assms
  by (auto simp: same_outer_def outer_view_def registry_pop_scope_def map_of_restore_frame fun_eq_iff
    split: list.splits option.split)

text \<open>Leaving a scope after a body that kept the lexical context: the snapshot comes back.\<close>

lemma lexical_leave:
  assumes "lex_rel s0 s1" "lex_ok s" "st_scope_stack s0 = st_scope_stack (push_scope s)"
    "st_var_scopes s0 = st_var_scopes (push_scope s)" "st_functions s0 = st_functions (push_scope s)"
  obtains s2 where "pop_scope s1 = (s2, Ok ())" "lex_rel s s2" "restored s s2"
proof -
  define r1 where "r1 = st_functions s1"
  have "lex_ok s0"
    using assms(2,5) by (simp add: lex_ok_def push_scope_def push_var_scope_def Let_def registry_ok_push)
  with assms(1,3-5) have stack: "st_scope_stack s1 = \<lparr>snap_cwd = st_cwd s, snap_root = st_root s, snap_envs = st_envs s\<rparr> # st_scope_stack s"
    and vars: "scopes_frame ([] # st_var_scopes s) (st_var_scopes s1)"
    and funs: "same_outer (registry_push_scope (st_functions s)) r1" and ok: "lex_ok s1"
    by (simp_all add: lex_rel_def push_scope_def push_var_scope_def Let_def r1_def)
  define s2 where "s2 = fst (pop_scope s1)"
  have s2: "st_envs s2 = st_envs s" "st_cwd s2 = st_cwd s" "st_root s2 = st_root s" "st_scope_stack s2 = st_scope_stack s"
    "st_var_scopes s2 = drop 1 (st_var_scopes s1)" "st_functions s2 = registry_pop_scope r1"
    and pop: "pop_scope s1 = (s2, Ok ())"
    using stack by (simp_all add: s2_def pop_scope_def pop_var_scope_def Let_def r1_def)
  have res: "restored s s2"
    using s2 scopes_frame_pop [OF vars] pop_restores [OF funs] by (simp add: restored_def)
  have "lex_ok s2"
    using ok s2 by (simp add: lex_ok_def registry_ok_pop registry_all_pop r1_def)
  then have "lex_rel s s2"
    using res same_outer_equal_view scopes_frame_types by (auto simp: lex_rel_def restored_def lex_ok_def)
  with pop res that show ?thesis by blast
qed

lemma lexical_scoped:
  assumes "succeeding lex_rel m" "scoped m s = (s', Ok a)" "lex_ok s"
  shows "lex_rel s s' \<and> restored s s'"
proof -
  from assms(2) obtain s1 q p where m: "m (push_scope s) = (s1, q)" and pop: "pop_scope s1 = (s', p)" and r: "Ok a = merge_pop q p"
    by (rule scoped_split)
  have "q = Ok a" using r [symmetric] unfolding merge_pop_Ok by blast
  with m have "lex_rel (push_scope s) s1" using keeps_ok [OF assms(1)] by blast
  from lexical_leave [OF this assms(3)] pop show ?thesis by auto
qed

lemma lexical_scope: "succeeding lex_rel m \<Longrightarrow> succeeding lex_rel (scoped m)"
proof (rule succeedingI)
  fix s s' a assume "succeeding lex_rel m" "scoped m s = (s', Ok a)"
  then show "lex_rel s s'" using lexical_scoped lex_rel_def by metis
qed

lemma lex_rel_context:
  assumes "lex_rel s0 s1" "st_scope_stack s0 = st_scope_stack s" "st_var_scopes s0 = st_var_scopes s"
    "st_functions s0 = st_functions s" "st_scope_stack s' = st_scope_stack s1" "st_var_scopes s' = st_var_scopes s1"
    "st_functions s' = st_functions s1"
  shows "lex_rel s s'"
  using assms by (simp add: lex_rel_def lex_ok_def)

lemma lexical_call:
  assumes "succeeding lex_rel m"
  shows "succeeding lex_rel (in_call H owner m)"
proof (rule succeedingI)
  fix s s' a assume run: "in_call H owner m s = (s', Ok a)"
  from run obtain s1 q s2 p where m: "m (enter_call H owner s) = (s1, q)" and pop: "pop_scope s1 = (s2, p)"
    and s': "s' = leave_call s2" and r: "Ok a = merge_pop q p" by (rule in_call_split)
  have "q = Ok a" using r [symmetric] unfolding merge_pop_Ok by blast
  with m have body: "lex_rel (enter_call H owner s) s1" using keeps_ok [OF assms] by blast
  have enter: "st_scope_stack (enter_call H owner s) = st_scope_stack (push_scope s)"
    "st_var_scopes (enter_call H owner s) = st_var_scopes (push_scope s)"
    "st_functions (enter_call H owner s) = st_functions (push_scope s)"
    by (auto simp: enter_call_def inherit_env_def reset_module_context_def push_scope_def push_var_scope_def Let_def
      split: option.split)
  have "lex_rel s s2"
  proof (cases "lex_ok s")
    case True
    from lexical_leave [OF body True enter] pop show ?thesis by auto
  qed (simp add: lex_rel_def)
  then show "lex_rel s s'" by (rule lex_rel_context) (simp_all add: s' leave_call_def)
qed

lemma lexical_iteration:
  assumes "succeeding lex_rel bind" "succeeding lex_rel (X body False)"
  shows "succeeding lex_rel (for_iteration X body bind)"
proof (rule succeedingI)
  fix s s' a assume run: "for_iteration X body bind s = (s', Ok a)"
  from run show "lex_rel s s'"
  proof (cases rule: for_iteration_split)
    case unbound
    then show ?thesis by simp
  next
    case (bound s1 s2 q p)
    have "q = Ok a" using bound(4) [symmetric] unfolding merge_pop_Ok by blast
    with bound have step: "lex_rel (push_scope s) s1" "lex_rel s1 s2"
      using keeps_ok [OF assms(1)] keeps_ok [OF assms(2)] by blast+
    have both: "lex_rel (push_scope s) s2"
      using step unfolding lex_rel_def by (metis same_outer_trans scopes_frame_trans)
    show ?thesis
    proof (cases "lex_ok s")
      case True
      obtain s3 where "pop_scope s2 = (s3, Ok ())" "lex_rel s s3"
        by (rule lexical_leave [OF both True refl refl refl])
      with bound(3) show ?thesis by simp
    qed (simp add: lex_rel_def)
  qed
qed

lemma lexical_timeout:
  assumes "succeeding lex_rel (X body True)"
  shows "succeeding lex_rel (timeout H X d body)"
proof (rule succeedingI)
  fix s s' a assume run: "timeout H X d body s = (s', Ok a)"
  from run obtain s1 q where body: "scoped (X body True) (s\<lparr>st_cancellable := True, st_reap_floor := Some (st_next_task_id s)\<rparr>) = (s1, q)"
    and s': "s' = s1\<lparr>st_cancellable := st_cancellable s, st_reap_floor := st_reap_floor s,
       st_cancel_token := (if h_fired H d s1 then True else st_cancel_token s)\<rparr>" and q: "is_ok (Ok a :: exec_error + flow) \<longrightarrow> is_ok q"
    by (rule timeout_split)
  from q obtain fl where fl: "q = Ok fl" by (cases q) simp_all
  have "lex_rel (s\<lparr>st_cancellable := True, st_reap_floor := Some (st_next_task_id s)\<rparr>) s1"
    using lexical_scoped [OF assms body [unfolded fl]] by (auto simp: lex_rel_def)
  then show "lex_rel s s'" by (rule lex_rel_context) (simp_all add: s')
qed

lemma lexical_isolated:
  assumes "succeeding lex_rel (X body False)"
  shows "succeeding lex_rel (isolated X body)"
proof (rule succeedingI)
  fix s s' a assume run: "isolated X body s = (s', Ok a)"
  from run obtain s1 where
    body: "scoped (X body False) (s\<lparr>st_isolated_stack := st_envs s # st_isolated_stack s, st_envs := st_seed s\<rparr>) = (s1, Ok a)"
    and s': "s' = (case st_isolated_stack s1 of snapshot # rest \<Rightarrow> s1\<lparr>st_isolated_stack := rest, st_envs := snapshot\<rparr> | [] \<Rightarrow> s1)"
    by (rule isolated_split)
  have "lex_rel (s\<lparr>st_isolated_stack := st_envs s # st_isolated_stack s, st_envs := st_seed s\<rparr>) s1"
    using lexical_scoped [OF assms body] by (auto simp: lex_rel_def)
  then show "lex_rel s s'" by (rule lex_rel_context) (simp_all add: s' split: list.split)
qed

lemma assign_innermost_types:
  assumes "assign_innermost key (\<lambda>slot. (fst slot, v)) scs = Some scs'"
  shows "map scope_types scs' = map scope_types scs"
  using assms
proof (induction scs arbitrary: scs')
  case (Cons sc scs)
  then show ?case
    by (auto simp: scope_types_def update_conv' fun_eq_iff split: option.splits)
qed simp

lemma lex_rel_refl: "lex_rel s s"
  by (simp add: lex_rel_def same_outer_refl scopes_frame_refl)

lemma lex_rel_vars: "scopes_frame (st_var_scopes s) scs \<Longrightarrow> lex_rel s (s\<lparr>st_var_scopes := scs\<rparr>)"
  by (simp add: lex_rel_def lex_ok_def same_outer_refl)

lemma lex_rel_module: "assign_module key w s = Some s' \<Longrightarrow> lex_rel s s'"
  by (auto simp: assign_module_def lex_rel_def lex_ok_def same_outer_refl scopes_frame_refl split: option.splits)

lemma lexical_store: "every lex_rel (declare_var F key t v)" "every lex_rel (mutate_var F key v)"
  "every lex_rel (push_into_list key v)"
proof -
  have fresh: "scopes_frame (sc # scs) (AList.update key e sc # scs)" if "\<forall>a b. map_of sc key \<noteq> Some (a, b)" for sc scs e
    using that by (auto simp: scopes_frame_def map_le_def scope_types_def update_conv' split: if_splits)
  show "every lex_rel (declare_var F key t v)"
    by (auto simp: every_def declare_var_def lex_rel_refl intro!: lex_rel_vars fresh split: if_splits sum.splits list.splits)
  show "every lex_rel (mutate_var F key v)"
    by (auto simp: every_def mutate_var_def lex_rel_refl intro!: lex_rel_vars scopes_frame_types assign_innermost_types
      dest: lex_rel_module split: sum.splits option.splits prod.splits)
  show "every lex_rel (push_into_list key v)"
    by (auto simp: every_def push_into_list_def lex_rel_refl intro!: lex_rel_vars scopes_frame_types assign_innermost_types
      split: sum.splits option.splits prod.splits)
qed

lemma lexical_prims: "succeeding lex_rel (declare_st H key t v)" "succeeding lex_rel (mutate_st H key v)"
  "succeeding lex_rel (map_err StateError (push_into_list key v))"
proof -
  have lift: "succeeding R (map_err StateError m)" if "every R m" for R :: "'s \<Rightarrow> 's \<Rightarrow> bool" and m :: "'s \<Rightarrow> 's \<times> (_ + unit)"
    using that by (intro succeedingI) (auto simp: every_def map_err_def split: prod.splits sum.splits)
  show "succeeding lex_rel (declare_st H key t v)" unfolding declare_st_def by (rule lift) (rule lexical_store)
  show "succeeding lex_rel (mutate_st H key v)" unfolding mutate_st_def by (rule lift) (rule lexical_store)
  show "succeeding lex_rel (map_err StateError (push_into_list key v))" by (rule lift) (rule lexical_store)
qed

lemma registry_all_body:
  assumes "registry_all B r" "registry_get name r = Some e" "entry_body e = BodyScript params body owner"
  shows "B body"
proof -
  have "entry_all B e"
    using assms(1,2) by (auto simp: registry_all_def registry_get_def list_all_iff dest!: map_of_SomeD)
  then show ?thesis using assms(3) by (simp add: entry_all_def)
qed

interpretation lexical: exec_laws "\<lambda>_ _ _. True" lex_rel H "list_all mf_step" lex_ok for H :: "'w host"
proof unfold_locales
  fix s t u :: "'w exec_state"
  assume "lex_rel s t" "lex_rel t u"
  then show "lex_rel s u" unfolding lex_rel_def by (metis same_outer_trans scopes_frame_trans)
next
  fix m :: "'w exec_state \<Rightarrow> 'w exec_state \<times> (exec_error + flow)"
  assume "succeeding lex_rel m"
  then show "succeeding lex_rel (scoped m)" by (rule lexical_scope)
next
  fix m :: "'w exec_state \<Rightarrow> 'w exec_state \<times> (exec_error + dvalue)"
  assume "succeeding lex_rel m"
  then show "succeeding lex_rel (scoped m)" by (rule lexical_scope)
next
  fix body name params owner and s :: "'w exec_state" and f
  assume "list_all mf_step body" "define_script name params body owner (st_functions s) = Ok f"
  then show "lex_rel s (s\<lparr>st_functions := f\<rparr>)"
    using define_script_frames registry_all_define
    by (fastforce simp: lex_rel_def lex_ok_def scopes_frame_refl same_outer_def)
next
  fix body assume "list_all mf_step body"
  then show "list_all (\<lambda>stp. sub_kind (list_all mf_step) (step.kind stp) \<and> (scope_enter stp = 0 \<and> scope_exit stp = 0 \<or>
      (\<forall>s :: 'w exec_state. lex_rel s (push_scope s) \<and> lex_rel s (fst (pop_scope s))))) body"
    unfolding list_all_iff
  proof (intro ballI)
    fix stp assume "\<forall>x\<in>set body. mf_step x" "stp \<in> set body"
    then have "mf_step stp" by blast
    then show "sub_kind (\<lambda>xs. \<forall>x\<in>set xs. mf_step x) (step.kind stp) \<and> (scope_enter stp = 0 \<and> scope_exit stp = 0 \<or>
        (\<forall>s :: 'w exec_state. lex_rel s (push_scope s) \<and> lex_rel s (fst (pop_scope s))))"
      by (cases stp) (simp add: mf_kind_sub list_all_iff [abs_def])
  qed
qed (auto simp: lexical_call lexical_iteration lexical_timeout lexical_isolated lexical_prims
    lex_rel_def same_outer_refl scopes_frame_refl lex_ok_def
    dest: registry_all_body)

end
