(* ===== verification/Execution.thy ===== *)
theory Execution
  imports Exec_Invariants
begin

text \<open>Properties of whole runs: what a script may rely on before and after a block, a call or an
  isolated section, on the paths that succeed and on those that fail.\<close>

section \<open>A script to exercise the theorems\<close>

definition plain_step :: "step_kind \<Rightarrow> step" where
  "plain_step k = Step None k 0 0"

definition sample_script :: "step list" where
  "sample_script =
     [plain_step (SEnv ''MODE'' (ArgExpr (ELiteral (VBool True)))),
      plain_step (SIf (ELiteral (VBool True)) [plain_step (SIsolated [plain_step SContinue])] [] None)]"

text \<open>C2. Every run, at any fuel and however it ends, keeps every variable at a value of its
  declared type.\<close>

theorem run_keeps_types:
  assumes "store_typed s"
  shows "store_typed (fst (exec H n steps wait s))"
proof -
  obtain s' r where run: "exec H n steps wait s = (s', r)" by fastforce
  have "typed_rel s s'" using alwaysD [OF typed.exec_keeps run] by simp
  with run assms show ?thesis by (simp add: typed_rel_def)
qed

theorem run_keeps_types_witness:
  "store_typed (fst (exec sample_host 4 sample_script True (sample_state [[]])))"
proof -
  have "store_typed (sample_state [[]])" by (simp add: sample_state_def store_typed_def scope_typed_def)
  then show ?thesis by (rule run_keeps_types)
qed

text \<open>C4. However a run ends, the call depth, the stacks of modules and of isolated environments, the
  cancellation settings of an enclosing timeout and the identity of the task are what they were.\<close>

theorem run_restores_dynamic_context:
  "dynamic_context (fst (exec H n steps wait s)) = dynamic_context s"
proof -
  obtain s' r where run: "exec H n steps wait s = (s', r)" by fastforce
  have "dynamic_rel s s'" using alwaysD [OF dynamic.exec_keeps run] by simp
  with run show ?thesis by (simp add: dynamic_rel_def)
qed

text \<open>C5. An isolated section gives the environment back on every path, whether its body succeeds,
  fails, returns or breaks, and whatever it set or inherited.\<close>

theorem isolated_restores_environment:
  "st_envs (fst (isolated (exec H n) body s)) = st_envs s \<and>
   st_isolated_stack (fst (isolated (exec H n) body s)) = st_isolated_stack s"
proof -
  obtain s' r where run: "isolated (exec H n) body s = (s', r)" by fastforce
  have "always dynamic_rel (exec H n body False)" by (rule dynamic.exec_keeps) simp
  from dynamic_isolated [OF this run] have ctx: "dynamic_context s' = dynamic_context s" and envs: "st_envs s' = st_envs s"
    by (simp_all add: dynamic_rel_def)
  show ?thesis unfolding run fst_conv using envs dynamic_context_eq(2) [OF ctx] by blast
qed

text \<open>C3. A block without scope markers that succeeds, in a state in which the body of every registered function is
  free of scope markers too, gives back the environment, the working directory, the workspace root, the stack of
  scopes, the function table and the names and declared types of all variables around it; their values may have
  changed.\<close>

theorem block_restores_context:
  assumes "execute_scoped_steps (exec H n) body wait s = (s', Ok fl)" "list_all mf_step body" "lex_ok s"
  shows "restored s s'"
proof -
  have "succeeding lex_rel (exec H n body wait)" using assms(2) by (rule lexical.exec_keeps)
  with lexical_scoped [OF this, of s s' fl] assms show ?thesis by (simp add: execute_scoped_steps_def)
qed

theorem block_restores_context_witness:
  "\<exists>s' fl. execute_scoped_steps (exec sample_host 4) sample_script False (sample_state [[]]) = (s', Ok fl) \<and>
     restored (sample_state [[]]) s'"
proof -
  obtain s' r where run: "execute_scoped_steps (exec sample_host 4) sample_script False (sample_state [[]]) = (s', r)"
    by fastforce
  have "is_ok (snd (execute_scoped_steps (exec sample_host 4) sample_script False (sample_state [[]])))" by code_simp
  with run obtain fl where r: "r = Ok fl" by (cases r) simp_all
  have "list_all mf_step sample_script" by code_simp
  moreover have "lex_ok (sample_state [[]])"
    by (simp add: lex_ok_def sample_state_def registry_ok_def registry_all_def frame_ok_def)
  ultimately have "restored (sample_state [[]]) s'" using block_restores_context [OF run [unfolded r]] by blast
  with run r show ?thesis by blast
qed

section \<open>Where a scope or a cancellation is lost\<close>

text \<open>A loop whose first item does not coerce to the declared type fails with the scope of the
  iteration still pushed.\<close>

theorem for_binding_error_leaks_scope:
  assumes "evaluate_expr H X e s = (s1, Ok (VList (v # items)))" "resolve_tag_st ty s1 = (s2, Ok t)"
    "coerce_value (h_float H) v t = Err x"
  shows "for_loop H X None kt var ty e body s = (push_scope s2, Err (StateError (CoercionError x)))"
  using assms
  by (simp add: for_loop_def bind_st_def reader_defs for_iteration_def bind_list_item_def bind_index_def ret_def
    bind_coerced_def coerce_st_def reads_def)

text \<open>After a deadline fired, every later step of the same state is refused.\<close>

theorem fired_timeout_cancels_session:
  assumes "timeout H X d body s = (s', r)"
    "h_fired H d (fst (execute_scoped_steps X body True (s\<lparr>st_cancellable := True, st_reap_floor := Some (st_next_task_id s)\<rparr>)))"
  shows "snd (exec H (Suc n) (stp # rest) wait s') = Err TaskCancelled"
proof -
  from assms have "st_cancel_token s'" by (auto simp: timeout_def Let_def split: prod.splits if_splits)
  then show ?thesis by (simp add: execute_steps_def execute_steps_inner_def bind_st_def)
qed

text \<open>When the deadline does not fire, a cancellation the body saw is forgotten.\<close>

theorem timeout_forgets_cancellation:
  assumes "timeout H X d body s = (s', r)"
    "\<not> h_fired H d (fst (execute_scoped_steps X body True (s\<lparr>st_cancellable := True, st_reap_floor := Some (st_next_task_id s)\<rparr>)))"
  shows "st_cancel_token s' = st_cancel_token s"
  using assms by (auto simp: timeout_def Let_def split: prod.splits if_splits)

end
