(* ===== verification/Termination.thy ===== *)
theory Termination
  imports Execution
begin

text \<open>Scripts without \<open>WHILE\<close> end: nesting is finite, \<open>FOR\<close> runs over a value computed before it
  starts, and recursion is cut at \<open>MAX_CALL_DEPTH\<close>. The bound on the fuel is the depth of the
  script plus one depth of its functions for every call level still allowed. For any script, a
  result that is not exhaustion does not depend on the fuel.\<close>

section \<open>Bounded nesting\<close>

primrec nest_ok :: "nat \<Rightarrow> step list \<Rightarrow> bool" where
  "nest_ok 0 body = False"
| "nest_ok (Suc k) body =
     list_all (\<lambda>stp. \<not> runs_while (step.kind stp) \<and> sub_kind (nest_ok k) (step.kind stp)) body"

lemma nest_ok_Suc: "nest_ok k body \<Longrightarrow> nest_ok (Suc k) body"
proof (induction k arbitrary: body)
  case (Suc k)
  have "sub_kind (nest_ok (Suc k)) kd" if "sub_kind (nest_ok k) kd" for kd
    using that by (rule sub_kind_mono [rotated]) (rule Suc.IH)
  with Suc.prems show ?case by (auto simp: list_all_iff simp del: nest_ok.simps(2) simp: nest_ok.simps(2) [of k] nest_ok.simps(2) [of "Suc k"])
qed simp

lemma nest_ok_mono: "\<lbrakk>nest_ok k body; k \<le> m\<rbrakk> \<Longrightarrow> nest_ok m body"
  by (induction m) (auto simp del: nest_ok.simps elim: nest_ok_Suc simp: le_Suc_eq)

section \<open>The frame of a run at one call depth\<close>

text \<open>At call depth \<open>d\<close>, all functions nested at most \<open>D\<close> deep.\<close>

definition bounded_at :: "nat \<Rightarrow> nat \<Rightarrow> 'w exec_state \<Rightarrow> bool" where
  "bounded_at D d s \<longleftrightarrow> st_call_depth s = d \<and> registry_all (nest_ok D) (st_functions s)"

definition stays :: "nat \<Rightarrow> nat \<Rightarrow> 'w exec_state \<Rightarrow> 'w exec_state \<Rightarrow> bool" where
  "stays D d s s' \<longleftrightarrow> (bounded_at D d s \<longrightarrow> bounded_at D d s')"

definition fails_else :: "nat \<Rightarrow> nat \<Rightarrow> exec_error \<Rightarrow> 'w exec_state \<Rightarrow> 'w exec_state \<Rightarrow> bool" where
  "fails_else D d e s s' \<longleftrightarrow> (bounded_at D d s \<longrightarrow> bounded_at D d s' \<and> e \<noteq> OutOfFuel)"

abbreviation ends :: "nat \<Rightarrow> nat \<Rightarrow> ('w exec_state \<Rightarrow> 'w exec_state \<times> (exec_error + 'a)) \<Rightarrow> bool" where
  "ends D d \<equiv> keeps (fails_else D d) (stays D d)"

lemma endsI:
  assumes "\<And>s s' r. \<lbrakk>m s = (s', r); bounded_at D d s\<rbrakk> \<Longrightarrow> bounded_at D d s' \<and> clean r"
  shows "ends D d m"
  by (rule keepsI) (use assms in \<open>auto simp: stays_def fails_else_def clean_def\<close>)

lemma endsD:
  assumes "ends D d m" "m s = (s', r)" "bounded_at D d s"
  shows "bounded_at D d s'" "clean r"
  using assms keeps_ok [of "fails_else D d" "stays D d" m s s'] keeps_err [of "fails_else D d" "stays D d" m s s']
  by (cases r; fastforce simp: stays_def fails_else_def clean_def)+

lemma bounded_ext:
  "\<lbrakk>st_call_depth s' = st_call_depth s; st_functions s' = st_functions s\<rbrakk> \<Longrightarrow> bounded_at D d s' = bounded_at D d s"
  by (simp add: bounded_at_def)

lemma bounded_push [simp]: "bounded_at D d (push_scope s) = bounded_at D d s"
  by (simp add: bounded_at_def push_scope_def push_var_scope_def Let_def)

lemma bounded_pop: "\<lbrakk>pop_scope s = (s', p); bounded_at D d s\<rbrakk> \<Longrightarrow> bounded_at D d s'"
  by (auto simp: bounded_at_def pop_scope_def pop_var_scope_def Let_def registry_all_pop split: list.splits)

lemma bounded_enter [simp]: "bounded_at D (Suc d) (enter_call H owner s) = bounded_at D d s"
  by (auto simp: bounded_at_def enter_call_def inherit_env_def reset_module_context_def push_scope_def
    push_var_scope_def Let_def split: option.split)

lemma bounded_leave: "bounded_at D (Suc d) s \<Longrightarrow> bounded_at D d (leave_call s)"
  by (simp add: bounded_at_def leave_call_def)

lemma clean_merge: "clean q \<Longrightarrow> clean (merge_pop q p)"
  by (cases q; cases p) (simp_all add: merge_pop_def clean_def)

lemma ends_scoped:
  assumes "ends D d m"
  shows "ends D d (scoped m)"
proof (rule endsI)
  fix s s' r assume run: "scoped m s = (s', r)" and b: "bounded_at D d s"
  from run obtain s1 q p where m: "m (push_scope s) = (s1, q)" and pop: "pop_scope s1 = (s', p)" and r: "r = merge_pop q p"
    by (rule scoped_split)
  from endsD [OF assms m] b have "bounded_at D d s1" "clean q" by simp_all
  then show "bounded_at D d s' \<and> clean r" using bounded_pop [OF pop] clean_merge r by blast
qed

lemma ends_iteration:
  assumes "ends D d bind" "ends D d (X body False)"
  shows "ends D d (for_iteration X body bind)"
proof (rule endsI)
  fix s s' r assume run: "for_iteration X body bind s = (s', r)" and b: "bounded_at D d s"
  then have push: "bounded_at D d (push_scope s)" by simp
  from run show "bounded_at D d s' \<and> clean r"
  proof (cases rule: for_iteration_split)
    case (unbound e)
    then show ?thesis using endsD [OF assms(1) unbound(1) push] by (simp add: clean_Err)
  next
    case (bound s1 s2 q p)
    have "bounded_at D d s1" using endsD [OF assms(1) bound(1) push] by blast
    from endsD [OF assms(2) bound(2) this] bound(3,4) show ?thesis using bounded_pop clean_merge by blast
  qed
qed

lemma ends_timeout:
  assumes "ends D d (X body True)"
  shows "ends D d (timeout H X t body)"
proof (rule endsI)
  fix s s' r assume run: "timeout H X t body s = (s', r)" and b: "bounded_at D d s"
  obtain s1 q where body: "scoped (X body True) (s\<lparr>st_cancellable := True, st_reap_floor := Some (st_next_task_id s)\<rparr>) = (s1, q)"
    by fastforce
  have start: "bounded_at D d (s\<lparr>st_cancellable := True, st_reap_floor := Some (st_next_task_id s)\<rparr>)"
    using b by (simp add: bounded_at_def)
  note end1 = endsD [OF ends_scoped [OF assms] body start]
  have "bounded_at D d s'" using end1(1) run body by (auto simp: timeout_def execute_scoped_steps_def Let_def bounded_at_def)
  moreover have "clean r"
    using end1(2) run body by (cases q) (auto simp: timeout_def execute_scoped_steps_def Let_def clean_def split: if_splits)
  ultimately show "bounded_at D d s' \<and> clean r" ..
qed

lemma ends_isolated:
  assumes "ends D d (X body False)"
  shows "ends D d (isolated X body)"
proof (rule endsI)
  fix s s' r assume run: "isolated X body s = (s', r)" and b: "bounded_at D d s"
  from run obtain s1 where
    body: "scoped (X body False) (s\<lparr>st_isolated_stack := st_envs s # st_isolated_stack s, st_envs := st_seed s\<rparr>) = (s1, r)"
    and s': "s' = (case st_isolated_stack s1 of snapshot # rest \<Rightarrow> s1\<lparr>st_isolated_stack := rest, st_envs := snapshot\<rparr> | [] \<Rightarrow> s1)"
    by (rule isolated_split)
  have "bounded_at D d (s\<lparr>st_isolated_stack := st_envs s # st_isolated_stack s, st_envs := st_seed s\<rparr>)"
    using b by (simp add: bounded_at_def)
  from endsD [OF ends_scoped [OF assms] body this]
  show "bounded_at D d s' \<and> clean r" by (simp add: s' bounded_at_def split: list.split)
qed

lemma ends_store:
  "ends D d (declare_st H key t v :: 'a exec_state \<Rightarrow> _)" "ends D d (mutate_st H key v :: 'a exec_state \<Rightarrow> _)"
  "ends D d (map_err StateError (push_into_list key v) :: 'a exec_state \<Rightarrow> _)"
proof -
  have lift: "ends D d (map_err StateError m)"
    if "\<And>s s' r. m s = (s', r) \<Longrightarrow> st_call_depth s' = st_call_depth s \<and> st_functions s' = st_functions s"
    for m :: "'a exec_state \<Rightarrow> 'a exec_state \<times> (state_error + unit)"
  proof (rule endsI)
    fix s s' :: "'a exec_state" and r assume run: "map_err StateError m s = (s', r)" and b: "bounded_at D d s"
    then obtain q where "m s = (s', q)" and r: "clean r" by (auto simp: map_err_def clean_def split: prod.splits sum.splits)
    with that b bounded_ext show "bounded_at D d s' \<and> clean r" by blast
  qed
  show "ends D d (declare_st H key t v :: 'a exec_state \<Rightarrow> _)" unfolding declare_st_def
    by (rule lift) (auto simp: declare_var_def split: if_splits sum.splits list.splits)
  show "ends D d (mutate_st H key v :: 'a exec_state \<Rightarrow> _)" unfolding mutate_st_def
    by (rule lift) (auto simp: mutate_var_def assign_module_def split: sum.splits option.splits prod.splits)
  show "ends D d (map_err StateError (push_into_list key v) :: 'a exec_state \<Rightarrow> _)"
    by (rule lift) (auto simp: push_into_list_def split: sum.splits option.splits prod.splits)
qed

lemma ends_prims:
  assumes "clean_host H" "k \<le> D"
  shows "exec_prims (fails_else D d) (stays D d) H (nest_ok k) (bounded_at D d)"
proof unfold_locales
  fix body name params owner f and s :: "'a exec_state"
  assume "nest_ok k body" "define_script name params body owner (st_functions s) = Ok f"
  then show "stays D d s (s\<lparr>st_functions := f\<rparr>)"
    using registry_all_define nest_ok_mono [OF _ assms(2)] by (auto simp: stays_def bounded_at_def)
qed (auto simp: ends_scoped ends_iteration ends_timeout ends_isolated ends_store assms(1) stays_def fails_else_def bounded_at_def)

section \<open>Enough fuel\<close>

lemma ends_call:
  assumes "clean_host H" "ends D (Suc d) (X body False)"
  shows "ends D d (call_script H X params body owner vals)"
proof (rule endsI)
  fix s s' r assume run: "call_script H X params body owner vals s = (s', r)" and b: "bounded_at D d s"
  define m where "m = bind_st (bind_params (h_float H) params vals) (\<lambda>_. bind_st (X body False) boundary)"
  from run obtain s1 q s2 p where m: "m (enter_call H owner s) = (s1, q)" and pop: "pop_scope s1 = (s2, p)"
    and s': "s' = leave_call s2" and r: "r = merge_pop q p"
    unfolding call_script_def m_def [symmetric] by (rule in_call_split)
  have prims: "exec_prims (fails_else D (Suc d)) (stays D (Suc d)) H (nest_ok D) (bounded_at D (Suc d))"
    using assms(1) by (rule ends_prims) simp
  then have rel: "frame_rel (fails_else D (Suc d)) (stays D (Suc d) :: 'a exec_state \<Rightarrow> _)"
    by (simp add: exec_prims_def)
  have "ends D (Suc d) m" unfolding m_def
    by (intro frame_rel.keeps_bind [OF rel] exec_prims.keeps_params [OF prims] exec_prims.keeps_boundary [OF prims] assms(2))
  from endsD [OF this m] b have "bounded_at D (Suc d) s1" "clean q" by simp_all
  with bounded_pop [OF pop] bounded_leave clean_merge s' r show "bounded_at D d s' \<and> clean r" by blast
qed

lemma exec_ends:
  fixes H :: "'a host"
  assumes "clean_host H"
  shows "\<lbrakk>nest_ok k body; k \<le> D; k + (MAX_CALL_DEPTH - d) * D \<le> n\<rbrakk> \<Longrightarrow> ends D d (exec H n body wait)"
proof (induction n arbitrary: k d body wait)
  case 0
  then show ?case by simp
next
  case (Suc n)
  from Suc.prems(1) obtain j where k: "k = Suc j" by (cases k) simp_all
  have fr: "exec_frame (fails_else D d) (stays D d) H (nest_ok j) (bounded_at D d) (exec H n)"
  proof (intro exec_frame.intro exec_frame_axioms.intro)
    show "exec_prims (fails_else D d) (stays D d) H (nest_ok j) (bounded_at D d)"
      using assms Suc.prems(2) k by (intro ends_prims) simp_all
    show "ends D d (exec H n b w)" if "nest_ok j b" for b w
      using that Suc.IH [of j b d w] Suc.prems(2,3) k by simp
    fix s name e params b owner vals
    assume s: "bounded_at D d s" "st_call_depth s < MAX_CALL_DEPTH" "registry_get name (st_functions s) = Some e"
      "entry_body e = BodyScript params b owner"
    then have d: "MAX_CALL_DEPTH - d = Suc (MAX_CALL_DEPTH - Suc d)" and body: "nest_ok D b"
      using registry_all_body by (auto simp: bounded_at_def Suc_diff_Suc)
    have "D + (MAX_CALL_DEPTH - Suc d) * D \<le> n" using Suc.prems(3) k d by simp
    then have "ends D (Suc d) (exec H n b False)" by (rule Suc.IH [OF body order_refl])
    then show "ends D d (call_script H (exec H n) params b owner vals)" by (rule ends_call [OF assms])
  qed
  have "stays D d s (push_scope s)" "stays D d s (fst (pop_scope s))" for s :: "'a exec_state"
    using bounded_pop [of s "fst (pop_scope s)" "snd (pop_scope s)" D d] by (simp_all add: stays_def)
  then have "list_all (exec_frame.step_ok (fails_else D d :: _ \<Rightarrow> 'a exec_state \<Rightarrow> _) (stays D d) (nest_ok j)) body"
    using Suc.prems(1) by (auto simp: k list_all_iff exec_frame.step_ok_def [OF fr])
  then show ?case using exec_frame.keeps_execute_steps [OF fr] by simp
qed

text \<open>C6. A script without \<open>WHILE\<close> nested at most \<open>k\<close> deep, over functions without \<open>WHILE\<close> nested at most \<open>D\<close>
  deep, ends: with fuel for its own nesting and one more \<open>D\<close> for every call level left it never
  runs out, whatever its functions call, unboundedly recursive ones included.\<close>

theorem while_free_scripts_end:
  assumes "clean_host H" "nest_ok k steps" "k \<le> D" "registry_all (nest_ok D) (st_functions s)"
    and "k + (MAX_CALL_DEPTH - st_call_depth s) * D \<le> n"
  shows "snd (exec H n steps wait s) \<noteq> Err OutOfFuel"
proof -
  obtain s' r where run: "exec H n steps wait s = (s', r)" by fastforce
  have "bounded_at D (st_call_depth s) s" using assms(4) by (simp add: bounded_at_def)
  from endsD(2) [OF exec_ends [OF assms(1,2,3,5)] run this] run show ?thesis by (simp add: clean_def)
qed

definition recursive_state :: "unit exec_state" where
  "recursive_state = (sample_state [[]])\<lparr>st_functions := \<lparr>reg_entries = [(''SCRIPT::LOOP'',
     script_entry ''SCRIPT'' [] [plain_step (SCall ''SCRIPT::LOOP'' [])] None)], reg_frames = []\<rparr>\<rparr>"

theorem while_free_scripts_end_witness:
  "snd (exec sample_host 65 [plain_step (SCall ''SCRIPT::LOOP'' [])] True recursive_state) \<noteq> Err OutOfFuel"
proof (rule while_free_scripts_end)
  show "clean_host sample_host" by (simp add: clean_host_def sample_host_def clean_def)
  show "nest_ok 1 [plain_step (SCall ''SCRIPT::LOOP'' [])]" by (simp add: plain_step_def)
  show "registry_all (nest_ok 1) (st_functions recursive_state)"
    by (simp add: recursive_state_def registry_all_def entry_all_def script_entry_def plain_step_def)
  show "1 + (MAX_CALL_DEPTH - st_call_depth recursive_state) * 1 \<le> 65"
    by (simp add: recursive_state_def sample_state_def MAX_CALL_DEPTH_def)
qed simp

end
