(* ===== verification/Fuel_Independence.thy ===== *)
theory Fuel_Independence
  imports Termination
begin

text \<open>More fuel never changes a result: a run that ends without exhausting its fuel is the same
  run, state and result, at every larger fuel. Together with the bound of scripts
  without \<open>WHILE\<close> this makes the fuel an artefact of the model that no theorem depends on.\<close>

definition approx :: "('s \<Rightarrow> 's \<times> (exec_error + 'a)) \<Rightarrow> ('s \<Rightarrow> 's \<times> (exec_error + 'a)) \<Rightarrow> bool" where
  "approx m m' \<longleftrightarrow> (\<forall>s. clean (snd (m s)) \<longrightarrow> m' s = m s)"

definition refines :: "'w executor \<Rightarrow> 'w executor \<Rightarrow> bool" where
  "refines X Y \<longleftrightarrow> (\<forall>body wait. approx (X body wait) (Y body wait))"

lemma approx_refl: "approx m m"
  by (simp add: approx_def)

lemma approxI: "(\<And>s s' r. \<lbrakk>m s = (s', r); clean r\<rbrakk> \<Longrightarrow> m' s = (s', r)) \<Longrightarrow> approx m m'"
  unfolding approx_def by (metis prod.collapse)

lemma approxD: "\<lbrakk>approx m m'; m s = (s', r); clean r\<rbrakk> \<Longrightarrow> m' s = (s', r)"
  by (simp add: approx_def)

lemma approx_bind:
  assumes "approx m m'" "\<And>a. approx (f a) (g a)"
  shows "approx (bind_st m f) (bind_st m' g)"
proof (rule approxI)
  fix s s' r assume run: "bind_st m f s = (s', r)" and r: "clean r"
  obtain s1 q where m: "m s = (s1, q)" by fastforce
  show "bind_st m' g s = (s', r)"
  proof (cases q)
    case (Inl e)
    with run m r have "m' s = (s1, q)" using approxD [OF assms(1) m] by (auto simp: bind_st_def clean_def)
    with run m Inl show ?thesis by (simp add: bind_st_def)
  next
    case (Inr a)
    with run m have "f a s1 = (s', r)" by (simp add: bind_st_def)
    then have "g a s1 = (s', r)" using approxD [OF assms(2)] r by blast
    moreover have "m' s = (s1, q)" using approxD [OF assms(1) m] Inr by (simp add: clean_def)
    ultimately show ?thesis using Inr by (simp add: bind_st_def)
  qed
qed

lemma approx_case_option: "(\<And>x. approx (f x) (g x)) \<Longrightarrow> approx m m' \<Longrightarrow>
    approx (case c of None \<Rightarrow> m | Some x \<Rightarrow> f x) (case c of None \<Rightarrow> m' | Some x \<Rightarrow> g x)"
  by (simp split: option.split)

lemma approx_if: "\<lbrakk>c \<Longrightarrow> approx a a'; \<not> c \<Longrightarrow> approx b b'\<rbrakk> \<Longrightarrow> approx (if c then a else b) (if c then a' else b')"
  by simp

lemma map_st_step: "map_st f (x # xs) = bind_st (f x) (\<lambda>y. bind_st (map_st f xs) (\<lambda>ys. ret (y # ys)))"
  by (rule ext) (auto simp: bind_st_def ret_def split: prod.splits sum.splits)

lemma approx_map_st: "(\<And>x. x \<in> set xs \<Longrightarrow> approx (f x) (g x)) \<Longrightarrow> approx (map_st f xs) (map_st g xs)"
proof (induction xs)
  case Nil
  show ?case by (simp add: approx_def)
next
  case (Cons x xs)
  then show ?case unfolding map_st_step by (intro approx_bind approx_refl) simp_all
qed

lemma merge_pop_clean: "clean (merge_pop q p) \<Longrightarrow> clean q"
  by (cases q) (auto simp: merge_pop_def clean_def)

lemma approx_scoped: "approx m m' \<Longrightarrow> approx (scoped m) (scoped m')"
proof (rule approxI)
  fix s s' r assume m: "approx m m'" and run: "scoped m s = (s', r)" and r: "clean r"
  obtain s1 q p where run1: "m (push_scope s) = (s1, q)" "pop_scope s1 = (s', p)" "r = merge_pop q p"
    using run by (rule scoped_split)
  with approxD [OF m run1(1)] r merge_pop_clean have "m' (push_scope s) = (s1, q)" by blast
  with run1 show "scoped m' s = (s', r)" by (simp add: scoped_def)
qed

lemma approx_in_call: "approx m m' \<Longrightarrow> approx (in_call H owner m) (in_call H owner m')"
proof (rule approxI)
  fix s s' r assume m: "approx m m'" and run: "in_call H owner m s = (s', r)" and r: "clean r"
  obtain s1 q s2 p where run1: "m (enter_call H owner s) = (s1, q)" "pop_scope s1 = (s2, p)" "s' = leave_call s2"
    "r = merge_pop q p" using run by (rule in_call_split)
  with approxD [OF m run1(1)] r merge_pop_clean have "m' (enter_call H owner s) = (s1, q)" by blast
  with run1 show "in_call H owner m' s = (s', r)" by (simp add: in_call_def)
qed

lemma approx_iteration: "refines X Y \<Longrightarrow> approx (for_iteration X body bind) (for_iteration Y body bind)"
proof (rule approxI)
  fix s s' r assume XY: "refines X Y" and run: "for_iteration X body bind s = (s', r)" and r: "clean r"
  from run show "for_iteration Y body bind s = (s', r)"
  proof (cases rule: for_iteration_split)
    case (unbound e)
    then show ?thesis by (simp add: for_iteration_def)
  next
    case (bound s1 s2 q p)
    have "Y body False s1 = (s2, q)"
      using XY bound(2,4) r merge_pop_clean approxD by (metis refines_def)
    with bound show ?thesis by (simp add: for_iteration_def)
  qed
qed

lemma approx_block: "refines X Y \<Longrightarrow> approx (execute_scoped_steps X body wait) (execute_scoped_steps Y body wait)"
  by (simp add: execute_scoped_steps_def approx_scoped refines_def)

lemma approx_isolated: "refines X Y \<Longrightarrow> approx (isolated X body) (isolated Y body)"
proof (rule approxI)
  fix s s' r assume XY: "refines X Y" and run: "isolated X body s = (s', r)" and r: "clean r"
  obtain s1 where body: "execute_scoped_steps X body False
      (s\<lparr>st_isolated_stack := st_envs s # st_isolated_stack s, st_envs := st_seed s\<rparr>) = (s1, r)"
    using run by (auto simp: isolated_def split: prod.splits)
  from approxD [OF approx_block [OF XY] body r] body run show "isolated Y body s = (s', r)" by (simp add: isolated_def)
qed

lemma approx_timeout: "refines X Y \<Longrightarrow> approx (timeout H X d body) (timeout H Y d body)"
proof (rule approxI)
  fix s s' r assume XY: "refines X Y" and run: "timeout H X d body s = (s', r)" and r: "clean r"
  obtain s1 q where body: "execute_scoped_steps X body True
      (s\<lparr>st_cancellable := True, st_reap_floor := Some (st_next_task_id s)\<rparr>) = (s1, q)" by fastforce
  have "clean q" using run r body by (cases q) (auto simp: timeout_def Let_def clean_def split: if_splits)
  from approxD [OF approx_block [OF XY] body this] body run show "timeout H Y d body s = (s', r)"
    by (simp add: timeout_def)
qed

lemmas approx_intros = approx_bind approx_refl approx_if approx_map_st approx_scoped approx_block

section \<open>Expressions and steps\<close>

lemma approx_run_body: "refines X Y \<Longrightarrow> approx (run_body H X name entry vals) (run_body H Y name entry vals)"
  unfolding run_body_def call_script_def
  by (auto simp: refines_def split: func_body.split intro!: approx_in_call approx_bind approx_refl)

lemma approx_call_func:
  assumes "refines X Y" "approx args args'"
  shows "approx (call_func_value H X name n args) (call_func_value H Y name n args')"
proof -
  have "approx (bind_st args (run_body H X name entry)) (bind_st args' (run_body H Y name entry))" for entry
    using assms by (intro approx_bind approx_run_body)
  then show ?thesis unfolding approx_def call_func_value_def by (auto split: option.split sum.split)
qed

lemma approx_call_expr:
  assumes "refines X Y" "approx args args'"
  shows "approx (call_expr H X name n args) (call_expr H Y name n args')"
proof -
  have "approx (bind_st args (call_native H name meta)) (bind_st args' (call_native H name meta))" for meta
    using assms by (intro approx_bind approx_refl)
  with approx_call_func [OF assms] show ?thesis
    unfolding approx_def call_expr_def by (auto split: option.split sum.split)
qed

lemma approx_expr:
  fixes Hd :: "'w host" and Z :: "'w executor"
  assumes XY: "refines X Y"
  shows "approx (evaluate_expr H X e) (evaluate_expr H Y e)"
proof (induction Hd Z e rule: evaluate_expr.induct)
  case (7 Hd Z body)
  have "approx (X body False) (Y body False)" using XY by (simp add: refines_def)
  then show ?case unfolding evaluate_expr.simps block_value_def by (intro approx_scoped approx_bind approx_refl)
next
  case (8 Hd Z name args)
  then show ?case unfolding evaluate_expr.simps by (intro approx_call_expr XY approx_map_st)
next
  case (15 Hd Z op l r)
  have "approx (evaluate_expr H X r) (evaluate_expr H Y r)" using 15(2) [of "op = LAnd"] by simp
  with 15(1) show ?case unfolding evaluate_expr.simps by (intro approx_bind approx_if approx_refl)
qed (auto intro!: approx_intros)

lemma approx_part: "refines X Y \<Longrightarrow> approx (resolve_part H X p) (resolve_part H Y p)"
  by (cases p) (auto intro!: approx_bind approx_refl approx_expr)

lemma approx_arg: "refines X Y \<Longrightarrow> approx (resolve_arg H X a) (resolve_arg H Y a)"
  by (cases a) (auto intro!: approx_bind approx_refl approx_expr approx_map_st approx_part)

lemma approx_operand: "refines X Y \<Longrightarrow> approx (evaluate_assert_operand H X a) (evaluate_assert_operand H Y a)"
  by (cases a) (auto simp del: resolve_arg.simps intro!: approx_bind approx_refl approx_expr approx_arg)

lemma approx_condition: "refines X Y \<Longrightarrow> approx (condition H X c) (condition H Y c)"
  unfolding condition_def by (intro approx_bind approx_refl approx_expr)

lemma approx_if_chain: "refines X Y \<Longrightarrow> approx (if_chain H X branches el) (if_chain H Y branches el)"
proof (induction branches)
  case Nil
  then show ?case by (auto simp: approx_refl approx_block split: option.split)
next
  case (Cons b branches)
  then show ?case by (cases b) (auto intro!: approx_bind approx_if approx_condition approx_block)
qed

lemma approx_after:
  "approx m m' \<Longrightarrow> approx (case after_iteration fl of None \<Rightarrow> m | Some fl' \<Rightarrow> ret fl')
     (case after_iteration fl of None \<Rightarrow> m' | Some fl' \<Rightarrow> ret fl')"
  by (simp add: approx_refl split: option.split)

lemma approx_while:
  assumes "refines X Y"
  shows "n \<le> m \<Longrightarrow> approx (while_loop H X n c body) (while_loop H Y m c body)"
proof (induction n arbitrary: m)
  case 0
  show ?case by (simp add: approx_def clean_def)
next
  case (Suc n)
  then obtain j where m: "m = Suc j" and j: "n \<le> j" by (cases m) auto
  have "approx (bind_st (condition H X c) (\<lambda>t. if \<not> t then ret Done
      else bind_st (execute_scoped_steps X body False)
        (\<lambda>fl. case after_iteration fl of None \<Rightarrow> while_loop H X n c body | Some fl' \<Rightarrow> ret fl')))
    (bind_st (condition H Y c) (\<lambda>t. if \<not> t then ret Done
      else bind_st (execute_scoped_steps Y body False)
        (\<lambda>fl. case after_iteration fl of None \<Rightarrow> while_loop H Y j c body | Some fl' \<Rightarrow> ret fl')))"
    using assms j by (intro approx_bind approx_if approx_refl approx_condition approx_block approx_after Suc.IH)
  then show ?case unfolding m by (simp add: approx_def)
qed

lemma approx_for_each: "refines X Y \<Longrightarrow> approx (for_each X body binds) (for_each Y body binds)"
  by (induction binds) (auto intro!: approx_bind approx_refl approx_after approx_iteration)

lemma approx_for:
  "refines X Y \<Longrightarrow> approx (for_loop H X kv kt var ty e body) (for_loop H Y kv kt var ty e body)"
  unfolding for_loop_def
  by (intro approx_bind approx_expr approx_refl)
    (auto simp: approx_refl split: option.split intro!: approx_bind approx_refl approx_for_each)

lemma approx_finish: "approx m m' \<Longrightarrow> approx (finish_step m) (finish_step m')"
  unfolding finish_step_def by (intro approx_bind approx_refl)

lemma approx_capture:
  assumes "refines X Y" "approx run run'"
  shows "approx (assign_capture H X run var ty k) (assign_capture H Y run' var ty k)"
proof -
  have call: "approx (call_func_value H X name n (map_st (evaluate_expr H X) args))
      (call_func_value H Y name n (map_st (evaluate_expr H Y) args))" for name n args
    using assms(1) by (intro approx_call_func approx_map_st approx_expr)
  show ?thesis unfolding assign_capture_def
    by (intro approx_bind approx_refl)
      (auto split: option.split intro!: approx_bind approx_refl approx_if call assms(2))
qed

lemma approx_kind:
  fixes Hd :: "'w host" and Z :: "'w executor"
  assumes XY: "refines X Y"
  shows "n \<le> m \<Longrightarrow> approx (execute_kind H X n idx k) (execute_kind H Y m idx k)"
proof (induction Hd Z n idx k rule: execute_kind.induct)
  case (8 Hd Z n idx c then_body else_ifs else_body)
  then show ?case using XY by (simp add: if_then_def approx_if_chain del: if_chain.simps)
next
  case (12 Hd Z n idx var ty k)
  then show ?case using XY by (simp add: approx_finish approx_capture)
qed (use XY in \<open>auto simp: assign_def set_var_value_def push_into_def env_step_def exit_step_def leaf_command_def
    resolve_arg_as_int_def resolve_arg_as_duration_def approx_while approx_for approx_isolated approx_timeout
    intro!: approx_finish approx_bind approx_refl approx_call_func approx_map_st approx_expr approx_operand approx_arg
      approx_timeout\<close>)

lemma approx_step:
  assumes "refines X Y" "n \<le> m"
  shows "approx (execute_step H X n idx stp) (execute_step H Y m idx stp)"
proof (rule approxI)
  fix s s' r assume run: "execute_step H X n idx stp s = (s', r)" and r: "clean r"
  define s1 where "s1 = (push_scope ^^ scope_enter stp) s"
  show "execute_step H Y m idx stp s = (s', r)"
  proof (cases "guard_option_allows (h_platform H) (st_envs s1) (step_guard stp)")
    case True
    obtain s2 q where q: "execute_kind H X n idx (step.kind stp) s1 = (s2, q)" by fastforce
    obtain s3 p where p: "restore_scopes (scope_exit stp) s2 = (s3, p)" by fastforce
    from run True q p have res: "s' = s3" "r = merge_pop q p" by (simp_all add: execute_step_def s1_def)
    then have "clean q" using r merge_pop_clean by blast
    from approxD [OF approx_kind [OF assms] q this] True p res show ?thesis by (simp add: execute_step_def s1_def)
  next
    case False
    with run show ?thesis by (simp add: execute_step_def s1_def)
  qed
qed

lemma approx_step_loop:
  assumes "refines X Y" "n \<le> m"
  shows "approx (step_loop H X n idx steps) (step_loop H Y m idx steps)"
proof (induction steps arbitrary: idx)
  case Nil
  show ?case by (simp add: approx_def)
next
  case (Cons stp rest)
  have "approx (bind_st (execute_step H X n idx stp) (\<lambda>fl. if fl = Done then step_loop H X n (Suc idx) rest else ret fl))
      (bind_st (execute_step H Y m idx stp) (\<lambda>fl. if fl = Done then step_loop H Y m (Suc idx) rest else ret fl))"
    by (intro approx_bind approx_if approx_refl approx_step assms Cons.IH)
  then show ?case by (simp add: approx_def)
qed

lemma approx_execute_steps:
  assumes "refines X Y" "n \<le> m"
  shows "approx (execute_steps H X n steps wait) (execute_steps H Y m steps wait)"
proof (rule approxI)
  fix s s' r assume run: "execute_steps H X n steps wait s = (s', r)" and r: "clean r"
  have inner: "approx (execute_steps_inner H X n steps wait) (execute_steps_inner H Y m steps wait)"
    unfolding execute_steps_inner_def by (intro approx_bind approx_refl approx_step_loop assms)
  obtain s1 q where q: "execute_steps_inner H X n steps wait s = (s1, q)" by fastforce
  have "clean q" using run r q by (cases q) (auto simp: execute_steps_def clean_def)
  from approxD [OF inner q this] run q show "execute_steps H Y m steps wait s = (s', r)" by (simp add: execute_steps_def)
qed

lemma exec_refines: "n \<le> m \<Longrightarrow> refines (exec H n) (exec H m)"
proof (induction n arbitrary: m)
  case 0
  show ?case by (simp add: refines_def approx_def clean_def)
next
  case (Suc n)
  then obtain j where m: "m = Suc j" and j: "n \<le> j" by (cases m) auto
  from approx_execute_steps [OF Suc.IH [OF j] j] show ?case by (simp add: refines_def m)
qed

text \<open>A run that ends without exhausting its fuel is the same run at every larger fuel, in state and
  result, for scripts of any shape.\<close>

theorem fuel_independence:
  assumes "snd (exec H n steps wait s) \<noteq> Err OutOfFuel" "n \<le> m"
  shows "exec H m steps wait s = exec H n steps wait s"
  using exec_refines [OF assms(2), of H] assms(1) by (simp add: refines_def approx_def clean_def)

theorem fuel_independence_witness:
  "exec sample_host 100 sample_script True (sample_state [[]]) = exec sample_host 4 sample_script True (sample_state [[]])"
proof (rule fuel_independence)
  have "is_ok (snd (exec sample_host 4 sample_script True (sample_state [[]])))" by code_simp
  then show "snd (exec sample_host 4 sample_script True (sample_state [[]])) \<noteq> Err OutOfFuel"
    by (cases "snd (exec sample_host 4 sample_script True (sample_state [[]]))") simp_all
qed simp

end
