(* ===== verification/Host_Fs.thy ===== *)
theory Host_Fs
  imports Prelude
begin

text \<open>
  What the workspace file system of OxDock uses of the standard library and of the host:
  paths as \<open>std::path\<close> sees them (a list of components, which is also what comparison,
  \<open>starts_with\<close> and \<open>parent\<close> are defined on) and a POSIX file system with directories,
  files and symbolic links, addressed by the list of names from the root. Path resolution
  follows links and gives up after \<open>max_links\<close> of them, as the kernel does. Permissions,
  other kinds of files and trailing separators are left out.
\<close>

section \<open>Paths\<close>

datatype component = RootDir | CurDir | ParentDir | Normal string

type_synonym path = "component list"
type_synonym names = "string list"

definition segment :: "string \<Rightarrow> path" where
  "segment s =
     (if s = [] then [] else if s = ''.'' then [CurDir] else if s = ''..'' then [ParentDir]
      else [Normal s])"

text \<open>\<open>Path::new(s).components()\<close>: repeated separators and inner dots vanish, a leading dot
  of a relative path stays.\<close>

definition path_of :: "string \<Rightarrow> path" where
  "path_of s =
     (let segs = split_on CHR ''/'' s;
          body = filter (\<lambda>c. c \<noteq> CurDir) (concat (map segment segs)) in
      if s \<noteq> [] \<and> hd s = CHR ''/'' then RootDir # body
      else if hd segs = ''.'' then CurDir # body else body)"

definition is_absolute :: "path \<Rightarrow> bool" where
  "is_absolute p \<longleftrightarrow> p \<noteq> [] \<and> hd p = RootDir"

definition path_join :: "path \<Rightarrow> path \<Rightarrow> path" where
  "path_join p q =
     (if is_absolute q then q else if p = [] then q else p @ filter (\<lambda>c. c \<noteq> CurDir) q)"

definition path_parent :: "path \<Rightarrow> path option" where
  "path_parent p = (if p = [] \<or> last p = RootDir then None else Some (butlast p))"

definition file_name :: "path \<Rightarrow> string option" where
  "file_name p = (if p = [] then None else case last p of Normal n \<Rightarrow> Some n | _ \<Rightarrow> None)"

abbreviation starts_with :: "path \<Rightarrow> path \<Rightarrow> bool" where
  "starts_with p q \<equiv> prefix q p"

text \<open>The path of a canonical name.\<close>

definition abs_path :: "names \<Rightarrow> path" where
  "abs_path ns = RootDir # map Normal ns"

lemma abs_path_inject [simp]: "abs_path a = abs_path b \<longleftrightarrow> a = b"
proof -
  have "inj Normal" by (simp add: inj_def)
  then show ?thesis by (simp add: abs_path_def inj_map_eq_map)
qed

lemma abs_path_prefix [simp]: "prefix (abs_path a) (abs_path b) \<longleftrightarrow> prefix a b"
proof
  assume "prefix (abs_path a) (abs_path b)"
  then obtain c where b: "map Normal b = map Normal a @ c"
    by (auto simp: abs_path_def prefix_def)
  then obtain b1 b2 where "b = b1 @ b2" "map Normal a = map Normal b1"
    by (auto simp: map_eq_append_conv)
  moreover have "inj Normal" by (simp add: inj_def)
  ultimately show "prefix a b" by (simp add: inj_map_eq_map)
qed (auto simp: abs_path_def prefix_def)

lemma abs_path_absolute [simp]: "is_absolute (abs_path ns)"
  by (simp add: is_absolute_def abs_path_def)

lemma abs_path_nonempty [simp]: "abs_path ns \<noteq> []"
  by (simp add: abs_path_def)

lemma abs_path_Nil: "abs_path [] = [RootDir]"
  by (simp add: abs_path_def)

lemma abs_path_snoc: "abs_path (ns @ [n]) = abs_path ns @ [Normal n]"
  by (simp add: abs_path_def)

lemma parent_abs_path: "path_parent (abs_path ns) = (if ns = [] then None else Some (abs_path (butlast ns)))"
  by (cases ns rule: rev_cases) (simp_all add: path_parent_def abs_path_Nil abs_path_snoc)

lemma parent_shorter: "path_parent p = Some q \<Longrightarrow> length q < length p"
  by (cases p rule: rev_cases) (auto simp: path_parent_def split: if_splits)

lemma join_Normal [simp]: "path_join (abs_path ns) [Normal n] = abs_path (ns @ [n])"
  by (simp add: path_join_def is_absolute_def abs_path_snoc)

section \<open>Nodes and resolution\<close>

datatype node = Dir | File "byte list" | Link path

datatype access_mode = Read | Write

datatype fs_error =
    NotFound | NotADirectory | AlreadyExists | TooManyLinks | IsADirectory | NotEmpty | InvalidInput
  | Escapes access_mode path path | SnapshotPending | CwdOutsideSnapshot | NoWorkspaceRoot | SnapshotRequired
  | SourceMissing path | WorkdirNotDirectory path | CacheFailed | NoParent | NoFileName
  | RefusesSymlink path | RefusesParent | NotRegular path | SliceOutOfRange

type_synonym nodes = "names \<Rightarrow> node option"

record vfs =
  nodes :: nodes
  process_cwd :: names

definition max_links :: nat where "max_links = 40"

text \<open>Resolution of a path by the kernel from a directory, following every link. With the
  creation flag (\<open>O_CREAT\<close>) a missing last name is allowed, also at the end of a link.\<close>

function walk :: "bool \<Rightarrow> nat \<Rightarrow> nodes \<Rightarrow> names \<Rightarrow> path \<Rightarrow> fs_error + names" where
  "walk cr k F cur [] = Ok cur"
| "walk cr k F cur (RootDir # cs) = walk cr k F [] cs"
| "walk cr k F cur (CurDir # cs) = (if F cur = Some Dir then walk cr k F cur cs else Err NotADirectory)"
| "walk cr k F cur (ParentDir # cs) =
     (if F cur = Some Dir then walk cr k F (butlast cur) cs else Err NotADirectory)"
| "walk cr k F cur (Normal n # cs) =
     (if F cur \<noteq> Some Dir then Err NotADirectory
      else (case F (cur @ [n]) of
          None \<Rightarrow> if cr \<and> cs = [] then Ok (cur @ [n]) else Err NotFound
        | Some (Link t) \<Rightarrow>
            (case k of 0 \<Rightarrow> Err TooManyLinks | Suc k' \<Rightarrow> walk cr k' F cur (t @ cs))
        | Some _ \<Rightarrow> walk cr k F (cur @ [n]) cs))"
  by pat_completeness auto
termination
  by (relation "inv_image (less_than <*lex*> less_than) (\<lambda>(cr, k, F, cur, cs). (k, length cs))") auto

definition canonicalize :: "vfs \<Rightarrow> path \<Rightarrow> fs_error + names" where
  "canonicalize fs p = (if p = [] then Err NotFound else walk False max_links (nodes fs) (process_cwd fs) p)"

definition path_exists :: "vfs \<Rightarrow> path \<Rightarrow> bool" where
  "path_exists fs p = is_ok (canonicalize fs p)"

definition metadata :: "vfs \<Rightarrow> path \<Rightarrow> fs_error + node" where
  "metadata fs p =
     (case canonicalize fs p of
        Inl e \<Rightarrow> Err e
      | Inr ns \<Rightarrow> (case nodes fs ns of None \<Rightarrow> Err NotFound | Some x \<Rightarrow> Ok x))"

definition is_dir :: "vfs \<Rightarrow> path \<Rightarrow> bool" where
  "is_dir fs p \<longleftrightarrow> metadata fs p = Ok Dir"

text \<open>The directory and name a path denotes when its last name is not followed
  (\<open>None\<close> for paths that end in the root or in dots, which denote directories).\<close>

definition place :: "vfs \<Rightarrow> path \<Rightarrow> fs_error + names option" where
  "place fs p =
     (case file_name p of
        None \<Rightarrow> (case canonicalize fs p of Inl e \<Rightarrow> Err e | Inr _ \<Rightarrow> Ok None)
      | Some n \<Rightarrow>
          (case walk False max_links (nodes fs) (process_cwd fs) (butlast p) of
             Inl e \<Rightarrow> Err e
           | Inr d \<Rightarrow> if nodes fs d = Some Dir then Ok (Some (d @ [n])) else Err NotADirectory))"

definition symlink_metadata :: "vfs \<Rightarrow> path \<Rightarrow> fs_error + node" where
  "symlink_metadata fs p =
     (case place fs p of
        Inl e \<Rightarrow> Err e
      | Inr None \<Rightarrow> metadata fs p
      | Inr (Some ns) \<Rightarrow> (case nodes fs ns of None \<Rightarrow> Err NotFound | Some x \<Rightarrow> Ok x))"

section \<open>Operations\<close>

definition put :: "vfs \<Rightarrow> names \<Rightarrow> node option \<Rightarrow> vfs" where
  "put fs ns x = fs\<lparr>nodes := (nodes fs)(ns := x)\<rparr>"

definition mkdir :: "vfs \<Rightarrow> path \<Rightarrow> vfs \<times> (fs_error + unit)" where
  "mkdir fs p =
     (case place fs p of
        Inl e \<Rightarrow> (fs, Err e)
      | Inr None \<Rightarrow> (fs, Err AlreadyExists)
      | Inr (Some ns) \<Rightarrow>
          (case nodes fs ns of
             None \<Rightarrow> (put fs ns (Some Dir), Ok ())
           | Some _ \<Rightarrow> (fs, Err AlreadyExists)))"

text \<open>\<open>fs::create_dir_all\<close>.\<close>

function create_dir_all :: "vfs \<Rightarrow> path \<Rightarrow> vfs \<times> (fs_error + unit)" where
  "create_dir_all fs p =
     (if p = [] then (fs, Ok ())
      else (case mkdir fs p of
          (fs1, Inr u) \<Rightarrow> (fs1, Ok ())
        | (fs1, Inl e) \<Rightarrow>
            if e = NotFound then
              (case path_parent p of
                 None \<Rightarrow> (fs1, Err NotFound)
               | Some q \<Rightarrow>
                   (case create_dir_all fs1 q of
                      (fs2, Inl e2) \<Rightarrow> (fs2, Err e2)
                    | (fs2, Inr u) \<Rightarrow>
                        (case mkdir fs2 p of
                           (fs3, Inr u) \<Rightarrow> (fs3, Ok ())
                         | (fs3, Inl e3) \<Rightarrow> (fs3, if is_dir fs3 p then Ok () else Err e3))))
            else (fs1, if is_dir fs1 p then Ok () else Err e)))"
  by pat_completeness auto
termination
  by (relation "measure (\<lambda>(fs, p). length p)") (auto dest: parent_shorter)

declare create_dir_all.simps [simp del]

definition fs_read :: "vfs \<Rightarrow> path \<Rightarrow> fs_error + byte list" where
  "fs_read fs p =
     (case metadata fs p of
        Inl e \<Rightarrow> Err e
      | Inr (File bs) \<Rightarrow> Ok bs
      | Inr _ \<Rightarrow> Err IsADirectory)"

text \<open>Opening for writing with \<open>O_CREAT\<close> follows links also at the end, so a dangling
  link creates its target. The content becomes a function of the old one: \<open>fs::write\<close>
  replaces it, an append adds to it.\<close>

definition fs_update :: "vfs \<Rightarrow> path \<Rightarrow> (byte list \<Rightarrow> byte list) \<Rightarrow> vfs \<times> (fs_error + unit)" where
  "fs_update fs p f =
     (if p = [] then (fs, Err NotFound)
      else (case walk True max_links (nodes fs) (process_cwd fs) p of
          Inl e \<Rightarrow> (fs, Err e)
        | Inr ns \<Rightarrow>
            (case nodes fs ns of
               None \<Rightarrow> (put fs ns (Some (File (f []))), Ok ())
             | Some (File old) \<Rightarrow> (put fs ns (Some (File (f old))), Ok ())
             | Some _ \<Rightarrow> (fs, Err IsADirectory))))"

text \<open>\<open>fs::copy\<close> checks that the source is a file, empties the target and then copies, so
  a file copied onto itself ends up empty.\<close>

definition fs_copy :: "vfs \<Rightarrow> path \<Rightarrow> path \<Rightarrow> vfs \<times> (fs_error + nat)" where
  "fs_copy fs p q =
     (case metadata fs p of
        Inr (File _) \<Rightarrow>
          (case fs_update fs q (\<lambda>_. []) of
             (fs1, Inl e) \<Rightarrow> (fs1, Err e)
           | (fs1, Inr _) \<Rightarrow>
               (case fs_read fs1 p of
                  Inl e \<Rightarrow> (fs1, Err e)
                | Inr bs \<Rightarrow>
                    (case fs_update fs1 q (\<lambda>_. bs) of
                       (fs2, Inl e) \<Rightarrow> (fs2, Err e)
                     | (fs2, Inr _) \<Rightarrow> (fs2, Ok (length bs)))))
      | Inr _ \<Rightarrow> (fs, Err InvalidInput)
      | Inl e \<Rightarrow> (fs, Err e))"

definition unlink :: "vfs \<Rightarrow> path \<Rightarrow> vfs \<times> (fs_error + unit)" where
  "unlink fs p =
     (case place fs p of
        Inl e \<Rightarrow> (fs, Err e)
      | Inr None \<Rightarrow> (fs, Err IsADirectory)
      | Inr (Some ns) \<Rightarrow>
          (case nodes fs ns of
             None \<Rightarrow> (fs, Err NotFound)
           | Some Dir \<Rightarrow> (fs, Err IsADirectory)
           | Some _ \<Rightarrow> (put fs ns None, Ok ())))"

definition prune :: "vfs \<Rightarrow> names \<Rightarrow> vfs" where
  "prune fs ns = fs\<lparr>nodes := (\<lambda>q. if prefix ns q then None else nodes fs q)\<rparr>"

text \<open>\<open>fs::remove_dir_all\<close> deletes a directory with its contents and a link only itself.\<close>

definition fs_remove_dir_all :: "vfs \<Rightarrow> path \<Rightarrow> vfs \<times> (fs_error + unit)" where
  "fs_remove_dir_all fs p =
     (case place fs p of
        Inl e \<Rightarrow> (fs, Err e)
      | Inr None \<Rightarrow> (fs, Err InvalidInput)
      | Inr (Some ns) \<Rightarrow>
          (case nodes fs ns of
             None \<Rightarrow> (fs, Err NotFound)
           | Some Dir \<Rightarrow> (prune fs ns, Ok ())
           | Some (Link t) \<Rightarrow> (put fs ns None, Ok ())
           | Some (File bs) \<Rightarrow> (fs, Err NotADirectory)))"

section \<open>Well-formed file systems\<close>

definition wf_nodes :: "nodes \<Rightarrow> bool" where
  "wf_nodes F \<longleftrightarrow> F [] = Some Dir \<and> (\<forall>p n. F (p @ [n]) \<noteq> None \<longrightarrow> F p = Some Dir)"

definition wf_fs :: "vfs \<Rightarrow> bool" where
  "wf_fs fs \<longleftrightarrow> wf_nodes (nodes fs) \<and> nodes fs (process_cwd fs) = Some Dir"

text \<open>A canonical name: it is there and is not a link.\<close>

definition canonical :: "nodes \<Rightarrow> names \<Rightarrow> bool" where
  "canonical F ns \<longleftrightarrow> F ns \<noteq> None \<and> (\<forall>t. F ns \<noteq> Some (Link t))"

lemma wf_nodes_root [simp]: "wf_nodes F \<Longrightarrow> F [] = Some Dir"
  by (simp add: wf_nodes_def)

lemma wf_nodes_parent: "\<lbrakk>wf_nodes F; F (p @ [n]) \<noteq> None\<rbrakk> \<Longrightarrow> F p = Some Dir"
  by (auto simp: wf_nodes_def)

lemma wf_nodes_above: "\<lbrakk>wf_nodes F; F (p @ q) \<noteq> None; q \<noteq> []\<rbrakk> \<Longrightarrow> F p = Some Dir"
proof (induction q rule: rev_induct)
  case (snoc n q)
  then have d: "F (p @ q) = Some Dir" using wf_nodes_parent [of F "p @ q" n] by simp
  show ?case
  proof (cases "q = []")
    case False
    with snoc.IH snoc.prems(1) d show ?thesis by simp
  qed (use d in simp)
qed simp

lemma wf_nodes_below_missing: "\<lbrakk>wf_nodes F; F p = None\<rbrakk> \<Longrightarrow> F (p @ q) = None"
  by (metis append_Nil2 option.distinct(1) wf_nodes_above)

lemma wf_nodes_butlast: "\<lbrakk>wf_nodes F; F p = Some Dir\<rbrakk> \<Longrightarrow> F (butlast p) = Some Dir"
  using wf_nodes_parent by (cases p rule: rev_cases) auto

lemma wf_nodes_map_of:
  assumes "map_of l [] = Some Dir"
    and "\<forall>(q, x) \<in> set l. q = [] \<or> map_of l (butlast q) = Some Dir"
  shows "wf_nodes (map_of l)"
  unfolding wf_nodes_def
proof (intro conjI allI impI)
  fix p n assume "map_of l (p @ [n]) \<noteq> None"
  then obtain x where "map_of l (p @ [n]) = Some x" by auto
  then have "(p @ [n], x) \<in> set l" by (rule map_of_SomeD)
  with assms(2) show "map_of l p = Some Dir" by fastforce
qed (use assms(1) in simp)

lemma wf_nodes_put_new:
  assumes "wf_nodes F" and "F p = Some Dir" and "F (p @ [n]) = None"
  shows "wf_nodes (F(p @ [n] := Some x))"
  unfolding wf_nodes_def
proof (intro conjI allI impI)
  fix q m assume "(F(p @ [n] := Some x)) (q @ [m]) \<noteq> None"
  then have "q @ [m] = p @ [n] \<or> F (q @ [m]) \<noteq> None" by (simp split: if_splits)
  then have "F q = Some Dir" using assms wf_nodes_parent by auto
  with assms(3) show "(F(p @ [n] := Some x)) q = Some Dir" by auto
qed (use assms(1) in simp)

lemma wf_nodes_put_file:
  assumes "wf_nodes F" and "F p = Some (File a)"
  shows "wf_nodes (F(p := Some (File b)))"
  unfolding wf_nodes_def
proof (intro conjI allI impI)
  fix q m assume "(F(p := Some (File b))) (q @ [m]) \<noteq> None"
  then have "F (q @ [m]) \<noteq> None" using assms(2) by (auto split: if_splits)
  then have "F q = Some Dir" using assms(1) wf_nodes_parent by auto
  with assms(2) show "(F(p := Some (File b))) q = Some Dir" by auto
qed (use assms in \<open>auto dest: wf_nodes_root\<close>)

section \<open>Facts on resolution\<close>

lemma canonical_Dir: "F ns = Some Dir \<Longrightarrow> canonical F ns"
  by (simp add: canonical_def)

lemma canonical_above: "\<lbrakk>wf_nodes F; canonical F (p @ q); q \<noteq> []\<rbrakk> \<Longrightarrow> F p = Some Dir"
  by (auto simp: canonical_def intro: wf_nodes_above)

text \<open>What resolution returns is canonical.\<close>

lemma walk_canonical:
  "\<lbrakk>walk False k F cur cs = Ok r; wf_nodes F; canonical F cur\<rbrakk> \<Longrightarrow> canonical F r"
proof (induction "False" k F cur cs rule: walk.induct)
  case (4 k F cur cs)
  then show ?case by (auto split: if_splits intro: canonical_Dir wf_nodes_butlast)
next
  case (5 k F cur n cs)
  from 5 show ?case
    by (fastforce simp: canonical_def split: if_splits option.splits node.splits nat.splits)
next
  case (2 k F cur cs)
  then show ?case by (simp add: canonical_Dir)
qed (auto split: if_splits)

text \<open>Canonical names resolve to themselves, whatever the fuel.\<close>

lemma walk_names:
  assumes "wf_nodes F" and "canonical F (a @ b)"
  shows "walk cr k F a (map Normal b @ cs) = walk cr k F (a @ b) cs"
  using assms(2)
proof (induction b arbitrary: a)
  case (Cons n b)
  have dir: "F a = Some Dir" using canonical_above [OF assms(1) Cons.prems] by simp
  have "F (a @ [n]) = Some Dir \<or> (\<exists>x. b = [] \<and> F (a @ [n]) = Some (File x))"
  proof (cases "b = []")
    case True
    with Cons.prems show ?thesis by (cases "F (a @ [n])") (auto simp: canonical_def split: node.splits, metis node.exhaust)
  next
    case False
    with Cons.prems canonical_above [OF assms(1), of "a @ [n]" b] show ?thesis by simp
  qed
  then show ?case using dir Cons.IH [of "a @ [n]"] Cons.prems by auto
qed simp

lemma walk_abs_path:
  "\<lbrakk>wf_nodes F; canonical F ns\<rbrakk> \<Longrightarrow> walk cr k F cur (abs_path ns @ cs) = walk cr k F ns cs"
  using walk_names [of F "[]" ns] by (simp add: abs_path_def)

lemma walk_abs_path_self:
  "\<lbrakk>wf_nodes F; canonical F ns\<rbrakk> \<Longrightarrow> walk cr k F cur (abs_path ns) = Ok ns"
  using walk_abs_path [of F ns cr k cur "[]"] by simp

text \<open>Resolution of a prefix is a stage of the resolution of the whole.\<close>

lemma walk_stage:
  "walk False k F cur xs = Ok r \<Longrightarrow> \<exists>k' \<le> k. \<forall>cr ys. walk cr k F cur (xs @ ys) = walk cr k' F r ys"
proof (induction "False" k F cur xs rule: walk.induct)
  case (5 k F cur n cs)
  show ?case
  proof (cases "F (cur @ [n])")
    case None
    with 5 show ?thesis by (auto split: if_splits)
  next
    case (Some x)
    then show ?thesis
    proof (cases x)
      case (Link t)
      with 5 Some obtain k1 where k: "k = Suc k1" and w: "walk False k1 F cur (t @ cs) = Ok r"
        and d: "F cur = Some Dir"
        by (auto split: if_splits nat.splits)
      with 5(1) Some Link obtain k' where "k' \<le> k1"
        "\<forall>cr ys. walk cr k1 F cur (t @ cs @ ys) = walk cr k' F r ys"
        using 5(3) [OF _ Some Link k] d w by auto
      with k Some Link d show ?thesis by (intro exI [where x = k']) simp
    next
      case Dir
      with 5 Some show ?thesis by (simp split: if_splits)
    next
      case (File bs)
      with 5 Some show ?thesis by (simp split: if_splits)
    qed
  qed
qed (auto split: if_splits)

lemma walk_append:
  "walk False k F cur xs = Ok r \<Longrightarrow> \<exists>k' \<le> k. \<forall>ys. walk False k F cur (xs @ ys) = walk False k' F r ys"
  using walk_stage by blast

text \<open>What resolves still resolves, to the same name, when nodes are added.\<close>

lemma walk_grow:
  "walk False k F cur cs = Ok r \<Longrightarrow> \<forall>q. F q \<noteq> None \<longrightarrow> F' q = F q \<Longrightarrow> walk False k F' cur cs = Ok r"
proof (induction "False" k F cur cs rule: walk.induct)
  case (5 k F cur n cs)
  have dir: "F cur = Some Dir" and "F (cur @ [n]) \<noteq> None"
    using 5(4) by (auto split: if_splits option.splits)
  then have same: "F' cur = Some Dir" "F' (cur @ [n]) = F (cur @ [n])" and "\<exists>x. F (cur @ [n]) = Some x"
    using 5(5) by auto
  then obtain x where x: "F (cur @ [n]) = Some x" by blast
  show ?case
  proof (cases x)
    case Dir
    with 5(1) [OF _ x Dir] 5(4,5) dir same x show ?thesis by simp
  next
    case (File bs)
    with 5(2) [OF _ x File] 5(4,5) dir same x show ?thesis by simp
  next
    case (Link t)
    from 5(4) dir x Link obtain k1 where k: "k = Suc k1" by (cases k) auto
    with 5(3) [OF _ x Link k] 5(4,5) dir same x Link show ?thesis by simp
  qed
qed (auto split: if_splits)

lemma walk_append_Err:
  "walk False k F cur xs = Err e \<Longrightarrow> walk False k F cur (xs @ ys) = Err e"
proof (induction "False" k F cur xs rule: walk.induct)
  case (5 k F cur n cs)
  then show ?case
    by (auto split: if_splits option.splits node.splits nat.splits)
qed (auto split: if_splits)

text \<open>More fuel changes nothing but the verdict that there were too many links.\<close>

lemma walk_fuel_mono:
  "\<lbrakk>walk cr k F cur cs = r; r \<noteq> Err TooManyLinks; k \<le> k'\<rbrakk> \<Longrightarrow> walk cr k' F cur cs = r"
proof (induction cr k F cur cs arbitrary: k' rule: walk.induct)
  case (5 cr k F cur n cs)
  show ?case
  proof (cases "F cur = Some Dir")
    case dir: True
    show ?thesis
    proof (cases "F (cur @ [n])")
      case None
      with 5(4) dir show ?thesis by simp
    next
      case (Some x)
      show ?thesis
      proof (cases x)
        case Dir
        with 5(1) [OF _ Some Dir] 5(4-6) dir Some show ?thesis by simp
      next
        case (File bs)
        with 5(2) [OF _ Some File] 5(4-6) dir Some show ?thesis by simp
      next
        case (Link t)
        from 5(4,5) dir Some Link obtain k1 where k: "k = Suc k1" by (cases k) auto
        with 5(6) obtain k2 where k': "k' = Suc k2" "k1 \<le> k2" by (cases k') auto
        with 5(3) [OF _ Some Link k, of k2] 5(4,5) dir Some Link k show ?thesis by simp
      qed
    qed
  qed (use 5 in simp)
next
  case (2 cr k F cur cs)
  from 2(1) [of k'] 2(2-4) show ?case by simp
next
  case (3 cr k F cur cs)
  from 3(1) [of k'] 3(2-4) show ?case by (simp split: if_splits)
next
  case (4 cr k F cur cs)
  from 4(1) [of k'] 4(2-4) show ?case by (simp split: if_splits)
qed simp

end
