(* ===== verification/Workspace_Guard.thy ===== *)
theory Workspace_Guard
  imports Host_Fs
begin

text \<open>
  The path guard of the workspace file system (\<open>oxdock-fs\<close>, \<open>workspace_fs/access.rs\<close>,
  \<open>path.rs\<close> and the lexical helpers of \<open>cache.rs\<close>): guarded paths, the containment check
  that also admits paths not yet there, and the lexical normalization used when the whole
  host is opened up. Proved here: what the guard accepts, how it normalizes, and that the
  lexical normalization agrees with the kernel on file systems without links.
\<close>

section \<open>Guarded paths\<close>

record guarded_path =
  gp_root :: path
  gp_path :: path

definition from_guarded_parts :: "path \<Rightarrow> path \<Rightarrow> guarded_path" where
  "from_guarded_parts r p = \<lparr>gp_root = r, gp_path = p\<rparr>"

lemma from_guarded_parts_simps [simp]:
  "gp_root (from_guarded_parts r p) = r" "gp_path (from_guarded_parts r p) = p"
  by (simp_all add: from_guarded_parts_def)

section \<open>Lexical helpers\<close>

text \<open>\<open>root_relative_path\<close>: the root marker and dots drop, parent references survive.\<close>

fun root_relative_path :: "path \<Rightarrow> path" where
  "root_relative_path [] = []"
| "root_relative_path (RootDir # cs) = root_relative_path cs"
| "root_relative_path (CurDir # cs) = root_relative_path cs"
| "root_relative_path (ParentDir # cs) = ParentDir # root_relative_path cs"
| "root_relative_path (Normal n # cs) = Normal n # root_relative_path cs"

text \<open>On hosts other than Windows only absolute paths are rooted.\<close>

definition is_absolute_or_rooted :: "path \<Rightarrow> bool" where
  "is_absolute_or_rooted p = is_absolute p"

definition to_forward_slashes :: "string \<Rightarrow> string" where
  "to_forward_slashes s = map (\<lambda>c. if c = CHR 0x5C then CHR ''/'' else c) s"

text \<open>The topmost ancestor of a path.\<close>

function system_anchor_of :: "path \<Rightarrow> path" where
  "system_anchor_of p = (case path_parent p of None \<Rightarrow> p | Some q \<Rightarrow> system_anchor_of q)"
  by pat_completeness auto
termination
  by (relation "measure length") (auto dest: parent_shorter)

declare system_anchor_of.simps [simp del]

fun normalize_step :: "path \<Rightarrow> path \<Rightarrow> component \<Rightarrow> path" where
  "normalize_step anchor out ParentDir =
     (if out \<noteq> anchor then (case path_parent out of Some q \<Rightarrow> q | None \<Rightarrow> out) else out)"
| "normalize_step anchor out (Normal n) = path_join out [Normal n]"
| "normalize_step anchor out _ = out"

definition normalize_absolute :: "path \<Rightarrow> path" where
  "normalize_absolute p =
     (let anchor = system_anchor_of p in foldl (normalize_step anchor) anchor p)"

definition system_wrap_absolute :: "path \<Rightarrow> guarded_path" where
  "system_wrap_absolute p =
     (let normalized = normalize_absolute p in
      from_guarded_parts (system_anchor_of normalized) normalized)"

definition FALLBACK_APP_NAME :: string where "FALLBACK_APP_NAME = ''oxdock''"

definition sanitize_app_name :: "string \<Rightarrow> string" where
  "sanitize_app_name raw =
     (let out = map (\<lambda>ch. if is_ascii_alphanumeric ch \<or> ch = CHR ''.'' \<or> ch = CHR ''_'' \<or> ch = CHR ''-''
                       then ch else CHR ''_'') raw;
          dot = (\<lambda>ch. ch = CHR ''.'');
          trimmed = trim_end_by dot (trim_start_by dot (trim out)) in
      if trimmed = [] then FALLBACK_APP_NAME else trimmed)"

section \<open>The guard\<close>

text \<open>The loop that climbs to an ancestor that is there.\<close>

function existing_ancestor :: "vfs \<Rightarrow> path \<Rightarrow> path \<Rightarrow> path" where
  "existing_ancestor fs root_abs p =
     (if path_exists fs p then p
      else (case path_parent p of Some q \<Rightarrow> existing_ancestor fs root_abs q | None \<Rightarrow> root_abs))"
  by pat_completeness auto
termination
  by (relation "measure (\<lambda>(fs, r, p). length p)") (auto dest: parent_shorter)

declare existing_ancestor.simps [simp del]

fun rem_components :: "path \<Rightarrow> path \<Rightarrow> path" where
  "rem_components (s # ss) (f # fs) = (if s = f then rem_components ss fs else f # fs)"
| "rem_components _ full = full"

fun push_component :: "path \<Rightarrow> component \<Rightarrow> path" where
  "push_component p CurDir = p"
| "push_component p ParentDir = (case path_parent p of Some q \<Rightarrow> q | None \<Rightarrow> p)"
| "push_component p c = path_join p [c]"

definition normalize_candidate :: "vfs \<Rightarrow> path \<Rightarrow> path \<Rightarrow> fs_error + path" where
  "normalize_candidate fs root_abs candidate =
     (case canonicalize fs candidate of
        Inr ns \<Rightarrow> Ok (abs_path ns)
      | Inl _ \<Rightarrow>
          (let ancestor = existing_ancestor fs root_abs candidate in
           case canonicalize fs ancestor of
             Inl e \<Rightarrow> Err e
           | Inr ns \<Rightarrow> Ok (foldl push_component (abs_path ns) (rem_components ancestor candidate))))"

definition guard_path :: "vfs \<Rightarrow> path \<Rightarrow> path \<Rightarrow> access_mode \<Rightarrow> vfs \<times> (fs_error + path)" where
  "guard_path fs root candidate mode =
     (case (if path_exists fs root then (fs, Ok ()) else create_dir_all fs root) of
        (fs1, Inl e) \<Rightarrow> (fs1, Err e)
      | (fs1, Inr u) \<Rightarrow>
          (case canonicalize fs1 root of
             Inl e \<Rightarrow> (fs1, Err e)
           | Inr rt \<Rightarrow>
               (case normalize_candidate fs1 (abs_path rt) candidate of
                  Inl e \<Rightarrow> (fs1, Err e)
                | Inr p \<Rightarrow>
                    (fs1, if starts_with p (abs_path rt) then Ok p else Err (Escapes mode p (abs_path rt))))))"

definition guarded_new :: "vfs \<Rightarrow> path \<Rightarrow> path \<Rightarrow> vfs \<times> (fs_error + guarded_path)" where
  "guarded_new fs root candidate =
     (case guard_path fs root candidate Read of
        (fs1, Inl e) \<Rightarrow> (fs1, Err e)
      | (fs1, Inr p) \<Rightarrow> (fs1, Ok (from_guarded_parts root p)))"

definition guarded_new_root :: "vfs \<Rightarrow> path \<Rightarrow> vfs \<times> (fs_error + guarded_path)" where
  "guarded_new_root fs root =
     (case guard_path fs root root Read of
        (fs1, Inl e) \<Rightarrow> (fs1, Err e)
      | (fs1, Inr p) \<Rightarrow> (fs1, Ok (from_guarded_parts p p)))"

definition guarded_join :: "vfs \<Rightarrow> guarded_path \<Rightarrow> string \<Rightarrow> vfs \<times> (fs_error + guarded_path)" where
  "guarded_join fs g rel = guarded_new fs (gp_root g) (path_join (gp_path g) (path_of rel))"

definition guarded_parent :: "vfs \<Rightarrow> guarded_path \<Rightarrow> vfs \<times> guarded_path option" where
  "guarded_parent fs g =
     (case path_parent (gp_path g) of
        None \<Rightarrow> (fs, None)
      | Some q \<Rightarrow>
          (case guarded_new fs (gp_root g) q of
             (fs1, Inl e) \<Rightarrow> (fs1, None)
           | (fs1, Inr h) \<Rightarrow> (fs1, Some h)))"

definition join_script :: "vfs \<Rightarrow> guarded_path \<Rightarrow> string \<Rightarrow> vfs \<times> (fs_error + guarded_path)" where
  "join_script fs g script =
     (let raw = path_of script in
      if \<not> is_absolute raw then guarded_join fs g script
      else (case path_parent raw of
          None \<Rightarrow> (fs, Err NoParent)
        | Some parent \<Rightarrow>
            if \<not> path_exists fs parent then (fs, Err NotFound) else guarded_new fs parent raw))"

section \<open>Lexical normalization\<close>

lemma system_anchor_absolute: "is_absolute p \<Longrightarrow> RootDir \<notin> set (tl p) \<Longrightarrow> system_anchor_of p = [RootDir]"
proof (induction p rule: rev_induct)
  case (snoc c p)
  show ?case
  proof (cases "p = []")
    case True
    with snoc.prems show ?thesis
      by (simp add: system_anchor_of.simps [of "[RootDir]"] is_absolute_def path_parent_def)
  next
    case False
    with snoc.prems have "c \<noteq> RootDir" "is_absolute p" "RootDir \<notin> set (tl p)"
      by (auto simp: is_absolute_def)
    with snoc.IH False show ?thesis
      by (simp add: system_anchor_of.simps [of "p @ [c]"] path_parent_def)
  qed
qed (simp add: is_absolute_def)

lemma system_anchor_abs_path [simp]: "system_anchor_of (abs_path ns) = [RootDir]"
  by (rule system_anchor_absolute) (auto simp: is_absolute_def abs_path_def)

text \<open>The components of an absolute path after its root, read lexically.\<close>

fun lexical :: "names \<Rightarrow> path \<Rightarrow> names" where
  "lexical out [] = out"
| "lexical out (ParentDir # cs) = lexical (butlast out) cs"
| "lexical out (Normal n # cs) = lexical (out @ [n]) cs"
| "lexical out (_ # cs) = lexical out cs"

lemma lexical_append: "lexical out (xs @ ys) = lexical (lexical out xs) ys"
  by (induction out xs rule: lexical.induct) auto

lemma lexical_names [simp]: "lexical out (map Normal ns) = out @ ns"
  by (induction ns arbitrary: out) auto

lemma normalize_step_lexical:
  "foldl (normalize_step [RootDir]) (abs_path out) cs = abs_path (lexical out cs)"
proof (induction out cs rule: lexical.induct)
  case (2 out cs)
  have "normalize_step [RootDir] (abs_path out) ParentDir = abs_path (butlast out)"
    by (cases "out = []") (auto simp: parent_abs_path abs_path_Nil [symmetric])
  with 2 show ?case by simp
qed simp_all

lemma normalize_absolute_lexical:
  assumes "is_absolute p" and "RootDir \<notin> set (tl p)"
  shows "normalize_absolute p = abs_path (lexical [] (tl p))"
proof -
  from assms(1) obtain cs where p: "p = RootDir # cs" by (cases p) (auto simp: is_absolute_def)
  have "foldl (normalize_step [RootDir]) [RootDir] p = foldl (normalize_step [RootDir]) (abs_path []) cs"
    by (simp add: p abs_path_Nil)
  then show ?thesis
    using system_anchor_absolute [OF assms]
    by (simp add: normalize_absolute_def normalize_step_lexical p)
qed

lemma foldl_push_lexical:
  "RootDir \<notin> set cs \<Longrightarrow> foldl push_component (abs_path out) cs = abs_path (lexical out cs)"
proof (induction out cs rule: lexical.induct)
  case (2 out cs)
  have "push_component (abs_path out) ParentDir = abs_path (butlast out)"
    by (cases "out = []") (auto simp: parent_abs_path)
  with 2 show ?case by simp
qed simp_all

text \<open>Without links a path that resolves resolves to its lexical normal form.\<close>

lemma walk_lexical:
  assumes "\<forall>q t. F q \<noteq> Some (Link t)" and "RootDir \<notin> set cs"
  shows "walk False k F cur cs = Ok r \<Longrightarrow> r = lexical cur cs"
  using assms(2)
proof (induction cs arbitrary: cur)
  case (Cons c cs)
  with assms(1) show ?case
    by (cases c) (auto split: if_splits option.splits node.splits)
qed simp

section \<open>What the guard accepts\<close>

lemma existing_ancestor_prefix:
  assumes "path_exists fs a" and "is_absolute p" and "p = a @ cs" and "a \<noteq> []" and "RootDir \<notin> set cs"
  shows "\<exists>b ds. existing_ancestor fs rt p = b \<and> p = b @ ds \<and> prefix a b \<and> path_exists fs b
          \<and> (\<forall>d es. ds = d # es \<longrightarrow> \<not> path_exists fs (b @ [d]))"
  using assms(2,3,5)
proof (induction cs arbitrary: p rule: rev_induct)
  case Nil
  with assms(1) have "existing_ancestor fs rt p = p" by (simp add: existing_ancestor.simps [of fs rt a])
  with Nil assms(1) show ?case by simp
next
  case (snoc c cs)
  show ?case
  proof (cases "path_exists fs p")
    case True
    then have "existing_ancestor fs rt p = p" by (simp add: existing_ancestor.simps [of fs rt p])
    with True snoc.prems show ?thesis by (intro exI [where x = p] exI [where x = "[]"]) auto
  next
    case False
    have par: "path_parent p = Some (a @ cs)"
      using snoc.prems by (auto simp add: path_parent_def simp flip: append_assoc)
    have "is_absolute (a @ cs)" using snoc.prems assms(4) by (simp add: is_absolute_def)
    with snoc.IH [of "a @ cs"] snoc.prems(3) obtain ds where
      IH: "a @ cs = existing_ancestor fs rt (a @ cs) @ ds"
      "prefix a (existing_ancestor fs rt (a @ cs))" "path_exists fs (existing_ancestor fs rt (a @ cs))"
      "\<forall>d es. ds = d # es \<longrightarrow> \<not> path_exists fs (existing_ancestor fs rt (a @ cs) @ [d])"
      by auto
    have e: "existing_ancestor fs rt p = existing_ancestor fs rt (a @ cs)"
      using False par by (simp add: existing_ancestor.simps [of fs rt p])
    let ?b = "existing_ancestor fs rt (a @ cs)"
    have p: "p = ?b @ (ds @ [c])" using snoc.prems(2) IH(1) by simp
    have "\<not> path_exists fs (?b @ [d])" if "ds @ [c] = d # es" for d es
      using that False IH(4) p by (cases ds) auto
    with e p IH show ?thesis by (intro exI [where x = ?b] exI [where x = "ds @ [c]"]) auto
  qed
qed

lemma rem_components_append [simp]: "rem_components a (a @ cs) = cs"
proof (induction a)
  case Nil
  then show ?case by (cases cs) simp_all
qed simp

lemma canonicalize_root [simp]: "canonicalize fs [RootDir] = Ok []"
  by (simp add: canonicalize_def)

lemma canonicalize_abs_path:
  "\<lbrakk>wf_fs fs; canonical (nodes fs) ns\<rbrakk> \<Longrightarrow> canonicalize fs (abs_path ns) = Ok ns"
  by (simp add: canonicalize_def wf_fs_def walk_abs_path_self)

lemma canonicalize_canonical:
  "\<lbrakk>wf_fs fs; canonicalize fs p = Ok ns\<rbrakk> \<Longrightarrow> canonical (nodes fs) ns"
  by (auto simp: canonicalize_def wf_fs_def canonical_Dir split: if_splits intro: walk_canonical)

text \<open>An absolute path that does not resolve is split at its longest ancestor that does.\<close>

lemma normalize_absolute_candidate:
  assumes "is_absolute p" and "RootDir \<notin> set (tl p)" and "canonicalize fs p = Err e"
  obtains a c cs an where "p = a @ c # cs" and "canonicalize fs a = Ok an" and "is_absolute a"
    and "\<not> path_exists fs (a @ [c])"
    and "normalize_candidate fs rt p = Ok (abs_path (lexical an (c # cs)))"
proof -
  from assms(1) obtain qs where p: "p = [RootDir] @ qs" by (cases p) (auto simp: is_absolute_def)
  obtain b ds where b: "existing_ancestor fs rt p = b" "p = b @ ds" "prefix [RootDir] b" "path_exists fs b"
    "\<forall>d es. ds = d # es \<longrightarrow> \<not> path_exists fs (b @ [d])"
    using existing_ancestor_prefix [of fs "[RootDir]" p qs rt, OF _ assms(1) p] assms(2) p
    by (metis canonicalize_root is_ok.simps(2) list.discI list.sel(3) append_Cons append_Nil path_exists_def)
  obtain bn where bn: "canonicalize fs b = Ok bn" using b(4) by (auto simp: path_exists_def is_ok_iff)
  have "ds \<noteq> []" using assms(3) b(2) bn by auto
  then obtain c cs where ds: "ds = c # cs" by (cases ds) auto
  have abs: "is_absolute b" using b(3) by (auto simp: is_absolute_def prefix_def)
  have "RootDir \<notin> set ds" using assms(2) b(2) abs by (cases b) (auto simp: is_absolute_def)
  then have "normalize_candidate fs rt p = Ok (abs_path (lexical bn ds))"
    using assms(3) b(1,2) bn foldl_push_lexical [of ds bn]
    by (simp add: normalize_candidate_def Let_def)
  with that [of b c cs bn] b ds bn abs show thesis by simp
qed

lemma normalize_candidate_shape:
  assumes "is_absolute p" and "RootDir \<notin> set (tl p)"
  shows "\<exists>ns. normalize_candidate fs rt p = Ok (abs_path ns)"
proof (cases "canonicalize fs p")
  case (Inl e)
  from normalize_absolute_candidate [OF assms this] show ?thesis by metis
qed (simp add: normalize_candidate_def)

lemma guard_path_existing:
  assumes "canonicalize fs root = Ok rt"
  shows "guard_path fs root p mode =
    (fs, case normalize_candidate fs (abs_path rt) p of
           Inl e \<Rightarrow> Err e
         | Inr q \<Rightarrow> if starts_with q (abs_path rt) then Ok q else Err (Escapes mode q (abs_path rt)))"
  using assms by (simp add: guard_path_def path_exists_def split: sum.splits)

end
