(* ===== verification/Workspace_Io.thy ===== *)
theory Workspace_Io
  imports Workspace_Guard
begin

text \<open>
  The host backend of the workspace file system (\<open>workspace_fs/backend.rs\<close>): the file
  operations applied to a path the guard has accepted. The lemmas determine what creating
  the missing parents and opening the file touch, which is what the containment theorems of
  the resolver rest on.
\<close>

section \<open>The host backend\<close>

definition make_parent :: "vfs \<Rightarrow> path \<Rightarrow> vfs \<times> (fs_error + unit)" where
  "make_parent fs p = (case path_parent p of None \<Rightarrow> (fs, Ok ()) | Some q \<Rightarrow> create_dir_all fs q)"

definition backend_put :: "vfs \<Rightarrow> path \<Rightarrow> (byte list \<Rightarrow> byte list) \<Rightarrow> vfs \<times> (fs_error + unit)" where
  "backend_put fs p f =
     (case make_parent fs p of
        (fs1, Inl e) \<Rightarrow> (fs1, Err e)
      | (fs1, Inr u) \<Rightarrow> fs_update fs1 p f)"

definition backend_write_file :: "vfs \<Rightarrow> guarded_path \<Rightarrow> byte list \<Rightarrow> vfs \<times> (fs_error + unit)" where
  "backend_write_file fs g contents = backend_put fs (gp_path g) (\<lambda>_. contents)"

definition backend_append_file :: "vfs \<Rightarrow> guarded_path \<Rightarrow> byte list \<Rightarrow> vfs \<times> (fs_error + unit)" where
  "backend_append_file fs g contents = backend_put fs (gp_path g) (\<lambda>old. old @ contents)"

definition backend_read_file :: "vfs \<Rightarrow> guarded_path \<Rightarrow> fs_error + byte list" where
  "backend_read_file fs g = fs_read fs (gp_path g)"

definition backend_create_dir_all :: "vfs \<Rightarrow> guarded_path \<Rightarrow> guarded_path \<Rightarrow> vfs \<times> (fs_error + unit)" where
  "backend_create_dir_all fs root g =
     (case (if path_exists fs (gp_path root) then (fs, Ok ()) else create_dir_all fs (gp_path root)) of
        (fs1, Inl e) \<Rightarrow> (fs1, Err e)
      | (fs1, Inr u) \<Rightarrow> create_dir_all fs1 (gp_path g))"

datatype entry_kind = EFile | EDir | ESymlink

definition backend_entry_kind :: "vfs \<Rightarrow> guarded_path \<Rightarrow> fs_error + entry_kind" where
  "backend_entry_kind fs g =
     (case metadata fs (gp_path g) of
        Inl e \<Rightarrow> Err e
      | Inr Dir \<Rightarrow> Ok EDir
      | Inr (File bs) \<Rightarrow> Ok EFile
      | Inr (Link t) \<Rightarrow> Err (NotRegular (gp_path g)))"

definition backend_entry_kind_no_follow :: "vfs \<Rightarrow> guarded_path \<Rightarrow> fs_error + entry_kind" where
  "backend_entry_kind_no_follow fs g =
     (case symlink_metadata fs (gp_path g) of
        Inl e \<Rightarrow> Err e
      | Inr (Link t) \<Rightarrow> Ok ESymlink
      | Inr Dir \<Rightarrow> Ok EDir
      | Inr (File bs) \<Rightarrow> Ok EFile)"

definition backend_resolve_workdir :: "vfs \<Rightarrow> guarded_path \<Rightarrow> vfs \<times> (fs_error + guarded_path)" where
  "backend_resolve_workdir fs g =
     (case metadata fs (gp_path g) of
        Inr x \<Rightarrow> (fs, if x = Dir then Ok g else Err (WorkdirNotDirectory (gp_path g)))
      | Inl _ \<Rightarrow>
          (case create_dir_all fs (gp_path g) of
             (fs1, Inl e) \<Rightarrow> (fs1, Err e)
           | (fs1, Inr u) \<Rightarrow> (fs1, Ok g)))"

definition backend_resolve_copy_source :: "vfs \<Rightarrow> guarded_path \<Rightarrow> fs_error + guarded_path" where
  "backend_resolve_copy_source fs g =
     (if \<not> path_exists fs (gp_path g) then Err (SourceMissing (gp_path g)) else Ok g)"

definition backend_remove_file :: "vfs \<Rightarrow> guarded_path \<Rightarrow> vfs \<times> (fs_error + unit)" where
  "backend_remove_file fs g =
     (case unlink fs (gp_path g) of
        (fs1, Inl e) \<Rightarrow> (fs1, if e = NotFound then Ok () else Err e)
      | (fs1, Inr u) \<Rightarrow> (fs1, Ok ()))"

definition backend_remove_dir_all :: "vfs \<Rightarrow> guarded_path \<Rightarrow> vfs \<times> (fs_error + unit)" where
  "backend_remove_dir_all fs g = fs_remove_dir_all fs (gp_path g)"

section \<open>Creating directories\<close>

definition only_under :: "names \<Rightarrow> vfs \<Rightarrow> vfs \<Rightarrow> bool" where
  "only_under rt fs fs' \<longleftrightarrow>
     process_cwd fs' = process_cwd fs \<and> (\<forall>q. nodes fs' q \<noteq> nodes fs q \<longrightarrow> prefix rt q)"

lemma only_under_refl [simp]: "only_under rt fs fs"
  by (simp add: only_under_def)

lemma only_under_trans: "\<lbrakk>only_under rt a b; only_under rt b c\<rbrakk> \<Longrightarrow> only_under rt a c"
  unfolding only_under_def by metis

lemma only_under_put: "prefix rt ns \<Longrightarrow> only_under rt fs (put fs ns x)"
  by (auto simp: only_under_def put_def)

lemma walk_place:
  assumes "wf_fs fs" and "canonical (nodes fs) an"
  shows "walk cr max_links (nodes fs) (process_cwd fs) (abs_path (an @ ns)) =
         walk cr max_links (nodes fs) an (map Normal ns)"
  using walk_abs_path [of "nodes fs" an cr max_links "process_cwd fs" "map Normal ns"] assms
  by (simp add: wf_fs_def abs_path_def)

lemma file_name_abs_path [simp]:
  "file_name (abs_path []) = None" "file_name (abs_path (ns @ [n])) = Some n"
  by (simp_all add: file_name_def abs_path_Nil abs_path_snoc)

lemma butlast_abs_path_snoc [simp]: "butlast (abs_path (ns @ [n])) = abs_path ns"
  by (simp add: abs_path_snoc)

lemma place_abs_path:
  assumes "wf_fs fs" and "canonical (nodes fs) an"
  shows "place fs (abs_path (an @ ns @ [n])) =
    (case walk False max_links (nodes fs) an (map Normal ns) of
       Inl e \<Rightarrow> Err e
     | Inr d \<Rightarrow> if nodes fs d = Some Dir then Ok (Some (d @ [n])) else Err NotADirectory)"
  using walk_place [OF assms, of False ns]
    file_name_abs_path(2) [of "an @ ns" n] butlast_abs_path_snoc [of "an @ ns" n]
  by (simp add: place_def)

lemma place_in_dir:
  assumes "wf_fs fs" and "nodes fs d = Some Dir"
  shows "place fs (abs_path (d @ [n])) = Ok (Some (d @ [n]))"
  using place_abs_path [OF assms(1) canonical_Dir [of "nodes fs" d, OF assms(2)], of "[]" n] assms(2)
  by simp

lemma is_dir_abs_path: "\<lbrakk>wf_fs fs; nodes fs d = Some Dir\<rbrakk> \<Longrightarrow> is_dir fs (abs_path d)"
  by (simp add: is_dir_def metadata_def canonicalize_abs_path canonical_Dir)

text \<open>A path as it was written, through links or not, and the name it resolves to.\<close>

definition leads :: "vfs \<Rightarrow> path \<Rightarrow> names \<Rightarrow> bool" where
  "leads fs a an \<longleftrightarrow> a \<noteq> [] \<and> walk False max_links (nodes fs) (process_cwd fs) a = Ok an"

lemma leads_canonicalize: "a \<noteq> [] \<Longrightarrow> leads fs a an \<longleftrightarrow> canonicalize fs a = Ok an"
  by (simp add: leads_def canonicalize_def)

lemma leads_abs_path: "\<lbrakk>wf_fs fs; canonical (nodes fs) an\<rbrakk> \<Longrightarrow> leads fs (abs_path an) an"
  by (simp add: leads_def wf_fs_def walk_abs_path_self)

lemma leads_onward:
  assumes "leads fs a an"
  obtains k where "k \<le> max_links"
    and "\<And>cr cs. walk cr max_links (nodes fs) (process_cwd fs) (a @ cs) = walk cr k (nodes fs) an cs"
  using assms walk_stage unfolding leads_def by blast

lemma leads_below:
  assumes "wf_fs fs" and "leads fs a an" and "canonical (nodes fs) (an @ ns)"
  shows "leads fs (a @ map Normal ns) (an @ ns)"
proof -
  obtain k where "\<And>cr cs. walk cr max_links (nodes fs) (process_cwd fs) (a @ cs) = walk cr k (nodes fs) an cs"
    using assms(2) by (rule leads_onward) blast
  with walk_names [of "nodes fs" an ns False k "[]"] assms show ?thesis by (simp add: leads_def wf_fs_def)
qed

lemma place_snoc:
  "place fs (a @ [Normal n]) =
    (case walk False max_links (nodes fs) (process_cwd fs) a of
       Inl e \<Rightarrow> Err e
     | Inr d \<Rightarrow> if nodes fs d = Some Dir then Ok (Some (d @ [n])) else Err NotADirectory)"
  by (simp add: place_def file_name_def)

lemma mkdir_at:
  assumes "leads fs a an" and "nodes fs an = Some Dir"
  shows "mkdir fs (a @ [Normal m]) =
    (case nodes fs (an @ [m]) of None \<Rightarrow> (put fs (an @ [m]) (Some Dir), Ok ()) | Some _ \<Rightarrow> (fs, Err AlreadyExists))"
  using assms by (simp add: mkdir_def place_snoc leads_def)

lemma mkdir_existing:
  assumes "leads fs a an"
  shows "mkdir fs a = (fs, Err AlreadyExists)"
proof (cases "file_name a")
  case None
  with assms show ?thesis by (simp add: mkdir_def place_def leads_def canonicalize_def)
next
  case (Some n)
  then have "last a = Normal n" "a \<noteq> []" by (auto simp: file_name_def split: if_splits component.splits)
  then obtain b where a: "a = b @ [Normal n]" by (metis append_butlast_last_id)
  obtain d where d: "walk False max_links (nodes fs) (process_cwd fs) b = Ok d"
    using assms walk_append_Err [of max_links "nodes fs" "process_cwd fs" b _ "[Normal n]"] a
    by (cases "walk False max_links (nodes fs) (process_cwd fs) b") (auto simp: leads_def)
  then obtain k where "walk False max_links (nodes fs) (process_cwd fs) a = walk False k (nodes fs) d [Normal n]"
    using walk_append a by metis
  with assms have "nodes fs d = Some Dir" "nodes fs (d @ [n]) \<noteq> None"
    by (auto simp: leads_def split: if_splits option.splits)
  with a d show ?thesis by (auto simp: mkdir_def place_snoc)
qed

lemma is_dir_leads: "leads fs a an \<Longrightarrow> is_dir fs a \<longleftrightarrow> nodes fs an = Some Dir"
  by (auto simp: is_dir_def metadata_def canonicalize_def leads_def split: option.splits)

lemma create_dir_all_there:
  assumes "leads fs a an"
  shows "create_dir_all fs a = (fs, if nodes fs an = Some Dir then Ok () else Err AlreadyExists)"
  using mkdir_existing [OF assms] is_dir_leads [OF assms] assms
  by (simp add: create_dir_all.simps [of fs a] leads_def)

lemma create_dir_all_existing:
  assumes "wf_fs fs" and "nodes fs d = Some Dir"
  shows "create_dir_all fs (abs_path d) = (fs, Ok ())"
  using create_dir_all_there [OF leads_abs_path] assms by (simp add: canonical_Dir)

text \<open>The directories from an existing one down to a path of which nothing is there.\<close>

definition filled :: "vfs \<Rightarrow> names \<Rightarrow> names \<Rightarrow> vfs" where
  "filled fs an ds =
     fs\<lparr>nodes := (\<lambda>q. if strict_prefix an q \<and> prefix q (an @ ds) then Some Dir else nodes fs q)\<rparr>"

lemma filled_Nil [simp]: "filled fs an [] = fs"
proof -
  have "(\<lambda>q. if strict_prefix an q \<and> prefix q an then Some Dir else nodes fs q) = nodes fs"
    by (auto simp: fun_eq_iff)
  then show ?thesis by (simp add: filled_def)
qed

lemma filled_simps [simp]: "process_cwd (filled fs an ds) = process_cwd fs"
  by (simp add: filled_def)

lemma filled_only_under: "prefix rt an \<Longrightarrow> only_under rt fs (filled fs an ds)"
  by (auto simp: only_under_def filled_def strict_prefix_def intro: prefix_order.trans)

lemma filled_Dir: "\<lbrakk>nodes fs an = Some Dir; prefix q ds\<rbrakk> \<Longrightarrow> nodes (filled fs an ds) (an @ q) = Some Dir"
  by (cases "q = []") (auto simp: filled_def strict_prefix_def)

lemma filled_snoc:
  "put (filled fs an ds) (an @ ds @ [m]) (Some Dir) = filled fs an (ds @ [m])"
  by (auto simp: put_def filled_def strict_prefix_def fun_eq_iff simp flip: append_assoc)

lemma filled_below_missing:
  assumes "wf_fs fs" and "nodes fs (an @ [hd (ds @ [m])]) = None"
  shows "nodes (filled fs an ds) (an @ ds @ [m]) = None"
proof -
  have "nodes fs (an @ ds @ [m]) = None"
    using wf_nodes_below_missing [of "nodes fs" "an @ [hd (ds @ [m])]" "tl (ds @ [m])"] assms
    by (cases ds) (auto simp: wf_fs_def)
  then show ?thesis by (auto simp: filled_def dest: prefix_length_le)
qed

lemma filled_wf:
  assumes "wf_fs fs" and "nodes fs an = Some Dir" and "ds \<noteq> [] \<longrightarrow> nodes fs (an @ [hd ds]) = None"
  shows "wf_fs (filled fs an ds)"
  using assms(3)
proof (induction ds rule: rev_induct)
  case (snoc m ds)
  have IH: "wf_fs (filled fs an ds)" using snoc by (cases ds) auto
  have "nodes (filled fs an ds) (an @ ds @ [m]) = None"
    using filled_below_missing [OF assms(1)] snoc.prems by simp
  moreover have dir: "nodes (filled fs an ds) (an @ ds) = Some Dir" using filled_Dir assms(2) by blast
  ultimately have "wf_nodes (nodes (put (filled fs an ds) ((an @ ds) @ [m]) (Some Dir)))"
    using wf_nodes_put_new [of "nodes (filled fs an ds)" "an @ ds" m Dir] IH
    by (simp add: put_def wf_fs_def)
  then have "wf_nodes (nodes (filled fs an (ds @ [m])))" using filled_snoc [of fs an ds m] by simp
  moreover have "nodes (filled fs an (ds @ [m])) (process_cwd fs) = Some Dir"
    using assms(1) by (simp add: filled_def wf_fs_def)
  ultimately show ?case by (simp add: wf_fs_def)
qed (use assms(1) in simp)

lemma filled_leads:
  assumes "wf_fs fs" and "leads fs a an" and "ds \<noteq> [] \<longrightarrow> nodes fs (an @ [hd ds]) = None"
  shows "leads (filled fs an ds) a an"
proof -
  have "nodes fs q = None" if "strict_prefix an q" "prefix q (an @ ds)" for q
  proof -
    from that(1) obtain r where r1: "q = an @ r" "r \<noteq> []" by (auto simp: strict_prefix_def prefix_def)
    with that(2) have q: "q = an @ r" "r \<noteq> []" "prefix r ds" by simp_all
    then have r: "r = hd ds # tl r" and "ds \<noteq> []" by (cases r; auto simp: prefix_def)+
    then have "nodes fs ((an @ [hd ds]) @ tl r) = None"
      using wf_nodes_below_missing assms(1,3) by (metis wf_fs_def)
    with q r show ?thesis by (metis append.assoc append_Cons append_Nil)
  qed
  then have grow: "\<forall>q. nodes fs q \<noteq> None \<longrightarrow> nodes (filled fs an ds) q = nodes fs q"
    by (auto simp: filled_def)
  have "walk False max_links (nodes fs) (process_cwd fs) a = Ok an" using assms(2) by (simp only: leads_def)
  from walk_grow [OF this grow] assms(2) show ?thesis unfolding leads_def filled_simps by blast
qed

lemma mkdir_too_deep:
  assumes "leads fs a an" and "nodes fs an = Some Dir" and "nodes fs (an @ [n]) = None"
  shows "mkdir fs (a @ Normal n # map Normal ns @ [Normal m]) = (fs, Err NotFound)"
proof -
  obtain k where "\<And>cr cs. walk cr max_links (nodes fs) (process_cwd fs) (a @ cs) = walk cr k (nodes fs) an cs"
    using assms(1) by (rule leads_onward) blast
  with assms(2,3) place_snoc [of fs "a @ Normal n # map Normal ns" m] show ?thesis by (simp add: mkdir_def)
qed

lemma create_dir_all_fills:
  assumes "wf_fs fs" and "leads fs a an" and "nodes fs an = Some Dir" and "ds \<noteq> [] \<longrightarrow> nodes fs (an @ [hd ds]) = None"
  shows "create_dir_all fs (a @ map Normal ds) = (filled fs an ds, Ok ())"
  using assms(4)
proof (induction ds rule: rev_induct)
  case Nil
  then show ?case using create_dir_all_there [OF assms(2)] assms(3) by simp
next
  case (snoc m ds)
  let ?p = "a @ map Normal ds @ [Normal m]"
  show ?case
  proof (cases ds)
    case Nil
    then have "mkdir fs ?p = (filled fs an [m], Ok ())"
      using snoc.prems mkdir_at [OF assms(2,3), of m] filled_snoc [of fs an "[]" m] by simp
    with Nil show ?thesis by (simp add: create_dir_all.simps [of fs "a @ [Normal m]"])
  next
    case (Cons n es)
    with snoc.prems have miss: "nodes fs (an @ [n]) = None" by simp
    have m1: "mkdir fs ?p = (fs, Err NotFound)" using mkdir_too_deep [OF assms(2,3) miss] Cons by simp
    have par: "path_parent ?p = Some (a @ map Normal ds)" by (simp add: path_parent_def butlast_append)
    have IH: "create_dir_all fs (a @ map Normal ds) = (filled fs an ds, Ok ())" using snoc Cons by simp
    have wf: "wf_fs (filled fs an ds)" using filled_wf [OF assms(1,3), of ds] miss Cons by simp
    have dir: "nodes (filled fs an ds) (an @ ds) = Some Dir" using filled_Dir assms(3) by blast
    have "leads (filled fs an ds) (a @ map Normal ds) (an @ ds)"
      using leads_below [OF wf filled_leads [OF assms(1,2)], of ds] dir miss Cons by (simp add: canonical_Dir)
    moreover have "nodes (filled fs an ds) (an @ ds @ [m]) = None"
      using filled_below_missing [OF assms(1)] snoc.prems by simp
    ultimately have "mkdir (filled fs an ds) ?p = (filled fs an (ds @ [m]), Ok ())"
      using mkdir_at [of "filled fs an ds" "a @ map Normal ds" "an @ ds" m] dir filled_snoc [of fs an ds m] by simp
    with m1 par IH show ?thesis by (simp add: create_dir_all.simps [of fs ?p])
  qed
qed

text \<open>A name that is there but does not resolve stops the creation below it.\<close>

lemma walk_blocked:
  assumes "leads fs a an" and "walk False max_links (nodes fs) an [Normal n] = Err e"
  obtains e' where "walk False max_links (nodes fs) (process_cwd fs) (a @ Normal n # cs) = Err e'"
proof -
  obtain k where k: "k \<le> max_links"
    "\<And>cr cs. walk cr max_links (nodes fs) (process_cwd fs) (a @ cs) = walk cr k (nodes fs) an cs"
    using assms(1) by (rule leads_onward) blast
  have "\<exists>e'. walk False k (nodes fs) an [Normal n] = Err e'"
  proof (cases "walk False k (nodes fs) an [Normal n]")
    case (Inr d)
    with walk_fuel_mono [of False k "nodes fs" an "[Normal n]" "Ok d" max_links] k(1) assms(2) show ?thesis by simp
  qed blast
  then obtain e' where "walk False k (nodes fs) an [Normal n] = Err e'" by blast
  from walk_append_Err [OF this, of cs] k(2) [of False "Normal n # cs"] that show thesis by simp
qed

lemma create_dir_all_blocked:
  assumes "leads fs a an" and "walk False max_links (nodes fs) an [Normal n] = Err e"
    and "nodes fs an = Some Dir \<longrightarrow> nodes fs (an @ [n]) \<noteq> None"
  shows "\<exists>e'. create_dir_all fs (a @ Normal n # map Normal ds) = (fs, Err e')"
proof (induction ds rule: rev_induct)
  case Nil
  let ?p = "a @ [Normal n]"
  obtain e1 where "walk False max_links (nodes fs) (process_cwd fs) (a @ Normal n # []) = Err e1"
    using assms(1,2) by (rule walk_blocked)
  then have nd: "\<not> is_dir fs ?p" by (simp add: is_dir_def metadata_def canonicalize_def)
  have "\<exists>e. e \<noteq> NotFound \<and> mkdir fs ?p = (fs, Err e)"
  proof (cases "nodes fs an = Some Dir")
    case True
    with assms(3) mkdir_at [OF assms(1) True, of n] show ?thesis by auto
  next
    case False
    with assms(1) have "mkdir fs ?p = (fs, Err NotADirectory)" by (simp add: mkdir_def place_snoc leads_def)
    then show ?thesis by blast
  qed
  with nd show ?case by (auto simp: create_dir_all.simps [of fs ?p])
next
  case (snoc m ds)
  let ?q = "a @ Normal n # map Normal ds" and ?p = "a @ Normal n # map Normal ds @ [Normal m]"
  obtain e1 where e1: "walk False max_links (nodes fs) (process_cwd fs) ?q = Err e1"
    using assms(1,2) by (rule walk_blocked)
  have mk: "mkdir fs ?p = (fs, Err e1)" using e1 place_snoc [of fs ?q m] by (simp add: mkdir_def)
  obtain e2 where "walk False max_links (nodes fs) (process_cwd fs) ?p = Err e2"
    using assms(1,2) by (rule walk_blocked)
  then have nd: "\<not> is_dir fs ?p" by (simp add: is_dir_def metadata_def canonicalize_def)
  have par: "path_parent ?p = Some ?q" by (simp add: path_parent_def butlast_append)
  from snoc obtain e' where "create_dir_all fs ?q = (fs, Err e')" by blast
  with mk nd par show ?case by (simp add: create_dir_all.simps [of fs ?p])
qed

section \<open>Opening an accepted path\<close>

text \<open>The situations in which the guard hands a path to the backend: the path resolves and is
  replaced by its canonical name, or its longest resolving ancestor is.\<close>

lemma normalize_names_cases:
  assumes "wf_fs fs" and "canonicalize fs (abs_path ps) \<noteq> Err TooManyLinks"
  obtains (there) ns where "canonicalize fs (abs_path ps) = Ok ns" and "canonical (nodes fs) ns"
      and "normalize_candidate fs rt (abs_path ps) = Ok (abs_path ns)"
  | (missing) as n rs an e where "ps = as @ n # rs" and "canonicalize fs (abs_path as) = Ok an"
      and "canonicalize fs (abs_path ps) = Err e"
      and "canonical (nodes fs) an" and "walk False max_links (nodes fs) an [Normal n] = Err e"
      and "normalize_candidate fs rt (abs_path ps) = Ok (abs_path (an @ n # rs))"
proof (cases "canonicalize fs (abs_path ps)")
  case (Inr ns)
  with there canonicalize_canonical [OF assms(1)] show thesis by (simp add: normalize_candidate_def)
next
  case (Inl e)
  have abs: "is_absolute (abs_path ps)" "RootDir \<notin> set (tl (abs_path ps))" by (simp, auto simp: abs_path_def)
  obtain a c cs an where a: "abs_path ps = a @ c # cs" "canonicalize fs a = Ok an" "is_absolute a"
    "\<not> path_exists fs (a @ [c])"
    "normalize_candidate fs rt (abs_path ps) = Ok (abs_path (lexical an (c # cs)))"
    by (rule normalize_absolute_candidate [OF abs Inl])
  then obtain as n rs where ps: "ps = as @ n # rs" "a = abs_path as" "c = Normal n" "cs = map Normal rs"
    by (cases a) (auto simp: is_absolute_def abs_path_def map_eq_append_conv map_eq_Cons_conv)
  let ?w = "walk False max_links (nodes fs) (process_cwd fs)"
  obtain e1 where e1: "?w (a @ [c]) = Err e1"
    using a(4) by (cases "?w (a @ [c])") (auto simp: path_exists_def canonicalize_def)
  have "?w (abs_path ps) = Err e1" using walk_append_Err [OF e1, of cs] a(1) by simp
  with Inl have "e1 = e" by (simp add: canonicalize_def)
  have "?w a = Ok an" using a(2) by (simp add: canonicalize_def split: if_splits)
  then obtain k where "k \<le> max_links" "?w (a @ [c]) = walk False k (nodes fs) an [c]"
    using walk_append by metis
  then have "walk False max_links (nodes fs) an [c] = Err e"
    using walk_fuel_mono [of False k "nodes fs" an "[c]" "Err e" max_links] e1 \<open>e1 = e\<close> Inl assms(2) by auto
  with missing [of as n rs an e] a(2,5) ps Inl canonicalize_canonical [OF assms(1)] show thesis by simp
qed

text \<open>A link whose target is not there: the one name the guard does not look through.\<close>

definition dangling :: "vfs \<Rightarrow> path \<Rightarrow> bool" where
  "dangling fs p \<longleftrightarrow> (case symlink_metadata fs p of Inr (Link t) \<Rightarrow> \<not> path_exists fs p | _ \<Rightarrow> False)"

lemma parent_leads:
  assumes "wf_fs fs" and "leads fs (b @ [c]) an" and "b \<noteq> []" and "c = Normal n"
  shows "\<exists>d. leads fs b d \<and> nodes fs d = Some Dir"
proof -
  obtain d where d: "walk False max_links (nodes fs) (process_cwd fs) b = Ok d"
    using assms(2) walk_append_Err [of max_links "nodes fs" "process_cwd fs" b _ "[c]"]
    by (cases "walk False max_links (nodes fs) (process_cwd fs) b") (auto simp: leads_def)
  then obtain k where "walk False max_links (nodes fs) (process_cwd fs) (b @ [c]) = walk False k (nodes fs) d [c]"
    using walk_append by metis
  with assms(2,4) have "nodes fs d = Some Dir" by (auto simp: leads_def split: if_splits)
  with d assms(3) show ?thesis by (auto simp: leads_def)
qed

lemma put_existing:
  assumes "wf_fs fs" and "leads fs (abs_path ps) ns"
  shows "backend_put fs (abs_path ps) f =
    (case nodes fs ns of
       Some (File old) \<Rightarrow> (put fs ns (Some (File (f old))), Ok ())
     | _ \<Rightarrow> (fs, Err IsADirectory))"
proof -
  have "make_parent fs (abs_path ps) = (fs, Ok ())"
  proof (cases ps rule: rev_cases)
    case (snoc q n)
    then obtain d where "leads fs (abs_path q) d" "nodes fs d = Some Dir"
      using parent_leads [OF assms(1), of "abs_path q" "Normal n"] assms(2) by (auto simp: abs_path_snoc)
    with snoc create_dir_all_there show ?thesis by (simp add: make_parent_def parent_abs_path)
  qed (simp add: make_parent_def parent_abs_path)
  moreover obtain k where "\<And>cr cs. walk cr max_links (nodes fs) (process_cwd fs) (abs_path ps @ cs) = walk cr k (nodes fs) ns cs"
    using assms(2) by (rule leads_onward) blast
  from this [of True "[]"] have "walk True max_links (nodes fs) (process_cwd fs) (abs_path ps) = Ok ns" by simp
  moreover have "canonical (nodes fs) ns"
    using assms canonicalize_canonical by (simp add: leads_canonicalize)
  ultimately show ?thesis
    by (auto simp: backend_put_def fs_update_def canonical_def split: option.splits node.splits)
qed

lemma abs_path_append: "abs_path (as @ bs) = abs_path as @ map Normal bs"
  by (simp add: abs_path_def)

lemma put_missing:
  assumes "wf_fs fs" and "leads fs (abs_path as) an" and "nodes fs an = Some Dir" and "nodes fs (an @ [n]) = None"
  shows "backend_put fs (abs_path (as @ n # rs)) f =
    (put (filled fs an (butlast (n # rs))) (an @ n # rs) (Some (File (f []))), Ok ())"
proof -
  define ds m where "ds = butlast (n # rs)" and "m = last (n # rs)"
  have nrs: "n # rs = ds @ [m]" by (simp only: ds_def m_def) simp
  have hd: "hd (ds @ [m]) = n" using nrs by (metis list.sel(1))
  have miss: "ds \<noteq> [] \<longrightarrow> nodes fs (an @ [hd ds]) = None" using hd assms(4) by (auto simp: hd_append)
  let ?fs1 = "filled fs an ds"
  have mp: "make_parent fs (abs_path (as @ n # rs)) = (?fs1, Ok ())"
    using create_dir_all_fills [OF assms(1-3) miss]
    by (simp add: make_parent_def parent_abs_path nrs butlast_append) (simp add: abs_path_append)
  have wf: "wf_fs ?fs1" by (rule filled_wf [OF assms(1,3) miss])
  have dir: "nodes ?fs1 (an @ ds) = Some Dir" using filled_Dir assms(3) by blast
  have none: "nodes ?fs1 (an @ ds @ [m]) = None" using filled_below_missing [OF assms(1)] hd assms(4) by simp
  have "leads ?fs1 (abs_path as @ map Normal ds) (an @ ds)"
    using leads_below [OF wf filled_leads [OF assms(1,2) miss]] dir by (simp add: canonical_Dir)
  then obtain k where "\<And>cr cs. walk cr max_links (nodes ?fs1) (process_cwd ?fs1) ((abs_path as @ map Normal ds) @ cs)
      = walk cr k (nodes ?fs1) (an @ ds) cs"
    by (rule leads_onward) blast
  from this [of True "[Normal m]"]
  have "walk True max_links (nodes ?fs1) (process_cwd fs) (abs_path (as @ n # rs)) = Ok (an @ n # rs)"
    using dir none nrs by (simp add: abs_path_append)
  with mp none nrs show ?thesis by (simp add: backend_put_def fs_update_def ds_def [symmetric])
qed

lemma put_blocked:
  assumes "wf_fs fs" and "leads fs (abs_path as) an" and "walk False max_links (nodes fs) an [Normal n] = Err e"
    and "nodes fs an = Some Dir \<longrightarrow> nodes fs (an @ [n]) \<noteq> None" and "nodes fs an \<noteq> Some Dir \<or> rs \<noteq> []"
  shows "\<exists>e'. backend_put fs (abs_path (as @ n # rs)) f = (fs, Err e')"
proof (cases "rs = []")
  case True
  with assms(2,5) create_dir_all_there show ?thesis
    by (simp add: backend_put_def make_parent_def parent_abs_path)
next
  case False
  then obtain ds m where rs: "rs = ds @ [m]" by (cases rs rule: rev_cases) auto
  obtain e' where "create_dir_all fs (abs_path as @ Normal n # map Normal ds) = (fs, Err e')"
    using create_dir_all_blocked [OF assms(2-4)] by blast
  then have "create_dir_all fs (abs_path (as @ n # ds)) = (fs, Err e')" by (simp add: abs_path_append)
  with rs show ?thesis by (simp add: backend_put_def make_parent_def parent_abs_path butlast_append)
qed

lemma walk_stuck:
  assumes "canonical F an" and "walk False k F an [Normal n] = Err e" and "F an = Some Dir"
  obtains "F (an @ [n]) = None" | t where "F (an @ [n]) = Some (Link t)"
  using assms by (auto split: option.splits node.splits)

text \<open>The only way out of the root is a dangling link in the last place. It makes no difference whether
  the path is opened as it was written or by its normal form.\<close>

lemma put_contained:
  assumes "wf_fs fs" and "canonicalize fs (abs_path ps) \<noteq> Err TooManyLinks"
    and "\<not> dangling fs (abs_path ps)" and "canonical (nodes fs) rt"
    and "normalize_candidate fs r (abs_path ps) = Ok (abs_path qs)" and "prefix rt qs" and "xs = ps \<or> xs = qs"
  shows "only_under rt fs (fst (backend_put fs (abs_path xs) f))"
  using assms(1,2)
proof (cases rule: normalize_names_cases [where rt = r])
  case (there ns)
  with assms(5,6) have ns: "qs = ns" "prefix rt ns" by simp_all
  have "leads fs (abs_path xs) ns"
    using assms(7) there ns leads_abs_path [OF assms(1)] by (auto simp: leads_canonicalize)
  with ns assms(1) show ?thesis by (auto simp: put_existing only_under_put split: option.splits node.splits)
next
  case (missing as n rs an e)
  with assms(5) have qs: "qs = an @ n # rs" by simp
  have "\<exists>b. xs = b @ n # rs \<and> leads fs (abs_path b) an"
    using assms(1,7) missing qs leads_abs_path by (auto simp: leads_canonicalize)
  then obtain b where xs: "xs = b @ n # rs" and b: "leads fs (abs_path b) an" by blast
  show ?thesis
  proof (cases "nodes fs an = Some Dir \<and> nodes fs (an @ [n]) = None")
    case True
    have "prefix rt an"
    proof (rule ccontr)
      assume "\<not> prefix rt an"
      with assms(6) qs obtain zs where "rt = an @ n # zs"
        by (auto simp: prefix_append prefix_Cons)
      then show False
        using wf_nodes_below_missing [of "nodes fs" "an @ [n]" zs] True assms(1,4)
        by (simp add: wf_fs_def canonical_def)
    qed
    then have "only_under rt fs (filled fs an (butlast (n # rs)))" by (rule filled_only_under)
    with True assms(1,6) qs xs b show ?thesis
      by (auto simp: put_missing intro: only_under_trans only_under_put)
  next
    case False
    have "nodes fs an \<noteq> Some Dir \<or> rs \<noteq> []"
    proof (rule ccontr)
      assume c: "\<not> (nodes fs an \<noteq> Some Dir \<or> rs \<noteq> [])"
      with walk_stuck [OF missing(4,5)] False obtain t where "nodes fs (an @ [n]) = Some (Link t)" by blast
      moreover have "walk False max_links (nodes fs) (process_cwd fs) (abs_path as) = Ok an"
        using missing(2) by (simp add: canonicalize_def)
      ultimately have "symlink_metadata fs (abs_path ps) = Ok (Link t)"
        using c missing(1) by (simp add: symlink_metadata_def place_def)
      with assms(3) missing(3) show False by (simp add: dangling_def path_exists_def)
    qed
    then obtain e' where "backend_put fs (abs_path xs) f = (fs, Err e')"
      using put_blocked [OF assms(1) b missing(5), of rs f] False xs by auto
    then show ?thesis by simp
  qed
qed

lemma read_contained:
  assumes "wf_fs fs" and "canonicalize fs (abs_path ps) \<noteq> Err TooManyLinks"
    and "normalize_candidate fs r (abs_path ps) = Ok (abs_path qs)"
    and "fs_read fs (abs_path qs) = Ok bs"
  shows "nodes fs qs = Some (File bs)"
  using assms(1,2)
proof (cases rule: normalize_names_cases [where rt = r])
  case (there ns)
  with assms(1,3,4) show ?thesis
    by (auto simp: fs_read_def metadata_def canonicalize_abs_path split: option.splits node.splits)
next
  case (missing as n rs an e)
  then have "canonicalize fs (abs_path (an @ n # rs)) = Err e"
    using walk_append_Err [OF missing(5), of "map Normal rs"] walk_place [OF assms(1) missing(4), of False "n # rs"]
    by (simp add: canonicalize_def)
  with assms(3,4) missing show ?thesis by (simp add: fs_read_def metadata_def)
qed

end
