(* ===== verification/Workspace_Resolver.thy ===== *)
theory Workspace_Resolver
  imports Workspace_Io
begin

text \<open>
  The path resolver of \<open>oxdock-fs\<close> (\<open>workspace_fs/mod.rs\<close>, \<open>access.rs\<close>, \<open>resolve.rs\<close>,
  \<open>io.rs\<close>, \<open>cache.rs\<close>): the four workspace roots and switching between them, the lazily
  created snapshot, access checks, resolution of the paths scripts write, and the guarded
  file operations. What the host supplies (environment variables, the name of the running
  binary, the project directories and group creation of the \<open>cache-manager\<close> package, the
  temporary directory, the process id) is a record of parameters.
\<close>

section \<open>Parameters and state\<close>

record host_env =
  env_var :: "string \<Rightarrow> string option"
  exe_stem :: "string option"
  project_dirs :: "string \<Rightarrow> path option"
  temp_dir :: path
  ensure_group :: "vfs \<Rightarrow> path \<Rightarrow> string \<Rightarrow> vfs \<times> (fs_error + unit)"
  pid_line :: "byte list"

datatype current_root = Snapshot | Local | Cache | System

datatype copy_source_root = FromSnapshot | FromLocal | FromCache | FromSystem

record path_resolver =
  root :: guarded_path
  current :: current_root
  lazy_candidate :: path
  lazy_live :: "guarded_path option"
  concrete :: "guarded_path option"
  build_context :: guarded_path
  workspace_root :: "guarded_path option"
  cache_guard :: guarded_path
  cache_app :: string
  cache_local :: bool
  system_anchor :: guarded_path

section \<open>Cache identity\<close>

definition nonblank :: "string option \<Rightarrow> string option" where
  "nonblank x = (case x of Some s \<Rightarrow> if trim s \<noteq> [] then Some s else None | None \<Rightarrow> None)"

definition auto_detect_app_name :: "host_env \<Rightarrow> string option \<Rightarrow> string" where
  "auto_detect_app_name E explicit =
     (case nonblank explicit of
        Some n \<Rightarrow> sanitize_app_name n
      | None \<Rightarrow>
          (case nonblank (env_var E ''OXDOCK_CACHE_APP'') of
             Some n \<Rightarrow> sanitize_app_name n
           | None \<Rightarrow>
               (case nonblank (env_var E ''CARGO_PKG_NAME'') of
                  Some n \<Rightarrow> sanitize_app_name n
                | None \<Rightarrow>
                    (case nonblank (exe_stem E) of
                       Some n \<Rightarrow> sanitize_app_name n
                     | None \<Rightarrow> FALLBACK_APP_NAME))))"

definition resolve_cache_dir :: "host_env \<Rightarrow> string option \<Rightarrow> path" where
  "resolve_cache_dir E explicit =
     (case nonblank (env_var E ''OXDOCK_CACHE_DIR'') of
        Some dir \<Rightarrow> path_of dir
      | None \<Rightarrow>
          (let app = auto_detect_app_name E explicit in
           case project_dirs E app of
             Some p \<Rightarrow> p
           | None \<Rightarrow> path_join (temp_dir E) [Normal (''oxdock-cache-'' @ app)]))"

definition cache_guard_for :: "host_env \<Rightarrow> string option \<Rightarrow> guarded_path" where
  "cache_guard_for E explicit =
     (let dir = path_join (resolve_cache_dir E explicit) [Normal ''workspace''] in
      from_guarded_parts dir dir)"

definition cache_guard_for_local :: "guarded_path \<Rightarrow> guarded_path" where
  "cache_guard_for_local anchor =
     (let dir = path_join (path_join (gp_path anchor) [Normal ''.cache'']) [Normal ''workspace''] in
      from_guarded_parts dir dir)"

definition cache_anchor :: "path_resolver \<Rightarrow> guarded_path" where
  "cache_anchor r = (case workspace_root r of Some w \<Rightarrow> w | None \<Rightarrow> build_context r)"

definition refresh_cache_guard :: "host_env \<Rightarrow> path_resolver \<Rightarrow> path_resolver" where
  "refresh_cache_guard E r =
     r\<lparr>cache_guard := (if cache_local r then cache_guard_for_local (cache_anchor r)
                       else cache_guard_for E (Some (cache_app r)))\<rparr>"

definition set_cache_app :: "host_env \<Rightarrow> path_resolver \<Rightarrow> string \<Rightarrow> path_resolver" where
  "set_cache_app E r app = refresh_cache_guard E (r\<lparr>cache_app := sanitize_app_name app\<rparr>)"

section \<open>Construction and selection\<close>

definition system_anchor_for :: "guarded_path \<Rightarrow> guarded_path" where
  "system_anchor_for bc =
     (let anchor = system_anchor_of (gp_path bc);
          anchor = (if anchor = [] then gp_path bc else anchor) in
      from_guarded_parts anchor anchor)"

definition from_eager_roots :: "host_env \<Rightarrow> path \<Rightarrow> guarded_path \<Rightarrow> guarded_path \<Rightarrow> path_resolver" where
  "from_eager_roots E fresh rt bc =
     \<lparr>root = rt, current = Snapshot, lazy_candidate = fresh, lazy_live = None, concrete = Some rt,
      build_context = bc, workspace_root = None, cache_guard = cache_guard_for E None,
      cache_app = auto_detect_app_name E None, cache_local = False,
      system_anchor = system_anchor_for bc\<rparr>"

definition new_lazy :: "host_env \<Rightarrow> path \<Rightarrow> string \<Rightarrow> guarded_path \<Rightarrow> path_resolver" where
  "new_lazy E fresh leaf bc =
     (let abs = path_join (temp_dir E) [Normal leaf] in
      \<lparr>root = from_guarded_parts abs abs, current = Snapshot, lazy_candidate = fresh, lazy_live = None,
       concrete = None, build_context = bc, workspace_root = None, cache_guard = cache_guard_for E None,
       cache_app = auto_detect_app_name E None, cache_local = False,
       system_anchor = system_anchor_for bc\<rparr>)"

definition effective_root :: "path_resolver \<Rightarrow> guarded_path" where
  "effective_root r =
     (case current r of
        Local \<Rightarrow> build_context r
      | Snapshot \<Rightarrow> (case concrete r of Some c \<Rightarrow> c | None \<Rightarrow> root r)
      | Cache \<Rightarrow> cache_guard r
      | System \<Rightarrow> system_anchor r)"

definition is_snapshot_pending :: "path_resolver \<Rightarrow> bool" where
  "is_snapshot_pending r \<longleftrightarrow> current r = Snapshot \<and> concrete r = None"

definition switch_to_snapshot :: "path_resolver \<Rightarrow> path_resolver" where
  "switch_to_snapshot r = r\<lparr>current := Snapshot\<rparr>"

definition switch_to_local :: "path_resolver \<Rightarrow> path_resolver" where
  "switch_to_local r = r\<lparr>current := Local\<rparr>"

definition switch_to_cache :: "host_env \<Rightarrow> path_resolver \<Rightarrow> bool \<Rightarrow> path_resolver" where
  "switch_to_cache E r local = (refresh_cache_guard E (r\<lparr>cache_local := local\<rparr>))\<lparr>current := Cache\<rparr>"

definition switch_to_system :: "path_resolver \<Rightarrow> path_resolver" where
  "switch_to_system r = r\<lparr>current := System\<rparr>"

definition adopt_cache_guard :: "host_env \<Rightarrow> path_resolver \<Rightarrow> guarded_path \<Rightarrow> path_resolver option" where
  "adopt_cache_guard E r g =
     (let os_guard = cache_guard_for E (Some (cache_app r));
          local_guard = cache_guard_for_local (cache_anchor r) in
      if g = os_guard then Some (r\<lparr>cache_guard := os_guard, cache_local := False\<rparr>)
      else if g = local_guard then Some (r\<lparr>cache_guard := local_guard, cache_local := True\<rparr>)
      else None)"

text \<open>Restoring the root a scope was entered with: only the selection is restored.\<close>

definition set_root :: "host_env \<Rightarrow> path_resolver \<Rightarrow> guarded_path \<Rightarrow> path_resolver" where
  "set_root E r g =
     (if g = build_context r then r\<lparr>current := Local\<rparr>
      else if g = cache_guard r then r\<lparr>current := Cache\<rparr>
      else if g = system_anchor r then r\<lparr>current := System\<rparr>
      else (case adopt_cache_guard E r g of
          Some r' \<Rightarrow> r'\<lparr>current := Cache\<rparr>
        | None \<Rightarrow> r\<lparr>current := Snapshot\<rparr>))"

section \<open>Access checks\<close>

definition check_access_with_root ::
  "path_resolver \<Rightarrow> vfs \<Rightarrow> guarded_path \<Rightarrow> path \<Rightarrow> access_mode \<Rightarrow> vfs \<times> (fs_error + guarded_path)" where
  "check_access_with_root r fs rootg candidate mode =
     (case guard_path fs (gp_path rootg) candidate mode of
        (fs1, Inr p) \<Rightarrow> (fs1, Ok (from_guarded_parts (gp_path rootg) p))
      | (fs1, Inl primary) \<Rightarrow>
          (fs1,
           case workspace_root r of
             None \<Rightarrow> Err primary
           | Some ws \<Rightarrow>
               if gp_path rootg \<noteq> gp_path (effective_root r) then Err primary
               else (case canonicalize fs1 (gp_path rootg) of
                   Inl _ \<Rightarrow> Err primary
                 | Inr rt \<Rightarrow>
                     (case normalize_candidate fs1 (abs_path rt) candidate of
                        Inl _ \<Rightarrow> Err primary
                      | Inr canon \<Rightarrow>
                          if starts_with canon (gp_path ws)
                          then Ok (from_guarded_parts (gp_path rootg) candidate)
                          else Err primary))))"

definition check_access ::
  "path_resolver \<Rightarrow> vfs \<Rightarrow> path \<Rightarrow> access_mode \<Rightarrow> vfs \<times> (fs_error + guarded_path)" where
  "check_access r fs candidate mode =
     (if is_snapshot_pending r \<and> starts_with candidate (gp_path (root r)) then (fs, Err SnapshotPending)
      else if current r = System \<and> is_absolute candidate then
        (let anchor = system_anchor_of candidate in
         check_access_with_root r fs (from_guarded_parts anchor anchor) candidate mode)
      else check_access_with_root r fs (effective_root r) candidate mode)"

text \<open>Reads fall back to the build context.\<close>

definition check_access_or_context ::
  "path_resolver \<Rightarrow> vfs \<Rightarrow> path \<Rightarrow> access_mode \<Rightarrow> vfs \<times> (fs_error + guarded_path)" where
  "check_access_or_context r fs candidate mode =
     (case check_access r fs candidate mode of
        (fs1, Inr g) \<Rightarrow> (fs1, Ok g)
      | (fs1, Inl _) \<Rightarrow> check_access_with_root r fs1 (build_context r) candidate mode)"

section \<open>Guarded file operations\<close>

definition write_file :: "path_resolver \<Rightarrow> vfs \<Rightarrow> guarded_path \<Rightarrow> byte list \<Rightarrow> vfs \<times> (fs_error + unit)" where
  "write_file r fs g contents =
     (case check_access r fs (gp_path g) Write of
        (fs1, Inl e) \<Rightarrow> (fs1, Err e)
      | (fs1, Inr h) \<Rightarrow> backend_write_file fs1 h contents)"

definition append_file :: "path_resolver \<Rightarrow> vfs \<Rightarrow> guarded_path \<Rightarrow> byte list \<Rightarrow> vfs \<times> (fs_error + unit)" where
  "append_file r fs g contents =
     (case check_access r fs (gp_path g) Write of
        (fs1, Inl e) \<Rightarrow> (fs1, Err e)
      | (fs1, Inr h) \<Rightarrow> backend_append_file fs1 h contents)"

definition read_file :: "path_resolver \<Rightarrow> vfs \<Rightarrow> guarded_path \<Rightarrow> vfs \<times> (fs_error + byte list)" where
  "read_file r fs g =
     (case check_access_or_context r fs (gp_path g) Read of
        (fs1, Inl e) \<Rightarrow> (fs1, Err e)
      | (fs1, Inr h) \<Rightarrow> (fs1, backend_read_file fs1 h))"

definition guarded_create_dir_all :: "path_resolver \<Rightarrow> vfs \<Rightarrow> guarded_path \<Rightarrow> vfs \<times> (fs_error + unit)" where
  "guarded_create_dir_all r fs g =
     (case check_access r fs (gp_path g) Write of
        (fs1, Inl e) \<Rightarrow> (fs1, Err e)
      | (fs1, Inr h) \<Rightarrow> backend_create_dir_all fs1 (effective_root r) h)"

definition ensure_parent_dir :: "path_resolver \<Rightarrow> vfs \<Rightarrow> guarded_path \<Rightarrow> vfs \<times> (fs_error + unit)" where
  "ensure_parent_dir r fs g =
     (case path_parent (gp_path g) of
        None \<Rightarrow> (fs, Ok ())
      | Some parent \<Rightarrow>
          (case check_access_or_context r fs parent Write of
             (fs1, Inl e) \<Rightarrow> (fs1, Err e)
           | (fs1, Inr h) \<Rightarrow> backend_create_dir_all fs1 (effective_root r) h))"

definition guarded_canonicalize :: "path_resolver \<Rightarrow> vfs \<Rightarrow> guarded_path \<Rightarrow> vfs \<times> (fs_error + guarded_path)" where
  "guarded_canonicalize r fs g = check_access_or_context r fs (gp_path g) Read"

definition guarded_metadata :: "path_resolver \<Rightarrow> vfs \<Rightarrow> guarded_path \<Rightarrow> vfs \<times> (fs_error + node)" where
  "guarded_metadata r fs g =
     (case check_access_or_context r fs (gp_path g) Read of
        (fs1, Inl e) \<Rightarrow> (fs1, Err e)
      | (fs1, Inr h) \<Rightarrow> (fs1, metadata fs1 (gp_path h)))"

definition guarded_remove_file :: "path_resolver \<Rightarrow> vfs \<Rightarrow> guarded_path \<Rightarrow> vfs \<times> (fs_error + unit)" where
  "guarded_remove_file r fs g =
     (case check_access r fs (gp_path g) Write of
        (fs1, Inl e) \<Rightarrow> (fs1, Err e)
      | (fs1, Inr h) \<Rightarrow> backend_remove_file fs1 h)"

definition guarded_remove_dir_all :: "path_resolver \<Rightarrow> vfs \<Rightarrow> guarded_path \<Rightarrow> vfs \<times> (fs_error + unit)" where
  "guarded_remove_dir_all r fs g =
     (case check_access r fs (gp_path g) Write of
        (fs1, Inl e) \<Rightarrow> (fs1, Err e)
      | (fs1, Inr h) \<Rightarrow> backend_remove_dir_all fs1 h)"

definition refuse_final_symlink :: "vfs \<Rightarrow> guarded_path \<Rightarrow> fs_error + unit" where
  "refuse_final_symlink fs g =
     (case symlink_metadata fs (gp_path g) of
        Inl e \<Rightarrow> if e = NotFound then Ok () else Err e
      | Inr (Link t) \<Rightarrow> Err (RefusesSymlink (gp_path g))
      | Inr _ \<Rightarrow> Ok ())"

fun refuse_links :: "vfs \<Rightarrow> path \<Rightarrow> string list \<Rightarrow> fs_error + unit" where
  "refuse_links fs cur [] = Ok ()"
| "refuse_links fs cur (part # parts) =
     (if part = [] \<or> part = ''.'' then refuse_links fs cur parts
      else if part = ''..'' then Err RefusesParent
      else
        (let cur' = path_join cur [Normal part] in
         case symlink_metadata fs cur' of
           Inl e \<Rightarrow> if e = NotFound then refuse_links fs cur' parts else Err e
         | Inr (Link t) \<Rightarrow> Err (RefusesSymlink cur')
         | Inr _ \<Rightarrow> refuse_links fs cur' parts))"

definition refuse_link_ancestors :: "vfs \<Rightarrow> guarded_path \<Rightarrow> string \<Rightarrow> fs_error + unit" where
  "refuse_link_ancestors fs base rel = refuse_links fs (gp_path base) (split_on CHR ''/'' rel)"

section \<open>The snapshot directory\<close>

definition ascii_bytes :: "string \<Rightarrow> byte list" where
  "ascii_bytes s = map of_char s"

definition write_temp_lock :: "host_env \<Rightarrow> vfs \<Rightarrow> guarded_path \<Rightarrow> vfs \<times> (fs_error + unit)" where
  "write_temp_lock E fs g =
     (case guarded_join fs g ''.oxdock-tempdir.lock'' of
        (fs1, Inl e) \<Rightarrow> (fs1, Err e)
      | (fs1, Inr lock) \<Rightarrow> fs_update fs1 (gp_path lock) (\<lambda>_. pid_line E))"

definition write_temp_marker :: "host_env \<Rightarrow> vfs \<Rightarrow> guarded_path \<Rightarrow> vfs \<times> (fs_error + unit)" where
  "write_temp_marker E fs g =
     (case guarded_join fs g ''.oxdock-tempdir'' of
        (fs1, Inl e) \<Rightarrow> (fs1, Err e)
      | (fs1, Inr marker) \<Rightarrow>
          write_file (from_eager_roots E [] g g) fs1 marker (ascii_bytes ''oxdock-tempdir''))"

definition try_candidate :: "host_env \<Rightarrow> vfs \<Rightarrow> path \<Rightarrow> vfs \<times> (fs_error + guarded_path)" where
  "try_candidate E fs p =
     (case mkdir fs p of
        (fs1, Inl e) \<Rightarrow> (fs1, Err e)
      | (fs1, Inr _) \<Rightarrow>
          (case guarded_new_root fs1 p of
             (fs2, Inl e) \<Rightarrow> (fs2, Err e)
           | (fs2, Inr g) \<Rightarrow>
               (case write_temp_lock E fs2 g of
                  (fs3, Inl e) \<Rightarrow> (fs3, Err e)
                | (fs3, Inr _) \<Rightarrow>
                    (case write_temp_marker E fs3 g of
                       (fs4, Inl e) \<Rightarrow> (fs4, Err e)
                     | (fs4, Inr _) \<Rightarrow> (fs4, Ok g)))))"

definition lazy_ensure :: "host_env \<Rightarrow> path_resolver \<Rightarrow> vfs \<Rightarrow> path_resolver \<times> vfs \<times> (fs_error + guarded_path)" where
  "lazy_ensure E r fs =
     (case lazy_live r of
        Some g \<Rightarrow> (r, fs, Ok g)
      | None \<Rightarrow>
          (case try_candidate E fs (lazy_candidate r) of
             (fs1, Inl e) \<Rightarrow> (r, fs1, Err e)
           | (fs1, Inr g) \<Rightarrow> (r\<lparr>lazy_live := Some g\<rparr>, fs1, Ok g)))"

definition snapshot_concrete :: "host_env \<Rightarrow> path_resolver \<Rightarrow> vfs \<Rightarrow> path_resolver \<times> vfs \<times> (fs_error + guarded_path)" where
  "snapshot_concrete E r fs =
     (case concrete r of
        Some c \<Rightarrow> (r, fs, Ok c)
      | None \<Rightarrow>
          (case lazy_ensure E r fs of
             (r1, fs1, Inl e) \<Rightarrow> (r1, fs1, Err e)
           | (r1, fs1, Inr g) \<Rightarrow> (r1\<lparr>concrete := Some g\<rparr>, fs1, Ok g)))"

definition rebased_cwd ::
  "host_env \<Rightarrow> path_resolver \<Rightarrow> vfs \<Rightarrow> guarded_path \<Rightarrow> path_resolver \<times> vfs \<times> (fs_error + guarded_path)" where
  "rebased_cwd E r fs cwd =
     (if current r \<noteq> Snapshot then (r, fs, Ok cwd)
      else (case snapshot_concrete E r fs of
          (r1, fs1, Inl e) \<Rightarrow> (r1, fs1, Err e)
        | (r1, fs1, Inr c) \<Rightarrow>
            if gp_root cwd = gp_root c then (r1, fs1, Ok cwd)
            else (case strip_prefix (gp_path (root r1)) (gp_path cwd) of
                None \<Rightarrow> (r1, fs1, Err CwdOutsideSnapshot)
              | Some rel \<Rightarrow> (case guarded_new fs1 (gp_root c) (path_join (gp_path c) rel) of (fs2, res) \<Rightarrow> (r1, fs2, res)))))"

definition system_entry_cwd :: "path_resolver \<Rightarrow> guarded_path \<Rightarrow> guarded_path" where
  "system_entry_cwd r cwd =
     (case strip_prefix (gp_path (root r)) (gp_path cwd) of
        None \<Rightarrow> cwd
      | Some rel \<Rightarrow>
          (case concrete r of
             Some c \<Rightarrow> from_guarded_parts (gp_root c) (path_join (gp_path c) rel)
           | None \<Rightarrow> system_anchor r))"

definition concretize_cwd :: "path_resolver \<Rightarrow> vfs \<Rightarrow> guarded_path \<Rightarrow> vfs \<times> guarded_path" where
  "concretize_cwd r fs cwd =
     (if current r \<noteq> Snapshot then (fs, cwd)
      else (case concrete r of
          None \<Rightarrow> (fs, cwd)
        | Some c \<Rightarrow>
            if gp_root cwd = gp_root c then (fs, cwd)
            else (case strip_prefix (gp_path (root r)) (gp_path cwd) of
                None \<Rightarrow> (fs, cwd)
              | Some rel \<Rightarrow>
                  (case guarded_new fs (gp_root c) (path_join (gp_path c) rel) of
                     (fs1, Inl e) \<Rightarrow> (fs1, cwd)
                   | (fs1, Inr g) \<Rightarrow> (fs1, g)))))"

definition ensure_cache :: "host_env \<Rightarrow> path_resolver \<Rightarrow> vfs \<Rightarrow> vfs \<times> (fs_error + guarded_path)" where
  "ensure_cache E r fs =
     (case path_parent (gp_path (cache_guard r)) of
        None \<Rightarrow> (fs, Err NoParent)
      | Some parent \<Rightarrow>
          (case ensure_group E fs parent ''workspace'' of
             (fs1, Inl e) \<Rightarrow> (fs1, Err e)
           | (fs1, Inr u) \<Rightarrow> (fs1, Ok (cache_guard r))))"

section \<open>Resolution\<close>

definition system_candidate :: "path_resolver \<Rightarrow> guarded_path \<Rightarrow> path \<Rightarrow> path" where
  "system_candidate r cwd rel =
     (let base = (if is_absolute (gp_path cwd) then gp_path cwd
                  else path_join (gp_path (build_context r)) (gp_path cwd)) in
      if is_absolute rel then rel
      else if is_absolute_or_rooted rel then path_join (system_anchor_of base) (root_relative_path rel)
      else path_join base rel)"

definition resolve_system :: "path_resolver \<Rightarrow> guarded_path \<Rightarrow> string \<Rightarrow> guarded_path" where
  "resolve_system r cwd rel =
     system_wrap_absolute (system_candidate r cwd (path_of (to_forward_slashes rel)))"

definition resolve_workdir_system ::
  "path_resolver \<Rightarrow> vfs \<Rightarrow> guarded_path \<Rightarrow> string \<Rightarrow> vfs \<times> (fs_error + guarded_path)" where
  "resolve_workdir_system r fs cur new_dir =
     (if new_dir = ''/'' then backend_resolve_workdir fs (system_anchor r)
      else backend_resolve_workdir fs
             (system_wrap_absolute (system_candidate r cur (path_of (to_forward_slashes new_dir)))))"

text \<open>Resolution in a confined selection, once the cache directory exists and the working
  directory has been moved off the pending anchor: an absolute path is taken as it is when
  the guard admits it and otherwise re-anchored under the root.\<close>

definition resolve_in ::
  "path_resolver \<Rightarrow> vfs \<Rightarrow> guarded_path \<Rightarrow> path \<Rightarrow> access_mode \<Rightarrow> vfs \<times> (fs_error + guarded_path)" where
  "resolve_in r fs cwd rel_path mode =
     (if is_absolute_or_rooted rel_path then
        (case check_access r fs rel_path mode of
           (fs1, Inr g) \<Rightarrow> (fs1, Ok g)
         | (fs1, Inl _) \<Rightarrow>
             check_access r fs1 (path_join (gp_path (effective_root r)) (root_relative_path rel_path)) mode)
      else check_access r fs (path_join (gp_path cwd) rel_path) mode)"

definition resolve ::
  "host_env \<Rightarrow> path_resolver \<Rightarrow> vfs \<Rightarrow> guarded_path \<Rightarrow> string \<Rightarrow> access_mode
   \<Rightarrow> path_resolver \<times> vfs \<times> (fs_error + guarded_path)" where
  "resolve E r fs cwd rel mode =
     (if current r = System then (r, fs, Ok (resolve_system r cwd rel))
      else (case (if current r = Cache then ensure_cache E r fs else (fs, Ok cwd)) of
          (fs1, Inl e) \<Rightarrow> (r, fs1, Err e)
        | (fs1, Inr _) \<Rightarrow>
            (case rebased_cwd E r fs1 cwd of
               (r2, fs2, Inl e) \<Rightarrow> (r2, fs2, Err e)
             | (r2, fs2, Inr cwd2) \<Rightarrow>
                 (case resolve_in r2 fs2 cwd2 (path_of (to_forward_slashes rel)) mode of
                    (fs3, res) \<Rightarrow> (r2, fs3, res)))))"

definition resolve_workdir ::
  "host_env \<Rightarrow> path_resolver \<Rightarrow> vfs \<Rightarrow> guarded_path \<Rightarrow> string
   \<Rightarrow> path_resolver \<times> vfs \<times> (fs_error + guarded_path)" where
  "resolve_workdir E r fs cur new_dir =
     (if current r = System then
        (case resolve_workdir_system r fs cur new_dir of (fs1, res) \<Rightarrow> (r, fs1, res))
      else (case (if current r = Cache then ensure_cache E r fs else (fs, Ok cur)) of
          (fs1, Inl e) \<Rightarrow> (r, fs1, Err e)
        | (fs1, Inr _) \<Rightarrow>
            if new_dir = ''/'' then (r, fs1, Ok (effective_root r))
            else (case rebased_cwd E r fs1 cur of
                (r2, fs2, Inl e) \<Rightarrow> (r2, fs2, Err e)
              | (r2, fs2, Inr cur2) \<Rightarrow>
                  (case resolve_in r2 fs2 cur2 (path_of new_dir) Write of
                     (fs3, Inl e) \<Rightarrow> (r2, fs3, Err e)
                   | (fs3, Inr g) \<Rightarrow>
                       (case backend_resolve_workdir fs3 g of (fs4, res) \<Rightarrow> (r2, fs4, res))))))"

text \<open>Slicing the quotes off a text that is a single quote is out of range, a panic.\<close>

definition strip_quotes :: "string \<Rightarrow> string option" where
  "strip_quotes s =
     (if s \<noteq> [] \<and> hd s = last s \<and> (hd s = CHR 0x22 \<or> hd s = CHR 0x27)
      then if length s = 1 then None else Some (butlast (tl s))
      else Some s)"

definition parse_env_path ::
  "host_env \<Rightarrow> path_resolver \<Rightarrow> vfs \<Rightarrow> guarded_path \<Rightarrow> string
   \<Rightarrow> path_resolver \<times> vfs \<times> (fs_error + guarded_path)" where
  "parse_env_path E r fs cwd inp =
     (case strip_quotes (trim inp) of
        None \<Rightarrow> (r, fs, Err SliceOutOfRange)
      | Some s \<Rightarrow>
          (let s = (case strip_prefix ''file:///'' s of
                      Some t \<Rightarrow> t
                    | None \<Rightarrow> (case strip_prefix ''file://'' s of Some t \<Rightarrow> t | None \<Rightarrow> s)) in
           resolve E r fs cwd (to_forward_slashes s) Read))"

section \<open>Copy sources\<close>

definition and_source :: "vfs \<times> (fs_error + guarded_path) \<Rightarrow> vfs \<times> (fs_error + guarded_path)" where
  "and_source x = (case x of (fs, Inl e) \<Rightarrow> (fs, Err e) | (fs, Inr g) \<Rightarrow> (fs, backend_resolve_copy_source fs g))"

definition resolve_copy_source :: "path_resolver \<Rightarrow> vfs \<Rightarrow> string \<Rightarrow> vfs \<times> (fs_error + guarded_path)" where
  "resolve_copy_source r fs from =
     (let from_path = path_of from in
      if is_absolute_or_rooted from_path then
        (if current r = System then (fs, backend_resolve_copy_source fs (system_wrap_absolute from_path))
         else (case (case workspace_root r of
                       Some ws \<Rightarrow> check_access_with_root r fs ws from_path Read
                     | None \<Rightarrow> (fs, Err NoWorkspaceRoot)) of
             (fs1, Inr g) \<Rightarrow> (fs1, backend_resolve_copy_source fs1 g)
           | (fs1, Inl _) \<Rightarrow>
               (case check_access_with_root r fs1 (build_context r) from_path Read of
                  (fs2, Inr g) \<Rightarrow> (fs2, backend_resolve_copy_source fs2 g)
                | (fs2, Inl _) \<Rightarrow>
                    (let rt = cache_anchor r in
                     and_source (check_access_with_root r fs2 rt
                       (path_join (gp_path rt) (root_relative_path from_path)) Read)))))
      else
        (case check_access_with_root r fs (build_context r) (path_join (gp_path (build_context r)) from_path) Read of
           (fs1, Inr g) \<Rightarrow> (fs1, backend_resolve_copy_source fs1 g)
         | (fs1, Inl primary) \<Rightarrow>
             (case workspace_root r of
                None \<Rightarrow> (fs1, Err primary)
              | Some ws \<Rightarrow>
                  (case check_access_with_root r fs1 ws (path_join (gp_path ws) from_path) Read of
                     (fs2, Inr g) \<Rightarrow> (fs2, backend_resolve_copy_source fs2 g)
                   | (fs2, Inl _) \<Rightarrow> (fs2, Err primary)))))"

definition resolve_copy_source_from_root ::
  "path_resolver \<Rightarrow> vfs \<Rightarrow> guarded_path \<Rightarrow> string \<Rightarrow> vfs \<times> (fs_error + guarded_path)" where
  "resolve_copy_source_from_root r fs source_root from =
     (let from_path = path_of from in
      and_source (check_access_with_root r fs source_root
        (if is_absolute_or_rooted from_path then from_path
         else path_join (gp_path source_root) from_path) Read))"

definition resolve_copy_source_from_workspace ::
  "path_resolver \<Rightarrow> vfs \<Rightarrow> string \<Rightarrow> vfs \<times> (fs_error + guarded_path)" where
  "resolve_copy_source_from_workspace r fs from =
     (case workspace_root r of
        None \<Rightarrow> (fs, Err NoWorkspaceRoot)
      | Some ws \<Rightarrow> resolve_copy_source_from_root r fs ws from)"

definition resolve_copy_source_from_target ::
  "host_env \<Rightarrow> path_resolver \<Rightarrow> vfs \<Rightarrow> copy_source_root \<Rightarrow> string \<Rightarrow> vfs \<times> (fs_error + guarded_path)" where
  "resolve_copy_source_from_target E r fs target from =
     (case target of
        FromLocal \<Rightarrow> resolve_copy_source_from_workspace r fs from
      | FromSnapshot \<Rightarrow>
          (case concrete r of
             None \<Rightarrow> (fs, Err SnapshotRequired)
           | Some c \<Rightarrow> resolve_copy_source_from_root r fs c from)
      | FromCache \<Rightarrow>
          (case ensure_cache E r fs of
             (fs1, Inl e) \<Rightarrow> (fs1, Err e)
           | (fs1, Inr g) \<Rightarrow> resolve_copy_source_from_root r fs1 g from)
      | FromSystem \<Rightarrow>
          (let from_path = path_of from in
           if is_absolute_or_rooted from_path
           then (fs, backend_resolve_copy_source fs (system_wrap_absolute from_path))
           else and_source (check_access_with_root r fs (build_context r)
                  (path_join (gp_path (build_context r)) from_path) Read)))"

definition recheck_resolved_source ::
  "path_resolver \<Rightarrow> vfs \<Rightarrow> guarded_path \<Rightarrow> vfs \<times> (fs_error + guarded_path)" where
  "recheck_resolved_source r fs src =
     (case check_access_with_root r fs (from_guarded_parts (gp_root src) (gp_root src)) (gp_path src) Read of
        (fs1, Inr g) \<Rightarrow> (fs1, Ok g)
      | (fs1, Inl _) \<Rightarrow>
          if gp_root src = system_anchor_of (gp_path src)
          then (fs1, Ok (system_wrap_absolute (gp_path src)))
          else check_access_or_context r fs1 (gp_path src) Read)"

definition copy_file :: "path_resolver \<Rightarrow> vfs \<Rightarrow> guarded_path \<Rightarrow> guarded_path \<Rightarrow> vfs \<times> (fs_error + nat)" where
  "copy_file r fs src dst =
     (case check_access r fs (gp_path dst) Write of
        (fs1, Inl e) \<Rightarrow> (fs1, Err e)
      | (fs1, Inr gdst) \<Rightarrow>
          (case recheck_resolved_source r fs1 src of
             (fs2, Inl e) \<Rightarrow> (fs2, Err e)
           | (fs2, Inr gsrc) \<Rightarrow>
               (case (case path_parent (gp_path gdst) of
                        None \<Rightarrow> (fs2, Ok ())
                      | Some parent \<Rightarrow> guarded_create_dir_all r fs2 (from_guarded_parts (gp_root gdst) parent)) of
                  (fs3, Inl e) \<Rightarrow> (fs3, Err e)
                | (fs3, Inr _) \<Rightarrow> fs_copy fs3 (gp_path gsrc) (gp_path gdst))))"

end
