(* ===== verification/Workspace_Containment.thy ===== *)
theory Workspace_Containment
  imports Workspace_Resolver
begin

text \<open>
  What the workspace file system guarantees: what a script resolves, reads and writes stays
  under the selected root or the workspace root, up to two situations that are exhibited (a dangling link in the
  last place, and a path that exhausts the link limit of the kernel); leaving a scope gives the
  workspace root back; the cache directory of an application is one path segment; and the
  lexical normalization used without confinement agrees with the kernel where there are no links.
\<close>

section \<open>Clean paths\<close>

text \<open>Absolute, with the root marker only in front: what every accepted path looks like.\<close>

definition clean_path :: "path \<Rightarrow> bool" where
  "clean_path p \<longleftrightarrow> is_absolute p \<and> RootDir \<notin> set (tl p)"

lemma clean_abs_path [simp]: "clean_path (abs_path ns)"
  by (auto simp: clean_path_def abs_path_def is_absolute_def)

lemma segment_no_root: "RootDir \<notin> set (segment s)"
  by (simp add: segment_def)

lemma path_of_root: "RootDir \<notin> set (tl (path_of s))"
proof -
  have tl: "RootDir \<notin> set (tl xs)" if "RootDir \<notin> set xs" for xs
    using that by (cases xs) auto
  have "RootDir \<notin> set (filter (\<lambda>c. c \<noteq> CurDir) (concat (map segment ss)))" for ss
    using segment_no_root by auto
  then show ?thesis by (simp add: path_of_def Let_def tl)
qed

lemma path_of_relative: "\<not> is_absolute (path_of s) \<Longrightarrow> RootDir \<notin> set (path_of s)"
  using path_of_root [of s] by (cases "path_of s") (auto simp: is_absolute_def)

lemma root_relative_no_root: "RootDir \<notin> set (root_relative_path p)"
  by (induction p rule: root_relative_path.induct) auto

lemma clean_join:
  "\<lbrakk>clean_path p; RootDir \<notin> set q\<rbrakk> \<Longrightarrow> clean_path (path_join p q)"
  by (cases p; cases q) (auto simp: clean_path_def path_join_def is_absolute_def)

lemma clean_normalize:
  "clean_path p \<Longrightarrow> \<exists>ns. normalize_candidate fs rt p = Ok (abs_path ns)"
  by (simp add: clean_path_def normalize_candidate_shape)

section \<open>What a check accepts\<close>

text \<open>Confined: one of the roots is selected, not the whole host. The workspace root, which every run
  sets, may be none.\<close>

definition confined :: "path_resolver \<Rightarrow> bool" where
  "confined r \<longleftrightarrow> current r \<noteq> System"

text \<open>Under the workspace root, in the sense of the fallback of the access check.\<close>

definition in_workspace :: "path_resolver \<Rightarrow> names \<Rightarrow> bool" where
  "in_workspace r ns \<longleftrightarrow> (\<exists>ws. workspace_root r = Some ws \<and> prefix (gp_path ws) (abs_path ns))"

text \<open>A workspace root is the canonical name of something that is there, as the constructor of guarded
  roots makes it.\<close>

definition canonical_workspace :: "vfs \<Rightarrow> path_resolver \<Rightarrow> bool" where
  "canonical_workspace fs r \<longleftrightarrow>
     (case workspace_root r of None \<Rightarrow> True | Some ws \<Rightarrow> \<exists>wt. gp_path ws = abs_path wt \<and> canonical (nodes fs) wt)"

text \<open>What an access check accepts: the normal form of a path, under the root, or, by the fallback, the path
  as it is, when its normal form is under the workspace root.\<close>

definition accepts :: "path_resolver \<Rightarrow> vfs \<Rightarrow> names \<Rightarrow> path \<Rightarrow> path \<Rightarrow> bool" where
  "accepts r fs rt p q \<longleftrightarrow>
     (\<exists>ns. normalize_candidate fs (abs_path rt) p = Ok (abs_path ns)
       \<and> (q = abs_path ns \<and> prefix rt ns \<or> q = p \<and> in_workspace r ns))"

lemma check_with_root_accepts:
  assumes "check_access_with_root r fs rootg p mode = (fs', Ok g)" and "clean_path p"
  obtains rt where "canonicalize fs' (gp_path rootg) = Ok rt" "accepts r fs' rt p (gp_path g)"
proof (cases "guard_path fs (gp_path rootg) p mode")
  case (Pair fs1 res)
  show ?thesis
  proof (cases res)
    case (Inr q)
    with Pair assms(1) have fs1: "fs1 = fs'" and q: "gp_path g = q"
      by (auto simp: check_access_with_root_def)
    from Inr Pair obtain rt where rt: "canonicalize fs1 (gp_path rootg) = Ok rt"
      "normalize_candidate fs1 (abs_path rt) p = Ok q" "prefix (abs_path rt) q"
      by (fastforce simp: guard_path_def split: prod.splits sum.splits if_splits)
    obtain ns where ns: "normalize_candidate fs1 (abs_path rt) p = Ok (abs_path ns)"
      using clean_normalize [OF assms(2)] by blast
    with rt have "q = abs_path ns" "prefix rt ns" by auto
    with ns q fs1 rt(1) that show ?thesis by (auto simp: accepts_def)
  next
    case (Inl e)
    with Pair assms(1) obtain ws rt canon where ws: "workspace_root r = Some ws"
      and rt: "canonicalize fs' (gp_path rootg) = Ok rt"
      and canon: "normalize_candidate fs' (abs_path rt) p = Ok canon" "prefix (gp_path ws) canon" "gp_path g = p"
      by (auto simp: check_access_with_root_def split: option.splits if_splits sum.splits)
    obtain ns where "normalize_candidate fs' (abs_path rt) p = Ok (abs_path ns)"
      using clean_normalize [OF assms(2)] by blast
    with canon ws rt that show ?thesis by (auto simp: accepts_def in_workspace_def)
  qed
qed

lemma check_accepts:
  assumes "check_access r fs p mode = (fs', Ok g)" and "confined r" and "clean_path p"
  obtains rt where "canonicalize fs' (gp_path (effective_root r)) = Ok rt" "accepts r fs' rt p (gp_path g)"
proof -
  have "check_access_with_root r fs (effective_root r) p mode = (fs', Ok g)"
    using assms(1,2) by (auto simp: check_access_def confined_def split: if_splits)
  from check_with_root_accepts [OF this assms(3)] that show ?thesis by blast
qed

lemma check_with_root_accepts_at:
  assumes "check_access_with_root r fs rootg p mode = (fs', Ok g)"
    and "canonicalize fs' (gp_path rootg) = Ok rt" and "clean_path p"
  shows "accepts r fs' rt p (gp_path g)"
proof -
  obtain t where "canonicalize fs' (gp_path rootg) = Ok t" "accepts r fs' t p (gp_path g)"
    by (rule check_with_root_accepts [OF assms(1,3)])
  with assms(2) show ?thesis by simp
qed

lemma check_accepts_at:
  assumes "check_access r fs p mode = (fs', Ok g)" and "confined r"
    and "canonicalize fs' (gp_path (effective_root r)) = Ok rt" and "clean_path p"
  shows "accepts r fs' rt p (gp_path g)"
proof -
  obtain t where "canonicalize fs' (gp_path (effective_root r)) = Ok t" "accepts r fs' t p (gp_path g)"
    by (rule check_accepts [OF assms(1,2,4)])
  with assms(3) show ?thesis by simp
qed

text \<open>With an existing root a check changes nothing.\<close>

lemma check_with_root_pure:
  "canonicalize fs (gp_path rootg) = Ok rt \<Longrightarrow> fst (check_access_with_root r fs rootg p mode) = fs"
  by (simp add: check_access_with_root_def guard_path_existing split: sum.splits)

lemma check_pure:
  assumes "canonicalize fs (gp_path (effective_root r)) = Ok rt" and "confined r"
  shows "fst (check_access r fs p mode) = fs"
  using assms check_with_root_pure by (simp add: check_access_def confined_def)

section \<open>Containment\<close>

text \<open>Nothing changes but under the given root or under the workspace root.\<close>

definition only_inside :: "path_resolver \<Rightarrow> names \<Rightarrow> vfs \<Rightarrow> vfs \<Rightarrow> bool" where
  "only_inside r rt fs fs' \<longleftrightarrow>
     process_cwd fs' = process_cwd fs \<and> (\<forall>q. nodes fs' q \<noteq> nodes fs q \<longrightarrow> prefix rt q \<or> in_workspace r q)"

lemma only_inside_refl [simp]: "only_inside r rt fs fs"
  by (simp add: only_inside_def)

lemma accepted_put_contained:
  assumes "wf_fs fs" and "canonical (nodes fs) rt" and "canonical_workspace fs r"
    and "canonicalize fs (abs_path ps) \<noteq> Err TooManyLinks" and "\<not> dangling fs (abs_path ps)"
    and "accepts r fs rt (abs_path ps) q"
  shows "only_inside r rt fs (fst (backend_put fs q f))"
proof -
  obtain ns where ns: "normalize_candidate fs (abs_path rt) (abs_path ps) = Ok (abs_path ns)"
    and q: "q = abs_path ns \<and> prefix rt ns \<or> q = abs_path ps \<and> in_workspace r ns"
    using assms(6) by (auto simp: accepts_def)
  from q show ?thesis
  proof
    assume "q = abs_path ns \<and> prefix rt ns"
    with put_contained [OF assms(1,4,5,2) ns] show ?thesis by (auto simp: only_under_def only_inside_def)
  next
    assume ws: "q = abs_path ps \<and> in_workspace r ns"
    then obtain w wt where w: "workspace_root r = Some w" "gp_path w = abs_path wt" "canonical (nodes fs) wt" "prefix wt ns"
      using assms(3) by (auto simp: in_workspace_def canonical_workspace_def)
    with put_contained [OF assms(1,4,5) w(3) ns w(4), of ps f] ws show ?thesis
      by (auto simp: only_under_def only_inside_def in_workspace_def)
  qed
qed

text \<open>C8. 
  Writing and appending through the guard, to a path of plain names: nothing outside the selected root and the
  workspace root changes, whether the operation succeeds or fails, provided resolving the path does not
  exhaust the link limit and its last name is not a dangling link. The selected root is there, and a workspace
  root, when set, is a canonical name.
\<close>

theorem write_stays_inside:
  assumes "wf_fs fs" and "confined r" and "canonicalize fs (gp_path (effective_root r)) = Ok rt"
    and "canonical_workspace fs r" and "gp_path g = abs_path ps"
    and "canonicalize fs (abs_path ps) \<noteq> Err TooManyLinks" and "\<not> dangling fs (abs_path ps)"
  shows "only_inside r rt fs (fst (write_file r fs g bs)) \<and> only_inside r rt fs (fst (append_file r fs g bs))"
proof (cases "check_access r fs (gp_path g) Write")
  case (Pair fs1 res)
  have fs1: "fs1 = fs" using check_pure [OF assms(3,2), of "gp_path g" Write] Pair by simp
  show ?thesis
  proof (cases res)
    case (Inr h)
    with Pair fs1 assms(5) have "check_access r fs (abs_path ps) Write = (fs, Ok h)" by simp
    then have "accepts r fs rt (abs_path ps) (gp_path h)" by (rule check_accepts_at [OF _ assms(2,3) clean_abs_path])
    from accepted_put_contained [OF assms(1) canonicalize_canonical [OF assms(1,3)] assms(4,6,7) this] Inr Pair fs1
    show ?thesis by (simp add: write_file_def append_file_def backend_write_file_def backend_append_file_def)
  qed (use Pair fs1 in \<open>simp add: write_file_def append_file_def\<close>)
qed

lemma accepted_read_contained:
  assumes "wf_fs fs" and "canonicalize fs (abs_path ps) \<noteq> Err TooManyLinks"
    and "accepts r fs rt (abs_path ps) q" and "fs_read fs q = Ok bs"
  shows "\<exists>ns. nodes fs ns = Some (File bs) \<and> (prefix rt ns \<or> in_workspace r ns)"
proof -
  obtain ns where ns: "normalize_candidate fs (abs_path rt) (abs_path ps) = Ok (abs_path ns)"
    and q: "q = abs_path ns \<and> prefix rt ns \<or> q = abs_path ps \<and> in_workspace r ns"
    using assms(3) by (auto simp: accepts_def)
  from q show ?thesis
  proof
    assume "q = abs_path ns \<and> prefix rt ns"
    with read_contained [OF assms(1,2) ns] assms(4) show ?thesis by blast
  next
    assume ws: "q = abs_path ps \<and> in_workspace r ns"
    then obtain ms where "canonicalize fs (abs_path ps) = Ok ms" "nodes fs ms = Some (File bs)"
      using assms(4) by (auto simp: fs_read_def metadata_def split: sum.splits option.splits node.splits)
    with ns ws show ?thesis by (auto simp: normalize_candidate_def)
  qed
qed

text \<open>C9. 
  Reading through the guard, from a path of plain names: the bytes returned are those of a file under the selected
  root, under the workspace root, or under the build context, the documented fallback of reads, provided resolving the
  path does not exhaust the link limit. The selected root and the build context are there.
\<close>

theorem read_stays_inside:
  assumes "wf_fs fs" and "confined r" and "canonicalize fs (gp_path (effective_root r)) = Ok rt"
    and "canonicalize fs (gp_path (build_context r)) = Ok bt"
    and "gp_path g = abs_path ps" and "canonicalize fs (abs_path ps) \<noteq> Err TooManyLinks"
    and "read_file r fs g = (fs', Ok bs)"
  shows "fs' = fs \<and> (\<exists>ns. nodes fs ns = Some (File bs) \<and> (prefix rt ns \<or> prefix bt ns \<or> in_workspace r ns))"
proof -
  obtain fs1 h where h: "check_access_or_context r fs (abs_path ps) Read = (fs1, Ok h)"
    "fs' = fs1" "fs_read fs1 (gp_path h) = Ok bs"
    using assms(5,7) by (auto simp: read_file_def backend_read_file_def split: prod.splits sum.splits)
  obtain fs2 res where c: "check_access r fs (abs_path ps) Read = (fs2, res)" by fastforce
  have fs2: "fs2 = fs" using check_pure [OF assms(3,2), of "abs_path ps" Read] c by simp
  have "\<exists>t. fs1 = fs \<and> accepts r fs t (abs_path ps) (gp_path h) \<and> (t = rt \<or> t = bt)"
  proof (cases res)
    case (Inr h')
    with c h(1) have "h' = h" "fs1 = fs2" by (auto simp: check_access_or_context_def)
    with c Inr fs2 have k: "check_access r fs (abs_path ps) Read = (fs, Ok h)" and fs1: "fs1 = fs" by simp_all
    have "accepts r fs rt (abs_path ps) (gp_path h)" by (rule check_accepts_at [OF k assms(2,3) clean_abs_path])
    with fs1 show ?thesis by blast
  next
    case (Inl e)
    then have k: "check_access_with_root r fs (build_context r) (abs_path ps) Read = (fs1, Ok h)"
      using c h(1) fs2 by (simp add: check_access_or_context_def)
    then have fs1: "fs1 = fs" using check_with_root_pure [OF assms(4), of r "abs_path ps" Read] by simp
    have "accepts r fs bt (abs_path ps) (gp_path h)"
      by (rule check_with_root_accepts_at [OF k [unfolded fs1] assms(4) clean_abs_path])
    with fs1 show ?thesis by blast
  qed
  with accepted_read_contained [OF assms(1,6)] h(2,3) show ?thesis by blast
qed

section \<open>Resolution\<close>

definition clean_guard :: "guarded_path \<Rightarrow> bool" where
  "clean_guard g \<longleftrightarrow> clean_path (gp_path g)"

definition clean_resolver :: "path_resolver \<Rightarrow> bool" where
  "clean_resolver r \<longleftrightarrow>
     clean_guard (root r) \<and> clean_guard (build_context r) \<and> clean_guard (cache_guard r) \<and>
     clean_path (lazy_candidate r) \<and>
     (case concrete r of None \<Rightarrow> True | Some c \<Rightarrow> clean_guard c) \<and>
     (case lazy_live r of None \<Rightarrow> True | Some c \<Rightarrow> clean_guard c)"

lemma clean_effective_root: "\<lbrakk>clean_resolver r; confined r\<rbrakk> \<Longrightarrow> clean_guard (effective_root r)"
  by (auto simp: clean_resolver_def confined_def effective_root_def split: current_root.splits option.splits)

lemma guard_path_clean:
  assumes "guard_path fs rt p mode = (fs', Ok q)" and "clean_path p"
  shows "clean_path q"
proof -
  obtain fs1 t where "normalize_candidate fs1 (abs_path t) p = Ok q"
    using assms(1) by (auto simp: guard_path_def split: prod.splits sum.splits if_splits)
  with clean_normalize [OF assms(2)] show ?thesis by (metis Inr_inject clean_abs_path)
qed

lemma try_candidate_clean:
  "\<lbrakk>try_candidate E fs p = (fs', Ok g); clean_path p\<rbrakk> \<Longrightarrow> clean_guard g"
  by (auto simp: try_candidate_def guarded_new_root_def clean_guard_def guard_path_clean
      split: prod.splits sum.splits)

lemma snapshot_concrete_clean:
  assumes "snapshot_concrete E r fs = (r', fs', Ok c)" and "clean_resolver r" and "confined r"
  shows "clean_guard c \<and> clean_resolver r' \<and> confined r' \<and> current r' = current r \<and> root r' = root r"
  using assms
  by (auto simp: snapshot_concrete_def lazy_ensure_def clean_resolver_def confined_def try_candidate_clean
      split: option.splits prod.splits sum.splits)

lemma rebased_cwd_clean:
  assumes "rebased_cwd E r fs cwd = (r', fs', Ok d)" and "clean_resolver r" and "confined r" and "clean_guard cwd"
  shows "clean_guard d \<and> clean_resolver r' \<and> confined r'"
proof (cases "current r = Snapshot")
  case True
  obtain r1 fs1 c where c: "snapshot_concrete E r fs = (r1, fs1, Ok c)"
    using assms(1) True by (auto simp: rebased_cwd_def split: prod.splits sum.splits)
  note sc = snapshot_concrete_clean [OF c assms(2,3)]
  show ?thesis
  proof (cases "gp_root cwd = gp_root c")
    case True
    with \<open>current r = Snapshot\<close> assms(1,4) c sc show ?thesis by (simp add: rebased_cwd_def)
  next
    case False
    with \<open>current r = Snapshot\<close> assms(1) c obtain rel where
      st: "strip_prefix (gp_path (root r1)) (gp_path cwd) = Some rel" and
      new: "guarded_new fs1 (gp_root c) (path_join (gp_path c) rel) = (fs', Ok d)" and "r' = r1"
      by (simp add: rebased_cwd_def split: option.splits prod.splits)
    have rel: "gp_path cwd = gp_path (root r1) @ rel" using st by (simp only: strip_prefix_Some_iff)
    have "gp_path (root r1) \<noteq> []"
      using sc by (auto simp: clean_resolver_def clean_guard_def clean_path_def is_absolute_def)
    with rel assms(4) have "RootDir \<notin> set rel"
      by (cases "gp_path (root r1)") (auto simp: clean_guard_def clean_path_def)
    then have "clean_path (path_join (gp_path c) rel)" using sc clean_join by (simp add: clean_guard_def)
    with new have "clean_guard d"
      by (auto simp: guarded_new_def clean_guard_def guard_path_clean split: prod.splits sum.splits)
    with sc \<open>r' = r1\<close> show ?thesis by simp
  qed
next
  case False
  with assms show ?thesis by (simp add: rebased_cwd_def)
qed

text \<open>A resolved path: plain names under the root, or a path whose normal form is under the workspace root.\<close>

definition resolved_inside :: "path_resolver \<Rightarrow> vfs \<Rightarrow> path \<Rightarrow> bool" where
  "resolved_inside r fs q \<longleftrightarrow>
     (\<exists>rt ns. canonicalize fs (gp_path (effective_root r)) = Ok rt
        \<and> (q = abs_path ns \<and> prefix rt ns
           \<or> normalize_candidate fs (abs_path rt) q = Ok (abs_path ns) \<and> in_workspace r ns))"

lemma check_inside:
  assumes "check_access r fs p mode = (fs', Ok g)" and "confined r" and "clean_path p"
  shows "resolved_inside r fs' (gp_path g)"
proof -
  obtain rt where "canonicalize fs' (gp_path (effective_root r)) = Ok rt" "accepts r fs' rt p (gp_path g)"
    using assms by (rule check_accepts)
  then show ?thesis by (auto simp: accepts_def resolved_inside_def)
qed

lemma resolve_in_contained:
  assumes "resolve_in r fs cwd p mode = (fs', Ok g)" and "clean_resolver r" and "confined r" and "clean_guard cwd"
    and "RootDir \<notin> set (tl p)"
  shows "resolved_inside r fs' (gp_path g)"
proof (cases "is_absolute p")
  case True
  then have p: "clean_path p" using assms(5) by (simp add: clean_path_def)
  have q: "clean_path (path_join (gp_path (effective_root r)) (root_relative_path p))"
    using clean_effective_root [OF assms(2,3)] root_relative_no_root clean_join by (simp add: clean_guard_def)
  obtain fs1 res where c: "check_access r fs p mode = (fs1, res)" by fastforce
  show ?thesis
  proof (cases res)
    case (Inr h)
    with c assms(1) True have "check_access r fs p mode = (fs', Ok g)"
      by (simp add: resolve_in_def is_absolute_or_rooted_def)
    then show ?thesis using assms(3) p by (rule check_inside)
  next
    case (Inl e)
    with c assms(1) True
    have "check_access r fs1 (path_join (gp_path (effective_root r)) (root_relative_path p)) mode = (fs', Ok g)"
      by (simp add: resolve_in_def is_absolute_or_rooted_def)
    then show ?thesis using assms(3) q by (rule check_inside)
  qed
next
  case False
  with assms(5) have "RootDir \<notin> set p" by (cases p) (auto simp: is_absolute_def)
  then have "clean_path (path_join (gp_path cwd) p)" using assms(4) clean_join by (simp add: clean_guard_def)
  moreover have "check_access r fs (path_join (gp_path cwd) p) mode = (fs', Ok g)"
    using assms(1) False by (simp add: resolve_in_def is_absolute_or_rooted_def)
  ultimately show ?thesis using check_inside assms(3) by blast
qed

text \<open>C10. 
  Whatever text a script gives, while one root and not the whole host is selected, the path it resolves to is made of
  plain names under the canonical selected root, or it is a path whose normal form lies under the workspace root,
  also when resolving created the snapshot directory on the way. The roots and the working directory of the resolver
  are absolute paths.
\<close>

theorem resolve_stays_inside:
  assumes "resolve E r fs cwd rel mode = (r', fs', Ok g)"
    and "confined r" and "clean_resolver r" and "clean_guard cwd"
  shows "resolved_inside r' fs' (gp_path g)"
proof -
  have "current r \<noteq> System" using assms(2) by (simp add: confined_def)
  then obtain fs1 fs2 d where d: "rebased_cwd E r fs1 cwd = (r', fs2, Ok d)"
    and res: "resolve_in r' fs2 d (path_of (to_forward_slashes rel)) mode = (fs', Ok g)"
    using assms(1) by (auto simp: resolve_def split: prod.splits sum.splits if_splits)
  note cl = rebased_cwd_clean [OF d assms(3,2,4)]
  show ?thesis using resolve_in_contained [OF res] cl path_of_root by blast
qed

section \<open>Switching roots\<close>

datatype switch = ToSnapshot | ToLocal | ToCache bool | ToSystem

fun do_switch :: "host_env \<Rightarrow> path_resolver \<Rightarrow> switch \<Rightarrow> path_resolver" where
  "do_switch E r ToSnapshot = switch_to_snapshot r"
| "do_switch E r ToLocal = switch_to_local r"
| "do_switch E r (ToCache b) = switch_to_cache E r b"
| "do_switch E r ToSystem = switch_to_system r"

text \<open>The cache guard is the one of either flavour for the application.\<close>

definition cache_guard_ok :: "host_env \<Rightarrow> path_resolver \<Rightarrow> bool" where
  "cache_guard_ok E r \<longleftrightarrow>
     cache_guard r \<in> {cache_guard_for E (Some (cache_app r)), cache_guard_for_local (cache_anchor r)}"

lemmas switch_defs = switch_to_snapshot_def switch_to_local_def switch_to_cache_def switch_to_system_def
  refresh_cache_guard_def cache_anchor_def

lemma do_switch_keeps:
  "root (do_switch E r w) = root r" "concrete (do_switch E r w) = concrete r"
  "build_context (do_switch E r w) = build_context r" "workspace_root (do_switch E r w) = workspace_root r"
  "cache_app (do_switch E r w) = cache_app r" "system_anchor (do_switch E r w) = system_anchor r"
  by (cases w; simp add: switch_defs)+

lemma switches_keep:
  "root (foldl (do_switch E) r ws) = root r \<and> concrete (foldl (do_switch E) r ws) = concrete r \<and>
   build_context (foldl (do_switch E) r ws) = build_context r \<and>
   workspace_root (foldl (do_switch E) r ws) = workspace_root r \<and>
   cache_app (foldl (do_switch E) r ws) = cache_app r \<and>
   system_anchor (foldl (do_switch E) r ws) = system_anchor r"
  by (induction ws arbitrary: r) (simp_all add: do_switch_keeps)

lemma set_root_adopts:
  assumes "g \<in> {build_context r, cache_guard r, system_anchor r, cache_guard_for E (Some (cache_app r)),
                cache_guard_for_local (cache_anchor r)}"
  shows "effective_root (set_root E r g) = g"
  using assms by (auto simp: set_root_def adopt_cache_guard_def effective_root_def Let_def cache_anchor_def)

text \<open>
  Leaving a scope gives the workspace root back: whatever sequence of root switches a block
  performs, restoring the root it was entered with selects that root again, in both flavours of
  the cache.
\<close>

theorem scope_restores_root:
  assumes "cache_guard_ok E r"
  shows "effective_root (set_root E (foldl (do_switch E) r ws) (effective_root r)) = effective_root r"
proof -
  let ?s = "foldl (do_switch E) r ws" and ?g = "effective_root r"
  note k = switches_keep [of E r ws]
  have anchor: "cache_anchor ?s = cache_anchor r" using k by (simp add: cache_anchor_def split: option.split)
  show ?thesis
  proof (cases "?g \<in> {build_context ?s, cache_guard ?s, system_anchor ?s, cache_guard_for E (Some (cache_app ?s)),
      cache_guard_for_local (cache_anchor ?s)}")
    case False
    then have "current r = Snapshot"
      using assms k anchor by (auto simp: effective_root_def cache_guard_ok_def split: current_root.splits)
    with False k anchor show ?thesis
      by (simp add: set_root_def adopt_cache_guard_def effective_root_def Let_def split: option.split)
  qed (rule set_root_adopts)
qed

section \<open>Names and normal forms\<close>

definition segment_char :: "char \<Rightarrow> bool" where
  "segment_char c \<longleftrightarrow> is_ascii_alphanumeric c \<or> c = CHR ''.'' \<or> c = CHR ''_'' \<or> c = CHR ''-''"

abbreviation trim_dots :: "string \<Rightarrow> string" where
  "trim_dots s \<equiv> trim_end_by (\<lambda>ch. ch = CHR ''.'') (trim_start_by (\<lambda>ch. ch = CHR ''.'') s)"

lemma segment_char_plain: "segment_char c \<Longrightarrow> \<not> is_whitespace c \<and> c \<noteq> CHR ''/''"
  by (auto simp: segment_char_def char_class_defs)

lemma trim_by_id:
  "s = [] \<or> \<not> P (hd s) \<Longrightarrow> trim_start_by P s = s" "s = [] \<or> \<not> P (last s) \<Longrightarrow> trim_end_by P s = s"
  using dropWhile_eq_self_iff [of P s] dropWhile_eq_self_iff [of P "rev s"]
  by (auto simp: trim_start_by_def trim_end_by_def hd_rev rev_swap)

lemma trim_segment:
  assumes "\<forall>c \<in> set s. segment_char c"
  shows "trim s = s"
proof -
  have "s = [] \<or> \<not> is_whitespace (hd s)" "s = [] \<or> \<not> is_whitespace (last s)"
    using assms segment_char_plain hd_in_set [of s] last_in_set [of s] by blast+
  then show ?thesis unfolding trim_def by (simp only: trim_by_id)
qed

lemma trim_dots_ends:
  assumes "trim_dots s \<noteq> []"
  shows "hd (trim_dots s) \<noteq> CHR ''.'' \<and> last (trim_dots s) \<noteq> CHR ''.'' \<and> set (trim_dots s) \<subseteq> set s"
proof -
  let ?a = "trim_start_by (\<lambda>ch. ch = CHR ''.'') s"
  obtain w where w: "?a = trim_dots s @ w" using trim_end_by_decomp [of ?a] by blast
  with assms have ne: "?a \<noteq> []" by auto
  then have "hd ?a \<noteq> CHR ''.''" using hd_dropWhile [of "\<lambda>ch. ch = CHR ''.''" s] by (simp add: trim_start_by_def)
  moreover have "hd ?a = hd (trim_dots s)" using w assms by (metis hd_append2)
  moreover have "last (trim_dots s) \<noteq> CHR ''.''"
    using hd_dropWhile [of "\<lambda>ch. ch = CHR ''.''" "rev ?a"] assms by (auto simp: trim_end_by_def last_rev)
  moreover have "set (trim_dots s) \<subseteq> set s"
    by (auto simp: trim_end_by_def trim_start_by_def dest!: set_dropWhileD)
  ultimately show ?thesis by simp
qed

lemma sanitize_shape:
  "sanitize_app_name raw \<noteq> [] \<and> (\<forall>c \<in> set (sanitize_app_name raw). segment_char c) \<and>
   hd (sanitize_app_name raw) \<noteq> CHR ''.'' \<and> last (sanitize_app_name raw) \<noteq> CHR ''.''"
proof -
  define mid where "mid = map (\<lambda>ch. if segment_char ch then ch else CHR ''_'') raw"
  have mid: "\<forall>c \<in> set mid. segment_char c" by (auto simp: mid_def segment_char_def)
  have san: "sanitize_app_name raw = (if trim_dots mid = [] then FALLBACK_APP_NAME else trim_dots mid)"
    using trim_segment [OF mid] by (simp add: sanitize_app_name_def Let_def mid_def segment_char_def [abs_def] cong: map_cong)
  show ?thesis
  proof (cases "trim_dots mid = []")
    case True
    then show ?thesis
      by (simp add: san FALLBACK_APP_NAME_def segment_char_def char_class_defs)
  next
    case False
    with trim_dots_ends [OF False] mid show ?thesis by (auto simp: san)
  qed
qed

text \<open>
  The directory name made from an application name is a single path component that is neither
  hidden nor a dot name, and making it again changes nothing, so the cache directory of an
  application never moves out of the cache root or between runs.
\<close>

theorem cache_name_safe:
  "path_of (sanitize_app_name raw) = [Normal (sanitize_app_name raw)] \<and>
   hd (sanitize_app_name raw) \<noteq> CHR ''.'' \<and>
   sanitize_app_name (sanitize_app_name raw) = sanitize_app_name raw"
proof -
  let ?s = "sanitize_app_name raw"
  note sh = sanitize_shape [of raw]
  have "CHR ''/'' \<notin> set ?s" using sh segment_char_plain by blast
  then have split: "split_on CHR ''/'' ?s = [?s]" by (rule split_on_no_sep)
  have "?s \<noteq> ''.''" "?s \<noteq> ''..''" using sh by auto
  then have "path_of ?s = [Normal ?s]"
    using sh split \<open>CHR ''/'' \<notin> set ?s\<close> by (cases ?s) (auto simp: path_of_def segment_def)
  moreover have "sanitize_app_name ?s = ?s"
  proof -
    have m: "map (\<lambda>ch. if segment_char ch then ch else CHR ''_'') ?s = ?s"
      using sh by (simp add: map_idI)
    have "trim_start_by (\<lambda>ch. ch = CHR ''.'') ?s = ?s" "trim_end_by (\<lambda>ch. ch = CHR ''.'') ?s = ?s"
      using sh by (intro trim_by_id; blast)+
    then have "trim_dots ?s = ?s" by simp
    then show ?thesis
      using sh m trim_segment [of ?s]
      by (simp add: sanitize_app_name_def [of ?s] Let_def segment_char_def [abs_def])
  qed
  ultimately show ?thesis using sh by simp
qed

text \<open>
  Lexical normalization, used when the whole host is opened up, agrees with the kernel on file
  systems without links: a path that resolves resolves to its normal form.
\<close>

theorem normalization_agrees_with_kernel:
  assumes "clean_path p" and "\<forall>q t. nodes fs q \<noteq> Some (Link t)" and "canonicalize fs p = Ok ns"
  shows "normalize_absolute p = abs_path ns \<and> system_wrap_absolute p = from_guarded_parts [RootDir] (abs_path ns)"
proof -
  from assms(1) obtain cs where p: "p = RootDir # cs" "RootDir \<notin> set cs"
    by (cases p) (auto simp: clean_path_def is_absolute_def)
  with assms(3) have "walk False max_links (nodes fs) [] cs = Ok ns" by (simp add: canonicalize_def)
  with walk_lexical [OF assms(2) p(2)] have "ns = lexical [] cs" by blast
  with p normalize_absolute_lexical [of p] assms(1) show ?thesis
    by (simp add: clean_path_def system_wrap_absolute_def)
qed

section \<open>An example host\<close>

text \<open>A root \<open>/w\<close> with a file, a link out of it, a dangling link out of it and a link to
  itself.\<close>

definition sample_fs :: vfs where
  "sample_fs =
     \<lparr>nodes = map_of
        [([], Dir), ([''w''], Dir), ([''w'', ''a''], File [1]), ([''p''], Dir), ([''etc''], Dir),
         ([''etc'', ''secret''], File [9]),
         ([''w'', ''door''], Link [RootDir, Normal ''etc'', Normal ''secret'']),
         ([''w'', ''hole''], Link [RootDir, Normal ''etc'', Normal ''fresh'']),
         ([''w'', ''self''], Link [CurDir])],
      process_cwd = []\<rparr>"

definition sample_env :: host_env where
  "sample_env =
     \<lparr>env_var = (\<lambda>_. None), exe_stem = None, project_dirs = (\<lambda>_. None), temp_dir = abs_path [''tmp''],
      ensure_group = (\<lambda>fs p g. create_dir_all fs (path_join p [Normal g])), pid_line = []\<rparr>"

definition sample_root :: guarded_path where
  "sample_root = from_guarded_parts (abs_path [''w'']) (abs_path [''w''])"

definition sample_resolver :: path_resolver where
  "sample_resolver = from_eager_roots sample_env [RootDir] sample_root sample_root"

lemma sample_wf: "wf_fs sample_fs"
proof -
  have "wf_nodes (nodes sample_fs)"
    unfolding sample_fs_def vfs.simps by (rule wf_nodes_map_of) code_simp+
  then show ?thesis by (simp add: wf_fs_def sample_fs_def)
qed

text \<open>The selected root is the snapshot \<open>/w\<close>; the workspace root, as in a run, is another directory.\<close>

definition sample_run :: path_resolver where
  "sample_run = sample_resolver\<lparr>workspace_root := Some (from_guarded_parts (abs_path [''p'']) (abs_path [''p'']))\<rparr>"

lemma sample_resolver_facts:
  "confined sample_resolver" "clean_resolver sample_resolver" "cache_guard_ok sample_env sample_resolver"
  "canonicalize sample_fs (gp_path (effective_root sample_resolver)) = Ok [''w'']"
  "canonicalize sample_fs (gp_path (build_context sample_resolver)) = Ok [''w'']"
  by code_simp+

lemma sample_run_facts:
  "confined sample_run" "clean_resolver sample_run"
  "canonicalize sample_fs (gp_path (effective_root sample_run)) = Ok [''w'']"
  "canonicalize sample_fs (gp_path (build_context sample_run)) = Ok [''w'']"
  "gp_path (the (workspace_root sample_run)) = abs_path [''p''] \<and> workspace_root sample_run \<noteq> None"
  "nodes sample_fs [''p''] = Some Dir"
  by code_simp+

lemma sample_run_workspace: "canonical_workspace sample_fs sample_run"
  using sample_run_facts(5,6) by (auto simp: canonical_workspace_def canonical_def)

text \<open>A write below the selected root and one, by the fallback, into the workspace.\<close>

theorem write_stays_inside_witness:
  "only_inside sample_run [''w''] sample_fs
     (fst (write_file sample_run sample_fs (from_guarded_parts (abs_path [''w'']) (abs_path [''p'', ''d'', ''b''])) [5]))
   \<and> is_ok (snd (write_file sample_run sample_fs
        (from_guarded_parts (abs_path [''w'']) (abs_path [''p'', ''d'', ''b''])) [5]))"
proof -
  let ?g = "from_guarded_parts (abs_path [''w'']) (abs_path [''p'', ''d'', ''b''])"
  have "canonicalize sample_fs (abs_path [''p'', ''d'', ''b'']) \<noteq> Err TooManyLinks" by code_simp
  moreover have "\<not> dangling sample_fs (abs_path [''p'', ''d'', ''b''])" by code_simp
  moreover have "is_ok (snd (write_file sample_run sample_fs ?g [5]))" by code_simp
  ultimately show ?thesis
    using write_stays_inside [OF sample_wf sample_run_facts(1,3) sample_run_workspace, of ?g "[''p'', ''d'', ''b'']" "[5]"]
    by simp
qed

theorem read_stays_inside_witness:
  "\<exists>ns. nodes sample_fs ns = Some (File [1]) \<and> (prefix [''w''] ns \<or> prefix [''w''] ns \<or> in_workspace sample_run ns)"
proof -
  let ?g = "from_guarded_parts (abs_path [''w'']) (abs_path [''w'', ''a''])"
  have "canonicalize sample_fs (abs_path [''w'', ''a'']) \<noteq> Err TooManyLinks" by code_simp
  moreover have "read_file sample_run sample_fs ?g = (fst (read_file sample_run sample_fs ?g), Ok [1])"
  proof -
    have "snd (read_file sample_run sample_fs ?g) = Ok [1]" by code_simp
    then show ?thesis by (simp add: prod_eq_iff)
  qed
  ultimately show ?thesis
    using read_stays_inside [OF sample_wf sample_run_facts(1,3,4), of ?g "[''w'', ''a'']"] by simp
qed

theorem resolve_stays_inside_witness:
  "\<exists>r' fs' g. resolve sample_env sample_run sample_fs sample_root ''sub/../new.txt'' Write = (r', fs', Ok g)
     \<and> resolved_inside r' fs' (gp_path g)"
proof -
  have "is_ok (snd (snd (resolve sample_env sample_run sample_fs sample_root ''sub/../new.txt'' Write)))"
    by code_simp
  then obtain r' fs' g where
    res: "resolve sample_env sample_run sample_fs sample_root ''sub/../new.txt'' Write = (r', fs', Ok g)"
    by (metis is_ok_iff prod.collapse)
  have "clean_guard sample_root" by code_simp
  with resolve_stays_inside [OF res sample_run_facts(1,2)] res show ?thesis by blast
qed

theorem scope_restores_root_witness:
  "effective_root (set_root sample_env
     (foldl (do_switch sample_env) sample_resolver [ToCache True, ToSystem, ToCache False]) (effective_root sample_resolver))
   = effective_root sample_resolver"
  using scope_restores_root [OF sample_resolver_facts(3)] by blast

theorem normalization_agrees_with_kernel_witness:
  "normalize_absolute [RootDir, Normal ''w'', ParentDir, CurDir, Normal ''w''] = abs_path [''w'']"
proof -
  let ?fs = "\<lparr>nodes = map_of [([], Dir), ([''w''], Dir)], process_cwd = []\<rparr>"
  let ?p = "[RootDir, Normal ''w'', ParentDir, CurDir, Normal ''w'']"
  have "clean_path ?p" by code_simp
  moreover have "\<forall>q t. nodes ?fs q \<noteq> Some (Link t)" by simp
  moreover have "canonicalize ?fs ?p = Ok [''w'']" by code_simp
  ultimately show ?thesis using normalization_agrees_with_kernel [of ?p ?fs "[''w'']"] by blast
qed

text \<open>
  The link out of the workspace is refused, also through the guard's fallback, but a dangling link
  is not looked through: writing to it creates its target outside.
\<close>

theorem dangling_link_escapes:
  "\<not> is_ok (snd (read_file sample_resolver sample_fs (from_guarded_parts (abs_path [''w'']) (abs_path [''w'', ''door'']))))
   \<and> nodes sample_fs [''etc'', ''fresh''] = None
   \<and> nodes (fst (write_file sample_resolver sample_fs
        (from_guarded_parts (abs_path [''w'']) (abs_path [''w'', ''hole''])) [7])) [''etc'', ''fresh''] = Some (File [7])"
  by code_simp

text \<open>
  A path that runs into the link limit is taken apart at the last directory the kernel still
  reaches; the rest is then opened with a fresh limit and without a check, and so a link out of
  the workspace is followed after all.
\<close>

definition long_way :: string where
  "long_way = ''missing/../'' @ concat (replicate 40 ''self/'') @ ''door''"

theorem link_limit_escapes:
  "(case resolve sample_env sample_resolver sample_fs sample_root long_way Read of
      (r1, fs1, Inr g) \<Rightarrow> snd (read_file r1 fs1 g) = Ok [9]
    | _ \<Rightarrow> False)"
  by code_simp

end
