(* ===== verification/Lexer.thy ===== *)
theory Lexer
  imports Prelude
begin

text \<open>
  The lexer of string sources (\<open>oxdock-parser/src/tok.rs\<close>): tokens with the gap flag and
  start coordinates, string literals, delimited groups that are scanned as raw text and lexed
  again by a child lexer, comments and newlines. The main loop takes fuel because the source's
  loop need not end: it makes no progress on white space other than blanks, tabs and line
  breaks. Shown: on all other texts lexing returns with fuel one more than the length, fuel
  does not matter beyond that, and the tokens spell the source up to blanks.
\<close>

section \<open>Tokens\<close>

datatype group_delim = Bracket | Paren | Brace

datatype tok_kind =
    Word string
  | Str string char
  | BlockStr string
  | Punct char
  | Group group_delim "tok list" bool bool
  | Newline
  | Semicolon
  | Comment string
and tok = Tok (kind: tok_kind) (joint: bool) (tok_line: nat) (tok_col: nat)

datatype lex_msg =
    TrailingBackslash | UnterminatedBlock | UnterminatedString | NotAQuote
  | Unmatched char | UnclosedBlock string nat | BindingsUnclosed nat | UnclosedGroup char | UnclosedComment

record lex_error =
  le_line :: nat
  le_col :: nat
  le_msg :: lex_msg

record lexer =
  before :: string
  rest :: string
  lx_line :: nat
  lx_col :: nat
  lx_out :: "tok list"
  heads :: "(string \<times> nat \<times> nat) list"
  mark_line :: nat
  mark_col :: nat
  gapped :: bool

definition is_block_head :: "string \<Rightarrow> bool" where
  "is_block_head w \<longleftrightarrow>
     w \<in> set [''IF'', ''ELSE'', ''FOR'', ''WHILE'', ''FUNC'', ''TIMEOUT'', ''ISOLATED'', ''ASYNC'', ''REMOTE'', ''WITH_IO'']"

fun is_template_group :: "tok \<Rightarrow> bool" where
  "is_template_group (Tok (Group Brace (Tok (Group Brace _ _ _) _ _ _ # _) _ _) _ _ _) = True"
| "is_template_group _ = False"

fun is_brace_group :: "tok \<Rightarrow> bool" where
  "is_brace_group (Tok (Group Brace _ _ _) _ _ _) = True"
| "is_brace_group _ = False"

abbreviation dquote :: char where "dquote \<equiv> CHR 0x22"
abbreviation squote :: char where "squote \<equiv> CHR 0x27"
abbreviation backslash :: char where "backslash \<equiv> CHR 0x5C"
abbreviation tab :: char where "tab \<equiv> CHR 0x09"
abbreviation lf :: char where "lf \<equiv> CHR 0x0A"
abbreviation cr :: char where "cr \<equiv> CHR 0x0D"

definition is_delim :: "char \<Rightarrow> bool" where
  "is_delim c \<longleftrightarrow> c \<in> set (dquote # squote # ''$:,=!<>+-*/%.?^()[]{};#|&@'')"

section \<open>String literals\<close>

text \<open>The number of characters of a block string after its opening quotes.\<close>

fun scan_block :: "string \<Rightarrow> lex_msg + nat" where
  "scan_block [] = Err UnterminatedBlock"
| "scan_block (c # cs) =
     (if c = backslash then
        (case cs of [] \<Rightarrow> Err TrailingBackslash
         | d # ds \<Rightarrow> (case scan_block ds of Inl m \<Rightarrow> Err m | Inr n \<Rightarrow> Ok (n + 2)))
      else if prefix [dquote, dquote, dquote] (c # cs) then Ok 3
      else (case scan_block cs of Inl m \<Rightarrow> Err m | Inr n \<Rightarrow> Ok (n + 1)))"

text \<open>The number of characters of a quoted string after its opening quote.\<close>

fun scan_quoted :: "char \<Rightarrow> string \<Rightarrow> lex_msg + nat" where
  "scan_quoted q [] = Err UnterminatedString"
| "scan_quoted q (c # cs) =
     (if c = backslash then
        (case cs of [] \<Rightarrow> Err UnterminatedString
         | d # ds \<Rightarrow> (case scan_quoted q ds of Inl m \<Rightarrow> Err m | Inr n \<Rightarrow> Ok (n + 2)))
      else if c = q then Ok 1
      else (case scan_quoted q cs of Inl m \<Rightarrow> Err m | Inr n \<Rightarrow> Ok (n + 1)))"

definition scan_string :: "string \<Rightarrow> lex_msg + tok_kind \<times> nat" where
  "scan_string s =
     (if prefix [dquote, dquote, dquote] s then
        (case scan_block (drop 3 s) of Inl m \<Rightarrow> Err m | Inr n \<Rightarrow> Ok (BlockStr (take (n + 3) s), n + 3))
      else (case s of
          [] \<Rightarrow> Err NotAQuote
        | q # cs \<Rightarrow>
            if q \<noteq> dquote \<and> q \<noteq> squote then Err NotAQuote
            else (case scan_quoted q cs of
                Inl m \<Rightarrow> Err m
              | Inr n \<Rightarrow> Ok (Str (take (n - 1) cs) q, n + 1))))"

definition quote_opens_before :: "string \<Rightarrow> bool" where
  "quote_opens_before src =
     (case dropWhile is_whitespace (rev src) of
        [] \<Rightarrow> True
      | c # _ \<Rightarrow> c \<in> set ''[({,:=$!<>|&'')"

section \<open>The lexer state\<close>

definition with_start :: "string \<Rightarrow> nat \<Rightarrow> nat \<Rightarrow> lexer" where
  "with_start src line col =
     \<lparr>before = [], rest = src, lx_line = line, lx_col = col, lx_out = [], heads = [],
      mark_line = 0, mark_col = 0, gapped = True\<rparr>"

definition err_at :: "lexer \<Rightarrow> lex_msg \<Rightarrow> lex_error" where
  "err_at lx m = \<lparr>le_line = lx_line lx, le_col = lx_col lx, le_msg = m\<rparr>"

definition utf8_len :: "string \<Rightarrow> nat" where
  "utf8_len s = sum_list (map (\<lambda>c. if (of_char c :: nat) < 128 then 1 else 2) s)"

definition bump :: "nat \<Rightarrow> nat \<Rightarrow> lexer \<Rightarrow> lexer" where
  "bump n newlines lx =
     lx\<lparr>before := rev (take n (rest lx)) @ before lx, rest := drop n (rest lx),
        lx_line := lx_line lx + newlines,
        lx_col := (if 0 < newlines then 1 else lx_col lx + utf8_len (take n (rest lx)))\<rparr>"

definition push_at :: "tok_kind \<Rightarrow> bool \<Rightarrow> lexer \<Rightarrow> lexer" where
  "push_at k j lx = lx\<lparr>lx_out := lx_out lx @ [Tok k j (mark_line lx) (mark_col lx)]\<rparr>"

definition push :: "tok_kind \<Rightarrow> lexer \<Rightarrow> lexer" where
  "push k lx =
     push_at k (\<not> gapped lx)
       (lx\<lparr>gapped := False,
           heads := heads lx @ (case k of Word w \<Rightarrow> [(w, lx_line lx, length (lx_out lx))] | _ \<Rightarrow> [])\<rparr>)"

definition set_gap :: "lexer \<Rightarrow> lexer" where
  "set_gap lx = lx\<lparr>gapped := True\<rparr>"

definition unclosed_head :: "lexer \<Rightarrow> (string \<times> nat) option" where
  "unclosed_head lx =
     find_map (\<lambda>(w, line, i).
       if \<not> is_block_head w then None
       else if \<exists>t \<in> set (drop i (lx_out lx)). is_brace_group t \<and> \<not> is_template_group t then None
       else Some (w, line)) (heads lx)"

definition at_line_start :: "lexer \<Rightarrow> bool" where
  "at_line_start lx \<longleftrightarrow> (\<forall>c \<in> set (takeWhile (\<lambda>c. c \<noteq> lf) (before lx)). c = CHR '' '' \<or> c = tab \<or> c = cr)"

definition count_lf :: "string \<Rightarrow> nat" where
  "count_lf s = length (filter (\<lambda>c. c = lf) s)"

section \<open>Words and comments\<close>

fun take_word :: "string \<Rightarrow> string" where
  "take_word [] = []"
| "take_word (c # cs) =
     (if c = backslash then (case cs of [] \<Rightarrow> [c] | d # ds \<Rightarrow> c # d # take_word ds)
      else if is_whitespace c \<or> is_delim c then [] else c # take_word cs)"

definition lex_word :: "lexer \<Rightarrow> lexer" where
  "lex_word lx = (let w = take_word (rest lx) in push (Word w) (bump (length w) 0 lx))"

definition line_text :: "string \<Rightarrow> string" where
  "line_text s = takeWhile (\<lambda>c. c \<noteq> lf \<and> c \<noteq> cr) s"

text \<open>Inside a block comment: nesting depth, line breaks, and the closing mark of depth one.\<close>

definition block_comment_step :: "nat \<Rightarrow> lexer \<Rightarrow> (lex_error + lexer) + nat \<times> lexer" where
  "block_comment_step depth lx =
     (if rest lx = [] then Inl (Err (err_at lx UnclosedComment))
      else if prefix ''/*'' (rest lx) then Inr (depth + 1, bump 2 0 lx)
      else if prefix ''*/'' (rest lx) then
        (if depth - 1 = 0 then Inl (Ok (set_gap (bump 2 0 lx))) else Inr (depth - 1, bump 2 0 lx))
      else if prefix [cr, lf] (rest lx) then Inr (depth, bump 2 1 lx)
      else if hd (rest lx) = lf \<or> hd (rest lx) = cr then Inr (depth, bump 1 1 lx)
      else Inr (depth, bump 1 0 lx))"

function block_comment :: "nat \<Rightarrow> lexer \<Rightarrow> lex_error + lexer" where
  "block_comment depth lx =
     (case block_comment_step depth lx of
        Inl r \<Rightarrow> r
      | Inr (depth', lx') \<Rightarrow> block_comment depth' lx')"
  by pat_completeness auto
termination
  by (relation "measure (\<lambda>(d, lx). length (rest lx))")
    (auto simp: block_comment_step_def bump_def prefix_def split: if_splits)

declare block_comment.simps [simp del]

definition consumed :: "lexer \<Rightarrow> lexer \<Rightarrow> string" where
  "consumed lx lx' = take (length (rest lx) - length (rest lx')) (rest lx)"

section \<open>Groups\<close>

datatype group_end = GErr lex_error | GEof lexer | GClose lexer string

text \<open>One round of the loop that copies a block comment of a group, and of the loop over the
  group's text; \<open>flat\<close> says that no inner bracket is open.\<close>

definition block_copy_step :: "char \<Rightarrow> bool \<Rightarrow> nat \<Rightarrow> lexer \<Rightarrow> string \<Rightarrow> (nat \<times> lexer \<times> string) option" where
  "block_copy_step close flat depth lx inner =
     (if rest lx = [] \<or> depth = 0 then None
      else if prefix ''/*'' (rest lx) then Some (depth + 1, bump 2 0 lx, inner @ ''/*'')
      else if prefix ''*/'' (rest lx) then Some (depth - 1, bump 2 0 lx, inner @ ''*/'')
      else if hd (rest lx) = close \<and> flat then None
      else if prefix [cr, lf] (rest lx) then Some (depth, bump 2 1 lx, inner @ [lf])
      else Some (depth, bump 1 (if hd (rest lx) = lf then 1 else 0) lx, inner @ [hd (rest lx)]))"

function block_copy :: "char \<Rightarrow> bool \<Rightarrow> nat \<Rightarrow> lexer \<Rightarrow> string \<Rightarrow> lexer \<times> string" where
  "block_copy close flat depth lx inner =
     (case block_copy_step close flat depth lx inner of
        None \<Rightarrow> (lx, inner)
      | Some (depth', lx', inner') \<Rightarrow> block_copy close flat depth' lx' inner')"
  by pat_completeness auto
termination
  by (relation "measure (\<lambda>(c, e, d, lx, i). length (rest lx))")
    (auto simp: block_copy_step_def bump_def prefix_def split: if_splits)

declare block_copy.simps [simp del]

lemma scan_string_pos: "scan_string s = Inr (k, n) \<Longrightarrow> 0 < n"
  by (auto simp: scan_string_def split: if_splits sum.splits list.splits)

definition comment_copy :: "char \<Rightarrow> bool \<Rightarrow> string \<Rightarrow> string" where
  "comment_copy close flat s =
     takeWhile (\<lambda>ch. ch \<noteq> lf \<and> ch \<noteq> cr \<and> \<not> (ch = close \<and> flat)) s"

definition group_step :: "char \<Rightarrow> lexer \<Rightarrow> string \<Rightarrow> string \<Rightarrow> group_end + lexer \<times> string \<times> string" where
  "group_step close lx stack inner =
     (if rest lx = [] then Inl (GEof lx)
      else let c = hd (rest lx) in
        if c = dquote \<or> (c = squote \<and> quote_opens_before inner) then
          (case scan_string (rest lx) of
             Inl m \<Rightarrow> Inl (GErr (err_at lx m))
           | Inr (k, n) \<Rightarrow>
               Inr (bump n (count_lf (take n (rest lx))) lx, stack, inner @ take n (rest lx)))
        else if c \<in> set ''[({'' then Inr (bump 1 0 lx, c # stack, inner @ [c])
        else if prefix ''//'' (rest lx) then
          (let u = ''//'' @ comment_copy close (stack = []) (drop 2 (rest lx)) in
           Inr (bump (length u) 0 lx, stack, inner @ u))
        else if prefix ''/*'' (rest lx) then
          (case block_copy close (stack = []) 1 (bump 2 0 lx) (inner @ ''/*'') of
             (lx', inner') \<Rightarrow> Inr (lx', stack, inner'))
        else if c \<in> set '')]}'' then
          (if c = close \<and> stack = [] then Inl (GClose lx inner)
           else (case stack of
               [] \<Rightarrow> Inl (GErr (err_at lx (Unmatched c)))
             | _ # st \<Rightarrow> Inr (bump 1 0 lx, st, inner @ [c])))
        else if prefix [cr, lf] (rest lx) then Inr (bump 2 1 lx, stack, inner @ [lf])
        else if c = lf \<or> c = cr then Inr (bump 1 1 lx, stack, inner @ [lf])
        else Inr (bump 1 0 lx, stack, inner @ [c]))"

text \<open>What a round keeps: it moves text from the rest to the copy, up to blanks.\<close>

definition is_blank :: "char \<Rightarrow> bool" where
  "is_blank c \<longleftrightarrow> c = CHR '' '' \<or> c = tab \<or> c = cr \<or> c = lf"

definition squeeze :: "string \<Rightarrow> string" where
  "squeeze s = filter (\<lambda>c. \<not> is_blank c) s"

lemma squeeze_append [simp]: "squeeze (a @ b) = squeeze a @ squeeze b"
  by (simp add: squeeze_def)

lemma squeeze_Nil [simp]: "squeeze [] = []"
  by (simp add: squeeze_def)

lemma squeeze_Cons [simp]: "squeeze (c # s) = (if is_blank c then squeeze s else c # squeeze s)"
  by (simp add: squeeze_def)

lemma squeeze_split: "squeeze (take n s) @ squeeze (drop n s) = squeeze s"
  by (metis append_take_drop_id squeeze_append)

lemma blank_chars [simp]: "is_blank CHR '' ''" "is_blank tab" "is_blank cr" "is_blank lf"
  by (simp_all add: is_blank_def)

lemma bump_simps [simp]:
  "rest (bump n k lx) = drop n (rest lx)" "lx_out (bump n k lx) = lx_out lx" "gapped (bump n k lx) = gapped lx"
  by (simp_all add: bump_def)

definition moves :: "lexer \<Rightarrow> string \<Rightarrow> lexer \<Rightarrow> string \<Rightarrow> bool" where
  "moves lx inner lx' inner' \<longleftrightarrow>
     lx_out lx' = lx_out lx \<and>
     squeeze inner' @ squeeze (rest lx') = squeeze inner @ squeeze (rest lx) \<and>
     length inner' + length (rest lx') \<le> length inner + length (rest lx) \<and>
     length (rest lx') \<le> length (rest lx) \<and>
     set inner' \<union> set (rest lx') \<subseteq> insert lf (set inner \<union> set (rest lx))"

lemma moves_refl [simp]: "moves lx inner lx inner"
  by (auto simp: moves_def)

lemma moves_trans: "\<lbrakk>moves a i b j; moves b j c k\<rbrakk> \<Longrightarrow> moves a i c k"
  by (auto simp: moves_def)

lemma moves_bump:
  assumes "squeeze u = squeeze (take n (rest lx))" and "length u \<le> length (take n (rest lx))"
    and "set u \<subseteq> insert lf (set (take n (rest lx)))"
  shows "moves lx inner (bump n k lx) (inner @ u)"
proof -
  have "set u \<subseteq> insert lf (set (rest lx))" using assms(3) set_take_subset by fastforce
  moreover have "length u + length (drop n (rest lx)) \<le> length (rest lx)"
    using assms(2) by auto
  ultimately show ?thesis
    using assms(1) squeeze_split [of n "rest lx"] set_drop_subset [of n "rest lx"] by (auto simp: moves_def)
qed

lemma moves_bump_verbatim: "u = take n (rest lx) \<Longrightarrow> moves lx inner (bump n k lx) (inner @ u)"
  by (rule moves_bump) auto

lemma take1: "s \<noteq> [] \<Longrightarrow> take 1 s = [hd s]" "s \<noteq> [] \<Longrightarrow> take (Suc 0) s = [hd s]"
  by (cases s; simp)+

lemma block_copy_step_moves:
  "block_copy_step close flat depth lx inner = Some (depth', lx', inner') \<Longrightarrow> moves lx inner lx' inner'"
  by (auto simp: block_copy_step_def take1 prefix_def split: if_splits intro!: moves_bump)

lemma block_copy_moves:
  "block_copy close flat depth lx inner = (lx', inner') \<Longrightarrow> moves lx inner lx' inner'"
proof (induction close flat depth lx inner rule: block_copy.induct)
  case (1 close flat depth lx inner)
  show ?case
  proof (cases "block_copy_step close flat depth lx inner")
    case None
    with 1(2) show ?thesis by (simp add: block_copy.simps [of close flat depth lx inner])
  next
    case (Some x)
    obtain d1 lx1 i1 where x: "x = (d1, lx1, i1)" by (cases x)
    with Some 1(2) have "block_copy close flat d1 lx1 i1 = (lx', inner')"
      by (simp add: block_copy.simps [of close flat depth lx inner])
    with 1(1) [OF Some x [symmetric] refl] block_copy_step_moves Some x moves_trans show ?thesis by blast
  qed
qed

lemma comment_copy_take: "comment_copy close flat s = take (length (comment_copy close flat s)) s"
  unfolding comment_copy_def by (metis takeWhile_eq_take)

lemma group_step_moves:
  assumes "group_step close lx stack inner = Inr (lx', stack', inner')"
  shows "moves lx inner lx' inner' \<and> length (rest lx') < length (rest lx)"
proof -
  have ne: "rest lx \<noteq> []" using assms by (auto simp: group_step_def split: if_splits)
  have line: "moves lx inner (bump (length u) k lx) (inner @ u) \<and> length (drop (length u) (rest lx)) < length (rest lx)"
    if "prefix ''//'' (rest lx)" "u = ''//'' @ comment_copy close (stack = []) (drop 2 (rest lx))" for u k
  proof -
    from that(1) obtain r where r: "rest lx = ''//'' @ r" by (auto simp: prefix_def)
    have "u = take (length u) (rest lx)"
      using that(2) comment_copy_take [of close "stack = []" r] by (simp add: r)
    then have "moves lx inner (bump (length u) k lx) (inner @ u)" by (rule moves_bump_verbatim)
    moreover have "0 < length u" using that(2) by simp
    ultimately show ?thesis using ne by simp
  qed
  have block: "moves lx inner lx1 i1 \<and> length (rest lx1) < length (rest lx)"
    if "prefix ''/*'' (rest lx)" "block_copy close (stack = []) 1 (bump 2 0 lx) (inner @ ''/*'') = (lx1, i1)" for lx1 i1
  proof -
    have "moves lx inner (bump 2 0 lx) (inner @ ''/*'')"
      using that(1) by (intro moves_bump_verbatim) (auto simp: prefix_def)
    moreover note b = block_copy_moves [OF that(2)]
    ultimately have "moves lx inner lx1 i1" by (rule moves_trans)
    moreover have "length (rest lx1) < length (rest lx)" using b that(1) by (auto simp: moves_def prefix_def)
    ultimately show ?thesis by simp
  qed
  have str: "moves lx inner (bump n k lx) (inner @ take n (rest lx)) \<and> length (drop n (rest lx)) < length (rest lx)"
    if "scan_string (rest lx) = Inr (kd, n)" for kd n k
    using moves_bump_verbatim scan_string_pos [OF that] ne by auto
  have one: "moves lx inner (bump (Suc 0) k lx) (inner @ [c])" if "c = hd (rest lx) \<or> c = lf \<and> is_blank (hd (rest lx))" for k c
    by (rule moves_bump) (use that ne in \<open>auto simp: take1\<close>)
  have two: "moves lx inner (bump 2 k lx) (inner @ [lf])" if "prefix [cr, lf] (rest lx)" for k
    by (rule moves_bump) (use that in \<open>auto simp: prefix_def\<close>)
  show ?thesis
    using assms ne line block str one two
    by (auto simp: group_step_def Let_def split: if_splits sum.splits prod.splits list.splits)
qed

function group_body :: "char \<Rightarrow> lexer \<Rightarrow> string \<Rightarrow> string \<Rightarrow> group_end" where
  "group_body close lx stack inner =
     (case group_step close lx stack inner of
        Inl g \<Rightarrow> g
      | Inr (lx', stack', inner') \<Rightarrow> group_body close lx' stack' inner')"
  by pat_completeness auto
termination
  by (relation "measure (\<lambda>(c, lx, s, i). length (rest lx))") (auto dest: group_step_moves)

declare group_body.simps [simp del]

definition unclosed_msg :: "char \<Rightarrow> group_delim \<Rightarrow> lexer \<Rightarrow> lex_msg" where
  "unclosed_msg close delim lx =
     (case (delim, unclosed_head lx) of
        (Brace, Some (head, opened)) \<Rightarrow> UnclosedBlock head opened
      | (Bracket, Some (head, opened)) \<Rightarrow>
          if head = ''WITH_IO'' then BindingsUnclosed opened else UnclosedGroup close
      | _ \<Rightarrow> UnclosedGroup close)"

definition join_first :: "bool \<Rightarrow> tok list \<Rightarrow> tok list" where
  "join_first open_joint ts =
     (case ts of
        Tok k j l c # rs \<Rightarrow>
          if open_joint \<and> (case k of Newline \<Rightarrow> False | Semicolon \<Rightarrow> False | Comment _ \<Rightarrow> False | _ \<Rightarrow> True)
          then Tok k True l c # rs else ts
      | [] \<Rightarrow> [])"

definition lex_group ::
  "(lexer \<Rightarrow> (lex_error + lexer) option) \<Rightarrow> char \<Rightarrow> group_delim \<Rightarrow> lexer \<Rightarrow> (lex_error + lexer) option" where
  "lex_group child close delim lx =
     (let lx1 = bump 1 0 lx;
          open_joint = \<not> (rest lx1 \<noteq> [] \<and> is_blank (hd (rest lx1))) in
      case group_body close lx1 [] [] of
        GErr e \<Rightarrow> Some (Err e)
      | GEof lx2 \<Rightarrow> Some (Err (err_at lx2 (unclosed_msg close delim lx2)))
      | GClose lx2 inner \<Rightarrow>
          (let close_joint = \<not> (before lx2 \<noteq> [] \<and> is_blank (hd (before lx2)));
               lx3 = bump 1 0 lx2 in
           case child (with_start inner (lx_line lx) (lx_col lx + 1)) of
             None \<Rightarrow> None
           | Some (Inl e) \<Rightarrow> Some (Err e)
           | Some (Inr ch) \<Rightarrow>
               Some (Ok (push (Group delim (join_first open_joint (lx_out ch)) open_joint close_joint) lx3))))"

section \<open>The main loop\<close>

definition lex_string_tok :: "tok_kind \<Rightarrow> nat \<Rightarrow> lexer \<Rightarrow> lexer" where
  "lex_string_tok k n lx =
     push_at k (\<not> gapped lx) ((bump n (count_lf (take n (rest lx))) lx)\<lparr>gapped := False\<rparr>)"

text \<open>The arms for blanks, line breaks, semicolons and comments.\<close>

definition lex_gap :: "lexer \<Rightarrow> (lex_error + lexer) option" where
  "lex_gap lx =
     (let c = hd (rest lx); u = line_text (rest lx) in
      if c = CHR '' '' \<or> c = tab then Some (Ok (set_gap (bump 1 0 lx)))
      else if prefix [cr, lf] (rest lx) then Some (Ok (set_gap (push_at Newline False (bump 2 1 lx))))
      else if c = lf \<or> c = cr then Some (Ok (set_gap (push_at Newline False (bump 1 1 lx))))
      else if c = CHR '';'' then Some (Ok (set_gap (push_at Semicolon False (bump 1 0 lx))))
      else if prefix ''//'' (rest lx) \<and> at_line_start lx then
        Some (Ok (set_gap (push_at (Comment u) False (bump (length u) 0 lx))))
      else if prefix ''//'' (rest lx) then
        Some (Ok ((push_at (Comment u) (\<not> gapped lx) (bump (length u) 0 lx))\<lparr>gapped := False\<rparr>))
      else if prefix ''/*'' (rest lx) \<and> at_line_start lx then
        (case block_comment 1 (bump 2 0 lx) of
           Inl e \<Rightarrow> Some (Err e)
         | Inr lx1 \<Rightarrow> Some (Ok (push_at (Comment (consumed lx lx1)) False lx1)))
      else if c = CHR ''#'' \<and> at_line_start lx then
        Some (Ok (set_gap (push_at (Comment u) False (bump (length u) 0 lx))))
      else None)"

text \<open>The arms for strings, groups, punctuation and words.\<close>

definition lex_tok :: "(lexer \<Rightarrow> (lex_error + lexer) option) \<Rightarrow> lexer \<Rightarrow> (lex_error + lexer) option" where
  "lex_tok child lx =
     (let c = hd (rest lx) in
      if c = dquote then
        (case scan_string (rest lx) of
           Inl m \<Rightarrow> Some (Err (err_at lx m))
         | Inr (k, n) \<Rightarrow> Some (Ok (lex_string_tok k n lx)))
      else if c = squote \<and> gapped lx then
        (case scan_string (rest lx) of
           Inl m \<Rightarrow> Some (Ok (push (Punct squote) (bump 1 0 lx)))
         | Inr (k, n) \<Rightarrow> Some (Ok (lex_string_tok k n lx)))
      else if c = CHR ''['' then lex_group child CHR '']'' Bracket lx
      else if c = CHR ''('' then lex_group child CHR '')'' Paren lx
      else if c = CHR ''{'' then lex_group child CHR ''}'' Brace lx
      else if c \<in> set '')]}'' then Some (Err (err_at lx (Unmatched c)))
      else if is_delim c then Some (Ok (push (Punct c) (bump 1 0 lx)))
      else Some (Ok (lex_word lx)))"

definition lex_step :: "(lexer \<Rightarrow> (lex_error + lexer) option) \<Rightarrow> lexer \<Rightarrow> (lex_error + lexer) option" where
  "lex_step child lx0 =
     (let lx = lx0\<lparr>mark_line := lx_line lx0, mark_col := lx_col lx0\<rparr> in
      case lex_gap lx of Some r \<Rightarrow> Some r | None \<Rightarrow> lex_tok child lx)"

fun lex_run :: "nat \<Rightarrow> lexer \<Rightarrow> (lex_error + lexer) option" where
  "lex_run 0 lx = None"
| "lex_run (Suc n) lx =
     (if rest lx = [] then Some (Ok lx)
      else (case lex_step (lex_run n) lx of
          None \<Rightarrow> None
        | Some (Inl e) \<Rightarrow> Some (Err e)
        | Some (Inr lx') \<Rightarrow> lex_run n lx'))"

definition lex_str :: "nat \<Rightarrow> string \<Rightarrow> (lex_error + tok list) option" where
  "lex_str fuel s =
     (case lex_run fuel (with_start s 1 1) of
        None \<Rightarrow> None
      | Some (Inl e) \<Rightarrow> Some (Err e)
      | Some (Inr lx) \<Rightarrow> Some (Ok (lx_out lx)))"

section \<open>Nothing is lost\<close>

fun open_char :: "group_delim \<Rightarrow> char" where
  "open_char Bracket = CHR ''[''" | "open_char Paren = CHR ''(''" | "open_char Brace = CHR ''{''"

fun close_char :: "group_delim \<Rightarrow> char" where
  "close_char Bracket = CHR '']''" | "close_char Paren = CHR '')''" | "close_char Brace = CHR ''}''"

text \<open>The text a token stands for.\<close>

fun spell_kind :: "tok_kind \<Rightarrow> string" and spell :: "tok \<Rightarrow> string" where
  "spell_kind (Word w) = w"
| "spell_kind (Str t q) = q # t @ [q]"
| "spell_kind (BlockStr t) = t"
| "spell_kind (Punct c) = [c]"
| "spell_kind (Group d ts oj cj) = open_char d # concat (map spell ts) @ [close_char d]"
| "spell_kind Newline = [lf]"
| "spell_kind Semicolon = '';''"
| "spell_kind (Comment t) = t"
| "spell (Tok k j l c) = spell_kind k"

definition spells :: "tok list \<Rightarrow> string" where
  "spells ts = concat (map spell ts)"

lemma spell_kind_Group [simp]: "spell_kind (Group d ts oj cj) = open_char d # spells ts @ [close_char d]"
  by (simp add: spells_def)

declare spell_kind.simps(5) [simp del]

definition total :: "lexer \<Rightarrow> string" where
  "total lx = squeeze (spells (lx_out lx)) @ squeeze (rest lx)"

lemma push_simps [simp]:
  "rest (push_at k j lx) = rest lx" "rest (push k lx) = rest lx" "rest (set_gap lx) = rest lx"
  "lx_out (push_at k j lx) = lx_out lx @ [Tok k j (mark_line lx) (mark_col lx)]"
  "lx_out (push k lx) = lx_out lx @ [Tok k (\<not> gapped lx) (mark_line lx) (mark_col lx)]"
  "lx_out (set_gap lx) = lx_out lx"
  by (simp_all add: push_at_def push_def set_gap_def)

lemma spells_snoc [simp]: "spells (ts @ [Tok k j l c]) = spells ts @ spell_kind k"
  by (simp add: spells_def)

lemma total_emit:
  assumes "lx_out lx' = lx_out lx @ [Tok k j l c]" and "squeeze (spell_kind k) @ squeeze (rest lx') = squeeze (rest lx)"
  shows "total lx' = total lx"
  using assms by (simp add: total_def)

lemma total_drop:
  assumes "lx_out lx' = lx_out lx @ [Tok k j l c]" and "rest lx' = drop n (rest lx)"
    and "squeeze (spell_kind k) = squeeze (take n (rest lx))"
  shows "total lx' = total lx"
  using assms squeeze_split [of n "rest lx"] by (simp add: total_emit)

lemma scan_quoted_spec:
  "scan_quoted q s = Inr n \<Longrightarrow> 0 < n \<and> n \<le> length s \<and> s ! (n - 1) = q"
proof (induction s arbitrary: n rule: length_induct)
  case (1 s)
  then show ?case
    by (cases s) (auto split: if_splits list.splits sum.splits simp: nth_Cons', force+)
qed

lemma scan_string_spell:
  assumes "scan_string s = Inr (k, n)"
  shows "spell_kind k = take n s"
proof (cases "prefix [dquote, dquote, dquote] s")
  case True
  with assms show ?thesis by (auto simp: scan_string_def split: sum.splits)
next
  case False
  with assms obtain q cs m where s: "s = q # cs" and m: "scan_quoted q cs = Inr m" and k: "k = Str (take (m - 1) cs) q" "n = m + 1"
    by (auto simp: scan_string_def split: list.splits if_splits sum.splits)
  from scan_quoted_spec [OF m] have "take m cs = take (m - 1) cs @ [q]"
    by (cases m) (simp_all add: take_Suc_conv_app_nth)
  with s k show ?thesis by simp
qed

lemma group_body_moves:
  "group_body close lx stack inner = GClose lx2 inner2 \<Longrightarrow>
   moves lx inner lx2 inner2 \<and> rest lx2 \<noteq> [] \<and> hd (rest lx2) = close"
proof (induction close lx stack inner rule: group_body.induct)
  case (1 close lx stack inner)
  show ?case
  proof (cases "group_step close lx stack inner")
    case (Inl g)
    with 1(2) have "group_step close lx stack inner = Inl (GClose lx2 inner2)"
      by (simp add: group_body.simps [of close lx stack inner])
    then have "lx2 = lx \<and> inner2 = inner \<and> rest lx \<noteq> [] \<and> hd (rest lx) = close"
      by (auto simp: group_step_def Let_def split: if_splits sum.splits prod.splits list.splits)
    then show ?thesis by simp
  next
    case (Inr x)
    obtain lx1 st i1 where x: "x = (lx1, st, i1)" by (cases x)
    with Inr 1(2) have "group_body close lx1 st i1 = GClose lx2 inner2"
      by (simp add: group_body.simps [of close lx stack inner])
    with 1(1) [OF Inr x [symmetric] refl] group_step_moves Inr x moves_trans show ?thesis by blast
  qed
qed

lemma block_comment_drops:
  "block_comment depth lx = Ok lx' \<Longrightarrow>
   lx_out lx' = lx_out lx \<and> (\<exists>n. rest lx' = drop n (rest lx))"
proof (induction depth lx rule: block_comment.induct)
  case (1 depth lx)
  show ?case
  proof (cases "block_comment_step depth lx")
    case (Inl r)
    with 1(2) have "block_comment_step depth lx = Inl (Ok lx')"
      by (simp add: block_comment.simps [of depth lx])
    then have "lx' = set_gap (bump 2 0 lx)" by (simp add: block_comment_step_def split: if_splits)
    then show ?thesis by auto
  next
    case (Inr x)
    obtain d1 lx1 where x: "x = (d1, lx1)" by (cases x)
    with Inr 1(2) have "block_comment d1 lx1 = Ok lx'" by (simp add: block_comment.simps [of depth lx])
    with 1(1) [OF Inr x [symmetric]] obtain n where "lx_out lx' = lx_out lx1" "rest lx' = drop n (rest lx1)" by blast
    moreover obtain k nl where "lx1 = bump k nl lx"
      using Inr x by (auto simp: block_comment_step_def split: if_splits)
    ultimately show ?thesis by auto
  qed
qed

lemma consumed_drop: "rest lx' = drop n (rest lx) \<Longrightarrow> consumed lx lx' = take n (rest lx)"
  by (cases "n \<le> length (rest lx)") (simp_all add: consumed_def)

lemma prefix_take [simp]: "prefix u s \<Longrightarrow> take (length u) s = u"
  by (auto simp: prefix_def)

lemma prefix_take2: "prefix [a, b] s \<Longrightarrow> take 2 s = [a, b]"
  by (auto simp: prefix_def)

lemma line_text_prefix [simp]: "prefix (line_text s) s"
  by (simp add: line_text_def takeWhile_is_prefix)

lemma take_word_prefix [simp]: "prefix (take_word s) s"
  by (induction s rule: take_word.induct) (auto split: list.splits)

text \<open>What a lexer run has done when it succeeds.\<close>

definition complete :: "(lexer \<Rightarrow> (lex_error + lexer) option) \<Rightarrow> bool" where
  "complete child \<longleftrightarrow> (\<forall>lx lx'. child lx = Some (Ok lx') \<longrightarrow> rest lx' = [] \<and> total lx' = total lx)"

lemma spells_join_first [simp]: "spells (join_first oj ts) = spells ts"
  by (auto simp: join_first_def spells_def split: list.splits tok.splits)

lemma lex_group_total:
  assumes "complete child" and "lex_group child (close_char d) d lx = Some (Ok lx')"
    and "rest lx = open_char d # cs"
  shows "total lx' = total lx"
proof -
  from assms(2) obtain lx2 inner ch oj cj where
    body: "group_body (close_char d) (bump 1 0 lx) [] [] = GClose lx2 inner" and
    ch: "child (with_start inner (lx_line lx) (lx_col lx + 1)) = Some (Ok ch)" and
    lx': "lx' = push (Group d (join_first oj (lx_out ch)) oj cj) (bump 1 0 lx2)"
    by (auto simp: lex_group_def Let_def split: group_end.splits option.splits sum.splits)
  from assms(1) ch have "rest ch = []" "total ch = total (with_start inner (lx_line lx) (lx_col lx + 1))"
    by (auto simp: complete_def)
  then have "rest ch = []" "squeeze (spells (lx_out ch)) = squeeze inner"
    by (simp_all add: total_def with_start_def spells_def)
  moreover from group_body_moves [OF body] obtain r where
    "lx_out lx2 = lx_out lx" "rest lx2 = close_char d # r" "squeeze inner @ squeeze (rest lx2) = squeeze cs"
    by (cases "rest lx2") (auto simp: moves_def assms(3))
  moreover have "\<not> is_blank (open_char d)" "\<not> is_blank (close_char d)" by (cases d; simp add: is_blank_def)+
  ultimately show ?thesis by (simp add: total_def lx' assms(3))
qed

lemma total_simps [simp]:
  "total (set_gap lx) = total lx" "total (lx\<lparr>gapped := b\<rparr>) = total lx"
  "total (lx\<lparr>mark_line := a, mark_col := c\<rparr>) = total lx"
  by (simp_all add: total_def)

lemma total_push_at:
  "squeeze (spell_kind k) = squeeze (take n (rest lx)) \<Longrightarrow> total (push_at k j (bump n nl lx)) = total lx"
  by (rule total_drop) simp_all

lemma total_push:
  "squeeze (spell_kind k) = squeeze (take n (rest lx)) \<Longrightarrow> total (push k (bump n nl lx)) = total lx"
  by (rule total_drop) simp_all

lemma total_string_tok:
  assumes "scan_string (rest lx) = Inr (k, n)"
  shows "total (lex_string_tok k n lx) = total lx"
  using scan_string_spell [OF assms] squeeze_split [of n "rest lx"] by (simp add: lex_string_tok_def total_def)

lemma total_blank: "is_blank (hd (rest lx)) \<Longrightarrow> rest lx \<noteq> [] \<Longrightarrow> total (bump 1 nl lx) = total lx"
  by (cases "rest lx") (auto simp: total_def)

lemma total_word: "total (lex_word lx) = total lx"
  by (simp add: lex_word_def Let_def total_push)

lemma total_block_comment:
  assumes "block_comment 1 (bump 2 0 lx) = Ok lx1"
  shows "total (push_at (Comment (consumed lx lx1)) False lx1) = total lx"
proof -
  from block_comment_drops [OF assms] obtain n where n: "lx_out lx1 = lx_out lx" "rest lx1 = drop (n + 2) (rest lx)"
    by auto
  then have "consumed lx lx1 = take (n + 2) (rest lx)" by (intro consumed_drop)
  with n squeeze_split [of "n + 2" "rest lx"] show ?thesis by (simp add: total_def)
qed

lemma total_char:
  assumes "rest lx \<noteq> []" and "squeeze (spell_kind k) = squeeze [hd (rest lx)]"
  shows "total (push_at k j (bump 1 nl lx)) = total lx" "total (push k (bump 1 nl lx)) = total lx"
  using assms by (simp_all add: total_push_at total_push take1)

lemma lex_gap_total:
  assumes "lex_gap lx = Some (Ok lx')" and "rest lx \<noteq> []"
  shows "total lx' = total lx"
  using assms(1) unfolding lex_gap_def Let_def
  by (auto simp: assms(2) total_push_at total_block_comment total_blank total_char is_blank_def prefix_take2
      simp del: One_nat_def split: if_splits sum.splits)

lemma lex_tok_total:
  assumes "complete child" and "lex_tok child lx = Some (Ok lx')" and "rest lx \<noteq> []"
  shows "total lx' = total lx"
proof -
  obtain c cs where rc: "rest lx = c # cs" using assms(3) by (cases "rest lx") auto
  have grp: "total lx' = total lx" if "lex_group child (close_char d) d lx = Some (Ok lx')" "c = open_char d" for d
    using lex_group_total [OF assms(1) that(1)] that(2) rc by simp
  have c: "hd (rest lx) = c" by (simp add: rc)
  show ?thesis
    using assms(2) grp [of Bracket] grp [of Paren] grp [of Brace] unfolding lex_tok_def Let_def c
    by (auto simp: assms(3) total_char c total_string_tok total_word simp del: One_nat_def
        split: if_splits sum.splits prod.splits)
qed

lemma lex_step_total:
  assumes "complete child" and "lex_step child lx = Some (Ok lx')" and "rest lx \<noteq> []"
  shows "total lx' = total lx"
proof -
  let ?m = "lx\<lparr>mark_line := lx_line lx, mark_col := lx_col lx\<rparr>"
  have ne: "rest ?m \<noteq> []" using assms(3) by simp
  have "total lx' = total ?m"
  proof (cases "lex_gap ?m")
    case None
    with assms(2) lex_tok_total [OF assms(1) _ ne] show ?thesis by (simp add: lex_step_def)
  next
    case (Some r)
    with assms(2) lex_gap_total [OF _ ne] show ?thesis by (simp add: lex_step_def)
  qed
  then show ?thesis by simp
qed

lemma lex_run_complete: "complete (lex_run n)"
proof (induction n)
  case (Suc n)
  show ?case unfolding complete_def
  proof (intro allI impI)
    fix lx lx' assume run: "lex_run (Suc n) lx = Some (Ok lx')"
    show "rest lx' = [] \<and> total lx' = total lx"
    proof (cases "rest lx = []")
      case False
      with run obtain lx1 where "lex_step (lex_run n) lx = Some (Ok lx1)" "lex_run n lx1 = Some (Ok lx')"
        by (auto split: option.splits sum.splits)
      with lex_step_total [OF Suc _ False] Suc show ?thesis by (auto simp: complete_def)
    qed (use run in simp)
  qed
qed (simp add: complete_def)

text \<open>C17. 
  The lexer loses and invents nothing: the tokens of a source, groups and comments included, spell
  the source up to blanks and line breaks.
\<close>

theorem lexing_lossless:
  assumes "lex_str n src = Some (Ok ts)"
  shows "squeeze (spells ts) = squeeze src"
proof -
  obtain lx where "lex_run n (with_start src 1 1) = Some (Ok lx)" "ts = lx_out lx"
    using assms by (auto simp: lex_str_def split: option.splits sum.splits)
  with lex_run_complete [of n] have "rest lx = []" "total lx = total (with_start src 1 1)" "ts = lx_out lx"
    by (auto simp: complete_def)
  then show ?thesis by (simp add: total_def with_start_def spells_def)
qed

section \<open>Lexing ends\<close>

text \<open>The texts the main loop makes progress on: no white space but blanks and line breaks.\<close>

definition plain_text :: "string \<Rightarrow> bool" where
  "plain_text s \<longleftrightarrow> (\<forall>c \<in> set s. is_whitespace c \<longrightarrow> is_blank c)"

lemma plain_drop: "plain_text s \<Longrightarrow> plain_text (drop n s)"
  using set_drop_subset [of n s] by (auto simp: plain_text_def)

lemma take_word_nonempty: "\<lbrakk>s \<noteq> []; \<not> is_whitespace (hd s); \<not> is_delim (hd s)\<rbrakk> \<Longrightarrow> take_word s \<noteq> []"
  by (cases s) (auto split: list.splits)

definition ends_on :: "nat \<Rightarrow> (lexer \<Rightarrow> (lex_error + lexer) option) \<Rightarrow> bool" where
  "ends_on n child \<longleftrightarrow> (\<forall>lx. plain_text (rest lx) \<and> length (rest lx) < n \<longrightarrow> child lx \<noteq> None)"

text \<open>What a step does to the rest: it gets shorter and holds no new characters.\<close>

definition eats :: "lexer \<Rightarrow> lexer \<Rightarrow> bool" where
  "eats lx lx' \<longleftrightarrow>
     length (rest lx') < length (rest lx) \<and> set (rest lx') \<subseteq> insert lf (set (rest lx))"

lemma plain_mono: "\<lbrakk>plain_text s; set t \<subseteq> insert lf (set s)\<rbrakk> \<Longrightarrow> plain_text t"
  by (auto simp: plain_text_def)

lemma eats_drop: "\<lbrakk>rest lx' = drop n (rest lx); 0 < n; rest lx \<noteq> []\<rbrakk> \<Longrightarrow> eats lx lx'"
  using set_drop_subset [of n "rest lx"] by (auto simp: eats_def)

lemma eats_trans_moves:
  assumes "rest b = drop 1 (rest a)" and "rest a \<noteq> []" and "moves b [] c j" and "rest d = drop 1 (rest c)"
  shows "eats a d"
proof -
  have "set (rest b) \<subseteq> set (rest a)" "length (rest b) < length (rest a)"
    using assms(1,2) set_drop_subset [of 1 "rest a"] by simp_all
  moreover have "set (rest c) \<subseteq> insert lf (set (rest b))" "length (rest c) \<le> length (rest b)"
    using assms(3) by (auto simp: moves_def)
  moreover have "set (rest d) \<subseteq> set (rest c)" using assms(4) set_drop_subset [of 1 "rest c"] by simp
  ultimately show ?thesis using assms(4) by (auto simp: eats_def)
qed

lemma lex_group_eats:
  assumes "lex_group child close d lx = Some (Ok lx')" and "rest lx \<noteq> []"
  shows "eats lx lx'"
proof -
  from assms(1) obtain lx2 inner k where
    "group_body close (bump 1 0 lx) [] [] = GClose lx2 inner" "lx' = push k (bump 1 0 lx2)"
    by (auto simp: lex_group_def Let_def split: group_end.splits option.splits sum.splits)
  with group_body_moves [of close "bump 1 0 lx" "[]" "[]" lx2 inner] assms(2) show ?thesis
    by (intro eats_trans_moves [of "bump 1 0 lx" lx lx2 inner]) auto
qed

lemma lex_group_ends:
  assumes "ends_on n child" and "plain_text (rest lx)" and "length (rest lx) \<le> n"
  shows "lex_group child close d lx \<noteq> None"
proof (cases "group_body close (bump 1 0 lx) [] []")
  case (GClose lx2 inner)
  from group_body_moves [OF this] have m: "moves (bump 1 0 lx) [] lx2 inner" "rest lx2 \<noteq> []" by auto
  then have "0 < length (rest lx2)" "length inner + length (rest lx2) \<le> length (rest lx) - 1"
    by (auto simp: moves_def)
  then have "length inner < n" using assms(3) by linarith
  moreover have "set inner \<subseteq> insert lf (set (rest lx))"
    using m(1) set_drop_subset [of 1 "rest lx"] by (auto simp: moves_def)
  then have "plain_text inner" using assms(2) plain_mono by blast
  ultimately have "child (with_start inner (lx_line lx) (lx_col lx + 1)) \<noteq> None"
    using assms(1) by (simp add: ends_on_def with_start_def)
  with GClose show ?thesis by (auto simp: lex_group_def Let_def split: sum.splits)
qed (auto simp: lex_group_def Let_def)

lemma line_text_nonempty: "\<lbrakk>s \<noteq> []; hd s \<noteq> lf; hd s \<noteq> cr\<rbrakk> \<Longrightarrow> 0 < length (line_text s)"
  by (cases s) (auto simp: line_text_def)

lemma lex_gap_eats:
  assumes "lex_gap lx = Some (Ok lx')" and "rest lx \<noteq> []"
  shows "eats lx lx'"
proof -
  have blk: "eats lx (push_at k j lx1)" if "block_comment 1 (bump 2 0 lx) = Ok lx1" for k j lx1
  proof -
    from block_comment_drops [OF that] obtain n where "rest lx1 = drop (n + 2) (rest lx)" by auto
    then show ?thesis using assms(2) by (intro eats_drop [where n = "n + 2"]) auto
  qed
  have gap: "eats lx (set_gap (push_at k j (bump n nl lx)))" "eats lx (set_gap (bump n nl lx))"
    "eats lx (push_at k j (bump n nl lx)\<lparr>gapped := b\<rparr>)" if "0 < n" for k j n nl b
    using that assms(2) by (auto intro: eats_drop)
  have line: "0 < length (line_text (rest lx))" if "hd (rest lx) \<noteq> lf" "hd (rest lx) \<noteq> cr"
    using line_text_nonempty [OF assms(2) that] .
  show ?thesis
    using assms blk line unfolding lex_gap_def Let_def
    by (auto simp del: length_greater_0_conv intro!: gap split: if_splits sum.splits)
qed

lemma lex_tok_eats:
  assumes "lex_tok child lx = Some (Ok lx')" and "rest lx \<noteq> []" and "plain_text (rest lx)" and "lex_gap lx = None"
  shows "eats lx lx'"
proof -
  have "hd (rest lx) \<in> set (rest lx)" using assms(2) by simp
  moreover have "\<not> is_blank (hd (rest lx))" using assms(4) by (auto simp: lex_gap_def is_blank_def Let_def split: if_splits)
  ultimately have nw: "\<not> is_whitespace (hd (rest lx))" using assms(3) by (auto simp: plain_text_def)
  have str: "eats lx (lex_string_tok k n lx)" if "scan_string (rest lx) = Inr (k, n)" for k n
    using assms(2) scan_string_pos [OF that] by (auto simp: lex_string_tok_def intro!: eats_drop [where n = n])
  have tok: "eats lx (push k (bump 1 nl lx))" for k nl using assms(2) by (intro eats_drop [where n = 1]) auto
  have word: "eats lx (lex_word lx)" if "\<not> is_delim (hd (rest lx))"
    using take_word_nonempty [OF assms(2) nw that] assms(2)
    by (auto simp: lex_word_def Let_def intro!: eats_drop [where n = "length (take_word (rest lx))"])
  show ?thesis
    using assms(1) str tok word lex_group_eats [OF _ assms(2)] unfolding lex_tok_def Let_def
    by (auto split: if_splits sum.splits prod.splits)
qed

lemma lex_step_eats:
  assumes "lex_step child lx = Some (Ok lx')" and "rest lx \<noteq> []" and "plain_text (rest lx)"
  shows "eats lx lx'"
proof -
  let ?m = "lx\<lparr>mark_line := lx_line lx, mark_col := lx_col lx\<rparr>"
  have m: "rest ?m \<noteq> []" "plain_text (rest ?m)" using assms by simp_all
  have "eats ?m lx'"
  proof (cases "lex_gap ?m")
    case None
    with assms(1) lex_tok_eats [OF _ m None] show ?thesis by (simp add: lex_step_def)
  next
    case (Some r)
    with assms(1) lex_gap_eats [OF _ m(1)] show ?thesis by (simp add: lex_step_def)
  qed
  then show ?thesis by (simp add: eats_def)
qed

lemma lex_step_ends:
  assumes "ends_on n child" and "plain_text (rest lx)" and "length (rest lx) \<le> n"
  shows "lex_step child lx \<noteq> None"
  using lex_group_ends [OF assms(1)] assms(2,3)
  by (auto simp: lex_step_def lex_tok_def Let_def split: option.splits sum.splits prod.splits)

lemma lex_run_ends: "ends_on n (lex_run n)"
proof (induction n)
  case (Suc n)
  show ?case unfolding ends_on_def
  proof (intro allI impI)
    fix lx :: lexer assume a: "plain_text (rest lx) \<and> length (rest lx) < Suc n"
    show "lex_run (Suc n) lx \<noteq> None"
    proof (cases "rest lx = []")
      case False
      obtain r where r: "lex_step (lex_run n) lx = Some r" using lex_step_ends [OF Suc] a by fastforce
      show ?thesis
      proof (cases r)
        case (Inr lx1)
        with lex_step_eats r False a have "eats lx lx1" by blast
        with a have "length (rest lx1) < n" "plain_text (rest lx1)" by (auto simp: eats_def intro: plain_mono)
        with Suc have "lex_run n lx1 \<noteq> None" by (simp add: ends_on_def)
        with r Inr False show ?thesis by simp
      qed (use r False in simp)
    qed simp
  qed
qed (simp add: ends_on_def)

text \<open>A lexer with more fuel agrees with one that returned.\<close>

definition agrees :: "(lexer \<Rightarrow> (lex_error + lexer) option) \<Rightarrow> (lexer \<Rightarrow> (lex_error + lexer) option) \<Rightarrow> bool" where
  "agrees f g \<longleftrightarrow> (\<forall>lx r. f lx = Some r \<longrightarrow> g lx = Some r)"

lemma lex_group_agrees: "\<lbrakk>agrees f g; lex_group f close d lx = Some r\<rbrakk> \<Longrightarrow> lex_group g close d lx = Some r"
  unfolding lex_group_def Let_def agrees_def
  by (auto split: group_end.splits option.splits sum.splits)

lemma lex_step_agrees:
  assumes "agrees f g" and "lex_step f lx = Some r"
  shows "lex_step g lx = Some r"
  using assms(2) lex_group_agrees [OF assms(1)]
  by (auto simp: lex_step_def lex_tok_def Let_def split: option.splits if_splits sum.splits prod.splits)

lemma lex_run_agrees: "agrees (lex_run n) (lex_run (n + k))"
proof (induction n)
  case (Suc n)
  show ?case unfolding agrees_def
  proof (intro allI impI)
    fix lx :: lexer and r assume "lex_run (Suc n) lx = Some r"
    then show "lex_run (Suc n + k) lx = Some r"
      using lex_step_agrees [OF Suc] Suc by (auto simp: agrees_def split: if_splits option.splits sum.splits)
  qed
qed (simp add: agrees_def)

text \<open>C13. 
  Lexing ends: on a source whose white space is blanks, tabs and line breaks, the lexer returns
  tokens or an error within one round more than the source has characters, and every larger
  fuel gives the same result.
\<close>

theorem lexing_ends:
  assumes "plain_text src"
  shows "\<exists>r. lex_str (length src + 1 + k) src = Some r \<and> lex_str (length src + 1) src = Some r"
proof -
  have "plain_text (rest (with_start src 1 1)) \<and> length (rest (with_start src 1 1)) < length src + 1"
    using assms by (simp add: with_start_def)
  then have "lex_run (length src + 1) (with_start src 1 1) \<noteq> None"
    using lex_run_ends [of "length src + 1"] unfolding ends_on_def by blast
  then obtain r where r: "lex_run (length src + 1) (with_start src 1 1) = Some r" by blast
  then have "lex_run (length src + 1 + k) (with_start src 1 1) = Some r"
    using lex_run_agrees [of "length src + 1" k] by (simp only: agrees_def)
  with r show ?thesis by (simp only: lex_str_def option.case) (auto split: sum.splits)
qed

definition sample_source :: string where
  "sample_source =
     ''LET $a: INT = [1, (2)] // note'' @ [lf] @ ''IF $a { ECHO '' @ [dquote] @ ''x }'' @ [dquote] @ '' }''"

theorem lexing_ends_witness:
  "\<exists>r. lex_str (length sample_source + 1 + 5) sample_source = Some r \<and> lex_str (length sample_source + 1) sample_source = Some r"
proof (rule lexing_ends)
  show "plain_text sample_source" by code_simp
qed

theorem lexing_lossless_witness:
  "\<exists>ts. lex_str 100 sample_source = Some (Ok ts) \<and> squeeze (spells ts) = squeeze sample_source"
proof -
  have "(case lex_str 100 sample_source of Some (Inr ts) \<Rightarrow> True | _ \<Rightarrow> False)" by code_simp
  then obtain ts where "lex_str 100 sample_source = Some (Ok ts)" by (auto split: option.splits sum.splits)
  with lexing_lossless show ?thesis by blast
qed

text \<open>
  On other white space, such as a no-break space or a form feed, the main loop emits empty words
  without moving on, so no fuel is enough.
\<close>

theorem other_white_space_hangs: "lex_str n [CHR 0xA0] = None"
proof -
  have "lex_run n lx = None" if "rest lx = [CHR 0xA0]" for lx
    using that
  proof (induction n arbitrary: lx)
    case (Suc n)
    let ?m = "lx\<lparr>mark_line := lx_line lx, mark_col := lx_col lx\<rparr>"
    have "lex_gap ?m = None" using Suc.prems by (simp add: lex_gap_def Let_def)
    moreover have "lex_tok (lex_run n) ?m = Some (Ok (lex_word ?m))"
      using Suc.prems by (simp add: lex_tok_def Let_def is_delim_def)
    ultimately have "lex_step (lex_run n) lx = Some (Ok (lex_word ?m))" by (simp add: lex_step_def)
    moreover have "rest (lex_word ?m) = [CHR 0xA0]"
      using Suc.prems by (simp add: lex_word_def Let_def char_class_defs)
    ultimately show ?case using Suc by simp
  qed simp
  then show ?thesis by (simp add: lex_str_def with_start_def)
qed

end
