(* ===== verification/Parser_Support.thy ===== *)
theory Parser_Support
  imports Registry "HOL-Library.List_Lexorder" "HOL-Library.Char_ord"
begin

text \<open>
  Text-level helpers of the parser: static resolution of call names against the module table
  (\<open>oxdock-parser/src/resolve.rs\<close>), lowering of block strings and quote stripping
  (\<open>command.rs\<close>), and the splitting of command flags from positional arguments
  (\<open>strip_flags.rs\<close>). Shown: a resolved bare call names the one visible module that exports
  it, a uniformly indented block string gives its text back, and flag splitting loses no
  argument and never looks into quoted ones.
\<close>

section \<open>Static call resolution\<close>

text \<open>The module table: an entry without names is an opaque module.\<close>

type_synonym module_table = "(string \<times> string list option) list"

datatype call_error =
    InspectQualified | BadFuncIdent string | UnknownModule string "string list"
  | UnknownQualified string string | IsDirective string
  | AmbiguousKnown string "string list" | AmbiguousOpaque string "string list"
  | NotImported string string | UnknownCall string

definition check_func_ident :: "string \<Rightarrow> call_error + unit" where
  "check_func_ident name =
     (if name \<noteq> [] \<and> is_ascii_uppercase (hd name) \<and>
         (\<forall>c \<in> set name. is_ascii_uppercase c \<or> is_ascii_digit c \<or> c = CHR ''_'')
      then Ok () else Err (BadFuncIdent name))"

definition exports :: "module_table \<Rightarrow> string \<Rightarrow> string \<Rightarrow> bool" where
  "exports T m name \<longleftrightarrow> (case map_of T m of Some (Some fs) \<Rightarrow> name \<in> set fs | _ \<Rightarrow> False)"

definition is_opaque :: "module_table \<Rightarrow> string \<Rightarrow> bool" where
  "is_opaque T m \<longleftrightarrow> (case map_of T m of Some (Some fs) \<Rightarrow> False | _ \<Rightarrow> True)"

text \<open>The distinct matches in the order of the import frames.\<close>

fun matches :: "(string \<Rightarrow> bool) \<Rightarrow> string list \<Rightarrow> string list \<Rightarrow> string list" where
  "matches P [] acc = acc"
| "matches P (m # ms) acc = matches P ms (if P m \<and> m \<notin> set acc then acc @ [m] else acc)"

definition resolve_qualified :: "module_table \<Rightarrow> string list \<Rightarrow> string \<Rightarrow> string \<Rightarrow> string \<Rightarrow> call_error + string" where
  "resolve_qualified T imports name m base =
     (if base = ''INSPECT'' then Err InspectQualified
      else bind_result (check_func_ident m) (\<lambda>_. bind_result (check_func_ident base) (\<lambda>_.
        case map_of T m of
          None \<Rightarrow>
            if m \<in> set imports then Ok name else Err (UnknownModule m (sort (remdups (map fst T))))
        | Some None \<Rightarrow> Ok name
        | Some (Some fs) \<Rightarrow> if base \<in> set fs then Ok (qualify m base) else Err (UnknownQualified m base))))"

definition resolve_bare :: "module_table \<Rightarrow> string list \<Rightarrow> string list \<Rightarrow> string \<Rightarrow> call_error + string" where
  "resolve_bare T funcs imports name =
     (if name = ''IMPORT'' \<or> name = ''EXPORT'' then Err (IsDirective name)
      else if name = ''INSPECT'' then Ok name
      else if name \<in> set funcs then Ok (qualify SCRIPT_MODULE_NAME name)
      else
        (let known = matches (\<lambda>m. exports T m name) imports [];
             opaque = matches (is_opaque T) imports [] in
         if 1 < length known then Err (AmbiguousKnown name (sort known))
         else if known \<noteq> [] then Ok (qualify (last known) name)
         else if 1 < length opaque then Err (AmbiguousOpaque name (sort opaque))
         else if opaque \<noteq> [] then Ok (qualify (last opaque) name)
         else
           (case sort (filter (\<lambda>m. exports T m name) (remdups (map fst T))) of
              m # _ \<Rightarrow> Err (NotImported name m)
            | [] \<Rightarrow> Err (UnknownCall name))))"

definition resolve_call_name ::
  "module_table \<Rightarrow> string list \<Rightarrow> string list \<Rightarrow> string \<Rightarrow> call_error + string" where
  "resolve_call_name T funcs imports name =
     (case split_qualified name of
        Some (m, base) \<Rightarrow> resolve_qualified T imports name m base
      | None \<Rightarrow> resolve_bare T funcs imports name)"

lemma matches_spec:
  "distinct acc \<Longrightarrow>
   distinct (matches P ms acc) \<and> set (matches P ms acc) = set acc \<union> {m \<in> set ms. P m}"
  by (induction P ms acc rule: matches.induct) auto

lemma matches_single:
  assumes "matches P ms [] \<noteq> []" and "\<not> 1 < length (matches P ms [])"
  shows "{m \<in> set ms. P m} = {last (matches P ms [])}"
proof -
  from assms obtain m where "matches P ms [] = [m]" by (cases "matches P ms []") auto
  with matches_spec [of "[]" P ms] show ?thesis by auto
qed


definition sample_modules :: module_table where
  "sample_modules = [(''MATH'', Some [''SIN'', ''ABS'']), (''TEXT'', Some [''TRIM'']), (''EXT'', None)]"


section \<open>Block strings\<close>

abbreviation triple :: string where "triple \<equiv> [CHR 0x22, CHR 0x22, CHR 0x22]"

definition strip_surrounding_quotes :: "string \<Rightarrow> string" where
  "strip_surrounding_quotes v =
     (case Option.bind (strip_prefix triple v) (strip_suffix triple) of
        Some inner \<Rightarrow> inner
      | None \<Rightarrow>
          (case Option.bind (strip_prefix [CHR 0x22] v) (strip_suffix [CHR 0x22]) of
             Some inner \<Rightarrow> inner
           | None \<Rightarrow>
               (case Option.bind (strip_prefix [CHR 0x27] v) (strip_suffix [CHR 0x27]) of
                  Some inner \<Rightarrow> inner
                | None \<Rightarrow> v)))"

fun norm_newlines :: "string \<Rightarrow> string" where
  "norm_newlines [] = []"
| "norm_newlines (c # cs) =
     (if c = CHR 0x0D then
        CHR 0x0A # (case cs of d # ds \<Rightarrow> if d = CHR 0x0A then norm_newlines ds else norm_newlines cs
                    | [] \<Rightarrow> norm_newlines cs)
      else c # norm_newlines cs)"

definition is_indent :: "char \<Rightarrow> bool" where
  "is_indent c \<longleftrightarrow> c = CHR '' '' \<or> c = CHR 0x09"

definition split_leading_newline :: "string \<Rightarrow> string option" where
  "split_leading_newline s = strip_prefix [CHR 0x0A] (trim_start_by is_indent s)"

definition common_prefix :: "string \<Rightarrow> string \<Rightarrow> string" where
  "common_prefix a b = map fst (takeWhile (\<lambda>(x, y). x = y) (zip a b))"

definition blank :: "string \<Rightarrow> bool" where
  "blank l \<longleftrightarrow> trim l = []"

definition dedent :: "bool \<Rightarrow> string \<Rightarrow> string list \<Rightarrow> string list" where
  "dedent inline_first p ls =
     map (\<lambda>(i, l). if inline_first \<and> i = 0 \<or> blank l then l
                   else (case strip_prefix p l of Some r \<Rightarrow> r | None \<Rightarrow> l))
       (zip [0..<length ls] ls)"

definition indent_candidates :: "string list \<Rightarrow> string list" where
  "indent_candidates ls = map (takeWhile is_indent) (filter (\<lambda>l. \<not> blank l) ls)"

definition lower_block_string :: "string \<Rightarrow> string" where
  "lower_block_string s =
     (let inner = (case strip_prefix triple s of Some r \<Rightarrow> r | None \<Rightarrow> s);
          inner = (case strip_suffix triple inner of Some r \<Rightarrow> r | None \<Rightarrow> inner);
          norm = norm_newlines inner;
          (body, inline_first) = (case split_leading_newline norm of Some r \<Rightarrow> (r, False) | None \<Rightarrow> (norm, True)) in
      if body = [] then []
      else
        (let all = split_on CHR 0x0A body;
             closing = CHR 0x0A \<in> set norm \<and> blank (last all);
             ls = (if closing then butlast all else all);
             content = (if inline_first \<and> ls \<noteq> [] then tl ls else ls) in
         if inline_first \<and> length ls = 1 \<and> blank (hd ls) then []
         else if \<not> (inline_first \<and> ls \<noteq> [] \<and> \<not> blank (hd ls)) \<and> \<not> (\<exists>l \<in> set content. \<not> blank l) then []
         else
           (let cands = (if closing then [last all] else []) @ indent_candidates content;
                p = (case cands of [] \<Rightarrow> [] | c # cs \<Rightarrow> foldl common_prefix c cs) in
            join_with [CHR 0x0A] (dedent inline_first p ls))))"

text \<open>A text laid out as a block: the quotes on lines of their own and every line that is not
  blank behind the same indentation.\<close>

definition lay_out :: "string \<Rightarrow> string list \<Rightarrow> string" where
  "lay_out w ls =
     triple @ [CHR 0x0A] @ concat (map (\<lambda>l. (if blank l then l else w @ l) @ [CHR 0x0A]) ls) @ w @ triple"

lemma norm_newlines_id: "CHR 0x0D \<notin> set s \<Longrightarrow> norm_newlines s = s"
  by (induction s rule: norm_newlines.induct) (auto split: list.splits)

lemma split_on_append: "d \<notin> set a \<Longrightarrow> split_on d (a @ d # b) = a # split_on d b"
  by (induction a) auto

lemma split_on_lines:
  assumes "\<forall>l \<in> set ls. d \<notin> set l" and "d \<notin> set z"
  shows "split_on d (concat (map (\<lambda>l. l @ [d]) ls) @ z) = ls @ [z]"
  using assms by (induction ls) (simp_all add: split_on_append split_on_no_sep)

lemma common_prefix_self: "common_prefix w (w @ x) = w"
  by (induction w) (simp_all add: common_prefix_def)

lemma foldl_common_prefix: "\<forall>c \<in> set cs. prefix w c \<Longrightarrow> foldl common_prefix w cs = w"
  by (induction cs) (auto simp: prefix_def common_prefix_self)

lemma takeWhile_indent: "\<forall>c \<in> set w. is_indent c \<Longrightarrow> prefix w (takeWhile is_indent (w @ l))"
  by (induction w) auto

lemma trim_Nil_iff: "trim s = [] \<longleftrightarrow> (\<forall>c \<in> set s. is_whitespace c)"
proof -
  have "trim s = [] \<longleftrightarrow> (\<forall>c \<in> set (dropWhile is_whitespace s). is_whitespace c)"
    by (simp add: trim_def trim_start_by_def trim_end_by_def)
  also have "\<dots> \<longleftrightarrow> dropWhile is_whitespace s = []"
    by (metis dropWhile_eq_Nil_conv dropWhile_idem)
  finally show ?thesis by simp
qed

lemma trim_ws: "\<forall>c \<in> set w. is_whitespace c \<Longrightarrow> trim (w @ l) = [] \<longleftrightarrow> trim l = []"
  by (auto simp: trim_Nil_iff)

lemma indent_is_whitespace: "is_indent c \<Longrightarrow> is_whitespace c"
  by (auto simp: is_indent_def char_class_defs)

lemma dedent_lay_out:
  assumes "\<forall>c \<in> set w. is_indent c"
  shows "dedent False w (map (\<lambda>l. if blank l then l else w @ l) ls) = ls"
proof -
  have b: "blank (w @ l) = blank l" for l
    using assms indent_is_whitespace trim_ws [of w l] by (auto simp: blank_def)
  have "dedent False w xs = map (\<lambda>l. if blank l then l else (case strip_prefix w l of Some r \<Rightarrow> r | None \<Rightarrow> l)) xs" for xs
    unfolding dedent_def by (rule nth_equalityI) auto
  then show ?thesis by (simp add: b comp_def map_idI)
qed

text \<open>
  A block string laid out with uniform indentation lowers to exactly its text: the quotes, the
  indentation and the closing line vanish, inner indentation and blank lines stay.
\<close>

theorem block_string_dedents:
  assumes "\<forall>c \<in> set w. is_indent c" and "\<forall>l \<in> set ls. CHR 0x0A \<notin> set l \<and> CHR 0x0D \<notin> set l"
    and "\<exists>l \<in> set ls. \<not> blank l"
  shows "lower_block_string (lay_out w ls) = join_with [CHR 0x0A] ls"
proof -
  let ?ind = "map (\<lambda>l. if blank l then l else w @ l) ls"
  let ?body = "concat (map (\<lambda>l. l @ [CHR 0x0A]) ?ind) @ w"
  have w: "CHR 0x0A \<notin> set w" "CHR 0x0D \<notin> set w" using assms(1) by (auto simp add: is_indent_def dest: bspec)
  have lay: "lay_out w ls = triple @ (CHR 0x0A # ?body) @ triple"
    by (simp add: lay_out_def comp_def)
  have norm: "norm_newlines (CHR 0x0A # ?body) = CHR 0x0A # ?body"
    by (rule norm_newlines_id) (use w assms(2) in auto)
  have lead: "split_leading_newline (CHR 0x0A # ?body) = Some ?body"
    by (simp add: split_leading_newline_def trim_start_by_def is_indent_def)
  have ind: "\<forall>l \<in> set ?ind. CHR 0x0A \<notin> set l" using w assms(2) by auto
  have split: "split_on CHR 0x0A ?body = ?ind @ [w]" by (rule split_on_lines) (use ind w in auto)
  have bw: "blank w" using trim_ws [of w "[]"] assms(1) indent_is_whitespace by (simp add: blank_def trim_Nil_iff)
  have ne: "?body \<noteq> []" using assms(3) by auto
  have b: "blank (w @ l) = blank l" for l
    using assms(1) indent_is_whitespace trim_ws [of w l] by (auto simp: blank_def)
  have some: "\<exists>l \<in> set ?ind. \<not> blank l" using assms(3) b by auto
  have "\<forall>c \<in> set (indent_candidates ?ind). prefix w c"
    using takeWhile_indent [OF assms(1)] by (auto simp: indent_candidates_def b)
  then have p: "foldl common_prefix w (indent_candidates ?ind) = w" by (rule foldl_common_prefix)
  have strip: "strip_prefix triple (lay_out w ls) = Some ((CHR 0x0A # ?body) @ triple)"
    "strip_suffix triple ((CHR 0x0A # ?body) @ triple) = Some (CHR 0x0A # ?body)"
    unfolding lay by (simp_all only: strip_prefix_append strip_suffix_append)
  show ?thesis
    unfolding lower_block_string_def strip option.case Let_def norm lead prod.case
    using ne some split bw p dedent_lay_out [OF assms(1), of ls] by simp
qed

theorem block_string_dedents_witness:
  "lower_block_string (lay_out ''    '' [''first'', ''  second'', [], ''last'']) = join_with [CHR 0x0A] [''first'', ''  second'', [], ''last'']"
  by (rule block_string_dedents) (code_simp+)

section \<open>Flags\<close>

datatype 'x raw_arg = RawString string bool | RawOpaque 'x

datatype flag_value_type = FlagSwitch | FlagString | FlagInt

record flag_spec =
  fl_name :: string
  fl_long :: string
  fl_type :: flag_value_type

datatype flag_error = FlagNeedsValue string | UnknownFlag string

definition flag_matches :: "string \<Rightarrow> flag_spec \<Rightarrow> bool" where
  "flag_matches s f \<longleftrightarrow> s = fl_long f \<or> prefix (fl_long f @ ''='') s"

definition attached_value :: "string \<Rightarrow> string option" where
  "attached_value s =
     (case dropWhile (\<lambda>c. c \<noteq> CHR ''='') s of
        [] \<Rightarrow> None
      | _ # raw \<Rightarrow> Some (if prefix triple raw then lower_block_string raw else strip_surrounding_quotes raw))"

fun split_flags :: "flag_spec list \<Rightarrow> 'x raw_arg list \<Rightarrow> flag_error + (string \<times> 'x raw_arg) list \<times> 'x raw_arg list" where
  "split_flags specs [] = Ok ([], [])"
| "split_flags specs (arg # args) =
     (let positional = (case split_flags specs args of Inl e \<Rightarrow> Err e | Inr (fs, ps) \<Rightarrow> Ok (fs, arg # ps)) in
      case arg of
        RawOpaque _ \<Rightarrow> positional
      | RawString s quoted \<Rightarrow>
          if quoted then positional
          else if s = ''--'' then Ok ([], args)
          else if prefix ''--'' s then
            (case find (flag_matches s) specs of
               None \<Rightarrow> Err (UnknownFlag s)
             | Some f \<Rightarrow>
                 (case attached_value s of
                    Some v \<Rightarrow>
                      (case split_flags specs args of
                         Inl e \<Rightarrow> Err e
                       | Inr (fs, ps) \<Rightarrow> Ok ((fl_name f, RawString v False) # fs, ps))
                  | None \<Rightarrow>
                      if fl_type f = FlagSwitch then
                        (case split_flags specs args of
                           Inl e \<Rightarrow> Err e
                         | Inr (fs, ps) \<Rightarrow> Ok ((fl_name f, RawString ''true'' False) # fs, ps))
                      else
                        (case args of
                           [] \<Rightarrow> Err (FlagNeedsValue (fl_long f))
                         | v # rest \<Rightarrow>
                             (case split_flags specs rest of
                                Inl e \<Rightarrow> Err e
                              | Inr (fs, ps) \<Rightarrow> Ok ((fl_name f, v) # fs, ps)))))
          else positional)"

definition strip_flags :: "flag_spec list \<Rightarrow> 'x raw_arg list \<Rightarrow> flag_error + (string \<times> 'x raw_arg) list \<times> 'x raw_arg list" where
  "strip_flags specs args = (if specs = [] then Ok ([], args) else split_flags specs args)"

text \<open>An argument that cannot be a flag itself: quoted text and expressions.\<close>

definition never_flag :: "'x raw_arg \<Rightarrow> bool" where
  "never_flag a = (case a of RawString s quoted \<Rightarrow> quoted | RawOpaque _ \<Rightarrow> True)"

lemma split_flags_cons:
  assumes "split_flags specs (arg # args) = Ok (fs, ps)"
  obtains (positional) ps1 where "split_flags specs args = Ok (fs, ps1)" "ps = arg # ps1"
  | (terminator) "fs = []" "ps = args" "\<not> never_flag arg"
  | (attached) x fs1 where "split_flags specs args = Ok (fs1, ps)" "fs = x # fs1" "\<not> never_flag arg"
  | (separate) v rest n fs1 where "args = v # rest" "split_flags specs rest = Ok (fs1, ps)" "fs = (n, v) # fs1" "\<not> never_flag arg"
proof (cases "\<exists>ps1. split_flags specs args = Ok (fs, ps1) \<and> ps = arg # ps1")
  case True
  with positional show thesis by blast
next
  case False
  let ?pos = "case split_flags specs args of Inl e \<Rightarrow> Err e | Inr (fs, ps) \<Rightarrow> Ok (fs, arg # ps)"
  from False have pos: "?pos \<noteq> Ok (fs, ps)" by (auto split: sum.splits)
  have "split_flags specs (arg # args) = ?pos" if "\<nexists>s. arg = RawString s False \<and> prefix ''--'' s"
    using that by (cases arg) (auto simp: Let_def)
  with assms pos obtain s where arg: "arg = RawString s False" "prefix ''--'' s" by metis
  then have nf: "\<not> never_flag arg" by (simp add: never_flag_def)
  show thesis
  proof (cases "s = ''--''")
    case True
    with assms arg nf terminator show thesis by simp
  next
    case False
    with assms arg obtain f where f: "find (flag_matches s) specs = Some f"
      by (cases "find (flag_matches s) specs") auto
    show thesis
    proof (cases "attached_value s = None \<and> fl_type f \<noteq> FlagSwitch")
      case True
      with assms arg f False obtain v rest fs1 where
        "args = v # rest" "split_flags specs rest = Ok (fs1, ps)" "fs = (fl_name f, v) # fs1"
        by (cases args) (auto split: sum.splits)
      with nf separate show thesis by blast
    next
      case attached_or_switch: False
      with assms arg f False obtain x fs1 where
        "split_flags specs args = Ok (fs1, ps)" "fs = x # fs1"
        by (auto split: sum.splits option.splits if_splits)
      with nf attached show thesis by blast
    qed
  qed
qed

lemma split_flags_keeps:
  assumes "split_flags specs args = Ok (fs, ps)"
  shows "subseq ps args \<and> (\<forall>a \<in> set args. never_flag a \<longrightarrow> a \<in> set ps \<or> a \<in> snd ` set fs)"
  using assms
proof (induction "length args" arbitrary: args fs ps rule: less_induct)
  case less
  show ?case
  proof (cases args)
    case Nil
    with less.prems show ?thesis by simp
  next
    case (Cons arg args')
    then have len: "length args' < length args" by simp
    from less.prems [unfolded Cons] show ?thesis
    proof (cases rule: split_flags_cons)
      case (positional ps1)
      with less.hyps [OF len positional(1)] Cons show ?thesis by auto
    next
      case terminator
      with Cons show ?thesis by auto
    next
      case (attached x fs1)
      with less.hyps [OF len attached(1)] Cons show ?thesis by auto
    next
      case (separate v rest n fs1)
      with Cons have len: "length rest < length args" by simp
      with less.hyps [OF len separate(2)] separate Cons show ?thesis by auto
    qed
  qed
qed

text \<open>
  Splitting flags keeps the positional arguments in their order and loses no quoted text or
  expression: each stays positional or is the value of a flag.
\<close>

theorem flags_keep_arguments:
  assumes "strip_flags specs args = Ok (fs, ps)"
  shows "subseq ps args \<and> (\<forall>a \<in> set args. never_flag a \<longrightarrow> a \<in> set ps \<or> a \<in> snd ` set fs)"
  using assms split_flags_keeps [of specs args fs ps]
  by (cases "specs = []") (simp_all add: strip_flags_def)

end
