(* ===== verification/Expr_Parser.thy ===== *)
theory Expr_Parser
  imports Parser_Support Math_Compile Lexer
begin

text \<open>
  The expression parser of \<open>oxdock-parser/src/parser.rs\<close> over the tokens of the lexer: gaps and
  comments, the precedence tiers, prefixes, atoms, calls, list and map literals, down to the
  lowered expression. A cursor is the list of tokens from its position on. Groups nest, so the
  parser of an atom takes the nesting depth as fuel; a loop of a tier takes the number of
  tokens left. Statements of a block are parsed by the statement parser, which is an argument
  here. Shown: every tier consumes a proper part of its input, the fuel computed from the
  tokens is enough and more changes nothing, and the parser inverts the printing of expression
  trees with the fewest parentheses, errors of lowering included.
\<close>

section \<open>Cursors and gaps\<close>

abbreviation at_kind :: "tok_kind \<Rightarrow> tok \<Rightarrow> bool" where "at_kind k t \<equiv> kind t = k"

definition is_newline :: "tok \<Rightarrow> bool" where
  "is_newline t \<longleftrightarrow> kind t = Newline"

definition to_newline :: "tok list \<Rightarrow> tok list" where
  "to_newline ts = dropWhile (\<lambda>t. \<not> is_newline t) ts"

definition joint_pair :: "char \<Rightarrow> char \<Rightarrow> tok \<Rightarrow> tok \<Rightarrow> bool" where
  "joint_pair c d a b \<longleftrightarrow> kind a = Punct c \<and> kind b = Punct d \<and> joint b"

fun is_comment_open :: "tok list \<Rightarrow> bool" where
  "is_comment_open (a # b # ts) \<longleftrightarrow> joint_pair CHR ''/'' CHR ''/'' a b \<or> joint_pair CHR ''/'' CHR ''*'' a b"
| "is_comment_open _ \<longleftrightarrow> False"

fun skip_block :: "nat \<Rightarrow> tok list \<Rightarrow> tok list option" where
  "skip_block d (a # b # ts) =
     (if joint_pair CHR ''/'' CHR ''*'' a b then skip_block (d + 1) ts
      else if joint_pair CHR ''*'' CHR ''/'' a b then (if d = 1 then Some ts else skip_block (d - 1) ts)
      else skip_block d (b # ts))"
| "skip_block d _ = None"

fun skip_inline_comment :: "tok list \<Rightarrow> tok list option" where
  "skip_inline_comment (a # b # ts) =
     (if kind b = Punct CHR ''/'' then Some (to_newline ts)
      else if kind b = Punct CHR ''*'' then skip_block 1 ts
      else None)"
| "skip_inline_comment _ = None"

lemma strict_suffix_iff: "strict_suffix r ts \<longleftrightarrow> suffix r ts \<and> length r < length ts"
  by (auto simp: strict_suffix_def suffix_def)

lemma suffix_Cons_le: "suffix r ts \<Longrightarrow> strict_suffix r (t # ts)"
  by (auto simp: strict_suffix_def suffix_def dest: arg_cong [of _ _ length])

lemma strict_suffix_weaken: "strict_suffix r ts \<Longrightarrow> suffix r ts"
  by (simp add: strict_suffix_def)

lemmas strict_trans = suffix_order.strict_trans1 suffix_order.strict_trans2

lemma to_newline_suffix: "suffix (to_newline ts) ts"
  by (simp add: to_newline_def suffix_dropWhile)

lemma skip_block_suffix: "skip_block d ts = Some r \<Longrightarrow> suffix r ts"
  by (induction d ts rule: skip_block.induct) (auto split: if_splits intro: suffix_ConsI)

lemma skip_inline_comment_suffix: "skip_inline_comment ts = Some r \<Longrightarrow> strict_suffix r ts"
  by (cases ts rule: skip_inline_comment.cases)
    (auto split: if_splits dest!: skip_block_suffix intro!: suffix_Cons_le intro: suffix_ConsI to_newline_suffix)

function skip_gap :: "tok list \<Rightarrow> tok list" where
  "skip_gap [] = []"
| "skip_gap (t # ts) =
     (case kind t of
        Comment _ \<Rightarrow> skip_gap ts
      | Punct c \<Rightarrow>
          if c = CHR ''/'' \<and> is_comment_open (t # ts) then
            (case skip_inline_comment (t # ts) of Some r \<Rightarrow> skip_gap r | None \<Rightarrow> t # ts)
          else if c = CHR ''#'' then skip_gap (to_newline ts)
          else t # ts
      | _ \<Rightarrow> t # ts)"
  by pat_completeness auto
termination
  by (relation "measure length")
    (auto dest!: skip_inline_comment_suffix suffix_length_less
      simp: less_Suc_eq_le to_newline_def length_dropWhile_le)

lemma skip_gap_suffix: "suffix (skip_gap ts) ts"
proof (induction ts rule: skip_gap.induct)
  case (2 t ts)
  have "suffix (skip_gap r) (t # ts)" if "skip_inline_comment (t # ts) = Some r" "suffix (skip_gap r) r" for r
    using that skip_inline_comment_suffix strict_suffix_weaken suffix_order.trans by blast
  with 2 show ?case
    by (auto split: tok_kind.splits option.splits if_splits
        intro: suffix_ConsI suffix_order.trans [OF _ to_newline_suffix])
qed simp

lemma skip_gap_shorter: "length (skip_gap ts) \<noteq> length ts \<Longrightarrow> length (skip_gap ts) < length ts"
  using suffix_length_le [OF skip_gap_suffix [of ts]] by simp

function skip_gap_nl :: "tok list \<Rightarrow> tok list" where
  "skip_gap_nl ts =
     (case ts of
        [] \<Rightarrow> []
      | t # r \<Rightarrow>
          if is_newline t then skip_gap_nl r
          else if length (skip_gap ts) = length ts then ts
          else skip_gap_nl (skip_gap ts))"
  by pat_completeness auto
termination
  by (relation "measure length") (auto simp del: skip_gap.simps intro: skip_gap_shorter [of "_ # _", simplified])

declare skip_gap_nl.simps [simp del]

lemma skip_gap_nl_suffix: "suffix (skip_gap_nl ts) ts"
proof (induction ts rule: skip_gap_nl.induct)
  case (1 ts)
  then show ?case
    by (subst skip_gap_nl.simps)
      (auto split: list.splits intro: suffix_ConsI suffix_order.trans [OF _ skip_gap_suffix])
qed

fun eat_punct :: "char \<Rightarrow> tok list \<Rightarrow> bool \<times> tok list" where
  "eat_punct c (t # ts) = (if kind t = Punct c then (True, ts) else (False, t # ts))"
| "eat_punct c [] = (False, [])"

definition eat_op :: "char \<Rightarrow> char option \<Rightarrow> tok list \<Rightarrow> bool \<times> tok list" where
  "eat_op first second ts =
     (case skip_gap ts of
        [] \<Rightarrow> (False, [])
      | a # r \<Rightarrow>
          if kind a \<noteq> Punct first then (False, a # r)
          else
            (case second of
               None \<Rightarrow> (True, r)
             | Some c2 \<Rightarrow>
                 (case r of
                    b # r' \<Rightarrow> if joint b \<and> kind b = Punct c2 then (True, r') else (False, a # r)
                  | [] \<Rightarrow> (False, a # r))))"

fun split_top_commas :: "tok list \<Rightarrow> tok list list" where
  "split_top_commas [] = [[]]"
| "split_top_commas (t # ts) =
     (if kind t = Punct CHR '','' then [] # split_top_commas ts
      else (case split_top_commas ts of p # ps \<Rightarrow> (t # p) # ps | [] \<Rightarrow> [[t]]))"

section \<open>Errors and context\<close>

datatype parse_error =
    Message string | Lowering lower_error | Resolution call_error | BodyError string | ParseFuel

text \<open>
  What an expression reads of the parse context: the module table, the functions and imports
  visible at this point, and the statement parser for block bodies, which opens and closes a
  frame of its own.
\<close>

record parse_ctx =
  pc_modules :: module_table
  pc_funcs :: "string list list"
  pc_imports :: "string list list"
  pc_floats :: float_ops
  pc_body :: "tok list \<Rightarrow> string + step list"

definition visible_snapshot :: "parse_ctx \<Rightarrow> string list \<times> string list" where
  "visible_snapshot C = (concat (pc_funcs C), foldl (\<lambda>acc m. if m \<in> set acc then acc else acc @ [m]) [] (concat (pc_imports C)))"

fun lift_error :: "('e \<Rightarrow> parse_error) \<Rightarrow> 'e + 'a \<Rightarrow> parse_error + 'a" where
  "lift_error f (Inl e) = Err (f e)"
| "lift_error f (Inr a) = Ok a"

definition resolve_name :: "parse_ctx \<Rightarrow> string \<Rightarrow> parse_error + string" where
  "resolve_name C name =
     (case visible_snapshot C of (funcs, imports) \<Rightarrow>
        lift_error Resolution (resolve_call_name (pc_modules C) funcs imports name))"

abbreviation missing :: "parse_error + 'a" where
  "missing \<equiv> Err (Message ''missing expression operand'')"

section \<open>Words and numbers\<close>

text \<open>The joint run of words and of the punctuation a bare word admits.\<close>

fun bare_tail :: "tok list \<Rightarrow> string \<times> tok list" where
  "bare_tail [] = ([], [])"
| "bare_tail (t # ts) =
     (if \<not> joint t then ([], t # ts)
      else
        (case kind t of
           Word w \<Rightarrow> (case bare_tail ts of (s, r) \<Rightarrow> (w @ s, r))
         | Punct c \<Rightarrow>
             if c = CHR ''-'' \<or> c = CHR ''.'' \<or> c = CHR ''/'' then (case bare_tail ts of (s, r) \<Rightarrow> (c # s, r))
             else ([], t # ts)
         | _ \<Rightarrow> ([], t # ts)))"

definition bare_head :: "tok list \<Rightarrow> parse_error + string \<times> tok list" where
  "bare_head ts =
     (case ts of
        [] \<Rightarrow> missing
      | t # r \<Rightarrow>
          (case kind t of
             Word w \<Rightarrow> Ok (w, r)
           | Punct c \<Rightarrow> if c = CHR ''/'' then Ok (''/'', r) else missing
           | _ \<Rightarrow> missing))"

definition expr_bare_run :: "bool \<Rightarrow> tok list \<Rightarrow> parse_error + string \<times> tok list" where
  "expr_bare_run leading_dash ts =
     bind_result
       (if leading_dash then
          (case ts of t # r \<Rightarrow> if kind t = Punct CHR ''-'' then Ok (''-'', r) else missing | [] \<Rightarrow> missing)
        else Ok ([], ts))
       (\<lambda>(dash, ts1). bind_result (bare_head ts1) (\<lambda>(w, ts2).
          case bare_tail ts2 of (tail, r) \<Rightarrow>
            (let out = dash @ w @ tail in
             if backslash \<in> set out then Err (Message ''unexpected escape in expression'') else Ok (out, r))))"

definition parse_bare_atom :: "bool \<Rightarrow> tok list \<Rightarrow> parse_error + expr \<times> tok list" where
  "parse_bare_atom leading_dash ts =
     bind_result (expr_bare_run leading_dash ts) (\<lambda>(w, r).
       Ok (if w = ''true'' then ELiteral (VBool True)
           else if w = ''false'' then ELiteral (VBool False)
           else ELiteral (VStr w), r))"

text \<open>The dotted tails of a number, with the tokens after them.\<close>

fun number_tails :: "tok list \<Rightarrow> string \<times> tok list" where
  "number_tails (a # b # ts) =
     (case kind b of
        Word w \<Rightarrow>
          if kind a = Punct CHR ''.'' \<and> joint a \<and> list_all (\<lambda>c. is_ascii_digit c \<or> c = CHR ''_'') w \<and> joint b
          then (case number_tails ts of (s, r) \<Rightarrow> (CHR ''.'' # w @ s, r))
          else ([], a # b # ts)
      | _ \<Rightarrow> ([], a # b # ts))"
| "number_tails ts = ([], ts)"

definition number_head :: "tok list \<Rightarrow> (string \<times> tok list) option" where
  "number_head ts =
     (case ts of
        [] \<Rightarrow> None
      | t # r \<Rightarrow>
          (case kind t of
             Word w \<Rightarrow>
               if w \<noteq> [] \<and> is_ascii_digit (hd w) then (case number_tails r of (s, r') \<Rightarrow> Some (w @ s, r')) else None
           | _ \<Rightarrow> None))"

definition run_ok :: "string \<Rightarrow> bool" where
  "run_ok s \<longleftrightarrow> s \<noteq> [] \<and> list_all (\<lambda>c. is_ascii_digit c \<or> c = CHR ''_'') s \<and>
     hd s \<noteq> CHR ''_'' \<and> last s \<noteq> CHR ''_'' \<and> \<not> sublist ''__'' s"

definition numeric_shape_ok :: "string \<Rightarrow> bool" where
  "numeric_shape_ok s =
     (case split_on CHR ''.'' s of
        [i] \<Rightarrow> run_ok i
      | [i, f] \<Rightarrow> run_ok i \<and> run_ok f
      | _ \<Rightarrow> False)"

definition number_falls_to_bare :: "tok list \<Rightarrow> bool" where
  "number_falls_to_bare r =
     (case r of
        [] \<Rightarrow> False
      | t # _ \<Rightarrow> joint t \<and> (case kind t of Word _ \<Rightarrow> True | Punct c \<Rightarrow> c = CHR ''.'' \<or> c = CHR ''/'' | _ \<Rightarrow> False))"

definition parse_numeric_atom :: "float_ops \<Rightarrow> tok list \<Rightarrow> parse_error + expr \<times> tok list" where
  "parse_numeric_atom F ts =
     (case number_head ts of
        None \<Rightarrow> missing
      | Some (s, r) \<Rightarrow>
          if \<not> numeric_shape_ok s \<or> number_falls_to_bare r then parse_bare_atom False ts
          else bind_result (lift_error Lowering (classify_numeric_text F s)) (\<lambda>e. Ok (e, r)))"

section \<open>Names\<close>

definition is_ident_word :: "string \<Rightarrow> bool" where
  "is_ident_word w \<longleftrightarrow> w \<noteq> [] \<and> list_all (\<lambda>c. is_ascii_alphanumeric c \<or> c = CHR ''_'') w"

definition is_key_segment :: "string \<Rightarrow> bool" where
  "is_key_segment w \<longleftrightarrow> w \<noteq> [] \<and>
     (list_all is_ascii_digit w \<or>
      (is_ascii_alphabetic (hd w) \<or> hd w = CHR ''_'') \<and> list_all (\<lambda>c. is_ascii_alphanumeric c \<or> c = CHR ''_'') w)"

definition is_upper_name :: "string \<Rightarrow> bool" where
  "is_upper_name w \<longleftrightarrow> w \<noteq> [] \<and> is_ascii_uppercase (hd w) \<and>
     list_all (\<lambda>c. is_ascii_uppercase c \<or> is_ascii_digit c \<or> c = CHR ''_'') w"

fun call_segments :: "tok list \<Rightarrow> string \<times> tok list" where
  "call_segments (a # b # c # ts) =
     (case kind c of
        Word seg \<Rightarrow>
          if kind a = Punct CHR '':'' \<and> joint a \<and> kind b = Punct CHR '':'' \<and> joint b \<and> joint c
          then (case call_segments ts of (s, r) \<Rightarrow> (''::'' @ seg @ s, r))
          else ([], a # b # c # ts)
      | _ \<Rightarrow> ([], a # b # c # ts))"
| "call_segments ts = ([], ts)"

text \<open>The name of a call, the tokens of its argument group and what follows.\<close>

definition call_shape_at :: "bool \<Rightarrow> tok list \<Rightarrow> (string \<times> tok list \<times> tok list) option" where
  "call_shape_at joint_paren ts =
     (case ts of
        [] \<Rightarrow> None
      | t # r \<Rightarrow>
          (case kind t of
             Word w \<Rightarrow>
               if is_upper_name w then
                 (case call_segments r of (segs, r') \<Rightarrow>
                    (case r' of
                       [] \<Rightarrow> None
                     | g # r'' \<Rightarrow>
                         (case kind g of
                            Group Paren inner _ _ \<Rightarrow>
                              if joint_paren \<and> \<not> joint g then None else Some (w @ segs, inner, r'')
                          | _ \<Rightarrow> None)))
               else None
           | _ \<Rightarrow> None))"

fun key_path :: "tok list \<Rightarrow> string list \<times> tok list" where
  "key_path (a # b # ts) =
     (case kind b of
        Word w \<Rightarrow>
          if kind a = Punct CHR ''.'' \<and> joint a \<and> is_key_segment w \<and> joint b
          then (case key_path ts of (ks, r) \<Rightarrow> (w # ks, r))
          else ([], a # b # ts)
      | _ \<Rightarrow> ([], a # b # ts))"
| "key_path ts = ([], ts)"

definition parse_variable :: "tok list \<Rightarrow> parse_error + expr \<times> tok list" where
  "parse_variable ts =
     (case ts of
        t # r \<Rightarrow>
          (case kind t of
             Word w \<Rightarrow>
               if joint t \<and> is_ident_word w then
                 (case key_path r of (ks, r') \<Rightarrow> Ok (if ks = [] then EVar w else EKeyPath w ks, r'))
               else Err (Message ''`$` requires a variable name'')
           | _ \<Rightarrow> Err (Message ''`$` requires a variable name''))
      | [] \<Rightarrow> Err (Message ''`$` requires a variable name''))"

definition env_read :: "tok list \<Rightarrow> (expr \<times> tok list) option" where
  "env_read ts =
     (case ts of
        a # b # r \<Rightarrow>
          (case kind b of
             Word k \<Rightarrow> if kind a = Punct CHR '':'' \<and> joint a \<and> is_upper_name k \<and> joint b then Some (EEnv k, r) else None
           | _ \<Rightarrow> None)
      | _ \<Rightarrow> None)"

section \<open>Tiers\<close>

type_synonym parser = "tok list \<Rightarrow> parse_error + expr \<times> tok list"

text \<open>A left-associative tier: operands of the next tier joined by the operators of this one.\<close>

fun chain :: "nat \<Rightarrow> (tok list \<Rightarrow> 'op option \<times> tok list) \<Rightarrow> parser \<Rightarrow>
    ('op \<Rightarrow> expr \<Rightarrow> expr \<Rightarrow> parse_error + expr) \<Rightarrow> expr \<Rightarrow> parser" where
  "chain 0 eat operand build left ts = Err ParseFuel"
| "chain (Suc n) eat operand build left ts =
     (case eat ts of
        (None, r) \<Rightarrow> Ok (left, r)
      | (Some op, r) \<Rightarrow>
          bind_result (operand (skip_gap r)) (\<lambda>(right, r').
            bind_result (build op left right) (\<lambda>e. chain n eat operand build e r')))"

definition chain_tier :: "(tok list \<Rightarrow> 'op option \<times> tok list) \<Rightarrow> parser \<Rightarrow>
    ('op \<Rightarrow> expr \<Rightarrow> expr \<Rightarrow> parse_error + expr) \<Rightarrow> parser" where
  "chain_tier eat operand build ts =
     bind_result (operand ts) (\<lambda>(left, r). chain (Suc (length r)) eat operand build left r)"

text \<open>The first operator of a list that is next in the input.\<close>

fun eat_first :: "(char \<times> char option \<times> 'op) list \<Rightarrow> tok list \<Rightarrow> 'op option \<times> tok list" where
  "eat_first [] ts = (None, ts)"
| "eat_first ((c, d, op) # ops) ts = (case eat_op c d ts of (True, r) \<Rightarrow> (Some op, r) | (False, r) \<Rightarrow> eat_first ops r)"

definition checked :: "expr \<Rightarrow> parse_error + unit" where
  "checked e = lift_error Lowering (reject_boundary e)"

definition dash_is_bare :: "tok list \<Rightarrow> bool" where
  "dash_is_bare r =
     (case r of
        [] \<Rightarrow> False
      | t # _ \<Rightarrow> joint t \<and>
          (case kind t of
             Word w \<Rightarrow> w \<noteq> [] \<and> (is_ascii_alphabetic (hd w) \<or> hd w = CHR ''_'')
           | Punct c \<Rightarrow> c = CHR ''/''
           | _ \<Rightarrow> False))"

function prefixes_at :: "tok list \<Rightarrow> bool list \<times> tok list" where
  "prefixes_at [] = ([], [])"
| "prefixes_at (t # ts) =
     (if kind t = Punct CHR ''!'' then (case prefixes_at (skip_gap ts) of (ps, r) \<Rightarrow> (False # ps, r))
      else if kind t = Punct CHR ''-'' \<and> \<not> dash_is_bare ts then
        (case prefixes_at (skip_gap ts) of (ps, r) \<Rightarrow> (True # ps, r))
      else ([], t # ts))"
  by pat_completeness auto
termination
  by (relation "measure length") (auto simp: less_Suc_eq_le suffix_length_le skip_gap_suffix)

fun apply_prefixes :: "bool list \<Rightarrow> expr \<Rightarrow> parse_error + expr" where
  "apply_prefixes [] e = Ok e"
| "apply_prefixes (is_neg # ps) e =
     bind_result (apply_prefixes ps e) (\<lambda>e'.
       if is_neg then lift_error Lowering (apply_unary_neg e')
       else bind_result (checked e') (\<lambda>_. Ok (ENot e')))"

definition parse_expr_unary :: "parser \<Rightarrow> parser" where
  "parse_expr_unary atom ts =
     (case prefixes_at ts of (ps, r) \<Rightarrow>
        bind_result (atom r) (\<lambda>(e, r'). bind_result (apply_prefixes ps e) (\<lambda>e'. Ok (e', r'))))"

definition lower_arith :: "float_ops \<Rightarrow> arith_op \<Rightarrow> expr \<Rightarrow> expr \<Rightarrow> parse_error + expr" where
  "lower_arith F op l r = lift_error Lowering (make_arith F op l r)"

definition lower_compare :: "float_ops \<Rightarrow> compare_op \<Rightarrow> expr \<Rightarrow> expr \<Rightarrow> parse_error + expr" where
  "lower_compare F op l r = lift_error Lowering (make_compare F op l r)"

definition parse_expr_mul :: "float_ops \<Rightarrow> parser \<Rightarrow> parser" where
  "parse_expr_mul F atom =
     chain_tier (eat_first [(CHR ''*'', None, AMul), (CHR ''/'', None, ADiv)]) (parse_expr_unary atom) (lower_arith F)"

definition parse_expr_add :: "float_ops \<Rightarrow> parser \<Rightarrow> parser" where
  "parse_expr_add F atom =
     chain_tier (eat_first [(CHR ''+'', None, AAdd), (CHR ''-'', None, ASub)]) (parse_expr_mul F atom) (lower_arith F)"

definition reject_chained_compare :: "bool \<Rightarrow> tok list \<Rightarrow> parse_error + unit" where
  "reject_chained_compare ordering_only ts =
     (let chained =
        (case skip_gap ts of
           [] \<Rightarrow> False
         | t # _ \<Rightarrow>
             (case kind t of
                Punct c \<Rightarrow>
                  if c = CHR ''<'' \<or> c = CHR ''>'' then True
                  else if c = CHR ''='' \<or> c = CHR ''!'' then \<not> ordering_only
                  else False
              | _ \<Rightarrow> False)) in
      if chained then Err (Message ''chained comparison operators need explicit parentheses'') else Ok ())"

text \<open>A comparison tier: at most one operator, and none of its kind may follow.\<close>

definition compare_tier :: "(char \<times> char option \<times> compare_op) list \<Rightarrow> bool \<Rightarrow> float_ops \<Rightarrow> parser \<Rightarrow> parser" where
  "compare_tier ops ordering_only F operand ts =
     bind_result (operand ts) (\<lambda>(left, r).
       case eat_first ops r of
         (None, r') \<Rightarrow> Ok (left, r')
       | (Some op, r') \<Rightarrow>
           bind_result (operand (skip_gap r')) (\<lambda>(right, r'').
             bind_result (lower_compare F op left right) (\<lambda>e.
               bind_result (reject_chained_compare ordering_only r'') (\<lambda>_. Ok (e, r'')))))"

definition parse_expr_ord :: "float_ops \<Rightarrow> parser \<Rightarrow> parser" where
  "parse_expr_ord F atom =
     compare_tier
       [(CHR ''<'', Some CHR ''='', CLe), (CHR ''>'', Some CHR ''='', CGe), (CHR ''<'', None, CLt), (CHR ''>'', None, CGt)]
       True F (parse_expr_add F atom)"

definition parse_expr_cmp :: "float_ops \<Rightarrow> parser \<Rightarrow> parser" where
  "parse_expr_cmp F atom =
     compare_tier [(CHR ''='', Some CHR ''='', CEq), (CHR ''!'', Some CHR ''='', CNe)] False F (parse_expr_ord F atom)"

definition lower_and :: "expr \<Rightarrow> expr \<Rightarrow> parse_error + expr" where
  "lower_and l r = bind_result (checked l) (\<lambda>_. bind_result (checked r) (\<lambda>_. Ok (ELogical LAnd l r)))"

definition parse_expr_and :: "float_ops \<Rightarrow> parser \<Rightarrow> parser" where
  "parse_expr_and F atom =
     chain_tier (eat_first [(CHR ''&'', Some CHR ''&'', ())]) (parse_expr_cmp F atom) (\<lambda>_. lower_and)"

definition parse_expr_or :: "float_ops \<Rightarrow> parser \<Rightarrow> parser" where
  "parse_expr_or F atom =
     chain_tier (eat_first [(CHR ''|'', Some CHR ''|'', ())]) (parse_expr_and F atom) (\<lambda>_ l r. Ok (ELogical LOr l r))"

section \<open>Literals, calls and atoms\<close>

fun is_boundary :: "expr \<Rightarrow> bool" where
  "is_boundary (EUnsignedIntBoundary n) \<longleftrightarrow> True"
| "is_boundary _ \<longleftrightarrow> False"

definition parse_expr_checked :: "parser \<Rightarrow> parser" where
  "parse_expr_checked or_tier ts =
     bind_result (or_tier ts) (\<lambda>(e, r).
       if is_boundary e then Err (Message ''integer overflow: 9223372036854775808 exceeds i64::MAX'')
       else Ok (e, r))"

text \<open>Items separated by commas, each free of a stray boundary.\<close>

fun comma_items :: "nat \<Rightarrow> parser \<Rightarrow> tok list \<Rightarrow> parse_error + expr list \<times> tok list" where
  "comma_items 0 item ts = Err ParseFuel"
| "comma_items (Suc n) item ts =
     bind_result (item ts) (\<lambda>(e, r).
       bind_result (checked e) (\<lambda>_.
         case eat_punct CHR '','' (skip_gap_nl r) of
           (True, r') \<Rightarrow> bind_result (comma_items n item (skip_gap_nl r')) (\<lambda>(es, r''). Ok (e # es, r''))
         | (False, r') \<Rightarrow> Ok ([e], r')))"

definition group_items :: "string \<Rightarrow> parser \<Rightarrow> tok list \<Rightarrow> parse_error + expr list" where
  "group_items msg item inner =
     (case skip_gap_nl inner of
        [] \<Rightarrow> Ok []
      | t # r \<Rightarrow>
          bind_result (comma_items (Suc (length (t # r))) item (t # r)) (\<lambda>(es, r').
            if r' = [] then Ok es else Err (Message msg)))"

definition parse_call_args :: "parser \<Rightarrow> tok list \<Rightarrow> parse_error + expr list" where
  "parse_call_args or_tier = group_items ''unexpected text in call'' or_tier"

definition parse_list_literal :: "parser \<Rightarrow> tok list \<Rightarrow> parse_error + expr" where
  "parse_list_literal or_tier inner =
     bind_result (group_items ''unexpected text in list'' (parse_expr_checked or_tier) inner) (\<lambda>es. Ok (EList es))"

fun inspect_call :: "expr list \<Rightarrow> parse_error + expr" where
  "inspect_call [EVar v] = Ok (EInspect v)"
| "inspect_call [_] = Err (Message ''INSPECT requires a $variable argument'')"
| "inspect_call _ = Err (Message ''INSPECT requires exactly one argument: INSPECT($var)'')"

definition parse_expr_call :: "parse_ctx \<Rightarrow> parser \<Rightarrow> string \<Rightarrow> tok list \<Rightarrow> parse_error + expr" where
  "parse_expr_call C or_tier name inner =
     bind_result (parse_call_args or_tier inner) (\<lambda>args.
       if name = ''INSPECT'' then inspect_call args
       else bind_result (resolve_name C name) (\<lambda>q. Ok (ECall q args)))"

abbreviation not_a_map :: "parse_error + 'a" where
  "not_a_map \<equiv> Err (Message ''not a map literal'')"

definition take_punct :: "char \<Rightarrow> tok list \<Rightarrow> string \<times> tok list" where
  "take_punct c ts = (case eat_punct c ts of (True, r) \<Rightarrow> ([c], r) | (False, r) \<Rightarrow> ([], r))"

definition map_key_head :: "string \<Rightarrow> tok list \<Rightarrow> parse_error + string \<times> tok list" where
  "map_key_head out ts =
     (case ts of
        t # r \<Rightarrow> (case kind t of Word w \<Rightarrow> Ok (out @ w, r) | _ \<Rightarrow> if out \<noteq> [] then Ok (out, ts) else not_a_map)
      | [] \<Rightarrow> if out \<noteq> [] then Ok (out, ts) else not_a_map)"

definition map_bare_key :: "tok list \<Rightarrow> parse_error + string \<times> tok list" where
  "map_bare_key ts =
     (case take_punct CHR ''-'' ts of (dash, ts1) \<Rightarrow>
      case take_punct CHR ''/'' ts1 of (slash, ts2) \<Rightarrow>
      bind_result (map_key_head (dash @ slash) ts2) (\<lambda>(out, r). case bare_tail r of (tail, r') \<Rightarrow>
        if backslash \<in> set (out @ tail) then Err (Message ''unexpected escape in map key'') else Ok (out @ tail, r')))"

definition map_key :: "tok list \<Rightarrow> parse_error + string \<times> tok list" where
  "map_key ts =
     (case ts of
        [] \<Rightarrow> not_a_map
      | t # r \<Rightarrow>
          (case kind t of
             Str s _ \<Rightarrow> Ok (s, r)
           | BlockStr full \<Rightarrow> Ok (lower_block_string full, r)
           | Word _ \<Rightarrow> map_bare_key ts
           | Punct c \<Rightarrow> if c = CHR ''-'' \<or> c = CHR ''/'' then map_bare_key ts else not_a_map
           | _ \<Rightarrow> not_a_map))"

definition map_entry :: "parser \<Rightarrow> tok list \<Rightarrow> parse_error + string \<times> expr" where
  "map_entry or_tier part =
     bind_result (map_key (skip_gap_nl part)) (\<lambda>(key, r).
       case eat_punct CHR '':'' (skip_gap r) of
         (False, _) \<Rightarrow> not_a_map
       | (True, r') \<Rightarrow>
           bind_result (parse_expr_checked or_tier r') (\<lambda>(v, r'').
             bind_result (checked v) (\<lambda>_.
               if skip_gap_nl r'' = [] then Ok (key, v) else not_a_map)))"

fun is_blank_tok :: "tok \<Rightarrow> bool" where
  "is_blank_tok t = (case kind t of Newline \<Rightarrow> True | Comment _ \<Rightarrow> True | _ \<Rightarrow> False)"

definition parse_map_literal :: "parser \<Rightarrow> tok list \<Rightarrow> parse_error + expr" where
  "parse_map_literal or_tier inner =
     (if list_all is_blank_tok inner then Ok (EMap [])
      else bind_result (map_result (map_entry or_tier) (split_top_commas inner)) (\<lambda>es. Ok (EMap es)))"

definition parse_map_or_block :: "parse_ctx \<Rightarrow> parser \<Rightarrow> tok list \<Rightarrow> parse_error + expr" where
  "parse_map_or_block C or_tier inner =
     (case parse_map_literal or_tier inner of
        Inr m \<Rightarrow> Ok m
      | Inl ParseFuel \<Rightarrow> Err ParseFuel
      | Inl _ \<Rightarrow> bind_result (lift_error BodyError (pc_body C inner)) (\<lambda>steps. Ok (EBlock steps)))"

definition parse_parens :: "parser \<Rightarrow> tok list \<Rightarrow> parse_error + expr" where
  "parse_parens or_tier inner =
     bind_result (or_tier (skip_gap_nl inner)) (\<lambda>(e, r).
       if skip_gap_nl r = [] then Ok e else Err (Message ''unexpected text in parentheses''))"

definition with_rest :: "tok list \<Rightarrow> parse_error + expr \<Rightarrow> parse_error + expr \<times> tok list" where
  "with_rest r x = bind_result x (\<lambda>e. Ok (e, r))"

definition parse_group :: "parse_ctx \<Rightarrow> parser \<Rightarrow> group_delim \<Rightarrow> tok list \<Rightarrow> parse_error + expr" where
  "parse_group C or_tier d inner =
     (case d of
        Paren \<Rightarrow> parse_parens or_tier inner
      | Bracket \<Rightarrow> parse_list_literal or_tier inner
      | Brace \<Rightarrow> parse_map_or_block C or_tier inner)"

definition parse_word_atom :: "parse_ctx \<Rightarrow> parser \<Rightarrow> string \<Rightarrow> tok list \<Rightarrow> tok list \<Rightarrow> parse_error + expr \<times> tok list" where
  "parse_word_atom C or_tier w r ts =
     (case call_shape_at False ts of
        Some (name, inner, r') \<Rightarrow> with_rest r' (parse_expr_call C or_tier name inner)
      | None \<Rightarrow>
          if w = ''env'' then (case env_read r of Some p \<Rightarrow> Ok p | None \<Rightarrow> parse_bare_atom False ts)
          else if w \<noteq> [] \<and> is_ascii_digit (hd w) then parse_numeric_atom (pc_floats C) ts
          else parse_bare_atom False ts)"

definition atom_of :: "parse_ctx \<Rightarrow> parser \<Rightarrow> parser" where
  "atom_of C or_tier ts =
     (case ts of
        [] \<Rightarrow> missing
      | t # r \<Rightarrow>
          (case kind t of
             Group d inner _ _ \<Rightarrow> with_rest r (parse_group C or_tier d inner)
           | Word w \<Rightarrow> parse_word_atom C or_tier w r ts
           | Str s _ \<Rightarrow> Ok (ELiteral (VStr s), r)
           | BlockStr full \<Rightarrow> Ok (ELiteral (VStr (lower_block_string full)), r)
           | Punct c \<Rightarrow>
               if c = CHR ''$'' then parse_variable r
               else if c = CHR ''-'' then parse_bare_atom True ts
               else if c = CHR ''/'' then parse_bare_atom False ts
               else missing
           | _ \<Rightarrow> missing))"

text \<open>The parser of atoms, with the nesting of groups as fuel.\<close>

fun parse_expr_atom :: "parse_ctx \<Rightarrow> nat \<Rightarrow> parser" where
  "parse_expr_atom C 0 ts = Err ParseFuel"
| "parse_expr_atom C (Suc n) ts = atom_of C (parse_expr_or (pc_floats C) (parse_expr_atom C n)) ts"

fun tok_depth :: "tok \<Rightarrow> nat" where
  "tok_depth (Tok (Group d inner a b) j l c) = Suc (foldr (max \<circ> tok_depth) inner 0)"
| "tok_depth _ = 0"

definition toks_depth :: "tok list \<Rightarrow> nat" where
  "toks_depth ts = foldr (max \<circ> tok_depth) ts 0"

definition parse_expr_from :: "parse_ctx \<Rightarrow> nat \<Rightarrow> parser" where
  "parse_expr_from C n = parse_expr_or (pc_floats C) (parse_expr_atom C n)"

definition parse_single_expr_at :: "parse_ctx \<Rightarrow> nat \<Rightarrow> tok list \<Rightarrow> parse_error + expr" where
  "parse_single_expr_at C n ts =
     bind_result (parse_expr_checked (parse_expr_from C n) ts) (\<lambda>(e, r).
       if r = [] then Ok e else Err (Message ''unexpected text in expression''))"

definition parse_single_expr :: "parse_ctx \<Rightarrow> tok list \<Rightarrow> parse_error + expr" where
  "parse_single_expr C ts = parse_single_expr_at C (Suc (toks_depth ts)) ts"

section \<open>Every tier consumes a part of its input\<close>

lemma eat_op_suffix: "eat_op c d ts = (b, r) \<Longrightarrow> suffix r ts \<and> (b \<longrightarrow> strict_suffix r ts)"
  using skip_gap_suffix [of ts]
  by (auto simp: eat_op_def strict_suffix_iff split: list.splits option.splits if_splits
      dest: suffix_ConsD suffix_length_le)

lemma eat_first_suffix: "eat_first ops ts = (x, r) \<Longrightarrow> suffix r ts \<and> (x \<noteq> None \<longrightarrow> strict_suffix r ts)"
proof (induction ops arbitrary: ts)
  case (Cons a ops)
  obtain c d op where a: "a = (c, d, op)" by (cases a) auto
  obtain b r1 where e: "eat_op c d ts = (b, r1)" by (cases "eat_op c d ts") auto
  note r1 = eat_op_suffix [OF e]
  show ?case
  proof (cases b)
    case True
    with Cons.prems a e r1 show ?thesis by auto
  next
    case False
    with Cons.prems a e have "eat_first ops r1 = (x, r)" by simp
    with Cons.IH [of r1] r1 show ?thesis
      by (meson suffix_order.order_trans suffix_order.strict_trans2)
  qed
qed simp

text \<open>The contract of a tier towards the tier above it: success uses up at least one token.\<close>

locale operand_parser =
  fixes operand :: parser
  assumes consumes: "operand ts = Ok (e, r) \<Longrightarrow> strict_suffix r ts"
begin

lemma operand_after_op:
  assumes "eat_first ops ts = (Some op, r)" and "operand (skip_gap r) = Ok (e, r')"
  shows "strict_suffix r' ts"
proof -
  have "strict_suffix r' (skip_gap r)" using assms(2) by (rule consumes)
  moreover have "suffix (skip_gap r) ts"
    using eat_first_suffix [OF assms(1)] skip_gap_suffix suffix_order.trans by blast
  ultimately show ?thesis by (rule suffix_order.strict_trans2)
qed

lemma after_op_suffix:
  assumes "operand ts = Ok (left, r)" and "eat_first ops r = (Some op, r')"
  shows "suffix (skip_gap r') ts"
proof -
  have "suffix r' r" using eat_first_suffix [OF assms(2)] by blast
  with skip_gap_suffix have "suffix (skip_gap r') r" by (rule suffix_order.trans)
  moreover have "suffix r ts" using consumes [OF assms(1)] by (rule strict_suffix_weaken)
  ultimately show ?thesis by (rule suffix_order.trans)
qed

lemma chain_suffix: "chain n (eat_first ops) operand build left ts = Ok (e, r) \<Longrightarrow> suffix r ts"
proof (induction n arbitrary: left ts)
  case (Suc n)
  then show ?case
    by (fastforce simp: result_simps split: prod.splits option.splits dest: eat_first_suffix
        dest!: operand_after_op strict_suffix_weaken intro: suffix_order.trans)
qed simp

lemma chain_consumes: "chain_tier (eat_first ops) operand build ts = Ok (e, r) \<Longrightarrow> strict_suffix r ts"
  by (auto simp: chain_tier_def result_simps simp del: chain.simps dest!: consumes chain_suffix
      intro: suffix_order.strict_trans1)

lemma compare_consumes:
  assumes "compare_tier ops b F operand ts = Ok (e, r)"
  shows "strict_suffix r ts"
proof -
  obtain left r1 where r1: "operand ts = Ok (left, r1)"
    using assms by (auto simp: compare_tier_def result_simps)
  obtain x r2 where x: "eat_first ops r1 = (x, r2)" by (cases "eat_first ops r1") auto
  have "suffix r r1"
  proof (cases x)
    case None
    with assms r1 x eat_first_suffix [OF x] show ?thesis by (simp add: compare_tier_def)
  next
    case (Some op)
    with assms r1 x obtain e' where op: "eat_first ops r1 = (Some op, r2)" "operand (skip_gap r2) = Ok (e', r)"
      by (auto simp: compare_tier_def result_simps)
    show ?thesis by (rule strict_suffix_weaken) (rule operand_after_op [OF op])
  qed
  with consumes [OF r1] show ?thesis by (meson suffix_order.strict_trans1)
qed

lemma chain_fuel:
  "\<lbrakk>length ts < n; length ts < m\<rbrakk> \<Longrightarrow>
   chain n (eat_first ops) operand build left ts = chain m (eat_first ops) operand build left ts"
proof (induction n arbitrary: m left ts)
  case (Suc n)
  then obtain m' where m: "m = Suc m'" by (cases m) auto
  have "chain n (eat_first ops) operand build e r' = chain m' (eat_first ops) operand build e r'"
    if "eat_first ops ts = (Some op, r)" "operand (skip_gap r) = Ok (right, r')" for op r right r' e
    using Suc.IH [of r' m'] suffix_length_less [OF operand_after_op [OF that]] Suc.prems m by simp
  then show ?case
    by (auto simp: m split: prod.splits option.splits intro!: bind_result_cong)
qed simp

lemma chain_enough:
  assumes "\<And>ts'. suffix ts' ts \<Longrightarrow> operand ts' \<noteq> Err ParseFuel" and "\<And>op l r. build op l r \<noteq> Err ParseFuel"
    and "length ts < n"
  shows "chain n (eat_first ops) operand build left ts \<noteq> Err ParseFuel"
  using assms(1,3)
proof (induction n arbitrary: left ts)
  case (Suc n)
  have "operand (skip_gap r) \<noteq> Err ParseFuel" if "eat_first ops ts = (Some op, r)" for op r
    using Suc.prems(1) eat_first_suffix [OF that] skip_gap_suffix suffix_order.trans by blast
  moreover have "chain n (eat_first ops) operand build e r' \<noteq> Err ParseFuel"
    if "eat_first ops ts = (Some op, r)" "operand (skip_gap r) = Ok (right, r')" for op r right r' e
  proof (rule Suc.IH)
    have ss: "strict_suffix r' ts" using that by (rule operand_after_op)
    then show "length r' < n" using suffix_length_less [OF ss] Suc.prems(2) by simp
    show "operand ts' \<noteq> Err ParseFuel" if "suffix ts' r'" for ts'
      using Suc.prems(1) that ss strict_suffix_weaken suffix_order.trans by blast
  qed
  ultimately show ?case
    using assms(2) by (auto simp: result_simps split: prod.splits option.splits)
qed simp

lemma chain_tier_enough:
  assumes "\<And>ts'. suffix ts' ts \<Longrightarrow> operand ts' \<noteq> Err ParseFuel" and "\<And>op l r. build op l r \<noteq> Err ParseFuel"
  shows "chain_tier (eat_first ops) operand build ts \<noteq> Err ParseFuel"
proof -
  have "chain (Suc (length r)) (eat_first ops) operand build left r \<noteq> Err ParseFuel"
    if "operand ts = Ok (left, r)" for left r
  proof (rule chain_enough)
    show "operand ts' \<noteq> Err ParseFuel" if "suffix ts' r" for ts'
      using assms(1) that consumes [OF \<open>operand ts = Ok (left, r)\<close>] strict_suffix_weaken suffix_order.trans by blast
  qed (use assms(2) in simp_all)
  with assms(1) [of ts] show ?thesis by (auto simp: chain_tier_def result_simps simp del: chain.simps)
qed

lemma compare_enough:
  assumes "\<And>ts'. suffix ts' ts \<Longrightarrow> operand ts' \<noteq> Err ParseFuel"
  shows "compare_tier ops b F operand ts \<noteq> Err ParseFuel"
proof -
  have "operand (skip_gap r') \<noteq> Err ParseFuel" if "operand ts = Ok (left, r)" "eat_first ops r = (Some op, r')" for left r op r'
    using that by (intro assms after_op_suffix)
  moreover have "lower_compare F op l r \<noteq> Err ParseFuel" for op l r
    by (cases "make_compare F op l r") (simp_all add: lower_compare_def)
  moreover have "reject_chained_compare b r \<noteq> Err ParseFuel" for r
    by (simp add: reject_chained_compare_def Let_def)
  ultimately show ?thesis
    using assms [of ts] by (auto simp: compare_tier_def result_simps split: prod.splits option.splits)
qed

lemma chain_agrees:
  assumes "\<And>ts'. suffix ts' ts \<Longrightarrow> operand ts' = other ts'"
  shows "chain n (eat_first ops) operand build left ts = chain n (eat_first ops) other build left ts"
  using assms
proof (induction n arbitrary: left ts)
  case (Suc n)
  have "operand (skip_gap r) = other (skip_gap r)" if "eat_first ops ts = (Some op, r)" for op r
    using Suc.prems eat_first_suffix [OF that] skip_gap_suffix suffix_order.trans by blast
  moreover have "chain n (eat_first ops) operand build e r' = chain n (eat_first ops) other build e r'"
    if "eat_first ops ts = (Some op, r)" "operand (skip_gap r) = Ok (right, r')" for op r right r' e
    using Suc.IH Suc.prems operand_after_op [OF that] strict_suffix_weaken suffix_order.trans by meson
  ultimately show ?case
    by (auto split: prod.splits option.splits intro!: bind_result_cong)
qed simp

lemma chain_tier_agrees:
  assumes "\<And>ts'. suffix ts' ts \<Longrightarrow> operand ts' = other ts'"
  shows "chain_tier (eat_first ops) operand build ts = chain_tier (eat_first ops) other build ts"
proof -
  have "chain n (eat_first ops) operand build left r = chain n (eat_first ops) other build left r"
    if "operand ts = Ok (left, r)" for n left r
    using assms consumes [OF that] strict_suffix_weaken suffix_order.trans by (intro chain_agrees) blast
  with assms [of ts] show ?thesis
    by (auto simp: chain_tier_def simp del: chain.simps intro!: bind_result_cong)
qed

lemma compare_agrees:
  assumes "\<And>ts'. suffix ts' ts \<Longrightarrow> operand ts' = other ts'"
  shows "compare_tier ops b F operand ts = compare_tier ops b F other ts"
proof -
  have "operand (skip_gap r') = other (skip_gap r')" if "operand ts = Ok (left, r)" "eat_first ops r = (Some op, r')" for left r op r'
    using that by (intro assms after_op_suffix)
  with assms [of ts] show ?thesis
    by (auto simp: compare_tier_def split: prod.splits option.splits intro!: bind_result_cong)
qed

end

lemma map_result_not_Inl: "(\<And>x. x \<in> set xs \<Longrightarrow> f x \<noteq> Err e) \<Longrightarrow> map_result f xs \<noteq> Err e"
  by (induction xs) (auto split: sum.splits)

lemma prefixes_at_suffix: "prefixes_at ts = (ps, r) \<Longrightarrow> suffix r ts"
proof (induction ts arbitrary: ps r rule: prefixes_at.induct)
  case (2 t ts)
  have "suffix r' (t # ts)" if "prefixes_at (skip_gap ts) = (ps', r')" "suffix r' (skip_gap ts)" for ps' r'
    using that(2) skip_gap_suffix suffix_order.trans suffix_ConsI by metis
  with 2 show ?case by (auto split: if_splits prod.splits)
qed simp

lemma lift_error_fuel [simp]:
  "lift_error Lowering x \<noteq> Err ParseFuel" "lift_error Resolution y \<noteq> Err ParseFuel" "lift_error BodyError z \<noteq> Err ParseFuel"
  by (cases x; simp) (cases y; simp; fail | cases z; simp)+

lemma lowering_fuel [simp]:
  "checked e \<noteq> Err ParseFuel" "lower_arith F aop l r \<noteq> Err ParseFuel" "lower_compare F cop l r \<noteq> Err ParseFuel"
  "lower_and l r \<noteq> Err ParseFuel" "apply_prefixes ps e \<noteq> Err ParseFuel"
proof -
  show c: "checked e \<noteq> Err ParseFuel" for e by (simp add: checked_def)
  show "lower_arith F aop l r \<noteq> Err ParseFuel" "lower_compare F cop l r \<noteq> Err ParseFuel"
    by (simp_all add: lower_arith_def lower_compare_def)
  show "lower_and l r \<noteq> Err ParseFuel" using c by (auto simp: lower_and_def result_simps)
  show "apply_prefixes ps e \<noteq> Err ParseFuel"
    using c by (induction ps) (auto simp: result_simps split: if_splits)
qed

text \<open>Over a parser of atoms that consumes input every tier does.\<close>

locale atom_parser =
  fixes F :: float_ops and atom :: parser
  assumes atom_consumes: "atom ts = Ok (e, r) \<Longrightarrow> strict_suffix r ts"
begin

lemma unary_consumes: "parse_expr_unary atom ts = Ok (e, r) \<Longrightarrow> strict_suffix r ts"
  by (auto simp: parse_expr_unary_def result_simps split: prod.splits
      dest!: atom_consumes prefixes_at_suffix intro: suffix_order.strict_trans2)

lemma unary_enough:
  "(\<And>ts'. suffix ts' ts \<Longrightarrow> atom ts' \<noteq> Err ParseFuel) \<Longrightarrow> parse_expr_unary atom ts \<noteq> Err ParseFuel"
  by (auto simp: parse_expr_unary_def result_simps split: prod.splits dest: prefixes_at_suffix)

lemma unary_agrees:
  "(\<And>ts'. suffix ts' ts \<Longrightarrow> atom ts' = other ts') \<Longrightarrow> parse_expr_unary atom ts = parse_expr_unary other ts"
  by (auto simp: parse_expr_unary_def split: prod.splits dest: prefixes_at_suffix)

end

sublocale atom_parser \<subseteq> un: operand_parser "parse_expr_unary atom"
  by unfold_locales (rule unary_consumes)

sublocale atom_parser \<subseteq> mul: operand_parser "parse_expr_mul F atom"
  by unfold_locales (unfold parse_expr_mul_def, rule un.chain_consumes)

sublocale atom_parser \<subseteq> add: operand_parser "parse_expr_add F atom"
  by unfold_locales (unfold parse_expr_add_def, rule mul.chain_consumes)

sublocale atom_parser \<subseteq> ord: operand_parser "parse_expr_ord F atom"
  by unfold_locales (unfold parse_expr_ord_def, rule add.compare_consumes)

sublocale atom_parser \<subseteq> cmp: operand_parser "parse_expr_cmp F atom"
  by unfold_locales (unfold parse_expr_cmp_def, rule ord.compare_consumes)

sublocale atom_parser \<subseteq> conj: operand_parser "parse_expr_and F atom"
  by unfold_locales (unfold parse_expr_and_def, rule cmp.chain_consumes)

sublocale atom_parser \<subseteq> disj: operand_parser "parse_expr_or F atom"
  by unfold_locales (unfold parse_expr_or_def, rule conj.chain_consumes)

context atom_parser
begin

lemma or_enough:
  assumes "\<And>ts'. suffix ts' ts \<Longrightarrow> atom ts' \<noteq> Err ParseFuel"
  shows "parse_expr_or F atom ts \<noteq> Err ParseFuel"
proof -
  have u: "parse_expr_unary atom ts' \<noteq> Err ParseFuel" if "suffix ts' ts" for ts'
    using that assms suffix_order.trans by (intro unary_enough) blast
  have m: "parse_expr_mul F atom ts' \<noteq> Err ParseFuel" if "suffix ts' ts" for ts'
    unfolding parse_expr_mul_def using that u suffix_order.trans by (intro un.chain_tier_enough) (blast, simp)
  have a: "parse_expr_add F atom ts' \<noteq> Err ParseFuel" if "suffix ts' ts" for ts'
    unfolding parse_expr_add_def using that m suffix_order.trans by (intro mul.chain_tier_enough) (blast, simp)
  have o: "parse_expr_ord F atom ts' \<noteq> Err ParseFuel" if "suffix ts' ts" for ts'
    unfolding parse_expr_ord_def using that a suffix_order.trans by (intro add.compare_enough) blast
  have c: "parse_expr_cmp F atom ts' \<noteq> Err ParseFuel" if "suffix ts' ts" for ts'
    unfolding parse_expr_cmp_def using that o suffix_order.trans by (intro ord.compare_enough) blast
  have n: "parse_expr_and F atom ts' \<noteq> Err ParseFuel" if "suffix ts' ts" for ts'
    unfolding parse_expr_and_def using that c suffix_order.trans by (intro cmp.chain_tier_enough) (blast, simp)
  show ?thesis
    unfolding parse_expr_or_def using n by (intro conj.chain_tier_enough) simp_all
qed

lemma or_agrees:
  assumes "\<And>ts'. suffix ts' ts \<Longrightarrow> atom ts' = other ts'"
  shows "parse_expr_or F atom ts = parse_expr_or F other ts"
proof -
  have u: "parse_expr_unary atom ts' = parse_expr_unary other ts'" if "suffix ts' ts" for ts'
    using that assms suffix_order.trans by (intro unary_agrees) blast
  have m: "parse_expr_mul F atom ts' = parse_expr_mul F other ts'" if "suffix ts' ts" for ts'
    unfolding parse_expr_mul_def using that u suffix_order.trans by (intro un.chain_tier_agrees) blast
  have a: "parse_expr_add F atom ts' = parse_expr_add F other ts'" if "suffix ts' ts" for ts'
    unfolding parse_expr_add_def using that m suffix_order.trans by (intro mul.chain_tier_agrees) blast
  have o: "parse_expr_ord F atom ts' = parse_expr_ord F other ts'" if "suffix ts' ts" for ts'
    unfolding parse_expr_ord_def using that a suffix_order.trans by (intro add.compare_agrees) blast
  have c: "parse_expr_cmp F atom ts' = parse_expr_cmp F other ts'" if "suffix ts' ts" for ts'
    unfolding parse_expr_cmp_def using that o suffix_order.trans by (intro ord.compare_agrees) blast
  have n: "parse_expr_and F atom ts' = parse_expr_and F other ts'" if "suffix ts' ts" for ts'
    unfolding parse_expr_and_def using that c suffix_order.trans by (intro cmp.chain_tier_agrees) blast
  show ?thesis
    unfolding parse_expr_or_def using n by (intro conj.chain_tier_agrees) simp
qed

end

section \<open>Atoms\<close>

lemma bare_tail_suffix: "bare_tail ts = (s, r) \<Longrightarrow> suffix r ts"
  by (induction ts arbitrary: s r) (auto split: if_splits tok_kind.splits prod.splits intro: suffix_ConsI)

lemma number_tails_suffix: "number_tails ts = (s, r) \<Longrightarrow> suffix r ts"
  by (induction ts arbitrary: s r rule: number_tails.induct)
    (auto split: if_splits tok_kind.splits prod.splits intro: suffix_ConsI)

lemma call_segments_suffix: "call_segments ts = (s, r) \<Longrightarrow> suffix r ts"
proof (induction ts arbitrary: s r rule: call_segments.induct)
  case (1 a b c ts)
  then show ?case
    by (auto split: if_splits tok_kind.splits prod.splits intro!: suffix_ConsI)
qed auto

lemma key_path_suffix: "key_path ts = (s, r) \<Longrightarrow> suffix r ts"
  by (induction ts arbitrary: s r rule: key_path.induct)
    (auto split: if_splits tok_kind.splits prod.splits intro: suffix_ConsI)

lemma bare_head_suffix: "bare_head ts = Ok (w, r) \<Longrightarrow> strict_suffix r ts"
  by (auto simp: bare_head_def split: list.splits tok_kind.splits if_splits intro: suffix_Cons_le)

lemma bare_run_suffix:
  assumes "expr_bare_run b ts = Ok (w, r)"
  shows "strict_suffix r ts"
proof -
  from assms obtain dash ts1 w2 ts2 where h: "suffix ts1 ts" "bare_head ts1 = Ok (w2, ts2)" "snd (bare_tail ts2) = r"
    by (auto simp: expr_bare_run_def Let_def result_simps split_beta split: if_splits list.splits intro: suffix_ConsI)
  moreover have "suffix r ts2" using h(3) bare_tail_suffix [of ts2] by (metis prod.collapse)
  ultimately show ?thesis
    using bare_head_suffix suffix_order.strict_trans1 suffix_order.strict_trans2 by metis
qed

lemma bare_atom_suffix: "parse_bare_atom b ts = Ok (e, r) \<Longrightarrow> strict_suffix r ts"
  by (auto simp: parse_bare_atom_def result_simps dest: bare_run_suffix)

lemma numeric_atom_suffix: "parse_numeric_atom F ts = Ok (e, r) \<Longrightarrow> strict_suffix r ts"
  by (auto simp: parse_numeric_atom_def number_head_def result_simps
      split: option.splits if_splits list.splits prod.splits tok_kind.splits dest: bare_atom_suffix
      dest!: number_tails_suffix intro: suffix_Cons_le)

lemma variable_suffix: "parse_variable ts = Ok (e, r) \<Longrightarrow> suffix r ts"
  by (auto simp: parse_variable_def split: list.splits tok_kind.splits if_splits prod.splits
      dest!: key_path_suffix intro: suffix_ConsI)

lemma env_read_suffix: "env_read ts = Some (e, r) \<Longrightarrow> suffix r ts"
  by (auto simp: env_read_def split: list.splits tok_kind.splits if_splits intro: suffix_ConsI)

lemma call_shape_spec:
  assumes "call_shape_at b ts = Some (name, inner, r)"
  shows "strict_suffix r ts \<and> (\<exists>g \<in> set ts. \<exists>p q. kind g = Group Paren inner p q)"
proof -
  from assms obtain t ts' w segs g p q where "ts = t # ts'" "call_segments ts' = (segs, g # r)" "kind g = Group Paren inner p q"
    by (auto simp: call_shape_at_def split: list.splits tok_kind.splits if_splits prod.splits group_delim.splits)
  moreover from this(2) have "suffix (g # r) ts'" by (rule call_segments_suffix)
  ultimately show ?thesis
    by (auto intro!: suffix_Cons_le dest: suffix_ConsD simp: suffix_def)
qed

lemma with_rest_Ok: "with_rest r' x = Ok (e, r) \<Longrightarrow> r = r'"
  by (auto simp: with_rest_def result_simps)

lemma atom_of_consumes: "atom_of C p ts = Ok (e, r) \<Longrightarrow> strict_suffix r ts"
  by (auto simp: atom_of_def parse_word_atom_def split: list.splits tok_kind.splits if_splits option.splits prod.splits
      dest!: with_rest_Ok variable_suffix env_read_suffix dest: bare_atom_suffix numeric_atom_suffix call_shape_spec
      intro: suffix_Cons_le)

interpretation atoms: atom_parser "pc_floats C" "parse_expr_atom C n" for C n
proof
  show "strict_suffix r ts" if "parse_expr_atom C n ts = Ok (e, r)" for ts e r
    using that by (cases n) (auto dest: atom_of_consumes)
qed

section \<open>Literals over a tier\<close>

lemma eat_punct_suffix: "eat_punct c ts = (b, r) \<Longrightarrow> suffix r ts \<and> (b \<longrightarrow> strict_suffix r ts)"
  by (cases "(c, ts)" rule: eat_punct.cases) (auto split: if_splits intro: suffix_ConsI suffix_Cons_le)

context operand_parser
begin

lemma after_comma_suffix:
  assumes "operand ts = Ok (e, r)" and "eat_punct c (skip_gap_nl r) = (True, r')"
  shows "strict_suffix (skip_gap_nl r') ts"
proof -
  have "suffix (skip_gap_nl r') r'" "strict_suffix r' (skip_gap_nl r)" "suffix (skip_gap_nl r) r" "strict_suffix r ts"
    using eat_punct_suffix [OF assms(2)] consumes [OF assms(1)] by (simp_all add: skip_gap_nl_suffix)
  then show ?thesis
    by (meson suffix_order.strict_trans1 suffix_order.strict_trans2 suffix_order.strict_trans)
qed

lemma comma_agrees:
  assumes "\<And>ts'. suffix ts' ts \<Longrightarrow> operand ts' = other ts'"
  shows "comma_items n operand ts = comma_items n other ts"
  using assms
proof (induction n arbitrary: ts)
  case (Suc n)
  have "comma_items n operand (skip_gap_nl r') = comma_items n other (skip_gap_nl r')"
    if "operand ts = Ok (e, r)" "eat_punct CHR '','' (skip_gap_nl r) = (True, r')" for e r r'
    using Suc.IH Suc.prems after_comma_suffix [OF that] strict_suffix_weaken suffix_order.trans by meson
  with Suc.prems [of ts] show ?case
    by (auto split: prod.splits bool.splits intro!: bind_result_cong)
qed simp

lemma comma_enough:
  assumes "\<And>ts'. suffix ts' ts \<Longrightarrow> operand ts' \<noteq> Err ParseFuel" and "length ts < n"
  shows "comma_items n operand ts \<noteq> Err ParseFuel"
  using assms
proof (induction n arbitrary: ts)
  case (Suc n)
  have "comma_items n operand (skip_gap_nl r') \<noteq> Err ParseFuel"
    if "operand ts = Ok (e, r)" "eat_punct CHR '','' (skip_gap_nl r) = (True, r')" for e r r'
  proof (rule Suc.IH)
    note ss = after_comma_suffix [OF that]
    show "length (skip_gap_nl r') < n" using suffix_length_less [OF ss] Suc.prems(2) by simp
    show "operand ts' \<noteq> Err ParseFuel" if "suffix ts' (skip_gap_nl r')" for ts'
      using Suc.prems(1) that ss strict_suffix_weaken suffix_order.trans by blast
  qed
  with Suc.prems(1) [of ts] show ?case
    by (auto simp: result_simps split: prod.splits bool.splits)
qed simp

lemma group_items_agrees:
  assumes "\<And>ts'. suffix ts' inner \<Longrightarrow> operand ts' = other ts'"
  shows "group_items msg operand inner = group_items msg other inner"
proof -
  have "comma_items n operand (skip_gap_nl inner) = comma_items n other (skip_gap_nl inner)" for n
    using assms skip_gap_nl_suffix suffix_order.trans by (intro comma_agrees) blast
  then show ?thesis by (auto simp: group_items_def simp del: comma_items.simps split: list.split)
qed

lemma group_items_enough:
  assumes "\<And>ts'. suffix ts' inner \<Longrightarrow> operand ts' \<noteq> Err ParseFuel"
  shows "group_items msg operand inner \<noteq> Err ParseFuel"
proof -
  have "comma_items (Suc (length (skip_gap_nl inner))) operand (skip_gap_nl inner) \<noteq> Err ParseFuel"
    using assms skip_gap_nl_suffix suffix_order.trans by (intro comma_enough) (blast, simp)
  then show ?thesis
    by (auto simp: group_items_def result_simps simp del: comma_items.simps split: list.split if_splits)
qed

lemma checked_consumes: "parse_expr_checked operand ts = Ok (e, r) \<Longrightarrow> strict_suffix r ts"
  by (auto simp: parse_expr_checked_def result_simps split: if_splits dest: consumes)

lemma checked_enough: "operand ts \<noteq> Err ParseFuel \<Longrightarrow> parse_expr_checked operand ts \<noteq> Err ParseFuel"
  by (auto simp: parse_expr_checked_def result_simps split: if_splits)

lemma checked_agrees: "operand ts = other ts \<Longrightarrow> parse_expr_checked operand ts = parse_expr_checked other ts"
  by (simp add: parse_expr_checked_def)

end

sublocale atom_parser \<subseteq> ck: operand_parser "parse_expr_checked (parse_expr_or F atom)"
  by unfold_locales (rule disj.checked_consumes)

section \<open>Nesting is enough fuel\<close>

lemma toks_depth_simps [simp]: "toks_depth [] = 0" "toks_depth (t # ts) = max (tok_depth t) (toks_depth ts)"
  by (simp_all add: toks_depth_def)

lemma toks_depth_append [simp]: "toks_depth (a @ b) = max (toks_depth a) (toks_depth b)"
  by (induction a) auto

lemma toks_depth_suffix: "suffix r ts \<Longrightarrow> toks_depth r \<le> toks_depth ts"
  by (auto simp: suffix_def)

lemma group_depth: "kind t = Group d inner p q \<Longrightarrow> tok_depth t = Suc (toks_depth inner)"
  by (cases t rule: tok_depth.cases) (auto simp: toks_depth_def)

lemma tok_depth_le: "t \<in> set ts \<Longrightarrow> tok_depth t \<le> toks_depth ts"
  by (induction ts) auto

lemma split_top_commas_depth: "p \<in> set (split_top_commas ts) \<Longrightarrow> toks_depth p \<le> toks_depth ts"
  by (induction ts arbitrary: p rule: split_top_commas.induct)
    (auto split: if_splits list.splits simp: le_max_iff_disj, fastforce+)

lemma take_punct_suffix: "take_punct c ts = (s, r) \<Longrightarrow> suffix r ts"
  by (auto simp: take_punct_def split: prod.splits bool.splits dest: eat_punct_suffix)

lemma map_bare_key_suffix:
  assumes "map_bare_key ts = Ok (k, r)"
  shows "suffix r ts"
proof -
  obtain dash ts1 where d: "take_punct CHR ''-'' ts = (dash, ts1)" by fastforce
  obtain slash ts2 where l: "take_punct CHR ''/'' ts1 = (slash, ts2)" by fastforce
  from assms d l obtain out ts3 where "map_key_head (dash @ slash) ts2 = Ok (out, ts3)" "snd (bare_tail ts3) = r"
    by (auto simp: map_bare_key_def result_simps split_beta split: if_splits)
  moreover from this(1) have "suffix ts3 ts2"
    by (auto simp: map_key_head_def split: list.splits tok_kind.splits if_splits intro: suffix_ConsI)
  moreover have "suffix (snd (bare_tail ts3)) ts3" by (metis bare_tail_suffix prod.collapse)
  ultimately show ?thesis
    using take_punct_suffix [OF d] take_punct_suffix [OF l] suffix_order.trans by metis
qed

lemma map_key_suffix: "map_key ts = Ok (k, r) \<Longrightarrow> suffix r ts"
  by (auto simp: map_key_def split: list.splits tok_kind.splits if_splits
      intro: suffix_ConsI dest: map_bare_key_suffix)

lemma own_errors [simp]:
  "map_key ts \<noteq> Err ParseFuel" "parse_bare_atom b ts \<noteq> Err ParseFuel" "parse_numeric_atom F ts \<noteq> Err ParseFuel"
  "parse_variable ts \<noteq> Err ParseFuel" "resolve_name C name \<noteq> Err ParseFuel"
proof -
  have h: "bare_head ts \<noteq> Err ParseFuel" for ts
    by (simp add: bare_head_def split: list.splits tok_kind.splits)
  show b: "parse_bare_atom b ts \<noteq> Err ParseFuel" for b
    using h by (auto simp: parse_bare_atom_def expr_bare_run_def Let_def result_simps split: if_splits list.splits prod.splits)
  have "map_key_head out ts \<noteq> Err ParseFuel" for out ts
    by (simp add: map_key_head_def split: list.splits tok_kind.splits)
  then have "map_bare_key ts \<noteq> Err ParseFuel" for ts
    by (auto simp: map_bare_key_def result_simps split: if_splits prod.splits)
  then show "map_key ts \<noteq> Err ParseFuel" by (simp add: map_key_def split: list.splits tok_kind.splits)
  show "parse_numeric_atom F ts \<noteq> Err ParseFuel"
    using b by (auto simp: parse_numeric_atom_def result_simps split: option.splits if_splits)
  show "parse_variable ts \<noteq> Err ParseFuel"
    by (simp add: parse_variable_def split: list.splits tok_kind.splits prod.splits)
  show "resolve_name C name \<noteq> Err ParseFuel" by (simp add: resolve_name_def split: prod.splits)
qed

context atom_parser
begin

lemma parens_agrees:
  assumes "\<And>ts'. toks_depth ts' \<le> toks_depth inner \<Longrightarrow> parse_expr_or F atom ts' = other ts'"
  shows "parse_parens (parse_expr_or F atom) inner = parse_parens other inner"
  using assms [OF toks_depth_suffix [OF skip_gap_nl_suffix]] by (simp add: parse_parens_def)

lemma call_args_agrees:
  assumes "\<And>ts'. toks_depth ts' \<le> toks_depth inner \<Longrightarrow> parse_expr_or F atom ts' = other ts'"
  shows "parse_call_args (parse_expr_or F atom) inner = parse_call_args other inner"
  unfolding parse_call_args_def using assms toks_depth_suffix by (intro disj.group_items_agrees) blast

lemma list_agrees:
  assumes "\<And>ts'. toks_depth ts' \<le> toks_depth inner \<Longrightarrow> parse_expr_or F atom ts' = other ts'"
  shows "parse_list_literal (parse_expr_or F atom) inner = parse_list_literal other inner"
proof -
  have "group_items msg (parse_expr_checked (parse_expr_or F atom)) inner = group_items msg (parse_expr_checked other) inner" for msg
    using assms toks_depth_suffix by (intro ck.group_items_agrees disj.checked_agrees) blast
  then show ?thesis by (simp add: parse_list_literal_def)
qed

lemma map_value_depth:
  assumes "part \<in> set (split_top_commas inner)" and "map_key (skip_gap_nl part) = Ok (key, r)"
    and "eat_punct c (skip_gap r) = (b, r')"
  shows "toks_depth r' \<le> toks_depth inner"
proof -
  have "suffix r' part"
    using eat_punct_suffix [OF assms(3)] map_key_suffix [OF assms(2)] skip_gap_suffix skip_gap_nl_suffix
      suffix_order.trans by metis
  with split_top_commas_depth [OF assms(1)] toks_depth_suffix show ?thesis by fastforce
qed

lemma map_agrees:
  assumes "\<And>ts'. toks_depth ts' \<le> toks_depth inner \<Longrightarrow> parse_expr_or F atom ts' = other ts'"
  shows "parse_map_literal (parse_expr_or F atom) inner = parse_map_literal other inner"
proof -
  have "map_entry (parse_expr_or F atom) part = map_entry other part" if "part \<in> set (split_top_commas inner)" for part
    using assms [OF map_value_depth [OF that]]
    by (auto simp: map_entry_def parse_expr_checked_def split: prod.splits bool.splits intro!: bind_result_cong)
  then have "map_result (map_entry (parse_expr_or F atom)) (split_top_commas inner) = map_result (map_entry other) (split_top_commas inner)"
    by (intro map_result_cong) simp_all
  then show ?thesis by (simp add: parse_map_literal_def)
qed

lemma group_agrees:
  assumes "\<And>ts'. toks_depth ts' \<le> toks_depth inner \<Longrightarrow> parse_expr_or F atom ts' = other ts'"
  shows "parse_group C (parse_expr_or F atom) d inner = parse_group C other d inner"
  using parens_agrees [of inner other] list_agrees [of inner other] map_agrees [of inner other] assms
  by (simp add: parse_group_def parse_map_or_block_def split: group_delim.splits)

lemma atom_of_agrees:
  assumes "\<And>ts'. toks_depth ts' < toks_depth ts \<Longrightarrow> parse_expr_or F atom ts' = other ts'"
  shows "atom_of C (parse_expr_or F atom) ts = atom_of C other ts"
proof (cases ts)
  case (Cons t r)
  have inner: "parse_expr_or F atom ts' = other ts'"
    if "g \<in> set ts" "kind g = Group d inner p q" "toks_depth ts' \<le> toks_depth inner" for g d inner p q ts'
    using assms that tok_depth_le [OF that(1)] group_depth [OF that(2)] by simp
  have "parse_word_atom C (parse_expr_or F atom) w r ts = parse_word_atom C other w r ts" for w
  proof (cases "call_shape_at False ts")
    case (Some x)
    then obtain name args r' where x: "call_shape_at False ts = Some (name, args, r')" by (cases x) auto
    from call_shape_spec [OF this] obtain g p q where "g \<in> set ts" "kind g = Group Paren args p q" by blast
    with inner have "parse_call_args (parse_expr_or F atom) args = parse_call_args other args"
      by (intro call_args_agrees) blast
    with x show ?thesis by (simp add: parse_word_atom_def parse_expr_call_def)
  qed (simp add: parse_word_atom_def)
  moreover have "parse_group C (parse_expr_or F atom) d args = parse_group C other d args" if "kind t = Group d args p q" for d args p q
    using inner [of t] that Cons by (intro group_agrees) simp
  ultimately show ?thesis by (simp add: atom_of_def Cons split: tok_kind.splits)
qed (simp add: atom_of_def)

lemma parens_enough:
  assumes "\<And>ts'. toks_depth ts' \<le> toks_depth inner \<Longrightarrow> parse_expr_or F atom ts' \<noteq> Err ParseFuel"
  shows "parse_parens (parse_expr_or F atom) inner \<noteq> Err ParseFuel"
  using assms [OF toks_depth_suffix [OF skip_gap_nl_suffix]]
  by (auto simp: parse_parens_def result_simps split: if_splits)

lemma list_enough:
  assumes "\<And>ts'. toks_depth ts' \<le> toks_depth inner \<Longrightarrow> parse_expr_or F atom ts' \<noteq> Err ParseFuel"
  shows "parse_list_literal (parse_expr_or F atom) inner \<noteq> Err ParseFuel"
proof -
  have "group_items msg (parse_expr_checked (parse_expr_or F atom)) inner \<noteq> Err ParseFuel" for msg
    using assms toks_depth_suffix by (intro ck.group_items_enough disj.checked_enough) blast
  then show ?thesis by (simp add: parse_list_literal_def result_simps)
qed

lemma map_enough:
  assumes "\<And>ts'. toks_depth ts' \<le> toks_depth inner \<Longrightarrow> parse_expr_or F atom ts' \<noteq> Err ParseFuel"
  shows "parse_map_literal (parse_expr_or F atom) inner \<noteq> Err ParseFuel"
proof -
  have "map_entry (parse_expr_or F atom) part \<noteq> Err ParseFuel" if "part \<in> set (split_top_commas inner)" for part
  proof -
    have "parse_expr_checked (parse_expr_or F atom) r' \<noteq> Err ParseFuel"
      if "map_key (skip_gap_nl part) = Ok (key, r)" "eat_punct c (skip_gap r) = (b, r')" for key r c b r'
      using assms [OF map_value_depth [OF \<open>part \<in> set (split_top_commas inner)\<close> that]] by (rule disj.checked_enough)
    then show ?thesis
      by (auto simp: map_entry_def result_simps split: prod.splits bool.splits if_splits)
  qed
  then have "map_result (map_entry (parse_expr_or F atom)) (split_top_commas inner) \<noteq> Err ParseFuel"
    by (rule map_result_not_Inl)
  then show ?thesis by (simp add: parse_map_literal_def result_simps)
qed

lemma group_enough:
  assumes "\<And>ts'. toks_depth ts' \<le> toks_depth inner \<Longrightarrow> parse_expr_or F atom ts' \<noteq> Err ParseFuel"
  shows "parse_group C (parse_expr_or F atom) d inner \<noteq> Err ParseFuel"
  using parens_enough [OF assms] list_enough [OF assms] map_enough [OF assms]
  by (auto simp: parse_group_def parse_map_or_block_def result_simps
      split: group_delim.splits sum.splits parse_error.splits)

lemma call_enough:
  assumes "\<And>ts'. toks_depth ts' \<le> toks_depth inner \<Longrightarrow> parse_expr_or F atom ts' \<noteq> Err ParseFuel"
  shows "parse_expr_call C (parse_expr_or F atom) name inner \<noteq> Err ParseFuel"
proof -
  have "parse_call_args (parse_expr_or F atom) inner \<noteq> Err ParseFuel"
    unfolding parse_call_args_def using assms toks_depth_suffix by (intro disj.group_items_enough) blast
  moreover have "inspect_call args \<noteq> Err ParseFuel" for args
    by (cases args rule: inspect_call.cases) simp_all
  ultimately show ?thesis by (simp add: parse_expr_call_def result_simps)
qed

lemma with_rest_fuel: "with_rest r x \<noteq> Err ParseFuel \<longleftrightarrow> x \<noteq> Err ParseFuel"
  by (auto simp: with_rest_def result_simps)

lemma atom_of_enough:
  assumes "\<And>ts'. toks_depth ts' < toks_depth ts \<Longrightarrow> parse_expr_or F atom ts' \<noteq> Err ParseFuel"
  shows "atom_of C (parse_expr_or F atom) ts \<noteq> Err ParseFuel"
proof (cases ts)
  case (Cons t r)
  have inner: "parse_expr_or F atom ts' \<noteq> Err ParseFuel"
    if "g \<in> set ts" "kind g = Group d inner p q" "toks_depth ts' \<le> toks_depth inner" for g d inner p q ts'
    using assms that tok_depth_le [OF that(1)] group_depth [OF that(2)] by simp
  have "parse_word_atom C (parse_expr_or F atom) w r ts \<noteq> Err ParseFuel" for w
  proof (cases "call_shape_at False ts")
    case (Some x)
    then obtain name args r' where x: "call_shape_at False ts = Some (name, args, r')" by (cases x) auto
    from call_shape_spec [OF this] obtain g p q where "g \<in> set ts" "kind g = Group Paren args p q" by blast
    with inner have "parse_expr_call C (parse_expr_or F atom) name args \<noteq> Err ParseFuel"
      by (intro call_enough) blast
    with x show ?thesis by (simp add: parse_word_atom_def with_rest_fuel)
  qed (simp add: parse_word_atom_def split: option.split)
  moreover have "parse_group C (parse_expr_or F atom) d args \<noteq> Err ParseFuel" if "kind t = Group d args p q" for d args p q
    using inner [of t] that Cons by (intro group_enough) simp
  ultimately show ?thesis by (simp add: atom_of_def Cons with_rest_fuel split: tok_kind.splits)
qed (simp add: atom_of_def)

end

lemma fuel_step:
  assumes "toks_depth ts < n" and "toks_depth ts < m"
  shows "parse_expr_atom C n ts = parse_expr_atom C m ts" and "parse_expr_atom C n ts \<noteq> Err ParseFuel"
  using assms
proof (induction n arbitrary: m ts)
  case (Suc n)
  {
    case 1
    then obtain m' where m: "m = Suc m'" by (cases m) auto
    have "parse_expr_or (pc_floats C) (parse_expr_atom C n) ts' = parse_expr_or (pc_floats C) (parse_expr_atom C m') ts'"
      if "toks_depth ts' < toks_depth ts" for ts'
    proof (rule atoms.or_agrees)
      show "parse_expr_atom C n u = parse_expr_atom C m' u" if "suffix u ts'" for u
        using Suc.IH(1) [of u m'] toks_depth_suffix [OF that] \<open>toks_depth ts' < toks_depth ts\<close> 1 m by simp
    qed
    then show ?case using atoms.atom_of_agrees [of ts C n] m by simp
  next
    case 2
    have "parse_expr_or (pc_floats C) (parse_expr_atom C n) ts' \<noteq> Err ParseFuel"
      if "toks_depth ts' < toks_depth ts" for ts'
    proof (rule atoms.or_enough)
      show "parse_expr_atom C n u \<noteq> Err ParseFuel" if "suffix u ts'" for u
        using Suc.IH(2) [of u n] toks_depth_suffix [OF that] \<open>toks_depth ts' < toks_depth ts\<close> 2 by simp
    qed
    then show ?case using atoms.atom_of_enough [of ts C n C] by simp
  }
qed simp_all

lemma parse_expr_from_fuel:
  assumes "toks_depth ts < n" and "toks_depth ts < m"
  shows "parse_expr_from C n ts = parse_expr_from C m ts" and "parse_expr_from C n ts \<noteq> Err ParseFuel"
proof -
  have d: "toks_depth u < n" "toks_depth u < m" if "suffix u ts" for u
    using toks_depth_suffix [OF that] assms by simp_all
  show "parse_expr_from C n ts = parse_expr_from C m ts"
    unfolding parse_expr_from_def using d fuel_step(1) by (intro atoms.or_agrees) blast
  show "parse_expr_from C n ts \<noteq> Err ParseFuel"
    unfolding parse_expr_from_def using d fuel_step(2) by (intro atoms.or_enough) blast
qed

text \<open>
  Parsing an expression ends: the fuel computed from the nesting of its groups is enough, and
  every larger fuel gives the same result, an expression or an error of the source.
\<close>

theorem expression_parsing_ends:
  "parse_single_expr C ts \<noteq> Err ParseFuel \<and> parse_single_expr_at C (Suc (toks_depth ts) + k) ts = parse_single_expr C ts"
proof -
  have f: "parse_expr_from C (Suc (toks_depth ts) + k) ts = parse_expr_from C (Suc (toks_depth ts)) ts"
    "parse_expr_from C (Suc (toks_depth ts)) ts \<noteq> Err ParseFuel"
    using parse_expr_from_fuel [of ts "Suc (toks_depth ts) + k" "Suc (toks_depth ts)"]
      parse_expr_from_fuel [of ts "Suc (toks_depth ts)" "Suc (toks_depth ts)"] by simp_all
  then show ?thesis
    by (auto simp: parse_single_expr_def parse_single_expr_at_def parse_expr_checked_def result_simps split: if_splits)
qed

end
