(* ===== verification/Expr_Roundtrip.thy ===== *)
theory Expr_Roundtrip
  imports Expr_Parser
begin

text \<open>
  The expression parser against its specification: trees of operators over variables,
  environment reads, integers, strings, lists and calls, printed with only the parentheses that
  precedence and associativity require. Parsing the printed tokens gives the lowering of the
  tree, with the errors of lowering, so the tiers of the parser have the documented precedence
  (or, and, equality, ordering, sum, product, prefix), the chained tiers associate to the left
  and comparisons do not chain.
\<close>

section \<open>Trees and their meaning\<close>

datatype bin = BOr | BAnd | BCmp compare_op | BArith arith_op

datatype src =
    TVar string "string list"
  | TEnv string
  | TNum string
  | TStr string
  | TNot src
  | TNeg src
  | TBin bin src src
  | TList "src list"
  | TCall string "src list"

fun bin_level :: "bin \<Rightarrow> nat" where
  "bin_level BOr = 0"
| "bin_level BAnd = 1"
| "bin_level (BCmp op) = (if op = CEq \<or> op = CNe then 2 else 3)"
| "bin_level (BArith op) = (if op = AAdd \<or> op = ASub then 4 else 5)"

lemma bin_level_le [simp]: "bin_level op \<le> 5" "bin_level op \<noteq> 6" "bin_level op < 7"
  by (cases op; simp)+

fun combine :: "float_ops \<Rightarrow> bin \<Rightarrow> expr \<Rightarrow> expr \<Rightarrow> parse_error + expr" where
  "combine F BOr l r = Ok (ELogical LOr l r)"
| "combine F BAnd l r = lower_and l r"
| "combine F (BCmp op) l r = lower_compare F op l r"
| "combine F (BArith op) l r = lower_arith F op l r"

definition lower_item :: "parse_error + expr \<Rightarrow> parse_error + expr" where
  "lower_item x =
     bind_result x (\<lambda>e. if is_boundary e then Err (Message ''integer overflow: 9223372036854775808 exceeds i64::MAX'') else Ok e)"

definition lower_arg :: "parse_error + expr \<Rightarrow> parse_error + expr" where
  "lower_arg x = bind_result x (\<lambda>e. bind_result (checked e) (\<lambda>_. Ok e))"

fun lower_src :: "parse_ctx \<Rightarrow> src \<Rightarrow> parse_error + expr" where
  "lower_src C (TVar v ks) = Ok (if ks = [] then EVar v else EKeyPath v ks)"
| "lower_src C (TEnv k) = Ok (EEnv k)"
| "lower_src C (TNum s) = lift_error Lowering (classify_numeric_text (pc_floats C) s)"
| "lower_src C (TStr s) = Ok (ELiteral (VStr s))"
| "lower_src C (TNot t) = bind_result (lower_src C t) (\<lambda>e. bind_result (checked e) (\<lambda>_. Ok (ENot e)))"
| "lower_src C (TNeg t) = bind_result (lower_src C t) (\<lambda>e. lift_error Lowering (apply_unary_neg e))"
| "lower_src C (TBin op a b) = bind_result (lower_src C a) (\<lambda>l. bind_result (lower_src C b) (combine (pc_floats C) op l))"
| "lower_src C (TList es) = bind_result (map_result (\<lambda>t. lower_item (lower_src C t)) es) (\<lambda>es. Ok (EList es))"
| "lower_src C (TCall name es) =
     bind_result (map_result (\<lambda>t. lower_arg (lower_src C t)) es) (\<lambda>args.
       if name = ''INSPECT'' then inspect_call args
       else bind_result (resolve_name C name) (\<lambda>q. Ok (ECall q args)))"

text \<open>Names and numbers the lexer delivers as one word.\<close>

fun wf_src :: "src \<Rightarrow> bool" where
  "wf_src (TVar v ks) = (is_ident_word v \<and> list_all is_key_segment ks)"
| "wf_src (TEnv k) = is_upper_name k"
| "wf_src (TNum s) = run_ok s"
| "wf_src (TStr s) = True"
| "wf_src (TNot t) = wf_src t"
| "wf_src (TNeg t) = wf_src t"
| "wf_src (TBin op a b) = (wf_src a \<and> wf_src b)"
| "wf_src (TList es) = list_all wf_src es"
| "wf_src (TCall name es) = (is_upper_name name \<and> list_all wf_src es)"

section \<open>Printing with the fewest parentheses\<close>

abbreviation gap_tok :: "tok_kind \<Rightarrow> tok" where "gap_tok k \<equiv> Tok k False 0 0"
abbreviation joint_tok :: "tok_kind \<Rightarrow> tok" where "joint_tok k \<equiv> Tok k True 0 0"

fun op_chars :: "bin \<Rightarrow> char \<times> char option" where
  "op_chars BOr = (CHR ''|'', Some CHR ''|'')"
| "op_chars BAnd = (CHR ''&'', Some CHR ''&'')"
| "op_chars (BCmp CEq) = (CHR ''='', Some CHR ''='')"
| "op_chars (BCmp CNe) = (CHR ''!'', Some CHR ''='')"
| "op_chars (BCmp CLt) = (CHR ''<'', None)"
| "op_chars (BCmp CLe) = (CHR ''<'', Some CHR ''='')"
| "op_chars (BCmp CGt) = (CHR ''>'', None)"
| "op_chars (BCmp CGe) = (CHR ''>'', Some CHR ''='')"
| "op_chars (BArith AAdd) = (CHR ''+'', None)"
| "op_chars (BArith ASub) = (CHR ''-'', None)"
| "op_chars (BArith AMul) = (CHR ''*'', None)"
| "op_chars (BArith ADiv) = (CHR ''/'', None)"

definition op_toks :: "bin \<Rightarrow> tok list" where
  "op_toks op =
     (case op_chars op of (c, d) \<Rightarrow> gap_tok (Punct c) # (case d of None \<Rightarrow> [] | Some c2 \<Rightarrow> [joint_tok (Punct c2)]))"

definition parens :: "bool \<Rightarrow> tok list \<Rightarrow> tok list" where
  "parens b ts = (if b then [gap_tok (Group Paren ts False False)] else ts)"

abbreviation comma :: tok where "comma \<equiv> gap_tok (Punct CHR '','')"

fun commas :: "tok list list \<Rightarrow> tok list" where
  "commas [] = []"
| "commas [ts] = ts"
| "commas (ts # tss) = ts @ comma # commas tss"

definition left_level :: "bin \<Rightarrow> nat" where
  "left_level op = (case op of BCmp _ \<Rightarrow> Suc (bin_level op) | _ \<Rightarrow> bin_level op)"

fun print_at :: "nat \<Rightarrow> src \<Rightarrow> tok list" where
  "print_at l (TVar v ks) =
     gap_tok (Punct CHR ''$'') # joint_tok (Word v) # concat (map (\<lambda>k. [joint_tok (Punct CHR ''.''), joint_tok (Word k)]) ks)"
| "print_at l (TEnv k) = [gap_tok (Word ''env''), joint_tok (Punct CHR '':''), joint_tok (Word k)]"
| "print_at l (TNum s) = [gap_tok (Word s)]"
| "print_at l (TStr s) = [gap_tok (Str s CHR 0x22)]"
| "print_at l (TNot t) = parens (6 < l) (gap_tok (Punct CHR ''!'') # print_at 6 t)"
| "print_at l (TNeg t) = parens (6 < l) (gap_tok (Punct CHR ''-'') # print_at 6 t)"
| "print_at l (TBin op a b) = parens (bin_level op < l) (print_at (left_level op) a @ op_toks op @ print_at (Suc (bin_level op)) b)"
| "print_at l (TList es) = [gap_tok (Group Bracket (commas (map (print_at 0) es)) False False)]"
| "print_at l (TCall name es) = [gap_tok (Word name), gap_tok (Group Paren (commas (map (print_at 0) es)) False False)]"

definition print_src :: "src \<Rightarrow> tok list" where
  "print_src t = print_at 0 t"

section \<open>What may start and follow a phrase\<close>

fun starts_phrase :: "tok_kind \<Rightarrow> bool" where
  "starts_phrase (Word w) = True"
| "starts_phrase (Str s q) = True"
| "starts_phrase (Group d inner a b) = True"
| "starts_phrase (Punct c) = (c = CHR ''$'' \<or> c = CHR ''!'' \<or> c = CHR ''-'')"
| "starts_phrase _ = False"

lemma print_at_start: "\<exists>k r. print_at l t = gap_tok k # r \<and> starts_phrase k"
  by (induction l t rule: print_at.induct) (auto simp: parens_def)

text \<open>A phrase at a level is followed by the end, a comma, or an operator of a lower level.\<close>

inductive follows :: "nat \<Rightarrow> tok list \<Rightarrow> bool" where
  at_end: "follows l []"
| at_comma: "follows l (comma # r)"
| at_op: "starts_phrase k \<Longrightarrow> bin_level op < l \<Longrightarrow> follows l (op_toks op @ gap_tok k # r)"

lemma follows_mono: "follows l tail \<Longrightarrow> l \<le> l' \<Longrightarrow> follows l' tail"
  by (induction rule: follows.induct) (auto intro: follows.intros)

lemma follows_op: "bin_level op < l \<Longrightarrow> follows l (op_toks op @ print_at l' t @ r)"
  using print_at_start [of l' t] at_op by fastforce

lemma skip_gap_start: "starts_phrase k \<Longrightarrow> skip_gap (gap_tok k # r) = gap_tok k # r"
  by (cases k) auto

lemma skip_gap_nl_start: "starts_phrase k \<Longrightarrow> skip_gap_nl (gap_tok k # r) = gap_tok k # r"
  using skip_gap_start [of k r] by (subst skip_gap_nl.simps) (cases k; simp add: is_newline_def)

lemma skip_gap_op: "starts_phrase k \<Longrightarrow> skip_gap (op_toks op @ gap_tok k # r) = op_toks op @ gap_tok k # r"
  by (cases op rule: op_chars.cases) (simp_all add: op_toks_def joint_pair_def)

lemma skip_gap_comma: "skip_gap (comma # r) = comma # r" "skip_gap_nl (comma # r) = comma # r" "skip_gap_nl [] = []"
  by (simp_all add: skip_gap_nl.simps is_newline_def)

lemma skip_gap_print: "skip_gap (print_at l t @ r) = print_at l t @ r" "skip_gap_nl (print_at l t @ r) = print_at l t @ r"
  using print_at_start [of l t] skip_gap_start skip_gap_nl_start by force+

lemma skip_gap_follows: "follows l tail \<Longrightarrow> skip_gap tail = tail"
  by (induction rule: follows.induct) (simp_all only: skip_gap_op skip_gap_comma skip_gap.simps(1))

section \<open>Operators of a tier\<close>

text \<open>The table of a tier: its operators are read back, and what may follow a phrase of the tier
  is left alone.\<close>

definition reads_tier :: "nat \<Rightarrow> (char \<times> char option \<times> 'op) list \<Rightarrow> (bin \<Rightarrow> 'op) \<Rightarrow> bool" where
  "reads_tier l ops key \<longleftrightarrow>
     (\<forall>op k r. bin_level op = l \<longrightarrow> starts_phrase k \<longrightarrow>
        eat_first ops (op_toks op @ gap_tok k # r) = (Some (key op), gap_tok k # r)) \<and>
     (\<forall>tail. follows l tail \<longrightarrow> eat_first ops tail = (None, tail))"

lemma eat_op_miss: "kind a \<noteq> Punct c \<Longrightarrow> skip_gap (a # r) = a # r \<Longrightarrow> eat_op c d (a # r) = (False, a # r)"
  by (simp add: eat_op_def)

lemma op_toks_Cons: "op_toks op = gap_tok (Punct (fst (op_chars op))) # (case snd (op_chars op) of None \<Rightarrow> [] | Some c \<Rightarrow> [joint_tok (Punct c)])"
  by (simp add: op_toks_def split: prod.splits)

lemma eat_op_at:
  assumes "starts_phrase k"
  shows "eat_op c d (op_toks op @ gap_tok k # r) =
     (case op_chars op of (c', d') \<Rightarrow>
        if c \<noteq> c' then (False, op_toks op @ gap_tok k # r)
        else (case d of
                None \<Rightarrow> (True, (case d' of None \<Rightarrow> [] | Some y \<Rightarrow> [joint_tok (Punct y)]) @ gap_tok k # r)
              | Some x \<Rightarrow> if d' = Some x then (True, gap_tok k # r) else (False, op_toks op @ gap_tok k # r)))"
  unfolding eat_op_def skip_gap_op [OF assms]
  by (simp add: op_toks_def split: prod.splits option.splits)

lemma eat_first_end: "eat_first ops [] = (None, [])"
  by (induction ops) (auto simp: eat_op_def)

lemma eat_first_comma: "list_all (\<lambda>(c, d, op). c \<noteq> CHR '','') ops \<Longrightarrow> eat_first ops (comma # r) = (None, comma # r)"
  by (induction ops) (auto simp: eat_op_def skip_gap_comma split: prod.splits)

lemma reads_tierI:
  assumes "list_all (\<lambda>(c, d, op). c \<noteq> CHR '','') ops"
    and "\<And>op k r. \<lbrakk>bin_level op = l; starts_phrase k\<rbrakk> \<Longrightarrow> eat_first ops (op_toks op @ gap_tok k # r) = (Some (key op), gap_tok k # r)"
    and "\<And>op k r. \<lbrakk>bin_level op < l; starts_phrase k\<rbrakk> \<Longrightarrow> eat_first ops (op_toks op @ gap_tok k # r) = (None, op_toks op @ gap_tok k # r)"
  shows "reads_tier l ops key"
proof -
  have "eat_first ops tail = (None, tail)" if "follows l tail" for tail
    using that by cases (simp_all add: eat_first_end eat_first_comma assms)
  with assms(2) show ?thesis by (simp add: reads_tier_def)
qed

fun arith_of :: "bin \<Rightarrow> arith_op" where
  "arith_of (BArith op) = op"
| "arith_of _ = AAdd"

fun compare_of :: "bin \<Rightarrow> compare_op" where
  "compare_of (BCmp op) = op"
| "compare_of _ = CEq"

abbreviation "mul_ops \<equiv> [(CHR ''*'', None, AMul), (CHR ''/'', None, ADiv)]"
abbreviation "add_ops \<equiv> [(CHR ''+'', None, AAdd), (CHR ''-'', None, ASub)]"
abbreviation "ord_ops \<equiv>
  [(CHR ''<'', Some CHR ''='', CLe), (CHR ''>'', Some CHR ''='', CGe), (CHR ''<'', None, CLt), (CHR ''>'', None, CGt)]"
abbreviation "cmp_ops \<equiv> [(CHR ''='', Some CHR ''='', CEq), (CHR ''!'', Some CHR ''='', CNe)]"

lemma tier_reads:
  "reads_tier 5 mul_ops arith_of" "reads_tier 4 add_ops arith_of" "reads_tier 3 ord_ops compare_of"
  "reads_tier 2 cmp_ops compare_of" "reads_tier 1 [(CHR ''&'', Some CHR ''&'', ())] (\<lambda>_. ())"
  "reads_tier 0 [(CHR ''|'', Some CHR ''|'', ())] (\<lambda>_. ())"
  by (rule reads_tierI;
      (simp; fail | rename_tac op k r, case_tac op rule: op_chars.cases; simp add: eat_op_at))+

section \<open>Inverting one tier\<close>

definition inverts :: "parse_ctx \<Rightarrow> nat \<Rightarrow> nat \<Rightarrow> parser \<Rightarrow> bool" where
  "inverts C n l p \<longleftrightarrow>
     (\<forall>t tail. wf_src t \<longrightarrow> toks_depth (print_at l t) < n \<longrightarrow> follows l tail \<longrightarrow>
        p (print_at l t @ tail) = bind_result (lower_src C t) (\<lambda>e. Ok (e, tail)))"

lemma invertsD:
  "\<lbrakk>inverts C n l p; wf_src t; toks_depth (print_at l t) < n; follows l tail\<rbrakk> \<Longrightarrow>
   p (print_at l t @ tail) = bind_result (lower_src C t) (\<lambda>e. Ok (e, tail))"
  by (simp add: inverts_def)

fun src_level :: "src \<Rightarrow> nat" where
  "src_level (TBin op a b) = bin_level op"
| "src_level (TNot t) = 6"
| "src_level (TNeg t) = 6"
| "src_level _ = 7"

lemma print_at_up: "src_level t \<noteq> l \<Longrightarrow> l \<le> 6 \<Longrightarrow> print_at l t = print_at (Suc l) t"
  by (cases t) (auto simp: parens_def)

lemma bind_result_assoc: "bind_result (bind_result x f) g = bind_result x (\<lambda>a. bind_result (f a) g)"
  by (cases x) simp_all

lemma bind_result_Ok [simp]: "bind_result x Ok = x"
  by (cases x) simp_all

context operand_parser
begin

lemma chain_reads:
  assumes operand: "inverts C n (Suc l) operand" and reads: "reads_tier l ops key" and l: "l < 6"
    and left: "\<And>op. bin_level op = l \<Longrightarrow> left_level op = l"
    and build: "\<And>op. bin_level op = l \<Longrightarrow> build (key op) = combine (pc_floats C) op"
    and t: "wf_src t" "toks_depth (print_at l t) < n" "follows (Suc l) tail"
  shows "chain_tier (eat_first ops) operand build (print_at l t @ tail) =
     bind_result (lower_src C t) (\<lambda>e. chain (Suc (length tail)) (eat_first ops) operand build e tail)"
proof -
  have one: "chain_tier (eat_first ops) operand build (print_at l t @ tail) =
      bind_result (lower_src C t) (\<lambda>e. chain (Suc (length tail)) (eat_first ops) operand build e tail)"
    if "src_level t \<noteq> l" "wf_src t" "toks_depth (print_at l t) < n" "follows (Suc l) tail" for t tail
  proof -
    have "operand (print_at (Suc l) t @ tail) = bind_result (lower_src C t) (\<lambda>x. Ok (x, tail))"
      using operand that print_at_up [OF that(1)] l by (intro invertsD) simp_all
    then show ?thesis
      by (simp add: chain_tier_def print_at_up [OF that(1)] l less_imp_le bind_result_assoc del: chain.simps)
  qed
  show ?thesis
    using t
  proof (induction t arbitrary: tail)
    case (TBin op a b)
    show ?case
    proof (cases "bin_level op = l")
      case True
      let ?b = "print_at (Suc l) b @ tail" and ?chain = "\<lambda>m. chain m (eat_first ops) operand build"
      from print_at_start [of "Suc l" b] obtain k r where k: "print_at (Suc l) b = gap_tok k # r" "starts_phrase k" by blast
      have split: "print_at l (TBin op a b) @ tail = print_at l a @ op_toks op @ ?b"
        using True left [OF True] by (simp add: parens_def)
      have d: "toks_depth (print_at l a) < n" "toks_depth (print_at (Suc l) b) < n"
        using TBin.prems(2) True left [OF True] by (simp_all add: parens_def)
      have eat: "eat_first ops (op_toks op @ ?b) = (Some (key op), ?b)"
        using reads True k by (simp add: reads_tier_def)
      have "?chain (Suc (length (op_toks op @ ?b))) e (op_toks op @ ?b) =
          bind_result (lower_src C b) (\<lambda>x. bind_result (combine (pc_floats C) op e x) (\<lambda>y. ?chain (Suc (length tail)) y tail))" for e
      proof -
        have "operand (skip_gap ?b) = bind_result (lower_src C b) (\<lambda>x. Ok (x, tail))"
          unfolding skip_gap_print using operand TBin.prems d by (intro invertsD) simp_all
        moreover have "?chain (length (op_toks op @ ?b)) y tail = ?chain (Suc (length tail)) y tail" for y
          using k by (intro chain_fuel) (simp_all add: op_toks_Cons)
        ultimately show ?thesis
          by (simp only: chain.simps eat prod.case option.case bind_result_assoc bind_result.simps build [OF True])
      qed
      moreover have "chain_tier (eat_first ops) operand build (print_at l a @ op_toks op @ ?b) =
          bind_result (lower_src C a) (\<lambda>e. ?chain (Suc (length (op_toks op @ ?b))) e (op_toks op @ ?b))"
        using TBin.prems True d by (intro TBin.IH(1) follows_op) simp_all
      ultimately show ?thesis unfolding split by (simp only: lower_src.simps bind_result_assoc)
    next
      case False
      with TBin.prems show ?thesis by (intro one) simp_all
    qed
  qed (rule one, use l in simp, assumption+)+
qed

lemma chain_inverts:
  assumes "inverts C n (Suc l) operand" and reads: "reads_tier l ops key" and "l < 6"
    and "\<And>op. bin_level op = l \<Longrightarrow> left_level op = l"
    and "\<And>op. bin_level op = l \<Longrightarrow> build (key op) = combine (pc_floats C) op"
  shows "inverts C n l (chain_tier (eat_first ops) operand build)"
  unfolding inverts_def
proof (intro allI impI)
  fix t tail assume t: "wf_src t" "toks_depth (print_at l t) < n" and tail: "follows l tail"
  from tail have "chain_tier (eat_first ops) operand build (print_at l t @ tail) =
      bind_result (lower_src C t) (\<lambda>e. chain (Suc (length tail)) (eat_first ops) operand build e tail)"
    using t follows_mono [of l tail "Suc l"] by (intro chain_reads [OF assms]) simp_all
  moreover have "eat_first ops tail = (None, tail)" using reads tail by (simp add: reads_tier_def)
  ultimately show "chain_tier (eat_first ops) operand build (print_at l t @ tail) = bind_result (lower_src C t) (\<lambda>e. Ok (e, tail))"
    by simp
qed

lemma compare_inverts:
  assumes operand: "inverts C n (Suc l) operand" and reads: "reads_tier l ops compare_of" and l: "l = 2 \<or> l = 3"
    and chained: "\<And>tail. follows l tail \<Longrightarrow> reject_chained_compare b tail = Ok ()"
  shows "inverts C n l (compare_tier ops b (pc_floats C) operand)"
  unfolding inverts_def
proof (intro allI impI)
  fix t tail assume t: "wf_src t" "toks_depth (print_at l t) < n" and tail: "follows l tail"
  have none: "eat_first ops tail = (None, tail)" using reads tail by (simp add: reads_tier_def)
  have tail': "follows (Suc l) tail" using tail by (rule follows_mono) simp
  show "compare_tier ops b (pc_floats C) operand (print_at l t @ tail) = bind_result (lower_src C t) (\<lambda>e. Ok (e, tail))"
  proof (cases "src_level t = l")
    case True
    with l obtain op x y where t': "t = TBin op x y" and op: "bin_level op = l" by (cases t) auto
    then obtain cop where cop: "op = BCmp cop" using l by (cases op) (auto split: if_splits)
    let ?y = "print_at (Suc l) y @ tail"
    from print_at_start [of "Suc l" y] obtain k r where k: "print_at (Suc l) y = gap_tok k # r" "starts_phrase k" by blast
    have split: "print_at l t @ tail = print_at (Suc l) x @ op_toks op @ ?y"
      using op cop by (simp add: t' parens_def left_level_def)
    have d: "toks_depth (print_at (Suc l) x) < n" "toks_depth (print_at (Suc l) y) < n"
      using t op cop by (simp_all add: t' parens_def left_level_def)
    have "operand (print_at (Suc l) x @ op_toks op @ ?y) = bind_result (lower_src C x) (\<lambda>e. Ok (e, op_toks op @ ?y))"
      using t t' d op by (intro invertsD [OF operand] follows_op) simp_all
    moreover have "operand (skip_gap ?y) = bind_result (lower_src C y) (\<lambda>e. Ok (e, tail))"
      unfolding skip_gap_print using t t' d tail' by (intro invertsD [OF operand]) simp_all
    moreover have "eat_first ops (op_toks op @ ?y) = (Some cop, ?y)"
      using reads op k cop by (simp add: reads_tier_def)
    ultimately show ?thesis
      unfolding split by (simp add: compare_tier_def bind_result_assoc chained [OF tail] t' cop)
  next
    case False
    then have up: "print_at l t = print_at (Suc l) t" using l by (intro print_at_up) auto
    have "operand (print_at (Suc l) t @ tail) = bind_result (lower_src C t) (\<lambda>e. Ok (e, tail))"
      using t tail' up by (intro invertsD [OF operand]) simp_all
    then show ?thesis by (simp add: compare_tier_def up bind_result_assoc none)
  qed
qed

end

lemma follows_head:
  "follows l tail \<Longrightarrow>
   tail = [] \<or> (\<exists>c r. tail = gap_tok (Punct c) # r \<and> (c = CHR '','' \<or> (\<exists>op. bin_level op < l \<and> c = fst (op_chars op))))"
  by (induction rule: follows.induct) (auto simp: op_toks_Cons)

lemma low_op_chars:
  "bin_level op < 3 \<Longrightarrow> fst (op_chars op) \<noteq> CHR ''<'' \<and> fst (op_chars op) \<noteq> CHR ''>''"
  "bin_level op < 2 \<Longrightarrow> fst (op_chars op) = CHR ''|'' \<or> fst (op_chars op) = CHR ''&''"
  by (cases op rule: op_chars.cases; simp)+

lemma follows_not_compare:
  "follows 3 tail \<Longrightarrow> reject_chained_compare True tail = Ok ()"
  "follows 2 tail \<Longrightarrow> reject_chained_compare False tail = Ok ()"
  by (frule follows_head, auto simp: reject_chained_compare_def skip_gap_follows dest: low_op_chars)+

section \<open>Prefixes\<close>

fun core :: "src \<Rightarrow> src" where
  "core (TNot t) = core t"
| "core (TNeg t) = core t"
| "core t = t"

fun signs :: "src \<Rightarrow> bool list" where
  "signs (TNot t) = False # signs t"
| "signs (TNeg t) = True # signs t"
| "signs t = []"

lemma atom_start: "src_level t \<noteq> 6 \<Longrightarrow> \<exists>k r. print_at 7 t = gap_tok k # r \<and> starts_phrase k \<and> k \<noteq> Punct CHR ''!'' \<and> k \<noteq> Punct CHR ''-''"
  by (cases t) (auto simp: parens_def)

lemma core_level: "src_level (core t) \<noteq> 6"
  by (induction t rule: core.induct) simp_all

lemma prefixes_atom: "src_level t \<noteq> 6 \<Longrightarrow> prefixes_at (print_at 6 t @ tail) = ([], print_at 7 t @ tail)"
  using atom_start [of t] print_at_up [of t 6] by (auto simp: numeral_eq_Suc)

lemma prefixes_core: "prefixes_at (print_at 6 t @ tail) = (signs t, print_at 7 (core t) @ tail)"
proof (induction t rule: core.induct)
  case (1 t)
  then show ?case by (simp add: parens_def skip_gap_print)
next
  case (2 t)
  obtain k r where "print_at 6 t = gap_tok k # r" using print_at_start [of 6 t] by blast
  then have "\<not> dash_is_bare (print_at 6 t @ tail)" by (simp add: dash_is_bare_def)
  with 2 show ?case by (simp add: parens_def skip_gap_print)
qed (use prefixes_atom in \<open>simp_all del: print_at.simps prefixes_at.simps\<close>)

lemma lower_core: "lower_src C t = bind_result (lower_src C (core t)) (apply_prefixes (signs t))"
  by (induction t rule: core.induct) (simp_all add: bind_result_assoc)

lemma wf_core: "wf_src t \<Longrightarrow> wf_src (core t)"
  by (induction t rule: core.induct) simp_all

lemma unary_inverts:
  assumes "inverts C n 7 atom"
  shows "inverts C n 6 (parse_expr_unary atom)"
  unfolding inverts_def
proof (intro allI impI)
  fix t tail assume t: "wf_src t" "toks_depth (print_at 6 t) < n" and tail: "follows 6 tail"
  have "suffix (print_at 7 (core t)) (print_at 6 t)"
    using prefixes_at_suffix [OF prefixes_core [of t "[]"]] by simp
  then have "toks_depth (print_at 7 (core t)) < n" using toks_depth_suffix t(2) by fastforce
  then have "atom (print_at 7 (core t) @ tail) = bind_result (lower_src C (core t)) (\<lambda>e. Ok (e, tail))"
    using t tail follows_mono [of 6 tail 7] by (intro invertsD [OF assms] wf_core) simp_all
  then show "parse_expr_unary atom (print_at 6 t @ tail) = bind_result (lower_src C t) (\<lambda>e. Ok (e, tail))"
    by (simp add: parse_expr_unary_def prefixes_core bind_result_assoc lower_core [of C t])
qed

section \<open>Atoms\<close>

lemma follows_stops:
  assumes "follows l tail"
  shows "key_path tail = ([], tail)" and "number_tails tail = ([], tail)" and "\<not> number_falls_to_bare tail"
proof -
  from follows_head [OF assms] consider "tail = []" | c r where "tail = gap_tok (Punct c) # r" by blast
  then have "key_path tail = ([], tail) \<and> number_tails tail = ([], tail) \<and> \<not> number_falls_to_bare tail"
  proof cases
    case (2 c r)
    then show ?thesis by (cases r) (simp_all add: number_falls_to_bare_def split: tok_kind.splits)
  qed (simp add: number_falls_to_bare_def)
  then show "key_path tail = ([], tail)" "number_tails tail = ([], tail)" "\<not> number_falls_to_bare tail" by simp_all
qed

lemma key_path_print:
  "list_all is_key_segment ks \<Longrightarrow> follows l tail \<Longrightarrow>
   key_path (concat (map (\<lambda>k. [joint_tok (Punct CHR ''.''), joint_tok (Word k)]) ks) @ tail) = (ks, tail)"
  by (induction ks) (simp_all add: follows_stops)

lemma map_result_Cons_bind:
  "map_result f (x # xs) = bind_result (f x) (\<lambda>y. bind_result (map_result f xs) (\<lambda>ys. Ok (y # ys)))"
  by (simp split: sum.splits)

lemma commas_Cons: "\<exists>more. commas (map (print_at 0) (t # ts)) = print_at 0 t @ more \<and> follows 0 more"
  by (cases ts) (auto intro: at_end at_comma)

lemma commas_length: "length ts \<le> length (commas (map (print_at 0) ts))"
proof (induction ts rule: induct_list012)
  case (2 t)
  then show ?case using print_at_start [of 0 t] by auto
qed auto

lemma comma_items_print:
  assumes "\<And>t tail. t \<in> set ts \<Longrightarrow> follows 0 tail \<Longrightarrow> p (print_at 0 t @ tail) = bind_result (g t) (\<lambda>e. Ok (e, tail))"
    and "ts \<noteq> []" and "length ts \<le> n"
  shows "comma_items n p (commas (map (print_at 0) ts)) = bind_result (map_result (\<lambda>t. lower_arg (g t)) ts) (\<lambda>es. Ok (es, []))"
  using assms
proof (induction ts arbitrary: n rule: induct_list012)
  case (2 t)
  then obtain m where "n = Suc m" by (cases n) auto
  with 2(1) [of t "[]"] show ?case
    by (simp add: at_end skip_gap_comma lower_arg_def bind_result_assoc map_result_Cons_bind del: map_result.simps(2))
next
  case (3 t u ts)
  then obtain m where m: "n = Suc m" by (cases n) auto
  let ?more = "commas (print_at 0 u # map (print_at 0) ts)"
  obtain more where "?more = print_at 0 u @ more" using commas_Cons [of u ts] by auto
  then have skip: "skip_gap_nl ?more = ?more" by (simp only: skip_gap_print)
  have "comma_items m p ?more = bind_result (map_result (\<lambda>t. lower_arg (g t)) (u # ts)) (\<lambda>es. Ok (es, []))"
    using "3.IH"(2) [of m] "3.prems" m by simp
  moreover have "p (print_at 0 t @ comma # ?more) = bind_result (g t) (\<lambda>e. Ok (e, comma # ?more))"
    using "3.prems"(1) by (simp add: at_comma)
  ultimately show ?case
    by (simp add: m skip skip_gap_comma lower_arg_def bind_result_assoc map_result_Cons_bind [of _ t]
        del: map_result.simps(2))
qed simp

lemma group_items_print:
  assumes "\<And>t tail. t \<in> set ts \<Longrightarrow> follows 0 tail \<Longrightarrow> p (print_at 0 t @ tail) = bind_result (g t) (\<lambda>e. Ok (e, tail))"
  shows "group_items msg p (commas (map (print_at 0) ts)) = map_result (\<lambda>t. lower_arg (g t)) ts"
proof (cases ts)
  case (Cons t ts')
  let ?all = "commas (map (print_at 0) ts)"
  obtain more where all: "?all = print_at 0 t @ more" using commas_Cons Cons by blast
  obtain k r where k: "print_at 0 t = gap_tok k # r" using print_at_start by blast
  have "skip_gap_nl ?all = ?all" unfolding all by (rule skip_gap_print)
  moreover have "comma_items (Suc (length ?all)) p ?all = bind_result (map_result (\<lambda>t. lower_arg (g t)) ts) (\<lambda>es. Ok (es, []))"
    using assms Cons commas_length [of ts] by (intro comma_items_print) simp_all
  moreover have "?all = gap_tok k # r @ more" using all k by simp
  ultimately show ?thesis
    by (simp add: group_items_def bind_result_assoc del: comma_items.simps map_result.simps)
qed (simp add: group_items_def skip_gap_comma)

lemma run_ok_head: "run_ok s \<Longrightarrow> s \<noteq> [] \<and> is_ascii_digit (hd s)"
  by (cases s) (auto simp: run_ok_def)

lemma run_ok_shape: "run_ok s \<Longrightarrow> numeric_shape_ok s"
proof -
  assume r: "run_ok s"
  then have "CHR ''.'' \<notin> set s" by (auto simp: run_ok_def list_all_iff char_class_defs)
  then have "split_on CHR ''.'' s = [s]" by (induction s) auto
  with r show ?thesis by (simp add: numeric_shape_ok_def)
qed

lemma digit_not_upper: "is_ascii_digit c \<Longrightarrow> \<not> is_ascii_uppercase c"
  by (simp add: char_class_defs)

lemma number_word:
  assumes "run_ok s" and "follows l tail"
  shows "parse_word_atom C p s tail (gap_tok (Word s) # tail) =
     bind_result (lift_error Lowering (classify_numeric_text (pc_floats C) s)) (\<lambda>e. Ok (e, tail))"
proof -
  have "call_shape_at False (gap_tok (Word s) # tail) = None"
    using run_ok_head [OF assms(1)] digit_not_upper by (simp add: call_shape_at_def is_upper_name_def)
  moreover have "s \<noteq> ''env''" using run_ok_head [OF assms(1)] by (auto simp: char_class_defs)
  ultimately show ?thesis
    using run_ok_head [OF assms(1)] run_ok_shape [OF assms(1)] follows_stops [OF assms(2)]
    by (simp add: parse_word_atom_def parse_numeric_atom_def number_head_def)
qed

lemma parens_print:
  assumes "inverts C n 0 p" and "wf_src t" and "toks_depth (print_at 0 t) < n"
  shows "parse_parens p (print_at 0 t) = lower_src C t"
  using invertsD [OF assms at_end] skip_gap_print(2) [of 0 t "[]"]
  by (simp add: parse_parens_def bind_result_assoc skip_gap_comma)

lemma commas_depth: "t \<in> set ts \<Longrightarrow> toks_depth (print_at 0 t) \<le> toks_depth (commas (map (print_at 0) ts))"
  by (induction ts rule: induct_list012) auto

lemma lower_arg_item: "lower_arg (lower_item x) = lower_item x"
proof -
  have "checked e = Ok ()" if "\<not> is_boundary e" for e using that by (cases e) (simp_all add: checked_def)
  then show ?thesis by (cases x) (simp_all add: lower_arg_def lower_item_def)
qed

lemma list_print:
  assumes "inverts C n 0 p" and "list_all wf_src ts" and "toks_depth (commas (map (print_at 0) ts)) < n"
  shows "parse_list_literal p (commas (map (print_at 0) ts)) = lower_src C (TList ts)"
    and "parse_call_args p (commas (map (print_at 0) ts)) = map_result (\<lambda>t. lower_arg (lower_src C t)) ts"
proof -
  have p: "p (print_at 0 t @ tail) = bind_result (lower_src C t) (\<lambda>e. Ok (e, tail))"
    if "t \<in> set ts" "follows 0 tail" for t tail
    using that assms commas_depth [OF that(1)] by (intro invertsD [OF assms(1)]) (simp_all add: list_all_iff)
  then have "parse_expr_checked p (print_at 0 t @ tail) = bind_result (lower_item (lower_src C t)) (\<lambda>e. Ok (e, tail))"
    if "t \<in> set ts" "follows 0 tail" for t tail
    using that by (cases "lower_src C t") (simp_all add: parse_expr_checked_def lower_item_def)
  from group_items_print [OF this]
  show "parse_list_literal p (commas (map (print_at 0) ts)) = lower_src C (TList ts)"
    by (simp add: parse_list_literal_def lower_arg_item)
  show "parse_call_args p (commas (map (print_at 0) ts)) = map_result (\<lambda>t. lower_arg (lower_src C t)) ts"
    using group_items_print [OF p] by (simp add: parse_call_args_def)
qed

lemma call_print:
  "is_upper_name name \<Longrightarrow>
   call_shape_at False (gap_tok (Word name) # gap_tok (Group Paren inner a b) # tail) = Some (name, inner, tail)"
  by (cases tail; cases "tl tail") (simp_all add: call_shape_at_def split: tok_kind.splits)

lemma atom_inverts:
  assumes or: "inverts C n 0 p"
  shows "inverts C (Suc n) 7 (atom_of C p)"
  unfolding inverts_def
proof (intro allI impI)
  fix t tail assume t: "wf_src t" "toks_depth (print_at 7 t) < Suc n" and tail: "follows 7 tail"
  have grouped: "atom_of C p (print_at 7 t @ tail) = bind_result (lower_src C t) (\<lambda>e. Ok (e, tail))"
    if "print_at 7 t = [gap_tok (Group Paren (print_at 0 t) False False)]"
    using that t parens_print [OF or t(1)]
    by (simp add: atom_of_def parse_group_def with_rest_def toks_depth_def)
  show "atom_of C p (print_at 7 t @ tail) = bind_result (lower_src C t) (\<lambda>e. Ok (e, tail))"
  proof (cases t)
    case (TVar v ks)
    with t key_path_print [of ks 7 tail] tail show ?thesis by (simp add: atom_of_def parse_variable_def)
  next
    case (TEnv k)
    with t show ?thesis
      by (simp add: atom_of_def parse_word_atom_def call_shape_at_def env_read_def is_upper_name_def char_class_defs)
  next
    case (TNum s)
    with t number_word [OF _ tail] show ?thesis by (simp add: atom_of_def)
  next
    case (TList es)
    with t list_print(1) [OF or] show ?thesis
      by (simp add: atom_of_def parse_group_def with_rest_def toks_depth_def)
  next
    case (TCall name es)
    with t list_print(2) [OF or] call_print show ?thesis
      by (simp add: atom_of_def parse_word_atom_def with_rest_def parse_expr_call_def toks_depth_def bind_result_assoc)
  qed (use grouped in \<open>simp_all add: parens_def atom_of_def\<close>)
qed

section \<open>The whole parser\<close>

lemma tier_left: "bin_level op = 0 \<or> bin_level op = 1 \<or> bin_level op = 4 \<or> bin_level op = 5 \<Longrightarrow> left_level op = bin_level op"
  by (cases op) (auto simp: left_level_def split: if_splits)

lemma tier_build:
  "bin_level op = 5 \<Longrightarrow> lower_arith F (arith_of op) = combine F op"
  "bin_level op = 4 \<Longrightarrow> lower_arith F (arith_of op) = combine F op"
  "bin_level op = 1 \<Longrightarrow> lower_and = combine F op"
  "bin_level op = 0 \<Longrightarrow> (\<lambda>l r. Ok (ELogical LOr l r)) = combine F op"
  by (cases op; intro ext; simp split: if_splits)+

lemma from_inverts: "inverts C n 0 (parse_expr_from C n)"
proof (induction n)
  case 0
  show ?case by (simp add: inverts_def)
next
  case (Suc n)
  let ?F = "pc_floats C" and ?A = "parse_expr_atom C (Suc n)"
  have "?A = atom_of C (parse_expr_from C n)" by (rule ext) (simp add: parse_expr_from_def)
  then have "inverts C (Suc n) 7 ?A" using atom_inverts [OF Suc] by simp
  then have unary: "inverts C (Suc n) 6 (parse_expr_unary ?A)" by (rule unary_inverts)
  have mul: "inverts C (Suc n) 5 (parse_expr_mul ?F ?A)"
    unfolding parse_expr_mul_def using unary
    by (intro atoms.un.chain_inverts [OF _ tier_reads(1)]) (simp_all add: tier_left tier_build(1))
  have add: "inverts C (Suc n) 4 (parse_expr_add ?F ?A)"
    unfolding parse_expr_add_def using mul
    by (intro atoms.mul.chain_inverts [OF _ tier_reads(2)]) (simp_all add: tier_left tier_build(2))
  have ord: "inverts C (Suc n) 3 (parse_expr_ord ?F ?A)"
    unfolding parse_expr_ord_def using add
    by (intro atoms.add.compare_inverts [OF _ tier_reads(3)])
      (simp_all add: follows_not_compare)
  have cmp: "inverts C (Suc n) 2 (parse_expr_cmp ?F ?A)"
    unfolding parse_expr_cmp_def using ord
    by (intro atoms.ord.compare_inverts [OF _ tier_reads(4)])
      (simp_all add: follows_not_compare)
  have conj: "inverts C (Suc n) 1 (parse_expr_and ?F ?A)"
    unfolding parse_expr_and_def using cmp
    by (intro atoms.cmp.chain_inverts [OF _ tier_reads(5)]) (simp_all add: tier_left tier_build(3) flip: numeral_2_eq_2)
  have "inverts C (Suc n) 0 (parse_expr_or ?F ?A)"
    unfolding parse_expr_or_def using conj
    by (intro atoms.conj.chain_inverts [OF _ tier_reads(6)]) (simp_all add: tier_left tier_build(4))
  then show ?case by (simp add: parse_expr_from_def)
qed

lemma parse_print:
  assumes "wf_src t"
  shows "parse_single_expr C (print_src t) = lower_item (lower_src C t)"
proof -
  have "parse_expr_from C (Suc (toks_depth (print_at 0 t))) (print_at 0 t @ []) =
      bind_result (lower_src C t) (\<lambda>e. Ok (e, []))"
    using from_inverts assms by (rule invertsD) (simp_all add: at_end)
  then show ?thesis
    by (cases "lower_src C t")
      (simp_all add: parse_single_expr_def parse_single_expr_at_def parse_expr_checked_def print_src_def lower_item_def)
qed

definition sample_ctx :: parse_ctx where
  "sample_ctx =
     \<lparr>pc_modules = [(''TEXT'', Some [''TRIM''])], pc_funcs = [[''F'']], pc_imports = [[''TEXT'']],
      pc_floats = sample_floats, pc_body = (\<lambda>_. Err ''no steps'')\<rparr>"

definition sample_tree :: src where
  "sample_tree =
     TBin BOr
       (TBin BAnd
         (TBin (BCmp CLe)
           (TBin (BArith AMul) (TBin (BArith AAdd) (TVar ''a'' [''k'', ''0'']) (TNum ''1_0'')) (TNeg (TNum ''3'')))
           (TBin (BArith ASub) (TNum ''2'') (TBin (BArith ASub) (TVar ''b'' []) (TNum ''1''))))
         (TNot (TBin (BCmp CEq) (TEnv ''HOME'') (TCall ''TRIM'' [TStr ''x'', TList [TNum ''1'', TVar ''c'' []]]))))
       (TCall ''F'' [])"

text \<open>C12. 
  The parser inverts printing: parsing the tokens of a tree printed with the fewest parentheses
  gives the lowering of the tree, or the error of lowering it.
\<close>

theorem parse_print_roundtrip:
  assumes "wf_src t"
  shows "parse_single_expr C (print_src t) = lower_item (lower_src C t)"
  using assms by (rule parse_print)

theorem parse_print_roundtrip_witness:
  "parse_single_expr sample_ctx (print_src sample_tree) = lower_item (lower_src sample_ctx sample_tree)"
proof (rule parse_print_roundtrip)
  show "wf_src sample_tree" by code_simp
qed

text \<open>
  An operand of \<open>||\<close> that is the staged half of the most negative integer survives parsing: the
  tier of \<open>||\<close> is the only one that does not reject it.
\<close>

theorem or_keeps_boundary:
  "parse_single_expr C (print_src (TBin BOr (TVar ''a'' []) (TNum ''9223372036854775808''))) =
     Ok (ELogical LOr (EVar ''a'') (EUnsignedIntBoundary 9223372036854775808))"
proof -
  have "wf_src (TBin BOr (TVar ''a'' []) (TNum ''9223372036854775808''))" by code_simp
  moreover have "classify_numeric_text F ''9223372036854775808'' = Ok (EUnsignedIntBoundary 9223372036854775808)" for F
  proof -
    have "filter (\<lambda>c. c \<noteq> CHR ''_'') ''9223372036854775808'' = ''9223372036854775808''"
      "CHR ''.'' \<notin> set ''9223372036854775808''" by code_simp+
    moreover have "parse_u64 ''9223372036854775808'' = Some 9223372036854775808"
      by (simp add: parse_u64_def is_ascii_digit_def digit_value_def Let_def)
    ultimately show ?thesis by (simp add: classify_numeric_text_def)
  qed
  ultimately show ?thesis
    using parse_print [of "TBin BOr (TVar ''a'' []) (TNum ''9223372036854775808'')" C] by (simp add: lower_item_def)
qed

end
