(* ===== verification/Expr_Meaning.thy ===== *)
theory Expr_Meaning
  imports Expr_Roundtrip
begin

text \<open>
  From text to value: what the interpreter computes on a parsed expression is what the tree the
  text was printed from means when its operators are applied one by one. Folding,
  compilation to stack code and the staged half of the most negative integer do not show. Calls
  are excluded, because compilation changes calls of script functions, and so are negated
  operands that are no arithmetic, whose errors differ.
\<close>

section \<open>The meaning of a tree\<close>

definition number_of :: "string \<Rightarrow> nat option" where
  "number_of s = parse_u64 (filter (\<lambda>c. c \<noteq> CHR ''_'') s)"

fun is_min :: "src \<Rightarrow> bool" where
  "is_min (TNum s) \<longleftrightarrow> number_of s = Some (2 ^ 63)"
| "is_min _ \<longleftrightarrow> False"

fun apply_bin :: "'w host \<Rightarrow> bin \<Rightarrow> ('w exec_state \<Rightarrow> 'w exec_state \<times> (exec_error + dvalue)) \<Rightarrow>
    ('w exec_state \<Rightarrow> 'w exec_state \<times> (exec_error + dvalue)) \<Rightarrow> 'w exec_state \<Rightarrow> 'w exec_state \<times> (exec_error + dvalue)" where
  "apply_bin H (BArith op) l r = bind_st l (\<lambda>x. bind_st r (\<lambda>y. reads (\<lambda>_. apply_arith (h_float H) op x y)))"
| "apply_bin H (BCmp op) l r = bind_st l (\<lambda>x. bind_st r (\<lambda>y. reads (\<lambda>_. apply_compare (h_float H) op x y)))"
| "apply_bin H BAnd l r =
     bind_st (bind_st l as_condition) (\<lambda>b. if \<not> b then ret (VBool False) else bind_st (bind_st r as_condition) (\<lambda>c. ret (VBool c)))"
| "apply_bin H BOr l r =
     bind_st (bind_st l as_condition) (\<lambda>b. if b then ret (VBool True) else bind_st (bind_st r as_condition) (\<lambda>c. ret (VBool c)))"

fun eval_src :: "'w host \<Rightarrow> src \<Rightarrow> 'w exec_state \<Rightarrow> 'w exec_state \<times> (exec_error + dvalue)" where
  "eval_src H (TVar v ks) = reads (\<lambda>s. if ks = [] then load_var v s else resolve_key_path_value s v ks)"
| "eval_src H (TEnv k) = reads (load_env k)"
| "eval_src H (TNum s) = ret (VInt (of_nat (the (number_of s))))"
| "eval_src H (TStr s) = reads (load_const H (VStr s))"
| "eval_src H (TNot t) = bind_st (bind_st (eval_src H t) as_condition) (\<lambda>b. ret (VBool (\<not> b)))"
| "eval_src H (TNeg t) =
     (if is_min t then ret (VInt (word_of_int (- (2 ^ 63)))) else bind_st (eval_src H t) (\<lambda>v. reads (\<lambda>_. apply_neg v)))"
| "eval_src H (TBin op a b) = apply_bin H op (eval_src H a) (eval_src H b)"
| "eval_src H (TList es) = bind_st (map_st (eval_src H) es) (\<lambda>vs. ret (VList vs))"
| "eval_src H (TCall f es) = fail (UnknownFunction f)"

fun math :: "src \<Rightarrow> bool" where
  "math (TVar v ks) = True"
| "math (TEnv k) = True"
| "math (TNum s) = (\<not> is_min (TNum s))"
| "math (TStr s) = True"
| "math (TNeg t) = (is_min t \<or> math t)"
| "math (TBin (BArith op) a b) = (math a \<and> math b)"
| "math (TBin (BCmp op) a b) = (math a \<and> math b)"
| "math _ = False"

fun plain :: "src \<Rightarrow> bool" where
  "plain (TVar v ks) = True"
| "plain (TEnv k) = True"
| "plain (TNum s) = (\<not> is_min (TNum s))"
| "plain (TStr s) = True"
| "plain (TNot t) = plain t"
| "plain (TNeg t) = (is_min t \<or> math t)"
| "plain (TBin op a b) = (plain a \<and> plain b)"
| "plain (TList es) = list_all plain es"
| "plain (TCall f es) = False"

section \<open>Lowered expressions mean the tree\<close>

text \<open>Literals of a lowered tree are integers, truth values and text.\<close>

fun lit_ok :: "expr \<Rightarrow> bool" where
  "lit_ok (ELiteral (VInt n)) = True"
| "lit_ok (ELiteral (VBool b)) = True"
| "lit_ok (ELiteral (VStr s)) = True"
| "lit_ok (ELiteral v) = False"
| "lit_ok _ = True"

lemma lower_number:
  assumes "run_ok s" and "lift_error Lowering (classify_numeric_text F s) = Ok e"
  shows "if is_min (TNum s) then e = EUnsignedIntBoundary (2 ^ 63) else e = ELiteral (VInt (of_nat (the (number_of s))))"
proof -
  have "CHR ''.'' \<notin> set (filter (\<lambda>c. c \<noteq> CHR ''_'') s)"
    using assms(1) by (auto simp: run_ok_def list_all_iff char_class_defs)
  with assms(2) show ?thesis
    by (cases "classify_numeric_text F s")
      (auto simp: classify_numeric_text_def number_of_def Let_def split: option.splits if_splits)
qed

definition means :: "'w host \<Rightarrow> 'w executor \<Rightarrow> expr \<Rightarrow> ('w exec_state \<Rightarrow> 'w exec_state \<times> (exec_error + dvalue)) \<Rightarrow> bool" where
  "means H X e m \<longleftrightarrow> call_free e \<and> lit_ok e \<and> \<not> is_boundary e \<and> evaluate_expr H X e = m"

definition compiles :: "expr \<Rightarrow> bool" where
  "compiles e \<longleftrightarrow> expr_to_rpn e \<noteq> None"

lemma compiled_neg:
  assumes "call_free e" and "expr_to_rpn e = Some ops"
  shows "ops_depth (ops @ [MNeg]) 0 = Some 1"
    and "evaluate_compiled_math H (ops @ [MNeg]) = bind_st (evaluate_expr H X e) (\<lambda>v. reads (\<lambda>_. apply_neg v))"
proof -
  have "ops_depth ops 0 = Some 1" and run: "run_math H ops [] = bind_st (evaluate_expr H X e) (\<lambda>v. ret [v])"
    using compiled_runs [OF assms, of H "[]" X] by simp_all
  then show "ops_depth (ops @ [MNeg]) 0 = Some 1" by (simp add: ops_depth_append)
  show "evaluate_compiled_math H (ops @ [MNeg]) = bind_st (evaluate_expr H X e) (\<lambda>v. reads (\<lambda>_. apply_neg v))"
    by (simp add: evaluate_compiled_math_def run_math_append run bind_st_assoc push_on_bind)
qed

lemma neg_literal_evaluates:
  assumes "lit_ok (ELiteral v)"
  shows "means H X (neg_literal v) (bind_st (evaluate_expr H X (ELiteral v)) (\<lambda>v. reads (\<lambda>_. apply_neg v))) \<and> compiles (neg_literal v)"
proof -
  have comp: "means H X (ECompiledMath [MPushConst v, MNeg]) (bind_st (evaluate_expr H X (ELiteral v)) (\<lambda>v. reads (\<lambda>_. apply_neg v)))"
    using compiled_neg(2) [of "ELiteral v" "[MPushConst v]" H X] by (simp add: means_def)
  show ?thesis
  proof (cases "neg_literal v = ECompiledMath [MPushConst v, MNeg]")
    case True
    with comp show ?thesis by (simp add: compiles_def)
  next
    case False
    with assms obtain n m where n: "v = VInt n" "checked_neg n = Some m" "neg_literal v = ELiteral (VInt m)"
      by (cases v) (auto simp: neg_literal_def compile_neg_def reader_defs split: option.splits)
    then have "evaluate_expr H X (ELiteral (VInt m)) = bind_st (evaluate_expr H X (ELiteral v)) (\<lambda>v. reads (\<lambda>_. apply_neg v))"
      by (simp add: literal_value reader_defs apply_neg_def del: evaluate_expr.simps) (simp add: reads_def ret_def fun_eq_iff)
    with n show ?thesis by (simp add: means_def compiles_def del: evaluate_expr.simps)
  qed
qed

lemma neg_evaluates:
  assumes "apply_unary_neg e = Ok e'" and "means H X e m" and "compiles e"
  shows "means H X e' (bind_st m (\<lambda>v. reads (\<lambda>_. apply_neg v))) \<and> compiles e'"
proof (cases "\<exists>v. e = ELiteral v")
  case True
  then obtain v where v: "e = ELiteral v" by blast
  with assms have "e' = neg_literal v" "lit_ok (ELiteral v)" "m = evaluate_expr H X (ELiteral v)"
    by (simp_all add: means_def)
  with neg_literal_evaluates [of v H X] show ?thesis by simp
next
  case False
  from assms(3) obtain ops where ops: "expr_to_rpn e = Some ops" by (auto simp: compiles_def)
  have "e' = compile_neg e" using False assms(1,2) by (cases e) (simp_all add: means_def)
  then have "e' = ECompiledMath (ops @ [MNeg])" by (simp add: compile_neg_def ops)
  with assms(2) compiled_neg(1) [of e ops] compiled_neg(2) [of e ops H X] ops show ?thesis
    by (simp add: means_def compiles_def)
qed

lemma compile_binary_compiles:
  "\<lbrakk>compiles l; compiles r\<rbrakk> \<Longrightarrow> compiles (compile_binary op node l r)"
  by (auto simp: compiles_def compile_binary_def split: option.splits)

lemma compile_binary_plain:
  assumes "call_free l" "call_free r" "call_free node" "lit_ok node" "\<not> is_boundary node"
    and "\<And>a b. expr_to_rpn l = Some a \<Longrightarrow> expr_to_rpn r = Some b \<Longrightarrow> ops_depth (a @ b @ [op]) 0 = Some 1"
  shows "call_free (compile_binary op node l r) \<and> lit_ok (compile_binary op node l r) \<and> \<not> is_boundary (compile_binary op node l r)"
  using assms by (auto simp: compile_binary_def split: option.splits)

lemma binary_depth:
  assumes "call_free l" "call_free r" "expr_to_rpn l = Some a" "expr_to_rpn r = Some b" "op_depth op 2 = Some 1"
  shows "ops_depth (a @ b @ [op]) 0 = Some 1"
proof -
  have "ops_depth a 0 = Some 1" "ops_depth b 0 = Some 1"
    using compiled_runs [OF assms(1,3)] compiled_runs [OF assms(2,4)] by blast+
  with ops_depth_shift [of b 0 1 1] assms(5) show ?thesis by (simp add: ops_depth_append numeral_2_eq_2)
qed

lemma arith_means:
  assumes fin: "\<forall>n. f64_is_finite (f64_of_i64 (h_float H) n)" and l: "means H X l ml" and r: "means H X r mr"
    and e: "make_arith (h_float H) op l r = Ok e"
  shows "means H X e (apply_bin H (BArith op) ml mr) \<and> (compiles l \<and> compiles r \<longrightarrow> compiles e)"
proof -
  have cf: "call_free l" "call_free r" using l r by (simp_all add: means_def)
  have "evaluate_expr H X e = apply_bin H (BArith op) ml mr"
    using make_arith_evaluates [OF fin cf e, of X] l r by (simp add: means_def)
  moreover have "call_free e \<and> lit_ok e \<and> \<not> is_boundary e \<and> (compiles l \<and> compiles r \<longrightarrow> compiles e)"
  proof (cases "try_fold_arith (h_float H) op l r")
    case None
    with e have "e = compile_binary (MArith op) (EArithmetic op l r) l r" by (auto simp: make_arith_def result_simps)
    with compile_binary_plain [of l r "EArithmetic op l r" "MArith op"] binary_depth [of l r _ _ "MArith op"] cf
      compile_binary_compiles show ?thesis by simp
  next
    case (Some x)
    then obtain lv rv v where v: "l = ELiteral lv" "r = ELiteral rv" "x = ELiteral v" "fold_arith_values (h_float H) op lv rv = Some v"
      by (auto simp: try_fold_arith_def split: expr.splits)
    with l r have "lit_ok (ELiteral lv)" "lit_ok (ELiteral rv)" by (simp_all add: means_def)
    with v(4) have "lit_ok (ELiteral v)"
      by (cases lv; cases rv) (auto simp: fold_arith_values_def as_f64_value_def reader_defs split: option.splits)
    with v e Some show ?thesis by (auto simp: make_arith_def result_simps compiles_def)
  qed
  ultimately show ?thesis by (simp add: means_def)
qed

lemma compare_means:
  assumes l: "means H X l ml" and r: "means H X r mr" and e: "make_compare (h_float H) op l r = Ok e"
  shows "means H X e (apply_bin H (BCmp op) ml mr) \<and> (compiles l \<and> compiles r \<longrightarrow> compiles e)"
proof -
  have cf: "call_free l" "call_free r" using l r by (simp_all add: means_def)
  have "evaluate_expr H X e = apply_bin H (BCmp op) ml mr"
    using make_compare_evaluates [OF cf e, of X] l r by (simp add: means_def)
  moreover have "call_free e \<and> lit_ok e \<and> \<not> is_boundary e \<and> (compiles l \<and> compiles r \<longrightarrow> compiles e)"
  proof (cases "try_fold_compare (h_float H) op l r")
    case None
    with e have "e = compile_binary (MCompare op) (ECompare op l r) l r" by (auto simp: make_compare_def result_simps)
    with compile_binary_plain [of l r "ECompare op l r" "MCompare op"] binary_depth [of l r _ _ "MCompare op"] cf
      compile_binary_compiles show ?thesis by simp
  next
    case (Some x)
    then obtain lv rv v where v: "x = ELiteral v" "fold_compare_values (h_float H) op lv rv = Some v"
      by (auto simp: try_fold_compare_def split: expr.splits)
    then have "lit_ok (ELiteral v)" by (auto simp: fold_compare_values_def split: option.splits if_splits)
    with v e Some show ?thesis by (auto simp: make_compare_def result_simps compiles_def)
  qed
  ultimately show ?thesis by (simp add: means_def)
qed

lemma lift_Ok: "lift_error f x = Ok a \<longleftrightarrow> x = Ok a"
  by (cases x) simp_all

lemma min_negated:
  assumes "is_min t" and "wf_src t" and "lower_src C (TNeg t) = Ok e"
  shows "means H X e (eval_src H (TNeg t)) \<and> compiles e"
proof -
  from assms(1) obtain s where s: "t = TNum s" by (cases t) auto
  with assms have "lower_src C t = Ok (EUnsignedIntBoundary (2 ^ 63))"
    using lower_number [of s "pc_floats C"] by (auto simp: result_simps lift_Ok)
  with assms(3) have "e = ELiteral (VInt (word_of_int (- (2 ^ 63))))" by simp
  with assms(1) show ?thesis
    by (simp add: means_def compiles_def literal_value reader_defs del: evaluate_expr.simps)
qed

lemma number_means:
  assumes "run_ok s" "\<not> is_min (TNum s)" "lower_src C (TNum s) = Ok e"
  shows "means H X e (eval_src H (TNum s)) \<and> compiles e"
proof -
  have "e = ELiteral (VInt (of_nat (the (number_of s))))"
    using lower_number [of s "pc_floats C" e] assms by simp
  then show ?thesis by (simp add: means_def compiles_def literal_value reader_defs del: evaluate_expr.simps)
qed

lemma atom_means:
  "lower_src C (TVar v ks) = Ok e \<Longrightarrow> means H X e (eval_src H (TVar v ks)) \<and> compiles e"
  "lower_src C (TEnv k) = Ok e \<Longrightarrow> means H X e (eval_src H (TEnv k)) \<and> compiles e"
  "lower_src C (TStr s) = Ok e \<Longrightarrow> means H X e (eval_src H (TStr s)) \<and> compiles e"
  by (auto simp: means_def compiles_def split: if_splits)

lemma math_means:
  assumes floats: "pc_floats C = h_float H" and fin: "\<forall>n. f64_is_finite (f64_of_i64 (h_float H) n)"
  shows "\<lbrakk>wf_src t; math t; lower_src C t = Ok e\<rbrakk> \<Longrightarrow> means H X e (eval_src H t) \<and> compiles e"
proof (induction t arbitrary: e rule: math.induct)
  case (3 s)
  then show ?case by (intro number_means) simp_all
next
  case (5 t)
  show ?case
  proof (cases "is_min t")
    case True
    with min_negated [of t C e H X] 5 show ?thesis by simp
  next
    case False
    from 5(4) obtain x where x: "lower_src C t = Ok x" "apply_unary_neg x = Ok e" by (auto simp: result_simps lift_Ok)
    with 5 False have "means H X x (eval_src H t) \<and> compiles x" by simp
    with neg_evaluates [OF x(2), of H X "eval_src H t"] False show ?thesis by simp
  qed
next
  case (6 op a b)
  then obtain x y where xy: "lower_src C a = Ok x" "lower_src C b = Ok y" "make_arith (h_float H) op x y = Ok e"
    by (auto simp: result_simps lower_arith_def lift_Ok floats)
  with 6 have "means H X x (eval_src H a) \<and> compiles x" "means H X y (eval_src H b) \<and> compiles y" by simp_all
  with arith_means [OF fin _ _ xy(3), of X "eval_src H a" "eval_src H b"] show ?case by simp
next
  case (7 op a b)
  then obtain x y where xy: "lower_src C a = Ok x" "lower_src C b = Ok y" "make_compare (h_float H) op x y = Ok e"
    by (auto simp: result_simps lower_compare_def lift_Ok floats)
  with 7 have "means H X x (eval_src H a) \<and> compiles x" "means H X y (eval_src H b) \<and> compiles y" by simp_all
  with compare_means [OF _ _ xy(3), of X "eval_src H a" "eval_src H b"] show ?case by simp
qed (use atom_means in \<open>simp_all del: lower_src.simps eval_src.simps\<close>)

lemma logic_means:
  assumes "means H X l ml" and "means H X r mr"
  shows "means H X (ELogical LAnd l r) (apply_bin H BAnd ml mr)" and "means H X (ELogical LOr l r) (apply_bin H BOr ml mr)"
  using assms by (auto simp: means_def cong: if_cong)

lemma lower_item_Ok: "lower_item x = Ok e \<Longrightarrow> x = Ok e"
  by (auto simp: lower_item_def result_simps split: if_splits)

lemma map_st_means:
  assumes "list_all2 (\<lambda>t e. means H X e (eval_src H t)) ts es"
  shows "map_st (evaluate_expr H X) es = map_st (eval_src H) ts"
  using assms by (induction rule: list_all2_induct) (simp_all add: means_def)

lemma plain_means:
  assumes floats: "pc_floats C = h_float H" and fin: "\<forall>n. f64_is_finite (f64_of_i64 (h_float H) n)"
  shows "\<lbrakk>wf_src t; plain t; lower_src C t = Ok e\<rbrakk> \<Longrightarrow> means H X e (eval_src H t)"
proof (induction t arbitrary: e)
  case (TNum s)
  then show ?case using number_means [of s C e H X] by simp
next
  case (TNot t)
  then obtain x where "lower_src C t = Ok x" "e = ENot x" by (auto simp: result_simps)
  with TNot show ?case by (simp add: means_def)
next
  case (TNeg t)
  then show ?case
  proof (cases "is_min t")
    case True
    with min_negated [of t C e H X] TNeg show ?thesis by simp
  next
    case False
    with TNeg math_means [OF floats fin, of "TNeg t"] show ?thesis by simp
  qed
next
  case (TBin op a b)
  then obtain x y where xy: "lower_src C a = Ok x" "lower_src C b = Ok y" and c: "combine (h_float H) op x y = Ok e"
    by (auto simp: result_simps floats)
  with TBin have m: "means H X x (eval_src H a)" "means H X y (eval_src H b)" by simp_all
  show ?case
  proof (cases op)
    case BOr
    with c logic_means [OF m] show ?thesis by simp
  next
    case BAnd
    with c logic_means [OF m] show ?thesis by (auto simp: lower_and_def result_simps)
  next
    case (BCmp cop)
    with c compare_means [OF m] show ?thesis by (simp add: lower_compare_def lift_Ok)
  next
    case (BArith aop)
    with c arith_means [OF fin m] show ?thesis by (simp add: lower_arith_def lift_Ok)
  qed
next
  case (TList ts)
  then obtain es where es: "map_result (\<lambda>t. lower_item (lower_src C t)) ts = Ok es" "e = EList es"
    by (auto simp: result_simps)
  have "list_all2 (\<lambda>t e. means H X e (eval_src H t)) ts es"
  proof (rule list.rel_mono_strong)
    show "list_all2 (\<lambda>t e. lower_item (lower_src C t) = Ok e) ts es" using es(1) by (simp add: map_result_Inr_iff)
    show "means H X e (eval_src H t)" if "t \<in> set ts" "e \<in> set es" "lower_item (lower_src C t) = Ok e" for t e
      using TList that lower_item_Ok by (simp add: list_all_iff)
  qed
  from map_st_means [OF this] es(2) show ?case by (simp add: means_def)
qed (use conjunct1 [OF atom_means(1)] conjunct1 [OF atom_means(2)] conjunct1 [OF atom_means(3)] in
    \<open>simp_all del: lower_src.simps eval_src.simps\<close>)

text \<open>C11. 
  Parsing keeps the meaning: when the tokens of a plain tree parse, evaluating the parsed
  expression in any state gives the value, the error and the state of the tree, with folding
  and compilation left out. A plain tree has words the lexer delivers and no call, its minus signs stand before a
  number, a variable, a text or an arithmetic or comparison operation of such operands, not before a list, a negation
  or a logical operator, and it uses the number 2 to the 63 only under a minus. The floats of all integers are finite.
\<close>

theorem parsed_expression_means_tree:
  assumes "pc_floats C = h_float H" and "\<forall>n. f64_is_finite (f64_of_i64 (h_float H) n)"
    and "wf_src t" and "plain t" and "parse_single_expr C (print_src t) = Ok e"
  shows "evaluate_expr H X e s = eval_src H t s"
proof -
  have "lower_src C t = Ok e" using assms(5) parse_print [OF assms(3)] lower_item_Ok by simp
  with plain_means [OF assms(1-4)] show ?thesis by (simp add: means_def)
qed

theorem parsed_expression_means_tree_witness:
  "\<forall>X s. evaluate_expr sample_host X (ECompiledMath [MLoadVar ''n'', MPushConst (VInt (-2)), MArith AMul]) s =
     eval_src sample_host (TBin (BArith AMul) (TVar ''n'' []) (TNeg (TNum ''2''))) s"
proof (intro allI)
  fix X s
  let ?t = "TBin (BArith AMul) (TVar ''n'' []) (TNeg (TNum ''2''))"
  have wf: "wf_src ?t" by code_simp
  have num: "classify_numeric_text F ''2'' = Ok (ELiteral (VInt 2))" for F
    by (simp add: classify_numeric_text_def parse_u64_def is_ascii_digit_def digit_value_def Let_def)
  have "lower_src sample_ctx ?t = Ok (ECompiledMath [MLoadVar ''n'', MPushConst (VInt (-2)), MArith AMul])"
    by (simp add: num neg_literal_def reader_defs checked_neg_def i64_checked_def lower_arith_def make_arith_def
        try_fold_arith_def compile_binary_def)
  then have parsed: "parse_single_expr sample_ctx (print_src ?t) = Ok (ECompiledMath [MLoadVar ''n'', MPushConst (VInt (-2)), MArith AMul])"
    using parse_print [OF wf] by (simp add: lower_item_def)
  have "pc_floats sample_ctx = h_float sample_host" by (simp add: sample_ctx_def sample_host_def)
  from parsed_expression_means_tree [OF this sample_floats_finite wf _ parsed, of X s]
  show "evaluate_expr sample_host X (ECompiledMath [MLoadVar ''n'', MPushConst (VInt (-2)), MArith AMul]) s = eval_src sample_host ?t s"
    by (simp add: number_of_def parse_u64_def is_ascii_digit_def digit_value_def Let_def)
qed

end
