(* ===== verification/Statements.thy ===== *)
theory Statements
  imports Expr_Parser
begin

text \<open>
  The splitter of \<open>oxdock-parser/src/parser.rs\<close>: one pass over the tokens of a script or a block that
  attaches leading bracket groups to the statement they guard, ends statements at line breaks and
  semicolons, holds a bare \<open>WITH_IO\<close> for its block and an \<open>IF\<close> for an \<open>ELSE\<close> on a later line, skips
  comments where a statement may start, and keeps the line and column errors report. The
  state of the loop is a record; a turn of the loop returns the tokens left. Shown: the loop ends,
  and no token is lost, repeated or moved between statements.
\<close>

section \<open>Statements\<close>

record stmt =
  s_guard :: "tok list"
  s_body :: "tok list"
  s_detached :: bool
  s_line :: nat
  s_col :: nat

record token_error =
  te_stmt :: nat
  te_line :: nat
  te_col :: nat
  te_msg :: string

fun is_group :: "group_delim \<Rightarrow> tok \<Rightarrow> bool" where
  "is_group d (Tok (Group d' inner a b) j l c) \<longleftrightarrow> d = d'"
| "is_group d _ \<longleftrightarrow> False"

definition is_word :: "string \<Rightarrow> tok \<Rightarrow> bool" where
  "is_word w t \<longleftrightarrow> kind t = Word w"

fun is_comment :: "tok \<Rightarrow> bool" where
  "is_comment (Tok (Comment u) j l c) \<longleftrightarrow> True"
| "is_comment _ \<longleftrightarrow> False"

definition boundary_ends_statement :: "tok list \<Rightarrow> string + unit" where
  "boundary_ends_statement body =
     (case body of
        [] \<Rightarrow> Ok ()
      | t # _ \<Rightarrow>
          (case kind t of
             Word _ \<Rightarrow> Ok ()
           | Punct c \<Rightarrow> if c = CHR ''$'' then Ok () else Err ''statement must open with a command word''
           | Group Brace _ _ _ \<Rightarrow> Ok ()
           | _ \<Rightarrow> Err ''statement must open with a command word''))"

definition is_bare_with_io :: "tok list \<Rightarrow> bool" where
  "is_bare_with_io body = (case body of [w, g] \<Rightarrow> is_word ''WITH_IO'' w \<and> is_group Bracket g \<and> \<not> joint g | _ \<Rightarrow> False)"

text \<open>The tokens before the first comment opener, and from it on.\<close>

fun cut_comment :: "tok list \<Rightarrow> tok list \<times> tok list" where
  "cut_comment [] = ([], [])"
| "cut_comment (t # ts) =
     (if kind t = Punct CHR ''#'' \<or> kind t = Punct CHR ''/'' \<and> is_comment_open (t # ts) then ([], t # ts)
      else (case cut_comment ts of (a, b) \<Rightarrow> (t # a, b)))"

definition drop_markers :: "tok list \<Rightarrow> tok list" where
  "drop_markers body = rev (dropWhile is_comment (rev body))"

text \<open>The loop of \<open>is_if_tail\<close>, on the part of the body up to its current end.\<close>

fun second_is_slash :: "tok list \<Rightarrow> bool" where
  "second_is_slash (a # b # ts) \<longleftrightarrow> kind b = Punct CHR ''/''"
| "second_is_slash _ \<longleftrightarrow> False"

definition strip_tail_step :: "tok list \<Rightarrow> tok list option" where
  "strip_tail_step body =
     (case cut_comment body of (pre, post) \<Rightarrow>
        case post of
          [] \<Rightarrow> None
        | t # _ \<Rightarrow>
            if kind t = Punct CHR ''/'' \<and> \<not> second_is_slash post then
              (case skip_inline_comment post of
                 Some (u # us) \<Rightarrow> Some (take (length body - length (u # us)) body)
               | _ \<Rightarrow> Some pre)
            else Some pre)"

lemma cut_comment_append: "cut_comment ts = (a, b) \<Longrightarrow> ts = a @ b"
  by (induction ts arbitrary: a) (auto split: if_splits prod.splits)

lemma strip_tail_step_shorter: "strip_tail_step body = Some b \<Longrightarrow> length b < length body"
  by (auto simp: strip_tail_step_def split: prod.splits list.splits option.splits if_splits dest!: cut_comment_append)

lemma drop_markers_le: "length (drop_markers body) \<le> length body"
  by (simp add: drop_markers_def length_dropWhile_le [THEN order_trans])

function strip_tail :: "tok list \<Rightarrow> tok list" where
  "strip_tail body =
     (case strip_tail_step (drop_markers body) of
        None \<Rightarrow> drop_markers body
      | Some b \<Rightarrow> strip_tail b)"
  by pat_completeness auto
termination
  by (relation "measure length") (auto dest!: strip_tail_step_shorter intro: less_le_trans [OF _ drop_markers_le])

declare strip_tail.simps [simp del]

definition is_template_brace :: "tok \<Rightarrow> bool" where
  "is_template_brace t = is_template_group t"

definition is_if_tail :: "tok list \<Rightarrow> bool" where
  "is_if_tail body \<longleftrightarrow>
     body \<noteq> [] \<and> is_word ''IF'' (hd body) \<and>
     (let b = strip_tail body in b \<noteq> [] \<and> is_group Brace (last b) \<and> \<not> is_template_brace (last b))"

definition starts_brace :: "tok list \<Rightarrow> bool" where
  "starts_brace body \<longleftrightarrow> body \<noteq> [] \<and> is_group Brace (hd body)"

fun tok_newlines :: "tok \<Rightarrow> nat" where
  "tok_newlines (Tok Newline j l c) = 1"
| "tok_newlines (Tok (Comment u) j l c) = count_lf u"
| "tok_newlines (Tok (Group d inner a b) j l c) = sum_list (map tok_newlines inner)"
| "tok_newlines _ = 0"

section \<open>The loop\<close>

type_synonym held = "tok list \<times> tok list \<times> nat \<times> nat"

record splitter =
  sp_out :: "stmt list"
  sp_guard :: "tok list"
  sp_body :: "tok list"
  sp_detached :: bool
  sp_idx :: nat
  sp_io :: "held option"
  sp_if :: "held option"
  sp_start_line :: nat
  sp_start_col :: nat
  sp_line :: nat
  sp_depth :: nat

definition emit_stmt :: "stmt \<Rightarrow> splitter \<Rightarrow> splitter" where
  "emit_stmt st sp = sp\<lparr>sp_out := sp_out sp @ [st], sp_idx := sp_idx sp + 1\<rparr>"

fun held_stmt :: "held \<Rightarrow> stmt" where
  "held_stmt (g, b, l, c) = \<lparr>s_guard = g, s_body = b, s_detached = False, s_line = l, s_col = c\<rparr>"

definition clear_stmt :: "splitter \<Rightarrow> splitter" where
  "clear_stmt sp = sp\<lparr>sp_guard := [], sp_body := [], sp_detached := False\<rparr>"

definition split_error :: "splitter \<Rightarrow> nat \<Rightarrow> nat \<Rightarrow> string \<Rightarrow> token_error" where
  "split_error sp l c msg = \<lparr>te_stmt = sp_idx sp, te_line = l, te_col = c, te_msg = msg\<rparr>"

definition current_held :: "splitter \<Rightarrow> held" where
  "current_held sp = (sp_guard sp, sp_body sp, sp_start_line sp, sp_start_col sp)"

text \<open>The end of \<open>flush_or_hold\<close>: hold a bare \<open>WITH_IO\<close>, hold an if-tailed statement, or emit.\<close>

definition flush_current :: "bool \<Rightarrow> splitter \<Rightarrow> token_error + splitter" where
  "flush_current via_newline sp =
     (if is_bare_with_io (sp_body sp) then
        (if sp_io sp \<noteq> None then
           Err (split_error sp (sp_line sp) (sp_start_col sp) (''previous WITH_IO block is still waiting for '{'' @ [CHR 0x27]))
         else Ok (clear_stmt (sp\<lparr>sp_io := Some (current_held sp)\<rparr>)))
      else if via_newline \<and> is_if_tail (sp_body sp) then Ok (clear_stmt (sp\<lparr>sp_if := Some (current_held sp)\<rparr>))
      else
        Ok (clear_stmt (emit_stmt
          \<lparr>s_guard = sp_guard sp, s_body = sp_body sp,
           s_detached = (sp_detached sp \<and> sp_guard sp \<noteq> [] \<and> starts_brace (sp_body sp)),
           s_line = sp_start_line sp, s_col = sp_start_col sp\<rparr> sp)))"

definition release_if :: "splitter \<Rightarrow> splitter" where
  "release_if sp = (case sp_if sp of None \<Rightarrow> sp | Some h \<Rightarrow> emit_stmt (held_stmt h) (sp\<lparr>sp_if := None\<rparr>))"

definition flush_or_hold :: "bool \<Rightarrow> splitter \<Rightarrow> token_error + splitter" where
  "flush_or_hold via_newline sp =
     (if sp_body sp = [] then Ok (clear_stmt sp)
      else
        (case sp_io sp of
           Some (g, b, l, c) \<Rightarrow>
             if sp_guard sp = [] \<and> length (sp_body sp) = 1 \<and> is_group Brace (hd (sp_body sp)) then
               Ok (clear_stmt (emit_stmt (held_stmt (g, b @ sp_body sp, l, c)) (sp\<lparr>sp_io := None\<rparr>)))
             else Err (split_error sp l c (''WITH_IO block must be followed by '{'' @ [CHR 0x27]))
         | None \<Rightarrow>
             (case sp_if sp of
                Some (g, b, l, c) \<Rightarrow>
                  if sp_guard sp = [] \<and> is_word ''ELSE'' (hd (sp_body sp)) then
                    (let merged = b @ Tok Newline False 0 0 # sp_body sp in
                     if via_newline \<and> is_if_tail merged then Ok (clear_stmt (sp\<lparr>sp_if := Some (g, merged, l, c)\<rparr>))
                     else Ok (clear_stmt (emit_stmt (held_stmt (g, merged, l, c)) (sp\<lparr>sp_if := None\<rparr>))))
                  else flush_current via_newline (release_if sp)
              | None \<Rightarrow> flush_current via_newline sp)))"

definition block_open_at :: "tok list \<Rightarrow> bool" where
  "block_open_at ts = (case ts of a # b # _ \<Rightarrow> joint_pair CHR ''/'' CHR ''*'' a b | _ \<Rightarrow> False)"

definition block_close_at :: "tok list \<Rightarrow> bool" where
  "block_close_at ts = (case ts of a # b # _ \<Rightarrow> joint_pair CHR ''*'' CHR ''/'' a b | _ \<Rightarrow> False)"

definition mark_start :: "tok \<Rightarrow> splitter \<Rightarrow> splitter" where
  "mark_start t sp =
     (if sp_body sp = [] then
        sp\<lparr>sp_start_line := (if tok_line t > 0 then tok_line t else sp_line sp),
           sp_start_col := (if tok_col t > 0 then tok_col t else sp_start_col sp)\<rparr>
      else sp)"

definition add_lines :: "nat \<Rightarrow> splitter \<Rightarrow> splitter" where
  "add_lines n sp = sp\<lparr>sp_line := sp_line sp + n\<rparr>"

definition push_body :: "tok \<Rightarrow> splitter \<Rightarrow> splitter" where
  "push_body t sp = (add_lines (tok_newlines t) (mark_start t sp))\<lparr>sp_body := sp_body sp @ [t]\<rparr>"

text \<open>The arms for line breaks, semicolons and comment markers.\<close>

definition at_boundary :: "bool \<Rightarrow> splitter \<Rightarrow> token_error + splitter" where
  "at_boundary via_newline sp =
     (case boundary_ends_statement (sp_body sp) of
        Inr _ \<Rightarrow> flush_or_hold via_newline sp
      | Inl msg \<Rightarrow> Err (split_error sp (sp_start_line sp) (sp_start_col sp) msg))"

definition at_newline :: "splitter \<Rightarrow> token_error + splitter" where
  "at_newline sp =
     (if sp_body sp = [] then Ok (add_lines 1 (sp\<lparr>sp_detached := True\<rparr>))
      else bind_result (at_boundary True sp) (\<lambda>sp'. Ok (add_lines 1 sp')))"

definition at_semicolon :: "splitter \<Rightarrow> token_error + splitter" where
  "at_semicolon sp =
     (if sp_body sp = [] then Ok ((release_if sp)\<lparr>sp_detached := True\<rparr>) else at_boundary False sp)"

definition at_comment :: "tok \<Rightarrow> string \<Rightarrow> splitter \<Rightarrow> splitter" where
  "at_comment t u sp =
     (let sp = add_lines (count_lf u) (release_if sp) in
      if joint t \<and> sp_body sp \<noteq> [] then sp\<lparr>sp_body := sp_body sp @ [t], sp_detached := False\<rparr> else sp)"

definition skipped_lines :: "tok list \<Rightarrow> tok list \<Rightarrow> nat" where
  "skipped_lines ts past = sum_list (map tok_newlines (take (length ts - length past) ts))"

abbreviation unclosed :: "tok \<Rightarrow> splitter \<Rightarrow> token_error" where
  "unclosed t sp \<equiv> split_error sp (sp_line sp) (tok_col t) ''unclosed block comment''"

text \<open>The arms outside block comments.\<close>

definition split_plain :: "tok \<Rightarrow> tok list \<Rightarrow> splitter \<Rightarrow> token_error + splitter \<times> tok list" where
  "split_plain t ts sp =
     (case kind t of
        Newline \<Rightarrow> bind_result (at_newline sp) (\<lambda>sp'. Ok (sp', ts))
      | Semicolon \<Rightarrow> bind_result (at_semicolon sp) (\<lambda>sp'. Ok (sp', ts))
      | Comment u \<Rightarrow> Ok (at_comment t u sp, ts)
      | Punct c \<Rightarrow>
          if c = CHR ''/'' \<and> sp_body sp = [] \<and> is_comment_open (t # ts) then
            (if second_is_slash (t # ts) then Ok (sp, to_newline (t # ts))
             else (case skip_inline_comment (t # ts) of Some past \<Rightarrow> Ok (sp, past) | None \<Rightarrow> Err (unclosed t sp)))
          else if c = CHR ''#'' \<and> sp_body sp = [] then Ok (sp, to_newline (t # ts))
          else Ok (push_body t sp, ts)
      | Group d _ _ _ \<Rightarrow>
          if d = Bracket \<and> sp_body sp = [] then
            Ok (add_lines (tok_newlines t) (sp\<lparr>sp_guard := sp_guard sp @ [t], sp_detached := False\<rparr>), ts)
          else Ok (push_body t sp, ts)
      | _ \<Rightarrow> Ok (push_body t sp, ts))"

definition split_step :: "tok \<Rightarrow> tok list \<Rightarrow> splitter \<Rightarrow> token_error + splitter \<times> tok list" where
  "split_step t ts sp =
     (if sp_body sp = [] \<and> sp_depth sp = 0 \<and> block_open_at (t # ts) then
        (case skip_inline_comment (t # ts) of
           Some past \<Rightarrow> Ok (add_lines (skipped_lines (t # ts) past) sp, past)
         | None \<Rightarrow> Err (unclosed t sp))
      else
        (let d = (if block_open_at (t # ts) \<and> (sp_depth sp > 0 \<or> sp_body sp \<noteq> []) then sp_depth sp + 1
                  else if block_close_at (t # ts) \<and> sp_depth sp > 0 then sp_depth sp - 1
                  else sp_depth sp);
             sp = sp\<lparr>sp_depth := d\<rparr> in
         if d > 0 then Ok ((push_body t sp)\<lparr>sp_detached := False\<rparr>, ts)
         else split_plain t ts sp))"

lemma to_newline_strict: "\<not> is_newline t \<Longrightarrow> strict_suffix (to_newline (t # ts)) (t # ts)"
  using suffix_Cons_le [OF to_newline_suffix] by (simp add: to_newline_def)

lemma split_plain_consumes: "split_plain t ts sp = Ok (sp', r) \<Longrightarrow> strict_suffix r (t # ts)"
  by (auto simp: split_plain_def result_simps is_newline_def split: tok_kind.splits if_splits option.splits
      intro!: to_newline_strict dest: skip_inline_comment_suffix intro: suffix_Cons_le)

lemma split_step_consumes: "split_step t ts sp = Ok (sp', r) \<Longrightarrow> strict_suffix r (t # ts)"
  by (auto simp: split_step_def Let_def split: if_splits option.splits
      dest: skip_inline_comment_suffix split_plain_consumes intro: suffix_Cons_le)

function split_run :: "tok list \<Rightarrow> splitter \<Rightarrow> token_error + splitter" where
  "split_run [] sp = Ok sp"
| "split_run (t # ts) sp = bind_result (split_step t ts sp) (\<lambda>(sp', r). split_run r sp')"
  by pat_completeness auto
termination
  by (relation "measure (length \<circ> fst)") (auto dest!: split_step_consumes suffix_length_less)

definition split_end :: "splitter \<Rightarrow> token_error + stmt list" where
  "split_end sp =
     bind_result
       (if sp_body sp \<noteq> [] then at_boundary False sp
        else if sp_guard sp \<noteq> [] then Err (split_error sp (sp_line sp) 0 ''guard declared without a following command'')
        else Ok sp)
       (\<lambda>sp'. case sp_io sp' of
          Some (g, b, l, c) \<Rightarrow> Err (split_error sp' l c (''WITH_IO block must be followed by '{'' @ [CHR 0x27]))
        | None \<Rightarrow> Ok (sp_out (release_if sp')))"

definition fresh_splitter :: "nat \<Rightarrow> splitter" where
  "fresh_splitter base =
     \<lparr>sp_out = [], sp_guard = [], sp_body = [], sp_detached = False, sp_idx = 0, sp_io = None, sp_if = None,
      sp_start_line = base, sp_start_col = 0, sp_line = base, sp_depth = 0\<rparr>"

definition split_statements :: "tok list \<Rightarrow> nat \<Rightarrow> token_error + stmt list" where
  "split_statements ts base = bind_result (split_run ts (fresh_splitter base)) split_end"

section \<open>No token is lost, repeated or moved\<close>

definition separator :: "tok \<Rightarrow> bool" where
  "separator t \<longleftrightarrow> kind t = Newline \<or> kind t = Semicolon \<or> is_comment t"

definition content :: "tok list \<Rightarrow> tok list" where
  "content ts = filter (\<lambda>t. \<not> separator t) ts"

definition stmt_tokens :: "stmt \<Rightarrow> tok list" where
  "stmt_tokens st = s_guard st @ s_body st"

fun held_tokens :: "held option \<Rightarrow> tok list" where
  "held_tokens None = []"
| "held_tokens (Some (g, b, l, c)) = g @ b"

definition flat :: "splitter \<Rightarrow> tok list" where
  "flat sp = concat (map stmt_tokens (sp_out sp)) @ held_tokens (sp_io sp) @ held_tokens (sp_if sp) @ sp_guard sp @ sp_body sp"

fun comment_text :: "tok list \<Rightarrow> bool" where
  "comment_text [] \<longleftrightarrow> False"
| "comment_text (t # ts) \<longleftrightarrow> kind t = Punct CHR ''#'' \<or> is_comment_open (t # ts) \<or> comment_text ts"

text \<open>
  The reading of tokens without comments, apart from the loop. The flag says that a statement may start here. Only
  there a comment is left out: from \<open>#\<close> or \<open>//\<close> up to the end of the line, or from \<open>/*\<close> to the \<open>*/\<close> that closes it, nested
  comments counted. Guards and comments leave the flag up, every other token but a separator takes it down; a line
  break or semicolon may raise it again. Separators are left out everywhere, and nothing else is.
\<close>

inductive closes_comment :: "nat \<Rightarrow> tok list \<Rightarrow> bool" where
  closed: "closes_comment 0 []"
| deeper: "joint_pair CHR ''/'' CHR ''*'' a b \<Longrightarrow> closes_comment (Suc (Suc d)) m \<Longrightarrow> closes_comment (Suc d) (a # b # m)"
| higher: "joint_pair CHR ''*'' CHR ''/'' a b \<Longrightarrow> closes_comment d m \<Longrightarrow> closes_comment (Suc d) (a # b # m)"
| inside: "\<not> joint_pair CHR ''/'' CHR ''*'' a b \<Longrightarrow> \<not> joint_pair CHR ''*'' CHR ''/'' a b \<Longrightarrow> closes_comment (Suc d) (b # m)
    \<Longrightarrow> closes_comment (Suc d) (a # b # m)"

definition opens_comment :: "tok list \<Rightarrow> bool" where
  "opens_comment ts \<longleftrightarrow> (ts \<noteq> [] \<and> kind (hd ts) = Punct CHR ''#'') \<or> is_comment_open ts"

inductive uncommented :: "bool \<Rightarrow> tok list \<Rightarrow> tok list \<Rightarrow> bool" where
  stop: "uncommented start [] []"
| ends: "kind t = Newline \<or> kind t = Semicolon \<Longrightarrow> (start \<longrightarrow> start') \<Longrightarrow> uncommented start' ts out
    \<Longrightarrow> uncommented start (t # ts) out"
| marker: "is_comment t \<Longrightarrow> uncommented start ts out \<Longrightarrow> uncommented start (t # ts) out"
| guard: "is_group Bracket t \<Longrightarrow> uncommented True ts out \<Longrightarrow> uncommented True (t # ts) (t # out)"
| word: "\<not> separator t \<Longrightarrow> (start \<longrightarrow> \<not> is_group Bracket t \<and> \<not> opens_comment (t # ts)) \<Longrightarrow> uncommented False ts out
    \<Longrightarrow> uncommented start (t # ts) (t # out)"
| line: "kind a = Punct CHR ''#'' \<or> m \<noteq> [] \<and> joint_pair CHR ''/'' CHR ''/'' a (hd m) \<Longrightarrow> list_all (\<lambda>t. kind t \<noteq> Newline) m
    \<Longrightarrow> r = [] \<or> kind (hd r) = Newline \<Longrightarrow> uncommented True r out \<Longrightarrow> uncommented True (a # m @ r) out"
| block: "joint_pair CHR ''/'' CHR ''*'' a b \<Longrightarrow> closes_comment 1 m \<Longrightarrow> uncommented True r out
    \<Longrightarrow> uncommented True (a # b # m @ r) out"

text \<open>A statement as the parser expects it: bracket groups, then a body with a legal head.\<close>

definition legal_parts :: "tok list \<Rightarrow> tok list \<Rightarrow> bool" where
  "legal_parts g b \<longleftrightarrow> list_all (is_group Bracket) g \<and> b \<noteq> [] \<and> boundary_ends_statement b = Ok ()"

fun legal_held :: "held option \<Rightarrow> bool" where
  "legal_held None \<longleftrightarrow> True"
| "legal_held (Some (g, b, l, c)) \<longleftrightarrow> legal_parts g b"

definition legal_stmt :: "stmt \<Rightarrow> bool" where
  "legal_stmt st \<longleftrightarrow>
     legal_parts (s_guard st) (s_body st) \<and> (s_detached st \<longrightarrow> s_guard st \<noteq> [] \<and> starts_brace (s_body st))"

definition split_inv :: "splitter \<Rightarrow> bool" where
  "split_inv sp \<longleftrightarrow>
     list_all legal_stmt (sp_out sp) \<and> legal_held (sp_io sp) \<and> legal_held (sp_if sp) \<and>
     (sp_io sp = None \<or> sp_if sp = None) \<and> list_all (is_group Bracket) (sp_guard sp)"

lemma content_append [simp]: "content (a @ b) = content a @ content b"
  by (simp add: content_def)

lemma content_simps [simp]:
  "content [] = []"
  "content (t # ts) = (if separator t then content ts else t # content ts)"
  by (simp_all add: content_def)

lemma separator_newline [simp]: "separator (Tok Newline j l c)"
  by (simp add: separator_def)

lemma legal_parts_append: "legal_parts g b \<Longrightarrow> legal_parts g (b @ b')"
  by (auto simp: legal_parts_def boundary_ends_statement_def split: list.splits)

lemma release_if_inv: "split_inv sp \<Longrightarrow> split_inv (release_if sp) \<and> sp_if (release_if sp) = None"
  by (auto simp: release_if_def split_inv_def emit_stmt_def legal_stmt_def split: option.splits)

lemma release_if_same [simp]:
  "sp_io (release_if sp) = sp_io sp" "sp_guard (release_if sp) = sp_guard sp" "sp_body (release_if sp) = sp_body sp"
  "sp_depth (release_if sp) = sp_depth sp"
  by (simp_all add: release_if_def emit_stmt_def split: option.split)

lemma release_if_flat: "split_inv sp \<Longrightarrow> flat (release_if sp) = flat sp"
  by (auto simp: release_if_def flat_def emit_stmt_def stmt_tokens_def split_inv_def split: option.splits)

lemma flush_current_keeps:
  assumes "flush_current nl sp = Ok sp'" and "split_inv sp" and "sp_if sp = None" and "sp_io sp = None"
    and "sp_body sp \<noteq> []" and "boundary_ends_statement (sp_body sp) = Ok ()"
  shows "split_inv sp' \<and> flat sp' = flat sp"
  using assms
  by (auto simp: flush_current_def current_held_def clear_stmt_def emit_stmt_def flat_def stmt_tokens_def split_inv_def
      legal_stmt_def legal_parts_def split: if_splits)

lemma flush_or_hold_keeps:
  assumes "flush_or_hold nl sp = Ok sp'" and "split_inv sp"
    and "sp_body sp \<noteq> []" and "boundary_ends_statement (sp_body sp) = Ok ()"
  shows "split_inv sp' \<and> content (flat sp') = content (flat sp)"
proof (cases "sp_io sp")
  case None
  note io = this
  show ?thesis
  proof (cases "sp_if sp")
    case None
    then show ?thesis
      using assms io flush_current_keeps [of nl sp sp'] by (simp add: flush_or_hold_def)
  next
    case (Some h)
    show ?thesis
    proof (cases "sp_guard sp = [] \<and> is_word ''ELSE'' (hd (sp_body sp))")
      case True
      with Some io assms show ?thesis
        by (cases h) (auto simp: flush_or_hold_def Let_def clear_stmt_def emit_stmt_def split_inv_def flat_def
            stmt_tokens_def legal_stmt_def legal_parts_append split: if_splits)
    next
      case False
      with Some io assms have "flush_current nl (release_if sp) = Ok sp'"
        by (cases h) (auto simp: flush_or_hold_def split: if_splits)
      then show ?thesis
        using flush_current_keeps [of nl "release_if sp" sp'] release_if_inv release_if_flat assms io by simp
    qed
  qed
next
  case (Some h)
  with assms show ?thesis
    by (cases h) (auto simp: flush_or_hold_def clear_stmt_def emit_stmt_def split_inv_def flat_def
        stmt_tokens_def legal_stmt_def legal_parts_append split: if_splits)
qed

lemma at_boundary_keeps:
  assumes "at_boundary nl sp = Ok sp'" and "split_inv sp" and "sp_body sp \<noteq> []"
  shows "split_inv sp' \<and> content (flat sp') = content (flat sp)"
  using assms flush_or_hold_keeps [of nl sp sp'] by (auto simp: at_boundary_def split: sum.splits)

lemma split_inv_cong:
  assumes "sp_out sp' = sp_out sp" and "sp_io sp' = sp_io sp" and "sp_if sp' = sp_if sp" and "sp_guard sp' = sp_guard sp"
  shows "split_inv sp' = split_inv sp" and "flat sp' = flat (sp\<lparr>sp_body := sp_body sp'\<rparr>)"
  using assms by (simp_all add: split_inv_def flat_def)

lemma flat_body: "flat (sp\<lparr>sp_body := sp_body sp @ b\<rparr>) = flat sp @ b"
  by (simp add: flat_def)

text \<open>Updates of the position fields change neither the invariant nor the tokens.\<close>

lemma push_body_keeps: "split_inv (push_body t sp) = split_inv sp" "flat (push_body t sp) = flat sp @ [t]"
  by (simp_all add: push_body_def mark_start_def add_lines_def split_inv_def flat_def)

lemma push_guard_keeps:
  "is_group Bracket t \<Longrightarrow> split_inv (sp\<lparr>sp_guard := sp_guard sp @ [t]\<rparr>) = split_inv sp"
  "sp_body sp = [] \<Longrightarrow> flat (sp\<lparr>sp_guard := sp_guard sp @ [t]\<rparr>) = flat sp @ [t]"
  by (simp_all add: split_inv_def flat_def)

lemma bookkeeping_keeps [simp]:
  "split_inv (add_lines n sp) = split_inv sp" "flat (add_lines n sp) = flat sp"
  "split_inv (sp\<lparr>sp_detached := b\<rparr>) = split_inv sp" "flat (sp\<lparr>sp_detached := b\<rparr>) = flat sp"
  "split_inv (sp\<lparr>sp_depth := d\<rparr>) = split_inv sp" "flat (sp\<lparr>sp_depth := d\<rparr>) = flat sp"
  by (simp_all add: add_lines_def split_inv_def flat_def)

lemma at_newline_keeps:
  assumes "at_newline sp = Ok sp'" and "split_inv sp"
  shows "split_inv sp' \<and> content (flat sp') = content (flat sp)"
  using assms at_boundary_keeps [of True sp] by (auto simp: at_newline_def result_simps split: if_splits)

lemma at_semicolon_keeps:
  assumes "at_semicolon sp = Ok sp'" and "split_inv sp"
  shows "split_inv sp' \<and> content (flat sp') = content (flat sp)"
  using assms at_boundary_keeps [of False sp] by (auto simp: at_semicolon_def release_if_inv release_if_flat split: if_splits)

lemma at_comment_keeps:
  assumes "split_inv sp" and "is_comment t"
  shows "split_inv (at_comment t u sp) \<and> content (flat (at_comment t u sp)) = content (flat sp)"
proof -
  define sp1 where "sp1 = add_lines (count_lf u) (release_if sp)"
  have inv: "split_inv sp1" and fl: "flat sp1 = flat sp"
    using assms by (simp_all add: sp1_def release_if_inv release_if_flat)
  have "split_inv (sp1\<lparr>sp_body := sp_body sp1 @ [t]\<rparr>) = split_inv sp1"
    by (simp add: split_inv_def)
  then show ?thesis
    using inv fl assms(2) by (simp add: at_comment_def Let_def flip: sp1_def) (simp add: flat_body separator_def)
qed

text \<open>Statement starts: the body is empty, and then no block comment is open.\<close>

definition at_start :: "splitter \<Rightarrow> bool" where
  "at_start sp \<longleftrightarrow> sp_body sp = []"

lemma at_boundary_clears:
  "at_boundary nl sp = Ok sp' \<Longrightarrow> sp_guard sp' = [] \<and> sp_body sp' = [] \<and> sp_depth sp' = sp_depth sp"
  by (auto simp: at_boundary_def flush_or_hold_def flush_current_def clear_stmt_def emit_stmt_def Let_def
      split: sum.splits option.splits if_splits)

lemma at_newline_starts: "at_newline sp = Ok sp' \<Longrightarrow> at_start sp' \<and> sp_depth sp' = sp_depth sp"
  by (auto simp: at_newline_def at_start_def add_lines_def result_simps dest: at_boundary_clears split: if_splits)

lemma at_semicolon_starts: "at_semicolon sp = Ok sp' \<Longrightarrow> at_start sp' \<and> sp_depth sp' = sp_depth sp"
  by (auto simp: at_semicolon_def at_start_def dest: at_boundary_clears split: if_splits)

lemma at_comment_start: "at_start (at_comment t u sp) = at_start sp \<and> sp_depth (at_comment t u sp) = sp_depth sp"
  by (simp add: at_comment_def at_start_def add_lines_def Let_def)

lemma is_group_kind: "is_group d t \<longleftrightarrow> (\<exists>inner a b. kind t = Group d inner a b)"
  by (cases "(d, t)" rule: is_group.cases) auto

lemma is_comment_kind: "is_comment t \<longleftrightarrow> (\<exists>u. kind t = Comment u)"
  by (cases t rule: is_comment.cases) auto

lemma opens_comment_punct: "opens_comment (t # ts) \<Longrightarrow> \<exists>c. kind t = Punct c"
  by (cases ts) (auto simp: opens_comment_def joint_pair_def)

definition depth_inv :: "splitter \<Rightarrow> bool" where
  "depth_inv sp \<longleftrightarrow> (at_start sp \<longrightarrow> sp_depth sp = 0)"

text \<open>One turn: what it adds to the tokens of the statements, before any reading of the tokens left.\<close>

definition turn_keeps :: "tok list \<Rightarrow> splitter \<Rightarrow> splitter \<Rightarrow> tok list \<Rightarrow> bool" where
  "turn_keeps ts sp sp' r \<longleftrightarrow>
     split_inv sp' \<and> depth_inv sp' \<and>
     (\<exists>more. content (flat sp') = content (flat sp) @ more \<and>
        (\<forall>out. uncommented (at_start sp') r out \<longrightarrow> uncommented (at_start sp) ts (more @ out)))"

lemma turn_keeps_none:
  assumes "split_inv sp'" and "depth_inv sp'" and "content (flat sp') = content (flat sp)"
    and "\<And>out. uncommented (at_start sp') r out \<Longrightarrow> uncommented (at_start sp) ts out"
  shows "turn_keeps ts sp sp' r"
  using assms by (auto simp: turn_keeps_def)

lemma turn_keeps_push:
  assumes "split_inv sp" and "depth_inv sp'" and "sp' = (push_body t sp0)\<lparr>sp_detached := b\<rparr> \<or> sp' = push_body t sp0"
    and "flat sp0 = flat sp" and "split_inv sp0" and "at_start sp0 = at_start sp"
    and "at_start sp \<Longrightarrow> \<not> separator t \<and> \<not> is_group Bracket t \<and> \<not> opens_comment (t # ts)"
  shows "turn_keeps (t # ts) sp sp' ts"
proof -
  have inv: "split_inv sp'" and fl: "flat sp' = flat sp @ [t]" and start: "\<not> at_start sp'"
    using assms(3-5) by (auto simp: push_body_keeps at_start_def) (simp_all add: push_body_def)
  have "uncommented (at_start sp) (t # ts) (content [t] @ out)" if "uncommented False ts out" for out
  proof (cases "separator t")
    case True
    then have "\<not> at_start sp" "kind t = Newline \<or> kind t = Semicolon \<or> is_comment t"
      using assms(7) by (auto simp: separator_def)
    with True that show ?thesis
      by (auto intro: uncommented.ends uncommented.marker)
  next
    case False
    with that assms(7) show ?thesis
      by (auto intro: uncommented.word)
  qed
  with inv fl start assms(2) show ?thesis
    unfolding turn_keeps_def by (intro conjI exI [of _ "content [t]"]) (auto simp del: content_simps)
qed

lemma push_body_start: "\<not> at_start (push_body t sp)" "\<not> at_start ((push_body t sp)\<lparr>sp_detached := b\<rparr>)"
  by (simp_all add: push_body_def at_start_def)

lemma turn_keeps_push_body:
  assumes "split_inv sp" and "at_start sp \<Longrightarrow> \<not> separator t \<and> \<not> is_group Bracket t \<and> \<not> opens_comment (t # ts)"
  shows "turn_keeps (t # ts) sp (push_body t sp) ts"
  using assms turn_keeps_push [of sp "push_body t sp" False t sp ts] by (simp add: depth_inv_def push_body_start)

lemma skip_block_closes: "skip_block d ts = Some r \<Longrightarrow> d > 0 \<Longrightarrow> \<exists>m. ts = m @ r \<and> closes_comment d m"
proof (induction d ts rule: skip_block.induct)
  case (1 d a b ts)
  obtain e where d: "d = Suc e"
    using 1(5) by (cases d) auto
  consider "joint_pair CHR ''/'' CHR ''*'' a b"
    | "joint_pair CHR ''*'' CHR ''/'' a b" "\<not> joint_pair CHR ''/'' CHR ''*'' a b"
    | "\<not> joint_pair CHR ''/'' CHR ''*'' a b" "\<not> joint_pair CHR ''*'' CHR ''/'' a b"
    by blast
  then show ?case
  proof cases
    case 1
    with "1.IH"(1) "1.prems" d obtain m where "ts = m @ r" "closes_comment (Suc (Suc e)) m"
      by auto
    with 1 d closes_comment.deeper show ?thesis
      by (intro exI [of _ "a # b # m"]) simp
  next
    case 2
    show ?thesis
    proof (cases "d = 1")
      case True
      with 2 "1.prems" have "ts = r"
        by simp
      with 2 True show ?thesis
        using closes_comment.higher [OF 2(1) closes_comment.closed] by (intro exI [of _ "[a, b]"]) simp
    next
      case False
      with "1.IH"(2) "1.prems" 2 d obtain m where "ts = m @ r" "closes_comment e m"
        by auto
      with 2 d closes_comment.higher show ?thesis
        by (intro exI [of _ "a # b # m"]) simp
    qed
  next
    case 3
    with "1.IH"(3) "1.prems" obtain m where m: "b # ts = m @ r" "closes_comment d m"
      by auto
    moreover from m(2) d obtain m' where "m = b # m'"
      using m(1) by (cases m) (auto elim: closes_comment.cases)
    ultimately show ?thesis
      using 3 d closes_comment.inside by (intro exI [of _ "a # m"]) simp
  qed
qed simp_all

text \<open>The comments a turn skips are comments of the reading.\<close>

lemma line_comment_skipped:
  assumes "kind t = Punct CHR ''#'' \<or> is_comment_open (t # ts) \<and> second_is_slash (t # ts)"
    and "uncommented True (to_newline (t # ts)) out"
  shows "uncommented True (t # ts) out"
proof -
  let ?m = "takeWhile (\<lambda>t. \<not> is_newline t) ts"
  have "\<not> is_newline t"
    using assms(1) by (cases ts) (auto simp: is_newline_def joint_pair_def)
  then have r: "to_newline (t # ts) = to_newline ts" and ts: "ts = ?m @ to_newline ts"
    by (simp_all add: to_newline_def)
  have "kind t = Punct CHR ''#'' \<or> ?m \<noteq> [] \<and> joint_pair CHR ''/'' CHR ''/'' t (hd ?m)"
    using assms(1) by (cases ts) (auto simp: joint_pair_def is_newline_def)
  moreover have "list_all (\<lambda>t. kind t \<noteq> Newline) ?m"
    by (auto simp: list_all_iff is_newline_def dest: set_takeWhileD)
  moreover have "to_newline ts = [] \<or> kind (hd (to_newline ts)) = Newline"
    using hd_dropWhile [of "\<lambda>t. \<not> is_newline t" ts] by (auto simp: to_newline_def is_newline_def)
  ultimately have "uncommented True (t # ?m @ to_newline ts) out"
    using assms(2) r by (intro uncommented.line) simp_all
  with ts show ?thesis
    by simp
qed

lemma block_comment_skipped:
  assumes "joint_pair CHR ''/'' CHR ''*'' t u" and "skip_inline_comment (t # u # ts) = Some r" and "uncommented True r out"
  shows "uncommented True (t # u # ts) out"
proof -
  have "skip_block 1 ts = Some r"
    using assms(1,2) by (auto simp: joint_pair_def)
  then obtain m where "ts = m @ r" "closes_comment 1 m"
    using skip_block_closes [of 1] by auto
  with assms(1,3) show ?thesis
    by (simp add: uncommented.block)
qed

lemma is_comment_open_slash: "is_comment_open (t # ts) \<Longrightarrow> kind t = Punct CHR ''/''"
  by (cases ts) (auto simp: joint_pair_def)

lemma split_plain_keeps:
  assumes "split_plain t ts sp = Ok (sp', r)" and "split_inv sp" and "sp_depth sp = 0"
  shows "turn_keeps (t # ts) sp sp' r"
proof (cases "kind t")
  case Newline
  then have "at_newline sp = Ok sp'" "r = ts"
    using assms(1) by (auto simp: split_plain_def result_simps)
  with Newline at_newline_keeps [of sp sp'] at_newline_starts [of sp sp'] assms(2,3) show ?thesis
    by (intro turn_keeps_none) (auto simp: depth_inv_def intro: uncommented.ends)
next
  case Semicolon
  then have "at_semicolon sp = Ok sp'" "r = ts"
    using assms(1) by (auto simp: split_plain_def result_simps)
  with Semicolon at_semicolon_keeps [of sp sp'] at_semicolon_starts [of sp sp'] assms(2,3) show ?thesis
    by (intro turn_keeps_none) (auto simp: depth_inv_def intro: uncommented.ends)
next
  case (Comment u)
  then have "is_comment t" "sp' = at_comment t u sp" "r = ts"
    using assms(1) by (simp_all add: split_plain_def is_comment_kind)
  with at_comment_keeps [of sp t u] at_comment_start [of t u sp] assms(2,3) show ?thesis
    by (intro turn_keeps_none) (auto simp: depth_inv_def intro: uncommented.marker)
next
  case (Punct c)
  show ?thesis
  proof (cases "at_start sp \<and> opens_comment (t # ts)")
    case True
    have sp': "sp' = sp"
      using True assms(1) Punct
      by (auto simp: split_plain_def at_start_def opens_comment_def is_comment_open_slash split: if_splits option.splits)
    have "uncommented True (t # ts) out" if "uncommented True r out" for out
    proof (cases "is_comment_open (t # ts) \<and> \<not> second_is_slash (t # ts)")
      case True
      then obtain u us where ts: "ts = u # us" "joint_pair CHR ''/'' CHR ''*'' t u"
        by (cases ts) (auto simp: joint_pair_def)
      moreover have "skip_inline_comment (t # ts) = Some r"
        using True ts Punct assms(1) \<open>at_start sp \<and> opens_comment (t # ts)\<close>
        by (auto simp: split_plain_def at_start_def joint_pair_def simp del: skip_inline_comment.simps split: option.splits)
      ultimately show ?thesis
        using block_comment_skipped that by blast
    next
      case False
      with True have l: "kind t = Punct CHR ''#'' \<or> is_comment_open (t # ts) \<and> second_is_slash (t # ts)"
        by (auto simp: opens_comment_def)
      then have "r = to_newline (t # ts)"
        using True assms(1) Punct
        by (auto simp: split_plain_def at_start_def opens_comment_def is_comment_open_slash split: if_splits option.splits)
      with l that show ?thesis
        by (intro line_comment_skipped) simp_all
    qed
    with True assms(2,3) sp' show ?thesis
      by (intro turn_keeps_none) (auto simp: depth_inv_def)
  next
    case False
    with Punct assms(1) have "sp' = push_body t sp" "r = ts"
      by (auto simp: split_plain_def at_start_def opens_comment_def split: if_splits)
    then show ?thesis
      using False Punct assms(2) by (auto simp: separator_def is_group_kind is_comment_kind intro!: turn_keeps_push_body)
  qed
next
  case (Group d inner a b)
  show ?thesis
  proof (cases "d = Bracket \<and> at_start sp")
    case True
    then have sp': "sp' = add_lines (tok_newlines t) (sp\<lparr>sp_guard := sp_guard sp @ [t], sp_detached := False\<rparr>)" "r = ts"
      using assms(1) Group by (auto simp: split_plain_def at_start_def)
    have g: "is_group Bracket t"
      using Group True by (simp add: is_group_kind)
    then have "\<not> separator t"
      using Group by (simp add: separator_def is_comment_kind)
    then have "content (flat sp') = content (flat sp) @ [t]" "split_inv sp'" "at_start sp'" "depth_inv sp'"
      using sp' g True assms(2,3) by (auto simp: flat_def split_inv_def at_start_def add_lines_def depth_inv_def)
    with True g sp' show ?thesis
      unfolding turn_keeps_def by (intro conjI exI [of _ "[t]"]) (auto intro: uncommented.guard)
  next
    case False
    then have "sp' = push_body t sp" "r = ts"
      using assms(1) Group by (auto simp: split_plain_def at_start_def)
    then show ?thesis
      using False Group assms(2)
      by (auto simp: separator_def is_group_kind is_comment_kind dest: opens_comment_punct intro!: turn_keeps_push_body)
  qed
qed (use assms in \<open>auto simp: split_plain_def separator_def is_group_kind is_comment_kind
    dest: opens_comment_punct intro!: turn_keeps_push_body\<close>)

lemma turn_keeps_depth: "turn_keeps ts (sp\<lparr>sp_depth := d\<rparr>) sp' r = turn_keeps ts sp sp' r"
  by (simp add: turn_keeps_def at_start_def)

lemma split_step_keeps:
  assumes "split_step t ts sp = Ok (sp', r)" and "split_inv sp" and "depth_inv sp"
  shows "turn_keeps (t # ts) sp sp' r"
proof (cases "sp_body sp = [] \<and> sp_depth sp = 0 \<and> block_open_at (t # ts)")
  case True
  then obtain u us where ts: "ts = u # us" "joint_pair CHR ''/'' CHR ''*'' t u"
    by (cases ts) (auto simp: block_open_at_def)
  from True assms(1) obtain n where skip: "skip_inline_comment (t # ts) = Some r" and sp': "sp' = add_lines n sp"
    by (auto simp: split_step_def split: option.splits)
  have "at_start sp'" "at_start sp" "depth_inv sp'"
    using True assms(3) sp' by (auto simp: at_start_def add_lines_def depth_inv_def)
  moreover have "uncommented True (t # ts) out" if "uncommented True r out" for out
    using block_comment_skipped [OF ts(2) _ that] skip ts(1) by simp
  ultimately show ?thesis
    using assms(2) sp' by (intro turn_keeps_none) simp_all
next
  case False
  let ?d = "if block_open_at (t # ts) \<and> (sp_depth sp > 0 \<or> sp_body sp \<noteq> []) then sp_depth sp + 1
            else if block_close_at (t # ts) \<and> sp_depth sp > 0 then sp_depth sp - 1 else sp_depth sp"
  obtain d where d: "d = ?d"
    by blast
  then have step: "split_step t ts sp =
       (if d > 0 then Ok ((push_body t (sp\<lparr>sp_depth := d\<rparr>))\<lparr>sp_detached := False\<rparr>, ts)
        else split_plain t ts (sp\<lparr>sp_depth := d\<rparr>))"
    using False unfolding split_step_def Let_def by (simp only: if_False)
  show ?thesis
  proof (cases "d > 0")
    case True
    have "\<not> at_start sp"
    proof
      assume "at_start sp"
      then have start: "sp_body sp = []" "sp_depth sp = 0"
        using assms(3) by (simp_all add: depth_inv_def at_start_def)
      then have "d = 0"
        unfolding d by simp
      with True show False
        by simp
    qed
    moreover have sp': "sp' = (push_body t (sp\<lparr>sp_depth := d\<rparr>))\<lparr>sp_detached := False\<rparr>" and "r = ts"
      using True assms(1) unfolding step by simp_all
    moreover have "depth_inv sp'"
      by (simp add: depth_inv_def push_body_start sp')
    ultimately show ?thesis
      using assms(2) turn_keeps_push [of sp sp' False t "sp\<lparr>sp_depth := d\<rparr>" ts] by (simp add: at_start_def)
  next
    case False
    with assms step show ?thesis
      using split_plain_keeps [of t ts "sp\<lparr>sp_depth := d\<rparr>" sp' r] by (simp add: turn_keeps_depth)
  qed
qed

lemma split_run_keeps:
  assumes "split_run ts sp = Ok sp'" and "split_inv sp" and "depth_inv sp"
  shows "split_inv sp' \<and> (\<exists>more. content (flat sp') = content (flat sp) @ more \<and> uncommented (at_start sp) ts more)"
  using assms
proof (induction ts sp rule: split_run.induct)
  case (1 sp)
  then show ?case
    by (auto intro: uncommented.stop)
next
  case (2 t ts sp)
  then obtain sp1 r where step: "split_step t ts sp = Ok (sp1, r)" and rest: "split_run r sp1 = Ok sp'"
    by (auto simp: result_simps)
  from split_step_keeps [OF step 2(3,4)] obtain more where more: "split_inv sp1" "depth_inv sp1"
    "content (flat sp1) = content (flat sp) @ more"
    "\<And>out. uncommented (at_start sp1) r out \<Longrightarrow> uncommented (at_start sp) (t # ts) (more @ out)"
    unfolding turn_keeps_def by blast
  from 2(1) [OF step refl rest more(1,2)] more(3,4) show ?case
    by auto
qed

text \<open>Without a comment opener the reading keeps all.\<close>

lemma opens_comment_text: "opens_comment ts \<Longrightarrow> comment_text (ts @ r)"
  by (cases ts rule: is_comment_open.cases) (auto simp: opens_comment_def)

lemma uncommented_plain: "uncommented start ts out \<Longrightarrow> \<not> comment_text ts \<Longrightarrow> out = content ts"
proof (induction rule: uncommented.induct)
  case (line a m r out)
  then show ?case
    by (cases m) auto
qed (auto simp: separator_def is_group_kind is_comment_kind)

lemma flat_no_holds:
  assumes "split_inv sp" and "sp_io sp = None" and "sp_guard sp = []" and "sp_body sp = []"
  shows "list_all legal_stmt (sp_out (release_if sp)) \<and> concat (map stmt_tokens (sp_out (release_if sp))) = flat sp"
  using release_if_inv [OF assms(1)] release_if_flat [OF assms(1)] assms by (simp add: split_inv_def flat_def)

lemma content_concat: "content (concat xss) = concat (map content xss)"
  by (induction xss) simp_all

lemma split_end_keeps:
  assumes "split_end sp = Ok ss" and "split_inv sp"
  shows "list_all legal_stmt ss \<and> concat (map (content \<circ> stmt_tokens) ss) = content (flat sp)"
proof -
  obtain sp1 where inv: "split_inv sp1" and same: "content (flat sp1) = content (flat sp)"
    and clear: "sp_guard sp1 = []" "sp_body sp1 = []"
    and stop: "(case sp_io sp1 of
          Some (g, b, l, c) \<Rightarrow> Err (split_error sp1 l c (''WITH_IO block must be followed by '{'' @ [CHR 0x27]))
        | None \<Rightarrow> Ok (sp_out (release_if sp1))) = Ok ss"
    using assms at_boundary_keeps [of False sp] at_boundary_clears [of False sp]
    by (auto simp: split_end_def result_simps split: if_splits)
  have "sp_io sp1 = None" and "ss = sp_out (release_if sp1)"
    using stop by (cases "sp_io sp1"; auto)+
  then show ?thesis
    using flat_no_holds [OF inv _ clear] same by (simp flip: content_concat map_map)
qed

text \<open>C16. 
  Splitting a script or block into statements: the tokens of the statements, read in order and without
  separators, are the reading of the input without comments. A comment is left out where a statement may start, and
  only there: from its opener to the end of the line, or to the closer that matches it. Every other token but the
  separators is kept, in order, also in a text with comments, and all are when no comment opener occurs. Every
  statement is one the parser can take: its guards are bracket groups, its body opens with a word, a variable or a
  block, and only a guarded block is marked as detached.
\<close>

theorem splitting_keeps_tokens:
  assumes "split_statements ts base = Ok ss"
  shows "list_all legal_stmt ss \<and>
    uncommented True ts (concat (map (content \<circ> stmt_tokens) ss)) \<and>
    (\<not> comment_text ts \<longrightarrow> concat (map (content \<circ> stmt_tokens) ss) = content ts)"
proof -
  obtain sp where run: "split_run ts (fresh_splitter base) = Ok sp" and stop: "split_end sp = Ok ss"
    using assms by (auto simp: split_statements_def result_simps)
  have "split_inv (fresh_splitter base)" "depth_inv (fresh_splitter base)" "at_start (fresh_splitter base)"
    "flat (fresh_splitter base) = []"
    by (simp_all add: fresh_splitter_def split_inv_def flat_def depth_inv_def at_start_def)
  with split_run_keeps [OF run] split_end_keeps [OF stop] uncommented_plain show ?thesis
    by auto
qed

definition sample_if :: "tok list" where
  "sample_if =
     [Tok (Group Bracket [Tok (Word ''linux'') False 1 2] False False) False 1 1, Tok (Word ''IF'') False 1 9,
      Tok (Punct CHR ''$'') False 1 12, Tok (Word ''a'') True 1 13, Tok (Group Brace [] False False) False 1 15,
      Tok Newline False 1 17]"

definition sample_else :: "tok list" where
  "sample_else = [Tok (Word ''ELSE'') False 2 1, Tok (Group Brace [] False False) False 2 6]"

definition sample_echo :: "tok list" where
  "sample_echo = [Tok Semicolon False 2 8, Tok (Word ''ECHO'') False 2 10, Tok (Word ''b'') False 2 15]"

definition sample_parts :: "token_error + stmt list \<Rightarrow> (tok list \<times> tok list) list option" where
  "sample_parts r = (case r of Inl _ \<Rightarrow> None | Inr ss \<Rightarrow> Some (map (\<lambda>s. (s_guard s, s_body s)) ss))"

lemma sample_split:
  "split_statements (sample_if @ sample_else @ sample_echo) 1 =
     Ok [\<lparr>s_guard = [sample_if ! 0], s_body = tl (butlast sample_if) @ Tok Newline False 0 0 # sample_else,
          s_detached = False, s_line = 1, s_col = 9\<rparr>,
         \<lparr>s_guard = [], s_body = tl sample_echo, s_detached = False, s_line = 2, s_col = 10\<rparr>]"
  by code_simp

text \<open>A line comment before a statement is left out, up to the line break; what follows it is kept.\<close>

definition sample_note :: "tok list" where
  "sample_note = [Tok (Punct CHR ''#'') False 1 1, Tok (Word ''note'') False 1 3, Tok Newline False 1 7]"

lemma sample_note_split:
  "split_statements (sample_note @ tl sample_echo) 1 =
     Ok [\<lparr>s_guard = [], s_body = tl sample_echo, s_detached = False, s_line = 2, s_col = 10\<rparr>]"
  by code_simp

theorem splitting_keeps_tokens_witness:
  "(\<exists>ss. split_statements (sample_if @ sample_else @ sample_echo) 1 = Ok ss \<and> length ss = 2 \<and>
     concat (map (content \<circ> stmt_tokens) ss) = content (sample_if @ sample_else @ sample_echo))
   \<and> uncommented True (sample_note @ tl sample_echo) (tl sample_echo)"
proof -
  have "\<not> comment_text (sample_if @ sample_else @ sample_echo)"
    by code_simp
  moreover have "content (tl sample_echo) = tl sample_echo"
    by code_simp
  ultimately show ?thesis
    using splitting_keeps_tokens [OF sample_split] sample_split splitting_keeps_tokens [OF sample_note_split]
    by (auto simp: stmt_tokens_def)
qed

text \<open>
  A comment at the end of the line of an \<open>ELSE\<close> changes the statements: the marker releases the held \<open>IF\<close>
  before the \<open>ELSE\<close> in hand is merged with it, so the chain falls apart.
\<close>

theorem comment_breaks_else:
  "(\<exists>s. split_statements (sample_if @ sample_else @ [Tok Newline False 2 8]) 1 = Ok [s]) \<and>
   (\<exists>s s'. split_statements (sample_if @ sample_else @ [Tok (Comment '' note'') False 2 9, Tok Newline False 2 16]) 1
      = Ok [s, s'] \<and> is_word ''ELSE'' (hd (s_body s')))"
proof -
  have "sample_parts (split_statements (sample_if @ sample_else @ [Tok Newline False 2 8]) 1) =
      Some [([sample_if ! 0], tl (butlast sample_if) @ Tok Newline False 0 0 # sample_else)]"
    by code_simp
  moreover have "sample_parts
      (split_statements (sample_if @ sample_else @ [Tok (Comment '' note'') False 2 9, Tok Newline False 2 16]) 1) =
      Some [([sample_if ! 0], tl (butlast sample_if)), ([], sample_else)]"
    by code_simp
  moreover have "is_word ''ELSE'' (hd sample_else)"
    by code_simp
  ultimately show ?thesis
    by (auto simp: sample_parts_def split: sum.splits)
qed

end
