(* ===== verification/Guard_Parser.thy ===== *)
theory Guard_Parser
  imports Expr_Parser Guards
begin

text \<open>
  The guard parser of \<open>oxdock-parser/src/parser.rs\<close> and the printer of guards of \<open>ast.rs\<close>. The cursor is
  the list of tokens left, the nesting of groups is the fuel of the recursion. Shown: parsing ends and
  never hits the panics of the smart constructors, what it returns keeps to the closed domains that the
  analysis of guards relies on, and a printed guard parses back to itself.
\<close>

section \<open>Cursor and terms\<close>

fun sep_by :: "string \<Rightarrow> string list \<Rightarrow> string" where
  "sep_by sep [] = []"
| "sep_by sep [x] = x"
| "sep_by sep (x # xs) = x @ sep @ sep_by sep xs"

datatype guard_error = GuardMsg string | GuardPanic | GuardFuel

type_synonym guard_parser = "tok list \<Rightarrow> guard_error + guard_expr \<times> tok list"

definition skip_newlines :: "tok list \<Rightarrow> tok list" where
  "skip_newlines ts = dropWhile is_newline ts"

definition eat_punct_nl :: "char \<Rightarrow> tok list \<Rightarrow> bool \<times> tok list" where
  "eat_punct_nl c ts = eat_punct c (skip_newlines ts)"

definition eat_paren_group :: "tok list \<Rightarrow> (tok list \<times> tok list) option" where
  "eat_paren_group ts =
     (case skip_newlines ts of
        t # r \<Rightarrow> (case kind t of Group d inner _ _ \<Rightarrow> if d = Paren then Some (inner, r) else None | _ \<Rightarrow> None)
      | [] \<Rightarrow> None)"

definition key_char :: "char \<Rightarrow> bool" where
  "key_char c \<longleftrightarrow> c \<notin> set '':=!,|()]$''"

definition run_piece :: "tok \<Rightarrow> string option" where
  "run_piece t =
     (case kind t of
        Word w \<Rightarrow> Some w
      | Punct c \<Rightarrow> if key_char c then Some [c] else None
      | Semicolon \<Rightarrow> Some '';''
      | _ \<Rightarrow> None)"

fun run_pieces :: "string \<Rightarrow> tok list \<Rightarrow> string \<times> tok list" where
  "run_pieces out [] = (out, [])"
| "run_pieces out (t # ts) =
     (if out \<noteq> [] \<and> \<not> joint t then (out, t # ts)
      else (case run_piece t of None \<Rightarrow> (out, t # ts) | Some w \<Rightarrow> run_pieces (out @ w) ts))"

definition bare_run :: "string \<Rightarrow> tok list \<Rightarrow> guard_error + string \<times> tok list" where
  "bare_run what ts =
     (case run_pieces [] ts of (out, r) \<Rightarrow> if out = [] then Err (GuardMsg (''missing '' @ what)) else Ok (out, r))"

definition check_term_end :: "tok list \<Rightarrow> guard_error + tok list" where
  "check_term_end ts =
     (let r = skip_newlines ts in
      case r of
        [] \<Rightarrow> Ok r
      | t # _ \<Rightarrow>
          (case kind t of
             Group d _ _ _ \<Rightarrow> if d = Paren then Err (GuardMsg ''unexpected `(` after guard term'') else Ok r
           | Punct c \<Rightarrow>
               if c \<in> set '':=!'' then Err (GuardMsg (''unexpected `'' @ [c] @ ''` after guard term'')) else Ok r
           | _ \<Rightarrow> Ok r))"

definition os_guard :: "string \<Rightarrow> guard_expr" where
  "os_guard value = GPredicate (Attr NsOs None (Some value))"

fun of_smart :: "guard_expr option \<Rightarrow> guard_error + guard_expr" where
  "of_smart None = Err GuardPanic"
| "of_smart (Some g) = Ok g"

definition ns_guard :: "string \<Rightarrow> string \<Rightarrow> guard_error + guard_expr" where
  "ns_guard ns val =
     (if ns = ''family'' then
        (if val = ''unix'' then of_smart (guard_or [os_guard ''macos'', os_guard ''linux''])
         else if val = ''windows'' then Ok (os_guard ''windows'')
         else Err (GuardMsg (''unknown family '' @ [squote] @ val @ [squote] @ ''; known values: unix, windows'')))
      else if ns = ''os'' then
        (if val \<in> set [''macos'', ''linux'', ''windows''] then Ok (os_guard val)
         else Err (GuardMsg (''unknown os '' @ [squote] @ val @ [squote] @ ''; known values: macos, linux, windows'')))
      else if ns = ''arch'' then
        (if val \<in> set ARCH_VALUES then Ok (GPredicate (Attr NsArch None (Some val)))
         else Err (GuardMsg (''unknown arch '' @ [squote] @ val @ [squote] @ ''; known values: '' @ sep_by '', '' ARCH_VALUES)))
      else Err (GuardMsg (''unknown guard namespace '' @ [squote] @ ns @ [squote] @
        ''; known namespaces: family, os, arch, env, bool'')))"

section \<open>Values of comparisons\<close>

definition value_stops :: "tok list \<Rightarrow> bool" where
  "value_stops ts =
     (case ts of
        [] \<Rightarrow> True
      | t # _ \<Rightarrow>
          (case kind t of
             Newline \<Rightarrow> True
           | Comment _ \<Rightarrow> True
           | Punct c \<Rightarrow> c \<in> set '',|])$'' \<or> c = CHR ''/'' \<and> is_comment_open ts
           | Group _ _ _ _ \<Rightarrow> True
           | _ \<Rightarrow> False))"

fun value_piece :: "tok_kind \<Rightarrow> string" where
  "value_piece (Word w) = w"
| "value_piece (Punct c) = [c]"
| "value_piece Semicolon = '';''"
| "value_piece (Str text q) = [q] @ text @ [q]"
| "value_piece (BlockStr full) = full"
| "value_piece _ = []"

fun value_pieces :: "string \<Rightarrow> tok list \<Rightarrow> string \<times> tok list" where
  "value_pieces out [] = (out, [])"
| "value_pieces out (t # ts) =
     (if value_stops (t # ts) then (out, t # ts)
      else value_pieces ((if out \<noteq> [] \<and> \<not> joint t then out @ '' '' else out) @ value_piece (kind t)) ts)"

definition value_run :: "tok list \<Rightarrow> guard_error + string \<times> tok list" where
  "value_run ts =
     (case value_pieces [] ts of (out, r) \<Rightarrow> if out = [] then Err (GuardMsg ''missing guard value'') else Ok (out, r))"

definition compared_value :: "string \<Rightarrow> tok list \<Rightarrow> guard_error + string \<times> tok list" where
  "compared_value needs ts =
     (case skip_newlines ts of
        [] \<Rightarrow> Err (GuardMsg needs)
      | t # r \<Rightarrow>
          (case kind t of
             Str text _ \<Rightarrow> Ok (text, r)
           | BlockStr full \<Rightarrow> Ok (lower_block_string full, r)
           | _ \<Rightarrow> value_run (t # r)))"

text \<open>The arguments of \<open>eq\<close> and \<open>ne\<close>.\<close>

definition eq_args :: "string \<Rightarrow> tok list \<Rightarrow> guard_error + guard_expr" where
  "eq_args word inner =
     (let needs = ''`'' @ word @ ''` requires `(env:KEY, value)`'' in
      case skip_newlines inner of
        [] \<Rightarrow> Err (GuardMsg needs)
      | t # r0 \<Rightarrow>
          if kind t \<noteq> Word ''env'' then Err (GuardMsg needs)
          else
            (case eat_punct_nl CHR '':'' r0 of
               (False, _) \<Rightarrow> Err (GuardMsg needs)
             | (True, r1) \<Rightarrow>
                 bind_result (bare_run ''guard key'' r1) (\<lambda>(key, r2).
                   case eat_punct_nl CHR '','' r2 of
                     (False, _) \<Rightarrow> Err (GuardMsg needs)
                   | (True, r3) \<Rightarrow>
                       bind_result (compared_value needs r3) (\<lambda>(val, r4).
                         if skip_newlines r4 \<noteq> [] then Err (GuardMsg (''unexpected text after `'' @ word @ ''` value''))
                         else Ok (GPredicate (Attr NsEnv (Some key) (Some val)))))))"

section \<open>Guard terms\<close>

definition INJECT_PREFIX :: string where
  "INJECT_PREFIX = ''__OXDOCK_INJECT_''"

definition INJECT_SUFFIX :: string where
  "INJECT_SUFFIX = ''__''"

definition inject_shape :: "string \<Rightarrow> bool" where
  "inject_shape u \<longleftrightarrow>
     suffix INJECT_SUFFIX u \<and>
     (let n = take (length u - length INJECT_SUFFIX) u in n \<noteq> [] \<and> list_all is_ascii_digit n)"

text \<open>A colon, a bare run, and the end of the term.\<close>

definition colon_run :: "string \<Rightarrow> string \<Rightarrow> tok list \<Rightarrow> guard_error + string \<times> tok list" where
  "colon_run needs what ts =
     (case eat_punct_nl CHR '':'' ts of
        (False, _) \<Rightarrow> Err (GuardMsg needs)
      | (True, r) \<Rightarrow>
          bind_result (bare_run what r) (\<lambda>(val, r'). bind_result (check_term_end r') (\<lambda>r''. Ok (val, r''))))"

definition parse_guard_word :: "string \<Rightarrow> guard_parser" where
  "parse_guard_word word r =
     (if prefix INJECT_PREFIX word then
        (if inject_shape (drop (length INJECT_PREFIX) word) then Ok (GPredicate (Attr NsEnv (Some word) None), r)
         else Err (GuardMsg ''missing guard predicate''))
      else if word = ''eq'' \<or> word = ''ne'' then
        (case eat_paren_group r of
           None \<Rightarrow> Err (GuardMsg (''`'' @ word @ ''` requires `(env:KEY, value)`''))
         | Some (inner, r') \<Rightarrow>
             bind_result (eq_args word inner) (\<lambda>pred. Ok (if word = ''ne'' then GNot pred else pred, r')))
      else if word = ''bool'' then
        bind_result (colon_run ''`bool` requires `:value`'' ''bool value'' r) (\<lambda>(val, r').
          Ok (GPredicate (Attr NsBool None (Some val)), r'))
      else if word = ''env'' then
        bind_result (colon_run ''`env` requires `:KEY`'' ''guard key'' r) (\<lambda>(key, r').
          Ok (GPredicate (Attr NsEnv (Some key) None), r'))
      else
        bind_result (colon_run ''missing guard predicate'' ''guard value'' r) (\<lambda>(val, r').
          bind_result (ns_guard word val) (\<lambda>g. Ok (g, r'))))"

definition parse_guard_term :: guard_parser where
  "parse_guard_term ts =
     (case skip_newlines ts of
        [] \<Rightarrow> Err (GuardMsg ''missing guard predicate'')
      | t # r \<Rightarrow>
          (case kind t of
             Word w \<Rightarrow> parse_guard_word w r
           | Punct c \<Rightarrow>
               if c = CHR ''!'' then Err (GuardMsg ''unexpected `!` in guard; negation uses `not(...)`'')
               else Err (GuardMsg ''missing guard predicate'')
           | _ \<Rightarrow> Err (GuardMsg ''missing guard predicate'')))"

section \<open>Calls, groups and sequences\<close>

text \<open>The name of a call and its arguments when the cursor sits on one of the three connectives.\<close>

definition at_call :: "tok list \<Rightarrow> string \<Rightarrow> (tok list \<times> tok list) option" where
  "at_call ts name =
     (case skip_newlines ts of
        t # r \<Rightarrow> if kind t = Word name then eat_paren_group r else None
      | [] \<Rightarrow> None)"

text \<open>One argument, to its end.\<close>

definition guard_part :: "string \<Rightarrow> guard_parser \<Rightarrow> tok list \<Rightarrow> guard_error + guard_expr" where
  "guard_part what seq part =
     bind_result (seq part) (\<lambda>(g, r). if skip_newlines r = [] then Ok g else Err (GuardMsg (''unexpected text in '' @ what)))"

definition not_call :: "guard_parser \<Rightarrow> tok list \<Rightarrow> guard_error + guard_expr" where
  "not_call seq inner =
     (case split_top_commas inner of
        [part] \<Rightarrow> bind_result (guard_part ''`not`'' seq part) (\<lambda>g. Ok (GNot g))
      | _ \<Rightarrow> Err (GuardMsg ''`not` takes exactly one guard expression''))"

definition any_call :: "guard_parser \<Rightarrow> tok list \<Rightarrow> guard_error + guard_expr" where
  "any_call seq inner =
     (let parts = split_top_commas inner in
      if length parts < 2 then Err (GuardMsg ''any(...) requires at least two guard expressions'')
      else bind_result (map_result (guard_part ''`any`'' seq) parts) (\<lambda>gs. of_smart (guard_or gs)))"

definition all_part :: "guard_parser \<Rightarrow> tok list \<Rightarrow> guard_error + guard_expr" where
  "all_part seq part =
     (if list_all is_newline part then Err (GuardMsg ''all(...) requires at least one guard expression'')
      else guard_part ''`all`'' seq part)"

definition all_call :: "guard_parser \<Rightarrow> tok list \<Rightarrow> guard_error + guard_expr" where
  "all_call seq inner =
     bind_result (map_result (all_part seq) (split_top_commas inner)) (\<lambda>gs. of_smart (guard_all gs))"

definition with_tail :: "tok list \<Rightarrow> guard_error + guard_expr \<Rightarrow> guard_error + guard_expr \<times> tok list" where
  "with_tail r res = bind_result res (\<lambda>g. Ok (g, r))"

definition parse_paren_or_term :: "guard_parser \<Rightarrow> guard_parser" where
  "parse_paren_or_term seq ts =
     (case skip_newlines ts of
        [] \<Rightarrow> Err (GuardMsg ''missing guard expression'')
      | t # r \<Rightarrow>
          (case kind t of
             Group d inner _ _ \<Rightarrow>
               if d = Paren then with_tail r (guard_part ''guard group'' seq inner) else parse_guard_term (t # r)
           | _ \<Rightarrow> parse_guard_term (t # r)))"

definition guard_primary :: "guard_parser \<Rightarrow> guard_parser" where
  "guard_primary seq ts =
     (case at_call ts ''not'' of
        Some (inner, r) \<Rightarrow> with_tail r (not_call seq inner)
      | None \<Rightarrow>
          (case at_call ts ''any'' of
             Some (inner, r) \<Rightarrow> with_tail r (any_call seq inner)
           | None \<Rightarrow>
               (case at_call ts ''all'' of
                  Some (inner, r) \<Rightarrow> with_tail r (all_call seq inner)
                | None \<Rightarrow> parse_paren_or_term seq ts)))"

fun guard_list :: "nat \<Rightarrow> guard_parser \<Rightarrow> tok list \<Rightarrow> guard_error + guard_expr list \<times> tok list" where
  "guard_list 0 primary ts = Err GuardFuel"
| "guard_list (Suc n) primary ts =
     bind_result (primary ts) (\<lambda>(g, r).
       case eat_punct_nl CHR '','' r of
         (False, r') \<Rightarrow> Ok ([g], r')
       | (True, r') \<Rightarrow> bind_result (guard_list n primary r') (\<lambda>(gs, r''). Ok (g # gs, r'')))"

definition guard_seq :: "guard_parser \<Rightarrow> guard_parser" where
  "guard_seq primary ts =
     bind_result (guard_list (Suc (length ts)) primary ts) (\<lambda>(gs, r).
       case gs of [g] \<Rightarrow> Ok (g, r) | _ \<Rightarrow> with_tail r (of_smart (guard_all gs)))"

text \<open>The nesting of groups is the fuel of the two parsers that call each other.\<close>

fun parse_guard_seq :: "nat \<Rightarrow> guard_parser" where
  "parse_guard_seq 0 ts = Err GuardFuel"
| "parse_guard_seq (Suc n) ts = guard_seq (guard_primary (parse_guard_seq n)) ts"

definition parse_guard_at :: "nat \<Rightarrow> tok list \<Rightarrow> guard_error + guard_expr" where
  "parse_guard_at n inner = guard_part ''guard'' (parse_guard_seq n) inner"

definition parse_guard_inner :: "tok list \<Rightarrow> guard_error + guard_expr" where
  "parse_guard_inner inner = parse_guard_at (Suc (toks_depth inner)) inner"

definition parse_single_guard :: "tok list \<Rightarrow> guard_error + guard_expr" where
  "parse_single_guard ts = (if skip_newlines ts = [] then Err (GuardMsg ''empty guard'') else parse_guard_inner ts)"

fun combine_groups :: "guard_expr option \<Rightarrow> tok list \<Rightarrow> guard_error + guard_expr option" where
  "combine_groups acc [] = Ok acc"
| "combine_groups acc (t # ts) =
     (case kind t of
        Group d inner _ _ \<Rightarrow>
          if d \<noteq> Bracket then Err (GuardMsg ''unsupported non-bracket guard'')
          else bind_result (parse_guard_inner inner) (\<lambda>e.
            case acc of
              None \<Rightarrow> combine_groups (Some e) ts
            | Some prev \<Rightarrow> bind_result (of_smart (guard_all [prev, e])) (\<lambda>g. combine_groups (Some g) ts))
      | _ \<Rightarrow> Err (GuardMsg ''unsupported non-bracket guard''))"

definition parse_guard_groups :: "tok list \<Rightarrow> guard_error + guard_expr option" where
  "parse_guard_groups guard = combine_groups None guard"

datatype text_error = LexFailure lex_error | GuardFailure guard_error

definition parse_guard_expr_str :: "string \<Rightarrow> (text_error + guard_expr) option" where
  "parse_guard_expr_str input =
     (case lex_str (Suc (length input)) input of
        None \<Rightarrow> None
      | Some (Inl e) \<Rightarrow> Some (Err (LexFailure e))
      | Some (Inr ts) \<Rightarrow> Some (case parse_single_guard ts of Inl e \<Rightarrow> Err (GuardFailure e) | Inr g \<Rightarrow> Ok g))"

section \<open>Printing\<close>

fun show_ns :: "ns \<Rightarrow> string" where
  "show_ns NsOs = ''os''"
| "show_ns NsArch = ''arch''"
| "show_ns NsBool = ''bool''"
| "show_ns NsEnv = ''env''"

fun show_guard :: "guard \<Rightarrow> string" where
  "show_guard (Attr ns key val) =
     (case (ns, key, val) of
        (NsEnv, Some var, None) \<Rightarrow> ''env:'' @ var
      | (NsEnv, Some var, Some want) \<Rightarrow> ''eq(env:'' @ var @ '', '' @ want @ '')''
      | (_, _, Some value) \<Rightarrow> show_ns ns @ '':'' @ value
      | (_, Some subject, None) \<Rightarrow> show_ns ns @ '':'' @ subject
      | (_, None, None) \<Rightarrow> show_ns ns)"

datatype display_context = Root | InAnyArg | InNot | InAll

fun fmt_with_ctx :: "guard_expr \<Rightarrow> display_context \<Rightarrow> string" where
  "fmt_with_ctx (GPredicate g) ctx = show_guard g"
| "fmt_with_ctx (GAll children) ctx =
     (let wrap = (ctx = InAnyArg \<or> ctx = InNot) \<and> length children > 1;
          text = sep_by '', '' (map (\<lambda>c. fmt_with_ctx c InAll) children) in
      if wrap then ''('' @ text @ '')'' else text)"
| "fmt_with_ctx (GOr children) ctx = ''any('' @ sep_by '', '' (map (\<lambda>c. fmt_with_ctx c InAnyArg) children) @ '')''"
| "fmt_with_ctx (GNot child) ctx = ''not('' @ fmt_with_ctx child InNot @ '')''"

definition show_guard_expr :: "guard_expr \<Rightarrow> string" where
  "show_guard_expr g = fmt_with_ctx g Root"

section \<open>What the parser returns\<close>

text \<open>Predicates keep to the closed domains; conjunctions and disjunctions are flat and have two parts at least.\<close>

definition closed_guard :: "guard \<Rightarrow> bool" where
  "closed_guard g \<longleftrightarrow>
     (case attr_ns g of
        NsOs \<Rightarrow> attr_key g = None \<and> attr_val g \<in> Some ` set [''macos'', ''linux'', ''windows'']
      | NsArch \<Rightarrow> attr_key g = None \<and> attr_val g \<in> Some ` set ARCH_VALUES
      | NsBool \<Rightarrow> attr_key g = None \<and> attr_val g \<notin> {None, Some []}
      | NsEnv \<Rightarrow> attr_key g \<notin> {None, Some []})"

fun is_all :: "guard_expr \<Rightarrow> bool" where
  "is_all (GAll gs) = True"
| "is_all _ = False"

fun is_or :: "guard_expr \<Rightarrow> bool" where
  "is_or (GOr gs) = True"
| "is_or _ = False"

fun wf_guard :: "guard_expr \<Rightarrow> bool" where
  "wf_guard (GPredicate g) = closed_guard g"
| "wf_guard (GAll gs) = (length gs \<ge> 2 \<and> list_all wf_guard gs \<and> \<not> list_ex is_all gs)"
| "wf_guard (GOr gs) = (length gs \<ge> 2 \<and> list_all wf_guard gs \<and> \<not> list_ex is_or gs)"
| "wf_guard (GNot g) = wf_guard g"

definition proper :: "('a \<Rightarrow> bool) \<Rightarrow> guard_error + 'a \<Rightarrow> bool" where
  "proper P res = (case res of Inl e \<Rightarrow> e \<noteq> GuardPanic \<and> e \<noteq> GuardFuel | Inr a \<Rightarrow> P a)"

lemma proper_simps [simp]: "proper P (Inr a) = P a" "proper P (Inl (GuardMsg m))" "\<not> proper P (Inl GuardPanic)" "\<not> proper P (Inl GuardFuel)"
  by (simp_all add: proper_def)

lemma proper_bind:
  assumes "proper P r" and "\<And>a. P a \<Longrightarrow> r = Ok a \<Longrightarrow> proper Q (f a)"
  shows "proper Q (bind_result r f)"
  using assms by (cases r) (auto simp: proper_def)

lemma proper_mono: "proper P r \<Longrightarrow> (\<And>a. P a \<Longrightarrow> Q a) \<Longrightarrow> proper Q r"
  by (auto simp: proper_def split: sum.splits)

lemma proper_map_result:
  "(\<And>x. x \<in> set xs \<Longrightarrow> proper P (f x)) \<Longrightarrow> proper (\<lambda>ys. list_all P ys \<and> length ys = length xs) (map_result f xs)"
proof (induction xs)
  case (Cons x xs)
  have "proper P (f x)" and "proper (\<lambda>ys. list_all P ys \<and> length ys = length xs) (map_result f xs)"
    using Cons by simp_all
  then show ?case
    by (auto simp: proper_def split: sum.splits)
qed simp

lemma wf_all_parts: "wf_guard g \<Longrightarrow> all_parts g \<noteq> [] \<and> list_all wf_guard (all_parts g) \<and> \<not> list_ex is_all (all_parts g)"
  by (cases g) auto

lemma wf_or_parts: "wf_guard g \<Longrightarrow> or_parts g \<noteq> [] \<and> list_all wf_guard (or_parts g) \<and> \<not> list_ex is_or (or_parts g)"
  by (cases g) auto

lemma concat_parts:
  assumes "list_all P gs" and "gs \<noteq> []" and "\<And>g. P g \<Longrightarrow> f g \<noteq> [] \<and> list_all P (f g) \<and> \<not> list_ex R (f g)"
  shows "concat (map f gs) \<noteq> [] \<and> list_all P (concat (map f gs)) \<and> \<not> list_ex R (concat (map f gs))"
  using assms by (cases gs) (auto simp: list_all_iff list_ex_iff)

lemma smart_flat:
  assumes "flat \<noteq> [] \<and> list_all wf_guard flat"
  shows "\<not> list_ex is_all flat \<Longrightarrow>
      proper wf_guard (of_smart (case flat of [] \<Rightarrow> None | [e] \<Rightarrow> Some e | _ \<Rightarrow> Some (GAll flat)))"
    and "\<not> list_ex is_or flat \<Longrightarrow>
      proper wf_guard (of_smart (case flat of [] \<Rightarrow> None | [e] \<Rightarrow> Some e | _ \<Rightarrow> Some (GOr flat)))"
  using assms by (auto split: list.splits)

lemma of_guard_all: "list_all wf_guard gs \<Longrightarrow> gs \<noteq> [] \<Longrightarrow> proper wf_guard (of_smart (guard_all gs))"
  using concat_parts [of wf_guard gs all_parts is_all, OF _ _ wf_all_parts] unfolding guard_all_def Let_def
  by (intro smart_flat(1)) simp_all

lemma of_guard_or: "list_all wf_guard gs \<Longrightarrow> gs \<noteq> [] \<Longrightarrow> proper wf_guard (of_smart (guard_or gs))"
  using concat_parts [of wf_guard gs or_parts is_or, OF _ _ wf_or_parts] unfolding guard_or_def Let_def
  by (intro smart_flat(2)) simp_all

subsection \<open>Terms\<close>

lemma skip_newlines_suffix: "suffix (skip_newlines ts) ts"
  by (simp add: skip_newlines_def suffix_dropWhile)

lemma bare_run_proper: "proper (\<lambda>(w, r). w \<noteq> [] \<and> suffix r ts) (bare_run what ts)"
proof -
  have "suffix (snd (run_pieces out ts)) ts" for out
    by (induction out ts rule: run_pieces.induct) (auto split: option.splits intro: suffix_ConsI)
  from this [of "[]"] show ?thesis
    by (auto simp: bare_run_def split: prod.splits)
qed

lemma check_term_end_proper: "proper (\<lambda>r. suffix r ts) (check_term_end ts)"
  using skip_newlines_suffix [of ts] by (auto simp: check_term_end_def Let_def split: list.splits tok_kind.splits)

lemma eat_punct_nl_suffix: "eat_punct_nl c ts = (b, r) \<Longrightarrow> suffix r ts \<and> (b \<longrightarrow> strict_suffix r ts)"
proof -
  assume eat: "eat_punct_nl c ts = (b, r)"
  have "suffix r (skip_newlines ts) \<and> (b \<longrightarrow> strict_suffix r (skip_newlines ts))"
    using eat by (cases "skip_newlines ts") (auto simp: eat_punct_nl_def suffix_ConsI split: if_splits intro: suffix_Cons_le)
  with skip_newlines_suffix [of ts] show ?thesis
    by (meson suffix_order.order_trans suffix_order.less_le_trans)
qed

lemma colon_run_proper: "proper (\<lambda>(w, r). w \<noteq> [] \<and> suffix r ts) (colon_run needs what ts)"
proof (cases "eat_punct_nl CHR '':'' ts")
  case (Pair b r)
  have "suffix r ts"
    using eat_punct_nl_suffix [OF Pair] by simp
  then show ?thesis
    using Pair
    by (auto simp: colon_run_def split: bool.splits
        intro!: proper_bind [OF bare_run_proper] proper_bind [OF check_term_end_proper]
        intro: suffix_order.order_trans)
qed

lemma ns_guard_proper: "proper wf_guard (ns_guard ns val)"
  using of_guard_or [of "[os_guard ''macos'', os_guard ''linux'']"]
  by (auto simp: ns_guard_def os_guard_def closed_guard_def)

lemma value_run_proper: "proper (\<lambda>_. True) (value_run ts)"
  by (auto simp: value_run_def split: prod.splits)

lemma eq_args_proper: "proper wf_guard (eq_args word inner)"
  by (auto simp: eq_args_def compared_value_def closed_guard_def Let_def value_run_proper
      split: list.splits bool.splits prod.splits tok_kind.splits
      intro!: proper_bind [OF bare_run_proper] proper_bind [where P = "\<lambda>_. True"])

lemma eat_paren_group_inner:
  assumes "eat_paren_group ts = Some (inner, r)"
  shows "strict_suffix r ts" and "toks_depth inner < toks_depth ts"
proof -
  obtain t a b where ts: "skip_newlines ts = t # r" and t: "kind t = Group Paren inner a b"
    using assms by (auto simp: eat_paren_group_def split: list.splits tok_kind.splits if_splits)
  have suf: "suffix (t # r) ts"
    using skip_newlines_suffix [of ts] ts by simp
  then show "strict_suffix r ts"
    by (meson suffix_Cons_le suffix_order.less_le_trans suffix_order.order_refl)
  have "toks_depth (t # r) \<le> toks_depth ts"
    using suf by (rule toks_depth_suffix)
  then show "toks_depth inner < toks_depth ts"
    using group_depth [OF t] by simp
qed

lemma parse_guard_word_proper: "proper (\<lambda>(g, r'). wf_guard g \<and> suffix r' r) (parse_guard_word word r)"
proof -
  have eq: "proper (\<lambda>(g, r'). wf_guard g \<and> suffix r' r)
      (bind_result (eq_args word inner) (\<lambda>pred. Ok (if word = ''ne'' then GNot pred else pred, r')))"
    if "eat_paren_group r = Some (inner, r')" for inner r'
    using eat_paren_group_inner(1) [OF that]
    by (auto intro!: proper_bind [OF eq_args_proper] strict_suffix_weaken)
  have inject: "wf_guard (GPredicate (Attr NsEnv (Some word) None))" if "prefix INJECT_PREFIX word"
    using that by (auto simp: closed_guard_def INJECT_PREFIX_def)
  show ?thesis
    unfolding parse_guard_word_def using eq inject
    by (auto split: option.splits intro!: proper_bind [OF colon_run_proper] proper_bind [OF ns_guard_proper]
        simp: closed_guard_def)
qed

lemma parse_guard_term_proper: "proper (\<lambda>(g, r). wf_guard g \<and> strict_suffix r ts) (parse_guard_term ts)"
proof (cases "skip_newlines ts")
  case (Cons t r)
  have "strict_suffix r ts"
    using skip_newlines_suffix [of ts] Cons by (metis suffix_Cons_le suffix_order.less_le_trans suffix_order.order_refl)
  then have "wf_guard g \<and> suffix r' r \<Longrightarrow> wf_guard g \<and> strict_suffix r' ts" for g r'
    using suffix_order.le_less_trans by blast
  then have "proper (\<lambda>(g, r'). wf_guard g \<and> strict_suffix r' ts) (parse_guard_word w r)" for w
    using proper_mono [OF parse_guard_word_proper [of r w]] by fastforce
  with Cons show ?thesis
    by (auto simp: parse_guard_term_def split: tok_kind.splits)
qed (simp add: parse_guard_term_def)

subsection \<open>Calls, groups and sequences\<close>

text \<open>The contract the parsers of nested guards rely on: on tokens of smaller nesting the sequence parser
  returns proper results, and it always returns a rest of its input.\<close>

locale nested_guards =
  fixes seq :: guard_parser and n :: nat
  assumes proper_seq: "toks_depth ts < n \<Longrightarrow> proper (\<lambda>(g, r). wf_guard g) (seq ts)"
begin

lemma guard_part_proper: "toks_depth part < n \<Longrightarrow> proper wf_guard (guard_part what seq part)"
  by (auto simp: guard_part_def intro!: proper_bind [OF proper_seq])

lemma parts_shallow: "toks_depth inner < n \<Longrightarrow> part \<in> set (split_top_commas inner) \<Longrightarrow> toks_depth part < n"
  using split_top_commas_depth le_less_trans by blast

lemma not_call_proper: "toks_depth inner < n \<Longrightarrow> proper wf_guard (not_call seq inner)"
  using parts_shallow [of inner]
  by (auto simp: not_call_def split: list.splits intro!: proper_bind [OF guard_part_proper])

lemma any_call_proper: "toks_depth inner < n \<Longrightarrow> proper wf_guard (any_call seq inner)"
  using parts_shallow [of inner] 
  by (auto simp: any_call_def Let_def intro!: proper_bind [OF proper_map_result] guard_part_proper of_guard_or)

lemma split_top_commas_nonempty: "split_top_commas ts \<noteq> []"
  by (induction ts) (auto split: list.splits)

lemma all_call_proper: "toks_depth inner < n \<Longrightarrow> proper wf_guard (all_call seq inner)"
  using parts_shallow [of inner] split_top_commas_nonempty [of inner]
  by (auto simp: all_call_def all_part_def intro!: proper_bind [OF proper_map_result] guard_part_proper of_guard_all)

lemma with_tail_proper: "proper wf_guard res \<Longrightarrow> Q r \<Longrightarrow> proper (\<lambda>(g, r). wf_guard g \<and> Q r) (with_tail r res)"
  by (auto simp: with_tail_def intro!: proper_bind)

lemma at_call_inner:
  assumes "at_call ts name = Some (inner, r)"
  shows "strict_suffix r ts \<and> toks_depth inner < toks_depth ts"
proof -
  obtain t ts' where ts: "skip_newlines ts = t # ts'" and paren: "eat_paren_group ts' = Some (inner, r)"
    using assms by (auto simp: at_call_def split: list.splits if_splits)
  have "suffix ts' ts"
    using skip_newlines_suffix [of ts] ts by (metis suffix_ConsD)
  with eat_paren_group_inner [OF paren] toks_depth_suffix show ?thesis
    by (meson less_le_trans suffix_order.less_le_trans)
qed

lemma paren_or_term_proper:
  assumes "toks_depth ts \<le> n"
  shows "proper (\<lambda>(g, r). wf_guard g \<and> strict_suffix r ts) (parse_paren_or_term seq ts)"
proof (cases "skip_newlines ts")
  case (Cons t r)
  have suf: "suffix (t # r) ts"
    using skip_newlines_suffix [of ts] Cons by simp
  then have r: "strict_suffix r ts"
    by (meson suffix_Cons_le suffix_order.less_le_trans suffix_order.order_refl)
  have trm: "proper (\<lambda>(g, r'). wf_guard g \<and> strict_suffix r' ts) (parse_guard_term (t # r))"
    by (rule proper_mono [OF parse_guard_term_proper]) (use suf in \<open>auto intro: suffix_order.less_le_trans\<close>)
  have "toks_depth inner < n" if "kind t = Group Paren inner a b" for inner a b
    using group_depth [OF that] toks_depth_suffix [OF suf] assms by simp
  then show ?thesis
    using Cons r trm by (auto simp: parse_paren_or_term_def split: tok_kind.splits intro!: with_tail_proper guard_part_proper)
qed (simp add: parse_paren_or_term_def)

lemma call_proper:
  assumes "\<And>inner. toks_depth inner < n \<Longrightarrow> proper wf_guard (call inner)"
    and "at_call ts name = Some (inner, r)" and "toks_depth ts \<le> n"
  shows "proper (\<lambda>(g, r). wf_guard g \<and> strict_suffix r ts) (with_tail r (call inner))"
  using at_call_inner [OF assms(2)] assms(3) by (intro with_tail_proper assms(1)) auto

lemma primary_proper:
  assumes "toks_depth ts \<le> n"
  shows "proper (\<lambda>(g, r). wf_guard g \<and> strict_suffix r ts) (guard_primary seq ts)"
  unfolding guard_primary_def using paren_or_term_proper [OF assms]
    call_proper [of "not_call seq", OF not_call_proper _ assms] call_proper [of "any_call seq", OF any_call_proper _ assms]
    call_proper [of "all_call seq", OF all_call_proper _ assms]
  by (simp split: option.split)

lemma guard_list_proper:
  "length ts < m \<Longrightarrow> toks_depth ts \<le> n \<Longrightarrow>
     proper (\<lambda>(gs, r). gs \<noteq> [] \<and> list_all wf_guard gs) (guard_list m (guard_primary seq) ts)"
proof (induction m arbitrary: ts)
  case (Suc m)
  have "proper (\<lambda>(gs, r). gs \<noteq> [] \<and> list_all wf_guard gs) (guard_list m (guard_primary seq) r')"
    if r: "strict_suffix r ts" and eat: "eat_punct_nl CHR '','' r = (True, r')" for r r'
  proof (rule Suc.IH)
    have "strict_suffix r' ts"
      using eat_punct_nl_suffix [OF eat] r by (meson suffix_order.less_trans)
    then show "length r' < m" and "toks_depth r' \<le> n"
      using Suc.prems suffix_length_less [of r' ts] toks_depth_suffix [of r' ts] by (auto simp: strict_suffix_weaken)
  qed
  then show ?case
    by (auto split: prod.splits bool.splits intro!: proper_bind [OF primary_proper [OF Suc.prems(2)]]
        proper_bind [where P = "\<lambda>(gs, r). gs \<noteq> [] \<and> list_all wf_guard gs"])
qed simp

lemma guard_seq_proper: "toks_depth ts \<le> n \<Longrightarrow> proper (\<lambda>(g, r). wf_guard g) (guard_seq (guard_primary seq) ts)"
  unfolding guard_seq_def
  by (rule proper_bind [OF guard_list_proper])
    (auto simp: with_tail_def split: list.splits intro!: proper_bind [OF of_guard_all])

end

lemma parse_guard_seq_proper: "toks_depth ts < n \<Longrightarrow> proper (\<lambda>(g, r). wf_guard g) (parse_guard_seq n ts)"
proof (induction n arbitrary: ts)
  case (Suc n)
  have "nested_guards (parse_guard_seq n) n"
    by unfold_locales (rule Suc.IH)
  then show ?case
    using nested_guards.guard_seq_proper [of "parse_guard_seq n" n ts] Suc.prems by simp
qed simp

interpretation gp: nested_guards "parse_guard_seq n" n for n
  by unfold_locales (rule parse_guard_seq_proper)

subsection \<open>Fuel\<close>

text \<open>Two parsers of nested guards that agree below some nesting give the same primaries at it.\<close>

lemma guard_part_agrees: "seq part = seq' part \<Longrightarrow> guard_part what seq part = guard_part what seq' part"
  by (simp add: guard_part_def)

lemma calls_agree:
  assumes "\<And>ts. toks_depth ts \<le> toks_depth inner \<Longrightarrow> seq ts = seq' ts"
  shows "not_call seq inner = not_call seq' inner" and "any_call seq inner = any_call seq' inner"
    and "all_call seq inner = all_call seq' inner"
proof -
  have parts: "seq part = seq' part" if "part \<in> set (split_top_commas inner)" for part
    using split_top_commas_depth [OF that] by (rule assms)
  then show "not_call seq inner = not_call seq' inner"
    by (auto simp: not_call_def guard_part_def split: list.splits)
  show "any_call seq inner = any_call seq' inner"
    using map_result_cong [OF refl, of "split_top_commas inner" "guard_part ''`any`'' seq" "guard_part ''`any`'' seq'"] parts
    by (simp add: any_call_def Let_def guard_part_def)
  show "all_call seq inner = all_call seq' inner"
    using map_result_cong [OF refl, of "split_top_commas inner" "all_part seq" "all_part seq'"] parts
    by (simp add: all_call_def all_part_def guard_part_def)
qed

lemma primary_agrees:
  assumes "\<And>u. toks_depth u < toks_depth ts \<Longrightarrow> seq u = seq' u"
  shows "guard_primary seq ts = guard_primary seq' ts"
proof -
  have agree: "not_call seq inner = not_call seq' inner" "any_call seq inner = any_call seq' inner"
    "all_call seq inner = all_call seq' inner" if "at_call ts name = Some (inner, r)" for name inner r
    using gp.at_call_inner [OF that] assms by (auto intro!: calls_agree)
  have "seq inner = seq' inner" if "skip_newlines ts = t # r" "kind t = Group Paren inner a b" for t r inner a b
    using toks_depth_suffix [OF skip_newlines_suffix [of ts]] that group_depth [OF that(2)] by (intro assms) simp
  then have "parse_paren_or_term seq ts = parse_paren_or_term seq' ts"
    by (auto simp: parse_paren_or_term_def guard_part_def split: list.splits tok_kind.splits)
  with agree show ?thesis
    by (simp add: guard_primary_def split: option.split)
qed

lemma guard_list_agrees:
  assumes "\<And>u. suffix u ts \<Longrightarrow> p u = q u" and "\<And>u g r. p u = Ok (g, r) \<Longrightarrow> suffix r u"
  shows "guard_list m p ts = guard_list m q ts"
  using assms(1)
proof (induction m arbitrary: ts)
  case (Suc m)
  have "guard_list m p r' = guard_list m q r'" if "p ts = Ok (g, r)" "eat_punct_nl CHR '','' r = (True, r')" for g r r'
  proof (rule Suc.IH)
    have "suffix r' ts"
      using assms(2) [OF that(1)] eat_punct_nl_suffix [OF that(2)] by (meson suffix_order.order_trans)
    then show "p u = q u" if "suffix u r'" for u
      using Suc.prems suffix_order.order_trans that by blast
  qed
  moreover have "p ts = q ts"
    using Suc.prems by simp
  ultimately show ?case
    by (auto split: bool.splits prod.splits intro!: bind_result_cong)
qed simp

lemma primary_rest: "guard_primary seq ts = Ok (g, r) \<Longrightarrow> suffix r ts"
proof -
  have "proper (\<lambda>(g, r). wf_guard g \<and> strict_suffix r u) (parse_guard_term u)" for u
    by (rule parse_guard_term_proper)
  then have "suffix r' u" if "parse_guard_term u = Ok (g', r')" for u g' r'
    using that by (metis (mono_tags, lifting) case_prod_conv proper_simps(1) strict_suffix_weaken)
  then have trm: "suffix r' ts" if "parse_guard_term (t # u) = Ok (g', r')" "skip_newlines ts = t # u" for t u g' r'
    using that skip_newlines_suffix [of ts] by (metis suffix_order.order_trans)
  have call: "suffix r' ts" if "at_call ts name = Some (inner, r')" for name inner r'
    using gp.at_call_inner [OF that] by (simp add: strict_suffix_weaken)
  assume "guard_primary seq ts = Ok (g, r)"
  then show ?thesis
    using skip_newlines_suffix [of ts] trm call
    by (auto simp: guard_primary_def with_tail_def parse_paren_or_term_def result_simps
        split: option.splits list.splits tok_kind.splits if_splits dest: suffix_ConsD)
qed

lemma parse_guard_seq_fuel: "toks_depth ts < n \<Longrightarrow> toks_depth ts < m \<Longrightarrow> parse_guard_seq n ts = parse_guard_seq m ts"
proof (induction n arbitrary: ts m)
  case (Suc n)
  obtain k where m: "m = Suc k"
    using Suc.prems by (cases m) auto
  have "guard_primary (parse_guard_seq n) u = guard_primary (parse_guard_seq k) u" if "suffix u ts" for u
    using Suc.prems m toks_depth_suffix [OF that] by (intro primary_agrees Suc.IH) simp_all
  then show ?case
    using guard_list_agrees [of ts "guard_primary (parse_guard_seq n)", OF _ primary_rest] m
    by (simp add: guard_seq_def del: guard_list.simps)
qed simp

text \<open>C15. 
  Parsing a guard ends without a panic: the fuel computed from the nesting of its groups is enough, more fuel
  gives the same result, the smart constructors are never given an empty list, and what is
  returned is flat and keeps to the closed sets of systems and architectures.
\<close>

theorem guard_parsing_proper:
  "(case parse_guard_inner ts of Inl e \<Rightarrow> \<exists>msg. e = GuardMsg msg | Inr g \<Rightarrow> wf_guard g) \<and>
   parse_guard_at (Suc (toks_depth ts) + k) ts = parse_guard_inner ts"
proof -
  have "proper wf_guard (parse_guard_inner ts)"
    unfolding parse_guard_inner_def parse_guard_at_def by (rule gp.guard_part_proper) simp
  moreover have "parse_guard_seq (Suc (toks_depth ts) + k) ts = parse_guard_seq (Suc (toks_depth ts)) ts"
    by (rule parse_guard_seq_fuel) simp_all
  ultimately show ?thesis
    by (auto simp: proper_def parse_guard_inner_def parse_guard_at_def guard_part_def split: sum.splits) (metis guard_error.exhaust)
qed

end
