(* ===== verification/Guard_Roundtrip.thy ===== *)
theory Guard_Roundtrip
  imports Guard_Parser
begin

text \<open>
  A printed guard reads back as itself, from text to text: the printer of \<open>ast.rs\<close>, the lexer of \<open>tok.rs\<close> and
  the guard parser of \<open>parser.rs\<close> composed. The proof goes through piece trees: what the printer writes is the text of a tree
  of words, marks and parentheses, the lexer turns the text of such a tree into tokens that erase to it, and
  the parser sees no more of its tokens than that tree.
\<close>

section \<open>Piece trees and their text\<close>

datatype piece = PWord string | PMark char | PParen "piece list" | PJunk

fun piece_text :: "piece \<Rightarrow> string" where
  "piece_text (PWord w) = w"
| "piece_text (PMark c) = (if c = CHR '','' then '', '' else [c])"
| "piece_text (PParen ps) = ''('' @ concat (map piece_text ps) @ '')''"
| "piece_text PJunk = []"

definition pieces_text :: "piece list \<Rightarrow> string" where
  "pieces_text ps = concat (map piece_text ps)"

lemma pieces_text_simps [simp]:
  "pieces_text [] = []" "pieces_text (p # ps) = piece_text p @ pieces_text ps"
  "pieces_text (ps @ qs) = pieces_text ps @ pieces_text qs"
  by (simp_all add: pieces_text_def)

lemma piece_text_paren [simp]: "piece_text (PParen ps) = CHR ''('' # pieces_text ps @ '')''"
  by (simp add: pieces_text_def)

declare piece_text.simps(3) [simp del]

fun erase :: "tok \<Rightarrow> piece" where
  "erase (Tok (Word w) j l c) = PWord w"
| "erase (Tok (Punct p) j l c) = PMark p"
| "erase (Tok (Group Paren inner a b) j l c) = PParen (map erase inner)"
| "erase _ = PJunk"

definition plain_char :: "char \<Rightarrow> bool" where
  "plain_char c \<longleftrightarrow> \<not> is_whitespace c \<and> \<not> is_delim c \<and> c \<noteq> backslash"

definition plain_word :: "string \<Rightarrow> bool" where
  "plain_word w \<longleftrightarrow> w \<noteq> [] \<and> list_all plain_char w"

fun starts_word :: "piece list \<Rightarrow> bool" where
  "starts_word (PWord w # ps) = True"
| "starts_word _ = False"

fun good_piece :: "piece \<Rightarrow> bool" and good_pieces :: "piece list \<Rightarrow> bool" where
  "good_piece (PWord w) = plain_word w"
| "good_piece (PMark c) = (c = CHR '':'' \<or> c = CHR '','')"
| "good_piece (PParen ps) = good_pieces ps"
| "good_piece PJunk = False"
| "good_pieces [] = True"
| "good_pieces (p # ps) = (good_piece p \<and> good_pieces ps \<and> \<not> (starts_word [p] \<and> starts_word ps))"

section \<open>Lexing the text of a piece tree\<close>

lemma special_chars:
  "is_whitespace CHR '' ''" "is_whitespace tab" "is_whitespace cr" "is_whitespace lf"
  "is_delim CHR '';''" "is_delim CHR ''/''" "is_delim CHR ''#''" "is_delim dquote" "is_delim squote"
  "is_delim CHR ''[''" "is_delim CHR ''(''" "is_delim CHR ''{''" "is_delim CHR '']''" "is_delim CHR '')''" "is_delim CHR ''}''"
  "is_delim CHR '':''" "is_delim CHR '',''"
  by (simp_all add: is_whitespace_def is_delim_def)

lemma plain_char_facts:
  assumes "plain_char c"
  shows "c \<noteq> CHR '' ''" "c \<noteq> tab" "c \<noteq> cr" "c \<noteq> lf" "c \<noteq> CHR '';''" "c \<noteq> CHR ''/''" "c \<noteq> CHR ''#''"
    "c \<noteq> dquote" "c \<noteq> squote" "c \<noteq> CHR ''[''" "c \<noteq> CHR ''(''" "c \<noteq> CHR ''{''" "c \<noteq> CHR '']''" "c \<noteq> CHR '')''" "c \<noteq> CHR ''}''"
  using assms special_chars unfolding plain_char_def by blast+

lemma take_word_plain:
  "list_all plain_char w \<Longrightarrow> s = [] \<or> is_delim (hd s) \<Longrightarrow> take_word (w @ s) = w"
proof (induction w)
  case Nil
  then show ?case
    by (cases s) (auto simp: is_delim_def split: list.split)
next
  case (Cons c w)
  then show ?case
    by (simp add: plain_char_def)
qed

lemma good_text_head: "good_pieces ps \<Longrightarrow> \<not> starts_word ps \<Longrightarrow> pieces_text ps = [] \<or> is_delim (hd (pieces_text ps))"
  by (cases ps rule: starts_word.cases; cases "hd ps") (auto simp: special_chars)

text \<open>One round of the main loop on a word, a mark and a blank.\<close>

definition emits :: "lexer \<Rightarrow> piece list \<Rightarrow> string \<Rightarrow> lexer \<Rightarrow> bool" where
  "emits lx ps s lx' \<longleftrightarrow> rest lx' = s \<and> map erase (lx_out lx') = map erase (lx_out lx) @ ps"

lemma lex_word_round:
  assumes "rest lx = w @ s" and "plain_word w" and "s = [] \<or> is_delim (hd s)"
  shows "\<exists>lx'. lex_step child lx = Some (Ok lx') \<and> emits lx [PWord w] s lx'"
proof -
  obtain c w' where w: "w = c # w'"
    using assms(2) by (cases w) (auto simp: plain_word_def)
  have c: "plain_char c"
    using assms(2) w by (simp add: plain_word_def)
  have "take_word (rest lx) = w"
    using assms by (simp add: take_word_plain plain_word_def)
  then show ?thesis
    using assms(1) plain_char_facts [OF c] c w
    by (auto simp: lex_step_def lex_gap_def lex_tok_def lex_word_def Let_def emits_def plain_char_def)
qed

lemma mark_facts:
  assumes "c = CHR '':'' \<or> c = CHR '',''"
  shows "c \<noteq> CHR '' ''" "c \<noteq> tab" "c \<noteq> cr" "c \<noteq> lf" "c \<noteq> CHR '';''" "c \<noteq> CHR ''/''" "c \<noteq> CHR ''#''"
    "c \<noteq> dquote" "c \<noteq> squote" "c \<noteq> CHR ''[''" "c \<noteq> CHR ''(''" "c \<noteq> CHR ''{''" "c \<noteq> CHR '']''" "c \<noteq> CHR '')''" "c \<noteq> CHR ''}''"
    "is_delim c"
  using assms by (elim disjE; simp add: special_chars)+

lemma lex_mark_round:
  assumes "rest lx = c # s" and "c = CHR '':'' \<or> c = CHR '',''"
  shows "\<exists>lx'. lex_step child lx = Some (Ok lx') \<and> emits lx [PMark c] s lx'"
  using assms(1) mark_facts [OF assms(2)] by (simp add: lex_step_def lex_gap_def lex_tok_def Let_def emits_def)

lemma lex_blank_round:
  assumes "rest lx = CHR '' '' # s"
  shows "\<exists>lx'. lex_step child lx = Some (Ok lx') \<and> emits lx [] s lx'"
  using assms by (auto simp: lex_step_def lex_gap_def Let_def emits_def)

text \<open>Collecting the text of a group.\<close>

definition skims :: "lexer \<Rightarrow> string \<Rightarrow> lexer \<Rightarrow> bool" where
  "skims lx s lx' \<longleftrightarrow> rest lx' = s \<and> lx_out lx' = lx_out lx"

lemma group_body_round:
  assumes "group_step close lx st inner = Inr (bump 1 0 lx, st', inner @ [c])" and "rest lx = c # s"
  shows "\<exists>lx'. group_body close lx st inner = group_body close lx' st' (inner @ [c]) \<and> skims lx s lx'"
  using assms by (intro exI [of _ "bump 1 0 lx"]) (simp add: group_body.simps [of close lx st inner] skims_def)

definition copied_char :: "char \<Rightarrow> bool" where
  "copied_char c \<longleftrightarrow> plain_char c \<or> c = CHR '':'' \<or> c = CHR '','' \<or> c = CHR '' ''"

lemma group_body_char:
  assumes "rest lx = c # s" and "copied_char c"
  shows "\<exists>lx'. group_body close lx st inner = group_body close lx' st (inner @ [c]) \<and> skims lx s lx'"
proof (rule group_body_round [OF _ assms(1)])
  have "c \<noteq> cr" "c \<noteq> lf" "c \<noteq> CHR ''/''" "c \<noteq> dquote" "c \<noteq> squote" "c \<noteq> CHR ''[''" "c \<noteq> CHR ''(''" "c \<noteq> CHR ''{''"
    "c \<noteq> CHR '']''" "c \<noteq> CHR '')''" "c \<noteq> CHR ''}''"
    using assms(2) unfolding copied_char_def by (elim disjE; simp add: plain_char_facts)+
  then show "group_step close lx st inner = Inr (bump 1 0 lx, st, inner @ [c])"
    using assms(1) by (simp add: group_step_def Let_def)
qed

lemma group_body_chars:
  assumes "rest lx = w @ s" and "list_all copied_char w"
  shows "\<exists>lx'. group_body close lx st inner = group_body close lx' st (inner @ w) \<and> skims lx s lx'"
  using assms
proof (induction w arbitrary: lx inner)
  case Nil
  then show ?case
    by (auto simp: skims_def)
next
  case (Cons c w)
  obtain lx1 where one: "group_body close lx st inner = group_body close lx1 st (inner @ [c])" "skims lx (w @ s) lx1"
    using group_body_char [of lx c "w @ s" close st inner] Cons.prems by auto
  then obtain lx2 where "group_body close lx1 st (inner @ [c]) = group_body close lx2 st ((inner @ [c]) @ w)" "skims lx1 s lx2"
    using Cons.IH [of lx1 "inner @ [c]"] Cons.prems by (auto simp: skims_def)
  with one show ?case
    by (auto simp: skims_def)
qed

lemma group_body_open:
  assumes "rest lx = CHR ''('' # s"
  shows "\<exists>lx'. group_body close lx st inner = group_body close lx' (CHR ''('' # st) (inner @ ''('') \<and> skims lx s lx'"
  by (rule group_body_round [OF _ assms]) (simp add: group_step_def Let_def assms)

lemma group_body_close:
  assumes "rest lx = CHR '')'' # s"
  shows "\<exists>lx'. group_body close lx (b # st) inner = group_body close lx' st (inner @ '')'') \<and> skims lx s lx'"
  by (rule group_body_round [OF _ assms]) (simp add: group_step_def Let_def assms)

lemma group_body_piece:
  "good_piece p \<Longrightarrow> rest lx = piece_text p @ s \<Longrightarrow>
     \<exists>lx'. group_body close lx st inner = group_body close lx' st (inner @ piece_text p) \<and> skims lx s lx'"
  "good_pieces ps \<Longrightarrow> rest lx = pieces_text ps @ s \<Longrightarrow>
     \<exists>lx'. group_body close lx st inner = group_body close lx' st (inner @ pieces_text ps) \<and> skims lx s lx'"
proof (induction p and ps arbitrary: lx s st inner and lx s st inner rule: good_piece_good_pieces.induct)
  case (1 w)
  then show ?case
    using group_body_chars [of lx w s close st inner] by (auto simp: plain_word_def list_all_iff copied_char_def)
next
  case (2 c)
  then show ?case
    using group_body_chars [of lx "piece_text (PMark c)" s close st inner] by (auto simp: copied_char_def)
next
  case (3 ps)
  obtain lx1 where 1: "group_body close lx st inner = group_body close lx1 (CHR ''('' # st) (inner @ ''('')"
    "skims lx (pieces_text ps @ CHR '')'' # s) lx1"
    using group_body_open [of lx "pieces_text ps @ CHR '')'' # s" close st inner] 3(3) by auto
  obtain lx2 where 2: "group_body close lx1 (CHR ''('' # st) (inner @ ''('') =
      group_body close lx2 (CHR ''('' # st) ((inner @ ''('') @ pieces_text ps)" "skims lx1 (CHR '')'' # s) lx2"
    using 3(1) [of lx1 "CHR '')'' # s" "CHR ''('' # st" "inner @ ''(''"] 3(2) 1(2) by (auto simp: skims_def)
  obtain lx3 where "group_body close lx2 (CHR ''('' # st) ((inner @ ''('') @ pieces_text ps) =
      group_body close lx3 st (((inner @ ''('') @ pieces_text ps) @ '')'')" "skims lx2 s lx3"
    using group_body_close [of lx2 s close "CHR ''(''" st "(inner @ ''('') @ pieces_text ps"] 2(2) by (auto simp: skims_def)
  with 1 2 show ?case
    by (auto simp: skims_def)
next
  case (6 p ps)
  obtain lx1 where 1: "group_body close lx st inner = group_body close lx1 st (inner @ piece_text p)"
    "skims lx (pieces_text ps @ s) lx1"
    using 6(1) [of lx "pieces_text ps @ s" st inner] 6(3,4) by auto
  obtain lx2 where "group_body close lx1 st (inner @ piece_text p) =
      group_body close lx2 st ((inner @ piece_text p) @ pieces_text ps)" "skims lx1 s lx2"
    using 6(2) [of lx1 s st "inner @ piece_text p"] 6(3) 1(2) by (auto simp: skims_def)
  with 1 show ?case
    by (auto simp: skims_def)
qed (auto simp: skims_def)

lemma erase_join_first [simp]: "map erase (join_first b ts) = map erase ts"
proof (cases ts)
  case (Cons t rs)
  obtain k j l c where t: "t = Tok k j l c"
    by (cases t)
  have "erase (Tok k True l c) = erase (Tok k j l c)"
    by (cases "Tok k j l c" rule: erase.cases) simp_all
  with Cons t show ?thesis
    by (simp add: join_first_def)
qed (simp add: join_first_def)

lemma lex_group_round:
  assumes "rest lx = CHR ''('' # pieces_text ps @ CHR '')'' # s" and "good_pieces ps"
    and "\<And>lx1. rest lx1 = pieces_text ps \<Longrightarrow> \<exists>lx2. child lx1 = Some (Ok lx2) \<and> emits lx1 ps [] lx2"
  shows "\<exists>lx'. lex_step child lx = Some (Ok lx') \<and> emits lx [PParen ps] s lx'"
proof -
  define lx0 where "lx0 = lx\<lparr>mark_line := lx_line lx, mark_col := lx_col lx\<rparr>"
  have rest0: "rest lx0 = CHR ''('' # pieces_text ps @ CHR '')'' # s" and out0: "lx_out lx0 = lx_out lx"
    using assms(1) by (simp_all add: lx0_def)
  obtain lx1 where body: "group_body CHR '')'' (bump 1 0 lx0) [] [] = group_body CHR '')'' lx1 [] (pieces_text ps)"
    and lx1: "skims (bump 1 0 lx0) (CHR '')'' # s) lx1"
    using group_body_piece(2) [OF assms(2), of "bump 1 0 lx0" "CHR '')'' # s" "CHR '')''" "[]" "[]"] rest0 by auto
  have "group_body CHR '')'' lx1 [] (pieces_text ps) = GClose lx1 (pieces_text ps)"
    using lx1 by (simp add: group_body.simps [of _ lx1] group_step_def skims_def)
  moreover obtain lx2 where "child (with_start (pieces_text ps) (lx_line lx0) (lx_col lx0 + 1)) = Some (Ok lx2)"
    and "map erase (lx_out lx2) = ps"
    using assms(3) [of "with_start (pieces_text ps) (lx_line lx0) (lx_col lx0 + 1)"]
    by (auto simp: with_start_def emits_def)
  ultimately show ?thesis
    using body lx1 rest0 out0 unfolding lex_step_def lx0_def [symmetric]
    by (simp add: lex_gap_def lex_tok_def lex_group_def Let_def emits_def skims_def)
qed

lemma lex_run_step:
  assumes "rest lx \<noteq> []" and "lex_step (lex_run n) lx = Some (Ok lx')"
  shows "lex_run (Suc n) lx = lex_run n lx'"
  using assms by simp

lemma plain_word_text: "good_pieces (p # ps) \<Longrightarrow> piece_text p \<noteq> []"
  by (cases p) (auto simp: plain_word_def)

text \<open>The text of a good piece tree lexes to tokens that erase to it.\<close>

lemma lex_pieces:
  "good_pieces ps \<Longrightarrow> rest lx = pieces_text ps \<Longrightarrow> length (pieces_text ps) < n \<Longrightarrow>
     \<exists>lx'. lex_run n lx = Some (Ok lx') \<and> emits lx ps [] lx'"
proof (induction n arbitrary: ps lx rule: less_induct)
  case (less n)
  obtain m where n: "n = Suc m"
    using less.prems(3) by (cases n) auto
  show ?case
  proof (cases ps)
    case Nil
    then show ?thesis
      using less.prems n by (auto simp: emits_def)
  next
    case (Cons p qs)
    have good: "good_piece p" "good_pieces qs" "starts_word [p] \<Longrightarrow> \<not> starts_word qs"
      using less.prems(1) Cons by auto
    have rest: "rest lx = piece_text p @ pieces_text qs" "rest lx \<noteq> []"
      using less.prems(1,2) Cons plain_word_text by auto
    have go_on: "\<exists>lx'. lex_run n lx = Some (Ok lx') \<and> emits lx ps [] lx'"
      if run: "lex_run n lx = lex_run k lx1" and k: "k < n" "length (pieces_text qs) < k"
        and head: "emits lx [p] (pieces_text qs) lx1" for k lx1
    proof -
      obtain lx2 where "lex_run k lx1 = Some (Ok lx2)" "emits lx1 qs [] lx2"
        using less.IH [of k qs lx1] good k head by (auto simp: emits_def)
      then show ?thesis
        using run head Cons by (auto simp: emits_def)
    qed
    have one: ?thesis if "lex_step (lex_run m) lx = Some (Ok lx1)" "emits lx [p] (pieces_text qs) lx1" for lx1
      using that lex_run_step [OF rest(2)] n less.prems(3) Cons rest plain_word_text [of p qs] less.prems(1)
      by (intro go_on [of m lx1]) (auto simp flip: length_greater_0_conv)
    show ?thesis
    proof (cases p)
      case (PWord w)
      then show ?thesis
        using one lex_word_round [of lx w "pieces_text qs" "lex_run m"] good_text_head [of qs] good rest by auto
    next
      case (PMark c)
      show ?thesis
      proof (cases "c = CHR '',''")
        case True
        then have len: "length (pieces_text qs) + 2 < n"
          using less.prems(3) Cons PMark by simp
        then obtain k where k: "m = Suc k"
          using n by (cases m) auto
        obtain lx1 where 1: "lex_step (lex_run m) lx = Some (Ok lx1)" "emits lx [p] (CHR '' '' # pieces_text qs) lx1"
          using lex_mark_round [of lx c "CHR '' '' # pieces_text qs" "lex_run m"] rest PMark True by auto
        then obtain lx2 where 2: "lex_step (lex_run k) lx1 = Some (Ok lx2)" "emits lx1 [] (pieces_text qs) lx2"
          using lex_blank_round [of lx1 "pieces_text qs" "lex_run k"] by (auto simp: emits_def)
        have "lex_run n lx = lex_run k lx2"
          using lex_run_step [OF rest(2) 1(1)] lex_run_step [of lx1 k lx2] 1 2 n k by (simp add: emits_def)
        then show ?thesis
          using go_on [of k lx2] 1 2 n k len by (simp add: emits_def)
      next
        case False
        then show ?thesis
          using one lex_mark_round [of lx c "pieces_text qs" "lex_run m"] good rest PMark by auto
      qed
    next
      case (PParen us)
      have "\<exists>lx2. lex_run m lx1 = Some (Ok lx2) \<and> emits lx1 us [] lx2" if "rest lx1 = pieces_text us" for lx1
        using less.IH [of m us lx1] good that n less.prems(3) Cons PParen by simp
      then show ?thesis
        using one lex_group_round [of lx us "pieces_text qs" "lex_run m"] good rest PParen by auto
    next
      case PJunk
      then show ?thesis
        using good by simp
    qed
  qed
qed

lemma lex_str_pieces:
  assumes "good_pieces ps"
  shows "\<exists>ts. lex_str (Suc (length (pieces_text ps))) (pieces_text ps) = Some (Ok ts) \<and> map erase ts = ps"
  using lex_pieces [OF assms, of "with_start (pieces_text ps) 1 1"]
  by (fastforce simp: lex_str_def with_start_def emits_def)

section \<open>The pieces of a guard\<close>

fun commas :: "piece list list \<Rightarrow> piece list" where
  "commas [] = []"
| "commas [x] = x"
| "commas (x # xs) = x @ PMark CHR '','' # commas xs"

fun guard_pieces :: "guard \<Rightarrow> piece list" where
  "guard_pieces (Attr NsEnv (Some var) None) = [PWord ''env'', PMark CHR '':'', PWord var]"
| "guard_pieces (Attr NsEnv (Some var) (Some want)) =
     [PWord ''eq'', PParen [PWord ''env'', PMark CHR '':'', PWord var, PMark CHR '','', PWord want]]"
| "guard_pieces (Attr ns key (Some v)) = [PWord (show_ns ns), PMark CHR '':'', PWord v]"
| "guard_pieces (Attr ns key None) = []"

fun expr_pieces :: "guard_expr \<Rightarrow> display_context \<Rightarrow> piece list" where
  "expr_pieces (GPredicate g) ctx = guard_pieces g"
| "expr_pieces (GAll gs) ctx =
     (let ps = commas (map (\<lambda>g. expr_pieces g InAll) gs) in
      if (ctx = InAnyArg \<or> ctx = InNot) \<and> length gs > 1 then [PParen ps] else ps)"
| "expr_pieces (GOr gs) ctx = [PWord ''any'', PParen (commas (map (\<lambda>g. expr_pieces g InAnyArg) gs))]"
| "expr_pieces (GNot g) ctx = [PWord ''not'', PParen (expr_pieces g InNot)]"

text \<open>Guards whose keys and values are single words.\<close>

definition printable_guard :: "guard \<Rightarrow> bool" where
  "printable_guard g \<longleftrightarrow>
     (case attr_ns g of
        NsEnv \<Rightarrow>
          (case attr_key g of Some k \<Rightarrow> plain_word k | None \<Rightarrow> False) \<and>
          (case attr_val g of Some v \<Rightarrow> plain_word v | None \<Rightarrow> True)
      | _ \<Rightarrow> (case attr_val g of Some v \<Rightarrow> plain_word v | None \<Rightarrow> False))"

fun printable :: "guard_expr \<Rightarrow> bool" where
  "printable (GPredicate g) = printable_guard g"
| "printable (GAll gs) = list_all printable gs"
| "printable (GOr gs) = list_all printable gs"
| "printable (GNot g) = printable g"

lemma pieces_text_commas: "pieces_text (commas xs) = sep_by '', '' (map pieces_text xs)"
  by (induction xs rule: commas.induct) simp_all

lemma guard_pieces_text: "printable_guard g \<Longrightarrow> pieces_text (guard_pieces g) = show_guard g"
  by (cases g rule: guard_pieces.cases) (auto simp: printable_guard_def split: ns.splits option.splits)

lemma expr_pieces_text: "printable g \<Longrightarrow> pieces_text (expr_pieces g ctx) = fmt_with_ctx g ctx"
proof (induction g ctx rule: expr_pieces.induct)
  case (2 gs ctx)
  then show ?case
    by (simp add: Let_def pieces_text_commas o_def list_all_iff cong: map_cong)
next
  case (3 gs ctx)
  then show ?case
    by (simp add: pieces_text_commas o_def list_all_iff cong: map_cong)
qed (simp_all add: guard_pieces_text)

lemma good_pieces_append:
  "good_pieces xs \<Longrightarrow> good_pieces ys \<Longrightarrow> good_piece p \<Longrightarrow> \<not> starts_word [p] \<Longrightarrow> good_pieces (xs @ p # ys)"
  by (induction xs) (auto elim!: starts_word.elims simp: Cons_eq_append_conv neq_Nil_conv)

lemma good_commas: "list_all good_pieces xs \<Longrightarrow> good_pieces (commas xs)"
  by (induction xs rule: commas.induct) (auto intro!: good_pieces_append)

lemma plain_words: "plain_word ''env''" "plain_word ''eq''" "plain_word ''any''" "plain_word ''not''" "plain_word (show_ns ns)"
  by (cases ns; simp add: plain_word_def plain_char_def is_delim_def is_whitespace_def)+

lemma guard_pieces_good: "printable_guard g \<Longrightarrow> good_pieces (guard_pieces g)"
  by (cases g rule: guard_pieces.cases) (auto simp: printable_guard_def plain_words simp del: show_ns.simps split: option.splits ns.splits)

lemma expr_pieces_good: "printable g \<Longrightarrow> good_pieces (expr_pieces g ctx)"
  by (induction g ctx rule: expr_pieces.induct)
    (auto simp: guard_pieces_good Let_def list_all_iff plain_words intro!: good_commas)

section \<open>Parsing the pieces of a guard\<close>

lemma erase_iff [simp]:
  "erase t = PWord w \<longleftrightarrow> kind t = Word w"
  "erase t = PMark c \<longleftrightarrow> kind t = Punct c"
  "erase t = PParen ps \<longleftrightarrow> (\<exists>inner a b. kind t = Group Paren inner a b \<and> map erase inner = ps)"
  by (cases t rule: erase.cases; auto)+

lemma erase_sym [simp]: "PMark c = erase t \<longleftrightarrow> kind t = Punct c"
  by (metis erase_iff(2))

lemma erase_at_comma:
  assumes "map erase ts = xs @ PMark c # ys"
  shows "\<exists>a t b. ts = a @ t # b \<and> map erase a = xs \<and> kind t = Punct c \<and> map erase b = ys"
proof -
  obtain a u where "ts = a @ u" and "map erase a = xs" and "map erase u = PMark c # ys"
    by (metis append_eq_conv_conj append_take_drop_id assms drop_map take_map)
  then show ?thesis
    by (cases u) auto
qed

definition ok_end :: "tok list \<Rightarrow> bool" where
  "ok_end r \<longleftrightarrow> (case r of [] \<Rightarrow> True | t # _ \<Rightarrow> kind t = Punct CHR '','')"

lemma skip_newlines_kind [simp]: "skip_newlines [] = []" "kind t \<noteq> Newline \<Longrightarrow> skip_newlines (t # ts) = t # ts"
  by (simp_all add: skip_newlines_def is_newline_def)

lemma skip_newlines_end [simp]: "ok_end r \<Longrightarrow> skip_newlines r = r"
  by (cases r) (auto simp: ok_end_def)

lemma run_pieces_end: "ok_end r \<Longrightarrow> w \<noteq> [] \<Longrightarrow> run_pieces w r = (w, r)"
  by (cases r) (auto simp: ok_end_def run_piece_def key_char_def)

lemma bare_run_word: "kind t = Word w \<Longrightarrow> w \<noteq> [] \<Longrightarrow> ok_end r \<Longrightarrow> bare_run what (t # r) = Ok (w, r)"
  by (simp add: bare_run_def run_piece_def run_pieces_end)

lemma check_term_end_ok: "ok_end r \<Longrightarrow> check_term_end r = Ok r"
  by (cases r) (auto simp: check_term_end_def ok_end_def Let_def)

lemma colon_run_word:
  assumes "kind c = Punct CHR '':''" and "kind t = Word w" and "w \<noteq> []" and "ok_end r"
  shows "colon_run needs what (c # t # r) = Ok (w, r)"
  using assms by (simp add: colon_run_def eat_punct_nl_def bare_run_word check_term_end_ok)

lemma eq_args_words:
  assumes "map erase inner = [PWord ''env'', PMark CHR '':'', PWord k, PMark CHR '','', PWord v]" and "k \<noteq> []" and "v \<noteq> []"
  shows "eq_args w inner = Ok (GPredicate (Attr NsEnv (Some k) (Some v)))"
proof -
  obtain t1 t2 t3 t4 t5 where inner: "inner = [t1, t2, t3, t4, t5]"
    and kinds: "kind t1 = Word ''env''" "kind t2 = Punct CHR '':''" "kind t3 = Word k" "kind t4 = Punct CHR '',''" "kind t5 = Word v"
    using assms(1) by (auto simp: map_eq_Cons_conv)
  have "bare_run ''guard key'' [t3, t4, t5] = Ok (k, [t4, t5])"
    using kinds assms by (intro bare_run_word) (simp_all add: ok_end_def)
  moreover have "value_run [t5] = Ok (v, [])"
    using kinds assms by (simp add: value_run_def value_stops_def)
  ultimately show ?thesis
    using kinds inner by (simp add: eq_args_def Let_def eat_punct_nl_def compared_value_def)
qed

lemma primary_word:
  assumes "kind t = Word w" and "w \<notin> {''not'', ''any'', ''all''}"
  shows "guard_primary seq (t # r) = parse_guard_word w r"
  using assms by (simp add: guard_primary_def at_call_def parse_paren_or_term_def parse_guard_term_def)

lemma inject_words: "\<not> prefix INJECT_PREFIX ''env''" "\<not> prefix INJECT_PREFIX ''eq''" "\<not> prefix INJECT_PREFIX (show_ns ns)"
  by (cases ns; simp add: INJECT_PREFIX_def)+

lemma term_word:
  assumes "kind c = Punct CHR '':''" and "kind t = Word v" and "v \<noteq> []" and "ok_end r"
    and "closed_guard (Attr ns key (Some v))" and "ns \<noteq> NsEnv"
  shows "parse_guard_word (show_ns ns) (c # t # r) = Ok (GPredicate (Attr ns key (Some v)), r)"
proof (cases ns)
  case NsOs
  then show ?thesis
    using assms inject_words(3) [of ns]
    by (auto simp: parse_guard_word_def colon_run_word ns_guard_def closed_guard_def os_guard_def)
next
  case NsArch
  then show ?thesis
    using assms inject_words(3) [of ns]
    by (auto simp: parse_guard_word_def colon_run_word ns_guard_def closed_guard_def)
next
  case NsBool
  then show ?thesis
    using assms inject_words(3) [of ns] by (simp add: parse_guard_word_def colon_run_word closed_guard_def)
qed (use assms in simp)

lemma primary_predicate:
  assumes "map erase ts = guard_pieces g" and "printable_guard g" and "closed_guard g" and "ok_end r"
  shows "guard_primary seq (ts @ r) = Ok (GPredicate g, r)"
proof -
  have three: "guard_primary seq (ts @ r) = Ok (GPredicate g, r)"
    if g: "g = Attr ns key (Some v)" "ns \<noteq> NsEnv" for ns key v
  proof -
    have "map erase ts = [PWord (show_ns ns), PMark CHR '':'', PWord v]" and "v \<noteq> []"
      using assms(1,2) g by (cases ns; simp add: printable_guard_def plain_word_def)+
    then obtain t1 t2 t3 where ts: "ts = [t1, t2, t3]"
      and kinds: "kind t1 = Word (show_ns ns)" "kind t2 = Punct CHR '':''" "kind t3 = Word v"
      by (auto simp: map_eq_Cons_conv)
    have "show_ns ns \<notin> {''not'', ''any'', ''all''}"
      by (cases ns) simp_all
    then show ?thesis
      using ts kinds g assms \<open>v \<noteq> []\<close> by (simp add: primary_word term_word del: show_ns.simps)
  qed
  show ?thesis
  proof (cases g rule: guard_pieces.cases)
    case (1 var)
    then obtain t1 t2 t3 where "ts = [t1, t2, t3]"
      and "kind t1 = Word ''env''" "kind t2 = Punct CHR '':''" "kind t3 = Word var"
      using assms(1) by (auto simp: map_eq_Cons_conv)
    then show ?thesis
      using 1 assms(2,4) inject_words
      by (simp add: primary_word parse_guard_word_def colon_run_word printable_guard_def plain_word_def)
  next
    case (2 var want)
    then obtain t1 t2 inner a b where ts: "ts = [t1, t2]" and kinds: "kind t1 = Word ''eq''" "kind t2 = Group Paren inner a b"
      and inner: "map erase inner = [PWord ''env'', PMark CHR '':'', PWord var, PMark CHR '','', PWord want]"
      using assms(1) by (auto simp: map_eq_Cons_conv)
    have "eq_args ''eq'' inner = Ok (GPredicate g)"
      using eq_args_words [OF inner] 2 assms(2) by (simp add: printable_guard_def plain_word_def)
    then show ?thesis
      using ts kinds inject_words by (simp add: primary_word parse_guard_word_def eat_paren_group_def)
  qed (use three assms(2) in \<open>auto simp: printable_guard_def split: ns.splits\<close>)
qed

lemma primary_call:
  assumes "kind t = Word w" and "kind u = Group Paren inner a b"
  shows "w = ''not'' \<Longrightarrow> guard_primary seq (t # u # r) = with_tail r (not_call seq inner)"
    and "w = ''any'' \<Longrightarrow> guard_primary seq (t # u # r) = with_tail r (any_call seq inner)"
  using assms by (simp_all add: guard_primary_def at_call_def eat_paren_group_def)

lemma primary_paren:
  assumes "kind u = Group Paren inner a b"
  shows "guard_primary seq (u # r) = with_tail r (guard_part ''guard group'' seq inner)"
  using assms by (simp add: guard_primary_def at_call_def parse_paren_or_term_def)

subsection \<open>Commas\<close>

lemma split_no_comma: "PMark CHR '','' \<notin> erase ` set ts \<Longrightarrow> split_top_commas ts = [ts]"
  by (induction ts) (auto simp: image_iff)

lemma split_at_comma:
  assumes "PMark CHR '','' \<notin> erase ` set ts" and "kind t = Punct CHR '',''"
  shows "split_top_commas (ts @ t # us) = ts # split_top_commas us"
  using assms by (induction ts) (auto simp: image_iff)

lemma split_commas:
  assumes "map erase ts = commas xss" and "xss \<noteq> []" and "\<forall>xs \<in> set xss. PMark CHR '','' \<notin> set xs"
  shows "map (map erase) (split_top_commas ts) = xss"
  using assms
proof (induction xss arbitrary: ts rule: commas.induct)
  case (2 xs)
  then have "PMark CHR '','' \<notin> erase ` set ts"
    by (metis commas.simps(2) list.set_intros(1) list.set_map)
  then show ?case
    using 2 by (simp add: split_no_comma)
next
  case (3 xs ys zss)
  then obtain a t b where ts: "ts = a @ t # b" and a: "map erase a = xs" and t: "kind t = Punct CHR '',''"
    and b: "map erase b = commas (ys # zss)"
    using erase_at_comma [of ts xs _ "commas (ys # zss)"] by auto
  have "PMark CHR '','' \<notin> erase ` set a"
    using 3(4) a by (metis list.set_intros(1) list.set_map)
  then show ?case
    using 3(1) [OF b] 3(4) a t ts by (simp add: split_at_comma)
qed simp

lemma guard_pieces_no_comma: "PMark CHR '','' \<notin> set (guard_pieces g)"
  by (cases g rule: guard_pieces.cases) auto

lemma expr_pieces_no_comma: "is_all g \<longrightarrow> wf_guard g \<and> (ctx = InAnyArg \<or> ctx = InNot) \<Longrightarrow> PMark CHR '','' \<notin> set (expr_pieces g ctx)"
  by (cases g) (auto simp: guard_pieces_no_comma Let_def)

subsection \<open>The whole guard\<close>

text \<open>Sequences of primaries that parse one by one.\<close>

lemma guard_list_parses:
  assumes "list_all2 (\<lambda>g ps. \<forall>ts r. map erase ts = ps \<longrightarrow> ok_end r \<longrightarrow> primary (ts @ r) = Ok (g, r)) gs pss"
    and "gs \<noteq> []" and "map erase ts = commas pss" and "length gs \<le> m"
  shows "guard_list m primary ts = Ok (gs, [])"
  using assms
proof (induction gs pss arbitrary: ts m rule: list_all2_induct)
  case (Cons g gs ps pss)
  obtain k where m: "m = Suc k"
    using Cons.prems by (cases m) auto
  show ?case
  proof (cases pss)
    case Nil
    then have "primary (ts @ []) = Ok (g, [])"
      using Cons.hyps(1) Cons.prems(2) by (intro Cons.hyps(1) [rule_format]) (auto simp: ok_end_def)
    then show ?thesis
      using m Nil Cons.hyps(2) by (simp add: eat_punct_nl_def)
  next
    case (Cons qs pss')
    then obtain a t b where ts: "ts = a @ t # b" and a: "map erase a = ps" and t: "kind t = Punct CHR '',''"
      and b: "map erase b = commas pss"
      using Cons.prems(2) erase_at_comma [of ts ps _ "commas pss"] by auto
    have "primary ts = Ok (g, t # b)"
      unfolding ts using a t by (intro Cons.hyps(1) [rule_format]) (auto simp: ok_end_def)
    moreover have "guard_list k primary b = Ok (gs, [])"
      using Cons.IH b Cons.prems m Cons.hyps(2) Cons by auto
    ultimately show ?thesis
      using m t by (simp add: eat_punct_nl_def)
  qed
qed simp

lemma flat_parts:
  "\<not> list_ex is_all gs \<Longrightarrow> concat (map all_parts gs) = gs"
  "\<not> list_ex is_or gs \<Longrightarrow> concat (map or_parts gs) = gs"
proof -
  have "all_parts g = [g]" if "\<not> is_all g" for g
    using that by (cases g) simp_all
  then show "\<not> list_ex is_all gs \<Longrightarrow> concat (map all_parts gs) = gs"
    by (induction gs) simp_all
  have "or_parts g = [g]" if "\<not> is_or g" for g
    using that by (cases g) simp_all
  then show "\<not> list_ex is_or gs \<Longrightarrow> concat (map or_parts gs) = gs"
    by (induction gs) simp_all
qed

lemma smart_of_flat:
  assumes "length gs \<ge> 2"
  shows "\<not> list_ex is_all gs \<Longrightarrow> guard_all gs = Some (GAll gs)" and "\<not> list_ex is_or gs \<Longrightarrow> guard_or gs = Some (GOr gs)"
  using assms by (auto simp: guard_all_def guard_or_def flat_parts split: list.splits)

definition parses_primary :: "guard_expr \<Rightarrow> bool" where
  "parses_primary g \<longleftrightarrow>
     (\<forall>n ts r ctx. 2 * size g \<le> n \<longrightarrow> ok_end r \<longrightarrow> (is_all g \<longrightarrow> ctx = InAnyArg \<or> ctx = InNot) \<longrightarrow>
        map erase ts = expr_pieces g ctx \<longrightarrow> guard_primary (parse_guard_seq n) (ts @ r) = Ok (g, r))"

lemma parses_primaryD:
  "parses_primary g \<Longrightarrow> 2 * size g \<le> n \<Longrightarrow> ok_end r \<Longrightarrow> is_all g \<longrightarrow> ctx = InAnyArg \<or> ctx = InNot \<Longrightarrow>
     map erase ts = expr_pieces g ctx \<Longrightarrow> guard_primary (parse_guard_seq n) (ts @ r) = Ok (g, r)"
  unfolding parses_primary_def by blast

lemma length_commas: "length xss \<le> Suc (length (commas xss))"
  by (induction xss rule: commas.induct) auto

text \<open>A primary is a sequence of one, and it is an argument on its own.\<close>

lemma seq_of_primary:
  assumes "guard_primary (parse_guard_seq n) ts = Ok (g, [])"
  shows "parse_guard_seq (Suc n) ts = Ok (g, [])"
  using assms by (simp add: guard_seq_def eat_punct_nl_def)

lemma part_of_primary:
  assumes "parses_primary g" and "2 * size g < n" and "is_all g \<longrightarrow> ctx = InAnyArg \<or> ctx = InNot" and "map erase ts = expr_pieces g ctx"
  shows "guard_part what (parse_guard_seq n) ts = Ok g"
proof -
  obtain m where n: "n = Suc m"
    using assms(2) by (cases n) auto
  have "guard_primary (parse_guard_seq m) (ts @ []) = Ok (g, [])"
    by (rule parses_primaryD [OF assms(1) _ _ assms(3,4)]) (use assms(2) n in \<open>simp_all add: ok_end_def\<close>)
  then show ?thesis
    using seq_of_primary [of m ts g] n by (simp add: guard_part_def)
qed

lemma all_seq:
  assumes "\<And>g. g \<in> set gs \<Longrightarrow> parses_primary g" and "wf_guard (GAll gs)" and "2 * size (GAll gs) \<le> Suc n"
    and "map erase ts = commas (map (\<lambda>g. expr_pieces g InAll) gs)"
  shows "parse_guard_seq (Suc n) ts = Ok (GAll gs, [])"
proof -
  have "2 * size g \<le> n" if "g \<in> set gs" for g
    using size_list_estimation [OF that, of "size g - 1" size] size_list_estimation' [OF that, of "size g" size] assms(3) by simp
  then have prim: "guard_primary (parse_guard_seq n) (us @ r) = Ok (g, r)"
    if "g \<in> set gs" "map erase us = expr_pieces g InAll" "ok_end r" for g us r
    using assms(1,2) that by (intro parses_primaryD [where ctx = InAll]) (auto simp: list_ex_iff)
  have "guard_list (Suc (length ts)) (guard_primary (parse_guard_seq n)) ts = Ok (gs, [])"
  proof (rule guard_list_parses [OF _ _ assms(4)])
    show "length gs \<le> Suc (length ts)"
      using length_commas [of "map (\<lambda>g. expr_pieces g InAll) gs"] arg_cong [OF assms(4), of length] by simp
  qed (use prim assms(2) in \<open>auto simp: list_all2_map2 list_all2_same\<close>)
  then show ?thesis
    using assms(2) by (auto simp: guard_seq_def with_tail_def smart_of_flat simp del: guard_list.simps split: list.splits)
qed

lemma any_parses:
  assumes "\<And>g. g \<in> set gs \<Longrightarrow> parses_primary g" and "wf_guard (GOr gs)" and "2 * size (GOr gs) \<le> n"
    and "map erase inner = commas (map (\<lambda>g. expr_pieces g InAnyArg) gs)"
  shows "any_call (parse_guard_seq n) inner = Ok (GOr gs)"
proof -
  have wf: "list_all wf_guard gs" "2 \<le> length gs" "\<not> list_ex is_or gs"
    using assms(2) by simp_all
  have parts: "map (map erase) (split_top_commas inner) = map (\<lambda>g. expr_pieces g InAnyArg) gs"
    using wf by (intro split_commas [OF assms(4)]) (auto simp: list_all_iff intro!: expr_pieces_no_comma)
  have "2 * size g < n" if "g \<in> set gs" for g
    using size_list_estimation' [OF that, of "size g" size] assms(3) by simp
  then have "guard_part ''`any`'' (parse_guard_seq n) part = Ok g"
    if "g \<in> set gs" "map erase part = expr_pieces g InAnyArg" for g part
    using assms(1) that by (intro part_of_primary [where ctx = InAnyArg]) auto
  moreover have "list_all2 (\<lambda>part g. map erase part = expr_pieces g InAnyArg) (split_top_commas inner) gs"
    using parts by (simp add: list_all2_conv_all_nth list_eq_iff_nth_eq)
  ultimately have "map_result (guard_part ''`any`'' (parse_guard_seq n)) (split_top_commas inner) = Ok gs"
    unfolding map_result_Inr_iff by (auto simp: list_all2_conv_all_nth)
  moreover have "length (split_top_commas inner) = length gs"
    using parts by (metis length_map)
  ultimately show ?thesis
    using wf by (simp add: any_call_def Let_def smart_of_flat)
qed

lemma guard_parses: "wf_guard g \<Longrightarrow> printable g \<Longrightarrow> parses_primary g"
proof (induction g)
  case (GPredicate g)
  then show ?case
    by (simp add: parses_primary_def primary_predicate)
next
  case (GAll gs)
  have prim: "\<And>g. g \<in> set gs \<Longrightarrow> parses_primary g"
    using GAll by (auto simp: list_all_iff)
  have "guard_primary (parse_guard_seq n) (ts @ r) = Ok (GAll gs, r)"
    if n: "2 * size (GAll gs) \<le> n" and ts: "map erase ts = [PParen (commas (map (\<lambda>g. expr_pieces g InAll) gs))]" for n ts r
  proof -
    obtain u inner a b where u: "ts = [u]" "kind u = Group Paren inner a b"
      and inner: "map erase inner = commas (map (\<lambda>g. expr_pieces g InAll) gs)"
      using ts by (auto simp: map_eq_Cons_conv)
    obtain m where m: "n = Suc m"
      using n by (cases n) auto
    have "parse_guard_seq n inner = Ok (GAll gs, [])"
      unfolding m by (rule all_seq [OF prim GAll.prems(1) n [unfolded m] inner])
    then show ?thesis
      using u by (simp add: primary_paren guard_part_def with_tail_def)
  qed
  then show ?case
    using GAll.prems(1) by (auto simp: parses_primary_def Let_def)
next
  case (GOr gs)
  have prim: "\<And>g. g \<in> set gs \<Longrightarrow> parses_primary g"
    using GOr by (auto simp: list_all_iff)
  have "guard_primary (parse_guard_seq n) (ts @ r) = Ok (GOr gs, r)"
    if n: "2 * size (GOr gs) \<le> n" and ts: "map erase ts = expr_pieces (GOr gs) ctx" for n ts r ctx
  proof -
    obtain t u inner a b where "ts = [t, u]" "kind t = Word ''any''" "kind u = Group Paren inner a b"
      and "map erase inner = commas (map (\<lambda>g. expr_pieces g InAnyArg) gs)"
      using ts by (auto simp: map_eq_Cons_conv)
    then show ?thesis
      using any_parses [OF prim GOr.prems(1) n, of inner] by (simp add: primary_call with_tail_def)
  qed
  then show ?case
    by (simp add: parses_primary_def)
next
  case (GNot g)
  have prim: "parses_primary g"
    using GNot by simp
  have "guard_primary (parse_guard_seq n) (ts @ r) = Ok (GNot g, r)"
    if n: "2 * size (GNot g) \<le> n" and ts: "map erase ts = expr_pieces (GNot g) ctx" for n ts r ctx
  proof -
    obtain t u inner a b where ts': "ts = [t, u]" "kind t = Word ''not''" "kind u = Group Paren inner a b"
      and inner: "map erase inner = expr_pieces g InNot"
      using ts by (auto simp: map_eq_Cons_conv)
    have "split_top_commas inner = [inner]"
      using expr_pieces_no_comma [of g InNot] GNot.prems(1) inner by (intro split_no_comma) (metis list.set_map wf_guard.simps(4))
    moreover have "guard_part ''`not`'' (parse_guard_seq n) inner = Ok g"
      using n by (intro part_of_primary [OF prim _ _ inner]) simp_all
    ultimately show ?thesis
      using ts' by (simp add: primary_call not_call_def with_tail_def)
  qed
  then show ?case
    by (simp add: parses_primary_def)
qed

lemma parse_guard_pieces:
  assumes "wf_guard g" and "printable g" and "map erase ts = expr_pieces g Root"
  shows "parse_guard_inner ts = Ok g"
proof -
  have g: "parses_primary g"
    using assms by (simp add: guard_parses)
  define n where "n = 2 * size g + toks_depth ts"
  have "parse_guard_seq (Suc n) ts = Ok (g, [])"
  proof (cases "is_all g")
    case True
    then obtain gs where gs: "g = GAll gs"
      by (cases g) auto
    have "\<And>g. g \<in> set gs \<Longrightarrow> parses_primary g"
      using assms gs by (auto simp: list_all_iff intro!: guard_parses)
    then show ?thesis
      unfolding gs by (rule all_seq) (use assms gs in \<open>simp_all add: Let_def n_def\<close>)
  next
    case False
    then have "guard_primary (parse_guard_seq n) (ts @ []) = Ok (g, [])"
      using assms(3) by (intro parses_primaryD [OF g]) (simp_all add: ok_end_def n_def)
    then show ?thesis
      by (intro seq_of_primary) simp
  qed
  moreover have "parse_guard_seq (Suc n) ts = parse_guard_seq (Suc (toks_depth ts)) ts"
    by (rule parse_guard_seq_fuel) (simp_all add: n_def)
  ultimately show ?thesis
    by (simp add: parse_guard_inner_def parse_guard_at_def guard_part_def del: parse_guard_seq.simps)
qed

lemma blank_is_no_guard: "skip_newlines ts = [] \<Longrightarrow> parse_guard_inner ts \<noteq> Ok g"
  by (simp add: parse_guard_inner_def parse_guard_at_def guard_part_def guard_seq_def guard_primary_def at_call_def
      parse_paren_or_term_def)

text \<open>C14. 
  A printed guard reads back as itself: for every guard in the form the parser builds whose keys and values are
  single words, lexing and parsing the text its printer writes returns that guard.
\<close>

theorem guard_print_parse:
  assumes "wf_guard g" and "printable g"
  shows "parse_guard_expr_str (show_guard_expr g) = Some (Ok g)"
proof -
  obtain ts where lex: "lex_str (Suc (length (show_guard_expr g))) (show_guard_expr g) = Some (Ok ts)"
    and ts: "map erase ts = expr_pieces g Root"
    using lex_str_pieces [OF expr_pieces_good [OF assms(2)], of Root] expr_pieces_text [OF assms(2), of Root]
    by (auto simp: show_guard_expr_def)
  have "parse_guard_inner ts = Ok g"
    using assms ts by (rule parse_guard_pieces)
  moreover from this have "skip_newlines ts \<noteq> []"
    using blank_is_no_guard by blast
  ultimately show ?thesis
    using lex by (simp add: parse_guard_expr_str_def parse_single_guard_def)
qed

definition sample_guard :: guard_expr where
  "sample_guard =
     GAll [GOr [GPredicate (Attr NsOs None (Some ''linux'')),
                GAll [GPredicate (Attr NsArch None (Some ''x86_64'')), GNot (GPredicate (Attr NsEnv (Some ''CI'') None))]],
           GNot (GPredicate (Attr NsEnv (Some ''MODE'') (Some ''dev'')))]"

theorem guard_print_parse_witness:
  "show_guard_expr sample_guard = ''any(os:linux, (arch:x86_64, not(env:CI))), not(eq(env:MODE, dev))'' \<and>
   parse_guard_expr_str (show_guard_expr sample_guard) = Some (Ok sample_guard)"
proof (rule conjI)
  show "show_guard_expr sample_guard = ''any(os:linux, (arch:x86_64, not(env:CI))), not(eq(env:MODE, dev))''"
    by code_simp
  show "parse_guard_expr_str (show_guard_expr sample_guard) = Some (Ok sample_guard)"
    by (rule guard_print_parse) code_simp+
qed

text \<open>
  The printer writes the value of a comparison without quotes, so a quoted value that holds a comma is not
  read back.
\<close>

theorem quoted_value_lost:
  "parse_guard_expr_str (''eq(env:K, '' @ [dquote] @ ''a, b'' @ [dquote] @ '')'') =
     Some (Ok (GPredicate (Attr NsEnv (Some ''K'') (Some ''a, b'')))) \<and>
   parse_guard_expr_str (show_guard_expr (GPredicate (Attr NsEnv (Some ''K'') (Some ''a, b'')))) =
     Some (Err (GuardFailure (GuardMsg ''unexpected text after `eq` value'')))"
  by code_simp

end
