(* ===== verification/Utf8.thy ===== *)
theory Utf8
  imports Prelude
begin

text \<open>
  UTF-8 as the source uses it of the standard library, and the cut of a byte stream between characters of
  \<open>oxdock-core/src/exec/args.rs\<close>: a character is the byte sequence that encodes it, decoding is strict, and the bytes
  held back at the end of a chunk are exactly those of a character that is not complete.
\<close>

section \<open>UTF-8\<close>

type_synonym uchar = "byte list"

definition byte_in :: "nat \<Rightarrow> nat \<Rightarrow> byte \<Rightarrow> bool" where
  "byte_in lo hi b \<longleftrightarrow> lo \<le> unat b \<and> unat b \<le> hi"

abbreviation is_cont :: "byte \<Rightarrow> bool" where "is_cont \<equiv> byte_in 0x80 0xBF"

text \<open>The well-formed sequences of the Unicode standard, by their first byte: the range of the second one.\<close>

definition second_range :: "byte \<Rightarrow> nat \<times> nat" where
  "second_range b =
     (if unat b = 0xE0 then (0xA0, 0xBF)
      else if unat b = 0xED then (0x80, 0x9F)
      else if unat b = 0xF0 then (0x90, 0xBF)
      else if unat b = 0xF4 then (0x80, 0x8F)
      else (0x80, 0xBF))"

definition lead_len :: "byte \<Rightarrow> nat option" where
  "lead_len b =
     (if unat b < 0x80 then Some 1
      else if byte_in 0xC2 0xDF b then Some 2
      else if byte_in 0xE0 0xEF b then Some 3
      else if byte_in 0xF0 0xF4 b then Some 4
      else None)"

definition well_formed :: "byte list \<Rightarrow> bool" where
  "well_formed c =
     (case c of
        [] \<Rightarrow> False
      | b # bs \<Rightarrow>
          lead_len b = Some (length c) \<and> list_all is_cont bs \<and>
          (bs \<noteq> [] \<longrightarrow> byte_in (fst (second_range b)) (snd (second_range b)) (hd bs)))"

definition next_char :: "byte list \<Rightarrow> (uchar \<times> byte list) option" where
  "next_char bs =
     (case bs of
        [] \<Rightarrow> None
      | b # _ \<Rightarrow>
          (case lead_len b of
             None \<Rightarrow> None
           | Some n \<Rightarrow> if well_formed (take n bs) then Some (take n bs, drop n bs) else None))"

lemma well_formed_nonempty: "well_formed c \<Longrightarrow> c \<noteq> []"
  by (auto simp: well_formed_def)

lemma next_char_append: "next_char bs = Some (c, r) \<Longrightarrow> bs = c @ r \<and> well_formed c"
  by (auto simp: next_char_def split: list.splits option.splits if_splits)

lemma next_char_shorter: "next_char bs = Some (c, r) \<Longrightarrow> length r < length bs"
  using next_char_append [of bs c r] well_formed_nonempty [of c] by auto

function from_utf8 :: "byte list \<Rightarrow> uchar list option" where
  "from_utf8 bs =
     (if bs = [] then Some []
      else (case next_char bs of
          None \<Rightarrow> None
        | Some (c, r) \<Rightarrow> (case from_utf8 r of None \<Rightarrow> None | Some cs \<Rightarrow> Some (c # cs))))"
  by pat_completeness auto
termination
  by (relation "measure length") (auto dest: next_char_shorter)

declare from_utf8.simps [simp del]

definition scalar_of :: "uchar \<Rightarrow> int" where
  "scalar_of c =
     (case c of
        [a] \<Rightarrow> uint a
      | [a, b] \<Rightarrow> uint a mod 32 * 64 + uint b mod 64
      | [a, b, d] \<Rightarrow> (uint a mod 16 * 64 + uint b mod 64) * 64 + uint d mod 64
      | [a, b, d, e] \<Rightarrow> ((uint a mod 8 * 64 + uint b mod 64) * 64 + uint d mod 64) * 64 + uint e mod 64
      | _ \<Rightarrow> 0)"

definition char_is_whitespace :: "uchar \<Rightarrow> bool" where
  "char_is_whitespace c \<longleftrightarrow>
     (let n = scalar_of c in
      9 \<le> n \<and> n \<le> 13 \<or> n \<in> set [32, 133, 160, 5760, 8232, 8233, 8239, 8287, 12288] \<or> 8192 \<le> n \<and> n \<le> 8202)"

subsection \<open>Decoding in pieces\<close>

lemma well_formed_len: "well_formed (b # bs) \<Longrightarrow> lead_len b = Some (Suc (length bs))"
  by (simp add: well_formed_def)

lemma next_char_well_formed: "well_formed c \<Longrightarrow> next_char (c @ r) = Some (c, r)"
  by (cases c) (auto simp: next_char_def well_formed_len dest: well_formed_nonempty)

lemma from_utf8_Nil [simp]: "from_utf8 [] = Some []"
  by (simp add: from_utf8.simps)

lemma from_utf8_Cons: "well_formed c \<Longrightarrow> from_utf8 (c @ r) = map_option ((#) c) (from_utf8 r)"
  using well_formed_nonempty [of c] by (simp add: from_utf8.simps [of "c @ r"] next_char_well_formed split: option.split)

lemma from_utf8_Some_iff: "from_utf8 bs = Some cs \<longleftrightarrow> bs = concat cs \<and> list_all well_formed cs"
proof
  assume "from_utf8 bs = Some cs"
  then show "bs = concat cs \<and> list_all well_formed cs"
  proof (induction bs arbitrary: cs rule: from_utf8.induct)
    case (1 bs)
    show ?case
    proof (cases "bs = []")
      case False
      then obtain c r cs' where "next_char bs = Some (c, r)" "from_utf8 r = Some cs'" "cs = c # cs'"
        using 1(2) by (auto simp: from_utf8.simps [of bs] split: option.splits)
      then show ?thesis
        using 1(1) [OF False _ refl, of c r cs'] next_char_append [of bs c r] by auto
    qed (use 1 in simp)
  qed
next
  assume "bs = concat cs \<and> list_all well_formed cs"
  then show "from_utf8 bs = Some cs"
    by (induction cs arbitrary: bs) (auto simp: from_utf8_Cons)
qed

lemma from_utf8_append:
  assumes "from_utf8 a = Some cs"
  shows "from_utf8 (a @ b) = map_option ((@) cs) (from_utf8 b)"
proof -
  have "list_all well_formed cs \<Longrightarrow> from_utf8 (concat cs @ b) = map_option ((@) cs) (from_utf8 b)"
    by (induction cs; cases "from_utf8 b") (simp_all add: from_utf8_Cons)
  then show ?thesis
    using assms by (simp add: from_utf8_Some_iff)
qed

section \<open>Incomplete tails\<close>

definition lead_need :: "byte \<Rightarrow> nat" where
  "lead_need b = (if unat b < 0xE0 then 2 else if unat b < 0xF0 then 3 else 4)"

fun incomplete_scan :: "nat \<Rightarrow> nat \<Rightarrow> byte list \<Rightarrow> nat" where
  "incomplete_scan 0 n rb = 0"
| "incomplete_scan (Suc k) n [] = 0"
| "incomplete_scan (Suc k) n (b # rb) =
     (if unat b < 0x80 then 0
      else if unat b \<ge> 0xC0 then (if unat b > 0xF4 then 0 else if n < lead_need b then n else 0)
      else incomplete_scan k (Suc n) rb)"

definition trailing_incomplete_len :: "byte list \<Rightarrow> nat" where
  "trailing_incomplete_len buf = incomplete_scan 3 1 (rev buf)"

definition head_tail :: "byte list \<Rightarrow> byte list \<times> byte list" where
  "head_tail staged =
     (let hold = trailing_incomplete_len staged; n = length staged - hold in (take n staged, drop n staged))"

lemma lead_len_need: "lead_len b = Some n \<Longrightarrow> n \<noteq> 1 \<Longrightarrow> unat b \<ge> 0xC2 \<and> unat b \<le> 0xF4 \<and> lead_need b = n"
  by (auto simp: lead_len_def byte_in_def lead_need_def split: if_splits)

lemma lead_len_one: "lead_len b = Some 1 \<Longrightarrow> unat b < 0x80"
  by (auto simp: lead_len_def split: if_splits)

lemma lead_len_le: "lead_len b = Some n \<Longrightarrow> n \<le> 4"
  by (auto simp: lead_len_def split: if_splits)

lemma incomplete_scan_Nil [simp]: "incomplete_scan k n [] = 0"
  by (cases k) simp_all

lemma incomplete_scan_conts:
  "list_all is_cont bs \<Longrightarrow> incomplete_scan (length bs + k) n (bs @ r) = incomplete_scan k (n + length bs) r"
  by (induction bs arbitrary: n) (auto simp: byte_in_def)

lemma incomplete_scan_short: "list_all is_cont bs \<Longrightarrow> k \<le> length bs \<Longrightarrow> incomplete_scan k n (bs @ r) = 0"
  by (induction k n bs rule: incomplete_scan.induct) (auto simp: byte_in_def)

lemma trailing_complete:
  assumes "well_formed c"
  shows "trailing_incomplete_len (pre @ c) = 0"
proof -
  obtain b bs where c: "c = b # bs"
    using assms by (cases c) (auto simp: well_formed_def)
  have bs: "list_all is_cont (rev bs)" and len: "lead_len b = Some (Suc (length bs))"
    using assms c by (auto simp: well_formed_def list_all_iff)
  show ?thesis
  proof (cases "length bs \<ge> 3")
    case True
    then show ?thesis
      using incomplete_scan_short [OF bs, of 3] c by (simp add: trailing_incomplete_len_def)
  next
    case False
    then have "trailing_incomplete_len (pre @ c) = incomplete_scan (3 - length bs) (1 + length bs) (b # rev pre)"
      using incomplete_scan_conts [OF bs, of "3 - length bs" 1 "b # rev pre"] c by (simp add: trailing_incomplete_len_def)
    moreover obtain k where "3 - length bs = Suc k"
      using False by (cases "3 - length bs") auto
    moreover have "unat b < 0x80 \<or> unat b \<ge> 0xC2 \<and> lead_need b = Suc (length bs)"
      using lead_len_need [OF len] lead_len_one [of b] len by (cases "bs = []") simp_all
    ultimately show ?thesis
      by auto
  qed
qed

lemma trailing_partial:
  assumes "well_formed c" and "0 < m" and "m < length c"
  shows "trailing_incomplete_len (pre @ take m c) = m"
proof -
  obtain b bs where c: "c = b # bs"
    using assms by (cases c) (auto simp: well_formed_def)
  define ts where "ts = take (m - 1) bs"
  have part: "take m c = b # ts" and len_ts: "length ts = m - 1"
    using assms c by (cases m; simp add: ts_def)+
  have bs: "list_all is_cont (rev ts)" and len: "lead_len b = Some (Suc (length bs))"
    using assms c by (auto simp: well_formed_def list_all_iff ts_def dest: in_set_takeD)
  have m: "m \<le> 3"
    using lead_len_le [OF len] assms(3) c by simp
  then have "trailing_incomplete_len (pre @ take m c) = incomplete_scan (Suc (3 - m)) m (b # rev pre)"
    using incomplete_scan_conts [OF bs, of "Suc (3 - m)" 1 "b # rev pre"] part len_ts assms(2)
    by (simp add: trailing_incomplete_len_def)
  moreover have "unat b \<ge> 0xC2 \<and> unat b \<le> 0xF4 \<and> lead_need b = Suc (length bs)"
    using assms(2,3) c by (intro lead_len_need [OF len]) auto
  ultimately show ?thesis
    using assms(3) c by simp
qed

lemma split_chars:
  assumes "concat cs = a @ b" and "list_all well_formed cs"
  shows "\<exists>ds part. a = concat ds @ part \<and> list_all well_formed ds \<and>
    (part = [] \<or> (\<exists>c m. well_formed c \<and> 0 < m \<and> m < length c \<and> part = take m c))"
  using assms
proof (induction cs arbitrary: a)
  case (Cons c cs)
  show ?case
  proof (cases "length c \<le> length a")
    case True
    then have c: "c = take (length c) a" and cs: "concat cs = drop (length c) a @ b"
      using Cons.prems(1) by (auto simp: append_eq_append_conv_if)
    have "a = c @ drop (length c) a"
      by (subst c) simp
    moreover obtain ds part where "drop (length c) a = concat ds @ part" "list_all well_formed ds"
      "part = [] \<or> (\<exists>c m. well_formed c \<and> 0 < m \<and> m < length c \<and> part = take m c)"
      using Cons.IH [OF cs] Cons.prems(2) by auto
    ultimately show ?thesis
      using Cons.prems(2) by (intro exI [of _ "c # ds"] exI [of _ part]) auto
  next
    case False
    then have "a = take (length a) c"
      using Cons.prems(1) by (auto simp: append_eq_append_conv_if)
    moreover have "length a < length c" and "well_formed c"
      using False Cons.prems(2) by auto
    ultimately have "a = [] \<or> (\<exists>c m. well_formed c \<and> 0 < m \<and> m < length c \<and> a = take m c)"
      by (cases "a = []") blast+
    then show ?thesis
      by (intro exI [of _ "[]"] exI [of _ a]) simp
  qed
qed (rule exI [of _ "[]"], simp)

text \<open>The head is complete whenever the bytes so far can be continued to a text.\<close>

lemma head_valid:
  assumes "from_utf8 (staged @ fut) = Some cs"
  shows "\<exists>ds. from_utf8 (fst (head_tail staged)) = Some ds"
proof -
  obtain ds part where staged: "staged = concat ds @ part" and ds: "list_all well_formed ds"
    and part: "part = [] \<or> (\<exists>c m. well_formed c \<and> 0 < m \<and> m < length c \<and> part = take m c)"
    using assms split_chars [of cs staged fut] by (auto simp: from_utf8_Some_iff)
  have "trailing_incomplete_len staged = length part"
    using part
  proof (elim disjE exE conjE)
    assume "part = []"
    then show ?thesis
      using staged ds trailing_complete [of "last ds" "concat (butlast ds)"]
      by (cases ds rule: rev_cases) (auto simp: trailing_incomplete_len_def)
  next
    fix c m
    assume "well_formed c" "0 < m" "m < length c" "part = take m c"
    then show ?thesis
      using staged trailing_partial [of c m "concat ds"] by simp
  qed
  then have "fst (head_tail staged) = concat ds"
    using staged by (simp add: head_tail_def Let_def)
  then show ?thesis
    using ds by (auto simp: from_utf8_Some_iff)
qed

lemma incomplete_scan_lead:
  "incomplete_scan k n rb = m \<Longrightarrow> 0 < m \<Longrightarrow>
     n \<le> m \<and> m - n < length rb \<and> unat (rb ! (m - n)) \<ge> 0x80 \<and> m < lead_need (rb ! (m - n))"
proof (induction k n rb arbitrary: m rule: incomplete_scan.induct)
  case (3 k n b rb)
  show ?case
  proof (cases "unat b \<ge> 0x80 \<and> unat b < 0xC0")
    case True
    then have "Suc n \<le> m \<and> m - Suc n < length rb \<and> unat (rb ! (m - Suc n)) \<ge> 0x80 \<and> m < lead_need (rb ! (m - Suc n))"
      using 3(1) [of m] 3(2,3) by simp
    moreover from this have "m - n = Suc (m - Suc n)"
      by linarith
    ultimately show ?thesis
      by simp
  next
    case False
    then show ?thesis
      using 3(2,3) by (auto split: if_splits)
  qed
qed simp_all

text \<open>The bytes kept for later are no text on their own.\<close>

lemma tail_undecodable:
  assumes "head_tail s = (h, t)" and "from_utf8 t = Some cs"
  shows "t = []"
proof (rule ccontr)
  assume "t \<noteq> []"
  define m where "m = trailing_incomplete_len s"
  have t: "t = drop (length s - m) s"
    using assms(1) by (auto simp: head_tail_def Let_def m_def)
  have "0 < m"
    using \<open>t \<noteq> []\<close> t by (cases m) auto
  then have lead: "m - 1 < length s" "unat (rev s ! (m - 1)) \<ge> 0x80" "m < lead_need (rev s ! (m - 1))"
    using incomplete_scan_lead [of 3 1 "rev s" m] by (auto simp: m_def trailing_incomplete_len_def)
  then have b: "rev s ! (m - 1) = hd t" and len: "length t = m"
    using \<open>0 < m\<close> t by (auto simp: rev_nth hd_drop_conv_nth)
  obtain c cs' where "t = c @ concat cs'" "well_formed c"
    using assms(2) \<open>t \<noteq> []\<close> by (cases cs) (auto simp: from_utf8_Some_iff)
  then have "lead_len (hd t) = Some (length c)" "length c \<le> m" "length c \<noteq> 1 \<or> unat (hd t) < 0x80"
    using len lead_len_one by (cases c; auto simp: well_formed_def)+
  then show False
    using lead_len_need [of "hd t" "length c"] lead b by auto
qed

lemma head_tail_append: "head_tail staged = (h, t) \<Longrightarrow> staged = h @ t"
  by (auto simp: head_tail_def Let_def)

end
