(* ===== verification/Text_Pump.thy ===== *)
theory Text_Pump
  imports Utf8
begin

text \<open>
  The streaming text transforms of \<open>oxdock-core/src/exec/args.rs\<close>: \<open>TextPump\<close> applied to strings at once and
  \<open>TextPumpState\<close> fed with the chunks of a pipe. A \<open>str\<close> is its UTF-8 bytes. Writes may fail part of the way and the spill buffer that holds back white space
  may refuse, as parameters say. Shown: the bytes a pump writes do not depend on how the input was
  cut into chunks, they are those of the transform on the whole text, and they are a prefix of it
  whenever the pump stops early.
\<close>

section \<open>Transforms of whole texts\<close>

text \<open>What the code uses of the Unicode tables: case mappings of characters, and the two classes the rule for
  a final sigma reads.\<close>

record unicode =
  to_upper_char :: "uchar \<Rightarrow> uchar list"
  to_lower_char :: "uchar \<Rightarrow> uchar list"
  is_cased :: "uchar \<Rightarrow> bool"
  is_case_ignorable :: "uchar \<Rightarrow> bool"

definition to_uppercase :: "unicode \<Rightarrow> uchar list \<Rightarrow> uchar list" where
  "to_uppercase U cs = concat (map (to_upper_char U) cs)"

definition sigma :: uchar where "sigma = [0xCE, 0xA3]"
definition small_sigma :: uchar where "small_sigma = [0xCF, 0x83]"
definition final_sigma :: uchar where "final_sigma = [0xCF, 0x82]"

definition ignorable_then_cased :: "unicode \<Rightarrow> uchar list \<Rightarrow> bool" where
  "ignorable_then_cased U cs =
     (case dropWhile (is_case_ignorable U) cs of [] \<Rightarrow> False | c # _ \<Rightarrow> is_cased U c)"

fun lower_from :: "unicode \<Rightarrow> uchar list \<Rightarrow> uchar list \<Rightarrow> uchar list" where
  "lower_from U before [] = []"
| "lower_from U before (c # cs) =
     (if c = sigma then
        (if ignorable_then_cased U before \<and> \<not> ignorable_then_cased U cs then [final_sigma] else [small_sigma])
      else to_lower_char U c) @ lower_from U (c # before) cs"

definition to_lowercase :: "unicode \<Rightarrow> uchar list \<Rightarrow> uchar list" where
  "to_lowercase U cs = lower_from U [] cs"

definition trim_start_chars :: "uchar list \<Rightarrow> uchar list" where
  "trim_start_chars cs = dropWhile char_is_whitespace cs"

definition trim_end_chars :: "uchar list \<Rightarrow> uchar list" where
  "trim_end_chars cs = rev (dropWhile char_is_whitespace (rev cs))"

definition text_trim_prefix_str :: "byte list \<Rightarrow> byte list \<Rightarrow> byte list" where
  "text_trim_prefix_str p s = (if prefix p s then drop (length p) s else s)"

definition text_trim_suffix_str :: "byte list \<Rightarrow> byte list \<Rightarrow> byte list" where
  "text_trim_suffix_str p s = (if suffix p s then take (length s - length p) s else s)"

function replace_all :: "byte list \<Rightarrow> byte list \<Rightarrow> byte list \<Rightarrow> byte list" where
  "replace_all from to s =
     (case s of
        [] \<Rightarrow> []
      | b # bs \<Rightarrow>
          if from \<noteq> [] \<and> prefix from s then to @ replace_all from to (drop (length from) s)
          else b # replace_all from to bs)"
  by pat_completeness auto
termination
  by (relation "measure (\<lambda>(f, t, s). length s)") (auto simp: prefix_def)

declare replace_all.simps [simp del]

datatype pump_error = DownstreamClosed | NotUtf8 | WriteFailed | SpillFailed | EmptySearch | ReadError

datatype text_pump =
    PTrim | PTrimPrefix "byte list" | PTrimSuffix "byte list" | PToUpper | PToLower
  | PReplaceLiteral "byte list" "byte list"

definition text_replace_literal_str :: "byte list \<Rightarrow> byte list \<Rightarrow> byte list \<Rightarrow> pump_error + byte list" where
  "text_replace_literal_str from to s = (if from = [] then Err EmptySearch else Ok (replace_all from to s))"

text \<open>Application to a whole text, given by its bytes; bytes that are no text are refused, as the type \<open>str\<close> does.\<close>

definition on_chars :: "(uchar list \<Rightarrow> uchar list) \<Rightarrow> byte list \<Rightarrow> pump_error + byte list" where
  "on_chars f s = (case from_utf8 s of None \<Rightarrow> Err NotUtf8 | Some cs \<Rightarrow> Ok (concat (f cs)))"

definition text_trim_str :: "uchar list \<Rightarrow> uchar list" where
  "text_trim_str cs = trim_end_chars (trim_start_chars cs)"

definition apply_str :: "unicode \<Rightarrow> text_pump \<Rightarrow> byte list \<Rightarrow> pump_error + byte list" where
  "apply_str U pump s =
     (case pump of
        PTrim \<Rightarrow> on_chars text_trim_str s
      | PTrimPrefix p \<Rightarrow> Ok (text_trim_prefix_str p s)
      | PTrimSuffix p \<Rightarrow> Ok (text_trim_suffix_str p s)
      | PToUpper \<Rightarrow> on_chars (to_uppercase U) s
      | PToLower \<Rightarrow> on_chars (to_lowercase U) s
      | PReplaceLiteral from to \<Rightarrow> text_replace_literal_str from to s)"

section \<open>Pumps\<close>

text \<open>
  The outside of a pump: a write of bytes after those already written gives how many reach the
  pipe and an error, the spill buffer that holds bytes back may refuse more of them or fail to give them
  back.
\<close>

record pump_env =
  pe_unicode :: unicode
  pe_write :: "byte list \<Rightarrow> byte list \<Rightarrow> nat \<times> pump_error option"
  pe_hold :: "byte list \<Rightarrow> byte list \<Rightarrow> bool"
  pe_drain :: "byte list \<Rightarrow> bool"

datatype pump_state =
    CaseS bool "byte list"
  | TrimS bool "byte list" "byte list"
  | PrefixS "byte list" "byte list" bool
  | SuffixS "byte list" "byte list"
  | ReplaceS "byte list" "byte list" "byte list"

fun new_state :: "text_pump \<Rightarrow> pump_state" where
  "new_state PTrim = TrimS False [] []"
| "new_state (PTrimPrefix p) = PrefixS p [] False"
| "new_state (PTrimSuffix p) = SuffixS p []"
| "new_state PToUpper = CaseS True []"
| "new_state PToLower = CaseS False []"
| "new_state (PReplaceLiteral from to) = ReplaceS from to []"

type_synonym 'a pumping = "byte list \<Rightarrow> (pump_error + 'a) \<times> byte list"

definition pump_write :: "pump_env \<Rightarrow> byte list \<Rightarrow> unit pumping" where
  "pump_write E bs out =
     (if bs = [] then (Ok (), out)
      else (case pe_write E out bs of
          (n, None) \<Rightarrow> (Ok (), out @ bs)
        | (n, Some e) \<Rightarrow> (Err e, out @ take n bs)))"

definition map_case :: "pump_env \<Rightarrow> bool \<Rightarrow> uchar list \<Rightarrow> uchar list" where
  "map_case E up cs = (if up then to_uppercase (pe_unicode E) cs else to_lowercase (pe_unicode E) cs)"

text \<open>A state after a write that succeeded.\<close>

definition written :: "pump_env \<Rightarrow> byte list \<Rightarrow> pump_state \<Rightarrow> pump_state pumping" where
  "written E bs st out = (case pump_write E bs out of (Inl e, out') \<Rightarrow> (Err e, out') | (Inr _, out') \<Rightarrow> (Ok st, out'))"

definition push_case :: "pump_env \<Rightarrow> bool \<Rightarrow> byte list \<Rightarrow> byte list \<Rightarrow> pump_state pumping" where
  "push_case E up carry data out =
     (case head_tail (carry @ data) of (h, t) \<Rightarrow>
        case from_utf8 h of
          None \<Rightarrow> (Err NotUtf8, out)
        | Some cs \<Rightarrow> written E (concat (map_case E up cs)) (CaseS up t) out)"

definition hold_back :: "pump_env \<Rightarrow> byte list \<Rightarrow> byte list \<Rightarrow> byte list \<Rightarrow> pump_state pumping" where
  "hold_back E held ws tail out =
     (if pe_hold E held ws then (Ok (TrimS True tail (held @ ws)), out) else (Err SpillFailed, out))"

definition push_trimmed :: "pump_env \<Rightarrow> byte list \<Rightarrow> uchar list \<Rightarrow> byte list \<Rightarrow> pump_state pumping" where
  "push_trimmed E held cs tail out =
     (let body = trim_end_chars cs; ws = concat (drop (length body) cs) in
      if body = [] then hold_back E held ws tail out
      else if \<not> pe_drain E held then (Err SpillFailed, out)
      else (case pump_write E held out of
          (Inl e, out1) \<Rightarrow> (Err e, out1)
        | (Inr _, out1) \<Rightarrow>
            (case pump_write E (concat body) out1 of
               (Inl e, out2) \<Rightarrow> (Err e, out2)
             | (Inr _, out2) \<Rightarrow> hold_back E [] ws tail out2)))"

definition push_trim :: "pump_env \<Rightarrow> bool \<Rightarrow> byte list \<Rightarrow> byte list \<Rightarrow> byte list \<Rightarrow> pump_state pumping" where
  "push_trim E leading carry held data out =
     (case head_tail (carry @ data) of (h, t) \<Rightarrow>
        case from_utf8 h of
          None \<Rightarrow> (Err NotUtf8, out)
        | Some cs \<Rightarrow>
            if leading then push_trimmed E held cs t out
            else (let cs' = trim_start_chars cs in
              if cs' = [] then (Ok (TrimS False t held), out) else push_trimmed E held cs' t out))"

definition push_prefix :: "pump_env \<Rightarrow> byte list \<Rightarrow> byte list \<Rightarrow> bool \<Rightarrow> byte list \<Rightarrow> pump_state pumping" where
  "push_prefix E p buf decided data out =
     (if decided then written E data (PrefixS p buf True) out
      else let buf' = buf @ data in
        if length buf' < length p then (Ok (PrefixS p buf' False), out)
        else written E (text_trim_prefix_str p buf') (PrefixS p [] True) out)"

definition push_suffix :: "pump_env \<Rightarrow> byte list \<Rightarrow> byte list \<Rightarrow> byte list \<Rightarrow> pump_state pumping" where
  "push_suffix E p window data out =
     (if p = [] then written E data (SuffixS p window) out
      else let w = window @ data in
        if length w > length p then
          (let emit = length w - length p in written E (take emit w) (SuffixS p (drop emit w)) out)
        else (Ok (SuffixS p w), out))"

function replace_scan :: "byte list \<Rightarrow> byte list \<Rightarrow> nat \<Rightarrow> byte list \<Rightarrow> byte list \<times> byte list" where
  "replace_scan from to limit buf =
     (case buf of
        [] \<Rightarrow> ([], buf)
      | b # bs \<Rightarrow>
          if limit = 0 then ([], buf)
          else if from \<noteq> [] \<and> prefix from buf then
            (case replace_scan from to (limit - length from) (drop (length from) buf) of (out, r) \<Rightarrow> (to @ out, r))
          else (case replace_scan from to (limit - 1) bs of (out, r) \<Rightarrow> (b # out, r)))"
  by pat_completeness auto
termination
  by (relation "measure (\<lambda>(f, t, l, s). length s)") (auto simp: prefix_def)

declare replace_scan.simps [simp del]

definition push_replace :: "pump_env \<Rightarrow> byte list \<Rightarrow> byte list \<Rightarrow> byte list \<Rightarrow> byte list \<Rightarrow> pump_state pumping" where
  "push_replace E from to buf data out =
     (let buf' = buf @ data; retain = min (length from - 1) (length buf') in
      case replace_scan from to (length buf' - retain) buf' of (w, r) \<Rightarrow> written E w (ReplaceS from to r) out)"

fun push :: "pump_env \<Rightarrow> pump_state \<Rightarrow> byte list \<Rightarrow> pump_state pumping" where
  "push E (CaseS up carry) data = push_case E up carry data"
| "push E (TrimS leading carry held) data = push_trim E leading carry held data"
| "push E (PrefixS p buf decided) data = push_prefix E p buf decided data"
| "push E (SuffixS p window) data = push_suffix E p window data"
| "push E (ReplaceS from to buf) data = push_replace E from to buf data"

fun flush :: "pump_env \<Rightarrow> pump_state \<Rightarrow> unit pumping" where
  "flush E (CaseS up carry) out =
     (case from_utf8 carry of None \<Rightarrow> (Err NotUtf8, out) | Some cs \<Rightarrow> pump_write E (concat (map_case E up cs)) out)"
| "flush E (TrimS leading carry held) out =
     (if \<not> leading then (Ok (), out)
      else (case from_utf8 carry of None \<Rightarrow> (Err NotUtf8, out) | Some cs \<Rightarrow> pump_write E (concat (trim_end_chars cs)) out))"
| "flush E (PrefixS p buf decided) out = (if decided then (Ok (), out) else pump_write E buf out)"
| "flush E (SuffixS p window) out = (if p \<noteq> [] \<and> window = p then (Ok (), out) else pump_write E window out)"
| "flush E (ReplaceS from to buf) out = pump_write E (fst (replace_scan from to (length buf) buf)) out"

text \<open>The loop of the pump thread: a turn sees the cancellation flag, a failed read, or the bytes of one read,
  none at the end of the input.\<close>

datatype turn = SeenCancelled | ReadFailed | Chunk "byte list"

datatype pump_end = Stopped | Finished | Failed pump_error | Waiting pump_state

fun run_text_pump :: "pump_env \<Rightarrow> pump_state \<Rightarrow> turn list \<Rightarrow> byte list \<Rightarrow> pump_end \<times> byte list" where
  "run_text_pump E st [] out = (Waiting st, out)"
| "run_text_pump E st (SeenCancelled # ts) out = (Stopped, out)"
| "run_text_pump E st (ReadFailed # ts) out = (Failed ReadError, out)"
| "run_text_pump E st (Chunk bs # ts) out =
     (if bs = [] then
        (case flush E st out of (Inl e, out') \<Rightarrow> (Failed e, out') | (Inr _, out') \<Rightarrow> (Finished, out'))
      else
        (case push E st bs out of
           (Inl e, out') \<Rightarrow> (Failed e, out')
         | (Inr st', out') \<Rightarrow> run_text_pump E st' ts out'))"

text \<open>The shared cancellation flag is raised by every failure but a closed reader.\<close>

fun trips_cancel :: "pump_end \<Rightarrow> bool" where
  "trips_cancel (Failed e) \<longleftrightarrow> e \<noteq> DownstreamClosed"
| "trips_cancel _ \<longleftrightarrow> False"

section \<open>Pumps and the transforms they stand for\<close>

text \<open>An environment in which nothing fails.\<close>

definition calm :: "pump_env \<Rightarrow> bool" where
  "calm E \<longleftrightarrow> (\<forall>out bs. snd (pe_write E out bs) = None) \<and> (\<forall>h bs. pe_hold E h bs) \<and> (\<forall>h. pe_drain E h)"

lemma pump_write_prefix: "pump_write E bs out = (r, out') \<Longrightarrow> \<exists>w. out' = out @ w \<and> prefix w bs \<and> (is_ok r \<longrightarrow> w = bs)"
  by (auto simp: pump_write_def take_is_prefix split: if_splits prod.splits option.splits)

lemma written_prefix:
  "written E bs st out = (r, out') \<Longrightarrow> \<exists>w. out' = out @ w \<and> prefix w bs \<and> (\<forall>st'. r = Ok st' \<longrightarrow> w = bs \<and> st' = st)"
  using pump_write_prefix [of E bs out] by (fastforce simp: written_def split: prod.splits sum.splits)

lemma calm_write: "calm E \<Longrightarrow> pump_write E bs out = (Ok (), out @ bs)"
  by (auto simp: calm_def pump_write_def split: prod.splits option.splits) (metis option.distinct(1) snd_conv)

lemma calm_written: "calm E \<Longrightarrow> written E bs st out = (Ok st, out @ bs)"
  by (simp add: written_def calm_write)

text \<open>
  A kind of pump: \<open>den st fut\<close> is what the pump still has to write when the rest of its input is \<open>fut\<close>,
  nothing when that is no text.
\<close>

locale pump_kind =
  fixes E :: pump_env and good :: "pump_state \<Rightarrow> bool" and den :: "pump_state \<Rightarrow> byte list \<Rightarrow> byte list option"
  assumes push_ok: "good st \<Longrightarrow> push E st data out = (Ok st', out') \<Longrightarrow>
      good st' \<and> (\<exists>w. out' = out @ w \<and> (\<forall>fut. den st (data @ fut) = map_option ((@) w) (den st' fut)))"
    and push_err: "good st \<Longrightarrow> push E st data out = (Err e, out') \<Longrightarrow>
      \<exists>w. out' = out @ w \<and> (\<forall>fut v. den st (data @ fut) = Some v \<longrightarrow> prefix w v)"
    and push_calm: "good st \<Longrightarrow> calm E \<Longrightarrow> den st (data @ fut) = Some v \<Longrightarrow> is_ok (fst (push E st data out))"
    and flush_end: "good st \<Longrightarrow> den st [] = Some v \<Longrightarrow> flush E st out = (r, out') \<Longrightarrow>
      \<exists>w. out' = out @ w \<and> prefix w v \<and> (is_ok r \<longrightarrow> w = v) \<and> (calm E \<longrightarrow> is_ok r)"
begin

lemma run_calm:
  assumes "good st" and "calm E" and "\<forall>c \<in> set cs. c \<noteq> []" and "den st (concat cs) = Some v"
  shows "run_text_pump E st (map Chunk cs @ [Chunk []]) out = (Finished, out @ v)"
  using assms
proof (induction cs arbitrary: st out v)
  case Nil
  obtain r out' where f: "flush E st out = (r, out')"
    by fastforce
  then have "out' = out @ v \<and> is_ok r"
    using flush_end [OF Nil(1) _ f, of v] Nil by auto
  then show ?case
    using f by (cases r) auto
next
  case (Cons c cs)
  obtain r out1 where p: "push E st c out = (r, out1)"
    by fastforce
  then obtain st1 where r: "r = Ok st1"
    using push_calm [OF Cons.prems(1,2), of c "concat cs" v out] Cons.prems(4) by (auto simp: is_ok_iff)
  obtain w where w: "good st1" "out1 = out @ w" "den st (c @ concat cs) = map_option ((@) w) (den st1 (concat cs))"
    using push_ok [OF Cons.prems(1) p [unfolded r]] by blast
  then obtain v1 where "den st1 (concat cs) = Some v1" "v = w @ v1"
    using Cons.prems(4) by (cases "den st1 (concat cs)") auto
  then show ?case
    using Cons.IH [OF w(1) Cons.prems(2), of v1 out1] Cons.prems(3) p r w(2) by simp
qed

end

text \<open>The bytes of a run up to its end, and whether the end of the input was seen.\<close>

fun stream_text :: "turn list \<Rightarrow> byte list" where
  "stream_text (Chunk bs # ts) = (if bs = [] then [] else bs @ stream_text ts)"
| "stream_text _ = []"

fun sees_end :: "turn list \<Rightarrow> bool" where
  "sees_end (Chunk bs # ts) = (bs = [] \<or> sees_end ts)"
| "sees_end _ = False"

context pump_kind
begin

lemma run_prefix:
  assumes "good st" and "run_text_pump E st ts out = (e, out')"
    and "den st (stream_text ts @ fut) = Some v" and "sees_end ts \<longrightarrow> fut = []"
  shows "\<exists>w. out' = out @ w \<and> prefix w v \<and> (e = Finished \<longrightarrow> w = v \<and> sees_end ts)"
  using assms
proof (induction ts arbitrary: st out v)
  case (Cons t ts)
  show ?case
  proof (cases t)
    case (Chunk bs)
    show ?thesis
    proof (cases "bs = []")
      case True
      obtain r out1 where f: "flush E st out = (r, out1)"
        by fastforce
      have "den st [] = Some v"
        using Cons.prems(3,4) Chunk True by simp
      then obtain w where "out1 = out @ w" "prefix w v" "is_ok r \<longrightarrow> w = v"
        using flush_end [OF Cons.prems(1) _ f] by blast
      then show ?thesis
        using Cons.prems(2) Chunk True f by (cases r) auto
    next
      case False
      obtain r out1 where p: "push E st bs out = (r, out1)"
        by fastforce
      have den: "den st (bs @ stream_text ts @ fut) = Some v"
        using Cons.prems(3) Chunk False by simp
      show ?thesis
      proof (cases r)
        case (Inl err)
        then show ?thesis
          using push_err [OF Cons.prems(1), of bs out err out1] p den Cons.prems(2) Chunk False by auto
      next
        case (Inr st1)
        then obtain w where w: "good st1" "out1 = out @ w"
          and den1: "den st (bs @ stream_text ts @ fut) = map_option ((@) w) (den st1 (stream_text ts @ fut))"
          using push_ok [OF Cons.prems(1), of bs out st1 out1] p by blast
        then obtain v1 where v1: "den st1 (stream_text ts @ fut) = Some v1" "v = w @ v1"
          using den by (cases "den st1 (stream_text ts @ fut)") auto
        have "run_text_pump E st1 ts out1 = (e, out')" and "sees_end ts \<longrightarrow> fut = []"
          using Cons.prems(2,4) Chunk False p Inr by simp_all
        then obtain w1 where "out' = out1 @ w1" "prefix w1 v1" "e = Finished \<longrightarrow> w1 = v1 \<and> sees_end ts"
          using Cons.IH [OF w(1) _ v1(1), of out1] by blast
        then show ?thesis
          using w(2) v1(2) Chunk by (intro exI [of _ "w @ w1"]) auto
      qed
    qed
  qed (use Cons.prems in auto)
qed auto

end

section \<open>The five kinds\<close>

text \<open>Most pumps write once per chunk.\<close>

lemma written_Nil: "written E [] st out = (Ok st, out)"
  by (simp add: written_def pump_write_def)

locale writing_kind =
  fixes E :: pump_env and good :: "pump_state \<Rightarrow> bool" and den :: "pump_state \<Rightarrow> byte list \<Rightarrow> byte list option"
  assumes step: "good st \<Longrightarrow>
      (\<exists>w st'. push E st data = written E w st' \<and> good st' \<and>
         (\<forall>fut. den st (data @ fut) = map_option ((@) w) (den st' fut))) \<or>
      push E st data = (\<lambda>out. (Err NotUtf8, out)) \<and> (\<forall>fut. den st (data @ fut) = None)"
    and finish: "good st \<Longrightarrow> den st [] = Some v \<Longrightarrow> flush E st out = pump_write E v out"

sublocale writing_kind \<subseteq> pump_kind
proof
  fix st data out st' out'
  assume "good st" and "push E st data out = (Ok st', out')"
  then show "good st' \<and> (\<exists>w. out' = out @ w \<and> (\<forall>fut. den st (data @ fut) = map_option ((@) w) (den st' fut)))"
    using step [of st data] written_prefix [of E _ _ out] by fastforce
next
  fix st data out e out'
  assume "good st" and push: "push E st data out = (Err e, out')"
  then consider w st1 where "written E w st1 out = (Err e, out')" "\<forall>fut. den st (data @ fut) = map_option ((@) w) (den st1 fut)"
    | "out' = out" "\<forall>fut. den st (data @ fut) = None"
    using step [of st data] by fastforce
  then show "\<exists>w. out' = out @ w \<and> (\<forall>fut v. den st (data @ fut) = Some v \<longrightarrow> prefix w v)"
  proof cases
    case (1 w st1)
    obtain u where "out' = out @ u" "prefix u w"
      using written_prefix [OF 1(1)] by blast
    then show ?thesis
      using 1(2) by (auto intro: prefix_prefix)
  qed simp
next
  fix st data fut v out
  assume "good st" and "calm E" and "den st (data @ fut) = Some v"
  then show "is_ok (fst (push E st data out))"
    using step [of st data] by (auto simp: calm_written)
next
  fix st v out r out'
  assume "good st" and "den st [] = Some v" and "flush E st out = (r, out')"
  then show "\<exists>w. out' = out @ w \<and> prefix w v \<and> (is_ok r \<longrightarrow> w = v) \<and> (calm E \<longrightarrow> is_ok r)"
    using finish [of st v out] pump_write_prefix [of E v out r out'] calm_write [of E v out] by auto
qed

subsection \<open>Case mapping\<close>

definition upper_good :: "pump_state \<Rightarrow> bool" where
  "upper_good st = (case st of CaseS up carry \<Rightarrow> up | _ \<Rightarrow> False)"

definition upper_den :: "pump_env \<Rightarrow> pump_state \<Rightarrow> byte list \<Rightarrow> byte list option" where
  "upper_den E st fut =
     (case st of
        CaseS up carry \<Rightarrow> map_option (concat \<circ> to_uppercase (pe_unicode E)) (from_utf8 (carry @ fut))
      | _ \<Rightarrow> None)"

lemma to_uppercase_append: "to_uppercase U (a @ b) = to_uppercase U a @ to_uppercase U b"
  by (simp add: to_uppercase_def)

lemma decode_staged:
  assumes "head_tail (carry @ data) = (h, t)" and "from_utf8 h = Some cs"
  shows "from_utf8 (carry @ data @ fut) = map_option ((@) cs) (from_utf8 (t @ fut))"
  using from_utf8_append [OF assms(2), of "t @ fut"] head_tail_append [OF assms(1)] by (metis append.assoc)

lemma decode_fails:
  assumes "head_tail (carry @ data) = (h, t)" and "from_utf8 h = None"
  shows "from_utf8 (carry @ data @ fut) = None"
  using head_valid [of "carry @ data" fut] assms by (cases "from_utf8 (carry @ data @ fut)") auto

interpretation up: writing_kind E upper_good "upper_den E" for E
proof
  fix st data
  assume "upper_good st"
  then obtain carry where st: "st = CaseS True carry"
    by (auto simp: upper_good_def split: pump_state.splits)
  obtain h t where ht: "head_tail (carry @ data) = (h, t)"
    by fastforce
  show "(\<exists>w st'. push E st data = written E w st' \<and> upper_good st' \<and>
         (\<forall>fut. upper_den E st (data @ fut) = map_option ((@) w) (upper_den E st' fut))) \<or>
      push E st data = (\<lambda>out. (Err NotUtf8, out)) \<and> (\<forall>fut. upper_den E st (data @ fut) = None)"
  proof (cases "from_utf8 h")
    case None
    then show ?thesis
      using st ht decode_fails [OF ht] by (auto simp: push_case_def upper_den_def fun_eq_iff)
  next
    case (Some cs)
    have "push E st data = written E (concat (to_uppercase (pe_unicode E) cs)) (CaseS True t)"
      using st ht Some by (simp add: push_case_def fun_eq_iff map_case_def)
    then show ?thesis
      using st decode_staged [OF ht Some]
      by (intro disjI1 exI [of _ "concat (to_uppercase (pe_unicode E) cs)"] exI [of _ "CaseS True t"])
        (simp add: upper_good_def upper_den_def option.map_comp comp_def to_uppercase_append)
  qed
qed (auto simp: upper_good_def upper_den_def map_case_def split: pump_state.splits)

subsection \<open>Prefixes and suffixes\<close>

definition prefix_good :: "pump_state \<Rightarrow> bool" where
  "prefix_good st = (case st of PrefixS p buf decided \<Rightarrow> if decided then buf = [] else length buf < length p \<or> buf = [] | _ \<Rightarrow> False)"

definition prefix_den :: "pump_state \<Rightarrow> byte list \<Rightarrow> byte list option" where
  "prefix_den st fut =
     (case st of
        PrefixS p buf decided \<Rightarrow> Some (if decided then fut else text_trim_prefix_str p (buf @ fut))
      | _ \<Rightarrow> None)"

lemma trim_prefix_append: "length p \<le> length a \<Longrightarrow> text_trim_prefix_str p (a @ b) = text_trim_prefix_str p a @ b"
  using prefix_append [of p a b] prefix_length_le [of p a]
  by (auto simp: text_trim_prefix_str_def)

interpretation pre: writing_kind E prefix_good prefix_den for E
proof
  fix st data
  assume "prefix_good st"
  then obtain p buf d where st: "st = PrefixS p buf d" and good: "if d then buf = [] else length buf < length p \<or> buf = []"
    by (auto simp: prefix_good_def split: pump_state.splits)
  consider "d" | "\<not> d" "length (buf @ data) < length p" | "\<not> d" "length p \<le> length (buf @ data)"
    by linarith
  then show "(\<exists>w st'. push E st data = written E w st' \<and> prefix_good st' \<and>
         (\<forall>fut. prefix_den st (data @ fut) = map_option ((@) w) (prefix_den st' fut))) \<or>
      push E st data = (\<lambda>out. (Err NotUtf8, out)) \<and> (\<forall>fut. prefix_den st (data @ fut) = None)"
  proof cases
    case 1
    then show ?thesis
      using st good by (intro disjI1 exI [of _ data] exI [of _ st]) (simp add: push_prefix_def fun_eq_iff prefix_den_def prefix_good_def)
  next
    case 2
    then show ?thesis
      using st by (intro disjI1 exI [of _ "[]"] exI [of _ "PrefixS p (buf @ data) False"])
        (simp add: push_prefix_def fun_eq_iff prefix_den_def prefix_good_def written_Nil)
  next
    case 3
    then show ?thesis
      using st trim_prefix_append [of p "buf @ data"]
      by (intro disjI1 exI [of _ "text_trim_prefix_str p (buf @ data)"] exI [of _ "PrefixS p [] True"])
        (simp add: push_prefix_def fun_eq_iff prefix_den_def prefix_good_def)
  qed
qed (auto simp: prefix_good_def prefix_den_def text_trim_prefix_str_def prefix_def pump_write_def split: pump_state.splits if_splits)

definition suffix_good :: "pump_state \<Rightarrow> bool" where
  "suffix_good st = (case st of SuffixS p window \<Rightarrow> length window \<le> length p | _ \<Rightarrow> False)"

definition suffix_den :: "pump_state \<Rightarrow> byte list \<Rightarrow> byte list option" where
  "suffix_den st fut = (case st of SuffixS p window \<Rightarrow> Some (text_trim_suffix_str p (window @ fut)) | _ \<Rightarrow> None)"

lemma suffix_of_append: "length p \<le> length b \<Longrightarrow> suffix p (a @ b) \<longleftrightarrow> suffix p b"
  by (metis suffix_appendI suffix_length_suffix suffixI)

lemma trim_suffix_append: "length p \<le> length b \<Longrightarrow> text_trim_suffix_str p (a @ b) = a @ text_trim_suffix_str p b"
  by (simp add: text_trim_suffix_str_def suffix_of_append)

lemma trim_suffix_short:
  assumes "length w \<le> length p"
  shows "text_trim_suffix_str p w = (if w = p then [] else w)"
proof -
  have "suffix p w \<longleftrightarrow> w = p"
    using assms by (metis suffix_length_le suffix_order.order_refl le_antisym suffix_order.order_antisym suffix_length_suffix)
  then show ?thesis
    by (simp add: text_trim_suffix_str_def)
qed

interpretation suf: writing_kind E suffix_good suffix_den for E
proof
  fix st data
  assume "suffix_good st"
  then obtain p w where st: "st = SuffixS p w" and good: "length w \<le> length p"
    by (auto simp: suffix_good_def split: pump_state.splits)
  consider "p = []" | "p \<noteq> []" "length (w @ data) \<le> length p" | "p \<noteq> []" "length p < length (w @ data)"
    by linarith
  then show "(\<exists>w st'. push E st data = written E w st' \<and> suffix_good st' \<and>
         (\<forall>fut. suffix_den st (data @ fut) = map_option ((@) w) (suffix_den st' fut))) \<or>
      push E st data = (\<lambda>out. (Err NotUtf8, out)) \<and> (\<forall>fut. suffix_den st (data @ fut) = None)"
  proof cases
    case 1
    then show ?thesis
      using st good
      by (intro disjI1 exI [of _ data] exI [of _ st])
        (simp add: push_suffix_def fun_eq_iff suffix_den_def suffix_good_def text_trim_suffix_str_def)
  next
    case 2
    then show ?thesis
      using st by (intro disjI1 exI [of _ "[]"] exI [of _ "SuffixS p (w @ data)"])
        (simp add: push_suffix_def fun_eq_iff suffix_den_def suffix_good_def written_Nil)
  next
    case 3
    define emit where "emit = length (w @ data) - length p"
    define a where "a = take emit (w @ data)"
    define b where "b = drop emit (w @ data)"
    have push: "push E st data = written E a (SuffixS p b)"
      using 3 st by (simp add: push_suffix_def fun_eq_iff emit_def Let_def a_def b_def)
    have len: "length b = length p"
      using 3 by (simp add: emit_def b_def)
    have "w @ data = a @ b"
      by (simp only: a_def b_def append_take_drop_id)
    then have "w @ data @ fut = a @ b @ fut" for fut
      by (metis append.assoc)
    then have "text_trim_suffix_str p (w @ data @ fut) = a @ text_trim_suffix_str p (b @ fut)" for fut
      using trim_suffix_append [of p "b @ fut" a] len by (metis le_add1 length_append)
    then show ?thesis
      using st push len by (intro disjI1 exI [of _ a] exI [of _ "SuffixS p b"]) (simp add: suffix_den_def suffix_good_def)
  qed
next
  fix st v out
  assume "suffix_good st" and den: "suffix_den st [] = Some v"
  then obtain p w where st: "st = SuffixS p w" and good: "length w \<le> length p"
    by (auto simp: suffix_good_def split: pump_state.splits)
  have "v = (if w = p then [] else w)"
    using den st trim_suffix_short [OF good] by (simp add: suffix_den_def)
  then show "flush E st out = pump_write E v out"
    using st by (auto simp: pump_write_def)
qed

subsection \<open>Replacement\<close>

definition replace_good :: "pump_state \<Rightarrow> bool" where
  "replace_good st = (case st of ReplaceS from to buf \<Rightarrow> from \<noteq> [] | _ \<Rightarrow> False)"

definition replace_den :: "pump_state \<Rightarrow> byte list \<Rightarrow> byte list option" where
  "replace_den st fut = (case st of ReplaceS from to buf \<Rightarrow> Some (replace_all from to (buf @ fut)) | _ \<Rightarrow> None)"

lemma replace_all_Nil [simp]: "replace_all from to [] = []"
  by (simp add: replace_all.simps)

lemma prefix_of_append: "length p \<le> length a \<Longrightarrow> prefix p (a @ b) \<longleftrightarrow> prefix p a"
  by (metis prefix_length_prefix prefixI prefix_prefix)

lemma replace_scan_continues:
  assumes "from \<noteq> []" and "limit = 0 \<or> limit + (length from - 1) \<le> length buf" and "replace_scan from to limit buf = (w, r)"
  shows "replace_all from to (buf @ fut) = w @ replace_all from to (r @ fut)"
  using assms
proof (induction "from" "to" limit buf arbitrary: w r rule: replace_scan.induct)
  case (1 "from" "to" limit buf)
  show ?case
  proof (cases "buf = [] \<or> limit = 0")
    case True
    then show ?thesis
      using 1(5) unfolding replace_scan.simps [of "from" "to" limit buf] by (auto split: list.splits)
  next
    case False
    then obtain b bs where buf: "buf = b # bs"
      by (cases buf) auto
    have bound: "limit + (length from - 1) \<le> length buf"
      using 1(4) False by simp
    then have pre: "prefix from (buf @ fut) \<longleftrightarrow> prefix from buf"
      using False by (intro prefix_of_append) (cases "length from"; simp)
    show ?thesis
    proof (cases "prefix from buf")
      case True
      obtain w' where w': "replace_scan from to (limit - length from) (drop (length from) buf) = (w', r)" "w = to @ w'"
        using 1(5) True False 1(3) unfolding replace_scan.simps [of "from" "to" limit buf]
        by (auto simp: buf split: prod.splits)
      have "limit - length from = 0 \<or> limit - length from + (length from - 1) \<le> length (drop (length from) buf)"
        using bound 1(3) by (cases "limit \<le> length from"; cases "length from") auto
      then have "replace_all from to (drop (length from) buf @ fut) = w' @ replace_all from to (r @ fut)"
        using 1(1) [OF buf _ _ 1(3) _ w'(1)] True False 1(3) by auto
      moreover have "replace_all from to (buf @ fut) = to @ replace_all from to (drop (length from) (buf @ fut))"
        using True pre 1(3) unfolding replace_all.simps [of "from" "to" "buf @ fut"] by (simp add: buf)
      moreover have "drop (length from) (buf @ fut) = drop (length from) buf @ fut"
        using True by (auto simp: prefix_def)
      ultimately show ?thesis
        using w'(2) by simp
    next
      case False': False
      obtain w' where w': "replace_scan from to (limit - 1) bs = (w', r)" "w = b # w'"
        using 1(5) False' False unfolding replace_scan.simps [of "from" "to" limit buf]
        by (auto simp: buf split: prod.splits)
      have "limit - 1 = 0 \<or> limit - 1 + (length from - 1) \<le> length bs"
        using bound buf False by (cases limit) auto
      then have "replace_all from to (bs @ fut) = w' @ replace_all from to (r @ fut)"
        using 1(2) [OF buf _ _ 1(3) _ w'(1)] False' False by auto
      moreover have "replace_all from to (buf @ fut) = b # replace_all from to (bs @ fut)"
        using False' pre unfolding replace_all.simps [of "from" "to" "buf @ fut"] by (simp add: buf)
      ultimately show ?thesis
        using w'(2) by simp
    qed
  qed
qed

lemma replace_scan_whole:
  assumes "from \<noteq> []" and "length buf \<le> limit"
  shows "replace_scan from to limit buf = (replace_all from to buf, [])"
  using assms
proof (induction "from" "to" limit buf rule: replace_scan.induct)
  case (1 "from" "to" limit buf)
  show ?case
  proof (cases buf)
    case Nil
    then show ?thesis
      unfolding replace_scan.simps [of "from" "to" limit buf] by simp
  next
    case (Cons b bs)
    then have l: "limit \<noteq> 0"
      using 1(4) by auto
    show ?thesis
    proof (cases "prefix from buf")
      case True
      then have "replace_scan from to (limit - length from) (drop (length from) buf) =
          (replace_all from to (drop (length from) buf), [])"
        using 1(1) [OF Cons l _ 1(3)] 1(3,4) by auto
      then show ?thesis
        using True Cons l 1(3) unfolding replace_scan.simps [of "from" "to" limit buf] replace_all.simps [of "from" "to" buf] by simp
    next
      case False
      then have "replace_scan from to (limit - 1) bs = (replace_all from to bs, [])"
        using 1(2) [OF Cons l _ 1(3)] 1(4) Cons by auto
      then show ?thesis
        using False Cons l unfolding replace_scan.simps [of "from" "to" limit buf] replace_all.simps [of "from" "to" buf] by simp
    qed
  qed
qed

interpretation rep: writing_kind E replace_good replace_den for E
proof
  fix st data
  assume "replace_good st"
  then obtain "from" "to" buf where st: "st = ReplaceS from to buf" and ne: "from \<noteq> []"
    by (auto simp: replace_good_def split: pump_state.splits)
  define limit where "limit = length (buf @ data) - min (length from - 1) (length (buf @ data))"
  obtain w r where scan: "replace_scan from to limit (buf @ data) = (w, r)"
    by fastforce
  have "push E st data = written E w (ReplaceS from to r)"
    using st scan by (simp add: push_replace_def Let_def fun_eq_iff limit_def)
  moreover have "limit = 0 \<or> limit + (length from - 1) \<le> length (buf @ data)"
    by (auto simp: limit_def min_def)
  from replace_scan_continues [OF ne this scan]
  have "replace_all from to (buf @ data @ fut) = w @ replace_all from to (r @ fut)" for fut
    by simp
  ultimately show "(\<exists>w st'. push E st data = written E w st' \<and> replace_good st' \<and>
         (\<forall>fut. replace_den st (data @ fut) = map_option ((@) w) (replace_den st' fut))) \<or>
      push E st data = (\<lambda>out. (Err NotUtf8, out)) \<and> (\<forall>fut. replace_den st (data @ fut) = None)"
    using st ne by (intro disjI1 exI [of _ w] exI [of _ "ReplaceS from to r"]) (simp add: replace_good_def replace_den_def)
next
  fix st v out
  assume "replace_good st" and "replace_den st [] = Some v"
  then show "flush E st out = pump_write E v out"
    by (auto simp: replace_good_def replace_den_def replace_scan_whole split: pump_state.splits)
qed

subsection \<open>Trimming\<close>

definition trim_good :: "pump_state \<Rightarrow> bool" where
  "trim_good st =
     (case st of
        TrimS leading carry held \<Rightarrow> (leading \<or> held = []) \<and> (carry = [] \<or> from_utf8 carry = None)
      | _ \<Rightarrow> False)"

text \<open>What is left to write: nothing while only white space follows, else the held bytes first.\<close>

definition after_held :: "byte list \<Rightarrow> uchar list \<Rightarrow> byte list" where
  "after_held held cs = (let body = trim_end_chars cs in if body = [] then [] else held @ concat body)"

definition trim_den :: "pump_state \<Rightarrow> byte list \<Rightarrow> byte list option" where
  "trim_den st fut =
     (case st of
        TrimS leading carry held \<Rightarrow>
          map_option (\<lambda>cs. if leading then after_held held cs else concat (text_trim_str cs)) (from_utf8 (carry @ fut))
      | _ \<Rightarrow> None)"

lemma trim_end_append: "trim_end_chars (a @ b) = (if trim_end_chars b = [] then trim_end_chars a else a @ trim_end_chars b)"
  by (auto simp: trim_end_chars_def dropWhile_append)

lemma trim_end_split: "\<exists>ws. cs = trim_end_chars cs @ ws \<and> trim_end_chars ws = []"
proof -
  have "rev cs = takeWhile char_is_whitespace (rev cs) @ dropWhile char_is_whitespace (rev cs)"
    by simp
  then have "cs = trim_end_chars cs @ rev (takeWhile char_is_whitespace (rev cs))"
    by (metis rev_append rev_rev_ident trim_end_chars_def)
  moreover have "trim_end_chars (rev (takeWhile char_is_whitespace (rev cs))) = []"
    by (simp add: trim_end_chars_def) (meson set_takeWhileD)
  ultimately show ?thesis
    by blast
qed

lemma after_held_append:
  assumes "cs = body @ ws" and "trim_end_chars ws = []" and "trim_end_chars cs = body"
  shows "after_held held (cs @ ds) =
    (if body = [] then after_held (held @ concat ws) ds else held @ concat body @ after_held (concat ws) ds)"
  using assms trim_end_append [of ws ds] trim_end_append [of cs ds] by (auto simp: after_held_def Let_def)

text \<open>The part of a chunk that is left after leading white space.\<close>

lemma push_trimmed_ok:
  assumes "push_trimmed E held cs t out = (Ok st', out')"
  shows "\<exists>w h. st' = TrimS True t h \<and> out' = out @ w \<and> (\<forall>ds. after_held held (cs @ ds) = w @ after_held h ds)"
proof -
  obtain ws where ws: "cs = trim_end_chars cs @ ws" "trim_end_chars ws = []"
    using trim_end_split by blast
  then have drop: "drop (length (trim_end_chars cs)) cs = ws"
    by (metis append_eq_conv_conj)
  note parts = after_held_append [OF ws refl, of held]
  show ?thesis
  proof (cases "trim_end_chars cs = []")
    case True
    then show ?thesis
      using assms parts drop by (auto simp: push_trimmed_def hold_back_def Let_def split: if_splits)
  next
    case False
    then obtain out1 out2 where "pump_write E held out = (Ok (), out1)" "pump_write E (concat (trim_end_chars cs)) out1 = (Ok (), out2)"
      and "st' = TrimS True t (concat ws)" "out' = out2"
      using assms drop by (auto simp: push_trimmed_def hold_back_def Let_def split: if_splits prod.splits sum.splits)
    then show ?thesis
      using parts False pump_write_prefix [of E held out "Ok ()" out1] pump_write_prefix [of E "concat (trim_end_chars cs)" out1 "Ok ()" out2]
      by auto
  qed
qed

lemma push_trimmed_err:
  assumes "push_trimmed E held cs t out = (Err e, out')"
  shows "\<exists>w. out' = out @ w \<and> (\<forall>ds. prefix w (after_held held (cs @ ds)))"
proof -
  obtain ws where ws: "cs = trim_end_chars cs @ ws" "trim_end_chars ws = []"
    using trim_end_split by blast
  note parts = after_held_append [OF ws refl, of held]
  consider "out' = out"
    | "trim_end_chars cs \<noteq> []" "pump_write E held out = (Err e, out')"
    | out1 r where "trim_end_chars cs \<noteq> []" "pump_write E held out = (Ok (), out1)"
        "pump_write E (concat (trim_end_chars cs)) out1 = (r, out')"
    using assms by (auto simp: push_trimmed_def hold_back_def Let_def split: if_splits prod.splits sum.splits)
  then show ?thesis
  proof cases
    case 2
    then show ?thesis
      using parts pump_write_prefix [of E held out "Err e" out'] by (auto intro: prefix_prefix)
  next
    case (3 out1 r)
    then show ?thesis
      using parts pump_write_prefix [of E held out "Ok ()" out1] pump_write_prefix [of E "concat (trim_end_chars cs)" out1 r out']
      by (auto intro: prefix_prefix)
  qed simp
qed

lemma push_trimmed_calm: "calm E \<Longrightarrow> is_ok (fst (push_trimmed E held cs t out))"
  by (simp add: push_trimmed_def Let_def hold_back_def calm_write) (simp add: calm_def)

lemma trim_start_append: "trim_start_chars cs \<noteq> [] \<Longrightarrow> trim_start_chars (cs @ ds) = trim_start_chars cs @ ds"
  by (auto simp: trim_start_chars_def dropWhile_append)

lemma trim_start_blank: "trim_start_chars cs = [] \<Longrightarrow> trim_start_chars (cs @ ds) = trim_start_chars ds"
  by (auto simp: trim_start_chars_def dropWhile_append)

lemma after_no_held: "after_held [] cs = concat (trim_end_chars cs)"
  by (simp add: after_held_def Let_def)

text \<open>A chunk that decodes: either it is blank before any text, or the rest of it goes to the trimmer.\<close>

lemma push_trim_cases:
  assumes "trim_good (TrimS leading carry held)" and "head_tail (carry @ data) = (h, t)" and "from_utf8 h = Some cs"
  obtains "push E (TrimS leading carry held) data = (\<lambda>out. (Ok (TrimS False t []), out))"
      "\<And>fut. trim_den (TrimS leading carry held) (data @ fut) = trim_den (TrimS False t []) fut"
    | cs' where "push E (TrimS leading carry held) data = push_trimmed E held cs' t"
      "\<And>fut. trim_den (TrimS leading carry held) (data @ fut) = map_option (\<lambda>ds. after_held held (cs' @ ds)) (from_utf8 (t @ fut))"
proof -
  note dec = decode_staged [OF assms(2,3)]
  have push: "push E (TrimS leading carry held) data =
      (\<lambda>out. if leading then push_trimmed E held cs t out
        else if trim_start_chars cs = [] then (Ok (TrimS False t held), out)
        else push_trimmed E held (trim_start_chars cs) t out)"
    using assms(2,3) by (auto simp: push_trim_def Let_def fun_eq_iff)
  consider "leading" | "\<not> leading" "trim_start_chars cs = []" "held = []" | "\<not> leading" "trim_start_chars cs \<noteq> []" "held = []"
    using assms(1) by (auto simp: trim_good_def)
  then show thesis
  proof cases
    case 1
    then show thesis
      using push dec by (intro that(2) [of cs]) (auto simp: trim_den_def option.map_comp comp_def)
  next
    case 2
    then show thesis
      using push dec
      by (intro that(1)) (auto simp: trim_den_def option.map_comp comp_def text_trim_str_def trim_start_blank)
  next
    case 3
    then show thesis
      using push dec by (intro that(2) [of "trim_start_chars cs"])
        (auto simp: trim_den_def option.map_comp comp_def text_trim_str_def trim_start_append after_no_held)
  qed
qed

lemma map_append_Nil: "map_option ((@) []) x = x"
  by (cases x) simp_all

lemma push_trim_undecodable:
  assumes "head_tail (carry @ data) = (h, t)" and "from_utf8 h = None"
  shows "push E (TrimS leading carry held) data = (\<lambda>out. (Err NotUtf8, out))"
    and "trim_den (TrimS leading carry held) (data @ fut) = None"
  using assms decode_fails [OF assms] by (auto simp: push_trim_def fun_eq_iff trim_den_def)

interpretation trm: pump_kind E trim_good trim_den for E
proof
  fix st data out st' out'
  assume good: "trim_good st" and push: "push E st data out = (Ok st', out')"
  then obtain l carry held where st: "st = TrimS l carry held"
    by (auto simp: trim_good_def split: pump_state.splits)
  obtain h t where ht: "head_tail (carry @ data) = (h, t)"
    by fastforce
  then obtain cs where cs: "from_utf8 h = Some cs"
    using push st push_trim_undecodable(1) [OF ht] by (cases "from_utf8 h") auto
  have tail: "t = [] \<or> from_utf8 t = None"
    using tail_undecodable [OF ht] by (cases "from_utf8 t") auto
  show "trim_good st' \<and> (\<exists>w. out' = out @ w \<and> (\<forall>fut. trim_den st (data @ fut) = map_option ((@) w) (trim_den st' fut)))"
    using good [unfolded st] ht cs
  proof (cases rule: push_trim_cases [where E = E])
    case 1
    then show ?thesis
      using push st tail by (auto simp: trim_good_def map_append_Nil)
  next
    case (2 cs')
    then obtain w hd where "st' = TrimS True t hd" "out' = out @ w" "\<forall>ds. after_held held (cs' @ ds) = w @ after_held hd ds"
      using push st push_trimmed_ok [of E held cs' t out st' out'] by auto
    then show ?thesis
      using 2(2) st tail by (auto simp: trim_good_def trim_den_def option.map_comp comp_def)
  qed
next
  fix st data out e out'
  assume good: "trim_good st" and push: "push E st data out = (Err e, out')"
  then obtain l carry held where st: "st = TrimS l carry held"
    by (auto simp: trim_good_def split: pump_state.splits)
  obtain h t where ht: "head_tail (carry @ data) = (h, t)"
    by fastforce
  show "\<exists>w. out' = out @ w \<and> (\<forall>fut v. trim_den st (data @ fut) = Some v \<longrightarrow> prefix w v)"
  proof (cases "from_utf8 h")
    case None
    then show ?thesis
      using push st push_trim_undecodable [OF ht None] by simp
  next
    case (Some cs)
    show ?thesis
      using good [unfolded st] ht Some
    proof (cases rule: push_trim_cases [where E = E])
      case (2 cs')
      then show ?thesis
        using push st push_trimmed_err [of E held cs' t out e out'] by auto
    qed (use push st in auto)
  qed
next
  fix st data fut v out
  assume good: "trim_good st" and calm: "calm E" and den: "trim_den st (data @ fut) = Some v"
  then obtain l carry held where st: "st = TrimS l carry held"
    by (auto simp: trim_good_def split: pump_state.splits)
  obtain h t where ht: "head_tail (carry @ data) = (h, t)"
    by fastforce
  then obtain cs where cs: "from_utf8 h = Some cs"
    using den st push_trim_undecodable(2) [OF ht] by (cases "from_utf8 h") auto
  show "is_ok (fst (push E st data out))"
    using good [unfolded st] ht cs
    by (cases rule: push_trim_cases [where E = E]) (use st calm in \<open>auto simp: push_trimmed_calm\<close>)
next
  fix st v out r out'
  assume "trim_good st" and den: "trim_den st [] = Some v" and flush: "flush E st out = (r, out')"
  then obtain l carry held where st: "st = TrimS l carry held" and good: "carry = [] \<or> from_utf8 carry = None"
    by (auto simp: trim_good_def split: pump_state.splits)
  then have "carry = []" and "v = []"
    using den by (auto simp: trim_den_def after_held_def text_trim_str_def trim_end_chars_def trim_start_chars_def)
  then show "\<exists>w. out' = out @ w \<and> prefix w v \<and> (is_ok r \<longrightarrow> w = v) \<and> (calm E \<longrightarrow> is_ok r)"
    using st flush by (auto simp: trim_end_chars_def pump_write_def split: if_splits)
qed

section \<open>Properties of pumps\<close>

text \<open>Every pump but the one for lower case starts as a state of one of the kinds, standing for its transform.\<close>

lemma kind_of_pump:
  assumes "pump \<noteq> PToLower" and "apply_str (pe_unicode E) pump s = Ok v"
  obtains good den where "pump_kind E good den" and "good (new_state pump)" and "den (new_state pump) s = Some v"
proof (cases pump)
  case PTrim
  then show thesis
    using assms by (intro that [OF trm.pump_kind_axioms])
      (auto simp: trim_good_def trim_den_def apply_str_def on_chars_def split: option.splits)
next
  case (PTrimPrefix p)
  then show thesis
    using assms by (intro that [OF pre.pump_kind_axioms]) (auto simp: prefix_good_def prefix_den_def apply_str_def)
next
  case (PTrimSuffix p)
  then show thesis
    using assms by (intro that [OF suf.pump_kind_axioms]) (auto simp: suffix_good_def suffix_den_def apply_str_def)
next
  case PToUpper
  then show thesis
    using assms by (intro that [OF up.pump_kind_axioms])
      (auto simp: upper_good_def upper_den_def apply_str_def on_chars_def split: option.splits)
next
  case (PReplaceLiteral "from" "to")
  then show thesis
    using assms by (intro that [OF rep.pump_kind_axioms])
      (auto simp: replace_good_def replace_den_def apply_str_def text_replace_literal_str_def split: if_splits)
qed (use assms in simp)

text \<open>C21. 
  Streaming agrees with the string function: however a text is cut into chunks, also inside a
  character, a match or the white space at its end, a pump over a pipe writes the bytes that the same transform
  gives on the whole string, for every transform but lower case.
\<close>

theorem pump_agrees_with_string:
  assumes "pump \<noteq> PToLower" and "calm E" and "\<forall>c \<in> set cs. c \<noteq> []"
    and "apply_str (pe_unicode E) pump (concat cs) = Ok v"
  shows "run_text_pump E (new_state pump) (map Chunk cs @ [Chunk []]) [] = (Finished, v)"
proof -
  obtain good den where kind: "pump_kind E good den" and "good (new_state pump)" and "den (new_state pump) (concat cs) = Some v"
    using assms(1,4) by (rule kind_of_pump)
  then show ?thesis
    using pump_kind.run_calm [OF kind] assms(2,3) by simp
qed

definition ascii :: "string \<Rightarrow> byte list" where
  "ascii s = map (\<lambda>c. of_nat (of_char c)) s"

definition sample_unicode :: unicode where
  "sample_unicode =
     \<lparr>to_upper_char = (\<lambda>c. [c]), to_lower_char = (\<lambda>c. if c = [0xCE, 0x91] then [[0xCE, 0xB1]] else [c]),
      is_cased = (\<lambda>c. c = [0xCE, 0x91] \<or> c = sigma), is_case_ignorable = (\<lambda>c. False)\<rparr>"

definition sample_env :: pump_env where
  "sample_env =
     \<lparr>pe_unicode = sample_unicode, pe_write = (\<lambda>out bs. (length bs, None)), pe_hold = (\<lambda>h bs. True), pe_drain = (\<lambda>h. True)\<rparr>"

lemma sample_calm: "calm sample_env"
  by (simp add: calm_def sample_env_def)

theorem pump_agrees_with_string_witness:
  "run_text_pump sample_env (new_state (PReplaceLiteral (ascii ''aba'') (ascii ''x'')))
     (map Chunk [ascii ''ca'', ascii ''bab'', ascii ''aba''] @ [Chunk []]) [] = (Finished, ascii ''cxbx'') \<and>
   run_text_pump sample_env (new_state PTrim) (map Chunk [[0x20, 0xC3], [0xA9, 0x20], [0x61, 0x20]] @ [Chunk []]) [] =
     (Finished, [0xC3, 0xA9, 0x20, 0x61])"
proof (rule conjI)
  show "run_text_pump sample_env (new_state (PReplaceLiteral (ascii ''aba'') (ascii ''x'')))
     (map Chunk [ascii ''ca'', ascii ''bab'', ascii ''aba''] @ [Chunk []]) [] = (Finished, ascii ''cxbx'')"
    by (rule pump_agrees_with_string [OF _ sample_calm]) code_simp+
  show "run_text_pump sample_env (new_state PTrim) (map Chunk [[0x20, 0xC3], [0xA9, 0x20], [0x61, 0x20]] @ [Chunk []]) [] =
     (Finished, [0xC3, 0xA9, 0x20, 0x61])"
    by (rule pump_agrees_with_string [OF _ sample_calm]) code_simp+
qed

lemma run_ends: "sees_end ts \<Longrightarrow> \<exists>err. fst (run_text_pump E st ts out) = Finished \<or> fst (run_text_pump E st ts out) = Failed err"
  by (induction E st ts out rule: run_text_pump.induct) (auto split: prod.splits sum.splits)

text \<open>C22. 
  A pump of any kind but lower case never writes a wrong byte and never ends short in silence: whatever writes, spills
  and reads fail, at any moment what was written is a prefix of what the transform gives on every continuation of
  the input to a text on which it succeeds; and a pump that saw the end of its input wrote all of it, or raised the shared
  cancellation flag, or had no reader left.
\<close>

theorem pump_output_sound:
  assumes "pump \<noteq> PToLower" and "apply_str (pe_unicode E) pump (stream_text ts @ fut) = Ok v"
    and "sees_end ts \<longrightarrow> fut = []" and "run_text_pump E (new_state pump) ts [] = (e, out)"
  shows "prefix out v \<and> (sees_end ts \<longrightarrow> out = v \<or> trips_cancel e \<or> e = Failed DownstreamClosed)"
proof -
  obtain good den where kind: "pump_kind E good den" and good: "good (new_state pump)"
    and den: "den (new_state pump) (stream_text ts @ fut) = Some v"
    using assms(1,2) by (rule kind_of_pump)
  obtain w where "out = [] @ w" "prefix w v" "e = Finished \<longrightarrow> w = v \<and> sees_end ts"
    using pump_kind.run_prefix [OF kind good assms(4) den assms(3)] by blast
  then show ?thesis
    using run_ends [of ts E "new_state pump" "[]"] assms(4) by auto
qed

definition failing_env :: pump_env where
  "failing_env =
     \<lparr>pe_unicode = sample_unicode, pe_write = (\<lambda>out bs. (1, Some WriteFailed)), pe_hold = (\<lambda>h bs. True), pe_drain = (\<lambda>h. True)\<rparr>"

definition sample_turns :: "turn list" where
  "sample_turns = [Chunk (ascii ''abc''), Chunk []]"

theorem pump_output_sound_witness:
  "run_text_pump failing_env (new_state (PTrimSuffix (ascii ''z''))) sample_turns [] = (Failed WriteFailed, ascii ''a'') \<and>
   prefix (ascii ''a'') (ascii ''abc'')"
proof -
  have run: "run_text_pump failing_env (new_state (PTrimSuffix (ascii ''z''))) sample_turns [] = (Failed WriteFailed, ascii ''a'')"
    by code_simp
  have "apply_str (pe_unicode failing_env) (PTrimSuffix (ascii ''z'')) (stream_text sample_turns @ []) = Ok (ascii ''abc'')"
    by code_simp
  then show ?thesis
    using pump_output_sound [of "PTrimSuffix (ascii ''z'')" failing_env sample_turns "[]", OF _ _ _ run] run by simp
qed

text \<open>Lower case depends on the chunks: a capital sigma at the end of a chunk is taken for the end of a word.\<close>

theorem lower_case_depends_on_chunks:
  "run_text_pump sample_env (new_state PToLower) [Chunk [0xCE, 0x91, 0xCE, 0xA3, 0xCE, 0x91], Chunk []] [] =
     (Finished, [0xCE, 0xB1, 0xCF, 0x83, 0xCE, 0xB1]) \<and>
   run_text_pump sample_env (new_state PToLower) [Chunk [0xCE, 0x91, 0xCE, 0xA3], Chunk [0xCE, 0x91], Chunk []] [] =
     (Finished, [0xCE, 0xB1, 0xCF, 0x82, 0xCE, 0xB1])"
  by code_simp

text \<open>A blank input that ends inside a character is accepted by the trimming pump; after any text it is refused.\<close>

theorem trim_accepts_truncated_blank:
  "run_text_pump sample_env (new_state PTrim) [Chunk [0x20, 0xC3], Chunk []] [] = (Finished, []) \<and>
   run_text_pump sample_env (new_state PTrim) [Chunk [0x61, 0xC3], Chunk []] [] = (Failed NotUtf8, [0x61])"
  by code_simp

end
