(* ===== verification/Text_Functions.thy ===== *)
theory Text_Functions
  imports Text_Pump
begin

text \<open>
  The other text functions of \<open>oxdock-core/src/exec/args.rs\<close>: reading a pipe whole, splitting, counting, literal
  replacement and ranges of lines. Shown: what an eager read returns does not depend on the chunks, and split,
  count and replacement agree with each other.
\<close>

section \<open>Reading a pipe to a string\<close>

text \<open>The loop of \<open>read_pipe_eager\<close>: bytes whose characters are complete go to the spill buffer, the rest is carried.\<close>

definition strict_string :: "byte list \<Rightarrow> pump_error + byte list" where
  "strict_string bs = (if from_utf8 bs = None then Err NotUtf8 else Ok bs)"

fun read_pipe_eager :: "(byte list \<Rightarrow> byte list \<Rightarrow> bool) \<Rightarrow> byte list list \<Rightarrow> byte list \<Rightarrow> byte list \<Rightarrow> pump_error + byte list" where
  "read_pipe_eager hold [] carry spill =
     (if \<not> hold spill carry then Err SpillFailed else strict_string (spill @ carry))"
| "read_pipe_eager hold (c # cs) carry spill =
     (case head_tail (carry @ c) of (h, t) \<Rightarrow>
        if from_utf8 h = None then Err NotUtf8
        else if \<not> hold spill h then Err SpillFailed
        else read_pipe_eager hold cs t (spill @ h))"

lemma read_pipe_eager_from:
  assumes "from_utf8 spill = Some ds"
  shows "read_pipe_eager hold cs carry spill = Err SpillFailed \<and> (\<exists>a b. \<not> hold a b) \<or>
    read_pipe_eager hold cs carry spill = strict_string (spill @ carry @ concat cs)"
  using assms
proof (induction cs arbitrary: carry spill ds)
  case (Cons c cs)
  obtain h t where ht: "head_tail (carry @ c) = (h, t)"
    by fastforce
  show ?case
  proof (cases "from_utf8 h")
    case None
    then have "strict_string (spill @ carry @ c @ concat cs) = Err NotUtf8"
      using decode_fails [OF ht None, of "concat cs"] from_utf8_append [OF Cons.prems] by (simp add: strict_string_def)
    then show ?thesis
      using ht None by simp
  next
    case (Some es)
    then have "from_utf8 (spill @ h) = Some (ds @ es)"
      using from_utf8_append [OF Cons.prems, of h] by simp
    from Cons.IH [OF this, of t]
    have "read_pipe_eager hold cs t (spill @ h) = Err SpillFailed \<and> (\<exists>a b. \<not> hold a b) \<or>
        read_pipe_eager hold cs t (spill @ h) = strict_string (spill @ h @ t @ concat cs)"
      by simp
    moreover have "carry @ concat (c # cs) = h @ t @ concat cs"
      using head_tail_append [OF ht] by (metis append.assoc concat.simps(2))
    ultimately show ?thesis
      using ht Some by (auto simp del: concat.simps)
  qed
qed auto

text \<open>
  Reading a pipe whole gives the concatenated chunks when they are a text and refuses them otherwise,
  wherever the chunks were cut; only a full spill buffer interferes.
\<close>

theorem eager_read_exact:
  "read_pipe_eager hold cs [] [] = Err SpillFailed \<and> (\<exists>a b. \<not> hold a b) \<or>
   read_pipe_eager hold cs [] [] = strict_string (concat cs)"
  using read_pipe_eager_from [of "[]" "[]" hold cs "[]"] by simp

section \<open>Splitting, counting and replacing\<close>

function split_delim :: "byte list \<Rightarrow> byte list \<Rightarrow> byte list list" where
  "split_delim d s =
     (case s of
        [] \<Rightarrow> [[]]
      | b # bs \<Rightarrow>
          if d \<noteq> [] \<and> prefix d s then [] # split_delim d (drop (length d) s)
          else (case split_delim d bs of p # ps \<Rightarrow> (b # p) # ps | [] \<Rightarrow> [[b]]))"
  by pat_completeness auto
termination
  by (relation "measure (\<lambda>(d, s). length s)") (auto simp: prefix_def)

declare split_delim.simps [simp del]

definition text_split_str :: "byte list \<Rightarrow> byte list \<Rightarrow> byte list list option" where
  "text_split_str delimiter s = (if delimiter = [] then from_utf8 s else Some (split_delim delimiter s))"

function match_count :: "byte list \<Rightarrow> byte list \<Rightarrow> nat" where
  "match_count needle s =
     (case s of
        [] \<Rightarrow> 0
      | b # bs \<Rightarrow>
          if needle \<noteq> [] \<and> prefix needle s then Suc (match_count needle (drop (length needle) s))
          else match_count needle bs)"
  by pat_completeness auto
termination
  by (relation "measure (\<lambda>(d, s). length s)") (auto simp: prefix_def)

declare match_count.simps [simp del]

definition text_count_str :: "byte list \<Rightarrow> byte list \<Rightarrow> pump_error + nat" where
  "text_count_str needle s = (if needle = [] then Err EmptySearch else Ok (match_count needle s))"

fun join_by :: "byte list \<Rightarrow> byte list list \<Rightarrow> byte list" where
  "join_by d [] = []"
| "join_by d [p] = p"
| "join_by d (p # ps) = p @ d @ join_by d ps"

lemma split_delim_nonempty: "split_delim d s \<noteq> []"
proof (induction d s rule: split_delim.induct)
  case (1 d s)
  then show ?case
    unfolding split_delim.simps [of d s] by (auto split: list.splits)
qed

lemma join_by_head: "ps \<noteq> [] \<Longrightarrow> join_by d ((b # p) # ps) = b # join_by d (p # ps)"
  by (cases ps) simp_all

lemma replace_is_join: "replace_all d to s = join_by to (split_delim d s)"
proof (induction d s rule: split_delim.induct)
  case (1 d s)
  show ?case
  proof (cases s)
    case Nil
    then show ?thesis
      by (simp add: split_delim.simps [of d "[]"])
  next
    case (Cons b bs)
    show ?thesis
    proof (cases "d \<noteq> [] \<and> prefix d s")
      case True
      obtain p ps where "split_delim d (drop (length d) s) = p # ps"
        using split_delim_nonempty by (meson neq_Nil_conv)
      then show ?thesis
        using 1(1) [OF Cons True] True Cons
        unfolding split_delim.simps [of d s] replace_all.simps [of d "to" s] by simp
    next
      case False
      obtain p ps where "split_delim d bs = p # ps"
        using split_delim_nonempty by (meson neq_Nil_conv)
      then show ?thesis
        using 1(2) [OF Cons False] False Cons join_by_head [of ps "to" b p]
        unfolding split_delim.simps [of d s] replace_all.simps [of d "to" s] by (cases ps) auto
    qed
  qed
qed

lemma replace_same: "replace_all d d s = s"
proof (induction d s rule: split_delim.induct)
  case (1 d s)
  show ?case
  proof (cases s)
    case (Cons b bs)
    then show ?thesis
      using 1(1) [OF Cons] 1(2) [OF Cons] unfolding replace_all.simps [of d d s] by (auto simp: prefix_def)
  qed simp
qed

lemma match_count_split: "Suc (match_count d s) = length (split_delim d s)"
proof (induction d s rule: split_delim.induct)
  case (1 d s)
  show ?case
  proof (cases s)
    case Nil
    then show ?thesis
      by (simp add: split_delim.simps [of d "[]"] match_count.simps [of d "[]"])
  next
    case (Cons b bs)
    obtain p ps where "split_delim d bs = p # ps"
      using split_delim_nonempty by (meson neq_Nil_conv)
    then show ?thesis
      using 1(1) [OF Cons] 1(2) [OF Cons] unfolding split_delim.simps [of d s] match_count.simps [of d s]
      by (cases "d \<noteq> [] \<and> prefix d s") (auto simp: Cons)
  qed
qed

text \<open>
  The text functions agree with each other: joining the pieces of a split by the delimiter gives the text back, joining
  them by another string is the literal replacement, and there is one piece more than the count of the delimiter.
\<close>

theorem split_join_replace:
  assumes "d \<noteq> []"
  shows "\<exists>ps. text_split_str d s = Some ps \<and> join_by d ps = s \<and>
    text_replace_literal_str d to s = Ok (join_by to ps) \<and> text_count_str d s = Ok (length ps - 1)"
proof -
  have "match_count d s = length (split_delim d s) - 1"
    using match_count_split [of d s] by simp
  then show ?thesis
    using assms replace_is_join [of d d s] replace_is_join [of d "to" s] replace_same [of d s]
    by (simp add: text_split_str_def text_replace_literal_str_def text_count_str_def)
qed

theorem split_join_replace_witness:
  "\<exists>ps. text_split_str (ascii '', '') (ascii ''a, b, c'') = Some ps \<and> join_by (ascii '', '') ps = ascii ''a, b, c'' \<and>
    text_replace_literal_str (ascii '', '') (ascii ''-'') (ascii ''a, b, c'') = Ok (join_by (ascii ''-'') ps) \<and>
    text_count_str (ascii '', '') (ascii ''a, b, c'') = Ok (length ps - 1)"
  by (rule split_join_replace) code_simp

section \<open>Ranges of lines\<close>

datatype range_error = StartBelowOne int | StartAfterEnd int int

text \<open>Splitting into lines is the third-party crate's; the slice is taken of what it returns.\<close>

definition text_lines_range_str :: "('s \<Rightarrow> 'l list) \<Rightarrow> 's \<Rightarrow> int \<Rightarrow> int \<Rightarrow> range_error + 'l list" where
  "text_lines_range_str lines s from to =
     (if from < 1 then Err (StartBelowOne from)
      else if from > to then Err (StartAfterEnd from to)
      else let ls = lines s; start = nat (from - 1) in
        if start \<ge> length ls then Ok []
        else Ok (drop start (take (min (nat to) (length ls)) ls)))"

lemma line_range_exact:
  assumes "text_lines_range_str lines s from to = Ok out" and "i < length out"
  shows "nat from - 1 + i < length (lines s) \<and> int (nat from - 1 + i) < to \<and> out ! i = lines s ! (nat from - 1 + i)"
proof -
  have out: "out = drop (nat from - 1) (take (min (nat to) (length (lines s))) (lines s))"
    using assms by (auto simp: text_lines_range_str_def Let_def nat_diff_distrib split: if_splits)
  then have "nat from - 1 + i < min (nat to) (length (lines s))"
    using assms(2) by (simp add: less_diff_conv add.commute del: min_less_iff_conj)
  then show ?thesis
    unfolding out by auto
qed

end
