(* ===== verification/Archive.thy ===== *)
theory Archive
  imports Prelude "HOL-Library.List_Lexorder" "HOL-Library.Char_ord" "HOL-Library.Product_Lexorder"
begin

text \<open>
  Member paths and manifests of tarballs (\<open>oxdock-utils/src/tar.rs\<close>): the canonical form of a
  member path, the loop that hands the members of an archive to a callback, the sniffing of the
  compression, and the difference of two manifests. The archive and compression formats are third-party crates: an archive
  is the list of its members or a failure. Shown: no member path a callback sees leaves the root, the canonical form is
  a fixed point, sniffing loses no byte, and a pruned directory comes after everything pruned below it.
\<close>

section \<open>Member paths\<close>

datatype tar_error =
    EmptyPath | BackslashPath | AbsolutePath | EscapesRoot | BadMember | UnsupportedType | ApplyFailed
  | EmptyArchive | TruncatedArchive

fun path_parts :: "string \<Rightarrow> string list" where
  "path_parts [] = [[]]"
| "path_parts (c # cs) =
     (if c = CHR ''/'' then [] # path_parts cs
      else (case path_parts cs of p # ps \<Rightarrow> (c # p) # ps | [] \<Rightarrow> [[c]]))"

fun join_parts :: "string list \<Rightarrow> string" where
  "join_parts [] = []"
| "join_parts [p] = p"
| "join_parts (p # ps) = p @ CHR ''/'' # join_parts ps"

fun fold_parts :: "string list \<Rightarrow> string list \<Rightarrow> tar_error + string list" where
  "fold_parts parts [] = Ok parts"
| "fold_parts parts (p # ps) =
     (if p = [] \<or> p = ''.'' then fold_parts parts ps
      else if p = ''..'' then (if parts = [] then Err EscapesRoot else fold_parts (butlast parts) ps)
      else fold_parts (parts @ [p]) ps)"

definition sanitize_rel :: "string \<Rightarrow> tar_error + string" where
  "sanitize_rel raw =
     (if raw = [] then Err EmptyPath
      else if CHR 0x5C \<in> set raw then Err BackslashPath
      else if hd raw = CHR ''/'' then Err AbsolutePath
      else bind_result (fold_parts [] (path_parts raw)) (\<lambda>parts.
        if parts = [] then Err EmptyPath else Ok (join_parts parts)))"

text \<open>A canonical path: names joined by single slashes, none of them empty, a dot or two dots.\<close>

definition plain_part :: "string \<Rightarrow> bool" where
  "plain_part p \<longleftrightarrow> p \<noteq> [] \<and> p \<noteq> ''.'' \<and> p \<noteq> ''..'' \<and> CHR ''/'' \<notin> set p \<and> CHR 0x5C \<notin> set p"

definition canonical_rel :: "string \<Rightarrow> bool" where
  "canonical_rel s \<longleftrightarrow> list_all plain_part (path_parts s)"

lemma path_parts_nonempty: "path_parts s \<noteq> []"
  by (induction s) (auto split: list.splits)

lemma path_parts_chars:
  assumes "p \<in> set (path_parts s)"
  shows "CHR ''/'' \<notin> set p \<and> set p \<subseteq> set s"
  using assms by (induction s arbitrary: p) (auto split: list.splits if_splits, blast)

lemma path_parts_join: "CHR ''/'' \<notin> set p \<Longrightarrow> path_parts (p @ CHR ''/'' # s) = p # path_parts s"
  by (induction p) (auto simp: path_parts_nonempty)

lemma path_parts_single: "CHR ''/'' \<notin> set p \<Longrightarrow> path_parts p = [p]"
  by (induction p) auto

lemma parts_of_join: "ps \<noteq> [] \<Longrightarrow> list_all (\<lambda>p. CHR ''/'' \<notin> set p) ps \<Longrightarrow> path_parts (join_parts ps) = ps"
  by (induction ps rule: join_parts.induct) (auto simp: path_parts_join path_parts_single)

lemma fold_parts_plain:
  assumes "fold_parts parts ps = Ok out" and "list_all plain_part parts"
    and "\<forall>p \<in> set ps. CHR ''/'' \<notin> set p \<and> CHR 0x5C \<notin> set p"
  shows "list_all plain_part out"
  using assms
proof (induction parts ps rule: fold_parts.induct)
  case (2 parts p ps)
  have b: "list_all plain_part (butlast parts)"
    using 2(5) by (auto simp: list_all_iff dest: in_set_butlastD)
  have "p \<noteq> [] \<and> p \<noteq> ''.'' \<and> p \<noteq> ''..'' \<longrightarrow> list_all plain_part (parts @ [p])"
    using 2(5,6) by (simp add: plain_part_def [of p])
  then show ?case
    using 2 b by (simp split: if_splits)
qed simp

lemma fold_parts_id: "list_all plain_part ps \<Longrightarrow> fold_parts parts ps = Ok (parts @ ps)"
  by (induction ps arbitrary: parts) (auto simp: plain_part_def)

lemma sanitize_parts:
  assumes "sanitize_rel raw = Ok s"
  shows "\<exists>parts. parts \<noteq> [] \<and> list_all plain_part parts \<and> s = join_parts parts"
proof -
  obtain parts where "fold_parts [] (path_parts raw) = Ok parts" "parts \<noteq> []" "s = join_parts parts" "CHR 0x5C \<notin> set raw"
    using assms by (auto simp: sanitize_rel_def result_simps split: if_splits)
  moreover have "list_all plain_part parts"
    using calculation path_parts_chars by (intro fold_parts_plain [OF calculation(1)]) fastforce+
  ultimately show ?thesis
    by blast
qed

lemma join_parts_head: "plain_part p \<Longrightarrow> join_parts (p # ps) \<noteq> [] \<and> hd (join_parts (p # ps)) \<noteq> CHR ''/''"
  by (cases ps; cases p) (auto simp: plain_part_def)

lemma join_parts_chars: "set (join_parts ps) \<subseteq> \<Union> (set ` set ps) \<union> {CHR ''/''}"
  by (induction ps rule: join_parts.induct) auto

text \<open>
  A member path that is accepted stays below the root: it is made of plain names, no dots, no backslash, no slash at
  its front, and canonicalizing it again changes nothing.
\<close>

lemma sanitize_canonical:
  assumes "sanitize_rel raw = Ok s"
  shows "canonical_rel s \<and> sanitize_rel s = Ok s"
proof -
  obtain parts where ne: "parts \<noteq> []" and plain: "list_all plain_part parts" and s: "s = join_parts parts"
    using sanitize_parts [OF assms] by blast
  have parts: "path_parts s = parts"
    unfolding s using ne plain by (intro parts_of_join) (auto simp: plain_part_def list_all_iff)
  obtain p ps where "parts = p # ps" "plain_part p"
    using ne plain by (cases parts) auto
  then have "s \<noteq> []" "hd s \<noteq> CHR ''/''"
    using join_parts_head [of p ps] s by auto
  moreover have "CHR 0x5C \<notin> set s"
    using join_parts_chars [of parts] plain s by (fastforce simp: plain_part_def list_all_iff)
  ultimately show ?thesis
    using parts plain ne s fold_parts_id [OF plain, of "[]"] by (simp add: canonical_rel_def sanitize_rel_def)
qed

lemmas canonical_of_sanitized = sanitize_canonical [THEN conjunct1]
lemmas sanitize_idem = sanitize_canonical [THEN conjunct2]

section \<open>Members\<close>

datatype entry_type = DirType | LinkType | FileType | OtherType

text \<open>
  A member as the format layer reports it: the target is absent when the header names none, and a target the layer
  cannot decode is an error of its own.
\<close>

record tar_member =
  m_path :: string
  m_mode :: nat
  m_type :: entry_type
  m_target :: "tar_error + string option"
  m_data :: "byte list"

datatype streamed_entry = SDir string nat | SFile string nat "byte list" | SSymlink string string

fun entry_path :: "streamed_entry \<Rightarrow> string" where
  "entry_path (SDir p m) = p"
| "entry_path (SFile p m d) = p"
| "entry_path (SSymlink p t) = p"

text \<open>The entry one member is turned into, before the callback sees it.\<close>

definition entry_of :: "tar_member \<Rightarrow> tar_error + streamed_entry" where
  "entry_of m =
     bind_result (sanitize_rel (m_path m)) (\<lambda>rel.
       case m_type m of
         DirType \<Rightarrow> Ok (SDir rel (m_mode m))
       | LinkType \<Rightarrow> bind_result (m_target m) (\<lambda>t. Ok (SSymlink rel (case t of None \<Rightarrow> [] | Some t \<Rightarrow> t)))
       | FileType \<Rightarrow> Ok (SFile rel (m_mode m) (m_data m))
       | OtherType \<Rightarrow> Err UnsupportedType)"

text \<open>
  One member after another goes to the callback, which may change the state and fail; a member the format layer
  cannot read ends the loop.
\<close>

fun drain_entries ::
  "(streamed_entry \<Rightarrow> 's \<Rightarrow> (tar_error + unit) \<times> 's) \<Rightarrow> (tar_error + tar_member) list \<Rightarrow> 's \<Rightarrow> (tar_error + unit) \<times> 's"
where
  "drain_entries ap [] s = (Ok (), s)"
| "drain_entries ap (Inl e # ms) s = (Err e, s)"
| "drain_entries ap (Inr m # ms) s =
     (case entry_of m of
        Inl e \<Rightarrow> (Err e, s)
      | Inr e \<Rightarrow> (case ap e s of (Inl x, s') \<Rightarrow> (Err x, s') | (Inr _, s') \<Rightarrow> drain_entries ap ms s'))"

lemma entry_of_canonical: "entry_of m = Ok e \<Longrightarrow> canonical_rel (entry_path e)"
  using canonical_of_sanitized
  by (cases "m_type m") (auto simp: entry_of_def result_simps)

text \<open>
  Whatever an archive holds, an invariant of the state that the callback keeps for entries with canonical paths is
  kept by unpacking: a hostile path never reaches the callback, on any way out of the loop.
\<close>

lemma drain_entries_invariant:
  assumes "\<And>e s. I s \<Longrightarrow> canonical_rel (entry_path e) \<Longrightarrow> I (snd (ap e s))" and "I s"
  shows "I (snd (drain_entries ap ms s))"
  using assms(2)
proof (induction ms arbitrary: s)
  case (Cons m ms)
  show ?case
    using Cons.prems assms(1) [OF Cons.prems entry_of_canonical]
    by (cases m) (auto split: sum.splits prod.splits intro!: Cons.IH dest!: arg_cong [where f = snd])
qed simp

section \<open>Packing\<close>

text \<open>
  The builder of the tar crate is the list of members written so far; the append operation of the crate is a parameter
  that may refuse a header. Directories come first, in byte order, then the files, in the byte order of the names they
  were given with; every name is canonicalized on the way. The result also carries the file table, whose names are
  rewritten in place.
\<close>

fun append_all ::
  "(tar_member \<Rightarrow> tar_error option) \<Rightarrow> ('a \<Rightarrow> string) \<Rightarrow> (string \<Rightarrow> 'a \<Rightarrow> tar_member) \<Rightarrow> 'a list \<Rightarrow> tar_member list
    \<Rightarrow> tar_error + tar_member list"
where
  "append_all refuse name hdr [] out = Ok out"
| "append_all refuse name hdr (x # xs) out =
     bind_result (sanitize_rel (name x)) (\<lambda>rel.
       case refuse (hdr rel x) of
         Some e \<Rightarrow> Err e
       | None \<Rightarrow> append_all refuse name hdr xs (out @ [hdr rel x]))"

definition dir_header :: "string \<Rightarrow> string \<Rightarrow> tar_member" where
  "dir_header rel d = \<lparr>m_path = rel, m_mode = 493, m_type = DirType, m_target = Ok None, m_data = []\<rparr>"

definition file_header :: "string \<Rightarrow> string \<times> byte list \<Rightarrow> tar_member" where
  "file_header rel f = \<lparr>m_path = rel, m_mode = 420, m_type = FileType, m_target = Ok None, m_data = snd f\<rparr>"

definition pack_to ::
  "(tar_member \<Rightarrow> tar_error option) \<Rightarrow> (string \<times> byte list) list \<Rightarrow> string list \<Rightarrow> tar_error + tar_member list \<times> nat"
where
  "pack_to refuse files dirs =
     (let sorted_dirs = sort dirs; sorted_files = sort_key fst files in
      bind_result (append_all refuse id dir_header sorted_dirs []) (\<lambda>out.
      bind_result (append_all refuse fst file_header sorted_files out) (\<lambda>out.
        Ok (out, length sorted_files + length sorted_dirs))))"

text \<open>The names an archive of the given inputs carries, in order.\<close>

definition canon :: "string \<Rightarrow> string" where
  "canon raw = (case sanitize_rel raw of Inl e \<Rightarrow> [] | Inr s \<Rightarrow> s)"

definition packed_entries :: "(string \<times> byte list) list \<Rightarrow> string list \<Rightarrow> streamed_entry list" where
  "packed_entries files dirs =
     map (\<lambda>d. SDir (canon d) 493) (sort dirs) @ map (\<lambda>f. SFile (canon (fst f)) 420 (snd f)) (sort_key fst files)"

definition record_entry :: "streamed_entry \<Rightarrow> streamed_entry list \<Rightarrow> (tar_error + unit) \<times> streamed_entry list" where
  "record_entry e seen = (Ok (), seen @ [e])"

lemma append_all_out:
  assumes "append_all refuse name hdr xs out = Ok res"
  shows "res = out @ map (\<lambda>x. hdr (canon (name x)) x) xs \<and> (\<forall>x \<in> set xs. sanitize_rel (name x) = Ok (canon (name x)))"
  using assms
proof (induction xs arbitrary: out)
  case (Cons x xs)
  then obtain rel where "sanitize_rel (name x) = Ok rel" "append_all refuse name hdr xs (out @ [hdr rel x]) = Ok res"
    by (auto simp: result_simps split: option.splits)
  then show ?case
    using Cons.IH by (fastforce simp: canon_def)
qed simp

lemma drain_record:
  assumes "list_all2 (\<lambda>m e. entry_of m = Ok e) ms es"
  shows "drain_entries record_entry (map Ok ms) seen = (Ok (), seen @ es)"
  using assms by (induction arbitrary: seen rule: list_all2_induct) (auto simp: record_entry_def)

lemma entry_of_headers:
  assumes "sanitize_rel raw = Ok (canon raw)"
  shows "entry_of (dir_header (canon raw) d) = Ok (SDir (canon raw) 493)"
    and "entry_of (file_header (canon raw) f) = Ok (SFile (canon raw) 420 (snd f))"
  using sanitize_idem [OF assms] by (auto simp: entry_of_def dir_header_def file_header_def)

text \<open>
  Packing and unpacking: an archive that packing produced is unpacked without an error, and the callback sees every
  directory and every file once, under its canonical name, with its bytes, directories first, both in the order of the
  given names; the count packing returns is the number of entries.
\<close>

theorem pack_unpack_roundtrip:
  assumes "pack_to refuse files dirs = Ok (ms, n)"
  shows "drain_entries record_entry (map Ok ms) [] = (Ok (), packed_entries files dirs) \<and> n = length (packed_entries files dirs)"
proof -
  obtain out where out: "append_all refuse id dir_header (sort dirs) [] = Ok out"
      and ms: "append_all refuse fst file_header (sort_key fst files) out = Ok ms"
      and n: "n = length files + length dirs"
    using assms by (auto simp: pack_to_def result_simps Let_def)
  have "list_all2 (\<lambda>m e. entry_of m = Ok e) out (map (\<lambda>d. SDir (canon d) 493) (sort dirs))"
    using append_all_out [OF out] by (auto simp: list.rel_map entry_of_headers intro: list.rel_refl_strong)
  moreover have "list_all2 (\<lambda>m e. entry_of m = Ok e) (map (\<lambda>x. file_header (canon (fst x)) x) (sort_key fst files))
      (map (\<lambda>f. SFile (canon (fst f)) 420 (snd f)) (sort_key fst files))"
    using append_all_out [OF ms] unfolding list.rel_map
    by (intro list.rel_refl_strong entry_of_headers) auto
  ultimately have "list_all2 (\<lambda>m e. entry_of m = Ok e) ms (packed_entries files dirs)"
    using append_all_out [OF ms] by (simp add: packed_entries_def list_all2_appendI)
  then show ?thesis
    using n by (simp add: drain_record packed_entries_def)
qed

theorem pack_unpack_roundtrip_witness:
  "fst (drain_entries record_entry
      (map Ok [dir_header ''a'' [], dir_header ''b'' [], file_header ''a/x'' ([], [7]), file_header ''c'' ([], [1, 2])]) []) = Ok ()"
proof -
  have p: "pack_to (\<lambda>m. None) [(''c'', [1, 2]), (''./a//x'', [7])] [''b'', ''a/'']
    = Ok ([dir_header ''a'' [], dir_header ''b'' [], file_header ''a/x'' ([], [7]), file_header ''c'' ([], [1, 2])], 4)"
    by (simp add: pack_to_def dir_header_def file_header_def sanitize_rel_def)
  show ?thesis
    using pack_unpack_roundtrip [OF p] by simp
qed

section \<open>Sniffing the compression\<close>

text \<open>
  A source is the sequence of its reads: each delivers some bytes, or fails. A read of a buffer takes what the buffer
  holds of the next chunk and leaves the remainder for later; an empty chunk, or none, is the end, and stays it.
\<close>

type_synonym source = "(tar_error + byte list) list"

fun read_some :: "nat \<Rightarrow> source \<Rightarrow> (tar_error + byte list) \<times> source" where
  "read_some n [] = (Ok [], [])"
| "read_some n (Inl e # src) = (Err e, src)"
| "read_some n (Inr c # src) = (Ok (take n c), if c = [] then Ok [] # src else if length c \<le> n then src else Ok (drop n c) # src)"

text \<open>What a reader of the source would see: its bytes up to the end or a failure, and how it ends.\<close>

fun contents :: "source \<Rightarrow> byte list \<times> tar_error option" where
  "contents [] = ([], None)"
| "contents (Inl e # src) = ([], Some e)"
| "contents (Inr c # src) = (if c = [] then ([], None) else (c @ fst (contents src), snd (contents src)))"

lemma read_some_progress: "read_some n src = (Ok c, src') \<Longrightarrow> length c \<le> n"
  by (induction n src rule: read_some.induct) auto

function fill :: "nat \<Rightarrow> byte list \<Rightarrow> source \<Rightarrow> (tar_error + byte list) \<times> source" where
  "fill need got src =
     (if need \<le> length got then (Ok got, src)
      else (case read_some (need - length got) src of
        (Inl e, src') \<Rightarrow> (Err e, src')
      | (Inr c, src') \<Rightarrow> if c = [] then (Ok got, src') else fill need (got @ c) src'))"
  by pat_completeness auto
termination
  by (relation "measure (\<lambda>(need, got, src). need - length got)") (auto intro!: diff_less_mono2)

definition unpack_raw_checked ::
  "(source \<Rightarrow> (tar_error + tar_member) list) \<Rightarrow> (streamed_entry \<Rightarrow> 's \<Rightarrow> (tar_error + unit) \<times> 's) \<Rightarrow> source \<Rightarrow> 's
    \<Rightarrow> (tar_error + unit) \<times> 's"
where
  "unpack_raw_checked entries ap src s =
     (case fill 512 [] src of
        (Inl e, _) \<Rightarrow> (Err e, s)
      | (Inr first, src') \<Rightarrow>
          if length first < 512 then (Err TruncatedArchive, s)
          else drain_entries ap (entries (Ok first # src')) s)"

definition unpack_from ::
  "(source \<Rightarrow> (tar_error + tar_member) list) \<Rightarrow> (streamed_entry \<Rightarrow> 's \<Rightarrow> (tar_error + unit) \<times> 's) \<Rightarrow> source \<Rightarrow> 's
    \<Rightarrow> (tar_error + unit) \<times> 's"
where
  "unpack_from gz_entries ap src s = drain_entries ap (gz_entries src) s"

definition unpack_auto_from ::
  "(source \<Rightarrow> (tar_error + tar_member) list) \<Rightarrow> (source \<Rightarrow> (tar_error + tar_member) list)
    \<Rightarrow> (streamed_entry \<Rightarrow> 's \<Rightarrow> (tar_error + unit) \<times> 's) \<Rightarrow> source \<Rightarrow> 's \<Rightarrow> (tar_error + unit) \<times> 's"
where
  "unpack_auto_from gz_entries raw_entries ap src s =
     (case fill 2 [] src of
        (Inl e, _) \<Rightarrow> (Err e, s)
      | (Inr hd2, src') \<Rightarrow>
          if hd2 = [] then (Err EmptyArchive, s)
          else if length hd2 = 2 \<and> hd2 = [0x1f, 0x8b] then unpack_from gz_entries ap (Ok hd2 # src') s
          else unpack_raw_checked raw_entries ap (Ok hd2 # src') s)"

lemma fill_step: "fill need got src =
     (if need \<le> length got then (Ok got, src)
      else (case read_some (need - length got) src of
        (Inl e, src') \<Rightarrow> (Err e, src')
      | (Inr c, src') \<Rightarrow> if c = [] then (Ok got, src') else fill need (got @ c) src'))"
  by (rule fill.simps)

declare fill.simps [simp del]

lemma contents_read:
  assumes "read_some n src = (Ok c, src')" and "0 < n"
  shows "if c = [] then contents src = ([], None) \<and> contents src' = ([], None) else contents src = (c @ fst (contents src'), snd (contents src'))"
  using assms by (induction n src rule: read_some.induct) (auto split: if_splits)

lemma contents_read_fail: "read_some n src = (Err e, src') \<Longrightarrow> contents src = ([], Some e)"
  by (induction n src rule: read_some.induct) auto

lemma fill_cases:
  assumes "\<not> need \<le> length got"
  obtains (Failed) e src' where "contents src = ([], Some e)" "fill need got src = (Err e, src')"
    | (Ended) src' where "contents src = ([], None)" "contents src' = ([], None)" "fill need got src = (Ok got, src')"
    | (More) c src' where "c \<noteq> []" "length c \<le> need - length got"
        "contents src = (c @ fst (contents src'), snd (contents src'))"
        "read_some (need - length got) src = (Ok c, src')" "fill need got src = fill need (got @ c) src'"
proof -
  obtain r src' where rd: "read_some (need - length got) src = (r, src')"
    by fastforce
  note step = fill_step [of need got src]
  show ?thesis
  proof (cases r)
    case (Inl e)
    then show ?thesis
      using rd assms contents_read_fail step by (intro Failed [of e src']) auto
  next
    case (Inr c)
    then show ?thesis
      using rd assms contents_read [of "need - length got" src c src'] read_some_progress [of _ src c src'] step
      by (cases "c = []") (auto intro: Ended More)
  qed
qed

text \<open>Filling a buffer takes the front of what the source holds and leaves the rest.\<close>

lemma fill_ok:
  assumes "fill need got src = (Ok buf, src')" and "length got \<le> need"
  shows "buf = got @ take (need - length got) (fst (contents src))"
    and "contents src = (drop (length got) buf @ fst (contents src'), snd (contents src'))"
    and "length buf < need \<Longrightarrow> contents src' = ([], None)"
proof -
  have "buf = got @ take (need - length got) (fst (contents src))
      \<and> contents src = (drop (length got) buf @ fst (contents src'), snd (contents src'))
      \<and> (length buf < need \<longrightarrow> contents src' = ([], None))"
    using assms
  proof (induction need got src rule: fill.induct)
    case (1 need got src)
    show ?case
    proof (cases "need \<le> length got")
      case True
      then show ?thesis
        using "1.prems" unfolding fill_step [of need got src] by simp
    next
      case False
      then show ?thesis
      proof (cases rule: fill_cases [where src = src])
        case (More c s2)
        have "length (got @ c) \<le> need"
          using More(2) False by simp
        then have IH: "buf = (got @ c) @ take (need - length (got @ c)) (fst (contents s2))"
            "contents s2 = (drop (length (got @ c)) buf @ fst (contents src'), snd (contents src'))"
            "length buf < need \<longrightarrow> contents src' = ([], None)"
          using "1.IH" [OF False More(4) [symmetric] refl More(1)] "1.prems"(1) unfolding More(5) by blast+
        have "buf = got @ take (need - length got) (fst (contents src))"
          using IH(1) More(2,3) by simp
        moreover have "drop (length got) buf = c @ drop (length (got @ c)) buf"
          using IH(1) by simp
        then have "contents src = (drop (length got) buf @ fst (contents src'), snd (contents src'))"
          using IH(2) More(3) by simp
        ultimately show ?thesis
          using IH(3) by blast
      next
        case (Failed e s2)
        then show ?thesis
          using "1.prems"(1) by simp
      next
        case (Ended s2)
        then show ?thesis
          using "1.prems"(1) by simp
      qed
    qed
  qed
  then show "buf = got @ take (need - length got) (fst (contents src))"
    and "contents src = (drop (length got) buf @ fst (contents src'), snd (contents src'))"
    and "length buf < need \<Longrightarrow> contents src' = ([], None)"
    by blast+
qed

lemma fill_err:
  assumes "fill need got src = (Err e, src')" and "length got \<le> need"
  shows "length got + length (fst (contents src)) < need \<and> snd (contents src) = Some e"
  using assms
proof (induction need got src rule: fill.induct)
  case (1 need got src)
  show ?case
  proof (cases "need \<le> length got")
    case True
    then show ?thesis
      using "1.prems" unfolding fill_step [of need got src] by simp
  next
    case False
    then show ?thesis
    proof (cases rule: fill_cases [where src = src])
      case (More c s2)
      have "length (got @ c) \<le> need"
        using More(2) False by simp
      then show ?thesis
        using "1.IH" [OF False More(4) [symmetric] refl More(1)] "1.prems"(1) More(2,3) unfolding More(5) by simp
    next
      case (Failed e s2)
      then show ?thesis
        using "1.prems"(1) False by simp
    next
      case (Ended s2)
      then show ?thesis
        using "1.prems"(1) by simp
    qed
  qed
qed

text \<open>What unpacking does with an input, by its bytes and the way it ends.\<close>

definition unpack_spec ::
  "(byte list \<times> tar_error option \<Rightarrow> (tar_error + tar_member) list) \<Rightarrow> (byte list \<times> tar_error option \<Rightarrow> (tar_error + tar_member) list)
    \<Rightarrow> (streamed_entry \<Rightarrow> 's \<Rightarrow> (tar_error + unit) \<times> 's) \<Rightarrow> byte list \<times> tar_error option \<Rightarrow> 's \<Rightarrow> (tar_error + unit) \<times> 's"
where
  "unpack_spec gz raw ap input s =
     (let (bs, failure) = input in
      if length bs < 2 \<and> failure \<noteq> None then (Err (the failure), s)
      else if bs = [] then (Err EmptyArchive, s)
      else if take 2 bs = [0x1f, 0x8b] then drain_entries ap (gz input) s
      else if length bs < 512 then (Err (case failure of Some e \<Rightarrow> e | None \<Rightarrow> TruncatedArchive), s)
      else drain_entries ap (raw input) s)"

lemma unpack_raw_spec:
  assumes "fst (contents src) \<noteq> []"
  shows "unpack_raw_checked (raw \<circ> contents) ap src s =
     (let (bs, failure) = contents src in
      if length bs < 512 then (Err (case failure of Some e \<Rightarrow> e | None \<Rightarrow> TruncatedArchive), s)
      else drain_entries ap (raw (bs, failure)) s)"
proof (cases "fill 512 [] src")
  case (Pair r src')
  show ?thesis
  proof (cases r)
    case (Inl e)
    then show ?thesis
      using fill_err [of 512 "[]" src e src'] Pair by (cases "contents src") (simp add: unpack_raw_checked_def)
  next
    case (Inr h)
    note ok = fill_ok [OF Pair [unfolded Inr]]
    show ?thesis
    proof (cases "length h < 512")
      case True
      then have "contents src = (h, None)"
        using ok(2,3) by simp
      then show ?thesis
        using Pair Inr True by (simp add: unpack_raw_checked_def)
    next
      case False
      then have "contents (Ok h # src') = contents src" "\<not> length (fst (contents src)) < 512"
        using ok(2) by auto
      then show ?thesis
        using Pair Inr False by (cases "contents src") (simp add: unpack_raw_checked_def del: contents.simps)
    qed
  qed
qed

text \<open>C35. 
  Sniffing loses nothing, however the input is split into reads: the outcome is that of looking at the whole input at
  once. The two sniffed bytes and the first header block reach the driver again, an empty input and a raw input
  shorter than one header are errors, and a read failure before the format is known is reported as it is.
\<close>

theorem sniffing_exact:
  "unpack_auto_from (gz \<circ> contents) (raw \<circ> contents) ap src s = unpack_spec gz raw ap (contents src) s"
proof (cases "fill 2 [] src")
  case (Pair r src')
  show ?thesis
  proof (cases r)
    case (Inl e)
    then show ?thesis
      using fill_err [of 2 "[]" src e src'] Pair by (cases "contents src") (simp add: unpack_auto_from_def unpack_from_def unpack_spec_def)
  next
    case (Inr h)
    note ok = fill_ok [OF Pair [unfolded Inr], simplified]
    have fill: "fill 2 [] src = (Ok h, src')"
      using Pair Inr by simp
    show ?thesis
    proof (cases "h = []")
      case True
      then show ?thesis
        using ok(2,3) fill by (simp add: unpack_auto_from_def unpack_from_def unpack_spec_def)
    next
      case False
      obtain bs f where c: "contents src = (bs, f)"
        by fastforce
      have again: "contents (Ok h # src') = (bs, f)" and h: "h = take 2 bs" and bs: "bs \<noteq> []"
        and short: "length bs < 2 \<longrightarrow> f = None"
        using ok False c by auto
      show ?thesis
      proof (cases "h = [0x1f, 0x8b]")
        case True
        then show ?thesis
          using fill c again h bs short by (auto simp: unpack_auto_from_def unpack_from_def unpack_spec_def simp del: contents.simps)
      next
        case plain: False
        have "unpack_auto_from (gz \<circ> contents) (raw \<circ> contents) ap src s = unpack_raw_checked (raw \<circ> contents) ap (Ok h # src') s"
          unfolding unpack_auto_from_def fill using plain False by simp
        also have "\<dots> = unpack_spec gz raw ap (bs, f) s"
          using unpack_raw_spec [of "Ok h # src'" raw ap s, unfolded again] plain bs short h
          unfolding unpack_spec_def by (auto simp del: contents.simps)
        finally show ?thesis
          unfolding c .
      qed
    qed
  qed
qed

section \<open>Manifest differences\<close>

text \<open>The length of a text in UTF-8: a scalar from 128 to 255 takes two bytes.\<close>

definition utf8_len :: "string \<Rightarrow> nat" where
  "utf8_len s = sum_list (map (\<lambda>c. if (of_char c :: nat) < 128 then 1 else 2) s)"

definition deletion_diff :: "string list \<Rightarrow> string list \<Rightarrow> string list \<Rightarrow> string list \<Rightarrow> string list \<times> string list" where
  "deletion_diff input_files input_dirs out_files out_dirs =
     (sort (filter (\<lambda>rel. rel \<notin> set out_files) input_files),
      sort_key (\<lambda>rel. (- int (utf8_len rel), rel)) (filter (\<lambda>rel. rel \<noteq> [] \<and> rel \<notin> set out_dirs) input_dirs))"

lemma utf8_len_prefix:
  assumes "strict_prefix a b"
  shows "utf8_len a < utf8_len b"
proof -
  obtain c cs where "b = a @ c # cs"
    using assms by (rule strict_prefixE')
  then show ?thesis
    by (simp add: utf8_len_def)
qed

text \<open>C39. 
  The difference of two manifests: exactly the entries that disappeared are listed, the root itself never, and a
  directory never comes before a path below it, so pruning in that order removes children before parents.
\<close>

theorem deletion_diff_exact:
  "(let (files, dirs) = deletion_diff input_files input_dirs out_files out_dirs in
      set files = set input_files - set out_files
    \<and> set dirs = set input_dirs - set out_dirs - {[]}
    \<and> sorted files
    \<and> sorted_wrt (\<lambda>a b. \<not> strict_prefix a b) dirs)"
proof -
  have "sorted_wrt (\<lambda>a b. \<not> strict_prefix a b) ds"
    if "sorted (map (\<lambda>rel. (- int (utf8_len rel), rel)) ds)" for ds
    using that
  proof (induction ds)
    case (Cons d ds)
    then show ?case
      using utf8_len_prefix by fastforce
  qed simp
  then show ?thesis
    by (auto simp: deletion_diff_def)
qed

section \<open>Hashing what is written\<close>

text \<open>
  The hashing writer around an inner writer: the hasher is the list of bytes fed to it, the inner writer accepts a
  front of the buffer or fails.
\<close>

record 'w hashing_writer =
  inner :: 'w
  hasher :: "byte list"
  hashed :: "64 word"

definition hw_new :: "'w \<Rightarrow> 'w hashing_writer" where
  "hw_new w = \<lparr>inner = w, hasher = [], hashed = 0\<rparr>"

definition hw_write ::
  "(byte list \<Rightarrow> 'w \<Rightarrow> (tar_error + nat) \<times> 'w) \<Rightarrow> byte list \<Rightarrow> 'w hashing_writer \<Rightarrow> (tar_error + nat) \<times> 'w hashing_writer"
where
  "hw_write wr buf h =
     (case wr buf (inner h) of
        (Inl e, w) \<Rightarrow> (Err e, h\<lparr>inner := w\<rparr>)
      | (Inr n, w) \<Rightarrow> (Ok n, h\<lparr>inner := w, hasher := hasher h @ take n buf, hashed := hashed h + of_nat n\<rparr>))"

definition hw_finish :: "(byte list \<Rightarrow> string) \<Rightarrow> 'w hashing_writer \<Rightarrow> 'w \<times> string" where
  "hw_finish sha256_hex h = (inner h, sha256_hex (hasher h))"

definition verify_sha256 :: "(byte list \<Rightarrow> string) \<Rightarrow> byte list \<Rightarrow> string \<Rightarrow> string + unit" where
  "verify_sha256 sha256_hex bs expected =
     (if sha256_hex bs \<noteq> expected then Err (sha256_hex bs) else Ok ())"

text \<open>A writer into memory that accepts at most \<open>k\<close> bytes at a time, and the writing of whole buffers through the hasher.\<close>

definition vec_write :: "nat \<Rightarrow> byte list \<Rightarrow> byte list \<Rightarrow> (tar_error + nat) \<times> byte list" where
  "vec_write k buf w = (Ok (min k (length buf)), w @ take k buf)"

lemma hw_write_tracks:
  assumes "hasher h = inner h"
  shows "hasher (snd (hw_write (vec_write k) buf h)) = inner (snd (hw_write (vec_write k) buf h))"
  using assms by (simp add: hw_write_def vec_write_def min_def)

text \<open>Whatever short writes happen, the digest of the finished writer verifies against the bytes that reached the inner writer.\<close>

theorem hashed_archive_verifies:
  "case hw_finish sha (fold (\<lambda>(k, buf) h. snd (hw_write (vec_write k) buf h)) writes (hw_new [])) of
     (bs, digest) \<Rightarrow> verify_sha256 sha bs digest = Ok ()"
proof -
  have "hasher (fold (\<lambda>(k, buf) h. snd (hw_write (vec_write k) buf h)) writes h)
      = inner (fold (\<lambda>(k, buf) h. snd (hw_write (vec_write k) buf h)) writes h)"
    if "hasher h = inner h" for h
    using that by (induction writes arbitrary: h) (auto simp: hw_write_tracks)
  from this [of "hw_new []"] show ?thesis
    by (simp add: hw_finish_def verify_sha256_def hw_new_def)
qed

end
