(* ===== verification/Import_Closure.thy ===== *)
theory Import_Closure
  imports Prelude
begin

text \<open>
  The two passes over the files a script imports (\<open>exec/import.rs\<close>): the expansion of the import closure before a
  run, which validates every file, and the preview of a dry run. A step is seen the way these passes see it, by the
  imports and the bodies it has. Reading, decoding and parsing a file, the joining of paths and the resolution of type
  names stand as the fields of a record. Shown: the expansion, which is a total function by the bound on the nesting,
  finds exactly the files reachable through visible imports, each once, and only if no file reaches itself; then the
  preview succeeds and lists the steps of the script in order and exactly the steps of these files. What stands in a
  script is written down apart from the walks, constructor by constructor.
\<close>

section \<open>Steps and files\<close>

text \<open>
  \<open>WithIoStep\<close> and \<open>CaptureStep\<close>, for \<open>LET\<close> captures, stand around one command; then the statements with one body,
  and \<open>IF\<close>. All other commands have neither imports nor bodies. The number of a step is its line.
\<close>

datatype ikind =
    ImportFile string string
  | ImportFuncs string "string option" "string list" "string list"
  | WithIoStep ikind
  | CaptureStep ikind
  | ForStep "istep list"
  | WhileStep "istep list"
  | FuncStep "istep list"
  | TimeoutStep "istep list"
  | IsolatedStep "istep list"
  | AssignAsyncStep "istep list"
  | AsyncStep "istep list"
  | RemoteStep "istep list"
  | IfStep "istep list" "istep list list" "istep list option"
  | OtherStep nat
and istep = IStep nat ikind

record parsed_file =
  p_steps :: "istep list"
  p_funcs :: "string list"
  p_types :: "string list"

datatype 'p import_error =
    Unresolved string | Cycle "'p list" | DepthLimit string | NotFound string | LoadFailed string | NoSuchType string

text \<open>
  The surroundings of a pass. A guarded path stands for itself and for its display form, which is the key of all
  tables: the root of all paths of a run is the same.
\<close>

record 'p import_world =
  w_join :: "'p \<Rightarrow> string \<Rightarrow> 'p option"
  w_parent :: "'p \<Rightarrow> 'p option"
  w_exists :: "'p \<Rightarrow> bool"
  w_load :: "'p \<Rightarrow> parsed_file option"
  w_host :: "string \<Rightarrow> bool"
  w_tag :: "string \<Rightarrow> bool"

definition MAX_IMPORT_DEPTH :: nat where
  "MAX_IMPORT_DEPTH = 32"

fun child_bodies :: "ikind \<Rightarrow> istep list list" where
  "child_bodies (WithIoStep k) = child_bodies k"
| "child_bodies (CaptureStep k) = child_bodies k"
| "child_bodies (ForStep b) = [b]"
| "child_bodies (WhileStep b) = [b]"
| "child_bodies (FuncStep b) = [b]"
| "child_bodies (TimeoutStep b) = [b]"
| "child_bodies (IsolatedStep b) = [b]"
| "child_bodies (AssignAsyncStep b) = [b]"
| "child_bodies (AsyncStep b) = [b]"
| "child_bodies (RemoteStep b) = [b]"
| "child_bodies (IfStep t es e) = t # es @ (case e of None \<Rightarrow> [] | Some b \<Rightarrow> [b])"
| "child_bodies _ = []"

text \<open>A loop whose body may fail.\<close>

fun fold_result :: "('a \<Rightarrow> 's \<Rightarrow> 'e + 's) \<Rightarrow> 'a list \<Rightarrow> 's \<Rightarrow> 'e + 's" where
  "fold_result f [] s = Ok s"
| "fold_result f (x # xs) s = bind_result (f x s) (fold_result f xs)"

lemma fold_result_cong [fundef_cong]:
  assumes "xs = ys" and "s = t" and "\<And>x u. x \<in> set ys \<Longrightarrow> f x u = g x u"
  shows "fold_result f xs s = fold_result g ys t"
  using assms by (induction ys arbitrary: xs s t) (auto intro!: bind_result_cong)

text \<open>Sequencing after a recursive call, whose outcome does not matter for termination.\<close>

definition and_then :: "'e + 'a \<Rightarrow> ('a \<Rightarrow> 'e + 'b) \<Rightarrow> 'e + 'b" where
  [result_simps]: "and_then r f = bind_result r f"

lemma and_then_cong [fundef_cong]: "r = r' \<Longrightarrow> (\<And>a. f a = g a) \<Longrightarrow> and_then r f = and_then r' g"
  by (metis ext)

lemma child_bodies_size: "b \<in> set (child_bodies k) \<Longrightarrow> size_list size b < size k"
proof (induction k rule: child_bodies.induct)
  case (11 t es e)
  then show ?case
    by (cases e) (auto dest: size_list_estimation' [where f = "size_list size" and y = "size_list size b"])
qed auto

section \<open>Loading\<close>

type_synonym 'p modules = "'p \<rightharpoonup> parsed_file"

definition load_file :: "'p import_world \<Rightarrow> 'p \<Rightarrow> 'p list \<Rightarrow> string \<Rightarrow> 'p modules \<Rightarrow> 'p import_error + ('p \<times> parsed_file) \<times> 'p modules" where
  "load_file w base stack path ms =
     (case w_join w base path of
        None \<Rightarrow> Err (Unresolved path)
      | Some r \<Rightarrow>
          if r \<in> set stack then Err (Cycle (stack @ [r]))
          else if MAX_IMPORT_DEPTH \<le> length stack then Err (DepthLimit path)
          else (case ms r of
              Some p \<Rightarrow> Ok ((r, p), ms)
            | None \<Rightarrow>
                (case w_load w r of
                   None \<Rightarrow> Err (LoadFailed path)
                 | Some p \<Rightarrow> Ok ((r, p), ms(r \<mapsto> p)))))"

definition expand_load :: "'p import_world \<Rightarrow> 'p \<Rightarrow> 'p list \<Rightarrow> string \<Rightarrow> 'p modules \<Rightarrow> 'p import_error + ('p \<times> parsed_file) \<times> 'p modules" where
  "expand_load w dir stack path ms =
     (case w_join w dir path of
        None \<Rightarrow> Err (Unresolved path)
      | Some r \<Rightarrow>
          if r \<in> set stack then Err (Cycle (stack @ [r]))
          else if MAX_IMPORT_DEPTH \<le> length stack then Err (DepthLimit path)
          else if \<not> w_exists w r then Err (NotFound path)
          else load_file w dir stack path ms)"

definition nested_dir :: "'p import_world \<Rightarrow> 'p \<Rightarrow> 'p \<Rightarrow> 'p" where
  "nested_dir w dir r = (case w_parent w r of None \<Rightarrow> dir | Some d \<Rightarrow> d)"

section \<open>Expansion\<close>

record closure_site =
  s_alias :: "string option"
  s_funcs :: "string list option"
  s_types :: "string list option"

record 'p closure_file =
  c_key :: 'p
  c_path :: string
  c_body :: parsed_file
  c_sites :: "closure_site list"

fun record_site :: "'p closure_file list \<Rightarrow> 'p \<Rightarrow> string \<Rightarrow> parsed_file \<Rightarrow> closure_site \<Rightarrow> 'p closure_file list" where
  "record_site [] key path p site = [\<lparr>c_key = key, c_path = path, c_body = p, c_sites = [site]\<rparr>]"
| "record_site (f # fs) key path p site =
     (if c_key f = key
      then (if site \<in> set (c_sites f) then f else f\<lparr>c_sites := c_sites f @ [site]\<rparr>) # fs
      else f # record_site fs key path p site)"

type_synonym 'p expansion = "'p modules \<times> 'p closure_file list"

text \<open>A harvest of types alone from a path that is no file but a module of the host loads nothing.\<close>

definition host_types_only :: "'p import_world \<Rightarrow> 'p \<Rightarrow> string \<Rightarrow> string list \<Rightarrow> string list \<Rightarrow> bool" where
  "host_types_only w dir path funcs types \<longleftrightarrow>
     funcs = [] \<and> types \<noteq> []
     \<and> \<not> (case w_join w dir path of None \<Rightarrow> False | Some r \<Rightarrow> w_exists w r) \<and> w_host w path"

text \<open>One import step: the file it loads, whether all of it is walked, and the table with its site.\<close>

fun visit_import ::
  "'p import_world \<Rightarrow> ikind \<Rightarrow> 'p \<Rightarrow> 'p list \<Rightarrow> 'p expansion \<Rightarrow> 'p import_error + (bool \<times> 'p \<times> parsed_file) option \<times> 'p expansion"
where
  "visit_import w (ImportFile path alias) dir stack (ms, fs) =
     bind_result (expand_load w dir stack path ms) (\<lambda>((r, p), ms').
       Ok (Some (True, r, p), ms', record_site fs r path p \<lparr>s_alias = Some alias, s_funcs = None, s_types = None\<rparr>))"
| "visit_import w (ImportFuncs path alias funcs types) dir stack (ms, fs) =
     (if host_types_only w dir path funcs types
      then (case filter (\<lambda>t. \<not> w_tag w t) types of [] \<Rightarrow> Ok (None, ms, fs) | t # _ \<Rightarrow> Err (NoSuchType t))
      else bind_result (expand_load w dir stack path ms) (\<lambda>((r, p), ms').
        Ok (Some (False, r, p), ms', record_site fs r path p \<lparr>s_alias = alias, s_funcs = Some funcs, s_types = Some types\<rparr>)))"
| "visit_import w k dir stack st = Ok (None, st)"

lemma load_file_depth: "load_file w dir stack path ms = Ok ((r, p), ms') \<Longrightarrow> length stack < MAX_IMPORT_DEPTH \<and> r \<notin> set stack"
  by (auto simp: load_file_def split: option.splits if_splits)

lemma expand_load_depth: "expand_load w dir stack path ms = Ok ((r, p), ms') \<Longrightarrow> length stack < MAX_IMPORT_DEPTH \<and> r \<notin> set stack"
  by (auto simp: expand_load_def dest: load_file_depth split: option.splits if_splits)

lemma visit_import_depth: "visit_import w k dir stack st = Ok (Some t, st') \<Longrightarrow> length stack < MAX_IMPORT_DEPTH"
  by (induction w k dir stack st rule: visit_import.induct)
    (auto simp: result_simps dest: expand_load_depth split: if_splits list.splits)

text \<open>
  The walk over steps. The walk of a whole file also enters the bodies of its steps; that of a harvested file looks at
  its top level only. The stack holds the files being walked.
\<close>

function expand_steps :: "'p import_world \<Rightarrow> bool \<Rightarrow> istep list \<Rightarrow> 'p \<Rightarrow> 'p list \<Rightarrow> 'p expansion \<Rightarrow> 'p import_error + 'p expansion" where
  "expand_steps w full [] dir stack st = Ok st"
| "expand_steps w full (IStep n k # ss) dir stack st =
     bind_result (visit_import w k dir stack st) (\<lambda>(t, st1).
     and_then (case t of
         None \<Rightarrow> Ok st1
       | Some (all, r, p) \<Rightarrow> expand_steps w all (p_steps p) (nested_dir w dir r) (stack @ [r]) st1) (\<lambda>st2.
     and_then (if full then fold_result (\<lambda>b. expand_steps w True b dir stack) (child_bodies k) st2 else Ok st2) (\<lambda>st3.
       expand_steps w full ss dir stack st3)))"
  by pat_completeness auto
termination
  by (relation "measures [\<lambda>(w, full, ss, dir, stack, st). MAX_IMPORT_DEPTH - length stack, \<lambda>(w, full, ss, dir, stack, st). size_list size ss]")
    (auto dest!: visit_import_depth child_bodies_size)

definition expand_walk :: "'p import_world \<Rightarrow> istep list \<Rightarrow> 'p \<Rightarrow> 'p list \<Rightarrow> 'p expansion \<Rightarrow> 'p import_error + 'p expansion" where
  "expand_walk w = expand_steps w True"

definition expand_walk_top :: "'p import_world \<Rightarrow> istep list \<Rightarrow> 'p \<Rightarrow> 'p list \<Rightarrow> 'p expansion \<Rightarrow> 'p import_error + 'p expansion" where
  "expand_walk_top w = expand_steps w False"

definition expand_import_closure :: "'p import_world \<Rightarrow> 'p modules \<Rightarrow> istep list \<Rightarrow> 'p \<Rightarrow> 'p import_error + 'p closure_file list" where
  "expand_import_closure w ms steps base = bind_result (expand_walk w steps base [] (ms, [])) (\<lambda>(ms', fs). Ok fs)"

section \<open>The preview\<close>

text \<open>The listing of a dry run: every step with the file it is in; none is the entry script.\<close>

type_synonym 'p preview = "'p modules \<times> ('p option \<times> istep) list"

definition dry_run_load :: "'p import_world \<Rightarrow> 'p \<Rightarrow> string \<Rightarrow> 'p list \<Rightarrow> 'p modules \<Rightarrow> 'p import_error + ('p \<times> parsed_file) \<times> 'p modules" where
  "dry_run_load w dir path stack cache =
     (case w_join w dir path of
        None \<Rightarrow> Err (Unresolved path)
      | Some r \<Rightarrow>
          if r \<in> set stack then Err (Cycle (stack @ [r]))
          else if MAX_IMPORT_DEPTH \<le> length stack then Err (DepthLimit path)
          else (case cache r of
              Some p \<Rightarrow> Ok ((r, p), cache)
            | None \<Rightarrow>
                (case w_load w r of
                   None \<Rightarrow> Err (LoadFailed path)
                 | Some p \<Rightarrow> Ok ((r, p), cache(r \<mapsto> p)))))"

fun is_import :: "ikind \<Rightarrow> bool" where
  "is_import (ImportFile path alias) = True"
| "is_import (ImportFuncs path alias funcs types) = True"
| "is_import _ = False"

fun step_kind_of :: "istep \<Rightarrow> ikind" where
  "step_kind_of (IStep n k) = k"

definition top_imports :: "istep list \<Rightarrow> istep list" where
  "top_imports steps = filter (\<lambda>s. is_import (step_kind_of s)) steps"

fun dry_import :: "'p import_world \<Rightarrow> ikind \<Rightarrow> 'p \<Rightarrow> 'p list \<Rightarrow> 'p modules \<Rightarrow> 'p import_error + (bool \<times> 'p \<times> parsed_file) option \<times> 'p modules" where
  "dry_import w (ImportFile path alias) dir stack cache =
     bind_result (dry_run_load w dir path stack cache) (\<lambda>((r, p), cache'). Ok (Some (True, r, p), cache'))"
| "dry_import w (ImportFuncs path alias funcs types) dir stack cache =
     (case dry_run_load w dir path stack cache of
        Inr ((r, p), cache') \<Rightarrow> Ok (Some (False, r, p), cache')
      | Inl e \<Rightarrow> if funcs = [] \<and> types \<noteq> [] \<and> w_host w path then Ok (None, cache) else Err e)"
| "dry_import w k dir stack cache = Ok (None, cache)"

lemma dry_run_load_depth: "dry_run_load w dir path stack c = Ok ((r, p), c') \<Longrightarrow> length stack < MAX_IMPORT_DEPTH"
  by (auto simp: dry_run_load_def split: option.splits if_splits)

lemma dry_import_depth: "dry_import w k dir stack c = Ok (Some t, c') \<Longrightarrow> length stack < MAX_IMPORT_DEPTH"
  by (induction w k dir stack c rule: dry_import.induct)
    (auto simp: result_simps dest: dry_run_load_depth split: sum.splits if_splits)

text \<open>
  The walk lists the steps of a whole file as it meets them, and the top-level imports of a harvested file before it
  follows them.
\<close>

function dry_steps :: "'p import_world \<Rightarrow> bool \<Rightarrow> istep list \<Rightarrow> 'p option \<Rightarrow> 'p \<Rightarrow> 'p list \<Rightarrow> 'p preview \<Rightarrow> 'p import_error + 'p preview" where
  "dry_steps w full [] file dir stack st = Ok st"
| "dry_steps w full (IStep n k # ss) file dir stack (cache, out) =
     (let out1 = (if full then out @ [(file, IStep n k)] else out) in
      bind_result (dry_import w k dir stack cache) (\<lambda>(t, cache1).
      and_then (case t of
          None \<Rightarrow> Ok (cache1, out1)
        | Some (all, r, p) \<Rightarrow>
            dry_steps w all (p_steps p) (Some r) (nested_dir w dir r) (stack @ [r])
              (cache1, if all then out1 else out1 @ map (Pair (Some r)) (top_imports (p_steps p)))) (\<lambda>st2.
      and_then (if full then fold_result (\<lambda>b. dry_steps w True b file dir stack) (child_bodies k) st2 else Ok st2) (\<lambda>st3.
        dry_steps w full ss file dir stack st3))))"
  by pat_completeness auto
termination
  by (relation "measures [\<lambda>(w, full, ss, file, dir, stack, st). MAX_IMPORT_DEPTH - length stack, \<lambda>(w, full, ss, file, dir, stack, st). size_list size ss]")
    (auto dest!: dry_import_depth child_bodies_size)

definition dry_run_walk :: "'p import_world \<Rightarrow> istep list \<Rightarrow> 'p option \<Rightarrow> 'p \<Rightarrow> 'p list \<Rightarrow> 'p preview \<Rightarrow> 'p import_error + 'p preview" where
  "dry_run_walk w = dry_steps w True"

definition dry_run_walk_top_imports :: "'p import_world \<Rightarrow> istep list \<Rightarrow> 'p option \<Rightarrow> 'p \<Rightarrow> 'p list \<Rightarrow> 'p preview \<Rightarrow> 'p import_error + 'p preview" where
  "dry_run_walk_top_imports w steps file dir stack st =
     dry_steps w False steps file dir stack (fst st, snd st @ map (Pair file) (top_imports steps))"

definition dry_run_closure :: "'p import_world \<Rightarrow> istep list \<Rightarrow> 'p \<Rightarrow> 'p import_error + ('p option \<times> istep) list" where
  "dry_run_closure w steps base = bind_result (dry_run_walk w steps None base [] (Map.empty, [])) (\<lambda>(cache, out). Ok out)"

section \<open>Reachable files\<close>

text \<open>The file an import step names in a directory, and whether all of it is loaded.\<close>

fun target_of :: "'p import_world \<Rightarrow> 'p \<Rightarrow> ikind \<Rightarrow> (bool \<times> 'p) option" where
  "target_of w dir (ImportFile path alias) = map_option (Pair True) (w_join w dir path)"
| "target_of w dir (ImportFuncs path alias funcs types) =
     (if host_types_only w dir path funcs types then None else map_option (Pair False) (w_join w dir path))"
| "target_of w dir k = None"

text \<open>
  What stands in a script, written down without the walks: the steps of a list in the order of the text, each followed
  by the steps of the bodies it encloses. The command a step captures or redirects is part of that step and no step of
  its own; the bodies of such a command count.
\<close>

function inner_steps :: "ikind \<Rightarrow> istep list" and all_steps :: "istep list \<Rightarrow> istep list" where
  "inner_steps (ImportFile path alias) = []"
| "inner_steps (ImportFuncs path alias funcs types) = []"
| "inner_steps (WithIoStep k) = inner_steps k"
| "inner_steps (CaptureStep k) = inner_steps k"
| "inner_steps (ForStep b) = all_steps b"
| "inner_steps (WhileStep b) = all_steps b"
| "inner_steps (FuncStep b) = all_steps b"
| "inner_steps (TimeoutStep b) = all_steps b"
| "inner_steps (IsolatedStep b) = all_steps b"
| "inner_steps (AssignAsyncStep b) = all_steps b"
| "inner_steps (AsyncStep b) = all_steps b"
| "inner_steps (RemoteStep b) = all_steps b"
| "inner_steps (IfStep t es None) = all_steps t @ concat (map all_steps es)"
| "inner_steps (IfStep t es (Some e)) = all_steps t @ concat (map all_steps es) @ all_steps e"
| "inner_steps (OtherStep n) = []"
| "all_steps [] = []"
| "all_steps (IStep n k # ss) = IStep n k # inner_steps k @ all_steps ss"
  by pat_completeness auto
termination
  by (relation "measure (case_sum size (size_list size))")
    (auto dest: size_list_estimation' [where f = "size_list size", OF _ order_refl])

lemma inner_steps_child_bodies: "inner_steps k = concat (map all_steps (child_bodies k))"
proof (induction k rule: child_bodies.induct)
  case (11 t es e)
  then show ?case
    by (cases e) simp_all
qed simp_all

text \<open>The visible imports: those that stand as steps of their own, at any depth or at the top level only.\<close>

definition visible_imports :: "bool \<Rightarrow> istep list \<Rightarrow> ikind set" where
  "visible_imports full steps = {k. is_import k \<and> (\<exists>n. IStep n k \<in> set (if full then all_steps steps else steps))}"

lemma visible_imports_Nil [simp]: "visible_imports full [] = {}"
  by (simp add: visible_imports_def)

lemma visible_imports_Cons:
  "visible_imports full (IStep n k # ss) =
     (if is_import k then {k} else {})
     \<union> (if full then \<Union>b \<in> set (child_bodies k). visible_imports True b else {}) \<union> visible_imports full ss"
  by (auto simp: visible_imports_def inner_steps_child_bodies)

text \<open>
  Reachability through visible imports, from the steps of a file in a directory: an import leads to its file, and on to
  what is reachable from there, from all of its steps or from its top level.
\<close>

inductive reaches :: "'p import_world \<Rightarrow> bool \<Rightarrow> istep list \<Rightarrow> 'p \<Rightarrow> bool \<times> 'p \<times> 'p \<Rightarrow> bool" for w where
  direct: "k \<in> visible_imports full steps \<Longrightarrow> target_of w dir k = Some (all, r)
    \<Longrightarrow> reaches w full steps dir (all, r, nested_dir w dir r)"
| onward: "k \<in> visible_imports full steps \<Longrightarrow> target_of w dir k = Some (all, r) \<Longrightarrow> w_load w r = Some p
    \<Longrightarrow> reaches w all (p_steps p) (nested_dir w dir r) t \<Longrightarrow> reaches w full steps dir t"

definition reach_set :: "'p import_world \<Rightarrow> bool \<Rightarrow> istep list \<Rightarrow> 'p \<Rightarrow> (bool \<times> 'p \<times> 'p) set" where
  "reach_set w full steps dir = {t. reaches w full steps dir t}"

definition beyond :: "'p import_world \<Rightarrow> 'p \<Rightarrow> ikind \<Rightarrow> (bool \<times> 'p \<times> 'p) set" where
  "beyond w dir k = (case target_of w dir k of
       None \<Rightarrow> {}
     | Some (all, r) \<Rightarrow> insert (all, r, nested_dir w dir r)
         (case w_load w r of None \<Rightarrow> {} | Some p \<Rightarrow> reach_set w all (p_steps p) (nested_dir w dir r)))"

lemma reach_set_beyond: "reach_set w full steps dir = (\<Union>k \<in> visible_imports full steps. beyond w dir k)"
proof (intro equalityI subsetI)
  fix t
  assume "t \<in> reach_set w full steps dir"
  then have "reaches w full steps dir t"
    by (simp add: reach_set_def)
  then have "\<exists>k \<in> visible_imports full steps. t \<in> beyond w dir k"
  proof cases
    case (direct k all r)
    then have "t \<in> beyond w dir k"
      by (simp add: beyond_def)
    then show ?thesis
      using direct(2) by blast
  next
    case (onward k all r p)
    then have "t \<in> beyond w dir k"
      by (simp add: beyond_def reach_set_def)
    then show ?thesis
      using onward(1) by blast
  qed
  then show "t \<in> (\<Union>k \<in> visible_imports full steps. beyond w dir k)"
    by blast
next
  fix t
  assume "t \<in> (\<Union>k \<in> visible_imports full steps. beyond w dir k)"
  then obtain k where "k \<in> visible_imports full steps" "t \<in> beyond w dir k"
    by blast
  moreover from this(2) obtain all r where "target_of w dir k = Some (all, r)"
    by (cases "target_of w dir k") (auto simp: beyond_def)
  ultimately have k: "k \<in> visible_imports full steps" "target_of w dir k = Some (all, r)" "t \<in> beyond w dir k"
    by blast+
  then show "t \<in> reach_set w full steps dir"
    using k(2,3) reaches.direct [OF k(1,2)]
    by (auto simp: reach_set_def beyond_def intro: reaches.onward [OF k(1,2)] split: option.splits)
qed

lemma target_of_import: "\<not> is_import k \<Longrightarrow> target_of w dir k = None"
  by (cases k) auto

lemma reach_set_Cons:
  "reach_set w full (IStep n k # ss) dir =
     beyond w dir k \<union> (if full then \<Union>b \<in> set (child_bodies k). reach_set w True b dir else {}) \<union> reach_set w full ss dir"
proof -
  have "\<not> is_import k \<Longrightarrow> beyond w dir k = {}"
    by (simp add: beyond_def target_of_import)
  then show ?thesis
    by (auto simp: reach_set_beyond visible_imports_Cons)
qed

lemma reach_set_Nil [simp]: "reach_set w full [] dir = {}"
  by (simp add: reach_set_beyond)

section \<open>The closure is exact\<close>

definition cache_ok :: "'p import_world \<Rightarrow> 'p modules \<Rightarrow> bool" where
  "cache_ok w ms \<longleftrightarrow> (\<forall>r p. ms r = Some p \<longrightarrow> w_load w r = Some p)"

definition files_ok :: "'p import_world \<Rightarrow> 'p closure_file list \<Rightarrow> bool" where
  "files_ok w fs \<longleftrightarrow> distinct (map c_key fs) \<and> (\<forall>f \<in> set fs. w_load w (c_key f) = Some (c_body f) \<and> c_sites f \<noteq> [])"

definition leads_back :: "'p import_world \<Rightarrow> bool \<times> 'p \<times> 'p \<Rightarrow> bool" where
  "leads_back w t = (case t of (all, r, d) \<Rightarrow>
     \<exists>p. w_load w r = Some p \<and> r \<in> (fst \<circ> snd) ` reach_set w all (p_steps p) d)"

text \<open>What a walk that reaches the files \<open>A\<close> does to the tables.\<close>

definition extends :: "'p import_world \<Rightarrow> 'p list \<Rightarrow> (bool \<times> 'p \<times> 'p) set \<Rightarrow> 'p expansion \<Rightarrow> 'p expansion \<Rightarrow> bool" where
  "extends w stack A st st' \<longleftrightarrow>
     cache_ok w (fst st') \<and> files_ok w (snd st')
     \<and> c_key ` set (snd st') = c_key ` set (snd st) \<union> (fst \<circ> snd) ` A
     \<and> (\<forall>t \<in> A. fst (snd t) \<notin> set stack \<and> \<not> leads_back w t \<and> w_load w (fst (snd t)) \<noteq> None)"

definition good :: "'p import_world \<Rightarrow> 'p expansion \<Rightarrow> bool" where
  "good w st \<longleftrightarrow> cache_ok w (fst st) \<and> files_ok w (snd st)"

lemma extends_good: "extends w stack A st st' \<Longrightarrow> good w st'"
  by (simp add: extends_def good_def)

lemma extends_refl: "good w st \<Longrightarrow> extends w stack {} st st"
  by (simp add: extends_def good_def)

lemma extends_trans: "extends w stack A s t \<Longrightarrow> extends w stack B t u \<Longrightarrow> extends w stack (A \<union> B) s u"
  unfolding extends_def by (auto simp: image_Un)

lemma record_site_ok:
  assumes "files_ok w fs" and "w_load w r = Some p"
  shows "files_ok w (record_site fs r path p site) \<and> c_key ` set (record_site fs r path p site) = insert r (c_key ` set fs)"
proof -
  have "map c_key (record_site fs r path p site) = (if r \<in> c_key ` set fs then map c_key fs else map c_key fs @ [r])"
    by (induction fs) auto
  moreover have "\<forall>f \<in> set (record_site fs r path p site). w_load w (c_key f) = Some (c_body f) \<and> c_sites f \<noteq> []"
    if "\<forall>f \<in> set fs. w_load w (c_key f) = Some (c_body f) \<and> c_sites f \<noteq> []"
    using that assms(2) by (induction fs) (simp_all, fastforce)
  ultimately show ?thesis
    using assms(1) unfolding files_ok_def set_map [symmetric] by (auto split: if_splits)
qed

lemma expand_load_ok:
  assumes "expand_load w dir stack path ms = Ok ((r, p), ms')" and "cache_ok w ms"
  shows "w_join w dir path = Some r \<and> w_load w r = Some p \<and> cache_ok w ms' \<and> r \<notin> set stack"
  using assms by (auto simp: expand_load_def load_file_def cache_ok_def split: option.splits if_splits)

lemma visit_import_ok:
  assumes "visit_import w k dir stack st = Ok (t, st')" and "good w st"
  shows "good w st'
    \<and> (case t of
         None \<Rightarrow> target_of w dir k = None \<and> st' = st
       | Some (all, r, p) \<Rightarrow> target_of w dir k = Some (all, r) \<and> w_load w r = Some p \<and> r \<notin> set stack
           \<and> c_key ` set (snd st') = insert r (c_key ` set (snd st)))"
  using assms
  by (induction w k dir stack st rule: visit_import.induct)
    (auto simp: result_simps good_def record_site_ok dest!: expand_load_ok split: if_splits list.splits)

lemma fold_extends:
  assumes "fold_result f bs st = Ok st'" and "good w st"
    and "\<And>b s s'. b \<in> set bs \<Longrightarrow> f b s = Ok s' \<Longrightarrow> good w s \<Longrightarrow> extends w stack (A b) s s'"
  shows "extends w stack (\<Union>b \<in> set bs. A b) st st'"
  using assms
proof (induction bs arbitrary: st)
  case (Cons b bs)
  then obtain s where s: "f b st = Ok s" "fold_result f bs s = Ok st'"
    by (auto simp: result_simps)
  have "extends w stack (A b) st s"
    using Cons.prems s by simp
  moreover from this have "extends w stack (\<Union>b \<in> set bs. A b) s st'"
    using Cons s extends_good by (metis list.set_intros(2))
  ultimately show ?case
    using extends_trans by fastforce
qed (simp add: extends_refl)

lemma expand_steps_ConsE:
  assumes "expand_steps w full (IStep n k # ss) dir stack st = Ok st'"
  obtains t st1 st2 st3 where "visit_import w k dir stack st = Ok (t, st1)"
    and "(case t of None \<Rightarrow> Ok st1
        | Some (all, r, p) \<Rightarrow> expand_steps w all (p_steps p) (nested_dir w dir r) (stack @ [r]) st1) = Ok st2"
    and "(if full then fold_result (\<lambda>b. expand_steps w True b dir stack) (child_bodies k) st2 else Ok st2) = Ok st3"
    and "expand_steps w full ss dir stack st3 = Ok st'"
  using assms by (auto simp: result_simps)

lemma expand_steps_extends:
  assumes "expand_steps w full steps dir stack st = Ok st'" and "good w st"
  shows "extends w stack (reach_set w full steps dir) st st'"
  using assms
proof (induction w full steps dir stack st arbitrary: st' rule: expand_steps.induct [case_names Nil Cons])
  case (Cons w full n k ss dir stack st)
  obtain t st1 st2 st3 where v: "visit_import w k dir stack st = Ok (t, st1)"
      and n: "(case t of None \<Rightarrow> Ok st1
        | Some (all, r, p) \<Rightarrow> expand_steps w all (p_steps p) (nested_dir w dir r) (stack @ [r]) st1) = Ok st2"
      and b: "(if full then fold_result (\<lambda>b. expand_steps w True b dir stack) (child_bodies k) st2 else Ok st2) = Ok st3"
      and ss: "expand_steps w full ss dir stack st3 = Ok st'"
    using Cons.prems(1) by (rule expand_steps_ConsE)
  note visit = visit_import_ok [OF v Cons.prems(2)]
  have 1: "extends w stack (beyond w dir k) st st2"
  proof (cases t)
    case None
    then show ?thesis
      using n visit Cons.prems(2) by (simp add: beyond_def extends_refl)
  next
    case (Some arp)
    then obtain all r p where t: "t = Some (all, r, p)"
      by (cases arp) auto
    have "extends w (stack @ [r]) (reach_set w all (p_steps p) (nested_dir w dir r)) st1 st2"
      using Cons.IH(1) [OF v refl t refl refl] n visit t by simp
    then show ?thesis
      using visit t by (auto simp: extends_def beyond_def leads_back_def)
  qed
  then have g2: "good w st2"
    by (rule extends_good)
  have 2: "extends w stack (if full then \<Union>b \<in> set (child_bodies k). reach_set w True b dir else {}) st2 st3"
  proof (cases full)
    case True
    then show ?thesis
      using b Cons.IH(2) [OF v refl True] g2 by (auto intro!: fold_extends)
  next
    case False
    then show ?thesis
      using b g2 by (simp add: extends_refl)
  qed
  then have "extends w stack (reach_set w full ss dir) st3 st'"
    using Cons.IH(3) [OF v refl] ss extends_good by blast
  with 1 2 show ?case
    unfolding reach_set_Cons by (blast intro: extends_trans)
qed (simp add: extends_refl)

text \<open>C18. 
  An expansion that succeeds, over modules loaded before from the same files, has found exactly the files reachable
  from the script through visible imports, those that stand as steps of their own at any depth of the script and of the
  files imported whole, and at the top level of the files only harvested; each file once, with the contents it was read
  with and at least one site. No reachable file leads back to itself. An import whose result is captured is not visible.
\<close>

theorem import_closure_exact:
  assumes "expand_import_closure w ms steps base = Ok fs" and "cache_ok w ms"
  shows "c_key ` set fs = (fst \<circ> snd) ` reach_set w True steps base
    \<and> distinct (map c_key fs)
    \<and> (\<forall>f \<in> set fs. w_load w (c_key f) = Some (c_body f) \<and> c_sites f \<noteq> [])
    \<and> (\<forall>t \<in> reach_set w True steps base. \<not> leads_back w t)"
proof -
  obtain ms' where "expand_steps w True steps base [] (ms, []) = Ok (ms', fs)"
    using assms(1) by (auto simp: expand_import_closure_def expand_walk_def result_simps)
  then have "extends w [] (reach_set w True steps base) (ms, []) (ms', fs)"
    using assms(2) by (intro expand_steps_extends) (simp_all add: good_def files_ok_def)
  then show ?thesis
    by (simp add: extends_def files_ok_def)
qed

section \<open>The preview agrees\<close>

text \<open>What a preview lists of a reachable file: everything, or its top-level imports if it is only harvested.\<close>

definition listed :: "'p import_world \<Rightarrow> (bool \<times> 'p \<times> 'p) set \<Rightarrow> ('p option \<times> istep) set" where
  "listed w A = (\<Union>(all, r, d) \<in> A.
     case w_load w r of
       None \<Rightarrow> {}
     | Some p \<Rightarrow> Pair (Some r) ` set (if all then all_steps (p_steps p) else top_imports (p_steps p)))"

lemma listed_Un: "listed w (A \<union> B) = listed w A \<union> listed w B"
  by (auto simp: listed_def)

lemma listed_empty [simp]: "listed w {} = {}"
  by (simp add: listed_def)

lemma listed_UN: "listed w (\<Union>b \<in> B. A b) = (\<Union>b \<in> B. listed w (A b))"
  by (auto simp: listed_def)

lemma listed_insert: "listed w (insert t A) = listed w {t} \<union> listed w A"
  using listed_Un [of w "{t}" A] by simp

text \<open>A file that can be read exists.\<close>

definition loads_exist :: "'p import_world \<Rightarrow> bool" where
  "loads_exist w \<longleftrightarrow> (\<forall>r. w_load w r \<noteq> None \<longrightarrow> w_exists w r)"

lemmas expand_steps_good = expand_steps_extends [THEN extends_good]

lemma dry_import_follows:
  assumes "visit_import w k dir stack st = Ok (t, st')" and "good w st" and "cache_ok w cache" and "loads_exist w"
  shows "\<exists>cache'. dry_import w k dir stack cache = Ok (t, cache') \<and> cache_ok w cache'"
  using assms
proof (induction w k dir stack st rule: visit_import.induct)
  case (1 w path al dir stack ms fs)
  then obtain r p ms' where l: "expand_load w dir stack path ms = Ok ((r, p), ms')" "t = Some (True, r, p)"
    by (auto simp: result_simps)
  then show ?case
    using 1 expand_load_ok [OF l(1)] expand_load_depth [OF l(1)]
    by (auto simp: dry_run_load_def good_def cache_ok_def split: option.splits)
next
  case (2 w path al funcs types dir stack ms fs)
  show ?case
  proof (cases "host_types_only w dir path funcs types")
    case True
    then have "\<exists>e. dry_run_load w dir path stack cache = Err e"
      using 2(3,4) by (auto simp: host_types_only_def dry_run_load_def cache_ok_def loads_exist_def split: option.splits)
    then show ?thesis
      using True 2 by (auto simp: host_types_only_def split: list.splits)
  next
    case False
    then obtain r p ms' where l: "expand_load w dir stack path ms = Ok ((r, p), ms')" "t = Some (False, r, p)"
      using 2(1) by (auto simp: result_simps)
    then show ?thesis
      using 2 expand_load_ok [OF l(1)] expand_load_depth [OF l(1)]
      by (auto simp: dry_run_load_def good_def cache_ok_def split: option.splits)
  qed
qed auto

text \<open>A preview step list: what is appended to the output, and that the cache stays right.\<close>

definition previews :: "'p import_world \<Rightarrow> ('p option \<times> istep) set \<Rightarrow> 'p import_error + 'p preview \<Rightarrow> ('p option \<times> istep) list \<Rightarrow> bool" where
  "previews w L r out \<longleftrightarrow> (\<exists>cache' out'. r = Ok (cache', out') \<and> cache_ok w cache' \<and> set out' = set out \<union> L)"

lemma previews_bind:
  assumes "previews w A r out" and "\<And>c o'. r = Ok (c, o') \<Longrightarrow> cache_ok w c \<Longrightarrow> previews w B (f (c, o')) o'"
  shows "previews w (A \<union> B) (bind_result r f) out"
proof -
  obtain c o' where r: "r = Ok (c, o')" "cache_ok w c" "set o' = set out \<union> A"
    using assms(1) by (auto simp: previews_def)
  then have "previews w B (f (c, o')) o'"
    by (intro assms(2))
  then show ?thesis
    using r by (auto simp: previews_def)
qed

lemma previews_more: "previews w A r out1 \<Longrightarrow> set out1 = set out \<union> B \<Longrightarrow> previews w (B \<union> A) r out"
  by (auto simp: previews_def)

lemma previews_none: "cache_ok w c \<Longrightarrow> previews w {} (Ok (c, out)) out"
  by (simp add: previews_def)

lemma fold_previews:
  assumes "\<And>b s s' cache out. b \<in> set bs \<Longrightarrow> f b s = Ok s' \<Longrightarrow> good w s \<Longrightarrow> cache_ok w cache \<Longrightarrow> previews w (L b) (g b (cache, out)) out"
    and "\<And>b s s'. b \<in> set bs \<Longrightarrow> f b s = Ok s' \<Longrightarrow> good w s \<Longrightarrow> good w s'"
    and "fold_result f bs st = Ok st'" and "good w st" and "cache_ok w cache"
  shows "previews w (\<Union>b \<in> set bs. L b) (fold_result g bs (cache, out)) out"
  using assms
proof (induction bs arbitrary: st cache out)
  case (Cons b bs)
  obtain s where s: "f b st = Ok s" "fold_result f bs s = Ok st'"
    using Cons.prems(3) by (auto simp: result_simps)
  have gs: "good w s"
    using Cons.prems(2,4) s(1) by (meson list.set_intros(1))
  have rest: "previews w (\<Union>b \<in> set bs. L b) (fold_result g bs (c, o')) o'" if "cache_ok w c" for c o'
    by (rule Cons.IH [OF _ _ s(2) gs that]) (use Cons.prems(1,2) in \<open>meson list.set_intros(2)\<close>)+
  have "previews w (L b) (g b (cache, out)) out"
    using Cons.prems(1) [of b st s cache out] s(1) Cons.prems(4,5) by simp
  from previews_bind [OF this rest] show ?case
    by simp
qed (simp add: previews_none)

lemma fold_expand_good:
  assumes "(if full then fold_result (\<lambda>b. expand_steps w True b dir stack) bs st else Ok st) = Ok st'" and "good w st"
  shows "good w st'"
proof (cases full)
  case True
  then have "extends w stack (\<Union>b \<in> set bs. reach_set w True b dir) st st'"
    using assms by (auto intro!: fold_extends [OF _ assms(2)] expand_steps_extends)
  then show ?thesis
    by (rule extends_good)
qed (use assms in simp)

text \<open>Entering the target of an import: its listing is that of the file and of what lies beyond it.\<close>

lemma previews_target:
  assumes "target_of w dir k = Some (all, r)" and "w_load w r = Some p"
    and "previews w ((if all then Pair (Some r) ` set (all_steps (p_steps p)) else {})
        \<union> listed w (reach_set w all (p_steps p) (nested_dir w dir r))) res mid"
    and "mid = (if all then out else out @ map (Pair (Some r)) (top_imports (p_steps p)))"
  shows "previews w (listed w (beyond w dir k)) res out"
proof -
  have "listed w (beyond w dir k) = Pair (Some r) ` set (if all then all_steps (p_steps p) else top_imports (p_steps p))
      \<union> listed w (reach_set w all (p_steps p) (nested_dir w dir r))"
    using assms(1,2) listed_insert [of w "(all, r, nested_dir w dir r)"] by (simp add: beyond_def listed_def)
  then show ?thesis
    using assms(3,4) by (cases all) (auto simp: previews_def)
qed

lemma dry_steps_follow:
  assumes "expand_steps w full steps dir stack st = Ok st'" and "good w st" and "cache_ok w cache" and "loads_exist w"
  shows "previews w ((if full then Pair fl ` set (all_steps steps) else {}) \<union> listed w (reach_set w full steps dir))
    (dry_steps w full steps fl dir stack (cache, out)) out"
  using assms
proof (induction w full steps dir stack st arbitrary: st' fl cache out rule: expand_steps.induct [case_names Nil Cons])
  case (Cons w full n k ss dir stack st)
  obtain t st1 st2 st3 where v: "visit_import w k dir stack st = Ok (t, st1)"
      and n: "(case t of None \<Rightarrow> Ok st1
        | Some (all, r, p) \<Rightarrow> expand_steps w all (p_steps p) (nested_dir w dir r) (stack @ [r]) st1) = Ok st2"
      and b: "(if full then fold_result (\<lambda>b. expand_steps w True b dir stack) (child_bodies k) st2 else Ok st2) = Ok st3"
      and ss: "expand_steps w full ss dir stack st3 = Ok st'"
    using Cons.prems(1) by (rule expand_steps_ConsE)
  note visit = visit_import_ok [OF v Cons.prems(2)]
  obtain cache1 where d: "dry_import w k dir stack cache = Ok (t, cache1)" "cache_ok w cache1"
    using dry_import_follows [OF v Cons.prems(2,3,4)] by blast
  have g2: "good w st2"
    using n visit by (auto intro: expand_steps_good split: option.splits prod.splits)
  define out1 where "out1 = (if full then out @ [(fl, IStep n k)] else out)"
  have target: "previews w (listed w (beyond w dir k))
      (case t of None \<Rightarrow> Ok (cache1, out1)
       | Some (all, r, p) \<Rightarrow> dry_steps w all (p_steps p) (Some r) (nested_dir w dir r) (stack @ [r])
           (cache1, if all then out1 else out1 @ map (Pair (Some r)) (top_imports (p_steps p)))) out1"
  proof (cases t)
    case None
    then show ?thesis
      using visit d(2) by (simp add: beyond_def previews_none)
  next
    case (Some arp)
    then obtain all r p where t: "t = Some (all, r, p)"
      by (cases arp) auto
    have "expand_steps w all (p_steps p) (nested_dir w dir r) (stack @ [r]) st1 = Ok st2"
      using n t by simp
    note IH = Cons.IH(1) [OF v refl t refl refl this _ d(2) Cons.prems(4), of "Some r"]
    show ?thesis
      using visit t IH by (simp add: previews_target [of w dir k all r p, OF _ _ _ refl])
  qed
  have bodies: "previews w (if full then \<Union>b \<in> set (child_bodies k). Pair fl ` set (all_steps b) \<union> listed w (reach_set w True b dir) else {})
      (if full then fold_result (\<lambda>b. dry_steps w True b fl dir stack) (child_bodies k) (c, o') else Ok (c, o')) o'"
    if c: "cache_ok w c" for c o'
  proof (cases full)
    case True
    have IH: "previews w (Pair fl ` set (all_steps b) \<union> listed w (reach_set w True b dir)) (dry_steps w True b fl dir stack (cache, out)) out"
      if "b \<in> set (child_bodies k)" "expand_steps w True b dir stack s = Ok s'" "good w s" "cache_ok w cache" for b s s' cache out
      using Cons.IH(2) [OF v refl True that(1,2,3,4) Cons.prems(4), of fl out] by simp
    have "fold_result (\<lambda>b. expand_steps w True b dir stack) (child_bodies k) st2 = Ok st3"
      using b True by simp
    from fold_previews [OF IH expand_steps_good this g2 c] show ?thesis
      using True by simp
  qed (use c in \<open>simp add: previews_none\<close>)
  have "previews w ((if full then Pair fl ` set (all_steps ss) else {}) \<union> listed w (reach_set w full ss dir))
      (dry_steps w full ss fl dir stack (c, o')) o'" if "cache_ok w c" for c o'
    using Cons.IH(3) [OF v refl ss fold_expand_good [OF b g2] that Cons.prems(4)] .
  from previews_bind [OF target previews_bind [OF bodies this]]
  have "previews w (listed w (beyond w dir k) \<union> ((if full then \<Union>b \<in> set (child_bodies k).
        Pair fl ` set (all_steps b) \<union> listed w (reach_set w True b dir) else {})
      \<union> ((if full then Pair fl ` set (all_steps ss) else {}) \<union> listed w (reach_set w full ss dir))))
      (dry_steps w full (IStep n k # ss) fl dir stack (cache, out)) out1"
    unfolding dry_steps.simps Let_def d(1) out1_def [symmetric] and_then_def bind_result.simps prod.case by simp
  from previews_more [OF this, of out "if full then {(fl, IStep n k)} else {}"] show ?case
    by (cases full) (simp_all add: out1_def reach_set_Cons listed_Un listed_UN image_Un image_UN Un_ac UN_Un_distrib inner_steps_child_bodies)
qed (simp add: previews_none)

text \<open>The steps of the entry script alone, in the order of a listing.\<close>

definition own_steps :: "('p option \<times> istep) list \<Rightarrow> istep list" where
  "own_steps out = map snd (filter (\<lambda>e. fst e = None) out)"

lemma own_steps_simps [simp]:
  "own_steps [] = []" "own_steps (xs @ ys) = own_steps xs @ own_steps ys"
  "own_steps [(fl, s)] = (if fl = None then [s] else [])" "own_steps (map (Pair (Some r)) ss) = []"
  by (induction ss) (simp_all add: own_steps_def)

lemma fold_own_steps:
  assumes "fold_result f bs st = Ok st'"
    and "\<And>b s s'. b \<in> set bs \<Longrightarrow> f b s = Ok s' \<Longrightarrow> own_steps (snd s') = own_steps (snd s) @ L b"
  shows "own_steps (snd st') = own_steps (snd st) @ concat (map L bs)"
  using assms
proof (induction bs arbitrary: st)
  case (Cons b bs)
  then obtain s where s: "f b st = Ok s" "fold_result f bs s = Ok st'"
    by (auto simp: result_simps)
  with Cons show ?case
    by simp
qed simp

lemma dry_steps_ConsE:
  assumes "dry_steps w full (IStep n k # ss) fl dir stack (cache, out) = Ok st'"
  obtains t cache1 st2 st3 where "dry_import w k dir stack cache = Ok (t, cache1)"
    and "(case t of None \<Rightarrow> Ok (cache1, if full then out @ [(fl, IStep n k)] else out)
       | Some (all, r, p) \<Rightarrow> dry_steps w all (p_steps p) (Some r) (nested_dir w dir r) (stack @ [r])
           (cache1, if all then (if full then out @ [(fl, IStep n k)] else out)
              else (if full then out @ [(fl, IStep n k)] else out) @ map (Pair (Some r)) (top_imports (p_steps p)))) = Ok st2"
    and "(if full then fold_result (\<lambda>b. dry_steps w True b fl dir stack) (child_bodies k) st2 else Ok st2) = Ok st3"
    and "dry_steps w full ss fl dir stack st3 = Ok st'"
  using assms by (auto simp: result_simps Let_def simp del: if_split)

lemma dry_steps_own:
  assumes "dry_steps w full steps fl dir stack st = Ok st'"
  shows "own_steps (snd st') = own_steps (snd st) @ (if full \<and> fl = None then all_steps steps else [])"
  using assms
proof (induction w full steps fl dir stack st arbitrary: st' rule: dry_steps.induct [case_names Nil Cons])
  case (Cons w full n k ss fl dir stack cache out)
  define out1 where "out1 = (if full then out @ [(fl, IStep n k)] else out)"
  from Cons.prems obtain t cache1 st2 st3 where d: "dry_import w k dir stack cache = Ok (t, cache1)"
    and t: "(case t of None \<Rightarrow> Ok (cache1, out1)
       | Some (all, r, p) \<Rightarrow> dry_steps w all (p_steps p) (Some r) (nested_dir w dir r) (stack @ [r])
           (cache1, if all then out1 else out1 @ map (Pair (Some r)) (top_imports (p_steps p)))) = Ok st2"
    and b: "(if full then fold_result (\<lambda>b. dry_steps w True b fl dir stack) (child_bodies k) st2 else Ok st2) = Ok st3"
    and ss: "dry_steps w full ss fl dir stack st3 = Ok st'"
    unfolding out1_def by (rule dry_steps_ConsE)
  have 1: "own_steps (snd st2) = own_steps out1"
  proof (cases t)
    case (Some arp)
    then obtain all r p where tt: "t = Some (all, r, p)"
      by (cases arp) auto
    with t Cons.IH(1) [OF out1_def d refl tt refl refl, of st2] show ?thesis
      by simp
  qed (use t in auto)
  have 2: "own_steps (snd st3) = own_steps (snd st2) @ (if full \<and> fl = None then inner_steps k else [])"
  proof (cases full)
    case True
    have "fold_result (\<lambda>b. dry_steps w True b fl dir stack) (child_bodies k) st2 = Ok st3"
      using b True by simp
    then have "own_steps (snd st3) = own_steps (snd st2) @ concat (map (\<lambda>b. if fl = None then all_steps b else []) (child_bodies k))"
      by (rule fold_own_steps) (use Cons.IH(2) [OF out1_def d refl True] in simp)
    then show ?thesis
      using True by (simp add: inner_steps_child_bodies)
  qed (use b in simp)
  have "own_steps (snd st') = own_steps (snd st3) @ (if full \<and> fl = None then all_steps ss else [])"
    using Cons.IH(3) [OF out1_def d refl ss] .
  with 1 2 show ?case
    by (simp add: out1_def)
qed simp

text \<open>C19. 
  Whenever the closure of a script expands, where every file that can be read exists, its preview succeeds. It lists
  the steps of the entry script, bodies included, in the order of the text and each once, and, taken as a set of pairs
  of a file and a step, it is exactly the steps of the script and of the files reachable through visible imports; of a
  file that is only harvested it lists the top-level imports. An import whose result is captured is not visible.
\<close>

theorem preview_covers_closure:
  assumes "expand_import_closure w Map.empty steps base = Ok fs" and "loads_exist w"
  shows "\<exists>out. dry_run_closure w steps base = Ok out
    \<and> set out = Pair None ` set (all_steps steps) \<union> listed w (reach_set w True steps base)
    \<and> own_steps out = all_steps steps"
proof -
  obtain st where "expand_steps w True steps base [] (Map.empty, []) = Ok st"
    using assms(1) by (auto simp: expand_import_closure_def expand_walk_def result_simps)
  then have "previews w (Pair None ` set (all_steps steps) \<union> listed w (reach_set w True steps base))
      (dry_steps w True steps None base [] (Map.empty, [])) []"
    using dry_steps_follow [of w True steps base "[]" _ st Map.empty None "[]"] assms(2)
    by (simp add: good_def cache_ok_def files_ok_def)
  then obtain cache out where out: "dry_steps w True steps None base [] (Map.empty, []) = Ok (cache, out)"
    "set out = Pair None ` set (all_steps steps) \<union> listed w (reach_set w True steps base)"
    by (auto simp: previews_def)
  then show ?thesis
    using dry_steps_own [OF out(1)] by (simp add: dry_run_closure_def dry_run_walk_def)
qed

section \<open>Examples\<close>

text \<open>
  A small tree of files, named by numbers: the entry script in directory 0 imports \<open>a\<close> inside a body and harvests from
  \<open>b\<close>; \<open>a\<close> imports \<open>b\<close>; \<open>c\<close> imports itself; \<open>x\<close> is a host module and a file that does not parse.
\<close>

definition demo_world :: "nat import_world" where
  "demo_world = \<lparr>
     w_join = (\<lambda>d path. if path = ''a'' then Some 1 else if path = ''b'' then Some 2 else if path = ''c'' then Some 3
        else if path = ''x'' then Some 4 else None),
     w_parent = (\<lambda>r. Some 0), w_exists = (\<lambda>r. r \<in> {1, 2, 3, 4}),
     w_load = (\<lambda>r. if r = 1 then Some \<lparr>p_steps = [IStep 1 (ImportFile ''b'' ''B'')], p_funcs = [''F''], p_types = []\<rparr>
        else if r = 2 then Some \<lparr>p_steps = [IStep 1 (OtherStep 7)], p_funcs = [''G''], p_types = []\<rparr>
        else if r = 3 then Some \<lparr>p_steps = [IStep 1 (ImportFile ''c'' ''C'')], p_funcs = [], p_types = []\<rparr>
        else None),
     w_host = (\<lambda>m. m = ''x''), w_tag = (\<lambda>t. t = ''T'')\<rparr>"

definition demo_steps :: "istep list" where
  "demo_steps = [IStep 1 (ForStep [IStep 2 (ImportFile ''a'' ''A'')]), IStep 4 (ImportFuncs ''b'' None [''G''] [])]"

lemma demo_closure:
  "map_sum id (map (\<lambda>f. (c_key f, length (c_sites f)))) (expand_import_closure demo_world Map.empty demo_steps 0) = Ok [(1, 1), (2, 2)]"
  by (simp add: expand_import_closure_def expand_walk_def demo_steps_def demo_world_def and_then_def expand_load_def
      load_file_def host_types_only_def nested_dir_def MAX_IMPORT_DEPTH_def)

text \<open>A file that imports itself is refused with the chain of the cycle.\<close>

lemma self_import_refused:
  "expand_import_closure demo_world Map.empty [IStep 1 (ImportFile ''c'' ''C'')] 0 = Err (Cycle [3, 3])"
  by (simp add: expand_import_closure_def expand_walk_def demo_world_def and_then_def expand_load_def
      load_file_def nested_dir_def MAX_IMPORT_DEPTH_def)

text \<open>
  An import whose result is captured, \<open>LET $r = IMPORT ["a" AS A]\<close>, is in no body of its step: neither the expansion
  nor the preview sees the file, although the run loads and executes it. The plain import is seen by both.
\<close>

theorem captured_import_unseen:
  "expand_import_closure w ms [IStep n (CaptureStep (ImportFile path al))] base = Ok []
   \<and> dry_run_closure w [IStep n (CaptureStep (ImportFile path al))] base = Ok [(None, IStep n (CaptureStep (ImportFile path al)))]"
  by (simp add: expand_import_closure_def expand_walk_def dry_run_closure_def dry_run_walk_def and_then_def)

text \<open>
  A type harvest that names both a module of the host and a file that cannot be parsed fails the expansion, but the
  preview drops the error.
\<close>

theorem preview_drops_load_error:
  "expand_import_closure demo_world Map.empty [IStep 1 (ImportFuncs ''x'' None [] [''T''])] 0 = Err (LoadFailed ''x'')
   \<and> dry_run_closure demo_world [IStep 1 (ImportFuncs ''x'' None [] [''T''])] 0 = Ok [(None, IStep 1 (ImportFuncs ''x'' None [] [''T'']))]"
  by (simp add: expand_import_closure_def expand_walk_def dry_run_closure_def dry_run_walk_def and_then_def demo_world_def
      expand_load_def load_file_def dry_run_load_def host_types_only_def MAX_IMPORT_DEPTH_def)

theorem import_closure_exact_witness:
  "\<exists>fs. expand_import_closure demo_world Map.empty demo_steps 0 = Ok fs
    \<and> c_key ` set fs = (fst \<circ> snd) ` reach_set demo_world True demo_steps 0 \<and> c_key ` set fs = {1, 2}"
proof -
  obtain fs where fs: "expand_import_closure demo_world Map.empty demo_steps 0 = Ok fs" "map c_key fs = [1, 2]"
    using demo_closure by (cases "expand_import_closure demo_world Map.empty demo_steps 0") auto
  have "c_key ` set fs = {1, 2}"
    using fs(2) by (metis list.set_map list.simps(15) empty_set)
  then show ?thesis
    using import_closure_exact [OF fs(1)] fs(1) by (auto simp: cache_ok_def)
qed

theorem preview_covers_closure_witness:
  "\<exists>out. dry_run_closure demo_world demo_steps 0 = Ok out
    \<and> set out = Pair None ` set (all_steps demo_steps) \<union> listed demo_world (reach_set demo_world True demo_steps 0)
    \<and> own_steps out = all_steps demo_steps"
proof -
  obtain fs where "expand_import_closure demo_world Map.empty demo_steps 0 = Ok fs"
    using demo_closure by (cases "expand_import_closure demo_world Map.empty demo_steps 0") auto
  moreover have "loads_exist demo_world"
    by (simp add: loads_exist_def demo_world_def)
  ultimately show ?thesis
    by (rule preview_covers_closure)
qed

end
