(* ===== verification/Spec2Isabelle.thy ===== *)
theory Spec2Isabelle
  imports Spill_Buffer Pipe_Backend Pipe_Handle Semaphore Cancel_Hub Quantities Values Coercion
    Static_Tags Spelling Type_Resolution Guards Syntax Registry Exec_State Templates Streaming_Expand
    Arithmetic Json Expr_Eval Math_Compile Interpreter Fuel_Errors Frames Exec_Invariants Execution
    Termination Fuel_Independence Host_Fs Workspace_Guard Workspace_Io Workspace_Resolver
    Workspace_Containment Lexer Parser_Support Expr_Parser Expr_Roundtrip Expr_Meaning
    Statements Guard_Parser Guard_Roundtrip Utf8 Text_Pump Text_Functions Archive Import_Closure
begin

text \<open>
  \<^bold>\<open>OxDock\<close> runs scripts: a text is lexed and parsed into steps, the steps are checked statically
  and executed by an interpreter that evaluates expressions, expands templates, keeps typed
  variables in scopes, moves bytes through pipes between processes, and touches files only
  through a guarded workspace. This development models these parts as HOL functions over the
  data of the source, with the file and function names of \<open>src/crates\<close>, and proves what a script
  or an embedding program relies on. Every property is a theorem about the definitions; the text
  before it starts with its number.

  \<^bold>\<open>How the parts meet.\<close> The lexer gives tokens to the parser; the parser lowers expressions, folds
  constants and compiles arithmetic to stack code, and resolves the names of calls against the
  module table; the interpreter runs steps over the execution state, calls the evaluator for
  expressions, the coercion for every declared position, the templates for every text, the
  registry for functions, and the host for commands. Pipes, the cancellation hub and semaphores
  are shared between tasks; the workspace is what commands use to reach files.

  \<^bold>\<open>Theories and sources.\<close>
  \<^item> \<open>Prelude\<close>: results as sums, characters and text as the Rust library has them, shared lemmas.
  \<^item> \<open>Spill_Buffer\<close> (\<open>sys/oxdock-pipe/src/spill.rs\<close>): \<open>SpillBuffer\<close> and \<open>DiskSpill\<close> as records, one
    definition per method; the file system calls are the record \<open>os\<close>. Over any sequence of
    operations, failing ones included, bytes come out in the order they went in; only a failing
    truncation of a drained file loses bytes.
  \<^item> \<open>Pipe_Backend\<close> (\<open>backend.rs\<close>): counts of writers and keepers, close and cancel, readers asleep on
    a condition variable, as a step relation \<open>pipe_do\<close> over interleaved events. A locale states what
    the backend needs of a buffer and is interpreted on \<open>Spill_Buffer\<close>. A step
    updates the state and notifies at once; reads make progress and do not fail to truncate. No wake-up
    is lost, order is kept under every interleaving, end of file comes after the last byte and not while
    a keeper holds the pipe.
  \<^item> \<open>Pipe_Handle\<close> (\<open>slot.rs\<close>, \<open>oxdock-parser/src/value.rs\<close>): shared slots in an explicit heap, lazy
    binding, escape to child tasks. The first binding wins for every alias.
  \<^item> \<open>Semaphore\<close> (\<open>value.rs\<close>, \<open>native.rs\<close>) and \<open>Cancel_Hub\<close> (\<open>sys/oxdock-process/src/pump.rs\<close>): threads as
    program counters, interleavings as reachable states. Permits never exceed the cap; a sleeping
    supervisor is never stranded.
  \<^item> \<open>Quantities\<close> (\<open>oxdock-parser/src/command.rs\<close>): durations and byte counts, parsed and printed.
  \<^item> \<open>Values\<close>, \<open>Coercion\<close>, \<open>Static_Tags\<close> (\<open>value.rs\<close>, \<open>tag.rs\<close>, \<open>exec/args.rs\<close>, \<open>exec/static_check.rs\<close>): values, type
    tags, the check of a value against a tag, coercion at declared positions, and the static rules
    on tags. The check decides a typing relation with a rule per constructor; coercion yields typed values; what
    the static rules admit exactly is a subtype.
  \<^item> \<open>Spelling\<close>, \<open>Type_Resolution\<close> (\<open>tag.rs\<close>, \<open>exec/typing.rs\<close>): type spellings, aliases, records and the
    table of composed tags.
  \<^item> \<open>Guards\<close> (\<open>oxdock-parser/src/ast.rs\<close>): evaluation of step guards and the static analysis of
    guard lists.
  \<^item> \<open>Lexer\<close> (\<open>tok.rs\<close>), \<open>Parser_Support\<close> (\<open>resolve.rs\<close>, \<open>strip_flags.rs\<close>, \<open>command.rs\<close>): tokens with
    joints and positions, groups lexed by a child lexer; call names, flags, block strings. Tokens
    spell the source; lexing ends.
  \<^item> \<open>Expr_Parser\<close> (\<open>parser.rs\<close>, the expression tiers), \<open>Expr_Roundtrip\<close>, \<open>Expr_Meaning\<close>: a cursor is the list
    of tokens left; a locale states that a tier consumes input and each tier is a sublocale of the
    one below. Parsing ends, inverts printing with the fewest parentheses, and keeps the meaning of
    the tree through folding and compilation. Block bodies are parsed by an argument.
  \<^item> \<open>Statements\<close> (\<open>parser.rs\<close>, \<open>split_statements\<close>): the pass that cuts tokens into statements, as a record of
    the loop's variables and one definition per arm. The statements are the tokens read without comments, a
    reading given by rules of its own.
  \<^item> \<open>Guard_Parser\<close>, \<open>Guard_Roundtrip\<close> (\<open>parser.rs\<close>, \<open>ast.rs\<close>): guards parsed from tokens and printed. A locale
    states what a parser of nested guards promises and is interpreted on the recursive one. Parsing
    ends without a panic; lexing and parsing a printed guard gives it back.
  \<^item> \<open>Syntax\<close> (\<open>ast.rs\<close>, \<open>commands.rs\<close>): expressions, arguments and steps after lowering. A leaf command
    is a number with its arguments; spans are dropped.
  \<^item> \<open>Arithmetic\<close>, \<open>Math_Compile\<close> (\<open>exec/args.rs\<close>, \<open>commands.rs\<close>): operators on 64-bit integers and
    floats, constant folding, compilation to stack code. Folding and compilation preserve value,
    error and effects.
  \<^item> \<open>Templates\<close>, \<open>Streaming_Expand\<close> (\<open>template.rs\<close>, \<open>exec/args.rs\<close>, \<open>sys/oxdock-process/src/expand.rs\<close>):
    placeholders in strings and in streamed bytes. Chunking does not matter up to the limit case
    that is shown to matter; the buffer is bounded.
  \<^item> \<open>Utf8\<close>, \<open>Text_Pump\<close>, \<open>Text_Functions\<close> (\<open>exec/args.rs\<close>): text transforms applied to strings and streamed over
    pipes. A locale states what a kind of pump promises, a second one, a sublocale of it, covers the
    pumps that write once per chunk; the five kinds interpret them. Output does not depend on the
    cuts between chunks, except for lower case, and is a prefix of the right one when a pump fails.
  \<^item> \<open>Archive\<close> (\<open>oxdock-utils/src/tar.rs\<close>): tarballs over the formats of third-party crates, which are
    arguments. No path outside the root reaches the callback of an unpacking, packed entries come
    back, sniffing the compression loses no byte, and pruning lists children before parents.
  \<^item> \<open>Import_Closure\<close> (\<open>exec/import.rs\<close>): the files a script imports, found before a run and previewed by a
    dry run. Both walks are total by the bound on the nesting. What is found is what is reachable,
    without cycles, and the preview lists it; what stands in a script is written down apart from the walks.
    An import whose result is captured escapes both.
  \<^item> \<open>Json\<close> (\<open>exec/args.rs\<close>): values to JSON trees and back.
  \<^item> \<open>Registry\<close>, \<open>Exec_State\<close> (\<open>exec/native.rs\<close>, \<open>exec/state.rs\<close>): functions in lexical frames;
    variables in scopes, module stores, forks. The state is a record, innermost scope first.
  \<^item> \<open>Expr_Eval\<close>, \<open>Interpreter\<close> (\<open>exec/args.rs\<close>, \<open>exec/handlers.rs\<close>, \<open>exec/steps.rs\<close>): evaluation and
    execution by state passing, errors as values, control flow as a result. One function per
    handler.
  \<^item> \<open>Frames\<close> is the interface between the interpreter and the invariants of its runs: a locale whose
    laws are proved once per handler. \<open>Exec_Invariants\<close> and \<open>Termination\<close> interpret it. \<open>Fuel_Errors\<close>
    and \<open>Fuel_Independence\<close> deal with fuel, and \<open>Execution\<close> holds the properties of whole runs.
  \<^item> \<open>Host_Fs\<close>, \<open>Workspace_Guard\<close>, \<open>Workspace_Io\<close>, \<open>Workspace_Resolver\<close>, \<open>Workspace_Containment\<close>
    (\<open>sys/oxdock-fs/src/workspace_fs/\<close>): paths and a POSIX file system with links, the guard, the
    guarded operations, the resolver with its four roots, and containment of reads, writes
    and resolved paths in the selected root and the workspace root, with the two ways out that the code leaves.

  \<^bold>\<open>Bounds and fuel.\<close> The parser of type spellings takes the length of the text, the lexer one more
  than the length of the source, the parsers of expressions and guards the nesting of groups; each is proved
  enough, and a larger one to change nothing. The interpreter takes fuel because \<open>WHILE\<close> need not
  end: a script without it is proved to end with a fuel computed from its nesting and the
  call depth limit of 64, and a run that did not exhaust its fuel is the same at every larger one.
  The limit of a placeholder is 1024 bytes, that of a nested literal type 16, that of links in a
  path 40, as in the sources. Integers are 64-bit words; overflow is written out.

  \<^bold>\<open>Parameters.\<close> Arithmetic and text of floats, lossy UTF-8 decoding, the tables of letter case, system calls of the spill file, and
  the host behind leaf commands are arguments of the definitions that use them. A host operation
  changes the world and may raise the cancellation flag, and nothing else of the state.

  \<^bold>\<open>Not modelled.\<close> The grammar of the single statements, the execution of imported files, ASYNC tasks
  with their assertion windows, the flow-sensitive static pass over whole scripts, remote execution,
  wiring of process streams, spawning of processes, pseudo-terminals, the command line, servers and
  plugins: they are grammar tables with diagnostics, input and output, or glue over
  third-party libraries. Procedural macros run in the Rust compiler. Characters are the code points
  below 256. Names of environment variables are compared exactly, as in the builds other than
  Windows. Paths carry no trailing separator and the file system has no permissions.
\<close>

end
